(* ===== verification/Aws_Prelude.thy ===== *)
theory Aws_Prelude
  imports Main "HOL-Library.Word" "HOL-Library.Multiset"
begin

text \<open>
  Shared vocabulary of the development.

  \<^item> The fixed-width integers of the C sources (\<open>uint8_t\<close> to \<open>uint64_t\<close>) are words; \<open>size_t\<close> is the
    64-bit word of an LP64 target (\<open>SIZE_BITS == 64\<close> in \<open>include/aws/common/math.h\<close>).
  \<^item> \<open>aws_error\<close> lists the error codes of \<open>enum aws_common_error\<close> in
    \<open>include/aws/common/error.h\<close>.  A C function that returns \<open>AWS_OP_ERR\<close> after
    \<open>aws_raise_error(e)\<close> returns \<open>Inl (Raised e)\<close> here; a failed \<open>AWS_FATAL_PRECONDITION\<close> (which
    ends the process in every build) is \<open>Inl Aborted\<close>, and an access outside an object is
    \<open>Inl Undefined\<close>.  The non-fatal \<open>AWS_PRECONDITION\<close> and
    \<open>AWS_POSTCONDITION\<close> macros compile to nothing in a release build and have no counterpart in the
    definitions; the postconditions reappear as theorems.
  \<^item> The lemmas at the end are the word and list facts that the component theories share.
\<close>

unbundle bit_operations_syntax

type_synonym u8 = "8 word"
type_synonym u16 = "16 word"
type_synonym u32 = "32 word"
type_synonym u64 = "64 word"
type_synonym size_t = "64 word"

section \<open>Error codes and results\<close>

datatype (plugins del: "quickcheck") aws_error =
    AWS_ERROR_SUCCESS
  | AWS_ERROR_OOM
  | AWS_ERROR_NO_SPACE
  | AWS_ERROR_UNKNOWN
  | AWS_ERROR_SHORT_BUFFER
  | AWS_ERROR_OVERFLOW_DETECTED
  | AWS_ERROR_UNSUPPORTED_OPERATION
  | AWS_ERROR_INVALID_BUFFER_SIZE
  | AWS_ERROR_INVALID_HEX_STR
  | AWS_ERROR_INVALID_BASE64_STR
  | AWS_ERROR_INVALID_INDEX
  | AWS_ERROR_THREAD_INVALID_SETTINGS
  | AWS_ERROR_THREAD_INSUFFICIENT_RESOURCE
  | AWS_ERROR_THREAD_NO_PERMISSIONS
  | AWS_ERROR_THREAD_NOT_JOINABLE
  | AWS_ERROR_THREAD_NO_SUCH_THREAD_ID
  | AWS_ERROR_THREAD_DEADLOCK_DETECTED
  | AWS_ERROR_MUTEX_NOT_INIT
  | AWS_ERROR_MUTEX_TIMEOUT
  | AWS_ERROR_MUTEX_CALLER_NOT_OWNER
  | AWS_ERROR_MUTEX_FAILED
  | AWS_ERROR_COND_VARIABLE_INIT_FAILED
  | AWS_ERROR_COND_VARIABLE_TIMED_OUT
  | AWS_ERROR_COND_VARIABLE_ERROR_UNKNOWN
  | AWS_ERROR_CLOCK_FAILURE
  | AWS_ERROR_LIST_EMPTY
  | AWS_ERROR_DEST_COPY_TOO_SMALL
  | AWS_ERROR_LIST_EXCEEDS_MAX_SIZE
  | AWS_ERROR_LIST_STATIC_MODE_CANT_SHRINK
  | AWS_ERROR_PRIORITY_QUEUE_FULL
  | AWS_ERROR_PRIORITY_QUEUE_EMPTY
  | AWS_ERROR_PRIORITY_QUEUE_BAD_NODE
  | AWS_ERROR_HASHTBL_ITEM_NOT_FOUND
  | AWS_ERROR_INVALID_DATE_STR
  | AWS_ERROR_INVALID_ARGUMENT
  | AWS_ERROR_RANDOM_GEN_FAILED
  | AWS_ERROR_MALFORMED_INPUT_STRING
  | AWS_ERROR_UNIMPLEMENTED
  | AWS_ERROR_INVALID_STATE
  | AWS_ERROR_ENVIRONMENT_GET
  | AWS_ERROR_ENVIRONMENT_SET
  | AWS_ERROR_ENVIRONMENT_UNSET
  | AWS_ERROR_STREAM_UNSEEKABLE
  | AWS_ERROR_NO_PERMISSION
  | AWS_ERROR_FILE_INVALID_PATH
  | AWS_ERROR_MAX_FDS_EXCEEDED
  | AWS_ERROR_SYS_CALL_FAILURE
  | AWS_ERROR_C_STRING_BUFFER_NOT_NULL_TERMINATED
  | AWS_ERROR_STRING_MATCH_NOT_FOUND
  | AWS_ERROR_DIVIDE_BY_ZERO
  | AWS_ERROR_INVALID_FILE_HANDLE
  | AWS_ERROR_OPERATION_INTERUPTED
  | AWS_ERROR_DIRECTORY_NOT_EMPTY
  | AWS_ERROR_PLATFORM_NOT_SUPPORTED

datatype failure = Aborted | Undefined | Diverged | Raised aws_error

type_synonym 'a res = "failure + 'a"

abbreviation AWS_OP_SUCCESS :: "unit res" where
  "AWS_OP_SUCCESS \<equiv> Inr ()"

abbreviation aws_raise_error :: "aws_error \<Rightarrow> 'a res" where
  "aws_raise_error e \<equiv> Inl (Raised e)"

definition SIZE_MAX :: size_t where
  "SIZE_MAX = - 1"

text \<open>Sequencing of fallible steps: the first failure is the result.\<close>

primrec bind_res :: "'a res \<Rightarrow> ('a \<Rightarrow> 'b res) \<Rightarrow> 'b res" where
  "bind_res (Inl e) f = Inl e"
| "bind_res (Inr x) f = f x"

section \<open>Collections\<close>

named_theorems word_nat \<open>facts that move word arithmetic to natural numbers\<close>
named_theorems invariants \<open>preservation of the component invariants\<close>
named_theorems abs_simps \<open>effect of an operation on the abstraction of its state\<close>

section \<open>Words\<close>

definition no_ub :: "'b res \<Rightarrow> bool" where
  "no_ub r \<longleftrightarrow> r \<notin> {Inl Aborted, Inl Undefined, Inl Diverged}"

lemma no_ub_simps [simp]: "no_ub (Inr x)" "no_ub (Inl (Raised e))"
  by (simp_all add: no_ub_def)

lemma bind_res_Inr_iff: "bind_res m f = Inr y \<longleftrightarrow> (\<exists>x. m = Inr x \<and> f x = Inr y)"
  by (cases m) auto

lemma unat_SIZE_MAX [simp]: "unat SIZE_MAX = 2 ^ 64 - 1"
  by (simp add: SIZE_MAX_def unsigned_minus_1_eq_mask mask_eq_exp_minus_1)

lemma unat_le_SIZE_MAX [simp]: "(x :: size_t) \<le> SIZE_MAX"
  by (simp add: SIZE_MAX_def)

lemma unat_size_lt [simp]: "unat (x :: size_t) < 18446744073709551616"
  using unsigned_less [of x] by simp

lemma unat_add_exact [word_nat]:
  "unat (a :: 'a :: len word) + unat b < 2 ^ LENGTH('a) \<Longrightarrow> unat (a + b) = unat a + unat b"
  by (simp add: unat_add_lem)

lemma unat_mul_exact [word_nat]:
  "unat (a :: 'a :: len word) * unat b < 2 ^ LENGTH('a) \<Longrightarrow> unat (a * b) = unat a * unat b"
  by (simp add: unat_mult_lem)

lemma unat_sub_exact [word_nat]:
  "b \<le> a \<Longrightarrow> unat (a - b) = unat a - unat b"
  by (rule unat_sub)

lemma unat_succ_exact [word_nat]:
  "unat (a :: size_t) < 18446744073709551615 \<Longrightarrow> unat (a + 1) = unat a + 1"
  by (subst unat_add_exact) auto

lemma unat_eq_zero_iff [simp]: "unat (a :: 'a :: len word) = 0 \<longleftrightarrow> a = 0"
  by (rule unat_eq_zero)

lemma unat_minus_1: "unat (- 1 :: 'a :: len word) = 2 ^ LENGTH('a) - 1"
  by (simp only: unsigned_minus_1_eq_mask mask_eq_exp_minus_1)

lemma unat_pow2: "k < LENGTH('a) \<Longrightarrow> unat (2 ^ k :: 'a :: len word) = 2 ^ k"
proof -
  assume "k < LENGTH('a)"
  then have "unat (word_of_nat (2 ^ k) :: 'a word) = 2 ^ k"
    by (simp only: unsigned_of_nat take_bit_nat_eq_self of_nat_id power_strict_increasing_iff)
  then show ?thesis by simp
qed

lemma bit_nat_top: "2 ^ h \<le> (n :: nat) \<Longrightarrow> n < 2 ^ Suc h \<Longrightarrow> bit n h"
proof -
  assume "2 ^ h \<le> n" "n < 2 ^ Suc h"
  then have "n div 2 ^ h = 1" by (intro div_nat_eqI) auto
  then show ?thesis by (simp add: bit_iff_odd)
qed

lemma top_bit_exists:
  assumes "0 < (n :: nat)" shows "\<exists>h. 2 ^ h \<le> n \<and> n < 2 ^ Suc h"
  using ex_power_ivl1 [of 2 n] assms by auto

lemma unat_word_of_nat [word_nat]: "n < 2 ^ LENGTH('a) \<Longrightarrow> unat (word_of_nat n :: 'a :: len word) = n"
  by (simp only: unsigned_of_nat take_bit_nat_eq_self of_nat_id)

end
