(* ===== verification/Math_Ops.thy ===== *)
theory Math_Ops
  imports Aws_Prelude
begin

text \<open>
  Overflow-checked and saturating arithmetic of \<open>include/aws/common/math.inl\<close>, in the two variants
  that are plain C: the division-based fallback (\<open>math.fallback.inl\<close>) and the one on the compiler's
  overflow builtins (\<open>math.gcc_overflow.inl\<close>), the power-of-two helpers, the bit-scanning loops of
  the fallback and the varargs sum of \<open>source/math.c\<close>.  The theorems show that each operation is
  exact or reports the overflow, that the two variants agree, that \<open>aws_round_up_to_power_of_two\<close>
  returns the least power of two, and what the bit scans count.
\<close>

section \<open>Fallback variant\<close>

definition UINT64_MAX :: u64 where
  "UINT64_MAX = - 1"

definition UINT32_MAX :: u32 where
  "UINT32_MAX = - 1"

definition aws_mul_u64_saturating :: "u64 \<Rightarrow> u64 \<Rightarrow> u64" where
  "aws_mul_u64_saturating a b =
     (if a > 0 \<and> b > 0 \<and> a > UINT64_MAX div b then UINT64_MAX else a * b)"

definition aws_mul_u64_checked :: "u64 \<Rightarrow> u64 \<Rightarrow> u64 res" where
  "aws_mul_u64_checked a b =
     (if a > 0 \<and> b > 0 \<and> a > UINT64_MAX div b then aws_raise_error AWS_ERROR_OVERFLOW_DETECTED
      else Inr (a * b))"

definition aws_mul_u32_saturating :: "u32 \<Rightarrow> u32 \<Rightarrow> u32" where
  "aws_mul_u32_saturating a b =
     (if a > 0 \<and> b > 0 \<and> a > UINT32_MAX div b then UINT32_MAX else a * b)"

definition aws_mul_u32_checked :: "u32 \<Rightarrow> u32 \<Rightarrow> u32 res" where
  "aws_mul_u32_checked a b =
     (if a > 0 \<and> b > 0 \<and> a > UINT32_MAX div b then aws_raise_error AWS_ERROR_OVERFLOW_DETECTED
      else Inr (a * b))"

definition aws_add_u64_saturating :: "u64 \<Rightarrow> u64 \<Rightarrow> u64" where
  "aws_add_u64_saturating a b =
     (if b > 0 \<and> a > UINT64_MAX - b then UINT64_MAX else a + b)"

definition aws_add_u64_checked :: "u64 \<Rightarrow> u64 \<Rightarrow> u64 res" where
  "aws_add_u64_checked a b =
     (if b > 0 \<and> a > UINT64_MAX - b then aws_raise_error AWS_ERROR_OVERFLOW_DETECTED
      else Inr (a + b))"

definition aws_add_u32_saturating :: "u32 \<Rightarrow> u32 \<Rightarrow> u32" where
  "aws_add_u32_saturating a b =
     (if b > 0 \<and> a > UINT32_MAX - b then UINT32_MAX else a + b)"

definition aws_add_u32_checked :: "u32 \<Rightarrow> u32 \<Rightarrow> u32 res" where
  "aws_add_u32_checked a b =
     (if b > 0 \<and> a > UINT32_MAX - b then aws_raise_error AWS_ERROR_OVERFLOW_DETECTED
      else Inr (a + b))"

section \<open>Variant on the compiler's overflow builtins\<close>

text \<open>
  \<open>__builtin_mul_overflow(a, b, &r)\<close> and \<open>__builtin_add_overflow(a, b, &r)\<close> store the wrapped result
  and return whether the exact one did not fit.
\<close>

definition builtin_mul_overflow :: "'a :: len word \<Rightarrow> 'a word \<Rightarrow> bool \<times> 'a word" where
  "builtin_mul_overflow a b = (2 ^ LENGTH('a) \<le> unat a * unat b, a * b)"

definition builtin_add_overflow :: "'a :: len word \<Rightarrow> 'a word \<Rightarrow> bool \<times> 'a word" where
  "builtin_add_overflow a b = (2 ^ LENGTH('a) \<le> unat a + unat b, a + b)"

definition gcc_mul_u64_saturating :: "u64 \<Rightarrow> u64 \<Rightarrow> u64" where
  "gcc_mul_u64_saturating a b =
     (let (ov, r) = builtin_mul_overflow a b in if ov then UINT64_MAX else r)"

definition gcc_mul_u64_checked :: "u64 \<Rightarrow> u64 \<Rightarrow> u64 res" where
  "gcc_mul_u64_checked a b =
     (let (ov, r) = builtin_mul_overflow a b
      in if ov then aws_raise_error AWS_ERROR_OVERFLOW_DETECTED else Inr r)"

definition gcc_mul_u32_saturating :: "u32 \<Rightarrow> u32 \<Rightarrow> u32" where
  "gcc_mul_u32_saturating a b =
     (let (ov, r) = builtin_mul_overflow a b in if ov then UINT32_MAX else r)"

definition gcc_mul_u32_checked :: "u32 \<Rightarrow> u32 \<Rightarrow> u32 res" where
  "gcc_mul_u32_checked a b =
     (let (ov, r) = builtin_mul_overflow a b
      in if ov then aws_raise_error AWS_ERROR_OVERFLOW_DETECTED else Inr r)"

definition gcc_add_u64_checked :: "u64 \<Rightarrow> u64 \<Rightarrow> u64 res" where
  "gcc_add_u64_checked a b =
     (let (ov, r) = builtin_add_overflow a b
      in if ov then aws_raise_error AWS_ERROR_OVERFLOW_DETECTED else Inr r)"

definition gcc_add_u64_saturating :: "u64 \<Rightarrow> u64 \<Rightarrow> u64" where
  "gcc_add_u64_saturating a b =
     (let (ov, r) = builtin_add_overflow a b in if ov then UINT64_MAX else r)"

definition gcc_add_u32_checked :: "u32 \<Rightarrow> u32 \<Rightarrow> u32 res" where
  "gcc_add_u32_checked a b =
     (let (ov, r) = builtin_add_overflow a b
      in if ov then aws_raise_error AWS_ERROR_OVERFLOW_DETECTED else Inr r)"

definition gcc_add_u32_saturating :: "u32 \<Rightarrow> u32 \<Rightarrow> u32" where
  "gcc_add_u32_saturating a b =
     (let (ov, r) = builtin_add_overflow a b in if ov then UINT32_MAX else r)"

section \<open>Subtraction and the size variants\<close>

definition aws_sub_u64_saturating :: "u64 \<Rightarrow> u64 \<Rightarrow> u64" where
  "aws_sub_u64_saturating a b = (if a \<le> b then 0 else a - b)"

definition aws_sub_u64_checked :: "u64 \<Rightarrow> u64 \<Rightarrow> u64 res" where
  "aws_sub_u64_checked a b =
     (if a < b then aws_raise_error AWS_ERROR_OVERFLOW_DETECTED else Inr (a - b))"

definition aws_sub_u32_saturating :: "u32 \<Rightarrow> u32 \<Rightarrow> u32" where
  "aws_sub_u32_saturating a b = (if a \<le> b then 0 else a - b)"

definition aws_sub_u32_checked :: "u32 \<Rightarrow> u32 \<Rightarrow> u32 res" where
  "aws_sub_u32_checked a b =
     (if a < b then aws_raise_error AWS_ERROR_OVERFLOW_DETECTED else Inr (a - b))"

definition aws_mul_size_saturating :: "size_t \<Rightarrow> size_t \<Rightarrow> size_t" where
  "aws_mul_size_saturating a b = aws_mul_u64_saturating a b"

definition aws_mul_size_checked :: "size_t \<Rightarrow> size_t \<Rightarrow> size_t res" where
  "aws_mul_size_checked a b = aws_mul_u64_checked a b"

definition aws_add_size_saturating :: "size_t \<Rightarrow> size_t \<Rightarrow> size_t" where
  "aws_add_size_saturating a b = aws_add_u64_saturating a b"

definition aws_add_size_checked :: "size_t \<Rightarrow> size_t \<Rightarrow> size_t res" where
  "aws_add_size_checked a b = aws_add_u64_checked a b"

definition aws_sub_size_saturating :: "size_t \<Rightarrow> size_t \<Rightarrow> size_t" where
  "aws_sub_size_saturating a b = aws_sub_u64_saturating a b"

definition aws_sub_size_checked :: "size_t \<Rightarrow> size_t \<Rightarrow> size_t res" where
  "aws_sub_size_checked a b = aws_sub_u64_checked a b"

text \<open>
  \<open>aws_add_size_checked_varargs\<close> (\<open>source/math.c\<close>): the variadic arguments are a list, of which the
  loop reads the first \<open>num\<close>; \<open>None\<close> is the undefined read past the last argument.
\<close>

fun add_size_varargs_loop :: "nat \<Rightarrow> size_t \<Rightarrow> size_t list \<Rightarrow> size_t res option" where
  "add_size_varargs_loop 0 accum args = Some (Inr accum)"
| "add_size_varargs_loop (Suc n) accum [] = None"
| "add_size_varargs_loop (Suc n) accum (x # args) =
     (case aws_add_size_checked accum x of
        Inl e \<Rightarrow> Some (Inl e)
      | Inr accum' \<Rightarrow> add_size_varargs_loop n accum' args)"

definition aws_add_size_checked_varargs :: "size_t \<Rightarrow> size_t list \<Rightarrow> size_t res option" where
  "aws_add_size_checked_varargs num args = add_size_varargs_loop (unat num) 0 args"

section \<open>Powers of two\<close>

definition SIZE_MAX_POWER_OF_TWO :: size_t where
  "SIZE_MAX_POWER_OF_TWO = push_bit 63 1"

definition aws_is_power_of_two :: "size_t \<Rightarrow> bool" where
  "aws_is_power_of_two x \<longleftrightarrow> x \<noteq> 0 \<and> x AND (x - 1) = 0"

definition aws_round_up_to_power_of_two :: "size_t \<Rightarrow> size_t res" where
  "aws_round_up_to_power_of_two n =
     (if n = 0 then Inr 1
      else if n > SIZE_MAX_POWER_OF_TWO then aws_raise_error AWS_ERROR_OVERFLOW_DETECTED
      else
        let n = n - 1;
            n = n OR drop_bit 1 n;
            n = n OR drop_bit 2 n;
            n = n OR drop_bit 4 n;
            n = n OR drop_bit 8 n;
            n = n OR drop_bit 16 n;
            n = n OR drop_bit 32 n
        in Inr (n + 1))"

section \<open>Bit scans of the fallback\<close>

text \<open>
  The signed argument \<open>n\<close> is its two's complement word; \<open>n < 0\<close> is its top bit.  The loop of
  \<open>aws_clz_i32\<close> shifts left until the sign bit is set; each round of \<open>clz_loop\<close> is one iteration,
  with the bit width as the bound on the number of rounds.
\<close>

fun clz_loop :: "nat \<Rightarrow> 'a :: len word \<Rightarrow> nat \<Rightarrow> nat option" where
  "clz_loop 0 n idx = None"
| "clz_loop (Suc fuel) n idx =
     (if bit n (LENGTH('a) - 1) then Some idx else clz_loop fuel (push_bit 1 n) (idx + 1))"

definition aws_clz_i32 :: "u32 \<Rightarrow> nat option" where
  "aws_clz_i32 n = (if n = 0 then Some 32 else if bit n 31 then Some 0 else clz_loop 33 n 0)"

definition aws_clz_u32 :: "u32 \<Rightarrow> nat option" where
  "aws_clz_u32 n = aws_clz_i32 n"

definition aws_clz_i64 :: "u64 \<Rightarrow> nat option" where
  "aws_clz_i64 n = (if n = 0 then Some 64 else if bit n 63 then Some 0 else clz_loop 65 n 0)"

definition aws_clz_u64 :: "u64 \<Rightarrow> nat option" where
  "aws_clz_u64 n = aws_clz_i64 n"

definition aws_clz_size :: "size_t \<Rightarrow> nat option" where
  "aws_clz_size n = aws_clz_u64 n"

text \<open>
  The loop of \<open>aws_ctz_i32\<close> tests bit \<open>idx\<close> for \<open>idx < max_bits\<close> with \<open>max_bits = SIZE_BITS\<close>; the
  first argument counts the rounds that are left.
\<close>

fun ctz_loop :: "nat \<Rightarrow> 'a :: len word \<Rightarrow> nat \<Rightarrow> nat" where
  "ctz_loop 0 n idx = idx"
| "ctz_loop (Suc k) n idx = (if n AND push_bit idx 1 \<noteq> 0 then idx else ctz_loop k n (idx + 1))"

definition aws_ctz_i32 :: "u32 \<Rightarrow> nat" where
  "aws_ctz_i32 n = (if n = 0 then 32 else ctz_loop 64 n 0)"

definition aws_ctz_u32 :: "u32 \<Rightarrow> nat" where
  "aws_ctz_u32 n = aws_ctz_i32 n"

definition aws_ctz_i64 :: "u64 \<Rightarrow> nat" where
  "aws_ctz_i64 n = (if n = 0 then 64 else ctz_loop 64 n 0)"

definition aws_ctz_u64 :: "u64 \<Rightarrow> nat" where
  "aws_ctz_u64 n = aws_ctz_i64 n"

definition aws_ctz_size :: "size_t \<Rightarrow> nat" where
  "aws_ctz_size n = aws_ctz_u64 n"

section \<open>Bit scans on the compiler's builtins\<close>

text \<open>
  \<open>__builtin_clz*\<close> and \<open>__builtin_ctz*\<close> count the zero bits above the highest and below the lowest set
  bit of their argument and are undefined (\<open>None\<close>) at zero.  \<open>aws_clz_u32\<close> and \<open>aws_ctz_u32\<close> of
  \<open>math.gcc_builtin.inl\<close> call the \<open>unsigned long\<close> variants, whose argument has 64 bits on LP64.
\<close>

definition builtin_clz :: "'a :: len word \<Rightarrow> nat option" where
  "builtin_clz n =
     (if n = 0 then None else Some (length (takeWhile (\<lambda>i. \<not> bit n i) (rev [0..<LENGTH('a)]))))"

definition builtin_ctz :: "'a :: len word \<Rightarrow> nat option" where
  "builtin_ctz n =
     (if n = 0 then None else Some (length (takeWhile (\<lambda>i. \<not> bit n i) [0..<LENGTH('a)])))"

definition gcc_clz_u32 :: "u32 \<Rightarrow> nat option" where
  "gcc_clz_u32 n = builtin_clz (ucast n :: u64)"

definition gcc_clz_i32 :: "u32 \<Rightarrow> nat option" where
  "gcc_clz_i32 n = builtin_clz n"

definition gcc_clz_u64 :: "u64 \<Rightarrow> nat option" where
  "gcc_clz_u64 n = builtin_clz n"

definition gcc_clz_i64 :: "u64 \<Rightarrow> nat option" where
  "gcc_clz_i64 n = builtin_clz n"

definition gcc_clz_size :: "size_t \<Rightarrow> nat option" where
  "gcc_clz_size n = gcc_clz_u64 n"

definition gcc_ctz_u32 :: "u32 \<Rightarrow> nat option" where
  "gcc_ctz_u32 n = builtin_ctz (ucast n :: u64)"

definition gcc_ctz_i32 :: "u32 \<Rightarrow> nat option" where
  "gcc_ctz_i32 n = builtin_ctz n"

definition gcc_ctz_u64 :: "u64 \<Rightarrow> nat option" where
  "gcc_ctz_u64 n = builtin_ctz n"

definition gcc_ctz_i64 :: "u64 \<Rightarrow> nat option" where
  "gcc_ctz_i64 n = builtin_ctz n"

definition gcc_ctz_size :: "size_t \<Rightarrow> nat option" where
  "gcc_ctz_size n = gcc_ctz_u64 n"

section \<open>Minimum and maximum\<close>

text \<open>The signed variants compare the two's complement values of the words.\<close>

definition aws_min_u8 :: "u8 \<Rightarrow> u8 \<Rightarrow> u8" where
  "aws_min_u8 a b = (if a < b then a else b)"

definition aws_max_u8 :: "u8 \<Rightarrow> u8 \<Rightarrow> u8" where
  "aws_max_u8 a b = (if a > b then a else b)"

definition aws_min_i8 :: "u8 \<Rightarrow> u8 \<Rightarrow> u8" where
  "aws_min_i8 a b = (if sint a < sint b then a else b)"

definition aws_max_i8 :: "u8 \<Rightarrow> u8 \<Rightarrow> u8" where
  "aws_max_i8 a b = (if sint a > sint b then a else b)"

definition aws_min_u16 :: "u16 \<Rightarrow> u16 \<Rightarrow> u16" where
  "aws_min_u16 a b = (if a < b then a else b)"

definition aws_max_u16 :: "u16 \<Rightarrow> u16 \<Rightarrow> u16" where
  "aws_max_u16 a b = (if a > b then a else b)"

definition aws_min_i16 :: "u16 \<Rightarrow> u16 \<Rightarrow> u16" where
  "aws_min_i16 a b = (if sint a < sint b then a else b)"

definition aws_max_i16 :: "u16 \<Rightarrow> u16 \<Rightarrow> u16" where
  "aws_max_i16 a b = (if sint a > sint b then a else b)"

definition aws_min_u32 :: "u32 \<Rightarrow> u32 \<Rightarrow> u32" where
  "aws_min_u32 a b = (if a < b then a else b)"

definition aws_max_u32 :: "u32 \<Rightarrow> u32 \<Rightarrow> u32" where
  "aws_max_u32 a b = (if a > b then a else b)"

definition aws_min_i32 :: "u32 \<Rightarrow> u32 \<Rightarrow> u32" where
  "aws_min_i32 a b = (if sint a < sint b then a else b)"

definition aws_max_i32 :: "u32 \<Rightarrow> u32 \<Rightarrow> u32" where
  "aws_max_i32 a b = (if sint a > sint b then a else b)"

definition aws_min_u64 :: "u64 \<Rightarrow> u64 \<Rightarrow> u64" where
  "aws_min_u64 a b = (if a < b then a else b)"

definition aws_max_u64 :: "u64 \<Rightarrow> u64 \<Rightarrow> u64" where
  "aws_max_u64 a b = (if a > b then a else b)"

definition aws_min_i64 :: "u64 \<Rightarrow> u64 \<Rightarrow> u64" where
  "aws_min_i64 a b = (if sint a < sint b then a else b)"

definition aws_max_i64 :: "u64 \<Rightarrow> u64 \<Rightarrow> u64" where
  "aws_max_i64 a b = (if sint a > sint b then a else b)"

definition aws_min_size :: "size_t \<Rightarrow> size_t \<Rightarrow> size_t" where
  "aws_min_size a b = (if a < b then a else b)"

definition aws_max_size :: "size_t \<Rightarrow> size_t \<Rightarrow> size_t" where
  "aws_max_size a b = (if a > b then a else b)"

definition aws_min_int :: "u32 \<Rightarrow> u32 \<Rightarrow> u32" where
  "aws_min_int a b = (if sint a < sint b then a else b)"

definition aws_max_int :: "u32 \<Rightarrow> u32 \<Rightarrow> u32" where
  "aws_max_int a b = (if sint a > sint b then a else b)"

section \<open>Lemmas\<close>


lemma mul_overflow_iff:
  fixes a b :: "'a :: len word"
  shows "(a > 0 \<and> b > 0 \<and> a > (- 1) div b) \<longleftrightarrow> 2 ^ LENGTH('a) \<le> unat a * unat b"
proof (cases "a = 0 \<or> b = 0")
  case True
  then show ?thesis by auto
next
  case False
  then have pos: "0 < unat a" "0 < unat b" by (auto simp: unat_gt_0)
  have m: "unat (- 1 :: 'a word) = 2 ^ LENGTH('a) - 1" by (rule unat_minus_1)
  have "a > (- 1) div b \<longleftrightarrow> (2 ^ LENGTH('a) - 1) div unat b < unat a"
    by (simp add: word_less_nat_alt unat_div m)
  also have "\<dots> \<longleftrightarrow> 2 ^ LENGTH('a) - 1 < unat a * unat b"
    using pos by (simp add: div_less_iff_less_mult)
  also have "\<dots> \<longleftrightarrow> 2 ^ LENGTH('a) \<le> unat a * unat b"
    by (metis Suc_le_eq Suc_pred' zero_less_numeral zero_less_power)
  finally show ?thesis using False by (auto simp: word_gt_0)
qed

lemma add_overflow_iff:
  fixes a b :: "'a :: len word"
  shows "(b > 0 \<and> a > (- 1) - b) \<longleftrightarrow> 2 ^ LENGTH('a) \<le> unat a + unat b"
proof -
  have m: "unat (- 1 :: 'a word) = 2 ^ LENGTH('a) - 1" by (rule unat_minus_1)
  have s: "unat (- 1 - b) = 2 ^ LENGTH('a) - 1 - unat b"
    by (subst unat_sub) (simp_all add: m)
  have "unat b < 2 ^ LENGTH('a)" "unat a < 2 ^ LENGTH('a)" by (rule unsigned_less)+
  then have "a > - 1 - b \<longleftrightarrow> 2 ^ LENGTH('a) \<le> unat a + unat b"
    unfolding word_less_nat_alt s by arith
  moreover have "b = 0 \<Longrightarrow> \<not> 2 ^ LENGTH('a) \<le> unat a + unat b"
    using \<open>unat a < 2 ^ LENGTH('a)\<close> by (simp add: not_le)
  ultimately show ?thesis by (auto simp: word_gt_0)
qed

lemma aws_mul_size_checked_eq:
  "aws_mul_size_checked a b =
     (if unat a * unat b < 2 ^ 64 then Inr (a * b) else aws_raise_error AWS_ERROR_OVERFLOW_DETECTED)"
  using mul_overflow_iff [of a b]
  by (auto simp: aws_mul_size_checked_def aws_mul_u64_checked_def UINT64_MAX_def)


lemma aws_add_size_checked_eq:
  "aws_add_size_checked a b =
     (if unat a + unat b < 2 ^ 64 then Inr (a + b) else aws_raise_error AWS_ERROR_OVERFLOW_DETECTED)"
  using add_overflow_iff [of b a]
  by (auto simp: aws_add_size_checked_def aws_add_u64_checked_def UINT64_MAX_def)

lemma smear_step:
  fixes x n :: size_t
  assumes "\<And>i. bit x i \<longleftrightarrow> (\<exists>j < k. bit n (i + j))"
    and "m = 2 * k"
  shows "bit (x OR drop_bit k x) i \<longleftrightarrow> (\<exists>j < m. bit n (i + j))"
  unfolding \<open>m = 2 * k\<close>
proof
  assume "bit (x OR drop_bit k x) i"
  then consider j where "j < k" "bit n (i + j)" | j where "j < k" "bit n (k + i + j)"
    by (auto simp: bit_or_iff bit_drop_bit_eq assms(1) ac_simps)
  then show "\<exists>j < 2 * k. bit n (i + j)"
  proof cases
    case 1
    then show ?thesis by (intro exI [of _ j]) auto
  next
    case 2
    then show ?thesis by (intro exI [of _ "k + j"]) (auto simp: ac_simps)
  qed
next
  assume "\<exists>j < 2 * k. bit n (i + j)"
  then obtain j where j: "j < 2 * k" "bit n (i + j)" by blast
  show "bit (x OR drop_bit k x) i"
  proof (cases "j < k")
    case True
    with j show ?thesis by (auto simp: bit_or_iff assms(1))
  next
    case False
    with j have "j - k < k" "bit n (k + i + (j - k))" by (auto simp: ac_simps)
    then show ?thesis by (auto simp: bit_or_iff bit_drop_bit_eq assms(1))
  qed
qed

definition smear :: "size_t \<Rightarrow> size_t" where
  "smear n = (let n = n OR drop_bit 1 n;
            n = n OR drop_bit 2 n;
            n = n OR drop_bit 4 n;
            n = n OR drop_bit 8 n;
            n = n OR drop_bit 16 n;
            n = n OR drop_bit 32 n
        in n)"

lemma bit_smear: "bit (smear n) i \<longleftrightarrow> (\<exists>j \<ge> i. bit n j)"
proof -
  have 0: "bit n i \<longleftrightarrow> (\<exists>j < 1. bit n (i + j))" for i by simp
  note s1 = smear_step [OF 0, of 2]
  note s2 = smear_step [OF s1, of 4]
  note s4 = smear_step [OF s2, of 8]
  note s8 = smear_step [OF s4, of 16]
  note s16 = smear_step [OF s8, of 32]
  note s32 = smear_step [OF s16, of 64]
  have "bit (smear n) i \<longleftrightarrow> (\<exists>j < 64. bit n (i + j))"
    unfolding smear_def Let_def by (rule s32) simp_all
  also have "\<dots> \<longleftrightarrow> (\<exists>j \<ge> i. bit n j)"
  proof
    assume "\<exists>j \<ge> i. bit n j"
    then obtain j where j: "i \<le> j" "bit n j" by blast
    from bit_imp_le_length [OF j(2)] have "j < 64" by simp
    with j show "\<exists>j < 64. bit n (i + j)" by (intro exI [of _ "j - i"]) auto
  qed (use le_add1 in blast)
  finally show ?thesis .
qed

lemma smear_eq_mask: "\<exists>k \<le> 64. smear n = mask k \<and> unat n < 2 ^ k \<and> (k = 0 \<or> 2 ^ (k - 1) \<le> unat n)"
proof (cases "n = 0")
  case True
  then have "smear n = mask 0" by (intro bit_eqI) (simp add: bit_smear)
  with True show ?thesis by (intro exI [of _ 0]) simp
next
  case False
  define S where "S = {j. bit n j}"
  have fin: "finite S" unfolding S_def
    by (rule finite_subset [of _ "{..<64}"]) (auto dest: bit_imp_le_length)
  have ne: "S \<noteq> {}" using False by (auto simp: S_def bit_eq_iff)
  define h where "h = Max S"
  have h: "bit n h" using Max_in [OF fin ne] by (simp add: h_def S_def)
  have up: "j \<le> h" if "bit n j" for j using Max_ge [OF fin, of j] that by (simp add: h_def S_def)
  have h64: "h < 64" using bit_imp_le_length [OF h] by simp
  have "smear n = mask (Suc h)"
    by (rule bit_word_eqI) (auto simp: bit_smear bit_mask_iff less_Suc_eq_le intro: h dest: up le_trans)
  moreover have "unat n < 2 ^ Suc h"
  proof -
    have "take_bit (Suc h) n = n"
      by (rule bit_word_eqI) (auto simp: bit_take_bit_iff less_Suc_eq_le dest: up)
    then have "take_bit (Suc h) (unat n) = unat n" by (metis unsigned_take_bit_eq)
    then show ?thesis by (metis take_bit_nat_less_exp)
  qed
  moreover have "2 ^ h \<le> unat n"
  proof -
    have "bit (unat n) h" using h by (simp add: bit_unsigned_iff)
    then show ?thesis by (metis bit_iff_odd div_less even_zero not_le)
  qed
  ultimately show ?thesis using h64 by (intro exI [of _ "Suc h"]) simp
qed

lemma round_up_unfold:
  "aws_round_up_to_power_of_two n =
     (if n = 0 then Inr 1
      else if n > SIZE_MAX_POWER_OF_TWO then aws_raise_error AWS_ERROR_OVERFLOW_DETECTED
      else Inr (smear (n - 1) + 1))"
  by (simp add: aws_round_up_to_power_of_two_def smear_def Let_def)

lemma unat_SIZE_MAX_POWER_OF_TWO: "unat SIZE_MAX_POWER_OF_TWO = 2 ^ 63"
  by (simp add: SIZE_MAX_POWER_OF_TWO_def)

lemma round_up_spec:
  assumes "aws_round_up_to_power_of_two n = Inr r"
  shows "\<exists>k < 64. unat r = 2 ^ k \<and> unat n \<le> 2 ^ k \<and> (\<forall>j. unat n \<le> 2 ^ j \<longrightarrow> k \<le> j)"
proof (cases "n = 0")
  case True
  with assms show ?thesis by (intro exI [of _ 0]) (simp add: round_up_unfold)
next
  case False
  with assms have le: "n \<le> SIZE_MAX_POWER_OF_TWO" and r: "r = smear (n - 1) + 1"
    by (auto simp: round_up_unfold not_less split: if_splits)
  obtain k where k: "smear (n - 1) = mask k" "unat (n - 1) < 2 ^ k" "k = 0 \<or> 2 ^ (k - 1) \<le> unat (n - 1)"
    using smear_eq_mask by blast
  have n1: "unat (n - 1) = unat n - 1" "0 < unat n"
    using False by (simp_all add: unat_minus_one unat_gt_0)
  have nle: "unat n \<le> 2 ^ 63" using le by (simp add: word_le_nat_alt unat_SIZE_MAX_POWER_OF_TWO)
  have kk: "k \<le> j" if "unat n \<le> 2 ^ j" for j
  proof (rule ccontr)
    assume "\<not> k \<le> j"
    then have "j \<le> k - 1" "k \<noteq> 0" by auto
    then have "(2 :: nat) ^ j \<le> 2 ^ (k - 1)" by (intro power_increasing) auto
    with k(3) \<open>k \<noteq> 0\<close> that n1 show False by linarith
  qed
  have k63: "k \<le> 63" using kk [OF nle] .
  have "r = 2 ^ k" by (simp add: r k(1) mask_eq_exp_minus_1)
  moreover have "unat (2 ^ k :: size_t) = 2 ^ k"
    using k63 by (intro unat_pow2) simp
  ultimately show ?thesis using k63 kk k(2) n1 by (intro exI [of _ k]) auto
qed

lemma is_power_of_two_iff: "aws_is_power_of_two x \<longleftrightarrow> (\<exists>k < 64. unat x = 2 ^ k)"
proof
  assume x: "aws_is_power_of_two x"
  then have "0 < unat x" by (simp add: aws_is_power_of_two_def unat_gt_0)
  then obtain h where h: "2 ^ h \<le> unat x" "unat x < 2 ^ Suc h" using top_bit_exists by blast
  have "h < 64"
  proof (rule ccontr)
    assume "\<not> h < 64"
    then have "(2 :: nat) ^ 64 \<le> 2 ^ h" by (intro power_increasing) auto
    moreover have "unat x < 2 ^ 64" by simp
    ultimately show False using h(1) by linarith
  qed
  moreover have "unat x = 2 ^ h"
  proof (rule ccontr)
    assume "unat x \<noteq> 2 ^ h"
    then have "2 ^ h \<le> unat (x - 1)" "unat (x - 1) < 2 ^ Suc h"
      using h \<open>0 < unat x\<close> by (auto simp: unat_minus_one unat_gt_0)
    then have "bit (unat x AND unat (x - 1)) h"
      using h by (auto simp: bit_and_iff intro: bit_nat_top)
    moreover have "unat x AND unat (x - 1) = unat (x AND (x - 1))"
      by (simp add: unsigned_and_eq)
    ultimately show False using x by (simp add: aws_is_power_of_two_def)
  qed
  ultimately show "\<exists>k < 64. unat x = 2 ^ k" by blast
next
  assume "\<exists>k < 64. unat x = 2 ^ k"
  then obtain k where k: "k < 64" "unat x = 2 ^ k" by blast
  then have "unat x = unat (2 ^ k :: size_t)" by (simp add: unat_pow2)
  then have x: "x = 2 ^ k" by (simp only: word_unat_eq_iff)
  have "x AND (x - 1) = 0"
    by (rule bit_word_eqI) (auto simp: x bit_and_iff bit_exp_iff mask_eq_exp_minus_1 [symmetric] bit_mask_iff)
  moreover have "x \<noteq> 0" using k(2) by auto
  ultimately show "aws_is_power_of_two x" by (simp add: aws_is_power_of_two_def)
qed


lemma clz_loop_top:
  fixes n :: "'a :: len word"
  assumes "bit n t" "\<And>j. t < j \<Longrightarrow> \<not> bit n j" "LENGTH('a) - 1 - t < fuel"
  shows "clz_loop fuel n idx = Some (idx + (LENGTH('a) - 1 - t))"
  using assms
proof (induction fuel arbitrary: n t idx)
  case 0
  then show ?case by simp
next
  case (Suc fuel)
  have tl: "t < LENGTH('a)" using Suc.prems(1) by (rule bit_imp_le_length)
  show ?case
  proof (cases "t = LENGTH('a) - 1")
    case True
    with Suc.prems show ?thesis by simp
  next
    case False
    with tl have t: "t < LENGTH('a) - 1" "Suc t < LENGTH('a)" by auto
    have "bit (push_bit 1 n) (Suc t)" "\<And>j. Suc t < j \<Longrightarrow> \<not> bit (push_bit 1 n) j"
      unfolding bit_push_bit_iff using Suc.prems(1,2) t by auto
    then have "clz_loop fuel (push_bit 1 n) (idx + 1) = Some (idx + 1 + (LENGTH('a) - 1 - Suc t))"
      by (rule Suc.IH) (use Suc.prems t in auto)
    moreover have "\<not> bit n (LENGTH('a) - 1)" using Suc.prems(2) t by blast
    ultimately show ?thesis using t by simp
  qed
qed

lemma ctz_loop_low:
  fixes n :: "'a :: len word"
  assumes "bit n t" "\<And>j. j < t \<Longrightarrow> \<not> bit n j" "idx \<le> t" "t < idx + k"
  shows "ctz_loop k n idx = t"
  using assms
proof (induction k arbitrary: idx)
  case 0
  then show ?case by simp
next
  case (Suc k)
  have t: "n AND push_bit idx 1 \<noteq> 0 \<longleftrightarrow> bit n idx"
    by (simp add: bit_iff_and_push_bit_not_eq_0)
  show ?case
  proof (cases "idx = t")
    case True
    with Suc.prems t show ?thesis by simp
  next
    case False
    with Suc.prems have "idx < t" "\<not> bit n idx" by auto
    with Suc t show ?thesis by simp
  qed
qed

lemma word_top_bit:
  fixes n :: "'a :: len word"
  assumes "2 ^ t \<le> unat n" "unat n < 2 ^ Suc t"
  shows "bit n t" "t < j \<Longrightarrow> \<not> bit n j" "t < LENGTH('a)"
proof -
  have "bit (unat n) t" by (rule bit_nat_top [OF assms])
  then show b: "bit n t" by (simp add: bit_unsigned_iff)
  then show "t < LENGTH('a)" by (rule bit_imp_le_length)
  assume "t < j"
  then have "unat n < 2 ^ j" using assms(2)
    by (meson Suc_leI less_le_trans one_le_numeral power_increasing)
  then have "\<not> bit (unat n) j" by (simp add: bit_iff_odd)
  then show "\<not> bit n j" using bit_imp_le_length [of n j] by (auto simp: bit_unsigned_iff)
qed

lemma takeWhile_split:
  "xs = ys @ t # zs \<Longrightarrow> \<forall>y \<in> set ys. P y \<Longrightarrow> \<not> P t \<Longrightarrow> takeWhile P xs = ys"
  by (simp add: takeWhile_append2)

lemma builtin_clz_top:
  fixes n :: "'a :: len word"
  assumes "bit n t" "\<And>j. t < j \<Longrightarrow> \<not> bit n j"
  shows "builtin_clz n = Some (LENGTH('a) - 1 - t)"
proof -
  have t: "t < LENGTH('a)" using assms(1) by (rule bit_imp_le_length)
  have "[0..<LENGTH('a)] = [0..<t] @ t # [Suc t..<LENGTH('a)]"
    using t upt_add_eq_append [of 0 t "LENGTH('a) - t"] by (simp add: upt_conv_Cons)
  then have "rev [0..<LENGTH('a)] = rev [Suc t..<LENGTH('a)] @ t # rev [0..<t]" by simp
  then have "takeWhile (\<lambda>i. \<not> bit n i) (rev [0..<LENGTH('a)]) = rev [Suc t..<LENGTH('a)]"
    by (rule takeWhile_split) (use assms in auto)
  moreover have "n \<noteq> 0" using assms(1) by auto
  ultimately show ?thesis by (simp add: builtin_clz_def)
qed

lemma builtin_ctz_low:
  fixes n :: "'a :: len word"
  assumes "bit n t" "\<And>j. j < t \<Longrightarrow> \<not> bit n j"
  shows "builtin_ctz n = Some t"
proof -
  have t: "t < LENGTH('a)" using assms(1) by (rule bit_imp_le_length)
  have "[0..<LENGTH('a)] = [0..<t] @ t # [Suc t..<LENGTH('a)]"
    using t upt_add_eq_append [of 0 t "LENGTH('a) - t"] by (simp add: upt_conv_Cons)
  then have "takeWhile (\<lambda>i. \<not> bit n i) [0..<LENGTH('a)] = [0..<t]"
    by (rule takeWhile_split) (use assms in auto)
  moreover have "n \<noteq> 0" using assms(1) by auto
  ultimately show ?thesis by (simp add: builtin_ctz_def)
qed

lemma word_topE:
  fixes n :: "'a :: len word"
  assumes "n \<noteq> 0"
  obtains t where "bit n t" "\<And>j. t < j \<Longrightarrow> \<not> bit n j" "t < LENGTH('a)"
    "2 ^ t \<le> unat n" "unat n < 2 ^ Suc t"
proof -
  obtain t where "2 ^ t \<le> unat n" "unat n < 2 ^ Suc t"
    using top_bit_exists [of "unat n"] assms by (auto simp: unat_gt_0)
  with word_top_bit [OF this] that show thesis by blast
qed

lemma word_lowE:
  fixes n :: "'a :: len word"
  assumes "n \<noteq> 0"
  obtains t where "bit n t" "\<And>j. j < t \<Longrightarrow> \<not> bit n j" "t < LENGTH('a)"
proof -
  have ex: "\<exists>j. bit n j" using assms by (auto simp: bit_eq_iff)
  show thesis
  proof (rule that)
    show b: "bit n (LEAST j. bit n j)" using ex by (rule LeastI_ex)
    show "\<not> bit n j" if "j < (LEAST j. bit n j)" for j using that by (rule not_less_Least)
    show "(LEAST j. bit n j) < LENGTH('a)" using b by (rule bit_imp_le_length)
  qed
qed

lemma clz_i32_top:
  assumes "bit n t" "\<And>j. t < j \<Longrightarrow> \<not> bit n j"
  shows "aws_clz_i32 n = Some (31 - t)"
proof -
  have "t < 32" using bit_imp_le_length [OF assms(1)] by simp
  moreover have "clz_loop 33 n 0 = Some (0 + (LENGTH(32) - 1 - t))"
    by (rule clz_loop_top [OF assms]) auto
  moreover have "n \<noteq> 0" using assms(1) by auto
  moreover have "bit n 31 \<Longrightarrow> t = 31" using assms(2) [of 31] \<open>t < 32\<close> by (cases "t = 31") auto
  ultimately show ?thesis by (auto simp: aws_clz_i32_def)
qed

lemma clz_i64_top:
  assumes "bit n t" "\<And>j. t < j \<Longrightarrow> \<not> bit n j"
  shows "aws_clz_i64 n = Some (63 - t)"
proof -
  have "t < 64" using bit_imp_le_length [OF assms(1)] by simp
  moreover have "clz_loop 65 n 0 = Some (0 + (LENGTH(64) - 1 - t))"
    by (rule clz_loop_top [OF assms]) auto
  moreover have "n \<noteq> 0" using assms(1) by auto
  moreover have "bit n 63 \<Longrightarrow> t = 63" using assms(2) [of 63] \<open>t < 64\<close> by (cases "t = 63") auto
  ultimately show ?thesis by (auto simp: aws_clz_i64_def)
qed

lemma ctz_low:
  "bit n t \<Longrightarrow> (\<And>j. j < t \<Longrightarrow> \<not> bit n j) \<Longrightarrow> aws_ctz_i64 n = t"
  "bit m t \<Longrightarrow> (\<And>j. j < t \<Longrightarrow> \<not> bit m j) \<Longrightarrow> aws_ctz_i32 m = t"
  using bit_imp_le_length [of n t] bit_imp_le_length [of m t]
  by (auto simp: aws_ctz_i64_def aws_ctz_i32_def ctz_loop_low)

lemma varargs_sum:
  assumes "unat accum + sum_list (map unat (take n args)) < 2 ^ 64" "n \<le> length args"
  shows "\<exists>r. add_size_varargs_loop n accum args = Some (Inr r) \<and>
           unat r = unat accum + sum_list (map unat (take n args))"
  using assms
proof (induction n accum args rule: add_size_varargs_loop.induct)
  case (3 n accum x args)
  then have "unat accum + unat x < 2 ^ 64" by simp
  then have "aws_add_size_checked accum x = Inr (accum + x)" "unat (accum + x) = unat accum + unat x"
    by (simp_all add: aws_add_size_checked_eq unat_add_exact)
  with 3 show ?case by (simp add: ac_simps)
qed auto

lemma varargs_overflow:
  assumes "2 ^ 64 \<le> unat accum + sum_list (map unat (take n args))" "n \<le> length args"
  shows "add_size_varargs_loop n accum args = Some (aws_raise_error AWS_ERROR_OVERFLOW_DETECTED)"
  using assms
proof (induction n accum args rule: add_size_varargs_loop.induct)
  case (1 accum args)
  then show ?case using unat_size_lt [of accum] by simp
next
  case (3 n accum x args)
  show ?case
  proof (cases "unat accum + unat x < 2 ^ 64")
    case True
    then have "aws_add_size_checked accum x = Inr (accum + x)" "unat (accum + x) = unat accum + unat x"
      by (simp_all add: aws_add_size_checked_eq unat_add_exact)
    with 3 show ?thesis by (simp add: ac_simps)
  next
    case False
    then show ?thesis by (simp add: aws_add_size_checked_eq)
  qed
qed auto

lemmas gcc_arith_defs =
  gcc_mul_u64_checked_def gcc_mul_u64_saturating_def gcc_mul_u32_checked_def gcc_mul_u32_saturating_def
  gcc_add_u64_checked_def gcc_add_u64_saturating_def gcc_add_u32_checked_def gcc_add_u32_saturating_def
  builtin_mul_overflow_def builtin_add_overflow_def

lemmas fallback_arith_defs =
  aws_mul_u64_checked_def aws_mul_u64_saturating_def aws_mul_u32_checked_def aws_mul_u32_saturating_def
  aws_add_u64_checked_def aws_add_u64_saturating_def aws_add_u32_checked_def aws_add_u32_saturating_def
  UINT64_MAX_def UINT32_MAX_def

lemma low_bit_dvd:
  fixes n :: "'a :: len word"
  assumes "bit n t" "\<And>j. j < t \<Longrightarrow> \<not> bit n j"
  shows "2 ^ t dvd unat n" "\<not> 2 ^ Suc t dvd unat n"
proof -
  have "take_bit t (unat n) = 0"
    by (rule bit_eqI) (use assms(2) in \<open>auto simp: bit_take_bit_iff bit_unsigned_iff\<close>)
  then show "2 ^ t dvd unat n" by (simp add: take_bit_eq_0_iff)
  have "odd (unat n div 2 ^ t)" using assms(1) by (simp add: bit_unsigned_iff flip: bit_iff_odd)
  moreover have "even (unat n div 2 ^ t)" if "2 ^ Suc t dvd unat n"
  proof -
    from that obtain q where "unat n = 2 ^ t * (2 * q)" by (auto simp: ac_simps elim: dvdE)
    then show ?thesis by simp
  qed
  ultimately show "\<not> 2 ^ Suc t dvd unat n" by blast
qed

section \<open>Properties\<close>

text \<open>
  (C25) Each checked \<open>size_t\<close> operation returns the exact mathematical result, or raises
  \<open>AWS_ERROR_OVERFLOW_DETECTED\<close> exactly when that result does not fit; each saturating one returns the
  exact result clamped to the range of \<open>size_t\<close>.
\<close>

theorem size_arith_exact:
  "(case aws_mul_size_checked a b of
      Inr r \<Rightarrow> unat r = unat a * unat b
    | Inl e \<Rightarrow> e = Raised AWS_ERROR_OVERFLOW_DETECTED \<and> 2 ^ 64 \<le> unat a * unat b) \<and>
   (case aws_add_size_checked a b of
      Inr r \<Rightarrow> unat r = unat a + unat b
    | Inl e \<Rightarrow> e = Raised AWS_ERROR_OVERFLOW_DETECTED \<and> 2 ^ 64 \<le> unat a + unat b) \<and>
   (case aws_sub_size_checked a b of
      Inr r \<Rightarrow> unat a = unat r + unat b
    | Inl e \<Rightarrow> e = Raised AWS_ERROR_OVERFLOW_DETECTED \<and> unat a < unat b) \<and>
   unat (aws_mul_size_saturating a b) = min (unat a * unat b) (2 ^ 64 - 1) \<and>
   unat (aws_add_size_saturating a b) = min (unat a + unat b) (2 ^ 64 - 1) \<and>
   unat (aws_sub_size_saturating a b) = unat a - unat b"
proof (intro conjI)
  show "case aws_mul_size_checked a b of
      Inr r \<Rightarrow> unat r = unat a * unat b
    | Inl e \<Rightarrow> e = Raised AWS_ERROR_OVERFLOW_DETECTED \<and> 2 ^ 64 \<le> unat a * unat b"
    by (auto simp: aws_mul_size_checked_eq unat_mul_exact)
  show "case aws_add_size_checked a b of
      Inr r \<Rightarrow> unat r = unat a + unat b
    | Inl e \<Rightarrow> e = Raised AWS_ERROR_OVERFLOW_DETECTED \<and> 2 ^ 64 \<le> unat a + unat b"
    by (auto simp: aws_add_size_checked_eq unat_add_exact)
  show "case aws_sub_size_checked a b of
      Inr r \<Rightarrow> unat a = unat r + unat b
    | Inl e \<Rightarrow> e = Raised AWS_ERROR_OVERFLOW_DETECTED \<and> unat a < unat b"
    by (auto simp: aws_sub_size_checked_def aws_sub_u64_checked_def word_less_nat_alt
        word_le_nat_alt unat_sub)
  show "unat (aws_mul_size_saturating a b) = min (unat a * unat b) (2 ^ 64 - 1)"
    using mul_overflow_iff [of a b]
    by (auto simp: aws_mul_size_saturating_def aws_mul_u64_saturating_def UINT64_MAX_def
        unat_minus_1 unat_mul_exact)
  show "unat (aws_add_size_saturating a b) = min (unat a + unat b) (2 ^ 64 - 1)"
    using add_overflow_iff [of b a]
    by (auto simp: aws_add_size_saturating_def aws_add_u64_saturating_def UINT64_MAX_def
        unat_minus_1 unat_add_exact)
  show "unat (aws_sub_size_saturating a b) = unat a - unat b"
    by (auto simp: aws_sub_size_saturating_def aws_sub_u64_saturating_def word_le_nat_alt unat_sub)
qed

text \<open>
  The variant on the compiler's overflow builtins and the division-based fallback are the same
  functions: which header a build selects is not observable.
\<close>

theorem gcc_overflow_eq_fallback:
  "gcc_mul_u64_checked = aws_mul_u64_checked \<and> gcc_mul_u64_saturating = aws_mul_u64_saturating \<and>
   gcc_mul_u32_checked = aws_mul_u32_checked \<and> gcc_mul_u32_saturating = aws_mul_u32_saturating \<and>
   gcc_add_u64_checked = aws_add_u64_checked \<and> gcc_add_u64_saturating = aws_add_u64_saturating \<and>
   gcc_add_u32_checked = aws_add_u32_checked \<and> gcc_add_u32_saturating = aws_add_u32_saturating"
  using mul_overflow_iff [where ?'a = 64] mul_overflow_iff [where ?'a = 32]
    add_overflow_iff [where ?'a = 64] add_overflow_iff [where ?'a = 32]
  by (auto simp: fun_eq_iff gcc_arith_defs fallback_arith_defs)

text \<open>
  (C24) \<open>aws_round_up_to_power_of_two\<close> returns the least power of two that is at least \<open>n\<close>, and
  fails with \<open>AWS_ERROR_OVERFLOW_DETECTED\<close> exactly when \<open>n\<close> exceeds \<open>2 ^ 63\<close>.
\<close>

theorem round_up_least_power_of_two:
  "case aws_round_up_to_power_of_two n of
     Inl e \<Rightarrow> e = Raised AWS_ERROR_OVERFLOW_DETECTED \<and> 2 ^ 63 < unat n
   | Inr r \<Rightarrow> aws_is_power_of_two r \<and> n \<le> r \<and> unat n \<le> 2 ^ 63 \<and>
       {p. aws_is_power_of_two p \<and> n \<le> p} \<subseteq> {r..}"
proof (cases "aws_round_up_to_power_of_two n")
  case (Inl e)
  then show ?thesis
    by (auto simp: round_up_unfold word_less_nat_alt unat_SIZE_MAX_POWER_OF_TWO split: if_splits)
next
  case (Inr r)
  then obtain k where k: "k < 64" "unat r = 2 ^ k" "unat n \<le> 2 ^ k"
    and least: "\<And>j. unat n \<le> 2 ^ j \<Longrightarrow> k \<le> j"
    using round_up_spec by blast
  have "unat n \<le> 2 ^ 63" using Inr
    by (auto simp: round_up_unfold word_less_nat_alt unat_SIZE_MAX_POWER_OF_TWO split: if_splits)
  moreover have "r \<le> p" if p: "aws_is_power_of_two p" "n \<le> p" for p
  proof -
    obtain j where j: "unat p = 2 ^ j" using p(1) by (auto simp: is_power_of_two_iff)
    with p(2) have "k \<le> j" by (intro least) (simp add: word_le_nat_alt)
    then show ?thesis by (simp add: word_le_nat_alt j k(2))
  qed
  moreover have "aws_is_power_of_two r" "n \<le> r"
    using k by (auto simp: is_power_of_two_iff word_le_nat_alt)
  ultimately show ?thesis using Inr by auto
qed

text \<open>
  The bit scans of the fallback: on a non-zero argument the leading-zero loop returns the \<open>c\<close>
  with \<open>2 ^ (63 - c) \<le> n < 2 ^ (64 - c)\<close>, and the trailing-zero loop the exponent of two in \<open>n\<close>.
\<close>

theorem bit_scans_u64:
  assumes "n \<noteq> 0"
  shows "(\<exists>c < 64. aws_clz_size n = Some c \<and> 2 ^ (63 - c) \<le> unat n \<and> unat n < 2 ^ (64 - c)) \<and>
    aws_ctz_size n < 64 \<and> 2 ^ aws_ctz_size n dvd unat n \<and> \<not> 2 ^ Suc (aws_ctz_size n) dvd unat n"
proof -
  obtain t where t: "bit n t" "\<And>j. t < j \<Longrightarrow> \<not> bit n j" "t < LENGTH(64)"
    "2 ^ t \<le> unat n" "unat n < 2 ^ Suc t"
    using word_topE [OF assms] by blast
  obtain l where l: "bit n l" "\<And>j. j < l \<Longrightarrow> \<not> bit n j" "l < LENGTH(64)"
    using word_lowE [OF assms] by blast
  have "aws_ctz_size n = l" using ctz_low(1) [OF l(1,2)] by (simp add: aws_ctz_size_def aws_ctz_u64_def)
  moreover have "aws_clz_size n = Some (63 - t)"
    using clz_i64_top [OF t(1,2)] by (simp add: aws_clz_size_def aws_clz_u64_def)
  ultimately show ?thesis
    using t(3-5) l(3) low_bit_dvd [OF l(1,2)] by (auto simp: Suc_diff_le)
qed

theorem bit_scans_u64_witness:
  "(40 :: size_t) \<noteq> 0 \<and> aws_ctz_size 40 = 3 \<and> 2 ^ aws_ctz_size 40 dvd unat (40 :: size_t)"
proof -
  have "aws_ctz_size 40 = 3" by code_simp
  then show ?thesis using bit_scans_u64 [of 40] by simp
qed

text \<open>
  (C26) \<open>aws_clz_u32\<close> of \<open>math.gcc_builtin.inl\<close> calls \<open>__builtin_clzl\<close>, which counts within 64 bits on an
  LP64 target: it returns 32 more than the number of leading zeros of its 32-bit argument, while the
  fallback and \<open>aws_clz_i32\<close> return that number.
\<close>

theorem gcc_clz_u32_counts_64_bits:
  assumes "n \<noteq> 0"
  shows "\<exists>c < 32. aws_clz_u32 n = Some c \<and> gcc_clz_i32 n = Some c \<and> gcc_clz_u32 n = Some (c + 32)"
proof -
  obtain t where t: "bit n t" "\<And>j. t < j \<Longrightarrow> \<not> bit n j" "t < LENGTH(32)"
    using word_topE [OF assms] by blast
  have "bit (ucast n :: u64) t" "\<And>j. t < j \<Longrightarrow> \<not> bit (ucast n :: u64) j"
    using t by (auto simp: bit_ucast_iff)
  from builtin_clz_top [OF this] builtin_clz_top [OF t(1,2)] clz_i32_top [OF t(1,2)] t(3)
  show ?thesis by (simp add: aws_clz_u32_def gcc_clz_i32_def gcc_clz_u32_def)
qed

theorem gcc_clz_u32_counts_64_bits_witness:
  "(1 :: u32) \<noteq> 0 \<and> aws_clz_u32 1 = Some 31 \<and> gcc_clz_u32 1 = Some 63"
proof -
  have "aws_clz_u32 1 = Some 31" by code_simp
  then show ?thesis using gcc_clz_u32_counts_64_bits [of 1] by simp
qed

end
