(* ===== verification/Array_List.thy ===== *)
theory Array_List
  imports Math_Ops
begin

text \<open>
  The dynamic array of \<open>include/aws/common/array_list.inl\<close> and \<open>source/array_list.c\<close>.

  A list record has the fields of \<open>struct aws_array_list\<close>.  The memory behind \<open>data\<close> is a list of item
  slots, each the contents of \<open>item_size\<close> bytes: an item the caller stored, the all-zero pattern that
  \<open>memset\<close> leaves, or the indeterminate contents of fresh memory.  Byte offsets and byte counts are
  computed on \<open>size_t\<close> words exactly as in the source and turned into slot positions by dividing by
  \<open>item_size\<close>; a load, store or copy that leaves the allocation is \<open>Inl Undefined\<close>.  An operation returns
  its \<open>AWS_OP_SUCCESS\<close> or error together with the list it leaves behind.  \<open>aws_mem_acquire\<close> aborts when
  memory is exhausted, so it never returns \<open>NULL\<close> and the \<open>NULL\<close> checks after it have no counterpart.
  The debug-build fill patterns are not modelled.
\<close>

section \<open>Memory of a list\<close>

datatype 'a slot = Garbage | Zeroed | Item 'a

definition mem_load :: "'a slot list option \<Rightarrow> nat \<Rightarrow> 'a slot res" where
  "mem_load m i =
     (case m of None \<Rightarrow> Inl Undefined
      | Some d \<Rightarrow> if i < length d then Inr (d ! i) else Inl Undefined)"

definition mem_store :: "'a slot list option \<Rightarrow> nat \<Rightarrow> 'a slot \<Rightarrow> 'a slot list res" where
  "mem_store m i v =
     (case m of None \<Rightarrow> Inl Undefined
      | Some d \<Rightarrow> if i < length d then Inr (d[i := v]) else Inl Undefined)"

text \<open>\<open>memcpy\<close> and \<open>memmove\<close> of \<open>n\<close> slots from position \<open>si\<close> of \<open>src\<close> to position \<open>di\<close> of \<open>dst\<close>.\<close>

definition mem_copy :: "'a slot list \<Rightarrow> nat \<Rightarrow> 'a slot list option \<Rightarrow> nat \<Rightarrow> nat \<Rightarrow> 'a slot list res" where
  "mem_copy dst di m si n =
     (case m of None \<Rightarrow> Inl Undefined
      | Some src \<Rightarrow>
          if di + n \<le> length dst \<and> si + n \<le> length src
          then Inr (take di dst @ take n (drop si src) @ drop (di + n) dst)
          else Inl Undefined)"

definition mem_move :: "'a slot list option \<Rightarrow> nat \<Rightarrow> nat \<Rightarrow> nat \<Rightarrow> 'a slot list res" where
  "mem_move m di si n =
     (case m of None \<Rightarrow> Inl Undefined | Some d \<Rightarrow> mem_copy d di (Some d) si n)"

section \<open>The list record\<close>

record 'a array_list =
  al_alloc :: "nat option"
  al_current_size :: size_t
  al_length :: size_t
  al_item_size :: size_t
  al_data :: "'a slot list option"

definition al_zero :: "'a array_list" where
  "al_zero = \<lparr>al_alloc = None, al_current_size = 0, al_length = 0, al_item_size = 0, al_data = None\<rparr>"

definition slot_at :: "'a array_list \<Rightarrow> size_t \<Rightarrow> nat" where
  "slot_at l off = unat (off div al_item_size l)"

definition acquire_slots :: "size_t \<Rightarrow> size_t \<Rightarrow> 'a slot list res" where
  "acquire_slots bytes item_size =
     (if bytes = 0 then Inl Aborted else Inr (replicate (unat (bytes div item_size)) Garbage))"

section \<open>Operations\<close>

definition aws_array_list_init_dynamic ::
  "nat option \<Rightarrow> size_t \<Rightarrow> size_t \<Rightarrow> unit res \<times> 'a array_list" where
  "aws_array_list_init_dynamic alloc initial_item_allocation item_size =
     (if alloc = None \<or> \<not> item_size > 0 then (Inl Aborted, al_zero)
      else case aws_mul_size_checked initial_item_allocation item_size of
        Inl e \<Rightarrow> (Inl e, al_zero)
      | Inr allocation_size \<Rightarrow>
          if allocation_size > 0 then
            (case acquire_slots allocation_size item_size of
               Inl e \<Rightarrow> (Inl e, al_zero)
             | Inr d \<Rightarrow> (AWS_OP_SUCCESS,
                 al_zero\<lparr>al_data := Some d, al_current_size := allocation_size,
                         al_item_size := item_size, al_alloc := alloc\<rparr>))
          else (AWS_OP_SUCCESS, al_zero\<lparr>al_item_size := item_size, al_alloc := alloc\<rparr>))"

definition aws_array_list_init_static ::
  "'a slot list option \<Rightarrow> size_t \<Rightarrow> size_t \<Rightarrow> 'a array_list res" where
  "aws_array_list_init_static raw_array item_count item_size =
     (if raw_array = None \<or> \<not> item_count > 0 \<or> \<not> item_size > 0 then Inl Aborted
      else case aws_mul_size_checked item_count item_size of
        Inl e \<Rightarrow> Inl Aborted
      | Inr bytes \<Rightarrow> Inr \<lparr>al_alloc = None, al_current_size = bytes, al_length = 0,
                         al_item_size = item_size, al_data = raw_array\<rparr>)"

definition aws_array_list_is_valid :: "'a array_list \<Rightarrow> bool" where
  "aws_array_list_is_valid l \<longleftrightarrow>
     (case aws_mul_size_checked (al_length l) (al_item_size l) of
        Inl e \<Rightarrow> False
      | Inr required_size \<Rightarrow> al_current_size l \<ge> required_size) \<and>
     (al_current_size l = 0 \<longrightarrow> al_data l = None) \<and>
     (al_current_size l \<noteq> 0 \<longrightarrow> al_data l \<noteq> None) \<and>
     al_item_size l \<noteq> 0"

definition aws_array_list_clean_up :: "'a array_list \<Rightarrow> 'a array_list" where
  "aws_array_list_clean_up l = al_zero"

definition aws_array_list_capacity :: "'a array_list \<Rightarrow> size_t res" where
  "aws_array_list_capacity l =
     (if al_item_size l = 0 then Inl Aborted else Inr (al_current_size l div al_item_size l))"

definition aws_array_list_length :: "'a array_list \<Rightarrow> size_t res" where
  "aws_array_list_length l =
     (if al_length l = 0 \<or> al_data l \<noteq> None then Inr (al_length l) else Inl Aborted)"

definition aws_array_list_calc_necessary_size :: "'a array_list \<Rightarrow> size_t \<Rightarrow> size_t res" where
  "aws_array_list_calc_necessary_size l index =
     (case aws_add_size_checked index 1 of
        Inl e \<Rightarrow> Inl e
      | Inr index_inc \<Rightarrow> aws_mul_size_checked index_inc (al_item_size l))"

definition aws_array_list_ensure_capacity ::
  "'a array_list \<Rightarrow> size_t \<Rightarrow> unit res \<times> 'a array_list" where
  "aws_array_list_ensure_capacity l index =
     (case aws_array_list_calc_necessary_size l index of
        Inl e \<Rightarrow> (Inl e, l)
      | Inr necessary_size \<Rightarrow>
          if al_current_size l < necessary_size then
            if al_alloc l = None then (aws_raise_error AWS_ERROR_INVALID_INDEX, l)
            else
              let next_allocation_size = push_bit 1 (al_current_size l);
                  new_size = (if next_allocation_size > necessary_size then next_allocation_size
                              else necessary_size)
              in if new_size < al_current_size l
                 then (aws_raise_error AWS_ERROR_LIST_EXCEEDS_MAX_SIZE, l)
                 else case acquire_slots new_size (al_item_size l) of
                   Inl e \<Rightarrow> (Inl e, l)
                 | Inr temp \<Rightarrow>
                     (case al_data l of
                        None \<Rightarrow> (AWS_OP_SUCCESS, l\<lparr>al_data := Some temp, al_current_size := new_size\<rparr>)
                      | Some d \<Rightarrow>
                          (case mem_copy temp 0 (Some d) 0 (slot_at l (al_current_size l)) of
                             Inl e \<Rightarrow> (Inl e, l)
                           | Inr temp' \<Rightarrow>
                               (AWS_OP_SUCCESS, l\<lparr>al_data := Some temp', al_current_size := new_size\<rparr>)))
          else (AWS_OP_SUCCESS, l))"

definition aws_array_list_set_at ::
  "'a array_list \<Rightarrow> 'a \<Rightarrow> size_t \<Rightarrow> unit res \<times> 'a array_list" where
  "aws_array_list_set_at l val index =
     (case aws_array_list_ensure_capacity l index of
        (Inl e, l1) \<Rightarrow> (Inl e, l1)
      | (Inr _, l1) \<Rightarrow>
          if al_data l1 = None then (Inl Aborted, l1)
          else case mem_store (al_data l1) (slot_at l1 (al_item_size l1 * index)) (Item val) of
            Inl e \<Rightarrow> (Inl e, l1)
          | Inr d \<Rightarrow>
              let l2 = l1\<lparr>al_data := Some d\<rparr>
              in case aws_array_list_length l2 of
                   Inl e \<Rightarrow> (Inl e, l2)
                 | Inr len \<Rightarrow>
                     if index \<ge> len then
                       (case aws_add_size_checked index 1 of
                          Inl e \<Rightarrow> (Inl e, l2)
                        | Inr n \<Rightarrow> (AWS_OP_SUCCESS, l2\<lparr>al_length := n\<rparr>))
                     else (AWS_OP_SUCCESS, l2))"

definition aws_array_list_push_back :: "'a array_list \<Rightarrow> 'a \<Rightarrow> unit res \<times> 'a array_list" where
  "aws_array_list_push_back l val =
     (case aws_array_list_length l of
        Inl e \<Rightarrow> (Inl e, l)
      | Inr len \<Rightarrow>
          (case aws_array_list_set_at l val len of
             (Inl e, l1) \<Rightarrow>
               if e = Raised AWS_ERROR_INVALID_INDEX \<and> al_alloc l1 = None
               then (aws_raise_error AWS_ERROR_LIST_EXCEEDS_MAX_SIZE, l1) else (Inl e, l1)
           | (Inr u, l1) \<Rightarrow> (Inr u, l1)))"

definition aws_array_list_front :: "'a array_list \<Rightarrow> 'a slot res" where
  "aws_array_list_front l =
     (case aws_array_list_length l of
        Inl e \<Rightarrow> Inl e
      | Inr len \<Rightarrow> if len > 0 then mem_load (al_data l) 0 else aws_raise_error AWS_ERROR_LIST_EMPTY)"

definition aws_array_list_push_front :: "'a array_list \<Rightarrow> 'a \<Rightarrow> unit res \<times> 'a array_list" where
  "aws_array_list_push_front l val =
     (case aws_array_list_length l of
        Inl e \<Rightarrow> (Inl e, l)
      | Inr orig_len \<Rightarrow>
          (case aws_array_list_ensure_capacity l orig_len of
             (Inl e, l1) \<Rightarrow>
               if e = Raised AWS_ERROR_INVALID_INDEX \<and> al_alloc l1 = None
               then (aws_raise_error AWS_ERROR_LIST_EXCEEDS_MAX_SIZE, l1) else (Inl e, l1)
           | (Inr _, l1) \<Rightarrow>
               (case (if orig_len \<noteq> 0
                      then map_sum id Some
                             (mem_move (al_data l1) (slot_at l1 (al_item_size l1)) 0
                                (slot_at l1 (orig_len * al_item_size l1)))
                      else Inr (al_data l1)) of
                  Inl e \<Rightarrow> (Inl e, l1)
                | Inr m \<Rightarrow>
                    let l2 = l1\<lparr>al_data := m, al_length := al_length l1 + 1\<rparr>
                    in case mem_store (al_data l2) 0 (Item val) of
                         Inl e \<Rightarrow> (Inl e, l2)
                       | Inr d \<Rightarrow> (AWS_OP_SUCCESS, l2\<lparr>al_data := Some d\<rparr>))))"

definition aws_array_list_clear :: "'a array_list \<Rightarrow> 'a array_list" where
  "aws_array_list_clear l = (if al_data l \<noteq> None then l\<lparr>al_length := 0\<rparr> else l)"

definition aws_array_list_pop_front_n :: "'a array_list \<Rightarrow> size_t \<Rightarrow> unit res \<times> 'a array_list" where
  "aws_array_list_pop_front_n l n =
     (case aws_array_list_length l of
        Inl e \<Rightarrow> (Inl e, l)
      | Inr len \<Rightarrow>
          if n \<ge> len then (AWS_OP_SUCCESS, aws_array_list_clear l)
          else if n > 0 then
            let popping_bytes = al_item_size l * n;
                remaining_items = len - n;
                remaining_bytes = remaining_items * al_item_size l
            in case mem_move (al_data l) 0 (slot_at l popping_bytes) (slot_at l remaining_bytes) of
                 Inl e \<Rightarrow> (Inl e, l)
               | Inr d \<Rightarrow> (AWS_OP_SUCCESS, l\<lparr>al_data := Some d, al_length := remaining_items\<rparr>)
          else (AWS_OP_SUCCESS, l))"

definition aws_array_list_pop_front :: "'a array_list \<Rightarrow> unit res \<times> 'a array_list" where
  "aws_array_list_pop_front l =
     (case aws_array_list_length l of
        Inl e \<Rightarrow> (Inl e, l)
      | Inr len \<Rightarrow>
          if len > 0 then aws_array_list_pop_front_n l 1
          else (aws_raise_error AWS_ERROR_LIST_EMPTY, l))"

definition aws_array_list_back :: "'a array_list \<Rightarrow> 'a slot res" where
  "aws_array_list_back l =
     (case aws_array_list_length l of
        Inl e \<Rightarrow> Inl e
      | Inr len \<Rightarrow>
          if len > 0 then mem_load (al_data l) (slot_at l (al_item_size l * (len - 1)))
          else aws_raise_error AWS_ERROR_LIST_EMPTY)"

definition aws_array_list_pop_back :: "'a array_list \<Rightarrow> unit res \<times> 'a array_list" where
  "aws_array_list_pop_back l =
     (case aws_array_list_length l of
        Inl e \<Rightarrow> (Inl e, l)
      | Inr len \<Rightarrow>
          if len > 0 then
            if al_data l = None then (Inl Aborted, l)
            else
              let last_item_offset = al_item_size l * (len - 1)
              in case mem_store (al_data l) (slot_at l last_item_offset) Zeroed of
                   Inl e \<Rightarrow> (Inl e, l)
                 | Inr d \<Rightarrow> (AWS_OP_SUCCESS, l\<lparr>al_data := Some d, al_length := al_length l - 1\<rparr>)
          else (aws_raise_error AWS_ERROR_LIST_EMPTY, l))"

definition aws_array_list_erase :: "'a array_list \<Rightarrow> size_t \<Rightarrow> unit res \<times> 'a array_list" where
  "aws_array_list_erase l index =
     (case aws_array_list_length l of
        Inl e \<Rightarrow> (Inl e, l)
      | Inr len \<Rightarrow>
          if index \<ge> len then (aws_raise_error AWS_ERROR_INVALID_INDEX, l)
          else if index = 0 then (AWS_OP_SUCCESS, snd (aws_array_list_pop_front l))
          else if index = len - 1 then (AWS_OP_SUCCESS, snd (aws_array_list_pop_back l))
          else
            let item_ptr = index * al_item_size l;
                next_item_ptr = item_ptr + al_item_size l;
                trailing_items = (len - index) - 1;
                trailing_bytes = trailing_items * al_item_size l
            in case mem_move (al_data l) (slot_at l item_ptr) (slot_at l next_item_ptr)
                      (slot_at l trailing_bytes) of
                 Inl e \<Rightarrow> (Inl e, l)
               | Inr d \<Rightarrow> (AWS_OP_SUCCESS, snd (aws_array_list_pop_back (l\<lparr>al_data := Some d\<rparr>))))"

definition aws_array_list_swap_contents ::
  "'a array_list \<Rightarrow> 'a array_list \<Rightarrow> ('a array_list \<times> 'a array_list) res" where
  "aws_array_list_swap_contents list_a list_b =
     (if al_alloc list_a = None \<or> al_alloc list_a \<noteq> al_alloc list_b \<or>
         al_item_size list_a \<noteq> al_item_size list_b
      then Inl Aborted else Inr (list_b, list_a))"

definition aws_array_list_get_at :: "'a array_list \<Rightarrow> size_t \<Rightarrow> 'a slot res" where
  "aws_array_list_get_at l index =
     (case aws_array_list_length l of
        Inl e \<Rightarrow> Inl e
      | Inr len \<Rightarrow>
          if len > index then mem_load (al_data l) (slot_at l (al_item_size l * index))
          else aws_raise_error AWS_ERROR_INVALID_INDEX)"

text \<open>\<open>aws_array_list_get_at_ptr\<close> returns a pointer into \<open>data\<close>: the slot position it points to.\<close>

definition aws_array_list_get_at_ptr :: "'a array_list \<Rightarrow> size_t \<Rightarrow> nat res" where
  "aws_array_list_get_at_ptr l index =
     (case aws_array_list_length l of
        Inl e \<Rightarrow> Inl e
      | Inr len \<Rightarrow>
          if len > index then Inr (slot_at l (al_item_size l * index))
          else aws_raise_error AWS_ERROR_INVALID_INDEX)"

definition aws_array_list_sort ::
  "('a slot list \<Rightarrow> 'a slot list) \<Rightarrow> 'a array_list \<Rightarrow> 'a array_list res" where
  "aws_array_list_sort qsort l =
     (case al_data l of
        None \<Rightarrow> Inr l
      | Some d \<Rightarrow>
          (case aws_array_list_length l of
             Inl e \<Rightarrow> Inl e
           | Inr len \<Rightarrow>
               Inr (l\<lparr>al_data := Some (qsort (take (unat len) d) @ drop (unat len) d)\<rparr>)))"

definition aws_array_list_shrink_to_fit :: "'a array_list \<Rightarrow> unit res \<times> 'a array_list" where
  "aws_array_list_shrink_to_fit l =
     (if al_alloc l \<noteq> None then
        (case aws_mul_size_checked (al_length l) (al_item_size l) of
           Inl e \<Rightarrow> (Inl e, l)
         | Inr ideal_size \<Rightarrow>
             if ideal_size < al_current_size l then
               if ideal_size > 0 then
                 (case acquire_slots ideal_size (al_item_size l) of
                    Inl e \<Rightarrow> (Inl e, l)
                  | Inr raw_data \<Rightarrow>
                      (case mem_copy raw_data 0 (al_data l) 0 (slot_at l ideal_size) of
                         Inl e \<Rightarrow> (Inl e, l)
                       | Inr d \<Rightarrow> (AWS_OP_SUCCESS, l\<lparr>al_data := Some d, al_current_size := ideal_size\<rparr>)))
               else (AWS_OP_SUCCESS, l\<lparr>al_data := None, al_current_size := ideal_size\<rparr>)
             else (AWS_OP_SUCCESS, l))
      else (aws_raise_error AWS_ERROR_LIST_STATIC_MODE_CANT_SHRINK, l))"

definition aws_array_list_copy ::
  "'a array_list \<Rightarrow> 'a array_list \<Rightarrow> unit res \<times> 'a array_list" where
  "aws_array_list_copy src dst =
     (if al_item_size src \<noteq> al_item_size dst \<or> al_data src = None then (Inl Aborted, dst)
      else case aws_mul_size_checked (al_length src) (al_item_size src) of
        Inl e \<Rightarrow> (Inl e, dst)
      | Inr copy_size \<Rightarrow>
          if al_current_size dst \<ge> copy_size then
            (if copy_size > 0 then
               (case al_data dst of
                  None \<Rightarrow> (Inl Undefined, dst)
                | Some d \<Rightarrow>
                    (case mem_copy d 0 (al_data src) 0 (slot_at src copy_size) of
                       Inl e \<Rightarrow> (Inl e, dst)
                     | Inr d' \<Rightarrow> (AWS_OP_SUCCESS, dst\<lparr>al_data := Some d', al_length := al_length src\<rparr>)))
             else (AWS_OP_SUCCESS, dst\<lparr>al_length := al_length src\<rparr>))
          else if al_alloc dst \<noteq> None then
            (case acquire_slots copy_size (al_item_size dst) of
               Inl e \<Rightarrow> (Inl e, dst)
             | Inr tmp \<Rightarrow>
                 (case mem_copy tmp 0 (al_data src) 0 (slot_at src copy_size) of
                    Inl e \<Rightarrow> (Inl e, dst)
                  | Inr d \<Rightarrow> (AWS_OP_SUCCESS,
                      dst\<lparr>al_data := Some d, al_length := al_length src, al_current_size := copy_size\<rparr>)))
          else (aws_raise_error AWS_ERROR_DEST_COPY_TOO_SMALL, dst))"

text \<open>
  \<open>aws_array_list_mem_swap\<close> exchanges two items of \<open>item_size\<close> bytes through a 128-byte buffer: whole
  slices first, then the remainder.  The loop carries the bytes already exchanged and those left.
\<close>

fun mem_swap_slices :: "nat \<Rightarrow> u8 list \<Rightarrow> u8 list \<Rightarrow> u8 list \<times> u8 list \<times> u8 list \<times> u8 list" where
  "mem_swap_slices 0 item1 item2 = ([], item1, [], item2)"
| "mem_swap_slices (Suc i) item1 item2 =
     (let temp = take 128 item1;
          (done1, rest1, done2, rest2) = mem_swap_slices i (drop 128 item1) (drop 128 item2)
      in (take 128 item2 @ done1, rest1, temp @ done2, rest2))"

definition aws_array_list_mem_swap :: "u8 list \<Rightarrow> u8 list \<Rightarrow> size_t \<Rightarrow> u8 list \<times> u8 list" where
  "aws_array_list_mem_swap item1 item2 item_size =
     (let slice_count = item_size div 128;
          (done1, rest1, done2, rest2) = mem_swap_slices (unat slice_count) item1 item2;
          remainder = unat (item_size AND 127)
      in (done1 @ take remainder rest2 @ drop remainder rest1,
          done2 @ take remainder rest1 @ drop remainder rest2))"

definition aws_array_list_swap :: "'a array_list \<Rightarrow> size_t \<Rightarrow> size_t \<Rightarrow> 'a array_list res" where
  "aws_array_list_swap l a b =
     (if \<not> a < al_length l \<or> \<not> b < al_length l then Inl Aborted
      else if a = b then Inr l
      else case (aws_array_list_get_at_ptr l a, aws_array_list_get_at_ptr l b) of
        (Inr item1, Inr item2) \<Rightarrow>
          (case (mem_load (al_data l) item1, mem_load (al_data l) item2) of
             (Inr x, Inr y) \<Rightarrow>
               (case mem_store (al_data l) item1 y of
                  Inl e \<Rightarrow> Inl e
                | Inr d \<Rightarrow>
                    (case mem_store (Some d) item2 x of
                       Inl e \<Rightarrow> Inl e
                     | Inr d' \<Rightarrow> Inr (l\<lparr>al_data := Some d'\<rparr>)))
           | _ \<Rightarrow> Inl Undefined)
      | _ \<Rightarrow> Inl Undefined)"

section \<open>Abstraction and invariant\<close>

definition al_slots :: "'a array_list \<Rightarrow> 'a slot list" where
  "al_slots l = (case al_data l of None \<Rightarrow> [] | Some d \<Rightarrow> d)"

abbreviation al_cap :: "'a array_list \<Rightarrow> nat" where
  "al_cap l \<equiv> length (al_slots l)"

definition al_items :: "'a array_list \<Rightarrow> 'a slot list" where
  "al_items l = take (unat (al_length l)) (al_slots l)"

definition al_wf :: "'a array_list \<Rightarrow> bool" where
  "al_wf l \<longleftrightarrow> aws_array_list_is_valid l \<and> unat (al_current_size l) = al_cap l * unat (al_item_size l)"

definition al_grow :: "'a array_list \<Rightarrow> nat \<Rightarrow> 'a array_list" where
  "al_grow l c = l\<lparr>al_data := Some (al_slots l @ replicate (c - al_cap l) Garbage),
     al_current_size := word_of_nat (c * unat (al_item_size l))\<rparr>"

definition al_new_cap :: "'a array_list \<Rightarrow> size_t \<Rightarrow> nat" where
  "al_new_cap l i =
     (if 2 * al_cap l * unat (al_item_size l) < 2 ^ 64 then max (2 * al_cap l) (unat i + 1)
      else unat i + 1)"

definition al_put :: "'a array_list \<Rightarrow> size_t \<Rightarrow> 'a \<Rightarrow> 'a array_list" where
  "al_put l i v = l\<lparr>al_data := Some ((al_slots l)[unat i := Item v]),
     al_length := (if al_length l \<le> i then i + 1 else al_length l)\<rparr>"

definition al_room :: "'a array_list \<Rightarrow> size_t \<Rightarrow> 'a array_list" where
  "al_room l i = (if unat i < al_cap l then l else al_grow l (al_new_cap l i))"

definition op_safe :: "'b res \<times> 'a array_list \<Rightarrow> bool" where
  "op_safe p \<longleftrightarrow> no_ub (fst p) \<and> al_wf (snd p)"

definition has_room :: "'a array_list \<Rightarrow> nat \<Rightarrow> bool" where
  "has_room l n \<longleftrightarrow> (unat (al_length l) + n) * unat (al_item_size l) < 2 ^ 64 \<and>
     (al_alloc l \<noteq> None \<or> unat (al_length l) + n \<le> al_cap l)"

definition yields :: "unit res \<times> 'a array_list \<Rightarrow> 'a slot list \<Rightarrow> bool" where
  "yields p xs \<longleftrightarrow> fst p = AWS_OP_SUCCESS \<and> al_items (snd p) = xs"

primrec push_all :: "('s \<Rightarrow> 'a \<Rightarrow> unit res \<times> 's) \<Rightarrow> 's \<Rightarrow> 'a list \<Rightarrow> unit res \<times> 's" where
  "push_all push s [] = (AWS_OP_SUCCESS, s)"
| "push_all push s (x # xs) =
     (case push s x of (Inl e, s') \<Rightarrow> (Inl e, s') | (Inr _, s') \<Rightarrow> push_all push s' xs)"

primrec pop_times :: "('s \<Rightarrow> unit res \<times> 's) \<Rightarrow> 's \<Rightarrow> nat \<Rightarrow> unit res \<times> 's" where
  "pop_times pop s 0 = (AWS_OP_SUCCESS, s)"
| "pop_times pop s (Suc n) =
     (case pop s of (Inl e, s') \<Rightarrow> (Inl e, s') | (Inr _, s') \<Rightarrow> pop_times pop s' n)"

section \<open>Lemmas\<close>

lemma al_slots_simps [simp]:
  "al_data l = Some d \<Longrightarrow> al_slots l = d"
  "al_data l = None \<Longrightarrow> al_slots l = []"
  "al_slots (l\<lparr>al_data := m\<rparr>) = (case m of None \<Rightarrow> [] | Some d \<Rightarrow> d)"
  "al_slots (l\<lparr>al_length := n\<rparr>) = al_slots l"
  "al_slots (l\<lparr>al_current_size := n\<rparr>) = al_slots l"
  by (simp_all add: al_slots_def)

lemma al_wf_iff:
  "al_wf l \<longleftrightarrow> al_item_size l \<noteq> 0 \<and> (al_data l = None \<longleftrightarrow> al_current_size l = 0) \<and>
     unat (al_current_size l) = al_cap l * unat (al_item_size l) \<and> unat (al_length l) \<le> al_cap l"
proof (cases "al_item_size l \<noteq> 0 \<and> unat (al_current_size l) = al_cap l * unat (al_item_size l)")
  case True
  then have pos: "0 < unat (al_item_size l)" by (simp add: unat_gt_0)
  have "(case aws_mul_size_checked (al_length l) (al_item_size l) of
        Inl e \<Rightarrow> False | Inr required_size \<Rightarrow> al_current_size l \<ge> required_size) \<longleftrightarrow>
      unat (al_length l) * unat (al_item_size l) \<le> al_cap l * unat (al_item_size l)"
  proof (cases "unat (al_length l) * unat (al_item_size l) < 2 ^ 64")
    case False
    moreover have "al_cap l * unat (al_item_size l) < 2 ^ 64"
      using True unat_size_lt [of "al_current_size l"] by simp
    ultimately have "\<not> unat (al_length l) * unat (al_item_size l) \<le> al_cap l * unat (al_item_size l)"
      by linarith
    with False show ?thesis by (simp add: aws_mul_size_checked_eq)
  qed (use True in \<open>simp add: aws_mul_size_checked_eq word_le_nat_alt unat_mul_exact\<close>)
  with True pos show ?thesis by (auto simp: al_wf_def aws_array_list_is_valid_def)
next
  case False
  then show ?thesis by (auto simp: al_wf_def aws_array_list_is_valid_def)
qed

lemma al_wfD:
  assumes "al_wf l"
  shows "al_item_size l \<noteq> 0" "0 < unat (al_item_size l)" "al_data l = None \<longleftrightarrow> al_current_size l = 0"
    "unat (al_current_size l) = al_cap l * unat (al_item_size l)" "unat (al_length l) \<le> al_cap l"
    "al_cap l * unat (al_item_size l) < 2 ^ 64" "al_data l = None \<longleftrightarrow> al_cap l = 0"
proof -
  show 1: "al_item_size l \<noteq> 0" "al_data l = None \<longleftrightarrow> al_current_size l = 0"
    "unat (al_current_size l) = al_cap l * unat (al_item_size l)" "unat (al_length l) \<le> al_cap l"
    using assms by (auto simp: al_wf_iff)
  then show 2: "0 < unat (al_item_size l)" by (simp add: unat_gt_0)
  show "al_cap l * unat (al_item_size l) < 2 ^ 64" using unat_size_lt [of "al_current_size l"] 1(3) by simp
  show "al_data l = None \<longleftrightarrow> al_cap l = 0"
    using 1 2 by (metis mult_is_0 neq0_conv unat_eq_zero_iff)
qed

lemma length_items: "al_wf l \<Longrightarrow> length (al_items l) = unat (al_length l)"
  using al_wfD(5) [of l] by (simp add: al_items_def min_absorb2)

lemma wf_length [simp]: "al_wf l \<Longrightarrow> aws_array_list_length l = Inr (al_length l)"
  using al_wfD(5,7) [of l] by (auto simp: aws_array_list_length_def)

lemma slot_at_mult:
  assumes "al_item_size l \<noteq> 0" "unat i * unat (al_item_size l) < 2 ^ 64"
  shows "slot_at l (al_item_size l * i) = unat i" "slot_at l (i * al_item_size l) = unat i"
  using assms by (auto simp: slot_at_def unat_div unat_mul_exact mult.commute unat_gt_0)

lemma slot_at_cap: "al_wf l \<Longrightarrow> slot_at l (al_current_size l) = al_cap l"
  using al_wfD(2,4) [of l] by (simp add: slot_at_def unat_div)

lemma slot_at_one: "al_item_size l \<noteq> 0 \<Longrightarrow> slot_at l (al_item_size l) = 1"
  by (simp add: slot_at_def unat_div unat_gt_0)

lemma index_bytes: "al_wf l \<Longrightarrow> i \<le> al_cap l \<Longrightarrow> i * unat (al_item_size l) < 2 ^ 64"
  using al_wfD(6) [of l] by (meson le_less_trans mult_le_mono1)

lemma slot_at_index [simp]:
  assumes "al_wf l" "unat i \<le> al_cap l"
  shows "slot_at l (al_item_size l * i) = unat i" "slot_at l (i * al_item_size l) = unat i"
  using slot_at_mult [OF al_wfD(1) [OF assms(1)] index_bytes [OF assms]] by auto

lemma calc_necessary_size_eq:
  assumes "al_item_size l \<noteq> 0"
  shows "aws_array_list_calc_necessary_size l i =
     (if (unat i + 1) * unat (al_item_size l) < 2 ^ 64 then Inr ((i + 1) * al_item_size l)
      else aws_raise_error AWS_ERROR_OVERFLOW_DETECTED)"
proof -
  have "unat i + 1 \<le> (unat i + 1) * unat (al_item_size l)" 
    using assms mult_le_mono2 [of 1 "unat (al_item_size l)" "unat i + 1"]
    by (simp add: unat_gt_0 Suc_leI)
  then show ?thesis
    by (auto simp: aws_array_list_calc_necessary_size_def aws_add_size_checked_eq
        aws_mul_size_checked_eq unat_add_exact)
qed

lemma unat_id_word: "word_of_nat (unat w) = (w :: 'b :: len word)"
  by simp

lemma push_bit_1_double:
  fixes w :: size_t
  shows "unat (push_bit 1 w) = (if 2 * unat w < 2 ^ 64 then 2 * unat w else 2 * unat w - 2 ^ 64)"
proof -
  have eq: "unat (push_bit 1 w) = (2 * unat w) mod 2 ^ 64"
    by (simp add: unat_word_ariths mult.commute)
  have lt: "2 * unat w < 2 * 2 ^ 64" using unat_size_lt [of w] by simp
  show ?thesis
  proof (cases "2 * unat w < 2 ^ 64")
    case True
    then show ?thesis unfolding eq by simp
  next
    case False
    then have "(2 * unat w) mod 2 ^ 64 = (2 * unat w - 2 ^ 64) mod 2 ^ 64"
      by (intro le_mod_geq) simp
    also have "\<dots> = 2 * unat w - 2 ^ 64"
      by (rule mod_less) (use lt False in linarith)
    finally have "(2 * unat w) mod 2 ^ 64 = 2 * unat w - 2 ^ 64" .
    with False show ?thesis unfolding eq by simp
  qed
qed

lemma new_size_slots:
  assumes wf: "al_wf l" and fits: "(unat i + 1) * unat (al_item_size l) < 2 ^ 64"
    and grow: "al_cap l \<le> unat i"
  defines "nxt \<equiv> push_bit 1 (al_current_size l)" and "nec \<equiv> (i + 1) * al_item_size l"
  defines "new \<equiv> if nxt > nec then nxt else nec"
  shows "unat new = al_new_cap l i * unat (al_item_size l)" "al_current_size l < nec"
proof -
  define k where "k = unat (al_item_size l)"
  note d = al_wfD [OF wf, folded k_def]
  have "unat i + 1 < 2 ^ 64"
    using fits mult_le_mono2 [of 1 k "unat i + 1"] d(2) by (simp add: k_def)
  then have nec: "unat nec = (unat i + 1) * k"
    using fits by (simp add: nec_def k_def unat_mul_exact unat_add_exact)
  have "al_cap l * k < (unat i + 1) * k" using grow d(2) by (intro mult_less_mono1) auto
  then show lt: "al_current_size l < nec" by (simp only: word_less_nat_alt d(4) nec)
  show "unat new = al_new_cap l i * unat (al_item_size l)"
  proof (cases "2 * al_cap l * k < 2 ^ 64")
    case True
    then have nxt: "unat nxt = 2 * al_cap l * k"
      unfolding nxt_def push_bit_1_double d(4) by (simp only: mult.assoc if_True)
    have "nxt > nec \<longleftrightarrow> unat i + 1 < 2 * al_cap l"
      unfolding word_less_nat_alt nxt nec mult_less_cancel2 using d(2) by simp
    with True show ?thesis
      by (auto simp: new_def nxt nec al_new_cap_def k_def [symmetric] max_def)
  next
    case False
    then have "unat nxt = 2 * (al_cap l * k) - 2 ^ 64"
      unfolding nxt_def push_bit_1_double d(4) by (simp only: mult.assoc if_False)
    then have "unat nxt < al_cap l * k"
      using d(6) False by linarith
    then have "\<not> nxt > nec" using lt by (simp add: word_less_nat_alt d(4))
    with False show ?thesis by (simp add: new_def nec al_new_cap_def k_def [symmetric])
  qed
qed

lemma new_cap_ge: "al_cap l \<le> unat i \<Longrightarrow> unat i < al_new_cap l i" "al_cap l \<le> unat i \<Longrightarrow> al_cap l < al_new_cap l i"
  by (auto simp: al_new_cap_def)

lemma ensure_capacity_eq:
  assumes wf: "al_wf l"
  shows "aws_array_list_ensure_capacity l i =
    (if 2 ^ 64 \<le> (unat i + 1) * unat (al_item_size l)
     then (aws_raise_error AWS_ERROR_OVERFLOW_DETECTED, l)
     else if unat i < al_cap l then (AWS_OP_SUCCESS, l)
     else if al_alloc l = None then (aws_raise_error AWS_ERROR_INVALID_INDEX, l)
     else (AWS_OP_SUCCESS, al_grow l (al_new_cap l i)))"
proof (cases "2 ^ 64 \<le> (unat i + 1) * unat (al_item_size l)")
  case True
  then show ?thesis
    using al_wfD(1) [OF wf] by (simp add: aws_array_list_ensure_capacity_def calc_necessary_size_eq)
next
  case fits: False
  define nec where "nec = (i + 1) * al_item_size l"
  have calc: "aws_array_list_calc_necessary_size l i = Inr nec"
    using al_wfD(1) [OF wf] fits by (simp add: calc_necessary_size_eq nec_def)
  show ?thesis
  proof (cases "unat i < al_cap l")
    case True
    have "unat i + 1 < 2 ^ 64"
      using fits mult_le_mono2 [of 1 "unat (al_item_size l)" "unat i + 1"] al_wfD(2) [OF wf] by simp
    then have "unat nec = (unat i + 1) * unat (al_item_size l)"
      using fits by (simp add: nec_def unat_mul_exact unat_add_exact)
    moreover have "(unat i + 1) * unat (al_item_size l) \<le> al_cap l * unat (al_item_size l)"
      using True by (intro mult_le_mono1) simp
    ultimately have "\<not> al_current_size l < nec"
      by (simp only: word_less_nat_alt al_wfD(4) [OF wf] not_less)
    with True fits calc show ?thesis by (simp add: aws_array_list_ensure_capacity_def)
  next
    case False
    then have grow: "al_cap l \<le> unat i" by simp
    define nxt where "nxt = push_bit 1 (al_current_size l)"
    define new where "new = (if nxt > nec then nxt else nec)"
    from fits have fits': "(unat i + 1) * unat (al_item_size l) < 2 ^ 64" by simp
    note ns = new_size_slots [OF wf fits' grow, folded nec_def nxt_def, folded new_def]
    have "al_current_size l < new" using ns(2) by (auto simp: new_def)
    moreover have "new \<noteq> 0" using calculation by (auto simp: word_gt_0)
    moreover have "unat (new div al_item_size l) = al_new_cap l i"
      using al_wfD(2) [OF wf] by (simp add: unat_div ns(1))
    moreover have "new = word_of_nat (al_new_cap l i * unat (al_item_size l))"
      by (metis ns(1) unat_id_word)
    ultimately show ?thesis
      unfolding aws_array_list_ensure_capacity_def calc sum.case Let_def
        nxt_def [symmetric] new_def [symmetric]
      using False fits ns(2) slot_at_cap [OF wf] new_cap_ge [OF grow]
      by (cases "al_data l") (auto simp: acquire_slots_def mem_copy_def al_grow_def)
  qed
qed

lemma al_grow_simps [simp]:
  "al_slots (al_grow l c) = al_slots l @ replicate (c - al_cap l) Garbage"
  "al_length (al_grow l c) = al_length l" "al_item_size (al_grow l c) = al_item_size l"
  "al_alloc (al_grow l c) = al_alloc l" "al_data (al_grow l c) \<noteq> None"
  by (simp_all add: al_grow_def)

lemma new_cap_fits:
  assumes "al_wf l" "(unat i + 1) * unat (al_item_size l) < 2 ^ 64" "al_cap l \<le> unat i"
  shows "al_new_cap l i * unat (al_item_size l) < 2 ^ 64"
  unfolding new_size_slots(1) [OF assms, symmetric] using unat_size_lt by simp

lemma wf_grow:
  assumes "al_wf l" "(unat i + 1) * unat (al_item_size l) < 2 ^ 64" "al_cap l \<le> unat i"
  shows "al_wf (al_grow l (al_new_cap l i))"
proof -
  note d = al_wfD [OF assms(1)]
  have fits: "al_new_cap l i * unat (al_item_size l) < 2 ^ 64" by (rule new_cap_fits [OF assms])
  then have cs: "unat (word_of_nat (al_new_cap l i * unat (al_item_size l)) :: size_t) =
      al_new_cap l i * unat (al_item_size l)"
    by (simp only: unsigned_of_nat) (simp add: take_bit_nat_eq_self)
  moreover have "0 < al_new_cap l i * unat (al_item_size l)"
    using new_cap_ge(1) [OF assms(3)] d(2) by simp
  ultimately have "word_of_nat (al_new_cap l i * unat (al_item_size l)) \<noteq> (0 :: size_t)" by (metis less_irrefl unat_0)
  then show ?thesis
    using d new_cap_ge(2) [OF assms(3)] cs by (auto simp: al_wf_iff al_grow_def)
qed

lemma al_put_simps [simp]:
  "al_slots (al_put l i v) = (al_slots l)[unat i := Item v]"
  "al_length (al_put l i v) = (if al_length l \<le> i then i + 1 else al_length l)"
  "al_item_size (al_put l i v) = al_item_size l" "al_alloc (al_put l i v) = al_alloc l"
  "al_current_size (al_put l i v) = al_current_size l" "al_data (al_put l i v) \<noteq> None"
  by (simp_all add: al_put_def)

lemma room:
  assumes "al_wf l" "(unat i + 1) * unat (al_item_size l) < 2 ^ 64"
  shows "al_wf (al_room l i)" "unat i < al_cap (al_room l i)" "al_length (al_room l i) = al_length l"
    "al_item_size (al_room l i) = al_item_size l" "al_alloc (al_room l i) = al_alloc l"
    "take (al_cap l) (al_slots (al_room l i)) = al_slots l" "al_items (al_room l i) = al_items l"
    "al_cap l \<le> al_cap (al_room l i)"
proof -
  show "al_wf (al_room l i)" using wf_grow [OF assms] assms(1) by (auto simp: al_room_def)
  show "unat i < al_cap (al_room l i)" using new_cap_ge [of l i] by (auto simp: al_room_def)
  show "al_length (al_room l i) = al_length l" "al_item_size (al_room l i) = al_item_size l"
    "al_alloc (al_room l i) = al_alloc l" by (simp_all add: al_room_def)
  show "take (al_cap l) (al_slots (al_room l i)) = al_slots l" by (simp add: al_room_def)
  show "al_items (al_room l i) = al_items l"
    using al_wfD(5) [OF assms(1)] by (auto simp: al_room_def al_items_def)
  show "al_cap l \<le> al_cap (al_room l i)" by (auto simp: al_room_def)
qed

lemma index_lt_max:
  assumes "(unat i + 1) * unat (al_item_size l) < 2 ^ 64" "al_item_size l \<noteq> 0"
  shows "unat i + 1 < 2 ^ 64"
  using assms mult_le_mono2 [of 1 "unat (al_item_size l)" "unat i + 1"] by (simp add: unat_gt_0 Suc_leI)

lemma wf_put:
  assumes "al_wf l" "unat i < al_cap l" "(unat i + 1) * unat (al_item_size l) < 2 ^ 64"
  shows "al_wf (al_put l i v)"
proof -
  have "unat (i + 1) = unat i + 1"
    using index_lt_max [OF assms(3) al_wfD(1) [OF assms(1)]] by (subst unat_add_exact) auto
  then show ?thesis
    using assms al_wfD(7) [OF assms(1)] by (auto simp: al_wf_iff)
qed

lemma set_at_eq:
  assumes wf: "al_wf l"
  shows "aws_array_list_set_at l v i =
    (if 2 ^ 64 \<le> (unat i + 1) * unat (al_item_size l)
     then (aws_raise_error AWS_ERROR_OVERFLOW_DETECTED, l)
     else if al_cap l \<le> unat i \<and> al_alloc l = None then (aws_raise_error AWS_ERROR_INVALID_INDEX, l)
     else (AWS_OP_SUCCESS, al_put (al_room l i) i v))"
proof (cases "2 ^ 64 \<le> (unat i + 1) * unat (al_item_size l) \<or> al_cap l \<le> unat i \<and> al_alloc l = None")
  case True
  then show ?thesis by (auto simp: aws_array_list_set_at_def ensure_capacity_eq [OF wf])
next
  case False
  then have fits: "(unat i + 1) * unat (al_item_size l) < 2 ^ 64" by simp
  note r = room [OF wf fits]
  have ens: "aws_array_list_ensure_capacity l i = (AWS_OP_SUCCESS, al_room l i)"
    using False by (auto simp: ensure_capacity_eq [OF wf] al_room_def)
  obtain d where d: "al_data (al_room l i) = Some d" using r(2) al_wfD(7) [OF r(1)] by auto
  have add: "aws_add_size_checked i 1 = Inr (i + 1)"
    using index_lt_max [OF fits al_wfD(1) [OF wf]] by (simp add: aws_add_size_checked_eq)
  have len: "aws_array_list_length ((al_room l i)\<lparr>al_data := Some x\<rparr>) = Inr (al_length l)" for x
    by (simp add: aws_array_list_length_def r(3))
  show ?thesis
    using False r(2) d slot_at_index(1) [OF r(1), of i]
    by (auto simp: aws_array_list_set_at_def ens mem_store_def Let_def len add al_put_def r(3))
qed

lemma items_put_at_end:
  assumes "al_wf l" "al_length l = i" "unat i < al_cap l" "unat i + 1 < 2 ^ 64"
  shows "al_items (al_put l i v) = al_items l @ [Item v]"
  using assms by (simp add: al_items_def unat_add_exact take_Suc_conv_app_nth)

lemma items_put_inside:
  assumes "i < al_length l"
  shows "al_items (al_put l i v) = (al_items l)[unat i := Item v]"
  using assms by (auto simp: al_items_def take_update_swap not_le)

lemma push_back_eq:
  assumes wf: "al_wf l"
  shows "aws_array_list_push_back l v =
    (if 2 ^ 64 \<le> (unat (al_length l) + 1) * unat (al_item_size l)
     then (aws_raise_error AWS_ERROR_OVERFLOW_DETECTED, l)
     else if al_cap l = unat (al_length l) \<and> al_alloc l = None
     then (aws_raise_error AWS_ERROR_LIST_EXCEEDS_MAX_SIZE, l)
     else (AWS_OP_SUCCESS, al_put (al_room l (al_length l)) (al_length l) v))"
  using al_wfD(5) [OF wf] by (auto simp: aws_array_list_push_back_def wf set_at_eq)

lemma push_back_ok:
  assumes wf: "al_wf l" and fits: "(unat (al_length l) + 1) * unat (al_item_size l) < 2 ^ 64"
    and space: "al_alloc l \<noteq> None \<or> unat (al_length l) < al_cap l"
  obtains l' where "aws_array_list_push_back l v = (AWS_OP_SUCCESS, l')" "al_wf l'"
    "al_items l' = al_items l @ [Item v]" "al_item_size l' = al_item_size l" "al_alloc l' = al_alloc l"
    "al_length l' = al_length l + 1" "al_cap l \<le> al_cap l'"
proof -
  let ?l = "al_put (al_room l (al_length l)) (al_length l) v"
  note r = room [OF wf fits]
  have "aws_array_list_push_back l v = (AWS_OP_SUCCESS, ?l)"
    using assms by (auto simp: push_back_eq)
  moreover have "al_wf ?l" by (rule wf_put [OF r(1,2)]) (use r(4) fits in simp)
  moreover have "al_items ?l = al_items l @ [Item v]"
    using items_put_at_end [OF r(1,3,2)] index_lt_max [OF fits al_wfD(1) [OF wf]] by (simp add: r(7))
  ultimately show thesis using r by (intro that [of ?l]) simp_all
qed

lemma get_at_eq:
  assumes wf: "al_wf l"
  shows "aws_array_list_get_at l i =
    (if i < al_length l then Inr (al_items l ! unat i) else aws_raise_error AWS_ERROR_INVALID_INDEX)"
proof (cases "i < al_length l")
  case True
  then have "unat i < unat (al_length l)" by (simp add: word_less_nat_alt)
  then have "unat i < al_cap l" using al_wfD(5) [OF wf] by simp
  then show ?thesis
    using wf True \<open>unat i < unat (al_length l)\<close> al_wfD(7) [OF wf]
    by (auto simp: aws_array_list_get_at_def mem_load_def al_items_def)
qed (simp add: aws_array_list_get_at_def wf)

lemma get_at_ptr_eq:
  assumes wf: "al_wf l"
  shows "aws_array_list_get_at_ptr l i =
    (if i < al_length l then Inr (unat i) else aws_raise_error AWS_ERROR_INVALID_INDEX)"
proof (cases "i < al_length l")
  case True
  then have "unat i \<le> al_cap l" using al_wfD(5) [OF wf] by (simp add: word_less_nat_alt)
  then show ?thesis using wf True by (simp add: aws_array_list_get_at_ptr_def)
qed (simp add: aws_array_list_get_at_ptr_def wf)

lemma pos_length_dec:
  assumes "0 < (n :: size_t)" shows "unat (n - 1) = unat n - 1" "0 < unat n"
  using assms by (simp_all add: unat_minus_one unat_gt_0 word_gt_0)

lemma pop_back_eq:
  assumes wf: "al_wf l"
  shows "aws_array_list_pop_back l =
    (if al_length l = 0 then (aws_raise_error AWS_ERROR_LIST_EMPTY, l)
     else (AWS_OP_SUCCESS, l\<lparr>al_data := Some ((al_slots l)[unat (al_length l) - 1 := Zeroed]),
             al_length := al_length l - 1\<rparr>))"
proof (cases "al_length l = 0")
  case False
  then have pos: "0 < al_length l" by (simp add: word_gt_0)
  note p = pos_length_dec [OF pos]
  then have lt: "unat (al_length l) - 1 < al_cap l" using al_wfD(5) [OF wf] by simp
  then have "slot_at l (al_item_size l * (al_length l - 1)) = unat (al_length l) - 1"
    using slot_at_index(1) [OF wf, of "al_length l - 1"] p by simp
  then show ?thesis
    using wf False lt al_wfD(7) [OF wf] pos
    by (auto simp: aws_array_list_pop_back_def mem_store_def Let_def)
qed (simp add: aws_array_list_pop_back_def wf)

lemma pop_back_ok:
  assumes wf: "al_wf l" and ne: "al_length l \<noteq> 0"
  obtains l' where "aws_array_list_pop_back l = (AWS_OP_SUCCESS, l')" "al_wf l'"
    "al_items l' = butlast (al_items l)" "al_item_size l' = al_item_size l" "al_alloc l' = al_alloc l"
    "al_length l' = al_length l - 1" "al_cap l' = al_cap l"
proof -
  let ?l = "l\<lparr>al_data := Some ((al_slots l)[unat (al_length l) - 1 := Zeroed]), al_length := al_length l - 1\<rparr>"
  have pos: "0 < al_length l" using ne by (simp add: word_gt_0)
  note p = pos_length_dec [OF pos]
  have "al_wf ?l" using wf p al_wfD(7) [OF wf] by (auto simp: al_wf_iff)
  moreover have "al_items ?l = butlast (al_items l)"
    using p al_wfD(5) [OF wf] by (simp add: al_items_def butlast_take)
  moreover have "aws_array_list_pop_back l = (AWS_OP_SUCCESS, ?l)"
    using ne by (simp add: pop_back_eq [OF wf])
  ultimately show thesis by (intro that [of ?l]) simp_all
qed

lemma pop_front_n_eq:
  assumes wf: "al_wf l"
  shows "aws_array_list_pop_front_n l n =
    (AWS_OP_SUCCESS,
     if al_length l \<le> n then aws_array_list_clear l
     else if n = 0 then l
     else l\<lparr>al_data := Some (drop (unat n) (al_items l) @ drop (unat (al_length l) - unat n) (al_slots l)),
            al_length := al_length l - n\<rparr>)"
proof (cases "al_length l \<le> n \<or> n = 0")
  case True
  then show ?thesis by (auto simp: aws_array_list_pop_front_n_def wf)
next
  case False
  then have lt: "n < al_length l" and n: "0 < n" by (auto simp: word_gt_0)
  then have nl: "unat n < unat (al_length l)" by (simp add: word_less_nat_alt)
  note c = al_wfD(5) [OF wf]
  have r: "unat (al_length l - n) = unat (al_length l) - unat n" using lt by (simp add: unat_sub)
  have "slot_at l (al_item_size l * n) = unat n"
    "slot_at l ((al_length l - n) * al_item_size l) = unat (al_length l) - unat n"
    using slot_at_index(1) [OF wf, of n] slot_at_index(2) [OF wf, of "al_length l - n"] nl c r by auto
  then show ?thesis
    using False lt n nl c al_wfD(7) [OF wf]
    by (auto simp: aws_array_list_pop_front_n_def wf Let_def mem_move_def mem_copy_def al_items_def
        drop_take not_le)
qed

lemma pop_front_n_ok:
  assumes wf: "al_wf l"
  obtains l' where "aws_array_list_pop_front_n l n = (AWS_OP_SUCCESS, l')" "al_wf l'"
    "al_items l' = drop (unat n) (al_items l)" "al_item_size l' = al_item_size l" "al_alloc l' = al_alloc l"
proof -
  note c = al_wfD [OF wf]
  consider "al_length l \<le> n" | "n = 0" | "n < al_length l" "n \<noteq> 0" by force
  then show thesis
  proof cases
    case 1
    then have le: "unat (al_length l) \<le> unat n" by (simp add: word_le_nat_alt)
    have "al_wf (aws_array_list_clear l)"
      using wf by (auto simp: al_wf_iff aws_array_list_clear_def)
    moreover have "al_items (aws_array_list_clear l) = drop (unat n) (al_items l)"
      using le c(5) by (auto simp: aws_array_list_clear_def al_items_def)
    ultimately show ?thesis
      using 1 by (intro that [of "aws_array_list_clear l"])
        (simp_all add: pop_front_n_eq [OF wf] aws_array_list_clear_def)
  next
    case 2
    then show ?thesis using wf by (intro that [of l]) (auto simp: pop_front_n_eq aws_array_list_clear_def)
  next
    case 3
    let ?l = "l\<lparr>al_data := Some (drop (unat n) (al_items l) @ drop (unat (al_length l) - unat n) (al_slots l)),
            al_length := al_length l - n\<rparr>"
    have nl: "unat n < unat (al_length l)" using 3 by (simp add: word_less_nat_alt)
    have r: "unat (al_length l - n) = unat (al_length l) - unat n" using 3 by (simp add: unat_sub)
    have "al_wf ?l" using wf nl r c(5,7) by (auto simp: al_wf_iff al_items_def)
    moreover have "al_items ?l = drop (unat n) (al_items l)"
      using nl c(5) by (simp add: al_items_def r)
    ultimately show ?thesis
      using 3 by (intro that [of ?l]) (simp_all add: pop_front_n_eq [OF wf])
  qed
qed

lemma pop_front_eq:
  assumes wf: "al_wf l"
  shows "aws_array_list_pop_front l =
    (if al_length l = 0 then (aws_raise_error AWS_ERROR_LIST_EMPTY, l) else aws_array_list_pop_front_n l 1)"
  by (auto simp: aws_array_list_pop_front_def wf word_gt_0)

lemma push_front_ok:
  assumes wf: "al_wf l" and fits: "(unat (al_length l) + 1) * unat (al_item_size l) < 2 ^ 64"
    and space: "al_alloc l \<noteq> None \<or> unat (al_length l) < al_cap l"
  obtains l' where "aws_array_list_push_front l v = (AWS_OP_SUCCESS, l')" "al_wf l'"
    "al_items l' = Item v # al_items l" "al_item_size l' = al_item_size l" "al_alloc l' = al_alloc l"
proof -
  define n where "n = unat (al_length l)"
  define l1 where "l1 = al_room l (al_length l)"
  note r = room [OF wf fits, folded l1_def]
  define d where "d = al_slots l1"
  have cap: "n < length d" using r(2) by (simp add: n_def d_def)
  have data: "al_data l1 = Some d" using cap al_wfD(7) [OF r(1)] by (auto simp: d_def)
  have ens: "aws_array_list_ensure_capacity l (al_length l) = (AWS_OP_SUCCESS, l1)"
    using fits space by (auto simp: ensure_capacity_eq [OF wf] l1_def al_room_def)
  have inc: "unat (al_length l + 1) = n + 1"
    using index_lt_max [OF fits al_wfD(1) [OF wf]] by (simp add: n_def unat_add_exact)
  let ?l = "l1\<lparr>al_length := al_length l + 1, al_data := Some (Item v # take n d @ drop (n + 1) d)\<rparr>"
  have sl: "slot_at l1 (al_length l * al_item_size l1) = n"
    using slot_at_index(2) [OF r(1), of "al_length l"] cap by (simp add: n_def d_def)
  have mv: "mem_move (al_data l1) (slot_at l1 (al_item_size l1)) 0 (slot_at l1 (al_length l * al_item_size l1)) =
      Inr (take 1 d @ take n d @ drop (n + 1) d)"
    using cap slot_at_one [OF al_wfD(1) [OF r(1)]] sl by (simp add: data mem_move_def mem_copy_def)
  have "aws_array_list_push_front l v = (AWS_OP_SUCCESS, ?l)"
  proof (cases "al_length l = 0")
    case True
    then have "n = 0" by (simp add: n_def)
    moreover obtain x xs where "d = x # xs" using cap by (cases d) auto
    ultimately show ?thesis
      using ens [unfolded True] r(3) [unfolded True] wf_length [OF wf, unfolded True]
      by (simp add: aws_array_list_push_front_def data mem_store_def Let_def True)
  next
    case False
    have "take 1 d @ take n d @ drop (n + 1) d = hd d # take n d @ drop (n + 1) d"
      using cap by (cases d) auto
    note mv' = mv [unfolded this]
    show ?thesis
      unfolding aws_array_list_push_front_def wf_length [OF wf] ens sum.case prod.case mv'
      using False by (simp add: mem_store_def r(3) Let_def)
  qed
  moreover have "al_wf ?l"
  proof -
    have "length (Item v # take n d @ drop (n + 1) d) = length d" using cap by simp
    moreover have "al_slots ?l = Item v # take n d @ drop (n + 1) d" by simp
    ultimately have "al_cap ?l = al_cap l1" unfolding d_def by simp
    moreover have "al_current_size l1 \<noteq> 0" using data al_wfD(3) [OF r(1)] by auto
    ultimately show ?thesis
      unfolding al_wf_iff using al_wfD(1,4) [OF r(1)] cap inc by (simp add: d_def)
  qed
  moreover have "al_items ?l = Item v # al_items l"
  proof -
    have "take n d = al_items l" using r(7) by (simp add: al_items_def r(3) n_def d_def)
    moreover have "al_items ?l = Item v # take n (take n d @ drop (n + 1) d)"
      using inc by (simp add: al_items_def del: take_append)
    moreover have "take n (take n d @ drop (n + 1) d) = take n d" using cap by simp
    ultimately show ?thesis by simp
  qed
  ultimately show thesis using r(4,5) by (intro that [of ?l]) simp_all
qed

lemma clear_ok:
  assumes "al_wf l"
  shows "al_wf (aws_array_list_clear l)" "al_items (aws_array_list_clear l) = []"
  using assms by (auto simp: al_wf_iff aws_array_list_clear_def al_items_def)

lemma swap_ok:
  assumes wf: "al_wf l" and ab: "a < al_length l" "b < al_length l"
  obtains l' where "aws_array_list_swap l a b = Inr l'" "al_wf l'"
    "al_items l' = (al_items l)[unat a := al_items l ! unat b, unat b := al_items l ! unat a]"
    "al_item_size l' = al_item_size l" "al_alloc l' = al_alloc l" "al_length l' = al_length l"
    "al_cap l' = al_cap l" "al_current_size l' = al_current_size l"
proof (cases "a = b")
  case True
  then show thesis using ab wf by (intro that [of l]) (auto simp: aws_array_list_swap_def)
next
  case False
  have lt: "unat a < unat (al_length l)" "unat b < unat (al_length l)"
    using ab by (auto simp: word_less_nat_alt)
  then have cap: "unat a < al_cap l" "unat b < al_cap l" using al_wfD(5) [OF wf] by auto
  obtain d where d: "al_data l = Some d" using cap al_wfD(7) [OF wf] by auto
  let ?l = "l\<lparr>al_data := Some (d[unat a := d ! unat b, unat b := d ! unat a])\<rparr>"
  have "aws_array_list_swap l a b = Inr ?l"
    using ab False cap d
    by (simp add: aws_array_list_swap_def get_at_ptr_eq [OF wf] mem_load_def mem_store_def)
  moreover have "al_wf ?l" using wf d by (simp add: al_wf_iff)
  moreover have "al_items ?l = (al_items l)[unat a := al_items l ! unat b, unat b := al_items l ! unat a]"
    using lt d by (simp add: al_items_def take_update_swap)
  ultimately show thesis using d by (intro that [of ?l]) simp_all
qed

lemma shrink_to_fit_ok:
  assumes wf: "al_wf l" and dyn: "al_alloc l \<noteq> None"
  obtains l' where "aws_array_list_shrink_to_fit l = (AWS_OP_SUCCESS, l')" "al_wf l'"
    "al_items l' = al_items l" "al_cap l' = unat (al_length l)" "al_item_size l' = al_item_size l"
    "al_alloc l' = al_alloc l" "al_length l' = al_length l"
proof -
  note w = al_wfD [OF wf]
  define k where "k = unat (al_item_size l)"
  define n where "n = unat (al_length l)"
  define ideal where "ideal = al_length l * al_item_size l"
  have fit: "n * k < 2 ^ 64" using index_bytes [OF wf w(5)] by (simp add: n_def k_def)
  then have ideal: "unat ideal = n * k" by (simp add: ideal_def n_def k_def unat_mul_exact)
  have mul: "aws_mul_size_checked (al_length l) (al_item_size l) = Inr ideal"
    using fit by (simp add: aws_mul_size_checked_eq ideal_def n_def k_def)
  have lt: "ideal < al_current_size l \<longleftrightarrow> n < al_cap l"
    using w(2) by (simp add: word_less_nat_alt ideal w(4) k_def)
  have slots: "slot_at l ideal = n" "unat (ideal div al_item_size l) = n"
    using w(2) by (simp_all add: slot_at_def unat_div ideal k_def)
  consider "al_cap l \<le> n" | "n = 0" "0 < al_cap l" | "0 < n" "n < al_cap l" by linarith
  then show thesis
  proof cases
    case 1
    then have "al_cap l = n" using w(5) by (simp add: n_def)
    with 1 lt dyn wf show ?thesis
      by (intro that [of l]) (auto simp: aws_array_list_shrink_to_fit_def mul n_def)
  next
    case 2
    then have z: "ideal = 0" "al_length l = 0" using ideal by (auto simp: n_def)
    let ?l = "l\<lparr>al_data := None, al_current_size := ideal\<rparr>"
    have "al_wf ?l" using wf z by (simp add: al_wf_iff)
    with 2 lt dyn z show ?thesis
      by (intro that [of ?l])
        (simp_all add: aws_array_list_shrink_to_fit_def mul [unfolded z(2)] al_items_def)
  next
    case 3
    have pos: "0 < ideal" using 3 ideal w(2) by (simp add: word_gt_0 k_def flip: unat_eq_zero_iff)
    obtain d where d: "al_data l = Some d" using 3 w(7) by auto
    let ?l = "l\<lparr>al_data := Some (take n d), al_current_size := ideal\<rparr>"
    have "al_wf ?l" using wf pos 3 d ideal by (auto simp: al_wf_iff n_def k_def)
    moreover have "aws_array_list_shrink_to_fit l = (AWS_OP_SUCCESS, ?l)"
      using 3 lt dyn pos d slots
      by (simp add: aws_array_list_shrink_to_fit_def mul acquire_slots_def word_gt_0 mem_copy_def)
    ultimately show ?thesis
      using 3 d by (intro that [of ?l]) (simp_all add: al_items_def n_def)
  qed
qed

lemma take_app_len: "length xs = n \<Longrightarrow> take n (xs @ ys) = xs"
  by simp

lemma list_erase_middle:
  assumes "i + 1 < n" "n \<le> length d"
  shows "take (n - 1) (take i d @ take (n - i - 1) (drop (i + 1) d) @ drop (n - 1) d) =
    take i (take n d) @ drop (i + 1) (take n d)"
proof -
  have "length (take i d @ take (n - i - 1) (drop (i + 1) d)) = n - 1" using assms by simp
  then have "take (n - 1) ((take i d @ take (n - i - 1) (drop (i + 1) d)) @ drop (n - 1) d) =
      take i d @ take (n - i - 1) (drop (i + 1) d)"
    by (rule take_app_len)
  then show ?thesis using assms by (simp add: drop_take min_absorb1)
qed

lemma erase_ok:
  assumes wf: "al_wf l" and i: "i < al_length l"
  obtains l' where "aws_array_list_erase l i = (AWS_OP_SUCCESS, l')" "al_wf l'"
    "al_items l' = take (unat i) (al_items l) @ drop (unat i + 1) (al_items l)"
    "al_item_size l' = al_item_size l" "al_alloc l' = al_alloc l"
proof -
  define n where "n = unat (al_length l)"
  have lt: "unat i < n" using i by (simp add: word_less_nat_alt n_def)
  have ne: "al_length l \<noteq> 0" using i by auto
  have len: "length (al_items l) = n" using length_items [OF wf] by (simp add: n_def)
  have last: "i = al_length l - 1 \<longleftrightarrow> unat i = n - 1"
    by (simp only: word_unat_eq_iff [of i] unat_minus_one [OF ne] n_def)
  consider "i = 0" | "i \<noteq> 0" "unat i = n - 1" | "i \<noteq> 0" "unat i + 1 < n" using lt by linarith
  then show thesis
  proof cases
    case 1
    obtain l' where l': "aws_array_list_pop_front_n l 1 = (AWS_OP_SUCCESS, l')" "al_wf l'"
      "al_items l' = drop (unat (1 :: size_t)) (al_items l)" "al_item_size l' = al_item_size l" "al_alloc l' = al_alloc l"
      using pop_front_n_ok [OF wf] by blast
    show ?thesis
      by (rule that [of l']) (use 1 ne l' in \<open>simp_all add: aws_array_list_erase_def wf pop_front_eq\<close>)
  next
    case 2
    obtain l' where l': "aws_array_list_pop_back l = (AWS_OP_SUCCESS, l')" "al_wf l'"
      "al_items l' = butlast (al_items l)" "al_item_size l' = al_item_size l" "al_alloc l' = al_alloc l"
      using pop_back_ok [OF wf ne] by metis
    have "take (unat i) (al_items l) @ drop (unat i + 1) (al_items l) = butlast (al_items l)"
      using 2 len lt by (simp add: butlast_conv_take)
    with 2 i last l' show ?thesis
      by (intro that [of l']) (simp_all add: aws_array_list_erase_def wf)
  next
    case 3
    obtain d where d: "al_data l = Some d" using lt al_wfD(5,7) [OF wf] by (auto simp: n_def)
    have cap: "n \<le> length d" using al_wfD(5) [OF wf] d by (simp add: n_def)
    define d' where "d' = take (unat i) d @ take (n - unat i - 1) (drop (unat i + 1) d) @ drop (n - 1) d"
    have s1: "slot_at l (i * al_item_size l) = unat i"
      using slot_at_index(2) [OF wf, of i] lt cap d by simp
    have "n < 2 ^ 64" by (simp add: n_def)
    then have i1: "unat (i + 1) = unat i + 1" using 3(2) by (subst unat_add_exact) auto
    have s2: "slot_at l (i * al_item_size l + al_item_size l) = unat i + 1"
      using slot_at_index(2) [OF wf, of "i + 1"] i1 3 cap d by (simp add: distrib_right)
    have t: "unat (al_length l - i - 1) = n - unat i - 1"
      using i 3 by (subst unat_minus_one) (auto simp: unat_sub n_def)
    have s3: "slot_at l ((al_length l - i - 1) * al_item_size l) = n - unat i - 1"
      using slot_at_index(2) [OF wf, of "al_length l - i - 1"] t cap d by simp
    have mv: "mem_move (al_data l) (unat i) (unat i + 1) (n - unat i - 1) = Inr d'"
      using 3 cap by (simp add: d mem_move_def mem_copy_def d'_def)
    have ld: "length d' = length d" using 3 cap by (simp add: d'_def)
    let ?l = "l\<lparr>al_data := Some d'\<rparr>"
    have wf': "al_wf ?l" using wf d ld by (simp add: al_wf_iff)
    obtain l' where l': "aws_array_list_pop_back ?l = (AWS_OP_SUCCESS, l')" "al_wf l'"
      "al_items l' = butlast (al_items ?l)" "al_item_size l' = al_item_size ?l" "al_alloc l' = al_alloc ?l"
      using pop_back_ok [OF wf'] ne by auto
    have "al_items l' = take (unat i) (al_items l) @ drop (unat i + 1) (al_items l)"
    proof -
      have "al_items l' = take (n - 1) d'"
        unfolding l'(3) using cap ld by (simp add: al_items_def n_def [symmetric] butlast_take)
      also have "\<dots> = take (unat i) (take n d) @ drop (unat i + 1) (take n d)"
        unfolding d'_def by (rule list_erase_middle [OF 3(2) cap])
      finally show ?thesis by (simp add: al_items_def d n_def)
    qed
    moreover have "aws_array_list_erase l i = (AWS_OP_SUCCESS, l')"
    proof -
      have "\<not> al_length l \<le> i" "i \<noteq> al_length l - 1" using i 3 last by auto
      then show ?thesis
        unfolding aws_array_list_erase_def wf_length [OF wf] sum.case Let_def s1 s2 s3 mv
        using 3(1) l'(1) by simp
    qed
    ultimately show ?thesis using l' by (intro that [of l']) simp_all
  qed
qed

lemma copy_ok:
  assumes wf: "al_wf src" "al_wf dst" and same: "al_item_size src = al_item_size dst"
    and data: "al_data src \<noteq> None" and space: "al_alloc dst \<noteq> None \<or> unat (al_length src) \<le> al_cap dst"
  obtains l' where "aws_array_list_copy src dst = (AWS_OP_SUCCESS, l')" "al_wf l'"
    "al_items l' = al_items src" "al_item_size l' = al_item_size dst" "al_alloc l' = al_alloc dst"
proof -
  note s = al_wfD [OF wf(1)] and t = al_wfD [OF wf(2)]
  define n where "n = unat (al_length src)"
  define k where "k = unat (al_item_size src)"
  define bytesz where "bytesz = al_length src * al_item_size src"
  have fit: "n * k < 2 ^ 64" using index_bytes [OF wf(1) s(5)] by (simp add: n_def k_def)
  then have bytes: "unat bytesz = n * k" by (simp add: bytesz_def n_def k_def unat_mul_exact)
  have mul: "aws_mul_size_checked (al_length src) (al_item_size src) = Inr bytesz"
    using fit by (simp add: aws_mul_size_checked_eq bytesz_def n_def k_def)
  have le: "bytesz \<le> al_current_size dst \<longleftrightarrow> n \<le> al_cap dst"
    using s(2) by (simp add: word_le_nat_alt bytes t(4) k_def same)
  have z: "bytesz = 0 \<longleftrightarrow> n = 0" using bytes s(2) by (simp add: k_def flip: unat_eq_zero_iff)
  have slots: "slot_at src bytesz = n" "unat (bytesz div al_item_size dst) = n"
    using s(2) by (simp_all add: slot_at_def unat_div bytes k_def flip: same)
  obtain d where d: "al_data src = Some d" using data by auto
  have nd: "n \<le> length d" using s(5) d by (simp add: n_def)
  note defs = aws_array_list_copy_def same mul data d slots
  consider "n = 0" | "0 < n" "n \<le> al_cap dst" | "al_cap dst < n" "al_alloc dst \<noteq> None"
    using space by (force simp: n_def)
  then show thesis
  proof cases
    case 1
    let ?l = "dst\<lparr>al_length := al_length src\<rparr>"
    have "al_length src = 0" using 1 by (simp add: n_def)
    moreover have "al_wf ?l" using wf(2) \<open>al_length src = 0\<close> by (simp add: al_wf_iff)
    ultimately show ?thesis
      using 1 z le mul data same by (intro that [of ?l]) (auto simp: aws_array_list_copy_def al_items_def)
  next
    case 2
    then obtain e where e: "al_data dst = Some e" using t(7) by auto
    let ?l = "dst\<lparr>al_data := Some (take n d @ drop n e), al_length := al_length src\<rparr>"
    have "al_wf ?l" using wf(2) 2 e nd by (auto simp: al_wf_iff n_def)
    moreover have "aws_array_list_copy src dst = (AWS_OP_SUCCESS, ?l)"
      using 2 z le e nd mul d same slots
      by (simp add: aws_array_list_copy_def mem_copy_def word_gt_0)
    ultimately show ?thesis
      using nd d by (intro that [of ?l]) (simp_all add: al_items_def n_def)
  next
    case 3
    let ?l = "dst\<lparr>al_data := Some (take n d), al_length := al_length src, al_current_size := bytesz\<rparr>"
    have "al_wf ?l" using t 3 nd bytes z by (auto simp: al_wf_iff n_def k_def same)
    moreover have "aws_array_list_copy src dst = (AWS_OP_SUCCESS, ?l)"
      using 3 z le nd mul d same slots
      by (simp add: aws_array_list_copy_def mem_copy_def acquire_slots_def)
    ultimately show ?thesis
      using nd d by (intro that [of ?l]) (simp_all add: al_items_def n_def)
  qed
qed

lemma copy_too_small:
  assumes wf: "al_wf src" "al_wf dst" and same: "al_item_size src = al_item_size dst"
    and data: "al_data src \<noteq> None" and full: "al_alloc dst = None" "al_cap dst < unat (al_length src)"
  shows "aws_array_list_copy src dst = (aws_raise_error AWS_ERROR_DEST_COPY_TOO_SMALL, dst)"
proof -
  note s = al_wfD [OF wf(1)] and t = al_wfD [OF wf(2)]
  define bytesz where "bytesz = al_length src * al_item_size src"
  have fit: "unat (al_length src) * unat (al_item_size src) < 2 ^ 64" by (rule index_bytes [OF wf(1) s(5)])
  have mul: "aws_mul_size_checked (al_length src) (al_item_size src) = Inr bytesz"
    using fit by (simp add: aws_mul_size_checked_eq bytesz_def)
  have "\<not> bytesz \<le> al_current_size dst"
    using s(2) full(2) fit by (simp add: bytesz_def word_le_nat_alt unat_mul_exact t(4) same)
  then show ?thesis using same data full mul by (simp add: aws_array_list_copy_def)
qed

lemma init_dynamic_ok:
  assumes "alloc \<noteq> None" "isz \<noteq> 0" "unat n * unat isz < 2 ^ 64"
  obtains l where "aws_array_list_init_dynamic alloc n isz = (AWS_OP_SUCCESS, l)" "al_wf l"
    "al_items l = []" "al_cap l = unat n" "al_item_size l = isz" "al_alloc l = alloc" "al_length l = 0"
proof -
  have mul: "aws_mul_size_checked n isz = Inr (n * isz)" using assms(3) by (simp add: aws_mul_size_checked_eq)
  have bytes: "unat (n * isz) = unat n * unat isz" using assms(3) by (simp add: unat_mul_exact)
  have pos: "0 < unat isz" using assms(2) by (simp add: unat_gt_0)
  show thesis
  proof (cases "n = 0")
    case True
    let ?l = "al_zero\<lparr>al_item_size := isz, al_alloc := alloc\<rparr>"
    show ?thesis
      by (rule that [of ?l])
        (use assms mul True in \<open>auto simp: aws_array_list_init_dynamic_def al_wf_iff al_zero_def al_slots_def
          al_items_def word_gt_0\<close>)
  next
    case False
    let ?l = "al_zero\<lparr>al_data := Some (replicate (unat n) Garbage), al_current_size := n * isz,
                         al_item_size := isz, al_alloc := alloc\<rparr>"
    have nz: "n * isz \<noteq> 0" using bytes pos False by (simp flip: unat_eq_zero_iff)
    have div: "unat (n * isz div isz) = unat n" using pos by (simp add: unat_div bytes)
    have "aws_array_list_init_dynamic alloc n isz = (AWS_OP_SUCCESS, ?l)"
      using assms(1,2) nz by (simp add: aws_array_list_init_dynamic_def mul acquire_slots_def word_gt_0 div)
    moreover have "al_wf ?l" using assms(2) nz bytes by (simp add: al_wf_iff al_zero_def al_slots_def)
    ultimately show ?thesis
      by (intro that [of ?l]) (simp_all add: al_items_def al_zero_def al_slots_def)
  qed
qed

lemma init_static_ok:
  assumes "unat n * unat isz < 2 ^ 64" "0 < n" "0 < isz" "length raw = unat n"
  obtains l where "aws_array_list_init_static (Some raw) n isz = Inr l" "al_wf l"
    "al_items l = []" "al_cap l = unat n" "al_item_size l = isz" "al_alloc l = None"
proof -
  have bytes: "unat (n * isz) = unat n * unat isz" using assms(1) by (simp add: unat_mul_exact)
  then have "n * isz \<noteq> 0" using assms(2,3) by (simp add: word_gt_0 flip: unat_eq_zero_iff)
  then show thesis
    using assms bytes
    by (intro that [of "\<lparr>al_alloc = None, al_current_size = n * isz, al_length = 0, al_item_size = isz, al_data = Some raw\<rparr>"])
      (auto simp: aws_array_list_init_static_def aws_mul_size_checked_eq al_wf_iff al_slots_def al_items_def word_gt_0)
qed

lemma mem_swap_slices_eq:
  assumes "128 * i \<le> length a" "128 * i \<le> length b"
  shows "mem_swap_slices i a b = (take (128 * i) b, drop (128 * i) a, take (128 * i) a, drop (128 * i) b)"
  using assms
proof (induction i arbitrary: a b)
  case (Suc i)
  have "mem_swap_slices i (drop 128 a) (drop 128 b) =
    (take (128 * i) (drop 128 b), drop (128 * i) (drop 128 a), take (128 * i) (drop 128 a), drop (128 * i) (drop 128 b))"
    by (rule Suc.IH) (use Suc.prems in auto)
  then show ?case by (simp add: take_add ac_simps)
qed simp

lemma mem_swap_swaps:
  assumes "length a = unat item_size" "length b = unat item_size"
  shows "aws_array_list_mem_swap a b item_size = (b, a)"
proof -
  have rem: "unat (item_size AND 127) = unat item_size mod 128"
  proof -
    have "item_size AND 127 = take_bit 7 item_size" by (simp add: take_bit_eq_mask mask_eq_exp_minus_1)
    then show ?thesis by (simp add: take_bit_eq_mod unat_mod)
  qed
  have cnt: "unat (item_size div 128) = unat item_size div 128" by (simp add: unat_div)
  have le: "128 * (unat item_size div 128) \<le> unat item_size" by simp
  have r: "unat item_size - 128 * (unat item_size div 128) = unat item_size mod 128"
    by (simp add: modulo_nat_def mult.commute)
  show ?thesis
    using assms by (simp add: aws_array_list_mem_swap_def cnt rem mem_swap_slices_eq r)
qed

lemma push_front_err:
  assumes wf: "al_wf l"
    and no: "2 ^ 64 \<le> (unat (al_length l) + 1) * unat (al_item_size l) \<or>
      al_alloc l = None \<and> al_cap l \<le> unat (al_length l)"
  shows "aws_array_list_push_front l v =
    (if 2 ^ 64 \<le> (unat (al_length l) + 1) * unat (al_item_size l)
     then aws_raise_error AWS_ERROR_OVERFLOW_DETECTED
     else aws_raise_error AWS_ERROR_LIST_EXCEEDS_MAX_SIZE, l)"
  using no by (auto simp: aws_array_list_push_front_def wf ensure_capacity_eq)

lemma front_eq:
  assumes wf: "al_wf l"
  shows "aws_array_list_front l =
    (if al_length l = 0 then aws_raise_error AWS_ERROR_LIST_EMPTY else Inr (hd (al_items l)))"
proof (cases "al_length l = 0")
  case False
  then have "0 < unat (al_length l)" by (simp add: unat_gt_0)
  then obtain x d where "al_data l = Some (x # d)"
    using al_wfD(5,7) [OF wf] by (cases "al_data l"; cases "al_slots l") auto
  with False \<open>0 < unat (al_length l)\<close> show ?thesis
    by (cases "unat (al_length l)") (auto simp: aws_array_list_front_def wf mem_load_def al_items_def word_gt_0)
qed (simp add: aws_array_list_front_def wf)

lemma back_eq:
  assumes wf: "al_wf l"
  shows "aws_array_list_back l =
    (if al_length l = 0 then aws_raise_error AWS_ERROR_LIST_EMPTY else Inr (last (al_items l)))"
proof (cases "al_length l = 0")
  case False
  then have pos: "0 < al_length l" by (simp add: word_gt_0)
  note p = pos_length_dec [OF pos]
  have lt: "unat (al_length l) - 1 < al_cap l" using al_wfD(5) [OF wf] p by simp
  have "slot_at l (al_item_size l * (al_length l - 1)) = unat (al_length l) - 1"
    using slot_at_index(1) [OF wf, of "al_length l - 1"] p lt by simp
  moreover have "last (al_items l) = al_slots l ! (unat (al_length l) - 1)"
    using p lt al_wfD(5) [OF wf] by (subst last_conv_nth) (auto simp: al_items_def)
  ultimately show ?thesis
    using False pos lt al_wfD(7) [OF wf] by (auto simp: aws_array_list_back_def wf mem_load_def)
qed (simp add: aws_array_list_back_def wf)

lemma op_safe_simps [simp]: "op_safe (Inr x, l) = al_wf l" "op_safe (Inl (Raised e), l) = al_wf l"
  by (simp_all add: op_safe_def)

lemma set_at_safe:
  assumes "al_wf l" shows "op_safe (aws_array_list_set_at l v i)"
proof -
  have "al_wf (al_put (al_room l i) i v)" if fits: "\<not> 2 ^ 64 \<le> (unat i + 1) * unat (al_item_size l)"
    using room [OF assms, of i] fits by (intro wf_put) auto
  then show ?thesis using assms by (auto simp: set_at_eq)
qed

lemma push_back_safe:
  assumes "al_wf l" shows "op_safe (aws_array_list_push_back l v)"
proof -
  have "al_wf (al_put (al_room l (al_length l)) (al_length l) v)"
    if fits: "\<not> 2 ^ 64 \<le> (unat (al_length l) + 1) * unat (al_item_size l)"
    using room [OF assms, of "al_length l"] fits by (intro wf_put) auto
  then show ?thesis using assms by (auto simp: push_back_eq)
qed

lemma push_front_safe:
  assumes wf: "al_wf l" shows "op_safe (aws_array_list_push_front l v)"
proof (cases "2 ^ 64 \<le> (unat (al_length l) + 1) * unat (al_item_size l) \<or>
      al_alloc l = None \<and> al_cap l \<le> unat (al_length l)")
  case True
  with wf show ?thesis by (simp add: push_front_err [OF wf True])
next
  case False
  then obtain l' where "aws_array_list_push_front l v = (AWS_OP_SUCCESS, l')" "al_wf l'"
    using push_front_ok [OF wf, of v] by (metis not_le)
  then show ?thesis by simp
qed

lemma pop_front_n_safe: "al_wf l \<Longrightarrow> op_safe (aws_array_list_pop_front_n l n)"
  by (rule pop_front_n_ok [of l n]) auto

lemma pop_front_safe: "al_wf l \<Longrightarrow> op_safe (aws_array_list_pop_front l)"
  using pop_front_n_safe [of l 1] by (simp add: pop_front_eq)

lemma pop_back_safe:
  assumes wf: "al_wf l" shows "op_safe (aws_array_list_pop_back l)"
proof (cases "al_length l = 0")
  case False
  then obtain l' where "aws_array_list_pop_back l = (AWS_OP_SUCCESS, l')" "al_wf l'"
    using pop_back_ok [OF wf] by metis
  then show ?thesis by simp
qed (simp add: pop_back_eq wf)

lemma erase_safe:
  assumes wf: "al_wf l" shows "op_safe (aws_array_list_erase l i)"
proof (cases "i < al_length l")
  case True
  then obtain l' where "aws_array_list_erase l i = (AWS_OP_SUCCESS, l')" "al_wf l'"
    using erase_ok [OF wf] by metis
  then show ?thesis by simp
qed (simp add: aws_array_list_erase_def wf not_less)

lemma shrink_to_fit_safe:
  assumes wf: "al_wf l" shows "op_safe (aws_array_list_shrink_to_fit l)"
proof (cases "al_alloc l = None")
  case False
  then obtain l' where "aws_array_list_shrink_to_fit l = (AWS_OP_SUCCESS, l')" "al_wf l'"
    using shrink_to_fit_ok [OF wf] by metis
  then show ?thesis by simp
qed (simp add: aws_array_list_shrink_to_fit_def wf)

text \<open>
  (C23) Memory safety of the array list: on a well-formed list no operation aborts or touches memory
  outside the allocation, and the list it leaves behind, on success or error, is well-formed again.
\<close>

theorem array_list_safe:
  assumes "al_wf l"
  shows "op_safe (aws_array_list_set_at l v i) \<and> op_safe (aws_array_list_push_back l v) \<and>
    op_safe (aws_array_list_push_front l v) \<and> op_safe (aws_array_list_pop_front_n l i) \<and>
    op_safe (aws_array_list_pop_front l) \<and> op_safe (aws_array_list_pop_back l) \<and>
    op_safe (aws_array_list_erase l i) \<and> op_safe (aws_array_list_shrink_to_fit l) \<and>
    al_wf (aws_array_list_clear l) \<and> no_ub (aws_array_list_get_at l i) \<and>
    no_ub (aws_array_list_front l) \<and> no_ub (aws_array_list_back l)"
  using assms
  by (simp add: set_at_safe push_back_safe push_front_safe pop_front_n_safe pop_front_safe
      pop_back_safe erase_safe shrink_to_fit_safe clear_ok get_at_eq front_eq back_eq)

theorem array_list_safe_witness:
  "let l = snd (aws_array_list_init_dynamic (Some 0) 2 8) :: nat array_list
   in al_wf l \<and> op_safe (aws_array_list_push_back l 7) \<and> op_safe (aws_array_list_erase l 0)"
proof -
  have "al_wf (snd (aws_array_list_init_dynamic (Some 0) 2 8) :: nat array_list)" by code_simp
  from this array_list_safe [OF this, of 7 0] show ?thesis by (simp add: Let_def)
qed

lemma room_one:
  assumes "has_room l 1"
  shows "(unat (al_length l) + 1) * unat (al_item_size l) < 2 ^ 64"
    "al_alloc l \<noteq> None \<or> unat (al_length l) < al_cap l"
  using assms by (auto simp: has_room_def)

lemma room_mono:
  assumes "has_room l n" "m \<le> n"
  shows "has_room l m"
proof -
  have "(unat (al_length l) + m) * unat (al_item_size l) \<le> (unat (al_length l) + n) * unat (al_item_size l)"
    using assms(2) by (intro mult_le_mono1) simp
  then have "(unat (al_length l) + m) * unat (al_item_size l) < 2 ^ 64"
    using assms(1) unfolding has_room_def by linarith
  then show ?thesis using assms unfolding has_room_def by auto
qed

lemma set_at_yields:
  assumes wf: "al_wf l" and i: "i < al_length l"
  shows "yields (aws_array_list_set_at l v i) ((al_items l)[unat i := Item v])"
proof -
  have lt: "unat i < al_cap l" using i al_wfD(5) [OF wf] by (simp add: word_less_nat_alt)
  then have "(unat i + 1) * unat (al_item_size l) < 2 ^ 64"
    using index_bytes [OF wf, of "unat i + 1"] by simp
  then show ?thesis
    using lt items_put_inside [OF i] wf by (simp add: yields_def set_at_eq al_room_def)
qed

lemma push_yields:
  assumes wf: "al_wf l" and r: "has_room l 1"
  shows "yields (aws_array_list_push_back l v) (al_items l @ [Item v])"
    "yields (aws_array_list_push_front l v) (Item v # al_items l)"
  by (rule push_back_ok [OF wf room_one [OF r], of v], simp add: yields_def)
    (rule push_front_ok [OF wf room_one [OF r], of v], simp add: yields_def)

lemma pop_yields:
  assumes wf: "al_wf l" and ne: "al_length l \<noteq> 0"
  shows "yields (aws_array_list_pop_back l) (butlast (al_items l))"
    "yields (aws_array_list_pop_front l) (tl (al_items l))"
  by (rule pop_back_ok [OF wf ne], simp add: yields_def)
    (rule pop_front_n_ok [OF wf, of 1], simp add: yields_def pop_front_eq wf ne drop_Suc)

lemma pop_front_n_yields: "al_wf l \<Longrightarrow> yields (aws_array_list_pop_front_n l n) (drop (unat n) (al_items l))"
  by (rule pop_front_n_ok [of l n]) (simp_all add: yields_def)

lemma erase_yields:
  assumes wf: "al_wf l" and i: "i < al_length l"
  shows "yields (aws_array_list_erase l i) (take (unat i) (al_items l) @ drop (Suc (unat i)) (al_items l))"
  by (rule erase_ok [OF wf i]) (simp add: yields_def)

lemma shrink_to_fit_yields:
  assumes wf: "al_wf l" and dyn: "al_alloc l \<noteq> None"
  shows "yields (aws_array_list_shrink_to_fit l) (al_items l)"
  by (rule shrink_to_fit_ok [OF wf dyn]) (simp add: yields_def)

subsection \<open>The sequence contract\<close>

text \<open>
  What a client of a growable sequence relies on: a push within the room that is left succeeds and
  appends, a pop removes the last item, and an index reads the item stored there.
\<close>

locale growable_sequence =
  fixes invar :: "'s \<Rightarrow> bool" and items :: "'s \<Rightarrow> 'i list" and room_for :: "'s \<Rightarrow> nat \<Rightarrow> bool"
    and elem :: "'a \<Rightarrow> 'i" and push :: "'s \<Rightarrow> 'a \<Rightarrow> unit res \<times> 's" and pop :: "'s \<Rightarrow> unit res \<times> 's"
    and get :: "'s \<Rightarrow> nat \<Rightarrow> 'i res"
  assumes push_law: "invar s \<Longrightarrow> room_for s (Suc n) \<Longrightarrow>
      \<exists>s'. push s x = (AWS_OP_SUCCESS, s') \<and> invar s' \<and> items s' = items s @ [elem x] \<and> room_for s' n"
    and pop_law: "invar s \<Longrightarrow> items s \<noteq> [] \<Longrightarrow>
      \<exists>s'. pop s = (AWS_OP_SUCCESS, s') \<and> invar s' \<and> items s' = butlast (items s)"
    and get_law: "invar s \<Longrightarrow> i < length (items s) \<Longrightarrow> get s i = Inr (items s ! i)"

context growable_sequence
begin

lemma push_all_appends:
  assumes "invar s" "room_for s (length xs)"
  shows "\<exists>s'. push_all push s xs = (AWS_OP_SUCCESS, s') \<and> invar s' \<and> items s' = items s @ map elem xs"
  using assms
proof (induction xs arbitrary: s)
  case (Cons x xs)
  then obtain s1 where s1: "push s x = (AWS_OP_SUCCESS, s1)" "invar s1" "items s1 = items s @ [elem x]"
    "room_for s1 (length xs)"
    using push_law [of s "length xs" x] by auto
  with Cons.IH [OF s1(2,4)] show ?case by auto
qed simp

lemma pop_times_drops:
  assumes "invar s" "n \<le> length (items s)"
  shows "\<exists>s'. pop_times pop s n = (AWS_OP_SUCCESS, s') \<and> invar s' \<and>
    items s' = take (length (items s) - n) (items s)"
  using assms
proof (induction n arbitrary: s)
  case (Suc n)
  then have "items s \<noteq> []" by auto
  then obtain s1 where s1: "pop s = (AWS_OP_SUCCESS, s1)" "invar s1" "items s1 = butlast (items s)"
    using pop_law [OF Suc.prems(1)] by auto
  have "length (items s1) = length (items s) - 1" "n \<le> length (items s1)"
    "take (length (items s1) - n) (items s1) = take (length (items s) - Suc n) (items s)"
    using s1(3) Suc.prems(2) by (simp_all add: butlast_conv_take take_butlast)
  with Suc.IH [OF s1(2)] s1(1) show ?case by auto
qed simp

lemma push_then_pop:
  assumes "invar s" "room_for s (length xs)"
  shows "\<exists>s1 s2. push_all push s xs = (AWS_OP_SUCCESS, s1) \<and>
    (\<forall>i < length xs. get s1 (length (items s) + i) = Inr (elem (xs ! i))) \<and>
    pop_times pop s1 (length xs) = (AWS_OP_SUCCESS, s2) \<and> items s2 = items s"
proof -
  obtain s1 where s1: "push_all push s xs = (AWS_OP_SUCCESS, s1)" "invar s1" "items s1 = items s @ map elem xs"
    using push_all_appends [OF assms] by blast
  moreover obtain s2 where "pop_times pop s1 (length xs) = (AWS_OP_SUCCESS, s2)" "items s2 = items s"
    using pop_times_drops [OF s1(2), of "length xs"] s1(3) by auto
  moreover have "\<forall>i < length xs. get s1 (length (items s) + i) = Inr (elem (xs ! i))"
    using get_law [OF s1(2)] s1(3) by (simp add: nth_append)
  ultimately show ?thesis by blast
qed

end

interpretation al: growable_sequence al_wf al_items has_room Item aws_array_list_push_back
  aws_array_list_pop_back "\<lambda>l i. aws_array_list_get_at l (word_of_nat i)"
proof (unfold_locales, goal_cases)
  case (1 l n x)
  then have r: "has_room l 1" using room_mono by fastforce
  obtain l' where l': "aws_array_list_push_back l x = (AWS_OP_SUCCESS, l')" "al_wf l'"
    "al_items l' = al_items l @ [Item x]" "al_item_size l' = al_item_size l" "al_alloc l' = al_alloc l"
    "al_length l' = al_length l + 1" "al_cap l \<le> al_cap l'"
    by (rule push_back_ok [OF 1(1) room_one [OF r]])
  have "unat (al_length l') = unat (al_length l) + 1"
    using length_items [OF 1(1)] length_items [OF l'(2)] l'(3) by simp
  then have "has_room l' n" using 1(2) l' by (auto simp: has_room_def)
  with l' show ?case by blast
next
  case (2 l)
  then have "al_length l \<noteq> 0" using length_items by force
  from pop_back_ok [OF 2(1) this] show ?case by blast
next
  case (3 l i)
  then have lt: "i < unat (al_length l)" by (simp add: length_items)
  then have "unat (word_of_nat i :: size_t) = i"
    using less_trans [OF lt unsigned_less] by (simp only: unsigned_of_nat take_bit_nat_eq_self of_nat_id)
  then show ?case using lt by (simp add: get_at_eq 3 word_less_nat_alt)
qed

text \<open>
  (C11) The array list implements a finite sequence.  Every operation succeeds exactly where it should and
  its effect on the stored items is the list function of the same name: append, cons, update, removal
  at the ends or at an index, prefix removal, clearing, and no change for shrinking.
\<close>

theorem array_list_refines_list:
  assumes "al_wf l"
  shows "(has_room l 1 \<longrightarrow> yields (aws_array_list_push_back l v) (al_items l @ [Item v]) \<and>
      yields (aws_array_list_push_front l v) (Item v # al_items l)) \<and>
    (i < al_length l \<longrightarrow> yields (aws_array_list_set_at l v i) ((al_items l)[unat i := Item v]) \<and>
      yields (aws_array_list_erase l i) (take (unat i) (al_items l) @ drop (Suc (unat i)) (al_items l)) \<and>
      aws_array_list_get_at l i = Inr (al_items l ! unat i)) \<and>
    (al_length l \<noteq> 0 \<longrightarrow> yields (aws_array_list_pop_back l) (butlast (al_items l)) \<and>
      yields (aws_array_list_pop_front l) (tl (al_items l)) \<and>
      aws_array_list_front l = Inr (hd (al_items l)) \<and> aws_array_list_back l = Inr (last (al_items l))) \<and>
    (al_alloc l \<noteq> None \<longrightarrow> yields (aws_array_list_shrink_to_fit l) (al_items l)) \<and>
    yields (aws_array_list_pop_front_n l i) (drop (unat i) (al_items l)) \<and>
    al_items (aws_array_list_clear l) = []"
  using assms
  by (simp add: push_yields set_at_yields erase_yields get_at_eq pop_yields front_eq back_eq
      shrink_to_fit_yields pop_front_n_yields clear_ok)

theorem array_list_refines_list_witness:
  "let l = snd (aws_array_list_push_back (snd (aws_array_list_init_dynamic (Some 0) 1 8)) (5 :: nat))
   in al_wf l \<and> has_room l 1 \<and> yields (aws_array_list_push_back l 6) [Item 5, Item 6] \<and>
      aws_array_list_get_at l 0 = Inr (Item 5)"
proof -
  let ?l = "snd (aws_array_list_push_back (snd (aws_array_list_init_dynamic (Some 0) 1 8)) (5 :: nat))"
  have 1: "al_wf ?l" "al_items ?l = [Item 5]" "al_length ?l = 1" "al_item_size ?l = 8" "al_alloc ?l = Some 0"
    by code_simp+
  then have "has_room ?l 1" by (simp add: has_room_def)
  with 1 array_list_refines_list [OF 1(1), of 6 0] show ?thesis by (simp add: Let_def)
qed

text \<open>
  (C27) What \<open>aws_array_list_ensure_capacity\<close> and \<open>aws_array_list_push_back\<close> do on every branch: an index
  whose byte offset does not fit in \<open>size_t\<close> is an overflow error, a static list that is full refuses the
  item, otherwise the capacity becomes the larger of twice the old capacity and the index plus one (only
  the latter when doubling would wrap) with the old items kept; on errors the list is unchanged.  In
  particular the \<open>AWS_ERROR_LIST_EXCEEDS_MAX_SIZE\<close> branch of \<open>aws_array_list_ensure_capacity\<close> is never
  taken.
\<close>

theorem array_list_growth:
  assumes "al_wf l"
  shows "aws_array_list_ensure_capacity l i =
      (if 2 ^ 64 \<le> (unat i + 1) * unat (al_item_size l)
       then (aws_raise_error AWS_ERROR_OVERFLOW_DETECTED, l)
       else if unat i < al_cap l then (AWS_OP_SUCCESS, l)
       else if al_alloc l = None then (aws_raise_error AWS_ERROR_INVALID_INDEX, l)
       else (AWS_OP_SUCCESS, al_grow l (al_new_cap l i))) \<and>
    fst (aws_array_list_push_back l v) =
      (if 2 ^ 64 \<le> (unat (al_length l) + 1) * unat (al_item_size l)
       then aws_raise_error AWS_ERROR_OVERFLOW_DETECTED
       else if al_cap l = unat (al_length l) \<and> al_alloc l = None
       then aws_raise_error AWS_ERROR_LIST_EXCEEDS_MAX_SIZE else AWS_OP_SUCCESS) \<and>
    (fst (aws_array_list_push_back l v) \<noteq> AWS_OP_SUCCESS \<longrightarrow> snd (aws_array_list_push_back l v) = l)"
  by (simp add: ensure_capacity_eq [OF assms] push_back_eq [OF assms])

theorem array_list_growth_witness:
  "let l = snd (aws_array_list_init_dynamic (Some 0) 2 8) :: nat array_list
   in al_wf l \<and> aws_array_list_ensure_capacity l 2 = (AWS_OP_SUCCESS, al_grow l 4) \<and>
      fst (aws_array_list_push_back l 9) = AWS_OP_SUCCESS"
proof -
  let ?l = "snd (aws_array_list_init_dynamic (Some 0) 2 8) :: nat array_list"
  have 1: "al_wf ?l" "al_item_size ?l = 8" "al_cap ?l = 2" "al_alloc ?l = Some 0" "al_length ?l = 0"
    by code_simp+
  then have "al_new_cap ?l 2 = 4" by (simp add: al_new_cap_def)
  with 1 array_list_growth [OF 1(1), of 2 9] show ?thesis by (simp add: Let_def)
qed

text \<open>
  Round trip of a client: pushing the items \<open>xs\<close> onto a well-formed list with room for them
  succeeds, index \<open>n + i\<close> then reads \<open>xs ! i\<close> where \<open>n\<close> is the old length, and popping as many items
  gives back the original contents.
\<close>

theorem array_list_push_pop_roundtrip:
  assumes "al_wf l" "has_room l (length xs)"
  shows "\<exists>l1 l2. push_all aws_array_list_push_back l xs = (AWS_OP_SUCCESS, l1) \<and>
    (\<forall>i < length xs. aws_array_list_get_at l1 (word_of_nat (unat (al_length l) + i)) = Inr (Item (xs ! i))) \<and>
    pop_times aws_array_list_pop_back l1 (length xs) = (AWS_OP_SUCCESS, l2) \<and> al_items l2 = al_items l"
  using al.push_then_pop [OF assms] by (simp add: length_items [OF assms(1)])

theorem array_list_push_pop_roundtrip_witness:
  "\<exists>l1 l2. push_all aws_array_list_push_back (snd (aws_array_list_init_dynamic (Some 0) 1 8)) [3, 4 :: nat]
      = (AWS_OP_SUCCESS, l1) \<and>
    pop_times aws_array_list_pop_back l1 2 = (AWS_OP_SUCCESS, l2) \<and> al_items l2 = []"
proof -
  let ?l = "snd (aws_array_list_init_dynamic (Some 0) 1 8) :: nat array_list"
  have 1: "al_wf ?l" "al_items ?l = []" "al_length ?l = 0" "al_item_size ?l = 8" "al_alloc ?l = Some 0"
    by code_simp+
  then have "has_room ?l (length [3, 4 :: nat])" by (simp add: has_room_def)
  from array_list_push_pop_roundtrip [OF 1(1) this] 1(2) show ?thesis by (metis length_Cons list.size(3) numeral_2_eq_2)
qed

text \<open>
  \<open>aws_array_list_mem_swap\<close>, which exchanges two items in slices of 128 bytes through a stack buffer
  and then the remaining \<open>item_size & 127\<close> bytes, exchanges the two byte ranges for every item size.
\<close>

theorem mem_swap_exchanges:
  assumes "length a = unat item_size" "length b = unat item_size"
  shows "aws_array_list_mem_swap a b item_size = (b, a)"
  by (rule mem_swap_swaps [OF assms])

theorem mem_swap_exchanges_witness:
  "aws_array_list_mem_swap (replicate 300 (1 :: u8)) (replicate 300 2) 300 = (replicate 300 2, replicate 300 1)"
  by (rule mem_swap_exchanges) simp_all

end
