(* ===== verification/Priority_Queue.thy ===== *)
theory Priority_Queue
  imports Array_List
begin

text \<open>
  The binary heap of \<open>source/priority_queue.c\<close> on top of the array list.

  The nodes that \<open>aws_priority_queue_push_ref\<close> takes belong to the caller; they are named by natural
  numbers, and \<open>pq_nodes\<close> is the memory holding their \<open>current_index\<close> fields.  An element of the
  backpointer list is a pointer to a node or \<open>NULL\<close> (the all-zero slot, or a stored \<open>None\<close>).  The
  comparison function is a field of the queue as in the source.  An output parameter of
  \<open>aws_array_list_get_at_ptr\<close> keeps its old value when the call fails.  The sift loops take fuel; running
  out of it is \<open>Inl Diverged\<close>.
\<close>

section \<open>The queue\<close>

record 'a priority_queue =
  pq_pred :: "'a \<Rightarrow> 'a \<Rightarrow> int"
  pq_container :: "'a array_list"
  pq_backpointers :: "nat option array_list"
  pq_nodes :: "nat \<Rightarrow> size_t"

definition PARENT_OF :: "size_t \<Rightarrow> size_t" where
  "PARENT_OF index =
     (if index AND 1 \<noteq> 0 then drop_bit 1 index
      else if index > 1 then drop_bit 1 (index - 2) else 0)"

definition LEFT_OF :: "size_t \<Rightarrow> size_t" where
  "LEFT_OF index = push_bit 1 index + 1"

definition RIGHT_OF :: "size_t \<Rightarrow> size_t" where
  "RIGHT_OF index = push_bit 1 index + 2"

definition al_is_zeroed :: "'a array_list \<Rightarrow> bool" where
  "al_is_zeroed l \<longleftrightarrow> al_alloc l = None \<and> al_current_size l = 0 \<and> al_length l = 0 \<and>
     al_item_size l = 0 \<and> al_data l = None"

definition bp_read :: "nat option slot res \<Rightarrow> nat option res" where
  "bp_read r = (case r of Inl e \<Rightarrow> Inl e | Inr Garbage \<Rightarrow> Inl Undefined
     | Inr Zeroed \<Rightarrow> Inr None | Inr (Item p) \<Rightarrow> Inr p)"

definition node_set :: "(nat \<Rightarrow> size_t) \<Rightarrow> nat option \<Rightarrow> size_t \<Rightarrow> nat \<Rightarrow> size_t" where
  "node_set nodes p i = (case p of None \<Rightarrow> nodes | Some n \<Rightarrow> nodes(n := i))"

definition s_swap :: "'a priority_queue \<Rightarrow> size_t \<Rightarrow> size_t \<Rightarrow> 'a priority_queue res" where
  "s_swap queue a b =
     (case aws_array_list_swap (pq_container queue) a b of
        Inl e \<Rightarrow> Inl e
      | Inr c \<Rightarrow>
          let q1 = queue\<lparr>pq_container := c\<rparr>; bps = pq_backpointers queue
          in if al_is_zeroed bps then Inr q1
             else case (bp_read (mem_load (al_data bps) (unat a)), bp_read (mem_load (al_data bps) (unat b))) of
               (Inr bp_a, Inr bp_b) \<Rightarrow>
                 (case mem_store (al_data bps) (unat a) (Item bp_b) of
                    Inl e \<Rightarrow> Inl e
                  | Inr d1 \<Rightarrow>
                      (case mem_store (Some d1) (unat b) (Item bp_a) of
                         Inl e \<Rightarrow> Inl e
                       | Inr d2 \<Rightarrow>
                           Inr (q1\<lparr>pq_backpointers := bps\<lparr>al_data := Some d2\<rparr>,
                                   pq_nodes := node_set (node_set (pq_nodes queue) bp_b a) bp_a b\<rparr>)))
             | _ \<Rightarrow> Inl Undefined)"

definition out_ptr :: "nat option \<Rightarrow> nat res \<Rightarrow> nat option" where
  "out_ptr old r = (case r of Inl e \<Rightarrow> old | Inr p \<Rightarrow> Some p)"

definition call_pred :: "'a priority_queue \<Rightarrow> nat option \<Rightarrow> nat option \<Rightarrow> int res" where
  "call_pred queue p1 p2 =
     (case (p1, p2) of
        (Some i, Some j) \<Rightarrow>
          (case (mem_load (al_data (pq_container queue)) i, mem_load (al_data (pq_container queue)) j) of
             (Inr (Item x), Inr (Item y)) \<Rightarrow> Inr (pq_pred queue x y)
           | _ \<Rightarrow> Inl Undefined)
      | _ \<Rightarrow> Inl Undefined)"

text \<open>
  The choice of the child in the body of the loop of \<open>s_sift_down\<close>: the index of the element that
  belongs at \<open>root\<close>.
\<close>

definition sift_down_first :: "'a priority_queue \<Rightarrow> size_t \<Rightarrow> size_t \<Rightarrow> size_t res" where
  "sift_down_first queue len root =
     (let left = LEFT_OF root; right = RIGHT_OF root;
          first_item = out_ptr None (aws_array_list_get_at_ptr (pq_container queue) root);
          other_item = out_ptr None (aws_array_list_get_at_ptr (pq_container queue) left)
      in case call_pred queue first_item other_item of
           Inl e \<Rightarrow> Inl e
         | Inr c1 \<Rightarrow>
             let first = (if c1 > 0 then left else root);
                 first_item = (if c1 > 0 then other_item else first_item)
             in if right < len then
                  let other_item = out_ptr other_item (aws_array_list_get_at_ptr (pq_container queue) right)
                  in case call_pred queue first_item other_item of
                       Inl e \<Rightarrow> Inl e
                     | Inr c2 \<Rightarrow> Inr (if c2 > 0 then right else first)
                else Inr first)"

fun sift_down_loop ::
  "nat \<Rightarrow> 'a priority_queue \<Rightarrow> size_t \<Rightarrow> size_t \<Rightarrow> bool \<Rightarrow> (bool \<times> 'a priority_queue) res" where
  "sift_down_loop 0 queue len root did_move = Inl Diverged"
| "sift_down_loop (Suc fuel) queue len root did_move =
     (if LEFT_OF root < len then
        (case sift_down_first queue len root of
           Inl e \<Rightarrow> Inl e
         | Inr first \<Rightarrow>
             if first \<noteq> root then
               (case s_swap queue first root of
                  Inl e \<Rightarrow> Inl e
                | Inr q1 \<Rightarrow> sift_down_loop fuel q1 len first True)
             else Inr (did_move, queue))
      else Inr (did_move, queue))"

definition s_sift_down :: "'a priority_queue \<Rightarrow> size_t \<Rightarrow> (bool \<times> 'a priority_queue) res" where
  "s_sift_down queue root =
     (case aws_array_list_length (pq_container queue) of
        Inl e \<Rightarrow> Inl e
      | Inr len \<Rightarrow> sift_down_loop (unat len + 1) queue len root False)"

fun sift_up_loop ::
  "nat \<Rightarrow> 'a priority_queue \<Rightarrow> size_t \<Rightarrow> size_t \<Rightarrow> bool \<Rightarrow> (bool \<times> 'a priority_queue) res" where
  "sift_up_loop 0 queue index parent did_move = Inl Diverged"
| "sift_up_loop (Suc fuel) queue index parent did_move =
     (if index \<noteq> 0 then
        (case (aws_array_list_get_at_ptr (pq_container queue) parent,
               aws_array_list_get_at_ptr (pq_container queue) index) of
           (Inr parent_item, Inr child_item) \<Rightarrow>
             (case call_pred queue (Some parent_item) (Some child_item) of
                Inl e \<Rightarrow> Inl e
              | Inr c \<Rightarrow>
                  if c > 0 then
                    (case s_swap queue index parent of
                       Inl e \<Rightarrow> Inl e
                     | Inr q1 \<Rightarrow> sift_up_loop fuel q1 parent (PARENT_OF parent) True)
                  else Inr (did_move, queue))
         | _ \<Rightarrow> Inl Aborted)
      else Inr (did_move, queue))"

definition s_sift_up :: "'a priority_queue \<Rightarrow> size_t \<Rightarrow> (bool \<times> 'a priority_queue) res" where
  "s_sift_up queue index = sift_up_loop (unat index + 1) queue index (PARENT_OF index) False"

definition s_sift_either :: "'a priority_queue \<Rightarrow> size_t \<Rightarrow> 'a priority_queue res" where
  "s_sift_either queue index =
     (if index = 0 then
        (case s_sift_down queue index of Inl e \<Rightarrow> Inl e | Inr (_, q1) \<Rightarrow> Inr q1)
      else case s_sift_up queue index of
        Inl e \<Rightarrow> Inl e
      | Inr (moved, q1) \<Rightarrow>
          if \<not> moved then
            (case s_sift_down q1 index of Inl e \<Rightarrow> Inl e | Inr (_, q2) \<Rightarrow> Inr q2)
          else Inr q1)"

section \<open>Interface\<close>

definition aws_priority_queue_init_dynamic ::
  "(nat \<Rightarrow> size_t) \<Rightarrow> nat option \<Rightarrow> size_t \<Rightarrow> size_t \<Rightarrow> ('a \<Rightarrow> 'a \<Rightarrow> int) \<Rightarrow> unit res \<times> 'a priority_queue" where
  "aws_priority_queue_init_dynamic nodes alloc default_size item_size pred =
     (case aws_array_list_init_dynamic alloc default_size item_size of
        (r, c) \<Rightarrow> (r, \<lparr>pq_pred = pred, pq_container = c, pq_backpointers = al_zero, pq_nodes = nodes\<rparr>))"

definition aws_priority_queue_init_static ::
  "(nat \<Rightarrow> size_t) \<Rightarrow> 'a slot list option \<Rightarrow> size_t \<Rightarrow> size_t \<Rightarrow> ('a \<Rightarrow> 'a \<Rightarrow> int) \<Rightarrow> 'a priority_queue res" where
  "aws_priority_queue_init_static nodes heap item_count item_size pred =
     (case aws_array_list_init_static heap item_count item_size of
        Inl e \<Rightarrow> Inl e
      | Inr c \<Rightarrow> Inr \<lparr>pq_pred = pred, pq_container = c, pq_backpointers = al_zero, pq_nodes = nodes\<rparr>)"

definition aws_priority_queue_backpointer_index_valid :: "'a priority_queue \<Rightarrow> size_t \<Rightarrow> bool" where
  "aws_priority_queue_backpointer_index_valid queue index \<longleftrightarrow>
     (if al_is_zeroed (pq_backpointers queue) then True
      else if index < al_length (pq_backpointers queue) then
        (case bp_read (mem_load (al_data (pq_backpointers queue)) (unat index)) of Inl e \<Rightarrow> False | Inr p \<Rightarrow> True)
      else False)"

definition aws_priority_queue_backpointers_valid :: "'a priority_queue \<Rightarrow> bool" where
  "aws_priority_queue_backpointers_valid queue \<longleftrightarrow>
     (let b = pq_backpointers queue;
          backpointer_list_is_valid = (aws_array_list_is_valid b \<and> al_current_size b \<noteq> 0 \<and> al_data b \<noteq> None);
          backpointers_zero = (al_current_size b = 0 \<and> al_length b = 0 \<and> al_data b = None);
          backpointer_struct_is_valid = (backpointers_zero \<or>
            al_item_size b = 8 \<and> al_length b = al_length (pq_container queue) \<and> al_current_size b > 0)
      in backpointer_list_is_valid \<and> backpointer_struct_is_valid \<or> al_is_zeroed b)"

definition aws_priority_queue_is_valid :: "'a priority_queue \<Rightarrow> bool" where
  "aws_priority_queue_is_valid queue \<longleftrightarrow>
     aws_array_list_is_valid (pq_container queue) \<and> aws_priority_queue_backpointers_valid queue"

definition aws_priority_queue_clean_up :: "'a priority_queue \<Rightarrow> 'a priority_queue" where
  "aws_priority_queue_clean_up queue =
     (let q1 = queue\<lparr>pq_container := aws_array_list_clean_up (pq_container queue)\<rparr>
      in if \<not> al_is_zeroed (pq_backpointers q1)
         then q1\<lparr>pq_backpointers := aws_array_list_clean_up (pq_backpointers q1)\<rparr> else q1)"

text \<open>The label \<open>backpointer_update_failed\<close> of \<open>aws_priority_queue_push_ref\<close>.\<close>

definition backpointer_update_failed :: "'a priority_queue \<Rightarrow> failure \<Rightarrow> unit res \<times> 'a priority_queue" where
  "backpointer_update_failed queue e =
     (Inl e, queue\<lparr>pq_container := snd (aws_array_list_pop_back (pq_container queue))\<rparr>)"

text \<open>The first half of \<open>aws_priority_queue_push_ref\<close>: creating the backpointer list on first use.\<close>

definition push_ref_backpointers ::
  "nat option array_list \<Rightarrow> nat option \<Rightarrow> size_t \<Rightarrow> nat option \<Rightarrow> unit res \<times> nat option array_list" where
  "push_ref_backpointers bps alloc index backpointer =
     (if backpointer \<noteq> None \<and> al_alloc bps = None then
        if alloc = None then (aws_raise_error AWS_ERROR_UNSUPPORTED_OPERATION, bps)
        else case aws_array_list_init_dynamic alloc (index + 1) 8 of
          (Inl e, b) \<Rightarrow> (Inl e, b)
        | (Inr _, b) \<Rightarrow>
            (case al_data b of
               None \<Rightarrow> (Inl Undefined, b)
             | Some d \<Rightarrow> (AWS_OP_SUCCESS, b\<lparr>al_data := Some (replicate (slot_at b (al_current_size b)) Zeroed)\<rparr>))
      else (AWS_OP_SUCCESS, bps))"

definition aws_priority_queue_push_ref ::
  "'a priority_queue \<Rightarrow> 'a \<Rightarrow> nat option \<Rightarrow> unit res \<times> 'a priority_queue" where
  "aws_priority_queue_push_ref queue item backpointer =
     (case aws_array_list_push_back (pq_container queue) item of
        (Inl e, c) \<Rightarrow> (Inl e, queue\<lparr>pq_container := c\<rparr>)
      | (Inr _, c) \<Rightarrow>
          let q1 = queue\<lparr>pq_container := c\<rparr> in
          (case aws_array_list_length c of
             Inl e \<Rightarrow> (Inl e, q1)
           | Inr len \<Rightarrow>
               let index = len - 1 in
               (case push_ref_backpointers (pq_backpointers q1) (al_alloc c) index backpointer of
                  (Inl e, b) \<Rightarrow> backpointer_update_failed (q1\<lparr>pq_backpointers := b\<rparr>) e
                | (Inr _, b) \<Rightarrow>
                    (case (if al_is_zeroed b then (AWS_OP_SUCCESS, b) else aws_array_list_set_at b backpointer index) of
                       (Inl e, b1) \<Rightarrow> backpointer_update_failed (q1\<lparr>pq_backpointers := b1\<rparr>) e
                     | (Inr _, b1) \<Rightarrow>
                         let q2 = q1\<lparr>pq_backpointers := b1, pq_nodes := node_set (pq_nodes q1) backpointer index\<rparr> in
                         (case s_sift_up q2 (len - 1) of
                            Inl e \<Rightarrow> (Inl e, q2)
                          | Inr (_, q3) \<Rightarrow> (AWS_OP_SUCCESS, q3))))))"

definition aws_priority_queue_push :: "'a priority_queue \<Rightarrow> 'a \<Rightarrow> unit res \<times> 'a priority_queue" where
  "aws_priority_queue_push queue item = aws_priority_queue_push_ref queue item None"

text \<open>The part of \<open>s_remove_node\<close> that drops the last backpointer and invalidates its node.\<close>

definition drop_backpointer :: "'a priority_queue \<Rightarrow> size_t \<Rightarrow> 'a priority_queue res" where
  "drop_backpointer queue swap_with =
     (if al_is_zeroed (pq_backpointers queue) then Inr queue
      else case (case aws_array_list_get_at (pq_backpointers queue) swap_with of
                   Inl e \<Rightarrow> Inr None | Inr s \<Rightarrow> bp_read (Inr s)) of
        Inl e \<Rightarrow> Inl e
      | Inr backpointer \<Rightarrow>
          Inr (queue\<lparr>pq_nodes := node_set (pq_nodes queue) backpointer SIZE_MAX,
                     pq_backpointers := snd (aws_array_list_pop_back (pq_backpointers queue))\<rparr>))"

definition s_remove_node :: "'a priority_queue \<Rightarrow> size_t \<Rightarrow> 'a slot res \<times> 'a priority_queue" where
  "s_remove_node queue item_index =
     (case aws_array_list_get_at (pq_container queue) item_index of
        Inl e \<Rightarrow> (Inl e, queue)
      | Inr item \<Rightarrow>
          (case aws_array_list_length (pq_container queue) of
             Inl e \<Rightarrow> (Inl e, queue)
           | Inr len \<Rightarrow>
               let swap_with = len - 1 in
               (case (if item_index \<noteq> swap_with then s_swap queue item_index swap_with else Inr queue) of
                  Inl e \<Rightarrow> (Inl e, queue)
                | Inr q1 \<Rightarrow>
                    let q2 = q1\<lparr>pq_container := snd (aws_array_list_pop_back (pq_container q1))\<rparr> in
                    (case drop_backpointer q2 swap_with of
                       Inl e \<Rightarrow> (Inl e, q2)
                     | Inr q3 \<Rightarrow>
                         if item_index \<noteq> swap_with then
                           (case s_sift_either q3 item_index of Inl e \<Rightarrow> (Inl e, q3) | Inr q4 \<Rightarrow> (Inr item, q4))
                         else (Inr item, q3)))))"

definition aws_priority_queue_remove :: "'a priority_queue \<Rightarrow> nat \<Rightarrow> 'a slot res \<times> 'a priority_queue" where
  "aws_priority_queue_remove queue node =
     (case aws_array_list_length (pq_container queue) of
        Inl e \<Rightarrow> (Inl e, queue)
      | Inr len \<Rightarrow>
          if \<not> pq_nodes queue node < len then (aws_raise_error AWS_ERROR_PRIORITY_QUEUE_BAD_NODE, queue)
          else if al_data (pq_backpointers queue) = None
          then (aws_raise_error AWS_ERROR_PRIORITY_QUEUE_BAD_NODE, queue)
          else s_remove_node queue (pq_nodes queue node))"

definition aws_priority_queue_pop :: "'a priority_queue \<Rightarrow> 'a slot res \<times> 'a priority_queue" where
  "aws_priority_queue_pop queue =
     (case aws_array_list_length (pq_container queue) of
        Inl e \<Rightarrow> (Inl e, queue)
      | Inr len \<Rightarrow>
          if len = 0 then (aws_raise_error AWS_ERROR_PRIORITY_QUEUE_EMPTY, queue)
          else s_remove_node queue 0)"

definition aws_priority_queue_top :: "'a priority_queue \<Rightarrow> nat res" where
  "aws_priority_queue_top queue =
     (case aws_array_list_length (pq_container queue) of
        Inl e \<Rightarrow> Inl e
      | Inr len \<Rightarrow>
          if len = 0 then aws_raise_error AWS_ERROR_PRIORITY_QUEUE_EMPTY
          else aws_array_list_get_at_ptr (pq_container queue) 0)"

definition aws_priority_queue_size :: "'a priority_queue \<Rightarrow> size_t res" where
  "aws_priority_queue_size queue = aws_array_list_length (pq_container queue)"

definition aws_priority_queue_capacity :: "'a priority_queue \<Rightarrow> size_t res" where
  "aws_priority_queue_capacity queue = aws_array_list_capacity (pq_container queue)"

section \<open>Abstraction and invariant\<close>

definition total_preorder :: "('e \<Rightarrow> 'e \<Rightarrow> bool) \<Rightarrow> bool" where
  "total_preorder le \<longleftrightarrow> (\<forall>x y. le x y \<or> le y x) \<and> (\<forall>x y z. le x y \<longrightarrow> le y z \<longrightarrow> le x z)"

definition swp :: "'e list \<Rightarrow> nat \<Rightarrow> nat \<Rightarrow> 'e list" where
  "swp xs a b = xs[a := xs ! b, b := xs ! a]"

text \<open>
  Heap order of a list, and heap order up to the position \<open>k\<close> that a sift works on: \<open>heap_gap\<close> leaves out
  every pair with \<open>k\<close> in it but relates the parent of \<open>k\<close> to the children of \<open>k\<close>, \<open>heap_up\<close> leaves out only
  the pair of \<open>k\<close> with its parent, \<open>heap_down\<close> only the pairs of \<open>k\<close> with its children.
\<close>

definition heap_at :: "('e \<Rightarrow> 'e \<Rightarrow> bool) \<Rightarrow> 'e list \<Rightarrow> nat \<Rightarrow> bool" where
  "heap_at le xs i \<longleftrightarrow> (0 < i \<longrightarrow> le (xs ! ((i - 1) div 2)) (xs ! i))"

definition heap :: "('e \<Rightarrow> 'e \<Rightarrow> bool) \<Rightarrow> 'e list \<Rightarrow> bool" where
  "heap le xs \<longleftrightarrow> (\<forall>i < length xs. heap_at le xs i)"

definition heap_bridge :: "('e \<Rightarrow> 'e \<Rightarrow> bool) \<Rightarrow> 'e list \<Rightarrow> nat \<Rightarrow> bool" where
  "heap_bridge le xs k \<longleftrightarrow>
     (\<forall>i < length xs. 0 < k \<and> 0 < i \<and> (i - 1) div 2 = k \<longrightarrow> le (xs ! ((k - 1) div 2)) (xs ! i))"

definition heap_gap :: "('e \<Rightarrow> 'e \<Rightarrow> bool) \<Rightarrow> 'e list \<Rightarrow> nat \<Rightarrow> bool" where
  "heap_gap le xs k \<longleftrightarrow>
     (\<forall>i < length xs. i \<noteq> k \<and> (i - 1) div 2 \<noteq> k \<longrightarrow> heap_at le xs i) \<and> heap_bridge le xs k"

definition heap_up :: "('e \<Rightarrow> 'e \<Rightarrow> bool) \<Rightarrow> 'e list \<Rightarrow> nat \<Rightarrow> bool" where
  "heap_up le xs k \<longleftrightarrow> (\<forall>i < length xs. i \<noteq> k \<longrightarrow> heap_at le xs i) \<and> heap_bridge le xs k"

definition heap_down :: "('e \<Rightarrow> 'e \<Rightarrow> bool) \<Rightarrow> 'e list \<Rightarrow> nat \<Rightarrow> bool" where
  "heap_down le xs k \<longleftrightarrow>
     (\<forall>i < length xs. i = 0 \<or> (i - 1) div 2 \<noteq> k \<longrightarrow> heap_at le xs i) \<and> heap_bridge le xs k"

primrec the_item :: "'a slot \<Rightarrow> 'a" where
  "the_item (Item x) = x"

definition bp_of :: "nat option slot \<Rightarrow> nat option" where
  "bp_of s = (case s of Item p \<Rightarrow> p | _ \<Rightarrow> None)"

definition pq_bps :: "'a priority_queue \<Rightarrow> nat option list" where
  "pq_bps q = (if al_is_zeroed (pq_backpointers q) then replicate (unat (al_length (pq_container q))) None
     else map bp_of (al_items (pq_backpointers q)))"

definition pq_entries :: "'a priority_queue \<Rightarrow> ('a \<times> nat option) list" where
  "pq_entries q = zip (map the_item (al_items (pq_container q))) (pq_bps q)"

definition bps_inv :: "nat option array_list \<Rightarrow> size_t \<Rightarrow> bool" where
  "bps_inv b len \<longleftrightarrow> al_is_zeroed b \<or> al_wf b \<and> al_item_size b = 8 \<and> al_alloc b \<noteq> None \<and>
     al_length b = len \<and> al_slots b \<noteq> [] \<and> Garbage \<notin> set (al_items b)"

definition nodes_inv :: "nat option list \<Rightarrow> (nat \<Rightarrow> size_t) \<Rightarrow> bool" where
  "nodes_inv bps nodes \<longleftrightarrow> (\<forall>i < length bps. \<forall>n. bps ! i = Some n \<longrightarrow> unat (nodes n) = i)"

definition pq_inv :: "'a priority_queue \<Rightarrow> bool" where
  "pq_inv q \<longleftrightarrow> al_wf (pq_container q) \<and> set (al_items (pq_container q)) \<subseteq> range Item \<and>
     unat (al_length (pq_container q)) < 2 ^ 61 \<and>
     bps_inv (pq_backpointers q) (al_length (pq_container q)) \<and> nodes_inv (pq_bps q) (pq_nodes q)"

text \<open>What the sift operations keep: a rearrangement of the same entries in the same lists.\<close>

definition rearranged :: "'a priority_queue \<Rightarrow> 'a priority_queue \<Rightarrow> bool" where
  "rearranged q q' \<longleftrightarrow> pq_inv q' \<and> mset (pq_entries q') = mset (pq_entries q) \<and> pq_pred q' = pq_pred q \<and>
     al_length (pq_container q') = al_length (pq_container q) \<and>
     al_alloc (pq_container q') = al_alloc (pq_container q) \<and>
     al_item_size (pq_container q') = al_item_size (pq_container q) \<and>
     al_cap (pq_container q') = al_cap (pq_container q) \<and>
     al_is_zeroed (pq_backpointers q') = al_is_zeroed (pq_backpointers q) \<and>
     (\<forall>m. Some m \<notin> snd ` set (pq_entries q) \<longrightarrow> pq_nodes q' m = pq_nodes q m)"

definition swapped_slots :: "nat option array_list \<Rightarrow> nat \<Rightarrow> nat \<Rightarrow> nat option slot list" where
  "swapped_slots l a b = (al_slots l)[a := Item (bp_of (al_slots l ! b)), b := Item (bp_of (al_slots l ! a))]"

definition pq_le :: "'a priority_queue \<Rightarrow> 'a \<times> nat option \<Rightarrow> 'a \<times> nat option \<Rightarrow> bool" where
  "pq_le q e f \<longleftrightarrow> \<not> pq_pred q (fst e) (fst f) > 0"

definition pq_ordered :: "'a priority_queue \<Rightarrow> bool" where
  "pq_ordered q \<longleftrightarrow> total_preorder (\<lambda>x y. \<not> pq_pred q x y > 0)"

definition bps_list :: "nat option array_list \<Rightarrow> nat \<Rightarrow> nat option list" where
  "bps_list b n = (if al_is_zeroed b then replicate n None else map bp_of (al_items b))"

definition pq_fresh :: "'a priority_queue \<Rightarrow> nat option \<Rightarrow> bool" where
  "pq_fresh q p \<longleftrightarrow> p = None \<or> p \<notin> snd ` set (pq_entries q)"

definition pq_room :: "'a priority_queue \<Rightarrow> nat \<Rightarrow> bool" where
  "pq_room q n \<longleftrightarrow> has_room (pq_container q) n \<and> unat (al_length (pq_container q)) + n < 2 ^ 61"

definition pq_ok :: "'a priority_queue \<Rightarrow> bool" where
  "pq_ok q \<longleftrightarrow> pq_inv q \<and> pq_ordered q \<and> heap (pq_le q) (pq_entries q)"

primrec drain :: "('s \<Rightarrow> 'i res \<times> 's) \<Rightarrow> 's \<Rightarrow> nat \<Rightarrow> 'i list res" where
  "drain pop s 0 = Inr []"
| "drain pop s (Suc n) =
     (case pop s of
        (Inl e, s') \<Rightarrow> Inl e
      | (Inr x, s') \<Rightarrow> (case drain pop s' n of Inl e \<Rightarrow> Inl e | Inr xs \<Rightarrow> Inr (x # xs)))"

definition min_queue :: "nat priority_queue" where
  "min_queue = snd (aws_priority_queue_init_dynamic (\<lambda>_. 0) (Some 0) 2 8 (\<lambda>x y. if x > y then 1 else 0))"

definition static_queue :: "nat priority_queue" where
  "static_queue = \<lparr>pq_pred = (\<lambda>x y. if x > y then 1 else 0),
     pq_container = \<lparr>al_alloc = None, al_current_size = 8, al_length = 1, al_item_size = 8, al_data = Some [Item 6]\<rparr>,
     pq_backpointers = al_zero, pq_nodes = (\<lambda>_. 0)\<rparr>"

section \<open>Lemmas\<close>

lemma total_preorderD:
  assumes "total_preorder le"
  shows "\<not> le x y \<Longrightarrow> le y x" "le x y \<Longrightarrow> le y z \<Longrightarrow> le x z"
  using assms by (auto simp: total_preorder_def)

lemma length_swp [simp]: "length (swp xs a b) = length xs"
  by (simp add: swp_def)

lemma mset_swp: "a < length xs \<Longrightarrow> b < length xs \<Longrightarrow> mset (swp xs a b) = mset xs"
  by (simp add: swp_def mset_swap)

lemma nth_swp: "a < length xs \<Longrightarrow> b < length xs \<Longrightarrow> i < length xs \<Longrightarrow>
    swp xs a b ! i = (if i = b then xs ! a else if i = a then xs ! b else xs ! i)"
  by (auto simp: swp_def nth_list_update)

lemma swp_commute: "swp xs a b = swp xs b a"
  by (cases "a = b") (auto simp: swp_def list_update_swap)

lemma heap_up_imp_gap: "heap_up le xs k \<Longrightarrow> heap_gap le xs k"
  by (auto simp: heap_up_def heap_gap_def)

lemma heap_up_done:
  assumes "heap_up le xs k" "heap_at le xs k"
  shows "heap le xs"
  using assms by (auto simp: heap_up_def heap_def)

lemma heap_gap_stay:
  assumes "heap_gap le xs k" "heap_at le xs k"
  shows "heap_down le xs k"
  using assms unfolding heap_gap_def heap_down_def heap_at_def by blast

lemma parent_less: "0 < k \<Longrightarrow> (k - 1) div 2 < (k :: nat)"
  by linarith

lemma heap_gap_step:
  assumes ord: "total_preorder le" and gap: "heap_gap le xs k" and k: "0 < k" "k < length xs"
    and bad: "\<not> le (xs ! ((k - 1) div 2)) (xs ! k)"
  shows "heap_up le (swp xs k ((k - 1) div 2)) ((k - 1) div 2)"
proof -
  define p where "p = (k - 1) div 2"
  have p: "p < k" "p < length xs" using k by (auto simp: p_def parent_less intro: less_trans)
  have ok: "le (xs ! ((i - 1) div 2)) (xs ! i)" if "0 < i" "i < length xs" "i \<noteq> k" "(i - 1) div 2 \<noteq> k" for i
    using gap that by (auto simp: heap_gap_def heap_at_def)
  have br: "le (xs ! p) (xs ! i)" if "0 < i" "i < length xs" "(i - 1) div 2 = k" for i
    using gap that k by (auto simp: heap_gap_def heap_bridge_def p_def)
  have kp: "le (xs ! k) (xs ! p)" using total_preorderD(1) [OF ord] bad by (simp add: p_def)
  note tr = total_preorderD(2) [OF ord]
  have at: "heap_at le (swp xs k p) i" if i: "i < length xs" "i \<noteq> p" for i
  proof (cases "i = 0")
    case False
    define q where "q = (i - 1) div 2"
    have q: "q < i" "q < length xs" using False i by (auto simp: q_def parent_less intro: less_trans)
    consider "i = k" "q = p" | "i \<noteq> k" "q = p" | "i \<noteq> k" "q = k" | "i \<noteq> k" "q \<noteq> p" "q \<noteq> k"
      by (auto simp: q_def p_def)
    then have "le (swp xs k p ! q) (swp xs k p ! i)"
      using ok [of i, folded q_def] br [of i, folded q_def] kp tr [OF kp] i False q p k
      by cases (auto simp: nth_swp)
    then show ?thesis by (simp add: heap_at_def q_def)
  qed (simp add: heap_at_def)
  have "heap_bridge le (swp xs k p) p"
    unfolding heap_bridge_def
  proof (intro allI impI)
    fix i assume i: "i < length (swp xs k p)" "0 < p \<and> 0 < i \<and> (i - 1) div 2 = p"
    define r where "r = (p - 1) div 2"
    have r: "r < p" unfolding r_def by (rule parent_less) (use i in simp)
    have pi: "p < i" using i parent_less by auto
    have rp: "le (xs ! r) (xs ! p)" using ok [of p] i p r by (auto simp: r_def)
    have "i \<noteq> k \<Longrightarrow> le (xs ! p) (xs ! i)" using ok [of i] i p by auto
    then have "le (swp xs k p ! r) (swp xs k p ! i)"
      using rp tr [OF rp] i r p k pi by (auto simp: nth_swp)
    then show "le (swp xs k p ! ((p - 1) div 2)) (swp xs k p ! i)" by (simp add: r_def)
  qed
  with at show ?thesis by (simp add: heap_up_def p_def)
qed

lemma heap_down_done:
  assumes "heap_down le xs r" "\<And>i. i < length xs \<Longrightarrow> 0 < i \<Longrightarrow> (i - 1) div 2 = r \<Longrightarrow> le (xs ! r) (xs ! i)"
  shows "heap le xs"
  using assms unfolding heap_down_def heap_def heap_at_def by blast

lemma heap_down_step:
  assumes down: "heap_down le xs r" and f: "f < length xs" "0 < f" "(f - 1) div 2 = r"
    and least: "\<And>i. i < length xs \<Longrightarrow> 0 < i \<Longrightarrow> (i - 1) div 2 = r \<Longrightarrow> le (xs ! f) (xs ! i)" "le (xs ! f) (xs ! r)"
  shows "heap_down le (swp xs f r) f"
proof -
  have r: "r < f" "r < length xs" using f parent_less by auto
  have ok: "le (xs ! ((i - 1) div 2)) (xs ! i)" if "0 < i" "i < length xs" "(i - 1) div 2 \<noteq> r" for i
    using down that by (auto simp: heap_down_def heap_at_def)
  have br: "le (xs ! ((r - 1) div 2)) (xs ! f)" if "0 < r"
    using down that f by (auto simp: heap_down_def heap_bridge_def)
  have "heap_at le (swp xs f r) i" if i: "i < length xs" "0 < i" "(i - 1) div 2 \<noteq> f" for i
  proof -
    define q where "q = (i - 1) div 2"
    have q: "q < i" "q < length xs" using i by (auto simp: q_def parent_less intro: less_trans)
    have "le (swp xs f r ! q) (swp xs f r ! i)"
      using ok [of i, folded q_def] least(1) [of i, folded q_def] least(2) br f r q i
      by (auto simp: nth_swp q_def)
    then show ?thesis by (simp add: heap_at_def q_def)
  qed
  moreover have "heap_bridge le (swp xs f r) f"
    unfolding heap_bridge_def
  proof (intro allI impI)
    fix i assume i: "i < length (swp xs f r)" "0 < f \<and> 0 < i \<and> (i - 1) div 2 = f"
    then have "f < i" using parent_less [of i] by auto
    then show "le (swp xs f r ! ((f - 1) div 2)) (swp xs f r ! i)"
      using ok [of i] i r f by (auto simp: nth_swp)
  qed
  ultimately show ?thesis by (auto simp: heap_down_def heap_at_def)
qed

lemma heap_root_least:
  assumes ord: "total_preorder le" and h: "heap le xs" and i: "i < length xs"
  shows "le (xs ! 0) (xs ! i)"
  using i
proof (induction i rule: less_induct)
  case (less i)
  show ?case
  proof (cases "i = 0")
    case True
    then show ?thesis using ord by (auto simp: total_preorder_def)
  next
    case False
    then have "(i - 1) div 2 < i" by (simp add: parent_less)
    then have "le (xs ! 0) (xs ! ((i - 1) div 2))" using less by auto
    moreover have "le (xs ! ((i - 1) div 2)) (xs ! i)" using h less.prems False by (auto simp: heap_def heap_at_def)
    ultimately show ?thesis using total_preorderD(2) [OF ord] by blast
  qed
qed

text \<open>Putting the last element of a heap in place of the one at \<open>k\<close> leaves a heap but for position \<open>k\<close>.\<close>

lemma heap_replace_gap:
  assumes ord: "total_preorder le" and h: "heap le xs" and k: "k < length xs - 1"
  shows "heap_gap le (butlast (swp xs k (length xs - 1))) k"
proof -
  define n where "n = length xs - 1"
  define ys where "ys = butlast (swp xs k n)"
  have n: "k < n" "n < length xs" "length ys = n" using k by (auto simp: n_def ys_def)
  have y: "ys ! i = (if i = k then xs ! n else xs ! i)" if "i < n" for i
    using that n by (simp add: ys_def nth_butlast nth_swp)
  have ok: "le (xs ! ((i - 1) div 2)) (xs ! i)" if "0 < i" "i < length xs" for i
    using h that by (auto simp: heap_def heap_at_def)
  have "heap_at le ys i" if "i < n" "i \<noteq> k" "(i - 1) div 2 \<noteq> k" for i
    using ok [of i] that n parent_less [of i] by (auto simp: heap_at_def y)
  moreover have "heap_bridge le ys k"
    unfolding heap_bridge_def n(3)
  proof (intro allI impI)
    fix i assume i: "i < n" "0 < k \<and> 0 < i \<and> (i - 1) div 2 = k"
    define p where "p = (k - 1) div 2"
    have lt: "k < i" "p < k" using i parent_less [of i] parent_less [of k] by (auto simp: p_def)
    have "le (xs ! p) (xs ! k)" "le (xs ! k) (xs ! i)"
      using ok [of k] ok [of i] i n by (auto simp: p_def)
    then have "le (xs ! p) (xs ! i)" by (rule total_preorderD(2) [OF ord])
    then have "le (ys ! p) (ys ! i)" using i n lt by (simp add: y)
    then show "le (ys ! ((k - 1) div 2)) (ys ! i)" by (simp add: p_def)
  qed
  ultimately have "heap_gap le ys k" by (simp add: heap_gap_def n(3))
  then show ?thesis by (simp add: ys_def n_def)
qed

lemma heap_gap_root: "heap_gap le xs 0 \<Longrightarrow> heap_down le xs 0"
  unfolding heap_gap_def heap_down_def heap_at_def by auto

lemma heap_butlast: "heap le xs \<Longrightarrow> heap le (butlast xs)"
  by (auto simp: heap_def heap_at_def nth_butlast)

lemma heap_snoc: "heap le xs \<Longrightarrow> heap_up le (xs @ [x]) (length xs)"
proof -
  assume h: "heap le xs"
  have "heap_at le (xs @ [x]) i" if "i < length xs" for i
    using h that parent_less [of i] by (auto simp: heap_def heap_at_def nth_append)
  moreover have "(i - 1) div 2 \<noteq> length xs" if "i < length (xs @ [x])" "0 < i" for i
    using that parent_less [of i] by auto
  ultimately show ?thesis by (auto simp: heap_up_def heap_bridge_def less_Suc_eq)
qed

lemma pq_invD:
  assumes "pq_inv q"
  shows "al_wf (pq_container q)" "set (al_items (pq_container q)) \<subseteq> range Item"
    "unat (al_length (pq_container q)) < 2 ^ 61" "bps_inv (pq_backpointers q) (al_length (pq_container q))"
    "nodes_inv (pq_bps q) (pq_nodes q)"
  using assms by (auto simp: pq_inv_def)

lemma length_pq_bps:
  assumes "bps_inv (pq_backpointers q) (al_length (pq_container q))"
  shows "length (pq_bps q) = unat (al_length (pq_container q))"
  using assms by (auto simp: pq_bps_def bps_inv_def length_items)

lemma length_entries:
  assumes "pq_inv q" shows "length (pq_entries q) = unat (al_length (pq_container q))"
  using pq_invD [OF assms] by (simp add: pq_entries_def length_pq_bps length_items)

lemma al_items_Item:
  assumes "pq_inv q" "i < unat (al_length (pq_container q))"
  shows "al_items (pq_container q) ! i = Item (fst (pq_entries q ! i))"
    "snd (pq_entries q ! i) = pq_bps q ! i"
proof -
  note inv = pq_invD [OF assms(1)]
  have len: "i < length (al_items (pq_container q))" "i < length (pq_bps q)"
    using assms(2) length_items [OF inv(1)] length_pq_bps [OF inv(4)] by auto
  then have "al_items (pq_container q) ! i \<in> range Item" using inv(2) nth_mem by blast
  then show "al_items (pq_container q) ! i = Item (fst (pq_entries q ! i))" using len by (auto simp: pq_entries_def)
  show "snd (pq_entries q ! i) = pq_bps q ! i" using len by (simp add: pq_entries_def)
qed

lemma bp_read_ok: "s \<noteq> Garbage \<Longrightarrow> bp_read (Inr s) = Inr (bp_of s)"
  by (cases s) (auto simp: bp_read_def bp_of_def)

lemma zip_swp:
  assumes "a < length xs" "b < length xs" "length ys = length xs"
  shows "zip (swp xs a b) (swp ys a b) = swp (zip xs ys) a b"
  using assms by (simp add: swp_def update_zip)

lemma map_swp: "a < length xs \<Longrightarrow> b < length xs \<Longrightarrow> map f (swp xs a b) = swp (map f xs) a b"
  by (simp add: swp_def map_update)

lemma swp_replicate: "a < n \<Longrightarrow> b < n \<Longrightarrow> swp (replicate n x) a b = replicate n x"
  by (intro nth_equalityI) (auto simp: nth_swp)

lemma node_set_other: "p \<noteq> Some m \<Longrightarrow> node_set nodes p i m = nodes m"
  by (simp add: node_set_def split: option.split)

lemma node_set_same [simp]: "node_set nodes (Some n) i n = i"
  by (simp add: node_set_def)

lemma nodes_inv_swp:
  assumes inv: "nodes_inv bps nodes" and ab: "unat a < length bps" "unat b < length bps"
  shows "nodes_inv (swp bps (unat a) (unat b)) (node_set (node_set nodes (bps ! unat b) a) (bps ! unat a) b)"
  unfolding nodes_inv_def
proof (intro allI impI)
  fix i n assume i: "i < length (swp bps (unat a) (unat b))" "swp bps (unat a) (unat b) ! i = Some n"
  have uniq: "bps ! j \<noteq> bps ! k" if "j < length bps" "k < length bps" "bps ! j = Some m" "j \<noteq> k" for j k m
    using inv that unfolding nodes_inv_def by metis
  consider "i = unat b" | "i = unat a" "i \<noteq> unat b" | "i \<noteq> unat a" "i \<noteq> unat b" by blast
  then show "unat (node_set (node_set nodes (bps ! unat b) a) (bps ! unat a) b n) = i"
  proof cases
    case 2
    then have "bps ! unat b = Some n" "bps ! unat a \<noteq> Some n" using i ab uniq [of "unat b" "unat a" n] by (auto simp: nth_swp)
    with 2 show ?thesis by (simp add: node_set_other)
  next
    case 3
    then have n: "bps ! i = Some n" "i < length bps" using i ab by (auto simp: nth_swp)
    then have "bps ! unat b \<noteq> Some n" "bps ! unat a \<noteq> Some n"
      using uniq [of i "unat b" n] uniq [of i "unat a" n] ab 3 by simp_all
    then show ?thesis using inv n by (simp add: node_set_other nodes_inv_def)
  qed (use i ab in \<open>simp add: nth_swp\<close>)
qed

lemma rearranged_refl: "pq_inv q \<Longrightarrow> rearranged q q"
  by (simp add: rearranged_def)

lemma rearranged_trans:
  assumes "rearranged q q1" "rearranged q1 q2" shows "rearranged q q2"
proof -
  have "set (pq_entries q1) = set (pq_entries q)"
    using assms(1) unfolding rearranged_def by (metis set_mset_mset)
  then show ?thesis using assms unfolding rearranged_def by auto
qed

text \<open>The two halves of \<open>s_swap\<close>: the container, and the backpointers with their nodes.\<close>

lemma swap_container_ok:
  assumes inv: "pq_inv q" and a: "a < al_length (pq_container q)" and b: "b < al_length (pq_container q)"
  obtains c where "aws_array_list_swap (pq_container q) a b = Inr c" "al_wf c"
    "al_items c = swp (al_items (pq_container q)) (unat a) (unat b)" "set (al_items c) \<subseteq> range Item"
    "al_item_size c = al_item_size (pq_container q)" "al_alloc c = al_alloc (pq_container q)"
    "al_length c = al_length (pq_container q)" "al_cap c = al_cap (pq_container q)"
proof -
  note i = pq_invD [OF inv]
  have "unat a < length (al_items (pq_container q))" "unat b < length (al_items (pq_container q))"
    using a b length_items [OF i(1)] by (simp_all add: word_less_nat_alt)
  then have sub: "set (swp (al_items (pq_container q)) (unat a) (unat b)) \<subseteq> range Item"
    using i(2) by (simp add: swp_def)
  show thesis
    by (rule swap_ok [OF i(1) a b], erule that) (use sub in \<open>simp_all add: swp_def\<close>)
qed

lemma al_data_slots: "j < al_cap l \<Longrightarrow> al_data l = Some (al_slots l)"
  by (cases "al_data l") (simp_all add: al_slots_def)

lemma backpointer_slots:
  assumes inv: "pq_inv q" and nz: "\<not> al_is_zeroed (pq_backpointers q)" and j: "j < unat (al_length (pq_container q))"
  shows "al_data (pq_backpointers q) = Some (al_slots (pq_backpointers q))"
    "j < al_cap (pq_backpointers q)" "al_slots (pq_backpointers q) ! j \<noteq> Garbage"
    "pq_bps q ! j = bp_of (al_slots (pq_backpointers q) ! j)"
proof -
  let ?b = "pq_backpointers q"
  have w: "al_wf ?b" "al_length ?b = al_length (pq_container q)" "Garbage \<notin> set (al_items ?b)"
    using pq_invD(4) [OF inv] nz by (auto simp: bps_inv_def)
  show cap: "j < al_cap ?b" using j al_wfD(5) [OF w(1)] w(2) by auto
  then show "al_data ?b = Some (al_slots ?b)" by (rule al_data_slots)
  have it: "j < length (al_items ?b)" "al_items ?b ! j = al_slots ?b ! j"
    using j length_items [OF w(1)] w(2) by (auto simp: al_items_def)
  then show "al_slots ?b ! j \<noteq> Garbage" using w(3) nth_mem by metis
  show "pq_bps q ! j = bp_of (al_slots ?b ! j)" using it nz by (simp add: pq_bps_def)
qed

lemma swapped_slots_bps:
  assumes w: "al_wf l" "a < unat (al_length l)" "b < unat (al_length l)"
  shows "map bp_of (take (unat (al_length l)) (swapped_slots l a b)) = swp (map bp_of (al_items l)) a b"
proof -
  have "a < al_cap l" "b < al_cap l" using al_wfD(5) [OF w(1)] w(2,3) by auto
  then show ?thesis using w(2,3)
    by (simp add: swapped_slots_def swp_def take_update_swap map_update al_items_def) (simp add: bp_of_def)
qed

lemma swapped_slots_clean:
  assumes "a < al_cap l" "b < al_cap l" "Garbage \<notin> set (al_items l)"
  shows "Garbage \<notin> set (take (unat (al_length l)) (swapped_slots l a b))"
proof
  assume "Garbage \<in> set (take (unat (al_length l)) (swapped_slots l a b))"
  then obtain j where j: "j < unat (al_length l)" "j < al_cap l" "swapped_slots l a b ! j = Garbage"
    by (auto simp: in_set_conv_nth swapped_slots_def)
  then have "al_slots l ! j = Garbage"
    using assms(1,2) by (auto simp: swapped_slots_def nth_list_update split: if_splits)
  moreover have "al_slots l ! j \<in> set (al_items l)" using j by (auto simp: al_items_def in_set_conv_nth)
  ultimately show False using assms(3) by simp
qed

lemma swap_backpointers_ok:
  assumes inv: "pq_inv q" and a: "a < al_length (pq_container q)" and b: "b < al_length (pq_container q)"
    and c: "aws_array_list_swap (pq_container q) a b = Inr c" "al_length c = al_length (pq_container q)"
  obtains q' where "s_swap q a b = Inr q'" "pq_container q' = c" "pq_pred q' = pq_pred q"
    "al_is_zeroed (pq_backpointers q') = al_is_zeroed (pq_backpointers q)"
    "bps_inv (pq_backpointers q') (al_length c)" "nodes_inv (pq_bps q') (pq_nodes q')"
    "pq_bps q' = swp (pq_bps q) (unat a) (unat b)"
    "\<forall>m. Some m \<notin> set (pq_bps q) \<longrightarrow> pq_nodes q' m = pq_nodes q m"
proof (cases "al_is_zeroed (pq_backpointers q)")
  case True
  show thesis
    by (rule that [of "q\<lparr>pq_container := c\<rparr>"])
      (use True a b pq_invD [OF inv] c in \<open>auto simp: s_swap_def bps_inv_def pq_bps_def swp_replicate word_less_nat_alt\<close>)
next
  case nz: False
  note al_slots_simps(1) [simp del]
  let ?b = "pq_backpointers q" and ?n = "al_length (pq_container q)"
  note i = pq_invD [OF inv]
  have lt: "unat a < unat ?n" "unat b < unat ?n" using a b by (simp_all add: word_less_nat_alt)
  have w: "al_wf ?b" "al_length ?b = ?n" "Garbage \<notin> set (al_items ?b)" "al_item_size ?b = 8" "al_alloc ?b \<noteq> None"
    "al_slots ?b \<noteq> []"
    using i(4) nz by (auto simp: bps_inv_def)
  note sa = backpointer_slots [OF inv nz lt(1)] and sb = backpointer_slots [OF inv nz lt(2)]
  define q' where "q' = q\<lparr>pq_container := c, pq_backpointers := ?b\<lparr>al_data := Some (swapped_slots ?b (unat a) (unat b))\<rparr>,
    pq_nodes := node_set (node_set (pq_nodes q) (pq_bps q ! unat b) a) (pq_bps q ! unat a) b\<rparr>"
  have s: "s_swap q a b = Inr q'"
    using nz sa sb by (simp add: s_swap_def c mem_load_def mem_store_def bp_read_ok q'_def swapped_slots_def Let_def)
  have nz': "\<not> al_is_zeroed (pq_backpointers q')" by (simp add: q'_def al_is_zeroed_def w)
  have it: "al_items (pq_backpointers q') = take (unat ?n) (swapped_slots ?b (unat a) (unat b))"
    by (simp add: al_items_def q'_def w)
  have bps: "pq_bps q' = swp (pq_bps q) (unat a) (unat b)"
    using swapped_slots_bps [OF w(1)] lt w(2) nz nz' it by (simp add: pq_bps_def)
  have "al_wf (pq_backpointers q')"
    using w(1) sa(1) by (simp add: al_wf_iff q'_def swapped_slots_def)
  moreover have "Garbage \<notin> set (al_items (pq_backpointers q'))"
    using swapped_slots_clean [OF sa(2) sb(2) w(3)] by (simp add: it w(2))
  ultimately have bi: "bps_inv (pq_backpointers q') (al_length c)"
    using w c by (simp add: bps_inv_def q'_def swapped_slots_def)
  have ni: "nodes_inv (pq_bps q') (pq_nodes q')"
    unfolding bps using nodes_inv_swp [OF i(5), of a b] lt length_pq_bps [OF i(4)] by (simp add: q'_def)
  have fr: "pq_nodes q' m = pq_nodes q m" if "Some m \<notin> set (pq_bps q)" for m
  proof -
    have "pq_bps q ! unat a \<noteq> Some m" "pq_bps q ! unat b \<noteq> Some m"
      using that lt length_pq_bps [OF i(4)] by (metis nth_mem)+
    then show ?thesis by (simp add: q'_def node_set_other)
  qed
  show thesis by (rule that [OF s]) (use nz nz' bi ni bps fr in \<open>simp_all add: q'_def\<close>)
qed

lemma entries_bps:
  assumes "pq_inv q" shows "snd ` set (pq_entries q) = set (pq_bps q)"
proof -
  have "length (al_items (pq_container q)) = length (pq_bps q)"
    using pq_invD [OF assms] by (simp add: length_items length_pq_bps)
  then have "map snd (pq_entries q) = pq_bps q" by (simp add: pq_entries_def)
  then show ?thesis by (metis list.set_map)
qed

lemma s_swap_ok:
  assumes inv: "pq_inv q" and a: "a < al_length (pq_container q)" and b: "b < al_length (pq_container q)"
  obtains q' where "s_swap q a b = Inr q'" "rearranged q q'"
    "pq_entries q' = swp (pq_entries q) (unat a) (unat b)"
proof -
  note i = pq_invD [OF inv]
  have lt: "unat a < length (pq_entries q)" "unat b < length (pq_entries q)"
    using a b length_entries [OF inv] by (simp_all add: word_less_nat_alt)
  obtain c where c: "aws_array_list_swap (pq_container q) a b = Inr c" "al_wf c"
    "al_items c = swp (al_items (pq_container q)) (unat a) (unat b)" "set (al_items c) \<subseteq> range Item"
    "al_item_size c = al_item_size (pq_container q)" "al_alloc c = al_alloc (pq_container q)"
    "al_length c = al_length (pq_container q)" "al_cap c = al_cap (pq_container q)"
    by (rule swap_container_ok [OF assms])
  obtain q' where q': "s_swap q a b = Inr q'" "pq_container q' = c" "pq_pred q' = pq_pred q"
    "al_is_zeroed (pq_backpointers q') = al_is_zeroed (pq_backpointers q)"
    "bps_inv (pq_backpointers q') (al_length c)" "nodes_inv (pq_bps q') (pq_nodes q')"
    "pq_bps q' = swp (pq_bps q) (unat a) (unat b)"
    "\<forall>m. Some m \<notin> set (pq_bps q) \<longrightarrow> pq_nodes q' m = pq_nodes q m"
    by (rule swap_backpointers_ok [OF assms c(1,7)])
  have ent: "pq_entries q' = swp (pq_entries q) (unat a) (unat b)"
    using lt length_entries [OF inv] length_items [OF i(1)] length_pq_bps [OF i(4)]
    by (simp add: pq_entries_def q' c map_swp zip_swp)
  have "pq_inv q'" using c(2,4,7) i(3) q'(2,5,6) by (simp add: pq_inv_def)
  moreover have "mset (pq_entries q') = mset (pq_entries q)" using lt by (simp add: ent mset_swp)
  ultimately have "rearranged q q'" using c q' entries_bps [OF inv] by (simp add: rearranged_def)
  with q'(1) ent show thesis using that by blast
qed

lemma pq_le_preorder: "pq_ordered q \<Longrightarrow> total_preorder (pq_le q)"
  unfolding pq_ordered_def total_preorder_def pq_le_def by blast

lemma drop_bit_1_half: "unat (drop_bit (Suc 0) w :: size_t) = unat w div 2"
  by (simp add: drop_bit_eq_div unat_div)

lemma unat_PARENT_OF: "unat (PARENT_OF i) = (unat i - 1) div 2"
proof -
  have odd: "i AND 1 \<noteq> 0 \<longleftrightarrow> odd (unat i)"
    by (simp add: and_one_eq odd_iff_mod_2_eq_one flip: unat_eq_zero_iff) (simp add: unat_mod)
  consider "odd (unat i)" | "even (unat i)" "i = 0" | "even (unat i)" "1 < unat i"
  proof -
    have "odd n \<or> n = 0 \<or> 1 < n" for n :: nat by presburger
    from this [of "unat i"] show thesis using that by (metis unat_eq_zero_iff)
  qed
  then show ?thesis
  proof cases
    case 1
    then show ?thesis using odd by (auto simp: PARENT_OF_def drop_bit_1_half elim!: oddE)
  next
    case 3
    then have "i > 1" "unat (i - 2) = unat i - 2" by (auto simp: word_less_nat_alt word_le_nat_alt unat_sub_exact)
    then have "unat (PARENT_OF i) = (unat i - 2) div 2" using 3 odd by (simp add: PARENT_OF_def drop_bit_1_half)
    with 3 show ?thesis by presburger
  qed (simp add: PARENT_OF_def)
qed

lemma unat_child:
  assumes "unat i < 2 ^ 62"
  shows "unat (LEFT_OF i) = 2 * unat i + 1" "unat (RIGHT_OF i) = 2 * unat i + 2"
proof -
  have 2: "unat (push_bit 1 i) = 2 * unat i"
    using assms by (simp add: push_bit_1_double unat_mul_exact)
  show "unat (LEFT_OF i) = 2 * unat i + 1" "unat (RIGHT_OF i) = 2 * unat i + 2"
    using assms 2 unfolding LEFT_OF_def RIGHT_OF_def by (simp_all add: unat_add_exact)
qed

lemma container_ptr:
  assumes "pq_inv q" "i < al_length (pq_container q)"
  shows "aws_array_list_get_at_ptr (pq_container q) i = Inr (unat i)"
  using assms pq_invD(1) [OF assms(1)] by (simp add: get_at_ptr_eq)

lemma container_load:
  assumes inv: "pq_inv q" and i: "i < unat (al_length (pq_container q))"
  shows "mem_load (al_data (pq_container q)) i = Inr (Item (fst (pq_entries q ! i)))"
proof -
  have cap: "i < al_cap (pq_container q)" using i al_wfD(5) [OF pq_invD(1) [OF inv]] by simp
  have "al_slots (pq_container q) ! i = Item (fst (pq_entries q ! i))"
    using al_items_Item(1) [OF inv i] i by (simp add: al_items_def)
  then show ?thesis unfolding al_data_slots [OF cap] using cap by (simp add: mem_load_def)
qed

lemma call_pred_ok:
  assumes "pq_inv q" "i < unat (al_length (pq_container q))" "j < unat (al_length (pq_container q))"
  shows "call_pred q (Some i) (Some j) = Inr (pq_pred q (fst (pq_entries q ! i)) (fst (pq_entries q ! j)))"
  by (simp add: call_pred_def container_load [OF assms(1)] assms(2,3))

lemma sift_down_first_ok:
  assumes inv: "pq_inv q" and ord: "pq_ordered q" and n: "n = al_length (pq_container q)" and l: "LEFT_OF r < n"
    and r: "r < n"
  obtains f where "sift_down_first q n r = Inr f" "f < n" "f = r \<or> (unat f - 1) div 2 = unat r \<and> 0 < unat f"
    "\<And>i. i < unat n \<Longrightarrow> 0 < i \<Longrightarrow> (i - 1) div 2 = unat r \<Longrightarrow> pq_le q (pq_entries q ! unat f) (pq_entries q ! i)"
    "pq_le q (pq_entries q ! unat f) (pq_entries q ! unat r)"
proof -
  define e where "e = pq_entries q"
  define le where "le = pq_le q"
  have tp: "total_preorder le" using pq_le_preorder [OF ord] by (simp add: le_def)
  note tr = total_preorderD(2) [OF tp] and tot = total_preorderD(1) [OF tp]
  have rb: "unat r < 2 ^ 62" using r n pq_invD(3) [OF inv] by (simp add: word_less_nat_alt)
  note ch = unat_child [OF rb]
  have lr: "unat (LEFT_OF r) < unat n" "unat r < unat n" using l r by (simp_all add: word_less_nat_alt)
  have kids: "i = unat (LEFT_OF r) \<or> i = unat (RIGHT_OF r)" if "0 < i" "(i - 1) div 2 = unat r" for i
    using that ch by linarith
  have rfl: "le x x" for x using tot by blast
  have gt: "pq_pred q (fst x) (fst y) > 0 \<longleftrightarrow> \<not> le x y" for x y by (simp add: le_def pq_le_def)
  define f1 where "f1 = (if \<not> le (e ! unat r) (e ! unat (LEFT_OF r)) then LEFT_OF r else r)"
  have f1: "f1 = r \<or> f1 = LEFT_OF r" "le (e ! unat f1) (e ! unat r)" "le (e ! unat f1) (e ! unat (LEFT_OF r))" "unat f1 < unat n"
    using tot [of "e ! unat r" "e ! unat (LEFT_OF r)"] lr rfl by (auto simp: f1_def)
  define f where "f = (if RIGHT_OF r < n \<and> \<not> le (e ! unat f1) (e ! unat (RIGHT_OF r)) then RIGHT_OF r else f1)"
  have first: "sift_down_first q n r = Inr f"
    using lr l r
    by (auto simp: sift_down_first_def Let_def container_ptr [OF inv] n out_ptr_def call_pred_ok [OF inv] gt
        f1_def f_def e_def [symmetric] word_less_nat_alt)
  have le1: "le (e ! unat f) (e ! unat f1)"
    using tot [of "e ! unat f1" "e ! unat (RIGHT_OF r)"] rfl by (auto simp: f_def)
  have ler: "le (e ! unat f) (e ! unat (RIGHT_OF r))" if "RIGHT_OF r < n" using that rfl by (auto simp: f_def)
  show thesis
  proof (rule that [of f])
    show "sift_down_first q n r = Inr f" by (rule first)
    show "f < n" using f1(4) by (auto simp: f_def word_less_nat_alt)
    show "f = r \<or> (unat f - 1) div 2 = unat r \<and> 0 < unat f" using f1(1) ch by (auto simp: f_def)
    show "pq_le q (pq_entries q ! unat f) (pq_entries q ! unat r)"
      using tr [OF le1 f1(2)] by (simp add: le_def e_def)
    fix i assume i: "i < unat n" "0 < i" "(i - 1) div 2 = unat r"
    then show "pq_le q (pq_entries q ! unat f) (pq_entries q ! i)"
      using kids [OF i(2,3)] tr [OF le1 f1(3)] ler by (auto simp: le_def e_def word_less_nat_alt)
  qed
qed

lemma rearrangedD:
  assumes "rearranged q q'"
  shows "pq_inv q'" "pq_pred q' = pq_pred q" "al_length (pq_container q') = al_length (pq_container q)"
    "pq_le q' = pq_le q" "pq_ordered q' = pq_ordered q"
  using assms by (auto simp: rearranged_def pq_le_def pq_ordered_def fun_eq_iff)

lemma sift_down_loop_ok:
  assumes "pq_inv q" "pq_ordered q" "r < al_length (pq_container q)"
    "heap_down (pq_le q) (pq_entries q) (unat r)" "unat (al_length (pq_container q)) - unat r < fuel"
  shows "\<exists>m' q'. sift_down_loop fuel q (al_length (pq_container q)) r m = Inr (m', q') \<and> rearranged q q' \<and>
    heap (pq_le q) (pq_entries q')"
  using assms
proof (induction fuel arbitrary: q r m)
  case (Suc fuel)
  let ?n = "al_length (pq_container q)"
  note inv = Suc.prems(1) and len = length_entries [OF Suc.prems(1)]
  have rb: "unat r < 2 ^ 62" using Suc.prems(3) pq_invD(3) [OF inv] by (simp add: word_less_nat_alt)
  show ?case
  proof (cases "LEFT_OF r < ?n")
    case False
    then have "\<not> 2 * unat r + 1 < length (pq_entries q)" using unat_child [OF rb] len by (simp add: word_less_nat_alt)
    then have "heap (pq_le q) (pq_entries q)" by (intro heap_down_done [OF Suc.prems(4)]) linarith
    with False show ?thesis using rearranged_refl [OF inv] by simp
  next
    case True
    obtain f where f: "sift_down_first q ?n r = Inr f" "f < ?n" "f = r \<or> (unat f - 1) div 2 = unat r \<and> 0 < unat f"
      "\<forall>i. i < unat ?n \<longrightarrow> 0 < i \<longrightarrow> (i - 1) div 2 = unat r \<longrightarrow> pq_le q (pq_entries q ! unat f) (pq_entries q ! i)"
      "pq_le q (pq_entries q ! unat f) (pq_entries q ! unat r)"
      by (rule sift_down_first_ok [OF inv Suc.prems(2) refl True Suc.prems(3)]) blast
    show ?thesis
    proof (cases "f = r")
      case same: True
      have "heap (pq_le q) (pq_entries q)"
        by (rule heap_down_done [OF Suc.prems(4)]) (use f(4) same len in auto)
      with True f(1) same show ?thesis using rearranged_refl [OF inv] by simp
    next
      case False
      obtain q1 where q1: "s_swap q f r = Inr q1" "rearranged q q1"
        "pq_entries q1 = swp (pq_entries q) (unat f) (unat r)"
        by (rule s_swap_ok [OF inv f(2) Suc.prems(3)])
      note d = rearrangedD [OF q1(2)]
      have fr: "(unat f - 1) div 2 = unat r" "0 < unat f" "unat f < unat ?n" using f(2,3) False by (auto simp: word_less_nat_alt)
      then have rf: "unat r < unat f" using parent_less by metis
      have hd: "heap_down (pq_le q1) (pq_entries q1) (unat f)"
        unfolding q1(3) d(4) by (rule heap_down_step [OF Suc.prems(4)]) (use f(4,5) fr len in auto)
      have "\<exists>m' q'. sift_down_loop fuel q1 (al_length (pq_container q1)) f True = Inr (m', q') \<and> rearranged q1 q' \<and>
          heap (pq_le q1) (pq_entries q')"
        by (rule Suc.IH [OF d(1) _ _ hd]) (use d Suc.prems(2,5) f(2) rf fr(3) in auto)
      then show ?thesis using True f(1) False q1 d rearranged_trans [OF q1(2)] by auto
    qed
  qed
qed simp

lemma sift_up_loop_step:
  assumes inv: "pq_inv q" and k: "k < al_length (pq_container q)" "k \<noteq> 0"
  shows "sift_up_loop (Suc fuel) q k (PARENT_OF k) m =
    (if \<not> pq_le q (pq_entries q ! ((unat k - 1) div 2)) (pq_entries q ! unat k)
     then case s_swap q k (PARENT_OF k) of Inl e \<Rightarrow> Inl e
       | Inr q1 \<Rightarrow> sift_up_loop fuel q1 (PARENT_OF k) (PARENT_OF (PARENT_OF k)) True
     else Inr (m, q))"
    and "PARENT_OF k < al_length (pq_container q)" "unat (PARENT_OF k) < unat k"
proof -
  have k': "0 < unat k" "unat k < unat (al_length (pq_container q))"
    using k by (simp_all add: word_less_nat_alt unat_gt_0)
  show pk: "unat (PARENT_OF k) < unat k" using parent_less [OF k'(1)] by (simp add: unat_PARENT_OF)
  then show p: "PARENT_OF k < al_length (pq_container q)" using k' by (simp add: word_less_nat_alt)
  have p': "(unat k - 1) div 2 < unat (al_length (pq_container q))"
    using p by (simp add: word_less_nat_alt unat_PARENT_OF)
  show "sift_up_loop (Suc fuel) q k (PARENT_OF k) m =
    (if \<not> pq_le q (pq_entries q ! ((unat k - 1) div 2)) (pq_entries q ! unat k)
     then case s_swap q k (PARENT_OF k) of Inl e \<Rightarrow> Inl e
       | Inr q1 \<Rightarrow> sift_up_loop fuel q1 (PARENT_OF k) (PARENT_OF (PARENT_OF k)) True
     else Inr (m, q))"
    using k(2) container_ptr [OF inv p] container_ptr [OF inv k(1)] call_pred_ok [OF inv p' k'(2)]
    by (simp add: unat_PARENT_OF pq_le_def)
qed

lemma sift_up_move:
  assumes inv: "pq_inv q" and ord: "pq_ordered q" and k: "k < al_length (pq_container q)" "k \<noteq> 0"
    and gap: "heap_gap (pq_le q) (pq_entries q) (unat k)"
    and bad: "\<not> pq_le q (pq_entries q ! ((unat k - 1) div 2)) (pq_entries q ! unat k)"
  obtains q1 where "s_swap q k (PARENT_OF k) = Inr q1" "rearranged q q1"
    "heap_up (pq_le q1) (pq_entries q1) (unat (PARENT_OF k))"
proof -
  obtain q1 where q1: "s_swap q k (PARENT_OF k) = Inr q1" "rearranged q q1"
    "pq_entries q1 = swp (pq_entries q) (unat k) (unat (PARENT_OF k))"
    by (rule s_swap_ok [OF inv k(1) sift_up_loop_step(2) [OF inv k]])
  have "heap_up (pq_le q1) (pq_entries q1) (unat (PARENT_OF k))"
    unfolding q1(3) rearrangedD(4) [OF q1(2)] unat_PARENT_OF
    by (rule heap_gap_step [OF pq_le_preorder [OF ord] gap _ _ bad])
      (use k length_entries [OF inv] in \<open>simp_all add: word_less_nat_alt unat_gt_0\<close>)
  with q1(1,2) show thesis by (rule that)
qed

lemma sift_up_loop_ok:
  assumes "pq_inv q" "pq_ordered q" "k < al_length (pq_container q)"
    "heap_up (pq_le q) (pq_entries q) (unat k)" "unat k < fuel"
  shows "\<exists>m' q'. sift_up_loop fuel q k (PARENT_OF k) m = Inr (m', q') \<and> rearranged q q' \<and>
    heap (pq_le q) (pq_entries q') \<and> (m \<longrightarrow> m')"
  using assms
proof (induction fuel arbitrary: q k m)
  case (Suc fuel)
  note inv = Suc.prems(1)
  consider "k = 0" | "k \<noteq> 0" "pq_le q (pq_entries q ! ((unat k - 1) div 2)) (pq_entries q ! unat k)"
    | "k \<noteq> 0" "\<not> pq_le q (pq_entries q ! ((unat k - 1) div 2)) (pq_entries q ! unat k)" by blast
  then show ?case
  proof cases
    case 1
    then have "heap (pq_le q) (pq_entries q)" using heap_up_done [OF Suc.prems(4)] by (simp add: heap_at_def)
    with 1 show ?thesis using rearranged_refl [OF inv] by simp
  next
    case 2
    then have "heap (pq_le q) (pq_entries q)" by (intro heap_up_done [OF Suc.prems(4)]) (simp add: heap_at_def)
    with 2 show ?thesis using rearranged_refl [OF inv] sift_up_loop_step(1) [OF inv Suc.prems(3) 2(1)] by simp
  next
    case 3
    note step = sift_up_loop_step [OF inv Suc.prems(3) 3(1)]
    obtain q1 where q1: "s_swap q k (PARENT_OF k) = Inr q1" "rearranged q q1"
      "heap_up (pq_le q1) (pq_entries q1) (unat (PARENT_OF k))"
      by (rule sift_up_move [OF inv Suc.prems(2,3) 3(1) heap_up_imp_gap [OF Suc.prems(4)] 3(2)])
    note d = rearrangedD [OF q1(2)]
    have "\<exists>m' q'. sift_up_loop fuel q1 (PARENT_OF k) (PARENT_OF (PARENT_OF k)) True = Inr (m', q') \<and>
        rearranged q1 q' \<and> heap (pq_le q1) (pq_entries q') \<and> (True \<longrightarrow> m')"
      by (rule Suc.IH [OF d(1) _ _ q1(3)]) (use d Suc.prems(2,5) step(2,3) in auto)
    then show ?thesis using step(1) 3 q1 d rearranged_trans [OF q1(2)] by auto
  qed
qed simp

lemma sift_either_ok:
  assumes inv: "pq_inv q" and ord: "pq_ordered q" and k: "k < al_length (pq_container q)"
    and gap: "heap_gap (pq_le q) (pq_entries q) (unat k)"
  obtains q' where "s_sift_either q k = Inr q'" "rearranged q q'" "heap (pq_le q) (pq_entries q')"
proof -
  have len: "aws_array_list_length (pq_container q) = Inr (al_length (pq_container q))"
    using pq_invD(1) [OF inv] by simp
  have down: "\<exists>m q'. s_sift_down q k = Inr (m, q') \<and> rearranged q q' \<and> heap (pq_le q) (pq_entries q')"
    if "heap_down (pq_le q) (pq_entries q) (unat k)"
    unfolding s_sift_down_def len sum.case by (rule sift_down_loop_ok [OF inv ord k that]) simp
  consider "k = 0" | "k \<noteq> 0" "pq_le q (pq_entries q ! ((unat k - 1) div 2)) (pq_entries q ! unat k)"
    | "k \<noteq> 0" "\<not> pq_le q (pq_entries q ! ((unat k - 1) div 2)) (pq_entries q ! unat k)" by blast
  then show thesis
  proof cases
    case 1
    then show ?thesis using down heap_gap_root gap that by (fastforce simp: s_sift_either_def)
  next
    case 2
    have up: "s_sift_up q k = Inr (False, q)"
      using sift_up_loop_step(1) [OF inv k 2(1)] 2(2) by (simp add: s_sift_up_def)
    have "heap_down (pq_le q) (pq_entries q) (unat k)"
      by (rule heap_gap_stay [OF gap]) (use 2 in \<open>simp add: heap_at_def\<close>)
    with down up 2(1) that show ?thesis by (fastforce simp: s_sift_either_def)
  next
    case 3
    note step = sift_up_loop_step [OF inv k 3(1)]
    obtain q1 where q1: "s_swap q k (PARENT_OF k) = Inr q1" "rearranged q q1"
      "heap_up (pq_le q1) (pq_entries q1) (unat (PARENT_OF k))"
      by (rule sift_up_move [OF inv ord k 3(1) gap 3(2)])
    note d = rearrangedD [OF q1(2)]
    obtain q' where q': "sift_up_loop (unat k) q1 (PARENT_OF k) (PARENT_OF (PARENT_OF k)) True = Inr (True, q')"
      "rearranged q1 q'" "heap (pq_le q1) (pq_entries q')"
      using sift_up_loop_ok [OF d(1) _ _ q1(3), of "unat k" True] d ord step(2,3) by auto
    then have "s_sift_either q k = Inr q'" using step(1) 3 q1(1) by (simp add: s_sift_either_def s_sift_up_def)
    with q' d rearranged_trans [OF q1(2)] show ?thesis by (intro that [of q']) auto
  qed
qed

lemma pq_bps_list: "pq_bps q = bps_list (pq_backpointers q) (unat (al_length (pq_container q)))"
  by (simp add: pq_bps_def bps_list_def)

lemma replicate_snoc: "replicate n x @ [x] = replicate (Suc n) x"
  by (simp add: replicate_append_same)

lemma small_index: "unat (n :: size_t) + 1 < 2 ^ 61 \<Longrightarrow> unat (n + 1) = unat n + 1" "unat n + 1 < 2 ^ 61 \<Longrightarrow> (n :: size_t) + 1 - 1 = n"
  by (simp_all add: unat_add_exact)

lemma set_backpointer_ok:
  assumes b: "al_wf b" "al_item_size b = 8" "al_alloc b \<noteq> None" and n: "unat n + 1 < 2 ^ 61"
    and it: "take (unat n) (al_slots b) = xs" "length xs = unat n" "Garbage \<notin> set xs" "al_length b \<le> n"
  obtains b1 where "aws_array_list_set_at b p n = (AWS_OP_SUCCESS, b1)" "bps_inv b1 (n + 1)" "\<not> al_is_zeroed b1"
    "al_items b1 = xs @ [Item p]"
proof -
  define b1 where "b1 = al_put (al_room b n) n p"
  have fit: "(unat n + 1) * unat (al_item_size b) < 2 ^ 64" using n b(2) by simp
  note r = room [OF b(1) fit]
  have s: "aws_array_list_set_at b p n = (AWS_OP_SUCCESS, b1)"
    using fit b(1,3) by (simp add: set_at_eq b1_def)
  have wf: "al_wf b1" unfolding b1_def by (rule wf_put [OF r(1,2)]) (use r(4) fit in simp)
  have len: "al_length b1 = n + 1" using it(4) r(3) by (simp add: b1_def)
  have pre: "take (unat n) (al_slots (al_room b n)) = xs"
  proof (cases "unat n < al_cap b")
    case False
    then have "al_cap b = unat n" using it(1,2) by auto
    then show ?thesis using it(1) False by (simp add: al_room_def al_grow_def)
  qed (simp add: al_room_def it)
  have items: "al_items b1 = xs @ [Item p]"
    using r(2) pre n len by (simp add: al_items_def b1_def small_index take_Suc_conv_app_nth)
  have "bps_inv b1 (n + 1)"
    using wf len items it(3) b r(2,4,5) by (auto simp: bps_inv_def b1_def)
  moreover have "\<not> al_is_zeroed b1" using al_wfD(1) [OF wf] by (simp add: al_is_zeroed_def)
  ultimately show thesis by (rule that [OF s _ _ items])
qed

lemma fresh_backpointers:
  assumes "alloc \<noteq> None" "unat n + 1 < 2 ^ 61"
  obtains b where "push_ref_backpointers al_zero alloc n (Some p) = (AWS_OP_SUCCESS, b)" "al_wf b"
    "al_item_size b = 8" "al_alloc b \<noteq> None" "al_slots b = replicate (unat n + 1) Zeroed" "al_length b = 0"
proof -
  have s: "unat (n + 1) = unat n + 1" using small_index(1) [OF assms(2)] .
  obtain l :: "nat option array_list" where l: "aws_array_list_init_dynamic alloc (n + 1) 8 = (AWS_OP_SUCCESS, l)" "al_wf l"
    "al_items l = []" "al_cap l = unat n + 1" "al_item_size l = 8" "al_alloc l = alloc" "al_length l = 0"
    by (rule init_dynamic_ok [of alloc 8 "n + 1"]) (use assms s in auto)
  obtain d where d: "al_data l = Some d" using l(4) by (cases "al_data l") simp_all
  let ?b = "l\<lparr>al_data := Some (replicate (unat n + 1) Zeroed)\<rparr>"
  have "push_ref_backpointers al_zero alloc n (Some p) = (AWS_OP_SUCCESS, ?b)"
    using assms(1) l d slot_at_cap [OF l(2)] by (simp add: push_ref_backpointers_def al_zero_def)
  moreover have "al_wf ?b" using l(2,4,7) d by (simp add: al_wf_iff)
  ultimately show thesis using l assms(1) by (intro that [of ?b]) simp_all
qed

lemma al_is_zeroed_iff: "al_is_zeroed l \<longleftrightarrow> l = al_zero"
  by (auto simp: al_is_zeroed_def al_zero_def)

lemma push_backpointer_ok:
  assumes inv: "bps_inv b n" and n: "unat n + 1 < 2 ^ 61" and al: "p = None \<or> alloc \<noteq> None"
  obtains b0 b1 where "push_ref_backpointers b alloc n p = (AWS_OP_SUCCESS, b0)"
    "(if al_is_zeroed b0 then (AWS_OP_SUCCESS, b0) else aws_array_list_set_at b0 p n) = (AWS_OP_SUCCESS, b1)"
    "bps_inv b1 (n + 1)" "bps_list b1 (unat n + 1) = bps_list b (unat n) @ [p]"
proof -
  consider "al_is_zeroed b" "p = None" | m where "al_is_zeroed b" "p = Some m" | "\<not> al_is_zeroed b" by blast
  then show thesis
  proof cases
    case 1
    then show thesis
      by (intro that [of b b]) (auto simp: push_ref_backpointers_def bps_inv_def bps_list_def replicate_snoc)
  next
    case 2
    then have z: "b = al_zero" by (simp add: al_is_zeroed_iff)
    obtain b0 where b0: "push_ref_backpointers b alloc n p = (AWS_OP_SUCCESS, b0)" "al_wf b0"
      "al_item_size b0 = 8" "al_alloc b0 \<noteq> None" "al_slots b0 = replicate (unat n + 1) Zeroed" "al_length b0 = 0"
      using fresh_backpointers [OF _ n, of alloc m] al 2(2) z by auto
    have nz: "\<not> al_is_zeroed b0" using b0(4) by (simp add: al_is_zeroed_def)
    have pre: "take (unat n) (al_slots b0) = replicate (unat n) Zeroed"
      unfolding b0(5) take_replicate by (simp add: min_def)
    obtain b1 where b1: "aws_array_list_set_at b0 p n = (AWS_OP_SUCCESS, b1)" "bps_inv b1 (n + 1)" "\<not> al_is_zeroed b1"
      "al_items b1 = replicate (unat n) Zeroed @ [Item p]"
      by (rule set_backpointer_ok [OF b0(2,3,4) n pre, of p]) (use pre b0(6) in auto)
    show thesis
      by (rule that [OF b0(1) _ b1(2)]) (use nz b1 2 in \<open>simp_all add: bps_list_def bp_of_def map_replicate_const\<close>)
  next
    case 3
    then have w: "al_wf b" "al_length b = n" "Garbage \<notin> set (al_items b)" "al_item_size b = 8" "al_alloc b \<noteq> None"
      using inv by (auto simp: bps_inv_def)
    obtain b1 where b1: "aws_array_list_set_at b p n = (AWS_OP_SUCCESS, b1)" "bps_inv b1 (n + 1)" "\<not> al_is_zeroed b1"
      "al_items b1 = al_items b @ [Item p]"
      by (rule set_backpointer_ok [OF w(1,4,5) n, of "al_items b" p])
        (use w length_items [OF w(1)] in \<open>auto simp: al_items_def\<close>)
    have "push_ref_backpointers b alloc n p = (AWS_OP_SUCCESS, b)" using w(5) by (auto simp: push_ref_backpointers_def)
    then show thesis
      by (rule that [of b b1]) (use b1 3 in \<open>simp_all add: bps_list_def bp_of_def\<close>)
  qed
qed

lemma nodes_inv_snoc:
  assumes "nodes_inv bps nodes" "p = None \<or> p \<notin> set bps" "unat i = length bps"
  shows "nodes_inv (bps @ [p]) (node_set nodes p i)"
  unfolding nodes_inv_def
proof (intro allI impI)
  fix j n assume j: "j < length (bps @ [p])" "(bps @ [p]) ! j = Some n"
  show "unat (node_set nodes p i n) = j"
  proof (cases "j < length bps")
    case True
    then have n: "bps ! j = Some n" using j by (simp add: nth_append)
    then have "p \<noteq> Some n" using assms(2) True nth_mem by fastforce
    then show ?thesis using assms(1) True n by (simp add: node_set_other nodes_inv_def)
  next
    case False
    then have "p = Some n" "j = length bps" using j by (auto simp: nth_append less_Suc_eq)
    then show ?thesis using assms(3) by simp
  qed
qed

lemma push_ref_ok:
  assumes inv: "pq_inv q" and ord: "pq_ordered q" and h: "heap (pq_le q) (pq_entries q)" and r: "pq_room q 1"
    and fresh: "pq_fresh q p" and al: "p = None \<or> al_alloc (pq_container q) \<noteq> None"
  obtains q' where "aws_priority_queue_push_ref q x p = (AWS_OP_SUCCESS, q')" "pq_inv q'"
    "heap (pq_le q') (pq_entries q')" "pq_pred q' = pq_pred q"
    "mset (pq_entries q') = add_mset (x, p) (mset (pq_entries q))"
    "\<And>n. pq_room q (Suc n) \<Longrightarrow> pq_room q' n"
proof -
  note i = pq_invD [OF inv]
  let ?n = "al_length (pq_container q)"
  have room1: "has_room (pq_container q) 1" and n: "unat ?n + 1 < 2 ^ 61" using r by (auto simp: pq_room_def)
  obtain c where c: "aws_array_list_push_back (pq_container q) x = (AWS_OP_SUCCESS, c)" "al_wf c"
    "al_items c = al_items (pq_container q) @ [Item x]" "al_item_size c = al_item_size (pq_container q)"
    "al_alloc c = al_alloc (pq_container q)" "al_length c = ?n + 1" "al_cap (pq_container q) \<le> al_cap c"
    by (rule push_back_ok [OF i(1) room_one [OF room1]])
  obtain b0 b1 where b: "push_ref_backpointers (pq_backpointers q) (al_alloc c) ?n p = (AWS_OP_SUCCESS, b0)"
    "(if al_is_zeroed b0 then (AWS_OP_SUCCESS, b0) else aws_array_list_set_at b0 p ?n) = (AWS_OP_SUCCESS, b1)"
    "bps_inv b1 (?n + 1)" "bps_list b1 (unat ?n + 1) = bps_list (pq_backpointers q) (unat ?n) @ [p]"
    by (rule push_backpointer_ok [OF i(4) n, of p "al_alloc c"]) (use al c(5) in auto)
  define q2 where "q2 = q\<lparr>pq_container := c, pq_backpointers := b1, pq_nodes := node_set (pq_nodes q) p ?n\<rparr>"
  have bps: "pq_bps q2 = pq_bps q @ [p]" using b(4) c(6) small_index(1) [OF n] by (simp add: pq_bps_list q2_def)
  have len: "length (pq_bps q) = unat ?n" using length_pq_bps [OF i(4)] .
  have "nodes_inv (pq_bps q2) (pq_nodes q2)"
    unfolding bps using nodes_inv_snoc [OF i(5) _ len [symmetric]] fresh entries_bps [OF inv]
    by (simp add: pq_fresh_def q2_def)
  then have inv2: "pq_inv q2"
    using c i(2) b(3) n small_index(1) [OF n] by (simp add: pq_inv_def q2_def)
  have le2: "pq_le q2 = pq_le q" "pq_ordered q2 = pq_ordered q" by (auto simp: q2_def pq_le_def pq_ordered_def fun_eq_iff)
  have ent: "pq_entries q2 = pq_entries q @ [(x, p)]"
    using bps c(3) length_items [OF i(1)] len by (simp add: pq_entries_def q2_def)
  have hu: "heap_up (pq_le q2) (pq_entries q2) (unat ?n)"
    using heap_snoc [OF h] length_entries [OF inv] by (simp add: ent le2)
  obtain m q' where q': "s_sift_up q2 ?n = Inr (m, q')" "rearranged q2 q'" "heap (pq_le q2) (pq_entries q')"
    using sift_up_loop_ok [OF inv2 _ _ hu, of "unat ?n + 1" False] ord le2 c(6) n small_index(1) [OF n]
    by (auto simp: s_sift_up_def q2_def word_less_nat_alt)
  note d = rearrangedD [OF q'(2)]
  have "aws_priority_queue_push_ref q x p = (AWS_OP_SUCCESS, q')"
    using c(1,2,6) b(1,2) q'(1) by (simp add: aws_priority_queue_push_ref_def Let_def q2_def)
  moreover have "pq_room q' k" if "pq_room q (Suc k)" for k
    using that q'(2) c(4,5,6,7) small_index(1) [OF n] d(3) unfolding rearranged_def
    by (auto simp: pq_room_def has_room_def q2_def)
  ultimately show thesis
    using q' d ent by (intro that [of q']) (auto simp: rearranged_def q2_def)
qed

lemma nodes_inv_butlast:
  assumes inv: "nodes_inv bps nodes" and ne: "bps \<noteq> []"
  shows "nodes_inv (butlast bps) (node_set nodes (last bps) i)"
  unfolding nodes_inv_def
proof (intro allI impI)
  fix j n assume j: "j < length (butlast bps)" "butlast bps ! j = Some n"
  then have n: "bps ! j = Some n" "unat (nodes n) = j" using inv by (auto simp: nth_butlast nodes_inv_def)
  have "last bps \<noteq> Some n"
  proof
    assume "last bps = Some n"
    then have "unat (nodes n) = length bps - 1" using inv ne by (simp add: nodes_inv_def last_conv_nth)
    with n(2) j(1) show False by simp
  qed
  then show "unat (node_set nodes (last bps) i n) = j" using n(2) by (simp add: node_set_other)
qed

lemma last_bp:
  assumes nz: "\<not> al_is_zeroed (pq_backpointers q)" and ne: "al_items (pq_backpointers q) \<noteq> []"
  shows "last (pq_bps q) = bp_of (last (al_items (pq_backpointers q)))"
  using assms by (simp add: pq_bps_def last_map)

lemma pop_backpointer_ok:
  assumes inv: "pq_inv q" and ne: "al_length (pq_container q) \<noteq> 0" and c: "al_length c = al_length (pq_container q) - 1"
  obtains q' where "drop_backpointer (q\<lparr>pq_container := c\<rparr>) (al_length (pq_container q) - 1) = Inr q'"
    "pq_container q' = c" "pq_pred q' = pq_pred q" "bps_inv (pq_backpointers q') (al_length c)"
    "pq_bps q' = butlast (pq_bps q)" "pq_nodes q' = node_set (pq_nodes q) (last (pq_bps q)) SIZE_MAX"
proof -
  let ?b = "pq_backpointers q" and ?n = "al_length (pq_container q)"
  have p: "unat (?n - 1) = unat ?n - 1" "0 < unat ?n" using ne by (auto simp: pos_length_dec word_gt_0)
  show thesis
  proof (cases "al_is_zeroed ?b")
    case True
    have "last (pq_bps q) = None" using True p by (cases "unat ?n") (simp_all add: pq_bps_def)
    then show ?thesis
      by (intro that [of "q\<lparr>pq_container := c\<rparr>"])
        (use True p c in \<open>simp_all add: drop_backpointer_def bps_inv_def pq_bps_def node_set_def
          butlast_conv_take take_replicate min_def\<close>)
  next
    case nz: False
    then have w: "al_wf ?b" "al_length ?b = ?n" "Garbage \<notin> set (al_items ?b)" "al_item_size ?b = 8" "al_alloc ?b \<noteq> None"
      "al_slots ?b \<noteq> []"
      using pq_invD(4) [OF inv] by (auto simp: bps_inv_def)
    obtain b' where b': "aws_array_list_pop_back ?b = (AWS_OP_SUCCESS, b')" "al_wf b'"
      "al_items b' = butlast (al_items ?b)" "al_item_size b' = al_item_size ?b" "al_alloc b' = al_alloc ?b"
      "al_length b' = al_length ?b - 1" "al_cap b' = al_cap ?b"
      by (rule pop_back_ok [OF w(1)]) (use ne w in auto)
    have li: "length (al_items ?b) = unat ?n" using length_items [OF w(1)] w(2) by simp
    then have ne': "al_items ?b \<noteq> []" using p by auto
    have nz': "\<not> al_is_zeroed b'" using b'(5) w(5) by (simp add: al_is_zeroed_def)
    have lt: "?n - 1 < ?n" using p by (simp add: word_less_nat_alt)
    have g: "al_items ?b ! unat (?n - 1) = last (al_items ?b)" using li p ne' by (simp add: last_conv_nth)
    have ng: "last (al_items ?b) \<noteq> Garbage" using w(3) last_in_set [OF ne'] by fastforce
    define q' where "q' = q\<lparr>pq_container := c, pq_nodes := node_set (pq_nodes q) (last (pq_bps q)) SIZE_MAX,
      pq_backpointers := b'\<rparr>"
    show ?thesis
    proof (rule that [of q'])
      show "drop_backpointer (q\<lparr>pq_container := c\<rparr>) (?n - 1) = Inr q'"
        using nz w(2) lt ng
        by (simp add: drop_backpointer_def get_at_eq [OF w(1)] g bp_read_ok last_bp [OF nz ne'] q'_def b'(1))
      show "bps_inv (pq_backpointers q') (al_length c)"
      proof -
        have "Garbage \<notin> set (al_items b')" using w(3) in_set_butlastD by (fastforce simp: b'(3))
        moreover have "al_slots b' \<noteq> []" using b'(7) w(6) by (metis length_0_conv)
        ultimately show ?thesis using b' w c by (simp add: bps_inv_def q'_def)
      qed
      show "pq_bps q' = butlast (pq_bps q)" using nz' nz b'(3) by (simp add: pq_bps_def q'_def map_butlast)
    qed (simp_all add: q'_def)
  qed
qed

lemma drop_backpointer_ok:
  assumes inv: "pq_inv q" and ne: "al_length (pq_container q) \<noteq> 0"
    and c: "c = snd (aws_array_list_pop_back (pq_container q))"
  obtains q' where "drop_backpointer (q\<lparr>pq_container := c\<rparr>) (al_length (pq_container q) - 1) = Inr q'"
    "pq_inv q'" "pq_entries q' = butlast (pq_entries q)" "pq_pred q' = pq_pred q"
    "pq_nodes q' = node_set (pq_nodes q) (snd (last (pq_entries q))) SIZE_MAX"
    "al_length (pq_container q') = al_length (pq_container q) - 1"
proof -
  let ?n = "al_length (pq_container q)"
  note i = pq_invD [OF inv]
  have p: "unat (?n - 1) = unat ?n - 1" "0 < unat ?n" using ne by (auto simp: pos_length_dec word_gt_0)
  have l': "al_wf c" "al_items c = butlast (al_items (pq_container q))" "al_length c = ?n - 1"
    by (rule pop_back_ok [OF i(1) ne], simp add: c)+
  have lens: "length (al_items (pq_container q)) = unat ?n" "length (pq_bps q) = unat ?n"
    using length_items [OF i(1)] length_pq_bps [OF i(4)] by auto
  have snd: "map snd (pq_entries q) = pq_bps q" using lens by (simp add: pq_entries_def)
  have lst: "snd (last (pq_entries q)) = last (pq_bps q)" "pq_bps q \<noteq> []"
    using lens p by (simp_all flip: snd add: last_map) (metis last_map list.map_disc_iff length_0_conv less_numeral_extra(3) snd)+
  obtain q' where q': "drop_backpointer (q\<lparr>pq_container := c\<rparr>) (?n - 1) = Inr q'"
    "pq_container q' = c" "pq_pred q' = pq_pred q" "bps_inv (pq_backpointers q') (al_length c)"
    "pq_bps q' = butlast (pq_bps q)" "pq_nodes q' = node_set (pq_nodes q) (last (pq_bps q)) SIZE_MAX"
    by (rule pop_backpointer_ok [OF inv ne l'(3)])
  show thesis
  proof (rule that [OF q'(1)])
    have "set (al_items c) \<subseteq> range Item" using i(2) in_set_butlastD by (force simp: l'(2))
    moreover have "nodes_inv (pq_bps q') (pq_nodes q')" unfolding q' by (rule nodes_inv_butlast [OF i(5) lst(2)])
    ultimately show "pq_inv q'" using l' i(3) p q' by (simp add: pq_inv_def)
    show "pq_entries q' = butlast (pq_entries q)"
      using lens by (simp add: pq_entries_def q' l' butlast_conv_take take_zip take_map)
  qed (use q' lst(1) l' in auto)
qed

lemma mset_butlast: "xs \<noteq> [] \<Longrightarrow> mset (butlast xs) = mset xs - {#last xs#}"
  by (metis add_diff_cancel_right' append_butlast_last_id mset.simps(1) mset.simps(2) mset_append)

lemma below_length:
  assumes "k < (n :: size_t)" shows "unat (n - 1) = unat n - 1" "0 < unat n" "n \<noteq> 0"
proof -
  have "0 < n" using assms by (simp add: word_less_nat_alt)
  then show "unat (n - 1) = unat n - 1" "0 < unat n" "n \<noteq> 0" by (auto simp: pos_length_dec)
qed

text \<open>The swap with the last element that precedes the removal.\<close>

lemma swap_last_ok:
  assumes inv: "pq_inv q" and k: "k < al_length (pq_container q)"
  obtains q1 where "(if k \<noteq> al_length (pq_container q) - 1 then s_swap q k (al_length (pq_container q) - 1) else Inr q) = Inr q1"
    "rearranged q q1" "pq_entries q1 = swp (pq_entries q) (unat k) (length (pq_entries q) - 1)"
proof -
  let ?n = "al_length (pq_container q)"
  note p = below_length [OF k]
  then have lt: "?n - 1 < ?n" by (simp add: word_less_nat_alt)
  note len = length_entries [OF inv]
  show thesis
  proof (cases "k = ?n - 1")
    case True
    have "swp (pq_entries q) (unat k) (length (pq_entries q) - 1) = pq_entries q"
      using True p len by (simp add: swp_def)
    with True rearranged_refl [OF inv] show ?thesis by (intro that [of q]) auto
  next
    case False
    show ?thesis by (rule s_swap_ok [OF inv k lt]) (rule that, use False p len in auto)
  qed
qed

text \<open>The removal up to the final sift: the entry is detached and its node invalidated.\<close>

lemma detach_ok:
  assumes inv: "pq_inv q" and k: "k < al_length (pq_container q)"
  obtains q3 where "s_remove_node q k = (if k \<noteq> al_length (pq_container q) - 1 then
      (case s_sift_either q3 k of Inl e \<Rightarrow> (Inl e, q3) | Inr q4 \<Rightarrow> (Inr (Item (fst (pq_entries q ! unat k))), q4))
      else (Inr (Item (fst (pq_entries q ! unat k))), q3))"
    "pq_inv q3" "pq_entries q3 = butlast (swp (pq_entries q) (unat k) (length (pq_entries q) - 1))"
    "pq_pred q3 = pq_pred q" "al_length (pq_container q3) = al_length (pq_container q) - 1"
    "\<And>m. snd (pq_entries q ! unat k) = Some m \<Longrightarrow> pq_nodes q3 m = SIZE_MAX"
proof -
  let ?n = "al_length (pq_container q)" and ?e = "pq_entries q"
  note i = pq_invD [OF inv] and len = length_entries [OF inv] and p = below_length [OF k]
  have lt: "unat k < length ?e" "length ?e - 1 < length ?e" using k len by (auto simp: word_less_nat_alt)
  have get: "aws_array_list_get_at (pq_container q) k = Inr (Item (fst (?e ! unat k)))"
    using get_at_eq [OF i(1)] al_items_Item(1) [OF inv] k by (simp add: word_less_nat_alt)
  obtain q1 where q1: "(if k \<noteq> ?n - 1 then s_swap q k (?n - 1) else Inr q) = Inr q1"
    "rearranged q q1" "pq_entries q1 = swp ?e (unat k) (length ?e - 1)"
    by (rule swap_last_ok [OF inv k])
  note d = rearrangedD [OF q1(2)]
  define c where "c = snd (aws_array_list_pop_back (pq_container q1))"
  have n1: "al_length (pq_container q1) \<noteq> 0" using p d(3) by simp
  obtain q3 where q3: "drop_backpointer (q1\<lparr>pq_container := c\<rparr>) (?n - 1) = Inr q3"
    "pq_inv q3" "pq_entries q3 = butlast (pq_entries q1)" "pq_pred q3 = pq_pred q1"
    "pq_nodes q3 = node_set (pq_nodes q1) (snd (last (pq_entries q1))) SIZE_MAX"
    "al_length (pq_container q3) = ?n - 1"
    by (rule drop_backpointer_ok [OF d(1) n1 c_def, unfolded d(3)])
  have "length (pq_entries q1) = length ?e" by (simp add: q1(3))
  then have "pq_entries q1 \<noteq> []" using lt by auto
  then have l1: "last (pq_entries q1) = ?e ! unat k"
    using lt by (simp add: q1(3) last_conv_nth nth_swp)
  have "s_remove_node q k = (if k \<noteq> ?n - 1 then
      (case s_sift_either q3 k of Inl e \<Rightarrow> (Inl e, q3) | Inr q4 \<Rightarrow> (Inr (Item (fst (?e ! unat k))), q4))
      else (Inr (Item (fst (?e ! unat k))), q3))"
    using get i(1) q1(1) q3(1) by (auto simp: s_remove_node_def Let_def c_def)
  then show thesis by (rule that) (use q3 q1(3) d(2) l1 in auto)
qed

lemma dead_node:
  assumes inv: "pq_inv q" and z: "pq_nodes q m = SIZE_MAX"
  shows "Some m \<notin> snd ` set (pq_entries q)"
proof
  assume "Some m \<in> snd ` set (pq_entries q)"
  then obtain j where "j < length (pq_bps q)" "pq_bps q ! j = Some m"
    using entries_bps [OF inv] by (auto simp: in_set_conv_nth)
  moreover have "length (pq_bps q) < 2 ^ 61"
    using pq_invD(3,4) [OF inv] by (simp add: length_pq_bps)
  ultimately show False using pq_invD(5) [OF inv] z by (auto simp: nodes_inv_def)
qed

lemma s_remove_node_ok:
  assumes inv: "pq_inv q" and ord: "pq_ordered q" and h: "heap (pq_le q) (pq_entries q)"
    and k: "k < al_length (pq_container q)"
  obtains q' where "s_remove_node q k = (Inr (Item (fst (pq_entries q ! unat k))), q')" "pq_inv q'"
    "heap (pq_le q') (pq_entries q')" "pq_pred q' = pq_pred q"
    "mset (pq_entries q') = mset (pq_entries q) - {#pq_entries q ! unat k#}"
    "\<And>m. snd (pq_entries q ! unat k) = Some m \<Longrightarrow> pq_nodes q' m = SIZE_MAX"
proof -
  let ?n = "al_length (pq_container q)" and ?e = "pq_entries q"
  note len = length_entries [OF inv] and p = below_length [OF k]
  have lt: "unat k < length ?e" "length ?e - 1 < length ?e" using k len by (auto simp: word_less_nat_alt)
  obtain q3 where rm: "s_remove_node q k = (if k \<noteq> ?n - 1 then
      (case s_sift_either q3 k of Inl e \<Rightarrow> (Inl e, q3) | Inr q4 \<Rightarrow> (Inr (Item (fst (?e ! unat k))), q4))
      else (Inr (Item (fst (?e ! unat k))), q3))" and q3:
    "pq_inv q3" "pq_entries q3 = butlast (swp ?e (unat k) (length ?e - 1))"
    "pq_pred q3 = pq_pred q" "al_length (pq_container q3) = ?n - 1"
    and nd: "\<forall>m. snd (?e ! unat k) = Some m \<longrightarrow> pq_nodes q3 m = SIZE_MAX"
    by (rule detach_ok [OF inv k]) blast
  have s: "swp ?e (unat k) (length ?e - 1) \<noteq> []" using lt by (metis length_swp list.size(3) not_less_zero)
  have m3: "mset (pq_entries q3) = mset ?e - {#?e ! unat k#}"
    using lt s by (simp add: q3(2) mset_butlast last_conv_nth nth_swp mset_swp)
  have le3: "pq_le q3 = pq_le q" "pq_ordered q3" using q3(3) ord by (auto simp: pq_le_def pq_ordered_def fun_eq_iff)
  show thesis
  proof (cases "k = ?n - 1")
    case True
    have "swp ?e (unat k) (length ?e - 1) = ?e" using True p len by (simp add: swp_def)
    then have "heap (pq_le q3) (pq_entries q3)" using heap_butlast [OF h] by (simp add: q3(2) le3)
    with rm True q3 m3 nd show ?thesis by (intro that [of q3]) auto
  next
    case False
    have "unat k \<noteq> unat (?n - 1)" using False by (simp add: word_unat_eq_iff)
    then have kn: "unat k < length ?e - 1" using lt p len by simp
    have gap: "heap_gap (pq_le q3) (pq_entries q3) (unat k)"
      using heap_replace_gap [OF pq_le_preorder [OF ord] h kn] by (simp add: q3(2) le3)
    have "k < al_length (pq_container q3)" using kn len p by (simp add: q3(4) word_less_nat_alt)
    from sift_either_ok [OF q3(1) le3(2) this gap]
    obtain q4 where q4: "s_sift_either q3 k = Inr q4" "rearranged q3 q4" "heap (pq_le q3) (pq_entries q4)" .
    have "pq_nodes q4 m = SIZE_MAX" if "snd (?e ! unat k) = Some m" for m
      using dead_node [OF q3(1)] nd that q4(2) by (auto simp: rearranged_def)
    with rm False q4 rearrangedD [OF q4(2)] q3(3) m3 show ?thesis
      by (intro that [of q4]) (auto simp: rearranged_def)
  qed
qed

lemma pq_okD: "pq_ok q \<Longrightarrow> pq_inv q" "pq_ok q \<Longrightarrow> pq_ordered q" "pq_ok q \<Longrightarrow> heap (pq_le q) (pq_entries q)"
  by (simp_all add: pq_ok_def)

lemma pq_okI: "pq_inv q' \<Longrightarrow> heap (pq_le q') (pq_entries q') \<Longrightarrow> pq_ordered q \<Longrightarrow> pq_pred q' = pq_pred q \<Longrightarrow> pq_ok q'"
  by (simp add: pq_ok_def pq_ordered_def)

lemma pq_inv_valid:
  assumes "pq_inv q" shows "aws_priority_queue_is_valid q"
proof -
  note i = pq_invD [OF assms]
  have "aws_array_list_is_valid (pq_backpointers q) \<and> al_current_size (pq_backpointers q) \<noteq> 0 \<and>
      al_data (pq_backpointers q) \<noteq> None \<and> al_item_size (pq_backpointers q) = 8 \<and>
      al_length (pq_backpointers q) = al_length (pq_container q)"
    if "\<not> al_is_zeroed (pq_backpointers q)"
  proof -
    have w: "al_wf (pq_backpointers q)" "al_slots (pq_backpointers q) \<noteq> []"
      using that i(4) by (auto simp: bps_inv_def)
    then have "al_data (pq_backpointers q) \<noteq> None" by (metis al_slots_simps(2))
    with w that i(4) al_wfD(3) [OF w(1)] show ?thesis by (auto simp: bps_inv_def al_wf_def)
  qed
  then show ?thesis
    using i(1) by (auto simp: aws_priority_queue_is_valid_def aws_priority_queue_backpointers_valid_def al_wf_def Let_def word_gt_0)
qed

lemma entries_nil: "pq_inv q \<Longrightarrow> pq_entries q = [] \<longleftrightarrow> al_length (pq_container q) = 0"
  using length_entries [of q] by (metis length_0_conv unat_eq_zero_iff)

lemma pop_law:
  assumes ok: "pq_ok q" and ne: "pq_entries q \<noteq> []"
  obtains x p q' where "aws_priority_queue_pop q = (Inr (Item x), q')" "pq_ok q'" "pq_pred q' = pq_pred q"
    "(x, p) \<in># mset (pq_entries q)" "mset (pq_entries q') = mset (pq_entries q) - {#(x, p)#}"
    "\<And>e. e \<in># mset (pq_entries q) \<Longrightarrow> pq_le q (x, p) e" "\<And>m. p = Some m \<Longrightarrow> pq_nodes q' m = SIZE_MAX"
proof -
  note k = pq_okD [OF ok]
  have n: "al_length (pq_container q) \<noteq> 0" using ne entries_nil [OF k(1)] by simp
  then have "0 < al_length (pq_container q)" by (simp add: word_gt_0)
  from s_remove_node_ok [OF k this]
  obtain q' where q': "s_remove_node q 0 = (Inr (Item (fst (pq_entries q ! 0))), q')" "pq_inv q'"
    "heap (pq_le q') (pq_entries q')" "pq_pred q' = pq_pred q"
    "mset (pq_entries q') = mset (pq_entries q) - {#pq_entries q ! 0#}"
    "\<forall>m. snd (pq_entries q ! 0) = Some m \<longrightarrow> pq_nodes q' m = SIZE_MAX"
    by (metis unsigned_0)
  have "aws_priority_queue_pop q = (Inr (Item (fst (pq_entries q ! 0))), q')"
    using n q'(1) pq_invD(1) [OF k(1)] by (simp add: aws_priority_queue_pop_def)
  then show thesis
  proof (rule that [of "fst (pq_entries q ! 0)" q' "snd (pq_entries q ! 0)"])
    show "pq_ok q'" using q' k by (intro pq_okI)
    fix e assume "e \<in># mset (pq_entries q)"
    then obtain i where "i < length (pq_entries q)" "e = pq_entries q ! i" by (auto simp: in_set_conv_nth)
    then show "pq_le q (fst (pq_entries q ! 0), snd (pq_entries q ! 0)) e"
      using heap_root_least [OF pq_le_preorder [OF k(2)] k(3)] by simp
  qed (use q' ne in \<open>auto simp: nth_mem\<close>)
qed

lemma push_law:
  assumes ok: "pq_ok q" and r: "pq_room q 1" and f: "pq_fresh q p" "p = None \<or> al_alloc (pq_container q) \<noteq> None"
  obtains q' where "aws_priority_queue_push_ref q x p = (AWS_OP_SUCCESS, q')" "pq_ok q'" "pq_pred q' = pq_pred q"
    "mset (pq_entries q') = add_mset (x, p) (mset (pq_entries q))" "\<forall>n. pq_room q (Suc n) \<longrightarrow> pq_room q' n"
proof (rule push_ref_ok [OF pq_okD [OF ok] r f])
  fix q' assume q': "aws_priority_queue_push_ref q x p = (AWS_OP_SUCCESS, q')" "pq_inv q'"
    "heap (pq_le q') (pq_entries q')" "pq_pred q' = pq_pred q"
    "mset (pq_entries q') = add_mset (x, p) (mset (pq_entries q))" "\<And>n. pq_room q (Suc n) \<Longrightarrow> pq_room q' n"
  then show thesis using pq_okI [OF q'(2,3) pq_okD(2) [OF ok] q'(4)] by (intro that [of q']) auto
qed

lemma remove_ref_law:
  assumes "pq_ok q" "(x, Some m) \<in> set (pq_entries q)"
  obtains q' where "aws_priority_queue_remove q m = (Inr (Item x), q')" "pq_ok q'" "pq_pred q' = pq_pred q"
    "mset (pq_entries q') = mset (pq_entries q) - {#(x, Some m)#}" "pq_nodes q' m = SIZE_MAX"
proof -
  note k = pq_okD [OF assms(1)]
  note i = pq_invD [OF k(1)]
  obtain j where j: "j < length (pq_entries q)" "pq_entries q ! j = (x, Some m)"
    using assms(2) by (auto simp: in_set_conv_nth)
  have len: "length (pq_entries q) = unat (al_length (pq_container q))" by (rule length_entries [OF k(1)])
  have b: "pq_bps q ! j = Some m" "j < length (pq_bps q)"
    using al_items_Item(2) [OF k(1), of j] j len length_pq_bps [OF i(4)] by auto
  then have idx: "unat (pq_nodes q m) = j" using i(5) by (simp add: nodes_inv_def)
  then have lt: "pq_nodes q m < al_length (pq_container q)" using j len by (simp add: word_less_nat_alt)
  have nz: "\<not> al_is_zeroed (pq_backpointers q)" using b by (auto simp: pq_bps_def)
  have data: "al_data (pq_backpointers q) \<noteq> None"
    using backpointer_slots(1) [OF k(1) nz, of j] j(1) len by (metis option.distinct(1))
  obtain q' where q': "s_remove_node q (pq_nodes q m) = (Inr (Item x), q')" "pq_inv q'"
    "heap (pq_le q') (pq_entries q')" "pq_pred q' = pq_pred q"
    "mset (pq_entries q') = mset (pq_entries q) - {#(x, Some m)#}" "pq_nodes q' m = SIZE_MAX"
    by (rule s_remove_node_ok [OF k lt]) (simp add: idx j(2))
  have "aws_priority_queue_remove q m = (Inr (Item x), q')"
    using lt data q'(1) i(1) by (simp add: aws_priority_queue_remove_def)
  then show thesis by (rule that) (use q' pq_okI [OF q'(2,3) k(2) q'(4)] in auto)
qed

subsection \<open>The priority queue contract\<close>

locale priority_queue_contract =
  fixes invar :: "'s \<Rightarrow> bool" and contents :: "'s \<Rightarrow> 'e multiset" and le :: "'s \<Rightarrow> 'e \<Rightarrow> 'e \<Rightarrow> bool"
    and room_for :: "'s \<Rightarrow> nat \<Rightarrow> bool" and elem :: "'a \<Rightarrow> 'e" and item :: "'e \<Rightarrow> 'i"
    and push :: "'s \<Rightarrow> 'a \<Rightarrow> unit res \<times> 's" and pop :: "'s \<Rightarrow> 'i res \<times> 's"
  assumes push_adds: "invar s \<Longrightarrow> room_for s (Suc n) \<Longrightarrow>
      \<exists>s'. push s x = (AWS_OP_SUCCESS, s') \<and> invar s' \<and> le s' = le s \<and>
        contents s' = add_mset (elem x) (contents s) \<and> room_for s' n"
    and pop_least: "invar s \<Longrightarrow> contents s \<noteq> {#} \<Longrightarrow>
      \<exists>e s'. pop s = (Inr (item e), s') \<and> invar s' \<and> le s' = le s \<and> e \<in># contents s \<and>
        contents s' = contents s - {#e#} \<and> (\<forall>f \<in># contents s. le s e f)"
begin

lemma push_all_adds:
  assumes "invar s" "room_for s (length xs)"
  shows "\<exists>s'. push_all push s xs = (AWS_OP_SUCCESS, s') \<and> invar s' \<and> le s' = le s \<and>
    contents s' = mset (map elem xs) + contents s"
  using assms
proof (induction xs arbitrary: s)
  case (Cons x xs)
  then obtain s1 where s1: "push s x = (AWS_OP_SUCCESS, s1)" "invar s1" "le s1 = le s"
    "contents s1 = add_mset (elem x) (contents s)" "room_for s1 (length xs)"
    using push_adds [of s "length xs" x] by auto
  with Cons.IH [OF s1(2,5)] show ?case by auto
qed simp

lemma drain_sorted:
  assumes "invar s" "size (contents s) = n"
  shows "\<exists>es. drain pop s n = Inr (map item es) \<and> mset es = contents s \<and> sorted_wrt (le s) es"
  using assms
proof (induction n arbitrary: s)
  case (Suc n)
  then have "contents s \<noteq> {#}" by auto
  then obtain e s1 where s1: "pop s = (Inr (item e), s1)" "invar s1" "le s1 = le s" "e \<in># contents s"
    "contents s1 = contents s - {#e#}" "\<forall>f \<in># contents s. le s e f"
    using pop_least [OF Suc.prems(1)] by blast
  have "size (contents s1) = n" using s1(4,5) Suc.prems(2) by (simp add: size_Diff_singleton)
  then obtain es where es: "drain pop s1 n = Inr (map item es)" "mset es = contents s1" "sorted_wrt (le s1) es"
    using Suc.IH [OF s1(2)] by blast
  have "\<forall>f \<in> set es. le s e f" using s1(5,6) es(2) by (metis in_diffD set_mset_mset)
  with s1 es show ?case by (intro exI [of _ "e # es"]) simp
qed simp

end

interpretation pq: priority_queue_contract pq_ok "\<lambda>q. mset (pq_entries q)" pq_le pq_room "\<lambda>x. (x, None)"
  "\<lambda>e. Item (fst e)" aws_priority_queue_push aws_priority_queue_pop
proof (unfold_locales, goal_cases)
  case (1 q n x)
  have "pq_room q 1" using 1(2) room_mono [of _ "Suc n" 1] by (auto simp: pq_room_def)
  then obtain q' where q': "aws_priority_queue_push_ref q x None = (AWS_OP_SUCCESS, q')" "pq_ok q'"
    "pq_pred q' = pq_pred q" "mset (pq_entries q') = add_mset (x, None) (mset (pq_entries q))"
    "\<forall>n. pq_room q (Suc n) \<longrightarrow> pq_room q' n"
    by (rule push_law [OF 1(1)]) (auto simp: pq_fresh_def)
  then show ?case using 1(2) by (auto simp: aws_priority_queue_push_def pq_le_def fun_eq_iff)
next
  case (2 q)
  then have ne: "pq_entries q \<noteq> []" by simp
  obtain x p q' where q': "aws_priority_queue_pop q = (Inr (Item x), q')" "pq_ok q'" "pq_pred q' = pq_pred q"
    "(x, p) \<in># mset (pq_entries q)" "mset (pq_entries q') = mset (pq_entries q) - {#(x, p)#}"
    "\<forall>e \<in># mset (pq_entries q). pq_le q (x, p) e"
    by (rule pop_law [OF 2(1) ne]) blast
  then have "pq_le q' = pq_le q" by (simp add: pq_le_def fun_eq_iff)
  with q' show ?case by (intro exI [of _ "(x, p)"] exI [of _ q']) simp
qed

lemma total_preorder_linorder: "total_preorder (\<lambda>x y :: 'a :: linorder. \<not> (if x > y then 1 else 0 :: int) > 0)"
  by (auto simp: total_preorder_def)

lemma pq_init_ok:
  assumes "alloc \<noteq> None" "isz \<noteq> 0" "unat n * unat isz < 2 ^ 64" "total_preorder (\<lambda>x y. \<not> pred x y > 0)"
  obtains q where "aws_priority_queue_init_dynamic nodes alloc n isz pred = (AWS_OP_SUCCESS, q)" "pq_ok q"
    "pq_entries q = []" "pq_pred q = pred" "al_alloc (pq_container q) = alloc" "al_length (pq_container q) = 0"
    "al_item_size (pq_container q) = isz" "pq_nodes q = nodes"
proof -
  obtain l :: "'a array_list" where l: "aws_array_list_init_dynamic alloc n isz = (AWS_OP_SUCCESS, l)" "al_wf l" "al_items l = []"
    "al_item_size l = isz" "al_alloc l = alloc" "al_length l = 0"
    by (rule init_dynamic_ok [OF assms(1-3)])
  let ?q = "\<lparr>pq_pred = pred, pq_container = l, pq_backpointers = al_zero, pq_nodes = nodes\<rparr>"
  have e: "pq_entries ?q = []" by (simp add: pq_entries_def l)
  have "pq_inv ?q"
    using l by (simp add: pq_inv_def bps_inv_def al_is_zeroed_iff pq_bps_def nodes_inv_def)
  then have "pq_ok ?q" using assms(4) e by (simp add: pq_ok_def pq_ordered_def heap_def)
  with l e show thesis by (intro that [of ?q]) (auto simp: aws_priority_queue_init_dynamic_def)
qed

lemma min_queue_ok:
  "pq_ok min_queue" "pq_entries min_queue = []" "pq_pred min_queue = (\<lambda>x y. if x > y then 1 else 0)"
  "al_alloc (pq_container min_queue) = Some 0" "n < 2 ^ 60 \<Longrightarrow> pq_room min_queue n"
proof -
  obtain q where q: "aws_priority_queue_init_dynamic (\<lambda>_. 0) (Some 0) 2 8 (\<lambda>x y :: nat. if x > y then 1 else 0)
      = (AWS_OP_SUCCESS, q)" "pq_ok q" "pq_entries q = []" "pq_pred q = (\<lambda>x y. if x > y then 1 else 0)"
    "al_alloc (pq_container q) = Some 0" "al_length (pq_container q) = 0" "al_item_size (pq_container q) = 8"
    by (rule pq_init_ok [of "Some 0" 8 2]) (auto simp: total_preorder_linorder)
  then have "min_queue = q" by (simp add: min_queue_def)
  with q show "pq_ok min_queue" "pq_entries min_queue = []" "pq_pred min_queue = (\<lambda>x y. if x > y then 1 else 0)"
    "al_alloc (pq_container min_queue) = Some 0" "n < 2 ^ 60 \<Longrightarrow> pq_room min_queue n"
    by (auto simp: pq_room_def has_room_def)
qed

lemma min_queue_push:
  obtains q where "aws_priority_queue_push_ref min_queue x (Some m) = (AWS_OP_SUCCESS, q)" "pq_ok q"
    "mset (pq_entries q) = {#(x, Some m)#}" "pq_pred q = pq_pred min_queue"
proof -
  have r: "pq_room min_queue 1" by (rule min_queue_ok(5)) simp
  show thesis
    by (rule push_law [OF min_queue_ok(1) r, of "Some m" x]) (use that min_queue_ok(2,4) in \<open>auto simp: pq_fresh_def\<close>)
qed

section \<open>Properties\<close>

text \<open>
  \<open>aws_priority_queue_push_ref\<close> on a queue with room, with no node or a node that is not in the queue:
  it succeeds, the sift loop ends, the heap order, the backpointers and the code's own validity check
  hold again, and the entries are the old ones plus the pair of item and node.
\<close>

theorem pq_push_ref_adds:
  assumes "pq_ok q" "pq_room q 1" "pq_fresh q p" "p = None \<or> al_alloc (pq_container q) \<noteq> None"
  shows "\<exists>q'. aws_priority_queue_push_ref q x p = (AWS_OP_SUCCESS, q') \<and> pq_ok q' \<and> aws_priority_queue_is_valid q' \<and>
    mset (pq_entries q') = add_mset (x, p) (mset (pq_entries q))"
  by (rule push_law [OF assms]) (use pq_inv_valid pq_okD(1) in blast)

theorem pq_push_ref_adds_witness:
  "\<exists>q'. aws_priority_queue_push_ref min_queue 7 (Some 3) = (AWS_OP_SUCCESS, q') \<and> pq_ok q' \<and>
    mset (pq_entries q') = {#(7, Some 3)#}"
proof -
  have "pq_room min_queue 1" "pq_fresh min_queue (Some 3)" "Some 3 = None \<or> al_alloc (pq_container min_queue) \<noteq> None"
    using min_queue_ok(2,4,5) by (simp_all add: pq_fresh_def)
  from pq_push_ref_adds [OF min_queue_ok(1) this, of 7] min_queue_ok(2) show ?thesis by auto
qed

text \<open>
  (C6) \<open>aws_priority_queue_pop\<close> on a well-formed queue fails with \<open>AWS_ERROR_PRIORITY_QUEUE_EMPTY\<close> exactly when
  the queue is empty; otherwise it returns an element that no other element precedes, removes exactly
  that entry, sets \<open>current_index\<close> of its node to \<open>SIZE_MAX\<close> and leaves a well-formed queue.
\<close>

theorem pq_pop_least:
  assumes "pq_ok q"
  shows "(pq_entries q = [] \<longrightarrow> aws_priority_queue_pop q = (aws_raise_error AWS_ERROR_PRIORITY_QUEUE_EMPTY, q)) \<and>
    (pq_entries q \<noteq> [] \<longrightarrow> (\<exists>x p q'. aws_priority_queue_pop q = (Inr (Item x), q') \<and>
      (x, p) \<in> set (pq_entries q) \<and> (\<forall>(y, r) \<in> set (pq_entries q). \<not> pq_pred q x y > 0) \<and>
      mset (pq_entries q') = mset (pq_entries q) - {#(x, p)#} \<and> (\<forall>m. p = Some m \<longrightarrow> pq_nodes q' m = SIZE_MAX) \<and>
      pq_ok q' \<and> aws_priority_queue_is_valid q'))"
proof (cases "pq_entries q = []")
  case True
  then have "al_length (pq_container q) = 0" using entries_nil pq_okD(1) [OF assms] by blast
  with True show ?thesis using pq_invD(1) [OF pq_okD(1) [OF assms]] by (simp add: aws_priority_queue_pop_def)
next
  case False
  obtain x p q' where q': "aws_priority_queue_pop q = (Inr (Item x), q')" "pq_ok q'"
    "(x, p) \<in># mset (pq_entries q)" "mset (pq_entries q') = mset (pq_entries q) - {#(x, p)#}"
    "\<forall>e \<in># mset (pq_entries q). pq_le q (x, p) e" "\<forall>m. p = Some m \<longrightarrow> pq_nodes q' m = SIZE_MAX"
    by (rule pop_law [OF assms False]) blast
  moreover have "aws_priority_queue_is_valid q'" using pq_inv_valid pq_okD(1) q'(2) by blast
  moreover have "\<forall>(y, r) \<in> set (pq_entries q). \<not> pq_pred q x y > 0" using q'(5) by (auto simp: pq_le_def)
  ultimately show ?thesis using False
    by (intro conjI impI exI [of _ x] exI [of _ p] exI [of _ q']) simp_all
qed

theorem pq_pop_least_witness:
  "\<exists>q q'. aws_priority_queue_push_ref min_queue 5 (Some 3) = (AWS_OP_SUCCESS, q) \<and>
    aws_priority_queue_pop q = (Inr (Item 5), q') \<and> pq_nodes q' 3 = SIZE_MAX"
proof (rule min_queue_push [of 5 3])
  fix q assume q: "aws_priority_queue_push_ref min_queue 5 (Some 3) = (AWS_OP_SUCCESS, q)" "pq_ok q"
    "mset (pq_entries q) = {#(5, Some 3)#}"
  then have "pq_entries q = [(5, Some 3)]" by simp
  with pq_pop_least [OF q(2)] q(1) show ?thesis by auto
qed

text \<open>
  \<open>aws_priority_queue_remove\<close> with the node of an entry returns the item pushed with that node and
  removes exactly that entry, wherever the sifts have moved it; the node is then invalid, and a second
  removal with it fails with \<open>AWS_ERROR_PRIORITY_QUEUE_BAD_NODE\<close> and changes nothing.
\<close>

theorem pq_remove_node:
  assumes "pq_ok q" "(x, Some m) \<in> set (pq_entries q)"
  shows "\<exists>q'. aws_priority_queue_remove q m = (Inr (Item x), q') \<and> pq_ok q' \<and> aws_priority_queue_is_valid q' \<and>
    mset (pq_entries q') = mset (pq_entries q) - {#(x, Some m)#} \<and> pq_nodes q' m = SIZE_MAX \<and>
    aws_priority_queue_remove q' m = (aws_raise_error AWS_ERROR_PRIORITY_QUEUE_BAD_NODE, q')"
proof (rule remove_ref_law [OF assms])
  fix q' assume q': "aws_priority_queue_remove q m = (Inr (Item x), q')" "pq_ok q'" "pq_pred q' = pq_pred q"
    "mset (pq_entries q') = mset (pq_entries q) - {#(x, Some m)#}" "pq_nodes q' m = SIZE_MAX"
  note i = pq_okD(1) [OF q'(2)]
  have "aws_priority_queue_remove q' m = (aws_raise_error AWS_ERROR_PRIORITY_QUEUE_BAD_NODE, q')"
    using pq_invD(1) [OF i] q'(5) by (simp add: aws_priority_queue_remove_def not_less)
  then show ?thesis using q' pq_inv_valid [OF i] by blast
qed

theorem pq_remove_node_witness:
  "\<exists>q q'. aws_priority_queue_push_ref min_queue 5 (Some 3) = (AWS_OP_SUCCESS, q) \<and>
    aws_priority_queue_remove q 3 = (Inr (Item 5), q') \<and> pq_entries q' = []"
proof (rule min_queue_push [of 5 3])
  fix q assume q: "aws_priority_queue_push_ref min_queue 5 (Some 3) = (AWS_OP_SUCCESS, q)" "pq_ok q"
    "mset (pq_entries q) = {#(5, Some 3)#}"
  then have "(5, Some 3) \<in> set (pq_entries q)" by (metis multi_member_last set_mset_mset)
  from pq_remove_node [OF q(2) this] q(1,3) show ?thesis by auto
qed

text \<open>
  (C17) Pushing any items into a fresh queue and popping as many yields the same items in priority order:
  the queue sorts, and every call on the way succeeds.
\<close>

theorem pq_sorts:
  assumes "pq_ok q" "pq_entries q = []" "pq_room q (length xs)"
  shows "\<exists>q' ys. push_all aws_priority_queue_push q xs = (AWS_OP_SUCCESS, q') \<and>
    drain aws_priority_queue_pop q' (length xs) = Inr (map Item ys) \<and> mset ys = mset xs \<and>
    sorted_wrt (\<lambda>x y. \<not> pq_pred q x y > 0) ys"
proof -
  obtain q' where q': "push_all aws_priority_queue_push q xs = (AWS_OP_SUCCESS, q')" "pq_ok q'" "pq_le q' = pq_le q"
    "mset (pq_entries q') = mset (map (\<lambda>x. (x, None)) xs)"
    using pq.push_all_adds [OF assms(1,3)] assms(2) by auto
  have "size (mset (pq_entries q')) = length xs" using q'(4) by (metis length_map size_mset)
  then obtain es where es: "drain aws_priority_queue_pop q' (length xs) = Inr (map (\<lambda>e. Item (fst e)) es)"
    "mset es = mset (pq_entries q')" "sorted_wrt (pq_le q) es"
    using pq.drain_sorted [OF q'(2)] q'(3) by auto
  have "mset (map fst es) = mset xs" using es(2) q'(4) by (simp add: multiset.map_comp o_def)
  moreover have "sorted_wrt (\<lambda>x y. \<not> pq_pred q x y > 0) (map fst es)"
    using es(3) by (simp add: sorted_wrt_map pq_le_def [abs_def])
  moreover have "drain aws_priority_queue_pop q' (length xs) = Inr (map Item (map fst es))" using es(1) by (simp add: o_def)
  ultimately show ?thesis using q'(1) by blast
qed

theorem pq_sorts_witness:
  "\<exists>q' ys. push_all aws_priority_queue_push min_queue [4, 1, 3] = (AWS_OP_SUCCESS, q') \<and>
    drain aws_priority_queue_pop q' 3 = Inr (map Item ys) \<and> mset ys = {#4, 1, 3#} \<and>
    sorted_wrt (\<lambda>x y. \<not> pq_pred min_queue x y > 0) ys"
  using pq_sorts [OF min_queue_ok(1,2) min_queue_ok(5), of "[4, 1, 3]"] by (simp add: numeral_3_eq_3)

text \<open>
  Errors of a push leave the entries and the validity of the queue as they were.  A full queue in
  caller-provided memory reports the error of the array list, \<open>AWS_ERROR_LIST_EXCEEDS_MAX_SIZE\<close>, although
  the header documents \<open>AWS_ERROR_PRIORITY_QUEUE_FULL\<close>; a node given to such a queue is refused with
  \<open>AWS_ERROR_UNSUPPORTED_OPERATION\<close> after the item was backed out.
\<close>

theorem pq_push_errors:
  assumes "pq_ok q" "al_alloc (pq_container q) = None"
    "(unat (al_length (pq_container q)) + 1) * unat (al_item_size (pq_container q)) < 2 ^ 64"
  shows "(al_cap (pq_container q) = unat (al_length (pq_container q)) \<longrightarrow>
      aws_priority_queue_push_ref q x p = (aws_raise_error AWS_ERROR_LIST_EXCEEDS_MAX_SIZE, q)) \<and>
    (al_cap (pq_container q) > unat (al_length (pq_container q)) \<and> al_is_zeroed (pq_backpointers q) \<and> p \<noteq> None \<longrightarrow>
      (\<exists>q'. aws_priority_queue_push_ref q x p = (aws_raise_error AWS_ERROR_UNSUPPORTED_OPERATION, q') \<and>
        pq_ok q' \<and> pq_entries q' = pq_entries q \<and> pq_nodes q' = pq_nodes q))"
proof (intro conjI impI; (elim conjE)?)
  let ?c = "pq_container q"
  note k = pq_okD [OF assms(1)]
  note i = pq_invD [OF k(1)]
  show "aws_priority_queue_push_ref q x p = (aws_raise_error AWS_ERROR_LIST_EXCEEDS_MAX_SIZE, q)"
    if "al_cap ?c = unat (al_length ?c)"
    using that assms(2,3) i(1) by (simp add: aws_priority_queue_push_ref_def push_back_eq)
  assume cap: "unat (al_length ?c) < al_cap ?c" and z: "al_is_zeroed (pq_backpointers q)" and p: "p \<noteq> None"
  obtain c where c: "aws_array_list_push_back ?c x = (AWS_OP_SUCCESS, c)" "al_wf c" "al_items c = al_items ?c @ [Item x]"
    "al_item_size c = al_item_size ?c" "al_alloc c = al_alloc ?c" "al_length c = al_length ?c + 1"
    by (rule push_back_ok [OF i(1) assms(3)]) (use cap in auto)
  have n1: "al_length c \<noteq> 0"
    using length_items [OF c(2)] c(3) by (metis append_is_Nil_conv length_0_conv not_Cons_self2 unat_eq_zero_iff)
  obtain c' where c': "aws_array_list_pop_back c = (AWS_OP_SUCCESS, c')" "al_wf c'" "al_items c' = al_items ?c" "al_length c' = al_length ?c"
    by (rule pop_back_ok [OF c(2) n1]) (use c in auto)
  let ?q = "q\<lparr>pq_container := c'\<rparr>"
  have "aws_priority_queue_push_ref q x p = (aws_raise_error AWS_ERROR_UNSUPPORTED_OPERATION, ?q)"
    using c c' z p assms(2)
    by (simp add: aws_priority_queue_push_ref_def Let_def push_ref_backpointers_def al_is_zeroed_def backpointer_update_failed_def)
  moreover have e: "pq_entries ?q = pq_entries q" "pq_bps ?q = pq_bps q" using c' by (simp_all add: pq_entries_def pq_bps_def)
  moreover have "pq_ok ?q"
    using e k i c' by (simp add: pq_ok_def pq_inv_def pq_ordered_def pq_le_def [abs_def])
  ultimately show "\<exists>q'. aws_priority_queue_push_ref q x p = (aws_raise_error AWS_ERROR_UNSUPPORTED_OPERATION, q') \<and>
        pq_ok q' \<and> pq_entries q' = pq_entries q \<and> pq_nodes q' = pq_nodes q" by (intro exI [of _ ?q]) auto
qed

theorem pq_push_errors_witness:
  "aws_priority_queue_push_ref static_queue 5 None = (aws_raise_error AWS_ERROR_LIST_EXCEEDS_MAX_SIZE, static_queue)"
proof -
  have c: "pq_container static_queue =
      \<lparr>al_alloc = None, al_current_size = 8, al_length = 1, al_item_size = 8, al_data = Some [Item 6]\<rparr>"
    by (simp add: static_queue_def)
  have "al_wf (pq_container static_queue)" "al_items (pq_container static_queue) = [Item 6]" by code_simp+
  then have "pq_ok static_queue"
    by (simp add: pq_ok_def pq_inv_def pq_ordered_def total_preorder_linorder bps_inv_def al_is_zeroed_iff
        nodes_inv_def pq_bps_def heap_def heap_at_def pq_entries_def c)
      (simp add: static_queue_def total_preorder_linorder)
  from pq_push_errors [OF this, of 5 None] show ?thesis by (simp add: c)
qed

end
