(* ===== verification/Hash_Table.thy ===== *)
theory Hash_Table
  imports Math_Ops
begin

text \<open>
  The Robin Hood hash table of \<open>source/hash_table.c\<close>.

  Keys and values are pointers: \<open>None\<close> is \<open>NULL\<close>, and two keys are the same pointer when they are equal in
  HOL.  The state record has the fields of \<open>struct hash_table_state\<close>; the hash and equality callbacks are
  fields as in the source, the two destructors are flags that say whether they are set, and an operation
  returns the list of destructor calls it makes.  A table is the \<open>p_impl\<close> pointer: \<open>None\<close> after clean-up or
  move.  A pointer to an entry is its slot number.  The load factor \<open>0.95\<close> is the double
  \<open>8556839292003942 / 2^53\<close>; its product with a power of two is exact, and the conversion to \<open>size_t\<close> truncates.
  The probing loops take fuel, and running out of it is \<open>Inl Diverged\<close>.
\<close>

section \<open>State\<close>

record ('k, 'v) hash_table_entry =
  e_key :: "'k option"
  e_value :: "'v option"
  e_hash :: u64

record ('k, 'v) hash_table_state =
  ht_hash_fn :: "'k \<Rightarrow> u64"
  ht_equals_fn :: "'k \<Rightarrow> 'k \<Rightarrow> bool"
  ht_destroy_key_fn :: bool
  ht_destroy_value_fn :: bool
  ht_alloc :: nat
  ht_size :: size_t
  ht_entry_count :: size_t
  ht_max_load :: size_t
  ht_mask :: size_t
  ht_slots :: "('k, 'v) hash_table_entry list"

type_synonym ('k, 'v) hash_table = "('k, 'v) hash_table_state option"

datatype ('k, 'v) destroy_call = DestroyKey "'k option" | DestroyValue "'v option"

definition empty_entry :: "('k, 'v) hash_table_entry" where
  "empty_entry = \<lparr>e_key = None, e_value = None, e_hash = 0\<rparr>"

definition slot_get :: "('k, 'v) hash_table_state \<Rightarrow> size_t \<Rightarrow> ('k, 'v) hash_table_entry res" where
  "slot_get state i = (if unat i < length (ht_slots state) then Inr (ht_slots state ! unat i) else Inl Undefined)"

definition slot_set ::
  "('k, 'v) hash_table_state \<Rightarrow> size_t \<Rightarrow> ('k, 'v) hash_table_entry \<Rightarrow> ('k, 'v) hash_table_state" where
  "slot_set state i e = state\<lparr>ht_slots := (ht_slots state)[unat i := e]\<rparr>"

section \<open>Keys\<close>

definition s_hash_for :: "('k, 'v) hash_table_state \<Rightarrow> 'k option \<Rightarrow> u64" where
  "s_hash_for state key =
     (case key of None \<Rightarrow> 42
      | Some k \<Rightarrow> let hash_code = ht_hash_fn state k in if hash_code = 0 then 1 else hash_code)"

definition s_safe_eq_check :: "('a \<Rightarrow> 'a \<Rightarrow> bool) \<Rightarrow> 'a option \<Rightarrow> 'a option \<Rightarrow> bool" where
  "s_safe_eq_check equals_fn a b =
     (if a = b then True
      else case (a, b) of (Some x, Some y) \<Rightarrow> equals_fn x y | _ \<Rightarrow> False)"

definition s_hash_keys_eq :: "('k, 'v) hash_table_state \<Rightarrow> 'k option \<Rightarrow> 'k option \<Rightarrow> bool" where
  "s_hash_keys_eq state a b = s_safe_eq_check (ht_equals_fn state) a b"

section \<open>Creation\<close>

definition aws_hash_table_get_entry_count :: "('k, 'v) hash_table \<Rightarrow> size_t res" where
  "aws_hash_table_get_entry_count tbl = (case tbl of None \<Rightarrow> Inl Undefined | Some state \<Rightarrow> Inr (ht_entry_count state))"

text \<open>The sizes of \<open>struct hash_table_entry\<close> and of the header \<open>struct hash_table_state\<close> on LP64.\<close>

definition hash_table_state_required_bytes :: "size_t \<Rightarrow> size_t res" where
  "hash_table_state_required_bytes sz =
     (case aws_mul_size_checked sz 24 of
        Inl e \<Rightarrow> Inl e
      | Inr elemsize \<Rightarrow> aws_add_size_checked elemsize 80)"

definition s_alloc_state :: "('k, 'v) hash_table_state \<Rightarrow> ('k, 'v) hash_table_state res" where
  "s_alloc_state tmpl =
     (case hash_table_state_required_bytes (ht_size tmpl) of
        Inl e \<Rightarrow> Inl e
      | Inr required_bytes \<Rightarrow> Inr (tmpl\<lparr>ht_slots := replicate (unat (ht_size tmpl)) empty_entry\<rparr>))"

definition load_limit :: "size_t \<Rightarrow> size_t" where
  "load_limit sz = word_of_int ((8556839292003942 * uint sz) div 2 ^ 53)"

definition s_update_template_size ::
  "('k, 'v) hash_table_state \<Rightarrow> size_t \<Rightarrow> ('k, 'v) hash_table_state res" where
  "s_update_template_size tmpl expected_elements =
     (let min_size = (if expected_elements < 2 then 2 else expected_elements)
      in case aws_round_up_to_power_of_two min_size of
           Inl e \<Rightarrow> Inl e
         | Inr sz \<Rightarrow>
             let max_load = load_limit sz
             in Inr (tmpl\<lparr>ht_size := sz,
                          ht_max_load := (if max_load \<ge> sz then sz - 1 else max_load),
                          ht_mask := sz - 1\<rparr>))"

definition aws_hash_table_init ::
  "nat \<Rightarrow> size_t \<Rightarrow> ('k \<Rightarrow> u64) \<Rightarrow> ('k \<Rightarrow> 'k \<Rightarrow> bool) \<Rightarrow> bool \<Rightarrow> bool \<Rightarrow> ('k, 'v) hash_table res" where
  "aws_hash_table_init alloc sz hash_fn equals_fn destroy_key_fn destroy_value_fn =
     (let tmpl = \<lparr>ht_hash_fn = hash_fn, ht_equals_fn = equals_fn, ht_destroy_key_fn = destroy_key_fn,
                  ht_destroy_value_fn = destroy_value_fn, ht_alloc = alloc, ht_size = 0, ht_entry_count = 0,
                  ht_max_load = 0, ht_mask = 0, ht_slots = []\<rparr>
      in case s_update_template_size tmpl sz of
           Inl e \<Rightarrow> Inl e
         | Inr tmpl \<Rightarrow> (case s_alloc_state tmpl of Inl e \<Rightarrow> Inl e | Inr state \<Rightarrow> Inr (Some state)))"

section \<open>Probing\<close>

text \<open>
  A search returns whether the key was found, the slot at which it stopped and the probe index there.
\<close>

fun find_entry1_loop ::
  "nat \<Rightarrow> ('k, 'v) hash_table_state \<Rightarrow> u64 \<Rightarrow> 'k option \<Rightarrow> size_t \<Rightarrow> (bool \<times> size_t \<times> size_t) res" where
  "find_entry1_loop 0 state hash_code key probe_idx = Inl Diverged"
| "find_entry1_loop (Suc fuel) state hash_code key probe_idx =
     (let index = (hash_code + probe_idx) AND ht_mask state
      in case slot_get state index of
           Inl e \<Rightarrow> Inl e
         | Inr entry \<Rightarrow>
             if e_hash entry = 0 then Inr (False, index, probe_idx)
             else if e_hash entry = hash_code \<and> s_hash_keys_eq state key (e_key entry)
             then Inr (True, index, probe_idx)
             else let entry_probe = (index - e_hash entry) AND ht_mask state
                  in if entry_probe < probe_idx then Inr (False, index, probe_idx)
                     else find_entry1_loop fuel state hash_code key (probe_idx + 1))"

definition s_find_entry1 ::
  "('k, 'v) hash_table_state \<Rightarrow> u64 \<Rightarrow> 'k option \<Rightarrow> (bool \<times> size_t \<times> size_t) res" where
  "s_find_entry1 state hash_code key = find_entry1_loop (unat (ht_size state) + 1) state hash_code key 1"

definition s_find_entry ::
  "('k, 'v) hash_table_state \<Rightarrow> u64 \<Rightarrow> 'k option \<Rightarrow> (bool \<times> size_t \<times> size_t) res" where
  "s_find_entry state hash_code key =
     (let index = hash_code AND ht_mask state
      in case slot_get state index of
           Inl e \<Rightarrow> Inl e
         | Inr entry \<Rightarrow>
             if e_hash entry = 0 then Inr (False, index, 0)
             else if e_hash entry = hash_code \<and> s_hash_keys_eq state key (e_key entry) then Inr (True, index, 0)
             else s_find_entry1 state hash_code key)"

definition aws_hash_table_find :: "('k, 'v) hash_table \<Rightarrow> 'k option \<Rightarrow> size_t option res" where
  "aws_hash_table_find tbl key =
     (case tbl of
        None \<Rightarrow> Inl Undefined
      | Some state \<Rightarrow>
          (case s_find_entry state (s_hash_for state key) key of
             Inl e \<Rightarrow> Inl e
           | Inr (found, index, probe_idx) \<Rightarrow> Inr (if found then Some index else None)))"

fun emplace_loop ::
  "nat \<Rightarrow> ('k, 'v) hash_table_state \<Rightarrow> ('k, 'v) hash_table_entry \<Rightarrow> size_t \<Rightarrow> size_t option \<Rightarrow>
     (size_t option \<times> ('k, 'v) hash_table_state) res" where
  "emplace_loop 0 state entry probe_idx rval = Inl Diverged"
| "emplace_loop (Suc fuel) state entry probe_idx rval =
     (if e_hash entry \<noteq> 0 then
        let index = (e_hash entry + probe_idx) AND ht_mask state
        in case slot_get state index of
             Inl e \<Rightarrow> Inl e
           | Inr victim \<Rightarrow>
               let victim_probe_idx = (index - e_hash victim) AND ht_mask state
               in if e_hash victim = 0 \<or> victim_probe_idx < probe_idx then
                    emplace_loop fuel (slot_set state index entry) victim (victim_probe_idx + 1)
                      (case rval of None \<Rightarrow> Some index | Some i \<Rightarrow> Some i)
                  else emplace_loop fuel state entry (probe_idx + 1) rval
      else Inr (rval, state))"

definition s_emplace_item ::
  "('k, 'v) hash_table_state \<Rightarrow> ('k, 'v) hash_table_entry \<Rightarrow> size_t \<Rightarrow>
     (size_t option \<times> ('k, 'v) hash_table_state) res" where
  "s_emplace_item state entry probe_idx =
     (if e_hash entry = 0 then Inr (None, state)
      else emplace_loop (unat (ht_size state) + 1) state entry probe_idx None)"

primrec expand_loop ::
  "('k, 'v) hash_table_entry list \<Rightarrow> ('k, 'v) hash_table_state \<Rightarrow> ('k, 'v) hash_table_state res" where
  "expand_loop [] new_state = Inr new_state"
| "expand_loop (entry # rest) new_state =
     (if e_hash entry \<noteq> 0 then
        (case s_emplace_item new_state entry 0 of
           Inl e \<Rightarrow> Inl e
         | Inr (_, new_state) \<Rightarrow> expand_loop rest new_state)
      else expand_loop rest new_state)"

definition s_expand_table :: "('k, 'v) hash_table_state \<Rightarrow> ('k, 'v) hash_table_state res" where
  "s_expand_table old_state =
     (case aws_mul_size_checked (ht_size old_state) 2 of
        Inl e \<Rightarrow> Inl e
      | Inr new_size \<Rightarrow>
          (case s_update_template_size old_state new_size of
             Inl e \<Rightarrow> Inl e
           | Inr tmpl \<Rightarrow>
               (case s_alloc_state tmpl of
                  Inl e \<Rightarrow> Inl e
                | Inr new_state \<Rightarrow> expand_loop (ht_slots old_state) new_state)))"

section \<open>Insertion\<close>

text \<open>The result is the slot of the element and whether it was created.\<close>

definition aws_hash_table_create ::
  "('k, 'v) hash_table \<Rightarrow> 'k option \<Rightarrow> (size_t option \<times> bool) res \<times> ('k, 'v) hash_table" where
  "aws_hash_table_create tbl key =
     (case tbl of
        None \<Rightarrow> (Inl Undefined, tbl)
      | Some state \<Rightarrow>
          let hash_code = s_hash_for state key
          in case s_find_entry state hash_code key of
               Inl e \<Rightarrow> (Inl e, tbl)
             | Inr (True, entry, probe_idx) \<Rightarrow> (Inr (Some entry, False), tbl)
             | Inr (False, entry, probe_idx) \<Rightarrow>
                 (case aws_add_size_checked (ht_entry_count state) 1 of
                    Inl e \<Rightarrow> (Inl e, tbl)
                  | Inr incr_entry_count \<Rightarrow>
                      (case (if incr_entry_count > ht_max_load state
                             then (case s_expand_table state of Inl e \<Rightarrow> Inl e | Inr s \<Rightarrow> Inr (s, 0))
                             else Inr (state, probe_idx)) of
                         Inl e \<Rightarrow> (Inl e, tbl)
                       | Inr (state, probe_idx) \<Rightarrow>
                           let state = state\<lparr>ht_entry_count := ht_entry_count state + 1\<rparr>;
                               new_entry = \<lparr>e_key = key, e_value = None, e_hash = hash_code\<rparr>
                           in case s_emplace_item state new_entry probe_idx of
                                Inl e \<Rightarrow> (Inl e, Some state)
                              | Inr (entry, state) \<Rightarrow> (Inr (entry, True), Some state))))"

definition aws_hash_table_put ::
  "('k, 'v) hash_table \<Rightarrow> 'k option \<Rightarrow> 'v option \<Rightarrow>
     bool res \<times> ('k, 'v) destroy_call list \<times> ('k, 'v) hash_table" where
  "aws_hash_table_put tbl key value =
     (case aws_hash_table_create tbl key of
        (Inl e, tbl) \<Rightarrow> (Inl e, [], tbl)
      | (Inr (Some p_elem, was_created), Some state) \<Rightarrow>
          (case slot_get state p_elem of
             Inl e \<Rightarrow> (Inl e, [], Some state)
           | Inr entry \<Rightarrow>
               (Inr was_created,
                (if \<not> was_created then
                   (if e_key entry \<noteq> key \<and> ht_destroy_key_fn state then [DestroyKey (e_key entry)] else []) @
                   (if ht_destroy_value_fn state then [DestroyValue (e_value entry)] else [])
                 else []),
                Some (slot_set state p_elem (entry\<lparr>e_key := key, e_value := value\<rparr>))))
      | (_, tbl) \<Rightarrow> (Inl Undefined, [], tbl))"

section \<open>Removal\<close>

fun remove_loop :: "nat \<Rightarrow> ('k, 'v) hash_table_state \<Rightarrow> size_t \<Rightarrow> (size_t \<times> ('k, 'v) hash_table_state) res" where
  "remove_loop 0 state index = Inl Diverged"
| "remove_loop (Suc fuel) state index =
     (let next_index = (index + 1) AND ht_mask state
      in case slot_get state next_index of
           Inl e \<Rightarrow> Inl e
         | Inr next \<Rightarrow>
             if e_hash next = 0 \<or> e_hash next AND ht_mask state = next_index
             then Inr (index, slot_set state index empty_entry)
             else remove_loop fuel (slot_set state index next) next_index)"

definition s_remove_entry ::
  "('k, 'v) hash_table_state \<Rightarrow> size_t \<Rightarrow> (size_t \<times> ('k, 'v) hash_table_state) res" where
  "s_remove_entry state entry =
     remove_loop (unat (ht_size state)) (state\<lparr>ht_entry_count := ht_entry_count state - 1\<rparr>) entry"

definition destroy_calls ::
  "('k, 'v) hash_table_state \<Rightarrow> ('k, 'v) hash_table_entry \<Rightarrow> ('k, 'v) destroy_call list" where
  "destroy_calls state entry =
     (if ht_destroy_key_fn state then [DestroyKey (e_key entry)] else []) @
     (if ht_destroy_value_fn state then [DestroyValue (e_value entry)] else [])"

text \<open>
  \<open>want_value\<close> says that the caller passes a place for the element; otherwise the destructors run.  The
  result is \<open>None\<close> when the key was absent.
\<close>

definition aws_hash_table_remove ::
  "('k, 'v) hash_table \<Rightarrow> 'k option \<Rightarrow> bool \<Rightarrow>
     ('k option \<times> 'v option) option res \<times> ('k, 'v) destroy_call list \<times> ('k, 'v) hash_table" where
  "aws_hash_table_remove tbl key want_value =
     (case tbl of
        None \<Rightarrow> (Inl Undefined, [], tbl)
      | Some state \<Rightarrow>
          (case s_find_entry state (s_hash_for state key) key of
             Inl e \<Rightarrow> (Inl e, [], tbl)
           | Inr (False, entry, probe_idx) \<Rightarrow> (Inr None, [], tbl)
           | Inr (True, entry, probe_idx) \<Rightarrow>
               (case slot_get state entry of
                  Inl e \<Rightarrow> (Inl e, [], tbl)
                | Inr elem \<Rightarrow>
                    (case s_remove_entry state entry of
                       Inl e \<Rightarrow> (Inl e, [], tbl)
                     | Inr (_, state') \<Rightarrow>
                         (Inr (Some (e_key elem, e_value elem)),
                          (if want_value then [] else destroy_calls state elem), Some state')))))"

definition aws_hash_table_remove_element :: "('k, 'v) hash_table \<Rightarrow> size_t \<Rightarrow> unit res \<times> ('k, 'v) hash_table" where
  "aws_hash_table_remove_element tbl p_value =
     (case tbl of
        None \<Rightarrow> (Inl Undefined, tbl)
      | Some state \<Rightarrow>
          (case s_remove_entry state p_value of
             Inl e \<Rightarrow> (Inl e, tbl)
           | Inr (_, state') \<Rightarrow> (AWS_OP_SUCCESS, Some state')))"

definition aws_hash_table_clear ::
  "('k, 'v) hash_table \<Rightarrow> ('k, 'v) destroy_call list res \<times> ('k, 'v) hash_table" where
  "aws_hash_table_clear tbl =
     (case tbl of
        None \<Rightarrow> (Inl Undefined, tbl)
      | Some state \<Rightarrow>
          (Inr (if ht_destroy_key_fn state \<or> ht_destroy_value_fn state
                then concat (map (\<lambda>entry. if e_hash entry = 0 then [] else destroy_calls state entry) (ht_slots state))
                else []),
           Some (state\<lparr>ht_slots := replicate (unat (ht_size state)) empty_entry, ht_entry_count := 0\<rparr>)))"

definition aws_hash_table_clean_up ::
  "('k, 'v) hash_table \<Rightarrow> ('k, 'v) destroy_call list res \<times> ('k, 'v) hash_table" where
  "aws_hash_table_clean_up tbl =
     (if tbl = None then (Inr [], tbl)
      else case aws_hash_table_clear tbl of (calls, _) \<Rightarrow> (calls, None))"

definition aws_hash_table_swap ::
  "('k, 'v) hash_table \<Rightarrow> ('k, 'v) hash_table \<Rightarrow> ('k, 'v) hash_table \<times> ('k, 'v) hash_table" where
  "aws_hash_table_swap a b = (b, a)"

definition aws_hash_table_move ::
  "('k, 'v) hash_table \<Rightarrow> ('k, 'v) hash_table \<times> ('k, 'v) hash_table" where
  "aws_hash_table_move from = (from, None)"

section \<open>Comparison\<close>

primrec eq_loop ::
  "('k, 'v) hash_table_entry list \<Rightarrow> ('k, 'v) hash_table_state \<Rightarrow> ('v \<Rightarrow> 'v \<Rightarrow> bool) \<Rightarrow> bool res" where
  "eq_loop [] b value_eq = Inr True"
| "eq_loop (a_entry # rest) b value_eq =
     (if e_hash a_entry = 0 then eq_loop rest b value_eq
      else case aws_hash_table_find (Some b) (e_key a_entry) of
             Inl e \<Rightarrow> Inl e
           | Inr None \<Rightarrow> Inr False
           | Inr (Some i) \<Rightarrow>
               (case slot_get b i of
                  Inl e \<Rightarrow> Inl e
                | Inr b_element \<Rightarrow>
                    if \<not> s_safe_eq_check value_eq (e_value a_entry) (e_value b_element) then Inr False
                    else eq_loop rest b value_eq))"

definition aws_hash_table_eq ::
  "('k, 'v) hash_table \<Rightarrow> ('k, 'v) hash_table \<Rightarrow> ('v \<Rightarrow> 'v \<Rightarrow> bool) \<Rightarrow> bool res" where
  "aws_hash_table_eq a b value_eq =
     (case (a, b) of
        (Some sa, Some sb) \<Rightarrow>
          if ht_entry_count sa \<noteq> ht_entry_count sb then Inr False
          else eq_loop (ht_slots sa) sb value_eq
      | _ \<Rightarrow> Inl Undefined)"

section \<open>Iteration\<close>

datatype hash_iter_status =
  AWS_HASH_ITER_STATUS_DONE | AWS_HASH_ITER_STATUS_DELETE_CALLED | AWS_HASH_ITER_STATUS_READY_FOR_USE

record ('k, 'v) hash_iter =
  it_key :: "'k option"
  it_value :: "'v option"
  it_slot :: size_t
  it_limit :: size_t
  it_status :: hash_iter_status

text \<open>The loop of \<open>s_get_next_element\<close> over the slots from \<open>i\<close> up to the limit.\<close>

fun next_slot :: "nat \<Rightarrow> ('k, 'v) hash_table_state \<Rightarrow> size_t \<Rightarrow> size_t \<Rightarrow> (size_t \<times> ('k, 'v) hash_table_entry) option res" where
  "next_slot 0 state limit i = Inl Diverged"
| "next_slot (Suc fuel) state limit i =
     (if i < limit then
        (case slot_get state i of
           Inl e \<Rightarrow> Inl e
         | Inr entry \<Rightarrow> if e_hash entry \<noteq> 0 then Inr (Some (i, entry)) else next_slot fuel state limit (i + 1))
      else Inr None)"

definition s_get_next_element ::
  "('k, 'v) hash_table_state \<Rightarrow> ('k, 'v) hash_iter \<Rightarrow> size_t \<Rightarrow> ('k, 'v) hash_iter res" where
  "s_get_next_element state iter start_slot =
     (case next_slot (unat (it_limit iter) + 1) state (it_limit iter) start_slot of
        Inl e \<Rightarrow> Inl e
      | Inr (Some (i, entry)) \<Rightarrow>
          Inr (iter\<lparr>it_key := e_key entry, it_value := e_value entry, it_slot := i,
                    it_status := AWS_HASH_ITER_STATUS_READY_FOR_USE\<rparr>)
      | Inr None \<Rightarrow>
          Inr (iter\<lparr>it_key := None, it_value := None, it_slot := it_limit iter,
                    it_status := AWS_HASH_ITER_STATUS_DONE\<rparr>))"

definition aws_hash_iter_begin :: "('k, 'v) hash_table_state \<Rightarrow> ('k, 'v) hash_iter res" where
  "aws_hash_iter_begin state =
     s_get_next_element state
       \<lparr>it_key = None, it_value = None, it_slot = 0, it_limit = ht_size state,
        it_status = AWS_HASH_ITER_STATUS_DONE\<rparr> 0"

definition aws_hash_iter_done :: "('k, 'v) hash_iter \<Rightarrow> bool" where
  "aws_hash_iter_done iter \<longleftrightarrow> it_slot iter = it_limit iter"

definition aws_hash_iter_next ::
  "('k, 'v) hash_table_state \<Rightarrow> ('k, 'v) hash_iter \<Rightarrow> ('k, 'v) hash_iter res" where
  "aws_hash_iter_next state iter = s_get_next_element state iter (it_slot iter + 1)"

definition aws_hash_iter_delete ::
  "('k, 'v) hash_table_state \<Rightarrow> ('k, 'v) hash_iter \<Rightarrow> bool \<Rightarrow>
     (('k, 'v) destroy_call list \<times> ('k, 'v) hash_table_state \<times> ('k, 'v) hash_iter) res" where
  "aws_hash_iter_delete state iter destroy_contents =
     (let calls = (if destroy_contents
                   then destroy_calls state \<lparr>e_key = it_key iter, e_value = it_value iter, e_hash = 0\<rparr> else [])
      in case s_remove_entry state (it_slot iter) of
           Inl e \<Rightarrow> Inl e
         | Inr (last_index, state') \<Rightarrow>
             let limit = (if last_index < it_slot iter \<or> last_index \<ge> it_limit iter
                          then it_limit iter - 1 else it_limit iter)
             in Inr (calls, state',
                     iter\<lparr>it_limit := limit, it_slot := it_slot iter - 1,
                          it_status := AWS_HASH_ITER_STATUS_DELETE_CALLED\<rparr>))"

definition AWS_COMMON_HASH_TABLE_ITER_CONTINUE :: u32 where "AWS_COMMON_HASH_TABLE_ITER_CONTINUE = 1"

definition AWS_COMMON_HASH_TABLE_ITER_DELETE :: u32 where "AWS_COMMON_HASH_TABLE_ITER_DELETE = 2"

definition AWS_COMMON_HASH_TABLE_ITER_ERROR :: u32 where "AWS_COMMON_HASH_TABLE_ITER_ERROR = 4"

text \<open>
  The callback of \<open>aws_hash_table_foreach\<close> reads and updates its context and returns its flags and the
  thread's last error.
\<close>

fun foreach_loop ::
  "nat \<Rightarrow> ('c \<Rightarrow> 'k option \<Rightarrow> 'v option \<Rightarrow> u32 \<times> aws_error \<times> 'c) \<Rightarrow> 'c \<Rightarrow> ('k, 'v) hash_table_state \<Rightarrow>
     ('k, 'v) hash_iter \<Rightarrow> unit res \<times> 'c \<times> ('k, 'v) hash_table_state" where
  "foreach_loop 0 callback context state iter = (Inl Diverged, context, state)"
| "foreach_loop (Suc fuel) callback context state iter =
     (if aws_hash_iter_done iter then (AWS_OP_SUCCESS, context, state)
      else case callback context (it_key iter) (it_value iter) of
        (rv, last_error, context) \<Rightarrow>
          if rv AND AWS_COMMON_HASH_TABLE_ITER_ERROR \<noteq> 0 then
            (aws_raise_error (if last_error = AWS_ERROR_SUCCESS then AWS_ERROR_UNKNOWN else last_error), context, state)
          else
            (case (if rv AND AWS_COMMON_HASH_TABLE_ITER_DELETE \<noteq> 0
                   then aws_hash_iter_delete state iter False else Inr ([], state, iter)) of
               Inl e \<Rightarrow> (Inl e, context, state)
             | Inr (_, state, iter) \<Rightarrow>
                 if rv AND AWS_COMMON_HASH_TABLE_ITER_CONTINUE = 0 then (AWS_OP_SUCCESS, context, state)
                 else (case aws_hash_iter_next state iter of
                         Inl e \<Rightarrow> (Inl e, context, state)
                       | Inr iter \<Rightarrow> foreach_loop fuel callback context state iter)))"

definition aws_hash_table_foreach ::
  "('k, 'v) hash_table \<Rightarrow> ('c \<Rightarrow> 'k option \<Rightarrow> 'v option \<Rightarrow> u32 \<times> aws_error \<times> 'c) \<Rightarrow> 'c \<Rightarrow>
     unit res \<times> 'c \<times> ('k, 'v) hash_table" where
  "aws_hash_table_foreach tbl callback context =
     (case tbl of
        None \<Rightarrow> (Inl Undefined, context, tbl)
      | Some state \<Rightarrow>
          (case aws_hash_iter_begin state of
             Inl e \<Rightarrow> (Inl e, context, tbl)
           | Inr iter \<Rightarrow>
               (case foreach_loop (unat (ht_size state) + 1) callback context state iter of
                  (r, context, state) \<Rightarrow> (r, context, Some state))))"

section \<open>Validity\<close>

definition hash_table_state_is_valid :: "('k, 'v) hash_table_state \<Rightarrow> bool" where
  "hash_table_state_is_valid state \<longleftrightarrow>
     ht_size state \<ge> 2 \<and> aws_is_power_of_two (ht_size state) \<and> ht_entry_count state \<le> ht_max_load state \<and>
     ht_max_load state < ht_size state \<and> ht_mask state = ht_size state - 1 \<and>
     length (ht_slots state) = unat (ht_size state)"

definition aws_hash_table_is_valid :: "('k, 'v) hash_table \<Rightarrow> bool" where
  "aws_hash_table_is_valid tbl \<longleftrightarrow> (case tbl of None \<Rightarrow> False | Some state \<Rightarrow> hash_table_state_is_valid state)"

definition aws_hash_iter_is_valid :: "('k, 'v) hash_table_state \<Rightarrow> ('k, 'v) hash_iter \<Rightarrow> bool" where
  "aws_hash_iter_is_valid state iter \<longleftrightarrow>
     hash_table_state_is_valid state \<and> it_limit iter \<le> ht_size state \<and>
     (case it_status iter of
        AWS_HASH_ITER_STATUS_DONE \<Rightarrow> it_slot iter = it_limit iter
      | AWS_HASH_ITER_STATUS_DELETE_CALLED \<Rightarrow> it_slot iter \<le> it_limit iter \<or> it_slot iter = SIZE_MAX
      | AWS_HASH_ITER_STATUS_READY_FOR_USE \<Rightarrow>
          it_slot iter < it_limit iter \<and> e_hash (ht_slots state ! unat (it_slot iter)) \<noteq> 0)"

section \<open>Abstraction and invariant\<close>

definition dst :: "nat \<Rightarrow> nat \<Rightarrow> nat \<Rightarrow> nat" where
  "dst n i h = (i + (n - h mod n)) mod n"

definition nxt :: "nat \<Rightarrow> nat \<Rightarrow> nat" where
  "nxt n i = Suc i mod n"

abbreviation occ :: "('k, 'v) hash_table_entry list \<Rightarrow> nat \<Rightarrow> bool" where
  "occ T i \<equiv> e_hash (T ! i) \<noteq> 0"

definition dist :: "('k, 'v) hash_table_entry list \<Rightarrow> nat \<Rightarrow> nat" where
  "dist T i = dst (length T) i (unat (e_hash (T ! i)))"

text \<open>
  The Robin Hood invariant: an entry that is not at its home slot has an occupied predecessor, whose
  distance from home is smaller by at most one.
\<close>

definition rh_at :: "('k, 'v) hash_table_entry list \<Rightarrow> nat \<Rightarrow> bool" where
  "rh_at T i \<longleftrightarrow> (let j = nxt (length T) i in occ T j \<and> 0 < dist T j \<longrightarrow> occ T i \<and> dist T j \<le> Suc (dist T i))"

definition rh :: "('k, 'v) hash_table_entry list \<Rightarrow> bool" where
  "rh T \<longleftrightarrow> (\<forall>i < length T. rh_at T i)"

definition probe_path :: "('k, 'v) hash_table_entry list \<Rightarrow> nat \<Rightarrow> nat \<Rightarrow> bool" where
  "probe_path T h p \<longleftrightarrow> (\<forall>j < p. occ T ((h + j) mod length T) \<and> j \<le> dist T ((h + j) mod length T))"

definition ht_geom :: "('k, 'v) hash_table_state \<Rightarrow> bool" where
  "ht_geom st \<longleftrightarrow> length (ht_slots st) = unat (ht_size st) \<and> 2 \<le> ht_size st \<and> aws_is_power_of_two (ht_size st) \<and>
     ht_mask st = ht_size st - 1"

abbreviation hit :: "('k, 'v) hash_table_state \<Rightarrow> u64 \<Rightarrow> 'k option \<Rightarrow> nat \<Rightarrow> bool" where
  "hit st h key i \<equiv> e_hash (ht_slots st ! i) = h \<and> s_hash_keys_eq st key (e_key (ht_slots st ! i))"

definition find_result :: "('k, 'v) hash_table_state \<Rightarrow> u64 \<Rightarrow> 'k option \<Rightarrow> bool \<times> size_t \<times> size_t \<Rightarrow> bool" where
  "find_result st h key r = (case r of (found, idx, p) \<Rightarrow>
     unat idx = (unat h + unat p) mod length (ht_slots st) \<and> probe_path (ht_slots st) (unat h) (unat p) \<and>
     (\<forall>j < unat p. \<not> hit st h key ((unat h + j) mod length (ht_slots st))) \<and>
     (if found then occ (ht_slots st) (unat idx) \<and> hit st h key (unat idx)
      else \<not> occ (ht_slots st) (unat idx) \<or> dist (ht_slots st) (unat idx) < unat p \<and> \<not> hit st h key (unat idx)))"

definition ents :: "('k, 'v) hash_table_entry list \<Rightarrow> ('k, 'v) hash_table_entry multiset" where
  "ents T = mset (filter (\<lambda>e. e_hash e \<noteq> 0) T)"

definition ht_fns_ok :: "('k, 'v) hash_table_state \<Rightarrow> bool" where
  "ht_fns_ok st \<longleftrightarrow> (\<forall>x. ht_equals_fn st x x) \<and> (\<forall>x y. ht_equals_fn st x y \<longrightarrow> ht_equals_fn st y x) \<and>
     (\<forall>x y z. ht_equals_fn st x y \<longrightarrow> ht_equals_fn st y z \<longrightarrow> ht_equals_fn st x z) \<and>
     (\<forall>x y. ht_equals_fn st x y \<longrightarrow> ht_hash_fn st x = ht_hash_fn st y)"

definition keys_distinct :: "('k, 'v) hash_table_state \<Rightarrow> ('k, 'v) hash_table_entry multiset \<Rightarrow> bool" where
  "keys_distinct st M \<longleftrightarrow> (\<forall>e f. {#e, f#} \<subseteq># M \<longrightarrow> \<not> s_hash_keys_eq st (e_key e) (e_key f))"

definition hashes_ok :: "('k, 'v) hash_table_state \<Rightarrow> ('k, 'v) hash_table_entry multiset \<Rightarrow> bool" where
  "hashes_ok st M \<longleftrightarrow> (\<forall>e \<in># M. e_hash e = s_hash_for st (e_key e))"

definition ht_inv :: "('k, 'v) hash_table_state \<Rightarrow> bool" where
  "ht_inv st \<longleftrightarrow> ht_geom st \<and> ht_max_load st = load_limit (ht_size st) \<and> ht_fns_ok st \<and> rh (ht_slots st) \<and>
     unat (ht_entry_count st) = size (ents (ht_slots st)) \<and> ht_entry_count st \<le> ht_max_load st \<and>
     keys_distinct st (ents (ht_slots st)) \<and> hashes_ok st (ents (ht_slots st))"

definition same_fns :: "('k, 'v) hash_table_state \<Rightarrow> ('k, 'v) hash_table_state \<Rightarrow> bool" where
  "same_fns st st' \<longleftrightarrow> ht_hash_fn st' = ht_hash_fn st \<and> ht_equals_fn st' = ht_equals_fn st \<and>
     ht_destroy_key_fn st' = ht_destroy_key_fn st \<and> ht_destroy_value_fn st' = ht_destroy_value_fn st"

definition find_spec :: "('k, 'v) hash_table_state \<Rightarrow> 'k option \<Rightarrow> bool \<times> size_t \<times> size_t \<Rightarrow> bool" where
  "find_spec st key r = (case r of (found, idx, p) \<Rightarrow>
     unat idx < length (ht_slots st) \<and>
     (if found then occ (ht_slots st) (unat idx) \<and> s_hash_keys_eq st key (e_key (ht_slots st ! unat idx))
      else (\<forall>e \<in># ents (ht_slots st). \<not> s_hash_keys_eq st key (e_key e)) \<and>
        probe_path (ht_slots st) (unat (s_hash_for st key)) (unat p) \<and> unat p < length (ht_slots st)))"

text \<open>
  What the emplace loop keeps about the entry it carries at probe index \<open>p\<close>: the slot before its probe
  position holds an entry that is at most one step richer, and an empty slot lies \<open>g\<close> steps ahead.
\<close>

definition carry_ok :: "('k, 'v) hash_table_entry list \<Rightarrow> nat \<Rightarrow> nat \<Rightarrow> bool" where
  "carry_ok T h p \<longleftrightarrow> p < length T \<and>
     (0 < p \<longrightarrow> occ T ((h + (p - 1)) mod length T) \<and> p \<le> Suc (dist T ((h + (p - 1)) mod length T)))"

definition emplaced ::
  "('k, 'v) hash_table_state \<Rightarrow> ('k, 'v) hash_table_entry \<Rightarrow> nat \<Rightarrow> nat \<Rightarrow> size_t option \<Rightarrow>
     size_t option \<times> ('k, 'v) hash_table_state \<Rightarrow> bool" where
  "emplaced st e i g rval r \<longleftrightarrow> (\<exists>rv T'. r = (rv, st\<lparr>ht_slots := T'\<rparr>) \<and> length T' = length (ht_slots st) \<and> rh T' \<and>
     ents T' = add_mset e (ents (ht_slots st)) \<and>
     (\<forall>k < length T'. (\<forall>j \<le> g. k \<noteq> (i + j) mod length T') \<longrightarrow> T' ! k = ht_slots st ! k) \<and>
     (case rval of Some s \<Rightarrow> rv = Some s
      | None \<Rightarrow> (\<exists>s. rv = Some s \<and> unat s < length T' \<and> T' ! unat s = e)))"

definition can_double :: "('k, 'v) hash_table_state \<Rightarrow> bool" where
  "can_double st \<longleftrightarrow> 48 * unat (ht_size st) + 80 < 2 ^ 64"

text \<open>The effect of the backward shift: the entries of \<open>m\<close> slots move back by one and the last slot is cleared.\<close>

definition shifted :: "('k, 'v) hash_table_entry list \<Rightarrow> nat \<Rightarrow> nat \<Rightarrow> ('k, 'v) hash_table_entry list \<Rightarrow> bool" where
  "shifted T i m T' \<longleftrightarrow> length T' = length T \<and> m < length T \<and>
     (\<forall>j < m. T' ! ((i + j) mod length T) = T ! ((i + Suc j) mod length T) \<and> occ T ((i + Suc j) mod length T)) \<and>
     T' ! ((i + m) mod length T) = empty_entry \<and>
     (\<forall>k < length T. (\<forall>j \<le> m. k \<noteq> (i + j) mod length T) \<longrightarrow> T' ! k = T ! k)"

definition removed ::
  "('k, 'v) hash_table_state \<Rightarrow> nat \<Rightarrow> size_t \<times> ('k, 'v) hash_table_state \<Rightarrow> bool" where
  "removed st i r \<longleftrightarrow> (\<exists>m T'. unat (fst r) = (i + m) mod length (ht_slots st) \<and> snd r = st\<lparr>ht_slots := T'\<rparr> \<and>
     shifted (ht_slots st) i m T' \<and> rh T' \<and> ents T' = ents (ht_slots st) - {#ht_slots st ! i#})"

definition new_entry :: "('k, 'v) hash_table_state \<Rightarrow> 'k option \<Rightarrow> 'v option \<Rightarrow> ('k, 'v) hash_table_entry" where
  "new_entry st key v = \<lparr>e_key = key, e_value = v, e_hash = s_hash_for st key\<rparr>"

definition room_to_add :: "('k, 'v) hash_table_state \<Rightarrow> bool" where
  "room_to_add st \<longleftrightarrow> unat (ht_entry_count st) + 1 \<le> unat (ht_max_load st) \<or> can_double st"

definition key_absent :: "('k, 'v) hash_table_state \<Rightarrow> 'k option \<Rightarrow> bool" where
  "key_absent st key \<longleftrightarrow> (\<forall>e \<in># ents (ht_slots st). \<not> s_hash_keys_eq st key (e_key e))"

definition ht_lookup :: "('k, 'v) hash_table_state \<Rightarrow> 'k option \<Rightarrow> 'v option option" where
  "ht_lookup st key =
     map_option e_value (List.find (\<lambda>e. e_hash e \<noteq> 0 \<and> s_hash_keys_eq st key (e_key e)) (ht_slots st))"

text \<open>The occupied slots from \<open>s\<close> up to \<open>L\<close>, in slot order.\<close>

definition window :: "('k, 'v) hash_table_entry list \<Rightarrow> nat \<Rightarrow> nat \<Rightarrow> ('k, 'v) hash_table_entry list" where
  "window T s L = filter (\<lambda>e. e_hash e \<noteq> 0) (map ((!) T) [s ..< L])"

text \<open>What the iteration over a list of entries does: the result, the context and the deleted entries.\<close>

fun foreach_spec ::
  "('c \<Rightarrow> 'k option \<Rightarrow> 'v option \<Rightarrow> u32 \<times> aws_error \<times> 'c) \<Rightarrow> 'c \<Rightarrow> ('k, 'v) hash_table_entry list \<Rightarrow>
     unit res \<times> 'c \<times> ('k, 'v) hash_table_entry list" where
  "foreach_spec callback context [] = (AWS_OP_SUCCESS, context, [])"
| "foreach_spec callback context (e # es) =
     (case callback context (e_key e) (e_value e) of
        (rv, last_error, context) \<Rightarrow>
          if rv AND AWS_COMMON_HASH_TABLE_ITER_ERROR \<noteq> 0 then
            (aws_raise_error (if last_error = AWS_ERROR_SUCCESS then AWS_ERROR_UNKNOWN else last_error), context, [])
          else
            let deleted = (if rv AND AWS_COMMON_HASH_TABLE_ITER_DELETE \<noteq> 0 then [e] else [])
            in if rv AND AWS_COMMON_HASH_TABLE_ITER_CONTINUE = 0 then (AWS_OP_SUCCESS, context, deleted)
               else (case foreach_spec callback context es of (r, context, ds) \<Rightarrow> (r, context, deleted @ ds)))"

text \<open>An iterator of the loop with its remaining entries \<open>W\<close>.\<close>

definition iter_at :: "('k, 'v) hash_table_state \<Rightarrow> ('k, 'v) hash_iter \<Rightarrow> ('k, 'v) hash_table_entry list \<Rightarrow> bool" where
  "iter_at st it W \<longleftrightarrow> unat (it_limit it) \<le> length (ht_slots st) \<and>
     (case W of
        [] \<Rightarrow> it_slot it = it_limit it
      | e # es \<Rightarrow> unat (it_slot it) < unat (it_limit it) \<and> e = ht_slots st ! unat (it_slot it) \<and> e_hash e \<noteq> 0 \<and>
          es = window (ht_slots st) (Suc (unat (it_slot it))) (unat (it_limit it)) \<and>
          it_key it = e_key e \<and> it_value it = e_value e)"

text \<open>The contract of the caller's hash and comparison functions.\<close>

definition hashing_ok :: "('k \<Rightarrow> u64) \<Rightarrow> ('k \<Rightarrow> 'k \<Rightarrow> bool) \<Rightarrow> bool" where
  "hashing_ok hash_fn eq_fn \<longleftrightarrow> (\<forall>x. eq_fn x x) \<and> (\<forall>x y. eq_fn x y \<longrightarrow> eq_fn y x) \<and>
     (\<forall>x y z. eq_fn x y \<longrightarrow> eq_fn y z \<longrightarrow> eq_fn x z) \<and> (\<forall>x y. eq_fn x y \<longrightarrow> hash_fn x = hash_fn y)"

definition key_classes :: "('k, 'v) hash_table_state \<Rightarrow> 'k option set set" where
  "key_classes st = (\<lambda>e. {k. s_hash_keys_eq st (e_key e) k}) ` set_mset (ents (ht_slots st))"

datatype ('k, 'v) kv_op = Put 'k 'v | Del 'k | Get 'k

datatype 'v kv_result = Put_done bool | Put_failed failure | Deleted "'v option" | Got "'v option" | Stuck failure

fun kv_run ::
  "('s \<Rightarrow> 'k \<Rightarrow> 'v \<Rightarrow> bool res \<times> 's) \<Rightarrow> ('s \<Rightarrow> 'k \<Rightarrow> 'v option res \<times> 's) \<Rightarrow> ('s \<Rightarrow> 'k \<Rightarrow> 'v option res) \<Rightarrow>
     's \<Rightarrow> ('k, 'v) kv_op list \<Rightarrow> (('k, 'v) kv_op \<times> 'v kv_result) list \<times> 's" where
  "kv_run put del get s [] = ([], s)"
| "kv_run put del get s (op # ops) =
     (case (case op of
              Put k v \<Rightarrow> (case put s k v of (Inr b, s') \<Rightarrow> (Put_done b, s') | (Inl e, s') \<Rightarrow> (Put_failed e, s'))
            | Del k \<Rightarrow> (case del s k of (Inr r, s') \<Rightarrow> (Deleted r, s') | (Inl e, s') \<Rightarrow> (Stuck e, s'))
            | Get k \<Rightarrow> (case get s k of Inr r \<Rightarrow> (Got r, s) | Inl e \<Rightarrow> (Stuck e, s))) of
        (r, s') \<Rightarrow> (case kv_run put del get s' ops of (t, s'') \<Rightarrow> ((op, r) # t, s'')))"

text \<open>
  The abstract map of keys up to \<open>same\<close>, run against the results of a store: \<open>None\<close> when a result is not
  the one of the map.  Only a put of a new key may fail, with a raised error and no effect.
\<close>

fun kv_accepts ::
  "('k \<Rightarrow> 'k \<Rightarrow> bool) \<Rightarrow> ('k \<Rightarrow> 'v option) \<Rightarrow> (('k, 'v) kv_op \<times> 'v kv_result) list \<Rightarrow> ('k \<Rightarrow> 'v option) option" where
  "kv_accepts same m [] = Some m"
| "kv_accepts same m ((Put k v, Put_done b) # t) =
     (if b = (m k = None) then kv_accepts same (\<lambda>x. if same k x then Some v else m x) t else None)"
| "kv_accepts same m ((Put k v, Put_failed (Raised e)) # t) = (if m k = None then kv_accepts same m t else None)"
| "kv_accepts same m ((Del k, Deleted r) # t) =
     (if r = m k then kv_accepts same (\<lambda>x. if same k x then None else m x) t else None)"
| "kv_accepts same m ((Get k, Got r) # t) = (if r = m k then kv_accepts same m t else None)"
| "kv_accepts same m _ = None"

text \<open>The hash table as such a store: the operations on a table that is present.\<close>

definition table_put ::
  "('k, 'v) hash_table_state \<Rightarrow> 'k option \<Rightarrow> 'v option \<Rightarrow> bool res \<times> ('k, 'v) hash_table_state" where
  "table_put st key v = (case aws_hash_table_put (Some st) key v of (r, _, t) \<Rightarrow> (r, case t of Some st' \<Rightarrow> st' | None \<Rightarrow> st))"

definition table_remove ::
  "('k, 'v) hash_table_state \<Rightarrow> 'k option \<Rightarrow> 'v option option res \<times> ('k, 'v) hash_table_state" where
  "table_remove st key =
     (case aws_hash_table_remove (Some st) key False of
        (Inr r, _, t) \<Rightarrow> (Inr (map_option snd r), case t of Some st' \<Rightarrow> st' | None \<Rightarrow> st)
      | (Inl e, _, t) \<Rightarrow> (Inl e, st))"

definition table_find :: "('k, 'v) hash_table_state \<Rightarrow> 'k option \<Rightarrow> 'v option option res" where
  "table_find st key =
     (case aws_hash_table_find (Some st) key of
        Inl e \<Rightarrow> Inl e
      | Inr None \<Rightarrow> Inr None
      | Inr (Some i) \<Rightarrow> (case slot_get st i of Inl e \<Rightarrow> Inl e | Inr entry \<Rightarrow> Inr (Some (e_value entry))))"

text \<open>A table of words created with room for two elements, and the table after some operations on it.\<close>

definition demo_table :: "(u64, u64) hash_table_state" where
  "demo_table = the (projr (aws_hash_table_init 0 2 id (=) True True))"

definition demo_filled :: "(u64, u64) hash_table_state" where
  "demo_filled = snd (kv_run table_put table_remove table_find demo_table
     [Put (Some 1) (Some 10), Put (Some 9) (Some 90), Put (Some 2) (Some 20), Put (Some 9) (Some 91), Del (Some 1)])"

section \<open>Lemmas\<close>

subsection \<open>Circular distance\<close>

lemma dst_less: "0 < n \<Longrightarrow> dst n i h < n"
  by (simp add: dst_def)

lemma add_dst: "i < n \<Longrightarrow> (h + dst n i h) mod n = i"
proof -
  assume i: "i < n"
  then have "h mod n < n" by simp
  have "(h + dst n i h) mod n = (h mod n + (i + (n - h mod n))) mod n"
    by (simp add: dst_def mod_add_eq mod_add_left_eq mod_add_right_eq)
  also have "h mod n + (i + (n - h mod n)) = i + n" using \<open>h mod n < n\<close> by simp
  finally show ?thesis using i by simp
qed

lemma mod_add_cancel: "(h + a) mod n = (h + b) mod n \<Longrightarrow> a < n \<Longrightarrow> b < n \<Longrightarrow> a = (b :: nat)"
proof -
  assume eq: "(h + a) mod n = (h + b) mod n" and ab: "a < n" "b < n"
  have "int n dvd int (h + a) - int (h + b)"
    using eq by (metis mod_eq_dvd_iff of_nat_mod)
  then have "int n dvd int a - int b" by simp
  with ab show ?thesis
    by (metis abs_of_nat diff_ge_0_iff_ge int_nat_eq mod_eq_dvd_iff mod_less nat_int of_nat_mod)
qed

lemma dst_unique: "d < n \<Longrightarrow> dst n ((h + d) mod n) h = d"
proof -
  assume d: "d < n"
  then have "(h + dst n ((h + d) mod n) h) mod n = (h + d) mod n" by (intro add_dst) simp
  then show ?thesis by (rule mod_add_cancel) (use d dst_less [of n] in auto)
qed

lemma dst_mod: "dst n i (h mod n) = dst n i h"
  by (simp add: dst_def)

lemma dst_eq_0: "i < n \<Longrightarrow> dst n i h = 0 \<longleftrightarrow> h mod n = i"
  by (metis add.right_neutral add_dst dst_unique gr_zeroI less_nat_zero_code)

lemma nxt_less: "0 < n \<Longrightarrow> nxt n i < n"
  by (simp add: nxt_def)

lemma nxt_neq: "2 \<le> n \<Longrightarrow> i < n \<Longrightarrow> nxt n i \<noteq> i"
  by (cases "Suc i = n") (auto simp: nxt_def)

lemma nxt_mod: "nxt n ((h + j) mod n) = (h + Suc j) mod n"
  by (simp add: nxt_def mod_Suc_eq)

lemma nxt_inj: "nxt n i = nxt n j \<Longrightarrow> i < n \<Longrightarrow> j < n \<Longrightarrow> i = j"
  using mod_add_cancel [of 1 i n j] by (simp add: nxt_def)

lemma dst_nxt:
  assumes "i < n" "Suc (dst n i h) < n" shows "dst n (nxt n i) h = Suc (dst n i h)"
proof -
  have "nxt n i = (h + Suc (dst n i h)) mod n" using add_dst [OF assms(1), of h] nxt_mod by metis
  then show ?thesis using dst_unique [OF assms(2)] by simp
qed

subsection \<open>Probe sequences\<close>

lemma rhD:
  assumes "rh T" "i < length T" "occ T (nxt (length T) i)" "0 < dist T (nxt (length T) i)"
  shows "occ T i" "dist T (nxt (length T) i) \<le> Suc (dist T i)"
  using assms by (auto simp: rh_def rh_at_def Let_def)

lemma path_back:
  assumes rh: "rh T" and i: "i < length T" "occ T i" and h: "h = unat (e_hash (T ! i))"
  shows "k + j = dist T i \<Longrightarrow> occ T ((h + j) mod length T) \<and> j \<le> dist T ((h + j) mod length T)"
proof (induction k arbitrary: j)
  case 0
  then show ?case using i add_dst [OF i(1), of h] by (simp add: dist_def h)
next
  case (Suc k)
  define a where "a = (h + j) mod length T"
  have a: "a < length T" unfolding a_def by (rule mod_less_divisor) (use i(1) in linarith)
  have n: "nxt (length T) a = (h + Suc j) mod length T" by (simp add: a_def nxt_mod)
  have ih: "occ T (nxt (length T) a)" "Suc j \<le> dist T (nxt (length T) a)"
    using Suc.IH [of "Suc j"] Suc.prems by (simp_all add: n)
  then have "0 < dist T (nxt (length T) a)" by linarith
  from rhD [OF rh a ih(1) this] ih(2) show ?case by (simp add: a_def [symmetric])
qed

lemma entry_path:
  assumes "rh T" "i < length T" "occ T i"
  shows "probe_path T (unat (e_hash (T ! i))) (Suc (dist T i))"
  unfolding probe_path_def
proof (intro allI impI)
  fix j assume "j < Suc (dist T i)"
  then show "occ T ((unat (e_hash (T ! i)) + j) mod length T) \<and> j \<le> dist T ((unat (e_hash (T ! i)) + j) mod length T)"
    by (intro path_back [OF assms refl, of "dist T i - j"]) simp
qed

lemma path_not_full:
  assumes "probe_path T h p" "z < length T" "\<not> occ T z"
  shows "p < length T"
proof (rule ccontr)
  assume "\<not> p < length T"
  then have "dst (length T) z h < p" using dst_less [of "length T" z h] assms(2) by linarith
  then have "occ T ((h + dst (length T) z h) mod length T)" using assms(1) by (simp add: probe_path_def)
  then show False using add_dst [OF assms(2)] assms(3) by simp
qed

lemma dist_bound:
  assumes "rh T" "i < length T" "occ T i" "z < length T" "\<not> occ T z"
  shows "Suc (dist T i) < length T"
  by (rule path_not_full [OF entry_path [OF assms(1-3)] assms(4,5)])

text \<open>A search that stops at an empty or a richer slot has passed every entry with its hash.\<close>

lemma search_complete:
  assumes "rh T" "i < length T" "occ T i" and h: "h = unat (e_hash (T ! i))"
    and stop: "\<not> occ T ((h + q) mod length T) \<or> dist T ((h + q) mod length T) < q"
  shows "dist T i < q" "(h + dist T i) mod length T = i"
proof -
  show "dist T i < q"
  proof (rule ccontr)
    assume "\<not> dist T i < q"
    then have "q < Suc (dist T i)" by simp
    with entry_path [OF assms(1-3)] stop h show False unfolding probe_path_def by force
  qed
  show "(h + dist T i) mod length T = i" using add_dst [OF assms(2)] by (simp add: h dist_def)
qed

lemma dist_update_other: "j \<noteq> i \<Longrightarrow> dist (T[i := e]) j = dist T j"
  by (simp add: dist_def)

lemma dist_update_same: "i < length T \<Longrightarrow> dist (T[i := e]) i = dst (length T) i (unat (e_hash e))"
  by (simp add: dist_def)

lemmas rh_update_simps = rh_at_def Let_def dist_update_other dist_update_same

text \<open>Placing an entry in a slot that is empty or holds a richer entry.\<close>

lemma rh_place:
  assumes rh: "rh T" and n: "2 \<le> length T" and i: "i < length T" and e: "e_hash e \<noteq> 0"
    and d: "d = dst (length T) i (unat (e_hash e))"
    and pre: "\<And>a. a < length T \<Longrightarrow> nxt (length T) a = i \<Longrightarrow> 0 < d \<Longrightarrow> occ T a \<and> d \<le> Suc (dist T a)"
    and win: "\<not> occ T i \<or> dist T i < d"
  shows "rh (T[i := e])"
  unfolding rh_def
proof (intro allI impI)
  fix a assume "a < length (T[i := e])"
  then have a: "a < length T" by simp
  have old: "rh_at T a" using rh a by (simp add: rh_def)
  have neq: "nxt (length T) a \<noteq> a" by (rule nxt_neq [OF n a])
  consider "nxt (length T) a = i" | "a = i" "nxt (length T) a \<noteq> i" | "a \<noteq> i" "nxt (length T) a \<noteq> i" by blast
  then show "rh_at (T[i := e]) a"
  proof cases
    case 1
    then show ?thesis using pre [OF a] neq i d e by (simp add: rh_update_simps)
  next
    case 2
    then show ?thesis using old win neq i d e by (auto simp: rh_update_simps)
  next
    case 3
    then show ?thesis using old by (simp add: rh_update_simps)
  qed
qed

lemma rh_clear:
  assumes rh: "rh T" and n: "2 \<le> length T" and i: "i < length T"
    and free: "\<not> occ T (nxt (length T) i) \<or> dist T (nxt (length T) i) = 0"
  shows "rh (T[i := empty_entry])"
  unfolding rh_def
proof (intro allI impI)
  fix a assume "a < length (T[i := empty_entry])"
  then have a: "a < length T" by simp
  have old: "rh_at T a" using rh a by (simp add: rh_def)
  have neq: "nxt (length T) a \<noteq> a" by (rule nxt_neq [OF n a])
  consider "nxt (length T) a = i" | "a = i" "nxt (length T) a \<noteq> i" | "a \<noteq> i" "nxt (length T) a \<noteq> i" by blast
  then show "rh_at (T[i := empty_entry]) a"
    by cases (use old free neq i in \<open>auto simp: rh_update_simps empty_entry_def\<close>)
qed

lemma shift_dist:
  assumes i: "i < length T" and j: "j = nxt (length T) i" and pos: "0 < dist T j"
  shows "Suc (dst (length T) i (unat (e_hash (T ! j)))) = dist T j"
proof -
  let ?h = "unat (e_hash (T ! j))"
  have pos': "0 < length T" using i by linarith
  have jl: "j < length T" unfolding j by (rule nxt_less [OF pos'])
  have dj: "(?h + dist T j) mod length T = j" using add_dst [OF jl] by (simp add: dist_def)
  obtain d where d: "dist T j = Suc d" using pos by (cases "dist T j") auto
  have "nxt (length T) ((?h + d) mod length T) = nxt (length T) i" using dj d j by (simp add: nxt_mod)
  then have "(?h + d) mod length T = i" by (rule nxt_inj) (use i pos' in auto)
  moreover have "d < length T" using dst_less [OF pos', of j ?h] d by (simp add: dist_def)
  ultimately show ?thesis using dst_unique [of d "length T" ?h] d by simp
qed

lemma rh_shift:
  assumes rh: "rh T" and n: "2 \<le> length T" and i: "i < length T" and j: "j = nxt (length T) i"
    and next_entry: "occ T j" "0 < dist T j"
  shows "rh (T[i := T ! j])"
  unfolding rh_def
proof (intro allI impI)
  fix a assume "a < length (T[i := T ! j])"
  then have a: "a < length T" by simp
  have old: "rh_at T a" using rh a by (simp add: rh_def)
  have neq: "nxt (length T) a \<noteq> a" "j \<noteq> i" using nxt_neq [OF n a] nxt_neq [OF n i] by (auto simp: j)
  have oi: "occ T i" "dist T j \<le> Suc (dist T i)" using rhD [OF rh i] next_entry j by auto
  note sd = shift_dist [OF i j next_entry(2)]
  consider "nxt (length T) a = i" | "a = i" | "a \<noteq> i" "nxt (length T) a \<noteq> i" by blast
  then show "rh_at (T[i := T ! j]) a"
  proof cases
    case 1
    then show ?thesis using old neq oi sd i by (auto simp: rh_update_simps)
  next
    case 2
    then show ?thesis using sd i neq next_entry by (simp add: rh_update_simps flip: j)
  next
    case 3
    then show ?thesis using old by (simp add: rh_update_simps)
  qed
qed

subsection \<open>Slot numbers as words\<close>

lemma mask_mod:
  assumes "ht_geom st" shows "unat (w AND ht_mask st) = unat w mod length (ht_slots st)"
    and "length (ht_slots st) dvd 2 ^ 64" and "2 \<le> length (ht_slots st)" "length (ht_slots st) \<le> 2 ^ 63"
proof -
  obtain k where k: "k < 64" "unat (ht_size st) = 2 ^ k"
    using assms is_power_of_two_iff [of "ht_size st"] by (auto simp: ht_geom_def)
  have n: "length (ht_slots st) = 2 ^ k" using assms k by (simp add: ht_geom_def)
  have "ht_size st = 2 ^ k" using k unat_pow2 [of k, where 'a = 64] by (simp add: word_unat_eq_iff)
  then have "ht_mask st = mask k" using assms by (simp add: ht_geom_def mask_eq_exp_minus_1)
  then have "w AND ht_mask st = take_bit k w" by (simp add: take_bit_eq_mask)
  then have "unat (w AND ht_mask st) = take_bit k (unat w)" by (simp only: unsigned_take_bit_eq)
  then show "unat (w AND ht_mask st) = unat w mod length (ht_slots st)" by (simp add: n take_bit_eq_mod)
  show "length (ht_slots st) dvd 2 ^ 64" unfolding n by (rule le_imp_power_dvd) (use k(1) in simp)
  show "2 \<le> length (ht_slots st)" using assms by (simp add: ht_geom_def word_le_nat_alt)
  have "(2 :: nat) ^ k \<le> 2 ^ 63" using k(1) by (intro power_increasing) auto
  then show "length (ht_slots st) \<le> 2 ^ 63" by (simp add: n)
qed

lemma probe_index:
  assumes "ht_geom st"
  shows "unat ((h + p) AND ht_mask st) = (unat h + unat p) mod length (ht_slots st)"
proof -
  note m = mask_mod [OF assms]
  have "unat (h + p) = (unat h + unat p) mod 2 ^ 64" by (simp add: unat_word_ariths)
  then show ?thesis using m(1) [of "h + p"] mod_mod_cancel [OF m(2)] by simp
qed

lemma probe_distance:
  assumes g: "ht_geom st" and i: "unat i < length (ht_slots st)"
  shows "unat ((i - h) AND ht_mask st) = dst (length (ht_slots st)) (unat i) (unat h)"
proof -
  let ?n = "length (ht_slots st)"
  note m = mask_mod [OF g]
  have "(unat h + unat (i - h)) mod ?n = unat ((h + (i - h)) AND ht_mask st)"
    using probe_index [OF g, of h "i - h"] by simp
  also have "\<dots> = unat i" using i by (simp add: m(1))
  finally have "(unat h + unat (i - h) mod ?n) mod ?n = unat i" by (simp add: mod_add_right_eq)
  moreover have "unat (i - h) mod ?n < ?n" using m(3) by (intro mod_less_divisor) linarith
  ultimately have "dst ?n (unat i) (unat h) = unat (i - h) mod ?n" using dst_unique by metis
  then show ?thesis by (simp add: m(1))
qed

lemma slot_get_probe:
  assumes "ht_geom st"
  shows "slot_get st ((h + p) AND ht_mask st) = Inr (ht_slots st ! ((unat h + unat p) mod length (ht_slots st)))"
proof -
  have "(unat h + unat p) mod length (ht_slots st) < length (ht_slots st)"
    using mask_mod(3) [OF assms] by (intro mod_less_divisor) linarith
  then show ?thesis by (simp add: slot_get_def probe_index [OF assms])
qed

lemma probe_dist:
  assumes g: "ht_geom st"
  shows "unat ((((h + p) AND ht_mask st) - e_hash (ht_slots st ! ((unat h + unat p) mod length (ht_slots st)))) AND ht_mask st) =
    dist (ht_slots st) ((unat h + unat p) mod length (ht_slots st))"
proof -
  have "(unat h + unat p) mod length (ht_slots st) < length (ht_slots st)"
    using mask_mod(3) [OF assms] by (intro mod_less_divisor) linarith
  then show ?thesis by (subst probe_distance [OF g]) (simp_all add: probe_index [OF g] dist_def)
qed

subsection \<open>Search\<close>

lemma less_Suc_all: "(\<forall>j < Suc n. P j) \<longleftrightarrow> (\<forall>j < n. P j) \<and> P n"
  by (auto simp: less_Suc_eq)

lemma probe_path_Suc:
  "probe_path T h (Suc p) \<longleftrightarrow> probe_path T h p \<and> occ T ((h + p) mod length T) \<and> p \<le> dist T ((h + p) mod length T)"
  by (auto simp: probe_path_def less_Suc_all)

lemma probe_Suc_word:
  assumes g: "ht_geom st" and p: "unat (p :: size_t) < length (ht_slots st)"
  shows "unat (p + 1) = Suc (unat p)"
  using mask_mod(4) [OF g] p by (subst unat_add_exact) auto

lemma find_entry1_loop_ok:
  assumes g: "ht_geom st" and z: "z < length (ht_slots st)" "\<not> occ (ht_slots st) z"
  shows "probe_path (ht_slots st) (unat h) (unat p) \<Longrightarrow>
    \<forall>j < unat p. \<not> hit st h key ((unat h + j) mod length (ht_slots st)) \<Longrightarrow>
    length (ht_slots st) - unat p < fuel \<Longrightarrow>
    \<exists>r. find_entry1_loop fuel st h key p = Inr r \<and> find_result st h key r"
proof (induction fuel arbitrary: p)
  case (Suc fuel)
  let ?T = "ht_slots st" and ?i = "(unat h + unat p) mod length (ht_slots st)"
  have pl: "unat p < length ?T" by (rule path_not_full [OF Suc.prems(1) z])
  have loop: "find_entry1_loop (Suc fuel) st h key p =
      (if \<not> occ ?T ?i then Inr (False, (h + p) AND ht_mask st, p)
       else if hit st h key ?i then Inr (True, (h + p) AND ht_mask st, p)
       else if dist ?T ?i < unat p then Inr (False, (h + p) AND ht_mask st, p)
       else find_entry1_loop fuel st h key (p + 1))"
    by (simp add: Let_def slot_get_probe [OF g] word_less_nat_alt probe_dist [OF g])
  show ?case
  proof (cases "occ ?T ?i \<and> \<not> hit st h key ?i \<and> unat p \<le> dist ?T ?i")
    case True
    then have go: "find_entry1_loop (Suc fuel) st h key p = find_entry1_loop fuel st h key (p + 1)"
      unfolding loop by auto
    show ?thesis unfolding go
      by (rule Suc.IH) (use Suc.prems True pl in \<open>auto simp: probe_Suc_word [OF g pl] probe_path_Suc less_Suc_all\<close>)
  next
    case False
    then consider "\<not> occ ?T ?i" | "occ ?T ?i" "hit st h key ?i" | "occ ?T ?i" "\<not> hit st h key ?i" "dist ?T ?i < unat p"
      by linarith
    then show ?thesis
    proof cases
      case 2
      then have "find_entry1_loop (Suc fuel) st h key p = Inr (True, (h + p) AND ht_mask st, p)"
        unfolding loop by simp
      then show ?thesis using Suc.prems(1,2) 2
        by (intro exI [of _ "(True, (h + p) AND ht_mask st, p)"]) (simp add: find_result_def probe_index [OF g])
    next
      case 1
      then have "find_entry1_loop (Suc fuel) st h key p = Inr (False, (h + p) AND ht_mask st, p)"
        unfolding loop by simp
      then show ?thesis using Suc.prems(1,2) 1
        by (intro exI [of _ "(False, (h + p) AND ht_mask st, p)"]) (simp add: find_result_def probe_index [OF g])
    next
      case 3
      then have "find_entry1_loop (Suc fuel) st h key p = Inr (False, (h + p) AND ht_mask st, p)"
        unfolding loop by simp
      then show ?thesis using Suc.prems(1,2) 3
        by (intro exI [of _ "(False, (h + p) AND ht_mask st, p)"]) (simp add: find_result_def probe_index [OF g])
    qed
  qed
qed simp

lemma s_find_entry_ok:
  assumes g: "ht_geom st" and z: "z < length (ht_slots st)" "\<not> occ (ht_slots st) z" and h: "h \<noteq> 0"
  obtains r where "s_find_entry st h key = Inr r" "find_result st h key r"
proof -
  let ?T = "ht_slots st" and ?i = "unat h mod length (ht_slots st)"
  have s: "slot_get st (h AND ht_mask st) = Inr (?T ! ?i)" "unat (h AND ht_mask st) = ?i"
    using slot_get_probe [OF g, of h 0] mask_mod(1) [OF g] by simp_all
  have step: "s_find_entry st h key =
      (if \<not> occ ?T ?i then Inr (False, h AND ht_mask st, 0)
       else if hit st h key ?i then Inr (True, h AND ht_mask st, 0) else s_find_entry1 st h key)"
    by (simp add: s_find_entry_def Let_def s)
  show thesis
  proof (cases "occ ?T ?i \<and> \<not> hit st h key ?i")
    case True
    have "\<exists>r. find_entry1_loop (unat (ht_size st) + 1) st h key 1 = Inr r \<and> find_result st h key r"
      by (rule find_entry1_loop_ok [OF g z]) (use True g in \<open>auto simp: probe_path_def ht_geom_def\<close>)
    then show ?thesis using that True step by (auto simp: s_find_entry1_def)
  next
    case False
    then show ?thesis using that step s(2) by (auto simp: find_result_def probe_path_def split: if_splits)
  qed
qed

subsection \<open>Contents and invariant\<close>

lemma same_fns_keys:
  assumes "same_fns st st'"
  shows "s_hash_for st' = s_hash_for st" "s_hash_keys_eq st' = s_hash_keys_eq st" "ht_fns_ok st' = ht_fns_ok st"
    "keys_distinct st' = keys_distinct st" "hashes_ok st' = hashes_ok st"
proof -
  have e: "ht_hash_fn st' = ht_hash_fn st" "ht_equals_fn st' = ht_equals_fn st"
    using assms by (simp_all add: same_fns_def)
  show h: "s_hash_for st' = s_hash_for st" and k: "s_hash_keys_eq st' = s_hash_keys_eq st"
    by (simp_all add: s_hash_for_def [abs_def] s_hash_keys_eq_def [abs_def] e)
  show "ht_fns_ok st' = ht_fns_ok st" "keys_distinct st' = keys_distinct st" "hashes_ok st' = hashes_ok st"
    by (simp_all add: ht_fns_ok_def keys_distinct_def [abs_def] hashes_ok_def [abs_def] e h k)
qed

lemma same_fns_refl [simp]: "same_fns st st"
  by (simp add: same_fns_def)

lemma same_fns_trans: "same_fns a b \<Longrightarrow> same_fns b c \<Longrightarrow> same_fns a c"
  by (simp add: same_fns_def)

lemma hash_for_nonzero: "s_hash_for st key \<noteq> 0"
  by (auto simp: s_hash_for_def Let_def split: option.splits)

lemma keys_eq_equiv:
  assumes "ht_fns_ok st"
  shows "s_hash_keys_eq st a a" "s_hash_keys_eq st a b \<Longrightarrow> s_hash_keys_eq st b a"
    "s_hash_keys_eq st a b \<Longrightarrow> s_hash_keys_eq st b c \<Longrightarrow> s_hash_keys_eq st a c"
    "s_hash_keys_eq st a b \<Longrightarrow> s_hash_for st a = s_hash_for st b"
proof -
  note f = assms [unfolded ht_fns_ok_def]
  have eq: "s_hash_keys_eq st a b \<longleftrightarrow> a = b \<or> (\<exists>x y. a = Some x \<and> b = Some y \<and> ht_equals_fn st x y)" for a b
    by (cases a; cases b) (auto simp: s_hash_keys_eq_def s_safe_eq_check_def)
  show "s_hash_keys_eq st a a" by (simp add: eq)
  show "s_hash_keys_eq st a b \<Longrightarrow> s_hash_keys_eq st b a" unfolding eq using f by blast
  show "s_hash_keys_eq st a b \<Longrightarrow> s_hash_keys_eq st b c \<Longrightarrow> s_hash_keys_eq st a c"
    unfolding eq using f by (metis option.inject)
  show "s_hash_for st a = s_hash_for st b" if "s_hash_keys_eq st a b"
  proof -
    consider "a = b" | x y where "a = Some x" "b = Some y" "ht_equals_fn st x y" using \<open>s_hash_keys_eq st a b\<close> eq by blast
    then show ?thesis
    proof cases
      case 2
      then have "ht_hash_fn st x = ht_hash_fn st y" using f by blast
      with 2 show ?thesis by (simp add: s_hash_for_def)
    qed simp
  qed
qed

lemma in_ents: "e \<in># ents T \<longleftrightarrow> (\<exists>i < length T. T ! i = e \<and> occ T i)"
  by (auto simp: ents_def in_set_conv_nth)

lemma ents_update:
  assumes "i < length T"
  shows "ents (T[i := e]) = (if e_hash e \<noteq> 0 then {#e#} else {#}) + (ents T - (if occ T i then {#T ! i#} else {#}))"
proof -
  have m: "mset (T[i := e]) = add_mset e (mset T - {#T ! i#})" by (rule mset_update [OF assms])
  have "T ! i \<in># mset T" using assms by simp
  then obtain M where "mset T = add_mset (T ! i) M" by (metis multi_member_split)
  then show ?thesis unfolding ents_def mset_filter m by simp
qed

lemma size_ents_less:
  assumes "size (ents T) < length T" obtains z where "z < length T" "\<not> occ T z"
proof -
  have "\<exists>x \<in> set T. e_hash x = 0"
  proof (rule ccontr)
    assume "\<not> (\<exists>x \<in> set T. e_hash x = 0)"
    then have "filter (\<lambda>e. e_hash e \<noteq> 0) T = T" by (simp add: filter_id_conv)
    with assms show False by (simp add: ents_def)
  qed
  with that show thesis by (auto simp: in_set_conv_nth)
qed

lemma fraction_less: "c < q \<Longrightarrow> 0 < n \<Longrightarrow> c * n div q < (n :: nat)"
  by (rule less_mult_imp_div_less) (simp add: mult.commute)

lemma load_limit_bounds:
  assumes "2 \<le> sz" "unat sz \<le> 2 ^ 63"
  shows "load_limit sz < sz" "unat (load_limit sz) < unat sz" "unat (load_limit sz) = 8556839292003942 * unat sz div 2 ^ 53"
proof -
  have lt: "8556839292003942 * unat sz div 2 ^ 53 < unat sz"
    by (rule fraction_less) (use assms(1) in \<open>simp_all add: word_le_nat_alt\<close>)
  have "8556839292003942 * uint sz div 2 ^ 53 = int (8556839292003942 * unat sz div 2 ^ 53)" by (simp add: zdiv_int)
  then have "load_limit sz = word_of_nat (8556839292003942 * unat sz div 2 ^ 53)"
    by (simp only: load_limit_def of_int_of_nat_eq)
  moreover have "8556839292003942 * unat sz div 2 ^ 53 < 2 ^ LENGTH(64)"
    using less_trans [OF lt, of "2 ^ 64"] by simp
  ultimately show e: "unat (load_limit sz) = 8556839292003942 * unat sz div 2 ^ 53" using unat_word_of_nat by metis
  then show "unat (load_limit sz) < unat sz" using lt by simp
  then show "load_limit sz < sz" by (simp add: word_less_nat_alt)
qed

lemma ht_geom_size:
  assumes "ht_geom st" shows "2 \<le> ht_size st" "unat (ht_size st) \<le> 2 ^ 63" "unat (ht_size st) = length (ht_slots st)"
  using assms mask_mod(4) [OF assms] by (auto simp: ht_geom_def)

lemma ht_invD:
  assumes "ht_inv st"
  shows "ht_geom st" "rh (ht_slots st)" "ht_fns_ok st" "keys_distinct st (ents (ht_slots st))"
    "hashes_ok st (ents (ht_slots st))" "unat (ht_entry_count st) = size (ents (ht_slots st))"
    "size (ents (ht_slots st)) < length (ht_slots st)" "ht_max_load st = load_limit (ht_size st)"
    "ht_entry_count st \<le> ht_max_load st"
proof -
  show inv: "ht_geom st" "rh (ht_slots st)" "ht_fns_ok st" "keys_distinct st (ents (ht_slots st))"
    "hashes_ok st (ents (ht_slots st))" "unat (ht_entry_count st) = size (ents (ht_slots st))"
    "ht_max_load st = load_limit (ht_size st)" "ht_entry_count st \<le> ht_max_load st"
    using assms unfolding ht_inv_def by blast+
  then show "size (ents (ht_slots st)) < length (ht_slots st)"
    using load_limit_bounds(2) [of "ht_size st"] ht_geom_size [OF inv(1)] by (simp add: word_le_nat_alt)
qed

lemma ht_inv_valid:
  assumes "ht_inv st" shows "hash_table_state_is_valid st"
proof -
  note i = ht_invD [OF assms]
  have "load_limit (ht_size st) < ht_size st" by (rule load_limit_bounds(1) [OF ht_geom_size(1,2) [OF i(1)]])
  then show ?thesis using i(1,8,9) unfolding hash_table_state_is_valid_def ht_geom_def by metis
qed

lemma nth_filter_mset: "i < length T \<Longrightarrow> occ T i \<Longrightarrow> T ! i \<in># ents T"
  by (auto simp: in_ents)

subsection \<open>Lookup\<close>

lemma s_find_entry_spec:
  assumes inv: "ht_inv st"
  obtains r where "s_find_entry st (s_hash_for st key) key = Inr r" "find_spec st key r"
proof -
  let ?T = "ht_slots st" and ?h = "s_hash_for st key"
  note i = ht_invD [OF inv]
  obtain z where z: "z < length ?T" "\<not> occ ?T z" using size_ents_less [OF i(7)] .
  obtain r where r: "s_find_entry st ?h key = Inr r" "find_result st ?h key r"
    by (rule s_find_entry_ok [OF i(1) z hash_for_nonzero])
  obtain found idx p where rr: "r = (found, idx, p)" by (cases r)
  have res: "unat idx = (unat ?h + unat p) mod length ?T" "probe_path ?T (unat ?h) (unat p)"
    "\<forall>j < unat p. \<not> hit st ?h key ((unat ?h + j) mod length ?T)"
    "if found then occ ?T (unat idx) \<and> hit st ?h key (unat idx)
      else \<not> occ ?T (unat idx) \<or> dist ?T (unat idx) < unat p \<and> \<not> hit st ?h key (unat idx)"
    using r(2) unfolding find_result_def rr prod.case by blast+
  have il: "unat idx < length ?T" using res(1) z(1) by (metis less_nat_zero_code mod_less_divisor neq0_conv)
  have miss: "\<not> s_hash_keys_eq st key (e_key e)" if nf: "\<not> found" and e: "e \<in># ents ?T" for e
  proof
    assume eq: "s_hash_keys_eq st key (e_key e)"
    obtain k where k: "k < length ?T" "?T ! k = e" "occ ?T k" using e by (auto simp: in_ents)
    have he: "e_hash e = ?h" using i(5) e keys_eq_equiv(4) [OF i(3) eq] by (auto simp: hashes_ok_def)
    have stop: "\<not> occ ?T ((unat ?h + unat p) mod length ?T) \<or> dist ?T ((unat ?h + unat p) mod length ?T) < unat p"
      using res(4) nf unfolding res(1) by presburger
    have hk: "unat ?h = unat (e_hash (?T ! k))" by (simp add: k(2) he)
    note c = search_complete [OF i(2) k(1,3) hk stop]
    have "hit st ?h key ((unat ?h + dist ?T k) mod length ?T)" unfolding c(2) k(2) using he eq by blast
    then show False using res(3) c(1) by blast
  qed
  have "find_spec st key r"
    using il res(2,4) miss path_not_full [OF res(2) z] by (cases found) (simp_all add: find_spec_def rr hash_for_nonzero)
  with r(1) show thesis by (rule that)
qed

subsection \<open>Insertion\<close>

lemma carry_pre:
  assumes c: "carry_ok T h p" and a: "a < length T" "nxt (length T) a = (h + p) mod length T" "0 < p"
  shows "occ T a \<and> p \<le> Suc (dist T a)"
proof -
  have "nxt (length T) ((h + (p - 1)) mod length T) = nxt (length T) a" using nxt_mod [of "length T" h "p - 1"] a(2,3) by simp
  then have "(h + (p - 1)) mod length T = a" by (rule nxt_inj) (use a(1) in \<open>auto intro: mod_less_divisor\<close>)
  then show ?thesis using c a(3) by (auto simp: carry_ok_def)
qed

lemma carry_place:
  assumes rh: "rh T" and n: "2 \<le> length T" and c: "carry_ok T (unat (e_hash e)) p" and e: "e_hash e \<noteq> 0"
    and i: "i = (unat (e_hash e) + p) mod length T" and win: "\<not> occ T i \<or> dist T i < p"
  shows "rh (T[i := e])" "dist (T[i := e]) i = p"
proof -
  have p: "p < length T" using c by (simp add: carry_ok_def)
  have il: "i < length T" unfolding i by (rule mod_less_divisor) (use n in linarith)
  have d: "dst (length T) i (unat (e_hash e)) = p" using dst_unique [OF p] by (simp add: i)
  show "dist (T[i := e]) i = p" using il d by (simp add: dist_update_same)
  show "rh (T[i := e])"
    by (rule rh_place [OF rh n il e d [symmetric]]) (use carry_pre [OF c] i win in auto)
qed

lemma carry_step:
  assumes rh: "rh T" and z: "z < length T" "\<not> occ T z" and i: "i < length T" "occ T i" and p: "p \<le> dist T i"
    and ip: "i = (h + p) mod length T"
  shows "carry_ok T h (Suc p)"
  using dist_bound [OF rh i z] p i(2) by (simp add: carry_ok_def flip: ip)

lemma carry_swap:
  assumes rh: "rh T" and z: "z < length T" "\<not> occ T z" and i: "i < length T" "occ T i" and d: "dist T i < dist (T[i := e]) i"
    and e: "e_hash e \<noteq> 0"
  shows "carry_ok (T[i := e]) (unat (e_hash (T ! i))) (Suc (dist T i))"
proof -
  have "(unat (e_hash (T ! i)) + dist T i) mod length T = i" using add_dst [OF i(1)] by (simp add: dist_def)
  then show ?thesis using dist_bound [OF rh i z] d e i(1) by (simp add: carry_ok_def)
qed

lemma emplace_loop_unfold:
  assumes g: "ht_geom st" and e: "e_hash e \<noteq> 0" and i: "i = (unat (e_hash e) + unat p) mod length (ht_slots st)"
  shows "emplace_loop (Suc fuel) st e p rval =
    (if \<not> occ (ht_slots st) i \<or> dist (ht_slots st) i < unat p
     then emplace_loop fuel (st\<lparr>ht_slots := (ht_slots st)[i := e]\<rparr>) (ht_slots st ! i)
       ((((e_hash e + p) AND ht_mask st) - e_hash (ht_slots st ! i) AND ht_mask st) + 1)
       (case rval of None \<Rightarrow> Some ((e_hash e + p) AND ht_mask st) | Some s \<Rightarrow> Some s)
     else emplace_loop fuel st e (p + 1) rval)"
    and "unat (((e_hash e + p) AND ht_mask st) - e_hash (ht_slots st ! i) AND ht_mask st) = dist (ht_slots st) i"
    and "unat ((e_hash e + p) AND ht_mask st) = i"
  using e i by (simp_all add: Let_def slot_get_probe [OF g] word_less_nat_alt probe_dist [OF g] slot_set_def
      probe_index [OF g])

lemma geom_update: "ht_geom (st\<lparr>ht_slots := T\<rparr>) \<longleftrightarrow> (ht_geom st \<and> length T = length (ht_slots st)) \<or>
    (length T = unat (ht_size st) \<and> length (ht_slots st) \<noteq> unat (ht_size st) \<and> 2 \<le> ht_size st \<and>
     aws_is_power_of_two (ht_size st) \<and> ht_mask st = ht_size st - 1)"
  by (auto simp: ht_geom_def)

lemma emplace_loop_done:
  "e_hash e = 0 \<Longrightarrow> 0 < fuel \<Longrightarrow> emplace_loop fuel st e p rval = Inr (rval, st)"
  by (cases fuel) auto

lemma ahead_shift:
  assumes "(i + g) mod n \<noteq> (i :: nat)" "i < n" obtains g' where "g = Suc g'" "(nxt n i + g') mod n = (i + g) mod n"
proof (cases g)
  case (Suc g')
  then show thesis using that [of g'] by (simp add: nxt_def mod_add_left_eq)
qed (use assms in simp)

lemma emplacedI:
  assumes "emplaced (st\<lparr>ht_slots := T1\<rparr>) v i' g' rval1 r" "length T1 = length (ht_slots st)"
    and "add_mset v (ents T1) = add_mset e (ents (ht_slots st))"
    and fr: "\<And>k. k < length T1 \<Longrightarrow> (\<forall>j \<le> g. k \<noteq> (i + j) mod length T1) \<Longrightarrow>
      T1 ! k = ht_slots st ! k \<and> (\<forall>j \<le> g'. k \<noteq> (i' + j) mod length T1)"
    and rv: "case rval of Some s \<Rightarrow> rval1 = Some s
      | None \<Rightarrow> rval1 = None \<and> v = e \<or> (\<exists>s. rval1 = Some s \<and> unat s < length T1 \<and> T1 ! unat s = e \<and>
          (\<forall>j \<le> g'. unat s \<noteq> (i' + j) mod length T1))"
  shows "emplaced st e i g rval r"
proof -
  obtain w T' where r: "r = (w, st\<lparr>ht_slots := T'\<rparr>)" "length T' = length T1" "rh T'" "ents T' = add_mset v (ents T1)"
    "\<forall>k < length T'. (\<forall>j \<le> g'. k \<noteq> (i' + j) mod length T') \<longrightarrow> T' ! k = T1 ! k"
    "case rval1 of Some s \<Rightarrow> w = Some s | None \<Rightarrow> (\<exists>s. w = Some s \<and> unat s < length T' \<and> T' ! unat s = v)"
    using assms(1) unfolding emplaced_def by auto
  have rw: "case rval of Some s \<Rightarrow> w = Some s | None \<Rightarrow> (\<exists>s. w = Some s \<and> unat s < length T' \<and> T' ! unat s = e)"
    using rv r(2,5,6) by (auto split: option.splits)
  have "\<forall>k < length T'. (\<forall>j \<le> g. k \<noteq> (i + j) mod length T') \<longrightarrow> T' ! k = ht_slots st ! k"
    using fr r(2,5) by metis
  then show ?thesis unfolding emplaced_def using r assms(2,3) rw by (intro exI [of _ w] exI [of _ T']) simp
qed

lemma ahead_self: "i < n \<Longrightarrow> \<forall>j \<le> g. k \<noteq> (i + j) mod n \<Longrightarrow> k \<noteq> (i :: nat)"
  by (metis add.right_neutral le0 mod_less)

lemma ahead_next: "\<forall>j \<le> Suc g. k \<noteq> (i + j) mod n \<Longrightarrow> j \<le> g \<Longrightarrow> k \<noteq> (nxt n i + j) mod n"
  by (drule spec [of _ "Suc j"]) (simp add: nxt_def mod_add_left_eq)

lemma ahead_new:
  assumes "i < n" "Suc g < n" "j \<le> g" shows "i \<noteq> (nxt n i + j) mod n"
proof
  assume "i = (nxt n i + j) mod n"
  then have "(i + 0) mod n = (i + Suc j) mod n" using assms(1) by (simp add: nxt_def mod_add_left_eq)
  then have "0 = Suc j" by (rule mod_add_cancel) (use assms in auto)
  then show False by simp
qed

lemma emplaced_empty:
  assumes "rh ((ht_slots st)[i := e])" "e_hash e \<noteq> 0" "unat w = i" "i < length (ht_slots st)" "\<not> occ (ht_slots st) i"
  shows "emplaced st e i g rval (case rval of None \<Rightarrow> Some w | Some s \<Rightarrow> Some s, st\<lparr>ht_slots := (ht_slots st)[i := e]\<rparr>)"
  unfolding emplaced_def
proof (intro exI conjI)
  show "\<forall>k < length ((ht_slots st)[i := e]). (\<forall>j \<le> g. k \<noteq> (i + j) mod length ((ht_slots st)[i := e])) \<longrightarrow>
      (ht_slots st)[i := e] ! k = ht_slots st ! k"
  proof (intro allI impI)
    fix k assume "\<forall>j \<le> g. k \<noteq> (i + j) mod length ((ht_slots st)[i := e])"
    then have "k \<noteq> i" using ahead_self [OF assms(4)] by simp
    then show "(ht_slots st)[i := e] ! k = ht_slots st ! k" by simp
  qed
qed (use assms in \<open>auto simp: ents_update split: option.split\<close>)

lemma emplaced_swap:
  assumes r: "emplaced (st\<lparr>ht_slots := (ht_slots st)[i := e]\<rparr>) (ht_slots st ! i) (nxt (length (ht_slots st)) i) g
      (case rval of None \<Rightarrow> Some w | Some s \<Rightarrow> Some s) r"
    and e: "e_hash e \<noteq> 0" and w: "unat w = i" and i: "i < length (ht_slots st)" "occ (ht_slots st) i"
    and g: "Suc g < length (ht_slots st)"
  shows "emplaced st e i (Suc g) rval r"
proof (rule emplacedI [OF r])
  let ?T = "ht_slots st" and ?n = "length (ht_slots st)"
  show "add_mset (?T ! i) (ents (?T[i := e])) = add_mset e (ents ?T)"
    using nth_filter_mset [OF i] e i by (simp add: ents_update)
  show "?T[i := e] ! k = ?T ! k \<and> (\<forall>j \<le> g. k \<noteq> (nxt ?n i + j) mod length (?T[i := e]))"
    if "\<forall>j \<le> Suc g. k \<noteq> (i + j) mod length (?T[i := e])" for k
    using that ahead_self [OF i(1), of "Suc g" k] ahead_next [of g k i ?n] by simp
  show "case rval of Some s \<Rightarrow> (case rval of None \<Rightarrow> Some w | Some s \<Rightarrow> Some s) = Some s
    | None \<Rightarrow> (case rval of None \<Rightarrow> Some w | Some s \<Rightarrow> Some s) = None \<and> ?T ! i = e \<or>
      (\<exists>s. (case rval of None \<Rightarrow> Some w | Some s \<Rightarrow> Some s) = Some s \<and> unat s < length (?T[i := e]) \<and>
        ?T[i := e] ! unat s = e \<and> (\<forall>j \<le> g. unat s \<noteq> (nxt ?n i + j) mod length (?T[i := e])))"
    using i(1) w ahead_new [OF i(1) g] by (auto split: option.split)
qed simp

lemma emplaced_skip:
  assumes r: "emplaced st e (nxt (length (ht_slots st)) i) g rval r" and i: "i < length (ht_slots st)"
  shows "emplaced st e i (Suc g) rval r"
proof (rule emplacedI [where ?T1.0 = "ht_slots st"])
  show "emplaced (st\<lparr>ht_slots := ht_slots st\<rparr>) e (nxt (length (ht_slots st)) i) g rval r" using r by simp
  show "ht_slots st ! k = ht_slots st ! k \<and> (\<forall>j \<le> g. k \<noteq> (nxt (length (ht_slots st)) i + j) mod length (ht_slots st))"
    if "\<forall>j \<le> Suc g. k \<noteq> (i + j) mod length (ht_slots st)" for k
    using ahead_next [OF that] by auto
qed (auto split: option.split)

lemma emplace_loop_ok:
  assumes "ht_geom st" "rh (ht_slots st)" "e_hash e \<noteq> 0" "carry_ok (ht_slots st) (unat (e_hash e)) (unat p)"
    "i = (unat (e_hash e) + unat p) mod length (ht_slots st)"
    "\<not> occ (ht_slots st) ((i + g) mod length (ht_slots st))" "g < length (ht_slots st)" "Suc g < fuel"
  shows "\<exists>r. emplace_loop fuel st e p rval = Inr r \<and> emplaced st e i g rval r"
  using assms
proof (induction fuel arbitrary: st e p rval i g)
  case (Suc fuel)
  let ?T = "ht_slots st" and ?n = "length (ht_slots st)"
  note geo = Suc.prems(1) and m = mask_mod [OF Suc.prems(1)]
  note un = emplace_loop_unfold [OF geo Suc.prems(3,5)]
  note pl = carry_place [OF Suc.prems(2) m(3) Suc.prems(4,3,5)]
  have n0: "0 < ?n" using m(3) by linarith
  have il: "i < ?n" unfolding Suc.prems(5) by (rule mod_less_divisor [OF n0])
  define z where "z = (i + g) mod ?n"
  have z: "z < ?n" "\<not> occ ?T z" using Suc.prems(6) n0 by (auto simp: z_def)
  let ?w = "(e_hash e + p) AND ht_mask st"
  let ?rv = "case rval of None \<Rightarrow> Some ?w | Some s \<Rightarrow> Some s"
  consider (empty) "\<not> occ ?T i" | (swap) "occ ?T i" "dist ?T i < unat p" | (skip) "occ ?T i" "unat p \<le> dist ?T i" by linarith
  then show ?case
  proof cases
    case empty
    have "emplace_loop (Suc fuel) st e p rval = Inr (?rv, st\<lparr>ht_slots := ?T[i := e]\<rparr>)"
      unfolding un(1) using empty Suc.prems(8) by (simp add: emplace_loop_done)
    with emplaced_empty [OF pl(1) Suc.prems(3) un(3) il] empty show ?thesis by blast
  next
    case swap
    have zi: "(i + g) mod ?n \<noteq> i" using swap z by (auto simp: z_def)
    obtain g' where g': "g = Suc g'" "(nxt ?n i + g') mod ?n = (i + g) mod ?n" by (rule ahead_shift [OF zi il])
    let ?st = "st\<lparr>ht_slots := ?T[i := e]\<rparr>" and ?p = "(?w - e_hash (?T ! i) AND ht_mask st) + 1"
    have up: "unat ?p = Suc (dist ?T i)"
      using probe_Suc_word [OF geo, of "?w - e_hash (?T ! i) AND ht_mask st"] dist_bound [OF Suc.prems(2) il swap(1) z]
      by (simp add: un(2))
    have geo': "ht_geom ?st" using geo by (simp add: ht_geom_def)
    have nx: "nxt ?n i = (unat (e_hash (?T ! i)) + Suc (dist ?T i)) mod ?n"
      using add_dst [OF il] nxt_mod [of ?n "unat (e_hash (?T ! i))" "dist ?T i"] by (simp add: dist_def)
    have car: "carry_ok (?T[i := e]) (unat (e_hash (?T ! i))) (Suc (dist ?T i))"
      by (rule carry_swap [OF Suc.prems(2) z il swap(1) _ Suc.prems(3)]) (use pl(2) swap(2) in simp)
    obtain r where r: "emplace_loop fuel ?st (?T ! i) ?p ?rv = Inr r" "emplaced ?st (?T ! i) (nxt ?n i) g' ?rv r"
      using Suc.IH [OF geo', of "?T ! i" ?p "nxt ?n i" g' ?rv] pl(1) swap car up nx g' z zi Suc.prems(7,8)
      by (auto simp: z_def)
    moreover have "emplace_loop (Suc fuel) st e p rval = emplace_loop fuel ?st (?T ! i) ?p ?rv"
      unfolding un(1) using swap by simp
    ultimately show ?thesis using emplaced_swap [OF r(2) Suc.prems(3) un(3) il swap(1)] g'(1) Suc.prems(7) by auto
  next
    case skip
    have zi: "(i + g) mod ?n \<noteq> i" using skip z by (auto simp: z_def)
    obtain g' where g': "g = Suc g'" "(nxt ?n i + g') mod ?n = (i + g) mod ?n" by (rule ahead_shift [OF zi il])
    have up: "unat (p + 1) = Suc (unat p)"
      by (rule probe_Suc_word [OF geo]) (use Suc.prems(4) in \<open>simp add: carry_ok_def\<close>)
    have nx: "nxt ?n i = (unat (e_hash e) + Suc (unat p)) mod ?n" unfolding Suc.prems(5) by (rule nxt_mod)
    obtain r where r: "emplace_loop fuel st e (p + 1) rval = Inr r" "emplaced st e (nxt ?n i) g' rval r"
      using Suc.IH [OF geo Suc.prems(2,3), of "p + 1" "nxt ?n i" g' rval]
        carry_step [OF Suc.prems(2) z il skip Suc.prems(5)] up nx g' z zi Suc.prems(7,8)
      by (auto simp: z_def)
    moreover have "emplace_loop (Suc fuel) st e p rval = emplace_loop fuel st e (p + 1) rval"
      unfolding un(1) using skip by simp
    ultimately show ?thesis using emplaced_skip [OF r(2) il] g'(1) by auto
  qed
qed simp

lemma round_up_pow2:
  assumes "unat n = 2 ^ k" "k < 64" shows "aws_round_up_to_power_of_two n = Inr n"
proof -
  have "(2 :: nat) ^ k \<le> 2 ^ 63" using assms(2) by (intro power_increasing) auto
  then have "n \<le> SIZE_MAX_POWER_OF_TWO" using assms(1) by (simp add: word_le_nat_alt SIZE_MAX_POWER_OF_TWO_def)
  then have "aws_round_up_to_power_of_two n = Inr (if n = 0 then 1 else smear (n - 1) + 1)"
    by (auto simp: round_up_unfold not_less)
  then obtain r where r: "aws_round_up_to_power_of_two n = Inr r" by blast
  from round_up_spec [OF this] obtain j where j: "unat r = 2 ^ j" "unat n \<le> 2 ^ j" "\<forall>i. unat n \<le> 2 ^ i \<longrightarrow> j \<le> i" by blast
  then have "j \<le> k" "(2 :: nat) ^ k \<le> 2 ^ j" using assms(1) by auto
  then have "j = k" by (simp add: power_increasing_iff)
  then show ?thesis using r j(1) assms(1) by (simp add: word_unat_eq_iff)
qed

lemma path_carry:
  assumes "probe_path T h p" "p < length T" shows "carry_ok T h p"
proof (cases p)
  case (Suc q)
  then have "occ T ((h + q) mod length T) \<and> q \<le> dist T ((h + q) mod length T)" using assms(1) by (simp add: probe_path_def)
  then show ?thesis using Suc assms(2) by (simp add: carry_ok_def)
qed (use assms(2) in \<open>simp add: carry_ok_def\<close>)

lemma s_emplace_item_ok:
  assumes geo: "ht_geom st" and rh: "rh (ht_slots st)" and e: "e_hash e \<noteq> 0"
    and path: "probe_path (ht_slots st) (unat (e_hash e)) (unat p)" "unat p < length (ht_slots st)"
    and free: "size (ents (ht_slots st)) < length (ht_slots st)"
  obtains s T where "s_emplace_item st e p = Inr (Some s, st\<lparr>ht_slots := T\<rparr>)" "length T = length (ht_slots st)" "rh T"
    "ents T = add_mset e (ents (ht_slots st))" "unat s < length T" "T ! unat s = e"
proof -
  let ?T = "ht_slots st" and ?n = "length (ht_slots st)"
  define i where "i = (unat (e_hash e) + unat p) mod ?n"
  obtain z where z: "z < ?n" "\<not> occ ?T z" using size_ents_less [OF free] .
  have n0: "0 < ?n" using z(1) by linarith
  have g: "(i + dst ?n z i) mod ?n = z" "dst ?n z i < ?n" by (rule add_dst [OF z(1)]) (rule dst_less [OF n0])
  have "\<exists>r. emplace_loop (unat (ht_size st) + 1) st e p None = Inr r \<and> emplaced st e i (dst ?n z i) None r"
    by (rule emplace_loop_ok [OF geo rh e path_carry [OF path] i_def])
      (use g z ht_geom_size(3) [OF geo] in auto)
  then obtain r where r: "s_emplace_item st e p = Inr r" "emplaced st e i (dst ?n z i) None r"
    using e by (auto simp: s_emplace_item_def)
  then show thesis using that by (auto simp: emplaced_def)
qed

lemma expand_loop_ok:
  assumes "ht_geom st" "rh (ht_slots st)" "size (ents (ht_slots st)) + size (ents es) < length (ht_slots st)"
  shows "\<exists>T. expand_loop es st = Inr (st\<lparr>ht_slots := T\<rparr>) \<and> length T = length (ht_slots st) \<and> rh T \<and>
    ents T = ents es + ents (ht_slots st)"
  using assms
proof (induction es arbitrary: st)
  case Nil
  then show ?case by (intro exI [of _ "ht_slots st"]) (simp add: ents_def)
next
  case (Cons e es)
  show ?case
  proof (cases "e_hash e = 0")
    case True
    then show ?thesis using Cons by (simp add: ents_def)
  next
    case False
    have n0: "0 < length (ht_slots st)" using Cons.prems(3) by linarith
    have fr: "size (ents (ht_slots st)) < length (ht_slots st)" using Cons.prems(3) by linarith
    obtain s T where T: "s_emplace_item st e 0 = Inr (Some s, st\<lparr>ht_slots := T\<rparr>)" "length T = length (ht_slots st)" "rh T"
      "ents T = add_mset e (ents (ht_slots st))"
      by (rule s_emplace_item_ok [OF Cons.prems(1,2) False _ _ fr, of 0]) (use n0 in \<open>auto simp: probe_path_def\<close>)
    have e: "ents (e # es) = add_mset e (ents es)" using False by (simp add: ents_def)
    have "\<exists>T'. expand_loop es (st\<lparr>ht_slots := T\<rparr>) = Inr (st\<lparr>ht_slots := T\<rparr>\<lparr>ht_slots := T'\<rparr>) \<and>
        length T' = length (ht_slots (st\<lparr>ht_slots := T\<rparr>)) \<and> rh T' \<and> ents T' = ents es + ents (ht_slots (st\<lparr>ht_slots := T\<rparr>))"
      by (rule Cons.IH) (use Cons.prems T e in \<open>auto simp: ht_geom_def\<close>)
    then show ?thesis using T False e by auto
  qed
qed

lemma ents_replicate [simp]: "ents (replicate n empty_entry) = {#}"
  by (simp add: ents_def empty_entry_def)

lemma rh_replicate [simp]: "rh (replicate n empty_entry)"
proof -
  have "nxt n i < n" if "i < n" for i by (rule nxt_less) (use that in linarith)
  then show ?thesis by (simp add: rh_def rh_at_def Let_def empty_entry_def)
qed

lemma geom_pow2:
  assumes "ht_geom st" obtains k where "k < 64" "unat (ht_size st) = 2 ^ k" "0 < k"
proof -
  obtain k where k: "k < 64" "unat (ht_size st) = 2 ^ k"
    using assms is_power_of_two_iff by (auto simp: ht_geom_def)
  moreover have "2 \<le> unat (ht_size st)" using assms by (simp add: ht_geom_def word_le_nat_alt)
  ultimately show thesis using that [of k] by (cases "k = 0") simp_all
qed

text \<open>The size header that \<open>s_update_template_size\<close> computes for a power of two.\<close>

lemma update_template_pow2:
  assumes "unat sz = 2 ^ k" "k < 64" "0 < k"
  shows "s_update_template_size st sz = Inr (st\<lparr>ht_size := sz, ht_max_load := load_limit sz, ht_mask := sz - 1\<rparr>)"
proof -
  have p: "(2 :: nat) ^ 1 \<le> 2 ^ k" by (rule power_increasing) (use assms(3) in auto)
  have q: "(2 :: nat) ^ k \<le> 2 ^ 63" by (rule power_increasing) (use assms(2) in auto)
  have two: "2 \<le> sz" "unat sz \<le> 2 ^ 63" using assms(1) p q by (simp_all add: word_le_nat_alt)
  then have "\<not> sz < 2" "\<not> sz \<le> load_limit sz" using load_limit_bounds(1) [OF two] by auto
  then show ?thesis using round_up_pow2 [OF assms(1,2)] by (simp add: s_update_template_size_def Let_def)
qed

lemma required_bytes_eq:
  "hash_table_state_required_bytes sz =
     (if 24 * unat sz + 80 < 2 ^ 64 then Inr (sz * 24 + 80) else aws_raise_error AWS_ERROR_OVERFLOW_DETECTED)"
proof (cases "unat sz * 24 < 2 ^ 64")
  case True
  then have "unat (sz * 24) = unat sz * 24" by (subst unat_mul_exact) auto
  with True show ?thesis by (simp add: hash_table_state_required_bytes_def aws_mul_size_checked_eq aws_add_size_checked_eq mult.commute)
next
  case False
  then show ?thesis by (simp add: hash_table_state_required_bytes_def aws_mul_size_checked_eq)
qed

lemma s_expand_table_ok:
  assumes inv: "ht_inv st" and can: "can_double st"
  obtains st' where "s_expand_table st = Inr st'" "same_fns st st'" "ht_geom st'" "rh (ht_slots st')"
    "ents (ht_slots st') = ents (ht_slots st)" "ht_max_load st' = load_limit (ht_size st')"
    "unat (ht_size st') = 2 * unat (ht_size st)" "ht_entry_count st' = ht_entry_count st"
proof -
  note i = ht_invD [OF inv]
  let ?sz = "ht_size st * 2"
  obtain k where k: "k < 64" "unat (ht_size st) = 2 ^ k" "0 < k" by (rule geom_pow2 [OF i(1)])
  have fit: "2 * unat (ht_size st) < 2 ^ 63" "24 * (2 * unat (ht_size st)) + 80 < 2 ^ 64" using can by (auto simp: can_double_def)
  have usz: "unat ?sz = 2 * unat (ht_size st)" using fit(1) by (subst unat_mul_exact) auto
  have k1: "unat ?sz = 2 ^ Suc k" using usz k(2) by simp
  have "(2 :: nat) ^ Suc k < 2 ^ 63" using fit(1) k(2) by simp
  then have "Suc k < 63" by (rule power_less_imp_less_exp [rotated]) simp
  then have k2: "Suc k < 64" by simp
  define tmpl where "tmpl = st\<lparr>ht_size := ?sz, ht_max_load := load_limit ?sz, ht_mask := ?sz - 1\<rparr>"
  define new where "new = tmpl\<lparr>ht_slots := replicate (unat ?sz) empty_entry\<rparr>"
  have geo: "ht_geom new"
  proof -
    have "aws_is_power_of_two ?sz" using is_power_of_two_iff k1 k2 by blast
    moreover have "2 \<le> ?sz" using usz ht_geom_size(1) [OF i(1)] by (simp add: word_le_nat_alt)
    ultimately show ?thesis by (simp add: ht_geom_def new_def tmpl_def)
  qed
  have "\<exists>T. expand_loop (ht_slots st) new = Inr (new\<lparr>ht_slots := T\<rparr>) \<and> length T = length (ht_slots new) \<and> rh T \<and>
      ents T = ents (ht_slots st) + ents (ht_slots new)"
    by (rule expand_loop_ok [OF geo]) (use i(7) usz ht_geom_size(3) [OF i(1)] in \<open>auto simp: new_def\<close>)
  then obtain T where T: "expand_loop (ht_slots st) new = Inr (new\<lparr>ht_slots := T\<rparr>)" "length T = unat ?sz" "rh T"
    "ents T = ents (ht_slots st)" by (auto simp: new_def)
  have "s_expand_table st = Inr (new\<lparr>ht_slots := T\<rparr>)"
    using T(1) fit usz update_template_pow2 [OF k1 k2, of st]
    by (simp add: s_expand_table_def aws_mul_size_checked_eq s_alloc_state_def required_bytes_eq new_def tmpl_def)
  then show thesis
    by (rule that) (use geo T usz in \<open>auto simp: same_fns_def new_def tmpl_def ht_geom_def\<close>)
qed

lemma s_expand_table_err:
  assumes inv: "ht_inv st" and no: "\<not> can_double st"
  shows "s_expand_table st = aws_raise_error AWS_ERROR_OVERFLOW_DETECTED"
proof -
  note i = ht_invD [OF inv]
  obtain k where k: "k < 64" "unat (ht_size st) = 2 ^ k" "0 < k" by (rule geom_pow2 [OF i(1)])
  show ?thesis
  proof (cases "unat (ht_size st) * 2 < 2 ^ 64")
    case True
    then have usz: "unat (ht_size st * 2) = 2 ^ Suc k" using k(2) by (subst unat_mul_exact) auto
    have "(2 :: nat) ^ Suc k < 2 ^ 64" using True k(2) by simp
    then have k2: "Suc k < 64" by (rule power_less_imp_less_exp [rotated]) simp
    show ?thesis using True no usz k(2) update_template_pow2 [OF usz k2, of st]
      by (simp add: s_expand_table_def aws_mul_size_checked_eq s_alloc_state_def required_bytes_eq can_double_def)
  next
    case False
    then show ?thesis by (simp add: s_expand_table_def aws_mul_size_checked_eq)
  qed
qed

subsection \<open>Removal\<close>

lemma shifted_zero: "i < length T \<Longrightarrow> shifted T i 0 (T[i := empty_entry])"
  unfolding shifted_def by auto

lemma nxt_add: "(nxt n i + j) mod n = (i + Suc j) mod n"
  by (simp add: nxt_def mod_add_left_eq)

lemma ahead_neq:
  assumes "i < n" "Suc j < n" shows "(i + Suc j) mod n \<noteq> i"
proof
  assume "(i + Suc j) mod n = i"
  then have "(i + Suc j) mod n = (i + 0) mod n" using assms(1) by simp
  then have "Suc j = 0" by (rule mod_add_cancel) (use assms in auto)
  then show False by simp
qed

lemma shifted_step:
  assumes s: "shifted (T[i := T ! nxt (length T) i]) (nxt (length T) i) m T'" and i: "i < length T"
    and m: "Suc m < length T" and o: "occ T (nxt (length T) i)"
  shows "shifted T i (Suc m) T'"
proof -
  let ?n = "length T" and ?T1 = "T[i := T ! nxt (length T) i]"
  note f = s [unfolded shifted_def length_list_update nxt_add]
  have fr: "T' ! k = ?T1 ! k" if "k < ?n" "\<forall>j \<le> m. k \<noteq> (i + Suc j) mod ?n" for k using f that by blast
  have ne: "(i + Suc j) mod ?n \<noteq> i" if "Suc j < ?n" for j by (rule ahead_neq [OF i that])
  have "T' ! i = ?T1 ! i" by (rule fr [OF i]) (use ne m in \<open>metis le_less_trans less_eq_Suc_le Suc_le_mono\<close>)
  then have z: "T' ! ((i + 0) mod ?n) = T ! ((i + Suc 0) mod ?n)" using i by (simp add: nxt_def)
  have mv: "T' ! ((i + j) mod ?n) = T ! ((i + Suc j) mod ?n) \<and> occ T ((i + Suc j) mod ?n)" if "j < Suc m" for j
  proof (cases j)
    case (Suc j')
    have "T' ! ((i + Suc j') mod ?n) = ?T1 ! ((i + Suc (Suc j')) mod ?n)" "occ ?T1 ((i + Suc (Suc j')) mod ?n)"
      using f that Suc by auto
    moreover have "(i + Suc (Suc j')) mod ?n \<noteq> i" by (rule ne) (use that Suc m in simp)
    ultimately show ?thesis using Suc by simp
  qed (use z o in \<open>simp add: nxt_def\<close>)
  have keep: "T' ! k = T ! k" if k: "k < ?n" "\<forall>j \<le> Suc m. k \<noteq> (i + j) mod ?n" for k
  proof -
    have "k \<noteq> i" using k(2) i by (metis add.right_neutral le0 mod_less)
    moreover have "T' ! k = ?T1 ! k" by (rule fr [OF k(1)]) (use k(2) in auto)
    ultimately show ?thesis by simp
  qed
  show ?thesis unfolding shifted_def using f m mv keep by simp
qed

lemma nxt_word:
  assumes g: "ht_geom st" shows "unat ((w + 1) AND ht_mask st) = nxt (length (ht_slots st)) (unat w)"
  using probe_index [OF g, of w 1] by (simp add: nxt_def)

lemma home_word:
  assumes g: "ht_geom st" and j: "unat j < length (ht_slots st)"
  shows "e AND ht_mask st = j \<longleftrightarrow> dst (length (ht_slots st)) (unat j) (unat e) = 0"
  using mask_mod(1) [OF g, of e] dst_eq_0 [OF j, of "unat e"] by (simp add: word_unat_eq_iff)

lemma remove_loop_unfold:
  assumes g: "ht_geom st" and i: "unat w = i"
  shows "remove_loop (Suc fuel) st w =
    (let j = nxt (length (ht_slots st)) i in
     if \<not> occ (ht_slots st) j \<or> dist (ht_slots st) j = 0 then Inr (w, st\<lparr>ht_slots := (ht_slots st)[i := empty_entry]\<rparr>)
     else remove_loop fuel (st\<lparr>ht_slots := (ht_slots st)[i := ht_slots st ! j]\<rparr>) ((w + 1) AND ht_mask st))"
proof -
  have n0: "0 < length (ht_slots st)" using mask_mod(3) [OF g] by linarith
  have j: "unat ((w + 1) AND ht_mask st) = nxt (length (ht_slots st)) i" using nxt_word [OF g] i by simp
  have lt: "nxt (length (ht_slots st)) i < length (ht_slots st)" by (rule nxt_less [OF n0])
  then show ?thesis
    using home_word [OF g, of "(w + 1) AND ht_mask st"] j i
    by (simp add: Let_def slot_get_def slot_set_def dist_def)
qed

lemma remove_loop_ok:
  assumes "ht_geom st" "rh (ht_slots st)" "unat w = i" "i < length (ht_slots st)" "occ (ht_slots st) i"
    "\<not> occ (ht_slots st) ((i + g) mod length (ht_slots st))" "g < length (ht_slots st)" "g \<le> fuel"
  shows "\<exists>r. remove_loop fuel st w = Inr r \<and> (\<exists>m < g. unat (fst r) = (i + m) mod length (ht_slots st) \<and>
    (\<exists>T'. snd r = st\<lparr>ht_slots := T'\<rparr> \<and> shifted (ht_slots st) i m T' \<and> rh T' \<and>
      ents T' = ents (ht_slots st) - {#ht_slots st ! i#}))"
  using assms
proof (induction fuel arbitrary: st w i g)
  case 0
  then show ?case by simp
next
  case (Suc fuel)
  let ?T = "ht_slots st" and ?n = "length (ht_slots st)"
  let ?j = "nxt (length (ht_slots st)) i"
  note m = mask_mod [OF Suc.prems(1)]
  have n0: "0 < ?n" using m(3) by linarith
  have jl: "?j < ?n" "?j \<noteq> i" using nxt_less [OF n0] nxt_neq [OF m(3) Suc.prems(4)] by auto
  note un = remove_loop_unfold [OF Suc.prems(1,3), unfolded Let_def]
  have gi: "(i + g) mod ?n \<noteq> i" using Suc.prems(5,6) by auto
  obtain g' where g': "g = Suc g'" "(?j + g') mod ?n = (i + g) mod ?n" by (rule ahead_shift [OF gi Suc.prems(4)])
  show ?case
  proof (cases "\<not> occ ?T ?j \<or> dist ?T ?j = 0")
    case True
    have "rh (?T[i := empty_entry])" by (rule rh_clear [OF Suc.prems(2) m(3) Suc.prems(4) True])
    moreover have "ents (?T[i := empty_entry]) = ents ?T - {#?T ! i#}"
      using Suc.prems(4,5) by (simp add: ents_update empty_entry_def)
    ultimately show ?thesis unfolding un using True shifted_zero [OF Suc.prems(4)] Suc.prems(3,4) g'(1)
      by (intro exI [of _ "(w, st\<lparr>ht_slots := ?T[i := empty_entry]\<rparr>)"]) (auto intro!: exI [of _ 0])
  next
    case False
    let ?T1 = "?T[i := ?T ! ?j]"
    let ?st = "st\<lparr>ht_slots := ?T1\<rparr>"
    have rh1: "rh ?T1" by (rule rh_shift [OF Suc.prems(2) m(3) Suc.prems(4) refl]) (use False in auto)
    have uw: "unat ((w + 1) AND ht_mask st) = ?j" using nxt_word [OF Suc.prems(1)] Suc.prems(3) by simp
    have e1: "ents ?T1 - {#?T1 ! ?j#} = ents ?T - {#?T ! i#}"
      using False jl Suc.prems(4,5) by (simp add: ents_update)
    obtain r m1 T' where r: "remove_loop fuel ?st ((w + 1) AND ht_mask st) = Inr r" "m1 < g'"
      "unat (fst r) = (?j + m1) mod ?n" "snd r = st\<lparr>ht_slots := T'\<rparr>" "shifted ?T1 ?j m1 T'" "rh T'"
      "ents T' = ents ?T1 - {#?T1 ! ?j#}"
      using Suc.IH [of ?st "(w + 1) AND ht_mask st" ?j g'] Suc.prems(1) rh1 uw jl False g' gi Suc.prems(6,7,8)
      by (auto simp: ht_geom_def)
    have sh: "shifted ?T i (Suc m1) T'"
      by (rule shifted_step [OF r(5) Suc.prems(4)]) (use r(2) g'(1) Suc.prems(7) False in auto)
    show ?thesis unfolding un using False r sh e1 g'(1)
      by (intro exI [of _ r]) (auto simp: nxt_add intro!: exI [of _ "Suc m1"])
  qed
qed

lemma keys_distinct_mono: "keys_distinct st N \<Longrightarrow> M \<subseteq># N \<Longrightarrow> keys_distinct st M"
  unfolding keys_distinct_def by (meson subset_mset.order_trans)

lemma hashes_ok_mono: "hashes_ok st N \<Longrightarrow> M \<subseteq># N \<Longrightarrow> hashes_ok st M"
  unfolding hashes_ok_def by (meson mset_subset_eqD)

lemma s_remove_entry_ok:
  assumes inv: "ht_inv st" and i: "unat w < length (ht_slots st)" "occ (ht_slots st) (unat w)"
  obtains l st' m where "s_remove_entry st w = Inr (l, st')" "ht_inv st'" "same_fns st st'"
    "ents (ht_slots st') = ents (ht_slots st) - {#ht_slots st ! unat w#}" "ht_size st' = ht_size st"
    "shifted (ht_slots st) (unat w) m (ht_slots st')" "unat l = (unat w + m) mod length (ht_slots st)"
proof -
  let ?T = "ht_slots st" and ?st = "st\<lparr>ht_entry_count := ht_entry_count st - 1\<rparr>"
  note v = ht_invD [OF inv]
  obtain z where z: "z < length ?T" "\<not> occ ?T z" using size_ents_less [OF v(7)] .
  have n0: "0 < length ?T" using z(1) by linarith
  define g where "g = dst (length ?T) z (unat w)"
  have g: "(unat w + g) mod length ?T = z" "g < length ?T" using add_dst [OF z(1)] dst_less [OF n0] by (auto simp: g_def)
  have geo: "ht_geom ?st" using v(1) by (simp add: ht_geom_def)
  obtain r m T' where r: "s_remove_entry st w = Inr r" "unat (fst r) = (unat w + m) mod length ?T"
    "snd r = ?st\<lparr>ht_slots := T'\<rparr>" "shifted ?T (unat w) m T'" "rh T'" "ents T' = ents ?T - {#?T ! unat w#}"
    using remove_loop_ok [OF geo, of w "unat w" g "unat (ht_size st)"] v(2) i g z ht_geom_size(3) [OF v(1)]
    by (auto simp: s_remove_entry_def)
  have mem: "?T ! unat w \<in># ents ?T" by (rule nth_filter_mset [OF i])
  then have pos: "0 < size (ents ?T)" by (simp add: nonempty_has_size [symmetric]) auto
  have cnt: "unat (ht_entry_count st - 1) = size (ents ?T) - 1"
    using v(6) pos by (subst unat_minus_one) auto
  have le: "ht_entry_count st - 1 \<le> ht_max_load st" using v(9) cnt v(6) by (simp add: word_le_nat_alt)
  have sub: "keys_distinct st (ents T')" "hashes_ok st (ents T')"
    unfolding r(6) by (rule keys_distinct_mono [OF v(4)], simp) (rule hashes_ok_mono [OF v(5)], simp)
  have len: "length T' = length ?T" using r(4) by (simp add: shifted_def)
  have sf: "same_fns st (snd r)" by (simp add: r(3) same_fns_def)
  have "ht_inv (snd r)"
    unfolding ht_inv_def same_fns_keys [OF sf]
    using v(1,3,8) r(5,6) len le cnt sub mem by (simp add: r(3) ht_geom_def size_Diff_singleton)
  then show thesis using r sf by (intro that [of "fst r" "snd r" m]) (simp_all add: prod_eq_iff)
qed

lemma pair_subset: "{#e, f#} \<subseteq># M \<longleftrightarrow> e \<in># M \<and> f \<in># M - {#e#}"
  by (simp add: insert_subset_eq_iff)

lemma keys_distinct_add:
  assumes "ht_fns_ok st"
  shows "keys_distinct st (add_mset x M) \<longleftrightarrow> keys_distinct st M \<and> (\<forall>e \<in># M. \<not> s_hash_keys_eq st (e_key x) (e_key e))"
    (is "?L \<longleftrightarrow> ?R")
proof
  assume L: ?L
  show ?R
  proof
    show "keys_distinct st M" using L by (rule keys_distinct_mono) simp
    show "\<forall>e \<in># M. \<not> s_hash_keys_eq st (e_key x) (e_key e)" using L unfolding keys_distinct_def pair_subset by auto
  qed
next
  assume R: ?R
  show ?L
    unfolding keys_distinct_def pair_subset
  proof (intro allI impI, elim conjE)
    fix e f assume ef: "e \<in># add_mset x M" "f \<in># add_mset x M - {#e#}"
    show "\<not> s_hash_keys_eq st (e_key e) (e_key f)"
    proof (cases "e = x")
      case False
      then have e: "e \<in># M" and "add_mset x M - {#e#} = add_mset x (M - {#e#})" using ef(1) by auto
      then have "f = x \<or> f \<in># M - {#e#}" using ef(2) by auto
      then show ?thesis using R e keys_eq_equiv(2) [OF assms] unfolding keys_distinct_def pair_subset by blast
    qed (use ef R in auto)
  qed
qed

lemma rh_same_hashes:
  assumes "map e_hash T = map e_hash T'" shows "rh T = rh T'"
proof -
  have len: "length T = length T'" using assms by (metis length_map)
  have h: "e_hash (T ! i) = e_hash (T' ! i)" if "i < length T" for i using assms that len by (metis nth_map)
  have "nxt (length T) i < length T" if "i < length T" for i by (rule nxt_less) (use that in linarith)
  then show ?thesis using h by (simp add: rh_def rh_at_def Let_def dist_def flip: len)
qed

lemma load_limit_double:
  assumes "2 \<le> sz" "unat sz \<le> 2 ^ 63" "2 \<le> sz2" "unat sz2 \<le> 2 ^ 63" "unat sz2 = 2 * unat sz"
  shows "unat (load_limit sz) + 1 \<le> unat (load_limit sz2)"
proof -
  define n where "n = 8556839292003942 * unat sz"
  have n: "2 ^ 53 \<le> n" using assms(1) by (simp add: n_def word_le_nat_alt)
  have "n div 2 ^ 53 + 1 = (n + 2 ^ 53) div 2 ^ 53" by (simp add: div_add_self2)
  also have "\<dots> \<le> (n + n) div 2 ^ 53" using n by (intro div_le_mono) simp
  finally have "n div 2 ^ 53 + 1 \<le> (n + n) div 2 ^ 53" .
  moreover have "n + n = 8556839292003942 * unat sz2" using assms(5) by (simp add: n_def)
  ultimately show ?thesis using load_limit_bounds(3) assms by (simp add: n_def)
qed

subsection \<open>The operations on the contents\<close>

lemma find_cases:
  assumes inv: "ht_inv st"
  obtains (found) idx p where "s_find_entry st (s_hash_for st key) key = Inr (True, idx, p)"
      "unat idx < length (ht_slots st)" "occ (ht_slots st) (unat idx)"
      "s_hash_keys_eq st key (e_key (ht_slots st ! unat idx))"
      "ht_slots st ! unat idx \<in># ents (ht_slots st)" "\<not> key_absent st key"
  | (absent) idx p where "s_find_entry st (s_hash_for st key) key = Inr (False, idx, p)" "key_absent st key"
      "probe_path (ht_slots st) (unat (s_hash_for st key)) (unat p)" "unat p < length (ht_slots st)"
proof -
  obtain b idx p where r: "s_find_entry st (s_hash_for st key) key = Inr (b, idx, p)" "find_spec st key (b, idx, p)"
    by (rule s_find_entry_spec [OF inv, of key]) (metis prod_cases3)
  show thesis
  proof (cases b)
    case True
    then have f: "unat idx < length (ht_slots st)" "occ (ht_slots st) (unat idx)"
      "s_hash_keys_eq st key (e_key (ht_slots st ! unat idx))" using r(2) by (simp_all add: find_spec_def)
    moreover note nth_filter_mset [OF f(1,2)]
    ultimately show ?thesis using r(1) True f(3) by (intro found [of idx p]) (auto simp: key_absent_def)
  next
    case False
    then show ?thesis using r by (intro absent [of idx p]) (simp_all add: find_spec_def key_absent_def)
  qed
qed

text \<open>The state in which the new entry is placed: the table itself or its double.\<close>

lemma make_room:
  assumes inv: "ht_inv st" and r: "room_to_add st" and abs: "key_absent st key"
    and path: "probe_path (ht_slots st) (unat (s_hash_for st key)) (unat p)" "unat p < length (ht_slots st)"
  obtains st1 p1 where "(if ht_entry_count st + 1 > ht_max_load st
      then (case s_expand_table st of Inl e \<Rightarrow> Inl e | Inr s \<Rightarrow> Inr (s, 0)) else Inr (st, p)) = Inr (st1, p1)"
    "same_fns st st1" "ht_geom st1" "rh (ht_slots st1)" "ents (ht_slots st1) = ents (ht_slots st)"
    "ht_max_load st1 = load_limit (ht_size st1)" "ht_entry_count st1 = ht_entry_count st"
    "unat (ht_entry_count st) + 1 \<le> unat (ht_max_load st1)"
    "probe_path (ht_slots st1) (unat (s_hash_for st key)) (unat p1)" "unat p1 < length (ht_slots st1)"
proof -
  note v = ht_invD [OF inv]
  have c: "unat (ht_entry_count st + 1) = unat (ht_entry_count st) + 1"
    using v(6,7) mask_mod(4) [OF v(1)] by (subst unat_add_exact) auto
  show thesis
  proof (cases "ht_entry_count st + 1 > ht_max_load st")
    case False
    then show ?thesis using v path c by (intro that [of st p]) (simp_all add: word_less_nat_alt)
  next
    case True
    then have "can_double st" using r c by (auto simp: room_to_add_def word_less_nat_alt)
    from s_expand_table_ok [OF inv this]
    obtain s1 where s1: "s_expand_table st = Inr s1" "same_fns st s1" "ht_geom s1" "rh (ht_slots s1)"
      "ents (ht_slots s1) = ents (ht_slots st)" "ht_max_load s1 = load_limit (ht_size s1)"
      "unat (ht_size s1) = 2 * unat (ht_size st)" "ht_entry_count s1 = ht_entry_count st" .
    have "unat (load_limit (ht_size st)) + 1 \<le> unat (load_limit (ht_size s1))"
      by (rule load_limit_double [OF ht_geom_size(1,2) [OF v(1)] ht_geom_size(1,2) [OF s1(3)] s1(7)])
    then have "unat (ht_entry_count st) + 1 \<le> unat (ht_max_load s1)"
      using v(8,9) s1(6) by (simp add: word_le_nat_alt)
    moreover have "0 < length (ht_slots s1)" using mask_mod(3) [OF s1(3)] by linarith
    ultimately show ?thesis using True s1 by (intro that [of s1 0]) (auto simp: probe_path_def)
  qed
qed

lemma create_absent:
  assumes inv: "ht_inv st" and r: "room_to_add st" and abs: "key_absent st key"
  obtains s st' where "aws_hash_table_create (Some st) key = (Inr (Some s, True), Some st')" "ht_inv st'" "same_fns st st'"
    "ents (ht_slots st') = add_mset (new_entry st key None) (ents (ht_slots st))"
    "unat s < length (ht_slots st')" "ht_slots st' ! unat s = new_entry st key None"
proof (cases rule: find_cases [OF inv, of key])
  case (2 idx p)
  note v = ht_invD [OF inv]
  obtain st1 p1 where s1: "(if ht_entry_count st + 1 > ht_max_load st
      then (case s_expand_table st of Inl e \<Rightarrow> Inl e | Inr s \<Rightarrow> Inr (s, 0)) else Inr (st, p)) = Inr (st1, p1)"
    "same_fns st st1" "ht_geom st1" "rh (ht_slots st1)" "ents (ht_slots st1) = ents (ht_slots st)"
    "ht_max_load st1 = load_limit (ht_size st1)" "ht_entry_count st1 = ht_entry_count st"
    "unat (ht_entry_count st) + 1 \<le> unat (ht_max_load st1)"
    "probe_path (ht_slots st1) (unat (s_hash_for st key)) (unat p1)" "unat p1 < length (ht_slots st1)"
    by (rule make_room [OF inv r abs 2(3,4)])
  let ?s1 = "st1\<lparr>ht_entry_count := ht_entry_count st1 + 1\<rparr>" and ?e = "new_entry st key None"
  have c: "unat (ht_entry_count st + 1) = unat (ht_entry_count st) + 1"
    using v(6,7) mask_mod(4) [OF v(1)] by (subst unat_add_exact) auto
  have fits: "unat (ht_entry_count st) + 1 < 2 ^ 64" using v(6,7) mask_mod(4) [OF v(1)] by simp
  have lt: "unat (ht_max_load st1) < length (ht_slots st1)"
    using load_limit_bounds(2) [OF ht_geom_size(1,2) [OF s1(3)]] ht_geom_size(3) [OF s1(3)] by (simp add: s1(6))
  obtain s T where e: "s_emplace_item ?s1 ?e p1 = Inr (Some s, ?s1\<lparr>ht_slots := T\<rparr>)" "length T = length (ht_slots ?s1)"
    "rh T" "ents T = add_mset ?e (ents (ht_slots ?s1))" "unat s < length T" "T ! unat s = ?e"
    by (rule s_emplace_item_ok [of ?s1 ?e p1])
      (use s1 lt v(6) hash_for_nonzero in \<open>auto simp: ht_geom_def new_entry_def\<close>)
  let ?st = "?s1\<lparr>ht_slots := T\<rparr>"
  have sf: "same_fns st ?st" using s1(2) by (simp add: same_fns_def)
  have "keys_distinct st (ents T)" "hashes_ok st (ents T)"
    using v(4,5) abs e(4) s1(5) keys_distinct_add [OF v(3)]
    by (auto simp: key_absent_def hashes_ok_def new_entry_def)
  then have "ht_inv ?st"
    unfolding ht_inv_def same_fns_keys [OF sf] using s1 e v(3,6) c by (auto simp: ht_geom_def word_le_nat_alt)
  moreover have "aws_hash_table_create (Some st) key = (Inr (Some s, True), Some ?st)"
    using 2(1) s1(1) e(1) fits by (simp add: aws_hash_table_create_def Let_def aws_add_size_checked_eq new_entry_def)
  ultimately show thesis using e s1(5) sf by (intro that [of s ?st]) auto
qed (use abs in simp)

lemma ht_lookup_None: "ht_lookup st key = None \<longleftrightarrow> key_absent st key"
  by (auto simp: ht_lookup_def find_None_iff key_absent_def ents_def)

lemma ht_lookup_Some:
  assumes "ht_fns_ok st" "keys_distinct st (ents (ht_slots st))" "e \<in># ents (ht_slots st)" "s_hash_keys_eq st key (e_key e)"
  shows "ht_lookup st key = Some (e_value e)"
proof -
  have "\<not> key_absent st key" using assms(3,4) by (auto simp: key_absent_def)
  then obtain f where f: "List.find (\<lambda>e. e_hash e \<noteq> 0 \<and> s_hash_keys_eq st key (e_key e)) (ht_slots st) = Some f"
    by (auto simp: ht_lookup_def simp flip: ht_lookup_None)
  then have f': "f \<in># ents (ht_slots st)" "s_hash_keys_eq st key (e_key f)"
    by (auto simp: find_Some_iff ents_def)
  have "s_hash_keys_eq st (e_key e) (e_key f)" using keys_eq_equiv [OF assms(1)] assms(4) f'(2) by blast
  then have "\<not> {#e, f#} \<subseteq># ents (ht_slots st)" using assms(2) by (auto simp: keys_distinct_def)
  then have "f \<notin># ents (ht_slots st) - {#e#}" using assms(3) by (simp add: pair_subset)
  then have "f = e" using f'(1) by (metis insert_noteq_member multi_member_split assms(3) add_mset_remove_trivial)
  with f show ?thesis by (simp add: ht_lookup_def)
qed

text \<open>The lookup function of a table whose contents gain or lose an entry.\<close>

lemma lookup_add:
  assumes inv: "ht_inv st'" and sf: "same_fns st st'" and fns: "ht_fns_ok st"
    and e: "ents (ht_slots st') = add_mset x M"
    and M: "\<And>k. \<not> s_hash_keys_eq st (e_key x) k \<Longrightarrow>
      (\<forall>f \<in># M. s_hash_keys_eq st k (e_key f) \<longrightarrow> ht_lookup st k = Some (e_value f)) \<and>
      ((\<forall>f \<in># M. \<not> s_hash_keys_eq st k (e_key f)) \<longrightarrow> ht_lookup st k = None)"
  shows "ht_lookup st' k = (if s_hash_keys_eq st (e_key x) k then Some (e_value x) else ht_lookup st k)"
proof -
  note v = ht_invD [OF inv] and s = same_fns_keys [OF sf]
  show ?thesis
  proof (cases "s_hash_keys_eq st (e_key x) k")
    case True
    then have "s_hash_keys_eq st' k (e_key x)" using keys_eq_equiv(2) [OF fns] by (simp add: s)
    then show ?thesis using ht_lookup_Some [OF v(3,4), of x k] e True by simp
  next
    case False
    note m = M [OF False]
    have nx: "\<not> s_hash_keys_eq st k (e_key x)" using False keys_eq_equiv(2) [OF fns] by blast
    show ?thesis
    proof (cases "\<exists>f \<in># M. s_hash_keys_eq st k (e_key f)")
      case True
      then obtain f where f: "f \<in># M" "s_hash_keys_eq st k (e_key f)" by blast
      then have "ht_lookup st' k = Some (e_value f)" using ht_lookup_Some [OF v(3,4), of f k] e by (simp add: s)
      then show ?thesis using m f False by simp
    next
      case none: False
      then have "ht_lookup st' k = None" using nx e by (auto simp: ht_lookup_None key_absent_def s)
      then show ?thesis using m none False by auto
    qed
  qed
qed

lemma lookup_frame:
  assumes inv: "ht_inv st" and e: "ents (ht_slots st) = M + N" and N: "\<forall>f \<in># N. \<not> s_hash_keys_eq st k (e_key f)"
  shows "(\<forall>f \<in># M. s_hash_keys_eq st k (e_key f) \<longrightarrow> ht_lookup st k = Some (e_value f)) \<and>
      ((\<forall>f \<in># M. \<not> s_hash_keys_eq st k (e_key f)) \<longrightarrow> ht_lookup st k = None)"
proof (intro conjI ballI impI)
  note v = ht_invD [OF inv]
  show "ht_lookup st k = Some (e_value f)" if "f \<in># M" "s_hash_keys_eq st k (e_key f)" for f
    using ht_lookup_Some [OF v(3,4), of f k] that e by simp
  show "ht_lookup st k = None" if "\<forall>f \<in># M. \<not> s_hash_keys_eq st k (e_key f)"
    using that N e by (auto simp: ht_lookup_None key_absent_def)
qed

lemma lookup_remove:
  assumes inv: "ht_inv st" and inv': "ht_inv st'" and sf: "same_fns st st'"
    and e: "ents (ht_slots st) = add_mset x (ents (ht_slots st'))"
  shows "ht_lookup st' k = (if s_hash_keys_eq st (e_key x) k then None else ht_lookup st k)"
proof -
  note v = ht_invD [OF inv] and v' = ht_invD [OF inv'] and s = same_fns_keys [OF sf]
  show ?thesis
  proof (cases "s_hash_keys_eq st (e_key x) k")
    case True
    have "key_absent st' k"
      unfolding key_absent_def
    proof (intro ballI notI)
      fix f assume f: "f \<in># ents (ht_slots st')" "s_hash_keys_eq st' k (e_key f)"
      then have "s_hash_keys_eq st (e_key x) (e_key f)" using True keys_eq_equiv(3) [OF v(3)] by (metis s(2))
      then show False using v(4) keys_distinct_add [OF v(3), of x "ents (ht_slots st')"] e f(1) by auto
    qed
    then show ?thesis using True by (simp add: ht_lookup_None)
  next
    case False
    have nx: "\<not> s_hash_keys_eq st k (e_key x)" using False keys_eq_equiv(2) [OF v(3)] by blast
    have fr: "(\<forall>f \<in># ents (ht_slots st'). s_hash_keys_eq st k (e_key f) \<longrightarrow> ht_lookup st k = Some (e_value f)) \<and>
      ((\<forall>f \<in># ents (ht_slots st'). \<not> s_hash_keys_eq st k (e_key f)) \<longrightarrow> ht_lookup st k = None)"
      by (rule lookup_frame [OF inv, of _ "{#x#}"]) (use e nx in auto)
    show ?thesis
    proof (cases "key_absent st' k")
      case True
      then have "ht_lookup st k = None" using fr by (simp add: key_absent_def s)
      moreover have "ht_lookup st' k = None" using True by (simp add: ht_lookup_None)
      ultimately show ?thesis using False by simp
    next
      case has: False
      then obtain f where f: "f \<in># ents (ht_slots st')" "s_hash_keys_eq st k (e_key f)" by (auto simp: key_absent_def s)
      then show ?thesis using fr False ht_lookup_Some [OF v'(3,4), of f k] by (simp add: s)
    qed
  qed
qed

lemma find_law:
  assumes inv: "ht_inv st"
  shows "case aws_hash_table_find (Some st) key of
      Inr (Some i) \<Rightarrow> unat i < length (ht_slots st) \<and> ht_lookup st key = Some (e_value (ht_slots st ! unat i)) \<and>
        s_hash_keys_eq st key (e_key (ht_slots st ! unat i))
    | Inr None \<Rightarrow> ht_lookup st key = None | Inl e \<Rightarrow> False"
proof (cases rule: find_cases [OF inv, of key])
  case (1 idx p)
  then show ?thesis using ht_lookup_Some [OF ht_invD(3,4) [OF inv] 1(5,4)] by (simp add: aws_hash_table_find_def)
next
  case (2 idx p)
  then show ?thesis by (simp add: aws_hash_table_find_def ht_lookup_None)
qed

text \<open>Overwriting the key and value of an occupied slot with an equal key.\<close>

lemma overwrite_ok:
  assumes inv: "ht_inv st" and i: "unat i < length (ht_slots st)" "occ (ht_slots st) (unat i)"
    and key: "s_hash_keys_eq st key (e_key (ht_slots st ! unat i))"
    and x_def: "x = (ht_slots st ! unat i)\<lparr>e_key := key, e_value := v\<rparr>"
  shows "ht_inv (slot_set st i x)" "same_fns st (slot_set st i x)" "x = new_entry st key v"
    "ents (ht_slots (slot_set st i x)) = add_mset x (ents (ht_slots st) - {#ht_slots st ! unat i#})"
proof -
  note iv = ht_invD [OF inv]
  let ?T = "ht_slots st" and ?o = "ht_slots st ! unat i"
  have mem: "?o \<in># ents ?T" by (rule nth_filter_mset [OF i])
  have h: "e_hash ?o = s_hash_for st key" using iv(5) mem keys_eq_equiv(4) [OF iv(3) key] by (simp add: hashes_ok_def)
  show x: "x = new_entry st key v" using h by (simp add: x_def new_entry_def)
  have hx: "e_hash x = e_hash ?o" by (simp add: x_def)
  show sf: "same_fns st (slot_set st i x)" by (simp add: same_fns_def slot_set_def)
  show e: "ents (ht_slots (slot_set st i x)) = add_mset x (ents ?T - {#?o#})"
    using i by (simp add: slot_set_def ents_update hx)
  obtain M where M: "ents ?T = add_mset ?o M" using mem by (metis multi_member_split)
  have "map e_hash (?T[unat i := x]) = map e_hash ?T" using i hx by (metis list_update_id map_update nth_map)
  then have rh: "rh (?T[unat i := x])" using rh_same_hashes iv(2) by blast
  have ko: "keys_distinct st M" "\<forall>e \<in># M. \<not> s_hash_keys_eq st (e_key ?o) (e_key e)"
    using iv(4) keys_distinct_add [OF iv(3), of ?o M] by (simp_all add: M)
  have "s_hash_keys_eq st (e_key ?o) (e_key e)" if "s_hash_keys_eq st key (e_key e)" for e
    using keys_eq_equiv(3) [OF iv(3) keys_eq_equiv(2) [OF iv(3) key] that] .
  then have "\<forall>e \<in># M. \<not> s_hash_keys_eq st (e_key x) (e_key e)" using ko(2) by (auto simp: x_def)
  then have "keys_distinct st (add_mset x M)" using ko(1) keys_distinct_add [OF iv(3), of x M] by blast
  moreover have "hashes_ok st (add_mset x M)" using iv(5) x by (simp add: M hashes_ok_def new_entry_def)
  ultimately show "ht_inv (slot_set st i x)"
    unfolding ht_inv_def same_fns_keys [OF sf] using iv(1,3,6,8,9) rh e M by (simp add: slot_set_def ht_geom_def)
qed

lemma put_absent_law:
  assumes inv: "ht_inv st" and r: "room_to_add st" and abs: "key_absent st key"
  obtains st' where "aws_hash_table_put (Some st) key v = (Inr True, [], Some st')" "ht_inv st'" "same_fns st st'"
    "ents (ht_slots st') = add_mset (new_entry st key v) (ents (ht_slots st))"
proof -
  obtain s st1 where c: "aws_hash_table_create (Some st) key = (Inr (Some s, True), Some st1)" "ht_inv st1" "same_fns st st1"
    "ents (ht_slots st1) = add_mset (new_entry st key None) (ents (ht_slots st))"
    "unat s < length (ht_slots st1)" "ht_slots st1 ! unat s = new_entry st key None"
    by (rule create_absent [OF assms])
  have o: "occ (ht_slots st1) (unat s)" using c(6) hash_for_nonzero by (simp add: new_entry_def)
  have k: "s_hash_keys_eq st1 key (e_key (ht_slots st1 ! unat s))"
    using c(6) keys_eq_equiv(1) [OF ht_invD(3) [OF c(2)]] by (simp add: new_entry_def)
  note w = overwrite_ok [OF c(2,5) o k refl, of v]
  have "new_entry st1 key v = new_entry st key v" using same_fns_keys(1) [OF c(3)] by (simp add: new_entry_def)
  then have e: "ents (ht_slots (slot_set st1 s ((ht_slots st1 ! unat s)\<lparr>e_key := key, e_value := v\<rparr>))) =
      add_mset (new_entry st key v) (ents (ht_slots st))"
    using w(3,4) c(4,6) by simp
  have "aws_hash_table_put (Some st) key v =
      (Inr True, [], Some (slot_set st1 s ((ht_slots st1 ! unat s)\<lparr>e_key := key, e_value := v\<rparr>)))"
    using c(1,5) by (simp add: aws_hash_table_put_def slot_get_def)
  from that [OF this w(1) same_fns_trans [OF c(3) w(2)] e] show thesis .
qed

lemma put_found_law:
  assumes inv: "ht_inv st" and pres: "\<not> key_absent st key"
  obtains st' e M where "aws_hash_table_put (Some st) key v =
      (Inr False, (if e_key e \<noteq> key \<and> ht_destroy_key_fn st then [DestroyKey (e_key e)] else []) @
         (if ht_destroy_value_fn st then [DestroyValue (e_value e)] else []), Some st')"
    "ht_inv st'" "same_fns st st'" "ents (ht_slots st) = add_mset e M" "s_hash_keys_eq st key (e_key e)"
    "ents (ht_slots st') = add_mset (new_entry st key v) M"
proof (cases rule: find_cases [OF inv, of key])
  case (1 idx p)
  let ?e = "ht_slots st ! unat idx"
  note w = overwrite_ok [OF inv 1(2,3,4) refl, of v]
  have "ents (ht_slots st) = add_mset ?e (ents (ht_slots st) - {#?e#})" using 1(5) by simp
  moreover have "aws_hash_table_put (Some st) key v =
      (Inr False, (if e_key ?e \<noteq> key \<and> ht_destroy_key_fn st then [DestroyKey (e_key ?e)] else []) @
         (if ht_destroy_value_fn st then [DestroyValue (e_value ?e)] else []),
       Some (slot_set st idx (?e\<lparr>e_key := key, e_value := v\<rparr>)))"
    using 1(1,2) by (simp add: aws_hash_table_put_def aws_hash_table_create_def slot_get_def)
  ultimately show thesis using that w 1(4) by metis
qed (use pres in simp)

lemma put_full_law:
  assumes inv: "ht_inv st" and abs: "key_absent st key" and full: "\<not> room_to_add st"
  shows "aws_hash_table_put (Some st) key v = (aws_raise_error AWS_ERROR_OVERFLOW_DETECTED, [], Some st)"
proof (cases rule: find_cases [OF inv, of key])
  case (2 idx p)
  note v = ht_invD [OF inv]
  have fits: "unat (ht_entry_count st) + 1 < 2 ^ 64" using v(6,7) mask_mod(4) [OF v(1)] by simp
  then have c: "unat (ht_entry_count st + 1) = unat (ht_entry_count st) + 1" by (subst unat_add_exact) auto
  have "ht_max_load st < ht_entry_count st + 1" "\<not> can_double st"
    using full c by (auto simp: room_to_add_def word_less_nat_alt)
  then have "aws_hash_table_create (Some st) key = (aws_raise_error AWS_ERROR_OVERFLOW_DETECTED, Some st)"
    using 2(1) fits s_expand_table_err [OF inv] by (simp add: aws_hash_table_create_def aws_add_size_checked_eq)
  then show ?thesis by (simp add: aws_hash_table_put_def)
qed (use abs in simp)

lemma put_lookup:
  assumes "ht_inv st" "ht_inv st'" "same_fns st st'" "ents (ht_slots st') = add_mset (new_entry st key v) M"
    and "ents (ht_slots st) = M + N" "\<forall>f \<in># N. s_hash_keys_eq st key (e_key f)"
  shows "ht_lookup st' k = (if s_hash_keys_eq st key k then Some v else ht_lookup st k)"
proof -
  note fns = ht_invD(3) [OF assms(1)]
  have "ht_lookup st' k = (if s_hash_keys_eq st (e_key (new_entry st key v)) k then Some (e_value (new_entry st key v))
      else ht_lookup st k)"
  proof (rule lookup_add [OF assms(2,3) fns assms(4)], rule lookup_frame [OF assms(1,5)], intro ballI notI)
    fix k f assume "\<not> s_hash_keys_eq st (e_key (new_entry st key v)) k" "f \<in># N" "s_hash_keys_eq st k (e_key f)"
    then show False using assms(6) keys_eq_equiv(2) [OF fns] keys_eq_equiv(3) [OF fns]
      by (metis hash_table_entry.select_convs(1) new_entry_def)
  qed
  then show ?thesis by (simp add: new_entry_def)
qed

lemma put_law:
  assumes inv: "ht_inv st" and room: "room_to_add st \<or> \<not> key_absent st key"
  obtains calls st' where "aws_hash_table_put (Some st) key v = (Inr (key_absent st key), calls, Some st')"
    "ht_inv st'" "same_fns st st'"
    "\<forall>k. ht_lookup st' k = (if s_hash_keys_eq st key k then Some v else ht_lookup st k)"
    "size (ents (ht_slots st')) = size (ents (ht_slots st)) + (if key_absent st key then 1 else 0)"
    "if key_absent st key then calls = []
     else \<exists>e. e \<in># ents (ht_slots st) \<and> s_hash_keys_eq st key (e_key e) \<and>
       calls = (if e_key e \<noteq> key \<and> ht_destroy_key_fn st then [DestroyKey (e_key e)] else []) @
         (if ht_destroy_value_fn st then [DestroyValue (e_value e)] else [])"
proof (cases "key_absent st key")
  case True
  then obtain st' where p: "aws_hash_table_put (Some st) key v = (Inr True, [], Some st')" "ht_inv st'" "same_fns st st'"
    "ents (ht_slots st') = add_mset (new_entry st key v) (ents (ht_slots st))"
    using put_absent_law [OF inv _ True, of v] room by metis
  show thesis using that [of "[]" st'] p True put_lookup [OF inv p(2,3,4), of "{#}"] by simp
next
  case False
  show thesis
  proof (rule put_found_law [OF inv False, of v])
    fix st' e M
    assume p: "aws_hash_table_put (Some st) key v =
      (Inr False, (if e_key e \<noteq> key \<and> ht_destroy_key_fn st then [DestroyKey (e_key e)] else []) @
         (if ht_destroy_value_fn st then [DestroyValue (e_value e)] else []), Some st')"
      "ht_inv st'" "same_fns st st'" "ents (ht_slots st) = add_mset e M" "s_hash_keys_eq st key (e_key e)"
      "ents (ht_slots st') = add_mset (new_entry st key v) M"
    show thesis
      by (rule that [OF _ p(2,3)]) (use p False put_lookup [OF inv p(2,3,6), of "{#e#}"] in auto)
  qed
qed

lemma remove_law:
  assumes inv: "ht_inv st"
  obtains r calls st' where "aws_hash_table_remove (Some st) key want = (Inr r, calls, Some st')"
    "ht_inv st'" "same_fns st st'" "map_option snd r = ht_lookup st key"
    "\<forall>k. ht_lookup st' k = (if s_hash_keys_eq st key k then None else ht_lookup st k)"
    "size (ents (ht_slots st)) = size (ents (ht_slots st')) + (if r = None then 0 else 1)"
    "calls = (case r of None \<Rightarrow> [] | Some (k, v) \<Rightarrow> if want then [] else
       (if ht_destroy_key_fn st then [DestroyKey k] else []) @ (if ht_destroy_value_fn st then [DestroyValue v] else []))"
proof (cases rule: find_cases [OF inv, of key])
  case (1 idx p)
  note v = ht_invD [OF inv]
  let ?e = "ht_slots st ! unat idx"
  obtain l st' where s: "s_remove_entry st idx = Inr (l, st')" "ht_inv st'" "same_fns st st'"
    "ents (ht_slots st') = ents (ht_slots st) - {#?e#}"
    using s_remove_entry_ok [OF inv 1(2,3)] by metis
  then have e: "ents (ht_slots st) = add_mset ?e (ents (ht_slots st'))" using 1(5) by simp
  have k: "s_hash_keys_eq st (e_key ?e) k = s_hash_keys_eq st key k" for k
    using keys_eq_equiv(2) [OF v(3)] keys_eq_equiv(3) [OF v(3)] 1(4) by metis
  have "ht_lookup st' k = (if s_hash_keys_eq st key k then None else ht_lookup st k)" for k
    using lookup_remove [OF inv s(2,3) e] by (simp add: k)
  moreover have "aws_hash_table_remove (Some st) key want =
      (Inr (Some (e_key ?e, e_value ?e)), if want then [] else destroy_calls st ?e, Some st')"
    using 1(1,2) s(1) by (simp add: aws_hash_table_remove_def slot_get_def)
  moreover have "ht_lookup st key = Some (e_value ?e)" using ht_lookup_Some [OF v(3,4) 1(5,4)] .
  ultimately show thesis using that s e by (simp add: destroy_calls_def)
next
  case (2 idx p)
  note v = ht_invD [OF inv]
  have "key_absent st k" if "s_hash_keys_eq st key k" for k
    using 2(2) that keys_eq_equiv(3) [OF v(3) that] by (auto simp: key_absent_def)
  then have "ht_lookup st k = (if s_hash_keys_eq st key k then None else ht_lookup st k)" for k
    by (simp add: ht_lookup_None)
  moreover have "ht_lookup st key = None" using 2(2) by (simp add: ht_lookup_None)
  ultimately show thesis using that [of None "[]" st] inv 2(1)
    by (simp add: aws_hash_table_remove_def same_fns_def)
qed

lemma window_all: "mset (window T 0 (length T)) = ents T" "window T 0 (length T) = filter (\<lambda>e. e_hash e \<noteq> 0) T"
  by (simp_all add: window_def map_nth ents_def)

lemma window_step:
  "s < L \<Longrightarrow> window T s L = (if e_hash (T ! s) \<noteq> 0 then T ! s # window T (Suc s) L else window T (Suc s) L)"
  by (simp add: window_def upt_conv_Cons)

lemma window_empty: "L \<le> s \<Longrightarrow> window T s L = []"
  by (simp add: window_def)

lemma window_append: "s \<le> m \<Longrightarrow> m \<le> L \<Longrightarrow> window T s L = window T s m @ window T m L"
  by (simp add: window_def flip: filter_append map_append) (metis upt_add_eq_append le_Suc_ex)

lemma window_shift:
  assumes "\<And>j. s \<le> j \<Longrightarrow> j < L \<Longrightarrow> T' ! j = T ! Suc j" shows "window T' s L = window T (Suc s) (Suc L)"
proof -
  have "map ((!) T') [s ..< L] = map ((!) T) (map Suc [s ..< L])"
    unfolding map_map by (rule map_cong [OF refl]) (use assms in simp)
  then show ?thesis unfolding window_def map_Suc_upt by (rule arg_cong)
qed

lemma window_cong:
  assumes "\<And>j. s \<le> j \<Longrightarrow> j < L \<Longrightarrow> T' ! j = T ! j" shows "window T' s L = window T s L"
proof -
  have "map ((!) T') [s ..< L] = map ((!) T) [s ..< L]" by (rule map_cong [OF refl]) (use assms in simp)
  then show ?thesis unfolding window_def by (rule arg_cong)
qed

lemma next_slot_ok:
  assumes geo: "ht_geom st" and "unat limit \<le> length (ht_slots st)" "unat i \<le> unat limit" "unat limit - unat i < fuel"
  shows "case window (ht_slots st) (unat i) (unat limit) of
      [] \<Rightarrow> next_slot fuel st limit i = Inr None
    | e # es \<Rightarrow> \<exists>j. next_slot fuel st limit i = Inr (Some (j, e)) \<and> unat j < unat limit \<and> e = ht_slots st ! unat j \<and>
        occ (ht_slots st) (unat j) \<and> es = window (ht_slots st) (Suc (unat j)) (unat limit)"
  using assms(2-)
proof (induction fuel arbitrary: i)
  case (Suc fuel)
  show ?case
  proof (cases "unat i < unat limit")
    case True
    have "unat limit \<le> 2 ^ 63" by (rule order_trans [OF Suc.prems(1) mask_mod(4) [OF geo]])
    then have n: "unat (i + 1) = Suc (unat i)" using True by (subst unat_add_exact) auto
    have *: "unat limit - unat (i + 1) < fuel" "unat (i + 1) \<le> unat limit" using Suc.prems True n by auto
    show ?thesis
      using Suc.IH [OF Suc.prems(1) *(2,1)] True Suc.prems(1)
      by (auto simp: window_step n slot_get_def word_less_nat_alt split: list.splits)
  next
    case False
    then show ?thesis by (simp add: window_empty word_less_nat_alt)
  qed
qed simp

text \<open>
  Deleting the entry at the head of the window: the backward shift keeps the order of the rest, and the new
  limit excludes the visited entries that the shift brings in at the end.
\<close>

lemma window_delete:
  assumes sh: "shifted T s m T'" and L: "s < L" "L \<le> length T" and m: "m < length T"
    and l: "l = (s + m) mod length T"
  defines "L' \<equiv> if l < s \<or> L \<le> l then L - 1 else L"
  shows "window T' s L' = window T (Suc s) L"
proof -
  have sh1: "T' ! j = T ! Suc j" if "s \<le> j" "j < s + m" "Suc j < length T" for j
  proof -
    have "j - s < m" "s + (j - s) = j" "s + Suc (j - s) = Suc j" using that by auto
    then show ?thesis using sh that(3) unfolding shifted_def by (metis Suc_lessD mod_less)
  qed
  show ?thesis
  proof (cases "s + m < L")
    case True
    have ls: "l = s + m" using True l L by simp
    then have L': "L' = L" using True by (simp add: L'_def)
    have 1: "window T' s (s + m) = window T (Suc s) (Suc (s + m))" by (rule window_shift) (use sh1 True L in simp)
    have z: "T' ! (s + m) = empty_entry" using sh ls l by (simp add: shifted_def)
    have "T' ! j = T ! j" if "Suc (s + m) \<le> j" "j < L" for j
    proof -
      have "j \<noteq> (s + i) mod length T" if "i \<le> m" for i using that \<open>Suc (s + m) \<le> j\<close> True L by simp
      moreover have "j < length T" using that L by linarith
      ultimately show ?thesis using sh unfolding shifted_def by blast
    qed
    then have 2: "window T' (Suc (s + m)) L = window T (Suc (s + m)) L" by (rule window_cong)
    have 3: "window T' (s + m) L = window T' (Suc (s + m)) L" using window_step [OF True, of T'] z by (simp add: empty_entry_def)
    have "window T' s L = window T (Suc s) (Suc (s + m)) @ window T (Suc (s + m)) L"
      using window_append [of s "s + m" L T'] True by (simp add: 1 2 3)
    also have "\<dots> = window T (Suc s) L" by (rule window_append [symmetric]) (use True in auto)
    finally show ?thesis by (simp add: L')
  next
    case False
    have "l < s \<or> L \<le> l"
    proof (cases "s + m < length T")
      case in_range: True
      then show ?thesis using False l by simp
    next
      case wrap: False
      then have "l = s + m - length T" using l m L by (simp add: le_mod_geq)
      then show ?thesis using m wrap by linarith
    qed
    then have L': "L' = L - 1" by (simp add: L'_def)
    have "window T' s (L - 1) = window T (Suc s) (Suc (L - 1))" by (rule window_shift) (use sh1 False L in simp)
    then show ?thesis using L by (simp add: L')
  qed
qed

lemma get_next_ok:
  assumes geo: "ht_geom st" and "unat (it_limit it) \<le> length (ht_slots st)" "unat i \<le> unat (it_limit it)"
  obtains it' where "s_get_next_element st it i = Inr it'" "iter_at st it' (window (ht_slots st) (unat i) (unat (it_limit it)))"
proof -
  have f: "unat (it_limit it) - unat i < unat (it_limit it) + 1" by simp
  note n = next_slot_ok [OF geo assms(2,3) f]
  show thesis
  proof (cases "window (ht_slots st) (unat i) (unat (it_limit it))")
    case Nil
    then show thesis using n assms(2) that by (simp add: s_get_next_element_def iter_at_def)
  next
    case (Cons e es)
    then obtain j where j: "next_slot (unat (it_limit it) + 1) st (it_limit it) i = Inr (Some (j, e))" "unat j < unat (it_limit it)"
      "e = ht_slots st ! unat j" "occ (ht_slots st) (unat j)" "es = window (ht_slots st) (Suc (unat j)) (unat (it_limit it))"
      using n by auto
    show thesis
      by (rule that [of "it\<lparr>it_key := e_key e, it_value := e_value e, it_slot := j, it_status := AWS_HASH_ITER_STATUS_READY_FOR_USE\<rparr>"])
        (use j assms(2) Cons in \<open>simp_all add: s_get_next_element_def iter_at_def\<close>)
  qed
qed

lemma iter_next_ok:
  assumes geo: "ht_geom st" and it: "iter_at st it (e # es)"
  obtains it' where "aws_hash_iter_next st it = Inr it'" "iter_at st it' es"
proof -
  have u: "unat (it_limit it) \<le> length (ht_slots st)" "unat (it_slot it) < unat (it_limit it)"
    "es = window (ht_slots st) (Suc (unat (it_slot it))) (unat (it_limit it))"
    using it by (auto simp: iter_at_def)
  have "unat (it_limit it) \<le> 2 ^ 63" by (rule order_trans [OF u(1) mask_mod(4) [OF geo]])
  then have n: "unat (it_slot it + 1) = Suc (unat (it_slot it))" using u(2) by (subst unat_add_exact) auto
  show thesis using get_next_ok [OF geo u(1), of "it_slot it + 1"] u(2,3) that by (auto simp: n aws_hash_iter_next_def)
qed

lemma iter_delete_ok:
  assumes inv: "ht_inv st" and it: "iter_at st it (e # es)"
  obtains calls st' it' it'' where "aws_hash_iter_delete st it b = Inr (calls, st', it')" "ht_inv st'" "same_fns st st'"
    "ents (ht_slots st') = ents (ht_slots st) - {#e#}" "ht_size st' = ht_size st"
    "aws_hash_iter_next st' it' = Inr it''" "iter_at st' it'' es"
    "calls = (if b then destroy_calls st e else [])"
proof -
  let ?T = "ht_slots st" and ?s = "unat (it_slot it)" and ?L = "unat (it_limit it)"
  have u: "?L \<le> length ?T" "?s < ?L" "e = ?T ! ?s" "occ ?T ?s" "es = window ?T (Suc ?s) ?L"
    "it_key it = e_key e" "it_value it = e_value e"
    using it by (auto simp: iter_at_def)
  have s: "?s < length ?T" using u by linarith
  obtain l st' m where r: "s_remove_entry st (it_slot it) = Inr (l, st')" "ht_inv st'" "same_fns st st'"
    "ents (ht_slots st') = ents ?T - {#?T ! ?s#}" "ht_size st' = ht_size st"
    "shifted ?T ?s m (ht_slots st')" "unat l = (?s + m) mod length ?T"
    by (rule s_remove_entry_ok [OF inv s u(4)])
  define L where "L = (if l < it_slot it \<or> l \<ge> it_limit it then it_limit it - 1 else it_limit it)"
  define it' where "it' = it\<lparr>it_limit := L, it_slot := it_slot it - 1, it_status := AWS_HASH_ITER_STATUS_DELETE_CALLED\<rparr>"
  have "unat (it_limit it - 1) = ?L - 1" using u(2) by (subst unat_minus_one) auto
  then have L: "unat L = (if unat l < ?s \<or> ?L \<le> unat l then ?L - 1 else ?L)"
    by (simp add: L_def word_less_nat_alt word_le_nat_alt)
  have m: "m < length ?T" "length (ht_slots st') = length ?T" using r(6) by (simp_all add: shifted_def)
  have w: "window (ht_slots st') ?s (unat L) = es"
    unfolding L u(5) by (rule window_delete [OF r(6) u(2,1) m(1) r(7)])
  have 1: "unat (it_limit it') \<le> length (ht_slots st')" "unat (it_slot it) \<le> unat (it_limit it')"
    using u(1,2) m(2) by (auto simp: it'_def L)
  obtain it'' where n: "s_get_next_element st' it' (it_slot it) = Inr it''"
    "iter_at st' it'' (window (ht_slots st') ?s (unat (it_limit it')))"
    by (rule get_next_ok [OF ht_invD(1) [OF r(2)] 1])
  have "aws_hash_iter_delete st it b = Inr (if b then destroy_calls st e else [], st', it')"
    using r(1) u(6,7) by (simp add: aws_hash_iter_delete_def L_def it'_def destroy_calls_def Let_def)
  moreover have "iter_at st' it'' es" using n(2) w by (simp add: it'_def)
  moreover have "aws_hash_iter_next st' it' = Inr it''" using n(1) by (simp add: aws_hash_iter_next_def it'_def)
  ultimately show thesis using that r u(3) by blast
qed

lemma foreach_loop_ok:
  assumes "ht_inv st" "iter_at st it W" "length W < fuel" "foreach_spec callback ctx W = (r, c, ds)"
  shows "\<exists>st'. foreach_loop fuel callback ctx st it = (r, c, st') \<and> ht_inv st' \<and> same_fns st st' \<and>
    ents (ht_slots st') = ents (ht_slots st) - mset ds"
  using assms
proof (induction W arbitrary: fuel ctx st it r c ds)
  case Nil
  then show ?case
    by (cases fuel) (auto simp: iter_at_def aws_hash_iter_done_def same_fns_def)
next
  case (Cons e es)
  obtain f where f: "fuel = Suc f" "length es < f" using Cons.prems(3) by (cases fuel) auto
  have nd: "\<not> aws_hash_iter_done it" "it_key it = e_key e" "it_value it = e_value e"
    using Cons.prems(2) by (auto simp: iter_at_def aws_hash_iter_done_def)
  obtain rv le c1 where cb: "callback ctx (e_key e) (e_value e) = (rv, le, c1)" by (metis prod_cases3)
  obtain r1 c2 ds1 where sp: "foreach_spec callback c1 es = (r1, c2, ds1)" by (metis prod_cases3)
  note geo = ht_invD(1) [OF Cons.prems(1)]
  obtain it1 where it1: "aws_hash_iter_next st it = Inr it1" "iter_at st it1 es"
    by (rule iter_next_ok [OF geo Cons.prems(2)])
  obtain calls st' it' it'' where d: "aws_hash_iter_delete st it False = Inr (calls, st', it')" "ht_inv st'" "same_fns st st'"
    "ents (ht_slots st') = ents (ht_slots st) - {#e#}" "aws_hash_iter_next st' it' = Inr it''" "iter_at st' it'' es"
    by (rule iter_delete_ok [OF Cons.prems(1,2)])
  have sf: "same_fns st st" by (simp add: same_fns_def)
  consider (err) "rv AND AWS_COMMON_HASH_TABLE_ITER_ERROR \<noteq> 0"
    | (del) "rv AND AWS_COMMON_HASH_TABLE_ITER_ERROR = 0" "rv AND AWS_COMMON_HASH_TABLE_ITER_DELETE \<noteq> 0"
    | (keep) "rv AND AWS_COMMON_HASH_TABLE_ITER_ERROR = 0" "rv AND AWS_COMMON_HASH_TABLE_ITER_DELETE = 0" by blast
  then show ?case
  proof cases
    case err
    then show ?thesis using Cons.prems(1,4) nd cb sf by (auto simp: f(1))
  next
    case del
    obtain st2 where "foreach_loop f callback c1 st' it'' = (r1, c2, st2)" "ht_inv st2" "same_fns st' st2"
      "ents (ht_slots st2) = ents (ht_slots st') - mset ds1"
      using Cons.IH [OF d(2,6) f(2) sp] by blast
    then show ?thesis using Cons.prems(4) nd cb del d sp same_fns_trans [OF d(3)] by (auto simp: f(1) split: if_splits)
  next
    case keep
    obtain st2 where "foreach_loop f callback c1 st it1 = (r1, c2, st2)" "ht_inv st2" "same_fns st st2"
      "ents (ht_slots st2) = ents (ht_slots st) - mset ds1"
      using Cons.IH [OF Cons.prems(1) it1(2) f(2) sp] by blast
    then show ?thesis using Cons.prems(1,4) nd cb keep it1 sp sf by (auto simp: f(1) split: if_splits)
  qed
qed

lemma foreach_law:
  assumes inv: "ht_inv st" and sp: "foreach_spec callback ctx (filter (\<lambda>e. e_hash e \<noteq> 0) (ht_slots st)) = (r, c, ds)"
  obtains st' where "aws_hash_table_foreach (Some st) callback ctx = (r, c, Some st')" "ht_inv st'" "same_fns st st'"
    "ents (ht_slots st') = ents (ht_slots st) - mset ds"
proof -
  note v = ht_invD [OF inv]
  have len: "length (ht_slots st) = unat (ht_size st)" using v(1) by (simp add: ht_geom_def)
  obtain it where it: "aws_hash_iter_begin st = Inr it" "iter_at st it (filter (\<lambda>e. e_hash e \<noteq> 0) (ht_slots st))"
    using get_next_ok [OF v(1), of "\<lparr>it_key = None, it_value = None, it_slot = 0, it_limit = ht_size st,
        it_status = AWS_HASH_ITER_STATUS_DONE\<rparr>" 0] len window_all(2) [of "ht_slots st"]
    by (auto simp: aws_hash_iter_begin_def)
  have "length (filter (\<lambda>e. e_hash e \<noteq> 0) (ht_slots st)) < unat (ht_size st) + 1"
    using length_filter_le [of _ "ht_slots st"] by (simp add: less_Suc_eq_le flip: len)
  from foreach_loop_ok [OF inv it(2) this sp] show thesis
    using that it(1) by (auto simp: aws_hash_table_foreach_def)
qed

lemma inv_fresh:
  assumes "ht_geom st" "ht_max_load st = load_limit (ht_size st)" "ht_fns_ok st" "ht_entry_count st = 0"
    "ht_slots st = replicate n empty_entry"
  shows "ht_inv st" "ht_lookup st k = None" "ents (ht_slots st) = {#}"
proof -
  show e: "ents (ht_slots st) = {#}" by (simp add: assms(5) ents_def empty_entry_def)
  then have d: "keys_distinct st {#}" "hashes_ok st {#}" by (simp_all add: keys_distinct_def hashes_ok_def)
  show "ht_inv st" using assms(1-4) d e unfolding ht_inv_def by (simp add: assms(5))
  show "ht_lookup st k = None" using e by (simp add: ht_lookup_None key_absent_def)
qed

lemma update_template_eq:
  "s_update_template_size st sz = (case aws_round_up_to_power_of_two (if sz < 2 then 2 else sz) of
     Inl e \<Rightarrow> Inl e | Inr n \<Rightarrow> s_update_template_size st n)"
proof (cases "aws_round_up_to_power_of_two (if sz < 2 then 2 else sz)")
  case (Inl e)
  then show ?thesis by (simp add: s_update_template_size_def)
next
  case (Inr n)
  obtain k where k: "k < 64" "unat n = 2 ^ k" "unat (if sz < 2 then 2 else sz) \<le> 2 ^ k" using round_up_spec [OF Inr] by blast
  then have "2 \<le> n" by (auto simp: word_le_nat_alt word_less_nat_alt split: if_splits)
  then have "aws_round_up_to_power_of_two (if n < 2 then 2 else n) = Inr n" using round_up_pow2 [OF k(2,1)] by auto
  then show ?thesis using Inr by (simp add: s_update_template_size_def)
qed

lemma init_law:
  fixes hash_fn :: "'k \<Rightarrow> u64"
  assumes fns: "hashing_ok hash_fn eq_fn" and sz: "unat sz \<le> 2 ^ 59"
  obtains st where "(aws_hash_table_init alloc sz hash_fn eq_fn dk dv :: ('k, 'v) hash_table res) = Inr (Some st)"
    "ht_inv st" "\<And>k. ht_lookup st k = None" "sz \<le> ht_size st" "ents (ht_slots st) = {#}"
    "ht_hash_fn st = hash_fn" "ht_equals_fn st = eq_fn" "ht_destroy_key_fn st = dk" "ht_destroy_value_fn st = dv"
proof -
  define t :: "('k, 'v) hash_table_state" where "t = \<lparr>ht_hash_fn = hash_fn, ht_equals_fn = eq_fn, ht_destroy_key_fn = dk,
      ht_destroy_value_fn = dv, ht_alloc = alloc, ht_size = 0, ht_entry_count = 0, ht_max_load = 0, ht_mask = 0, ht_slots = []\<rparr>"
  define n where "n = (if sz < 2 then 2 else sz)"
  have n: "unat n \<le> 2 ^ 59" "2 \<le> unat n" "unat sz \<le> unat n"
    using sz by (auto simp: n_def word_less_nat_alt)
  then have "n \<le> SIZE_MAX_POWER_OF_TWO" by (simp add: word_le_nat_alt unat_SIZE_MAX_POWER_OF_TWO)
  then have "aws_round_up_to_power_of_two n = Inr (if n = 0 then 1 else smear (n - 1) + 1)"
    by (auto simp: round_up_unfold not_less)
  then obtain r where r: "aws_round_up_to_power_of_two n = Inr r" by blast
  from round_up_spec [OF this] obtain k where k: "k < 64" "unat r = 2 ^ k" "unat n \<le> 2 ^ k" "\<forall>j. unat n \<le> 2 ^ j \<longrightarrow> k \<le> j"
    by blast
  have "k \<le> 59" using k(4) n(1) by blast
  then have r59: "unat r \<le> 2 ^ 59" unfolding k(2) by (intro power_increasing) auto
  have k0: "0 < k" using k(3) n(2) by (cases k) auto
  define st where "st = t\<lparr>ht_size := r, ht_max_load := load_limit r, ht_mask := r - 1, ht_slots := replicate (unat r) empty_entry\<rparr>"
  have "aws_is_power_of_two r" using is_power_of_two_iff k(1,2) by blast
  then have geo: "ht_geom st" using n(2) k(2,3) by (simp add: ht_geom_def st_def t_def word_le_nat_alt)
  have he: "ht_hash_fn st = hash_fn" "ht_equals_fn st = eq_fn" by (simp_all add: st_def t_def)
  have f: "ht_fns_ok st" using fns unfolding hashing_ok_def ht_fns_ok_def he .
  note i = inv_fresh [OF geo _ f, of "unat r"]
  have "(aws_hash_table_init alloc sz hash_fn eq_fn dk dv :: ('k, 'v) hash_table res) = Inr (Some st)"
    using r r59 update_template_pow2 [OF k(2,1) k0, of t]
    by (simp add: aws_hash_table_init_def update_template_eq [of _ sz] s_alloc_state_def required_bytes_eq st_def flip: n_def t_def)
  then show thesis
    by (rule that) (use i k(2,3) n(3) in \<open>auto simp: st_def t_def word_le_nat_alt\<close>)
qed

lemma clear_law:
  assumes inv: "ht_inv st"
  obtains calls st' where "aws_hash_table_clear (Some st) = (Inr calls, Some st')" "ht_inv st'" "same_fns st st'"
    "\<And>k. ht_lookup st' k = None"
    "calls = concat (map (destroy_calls st) (filter (\<lambda>e. e_hash e \<noteq> 0) (ht_slots st)))"
proof -
  note v = ht_invD [OF inv]
  define st' where "st' = st\<lparr>ht_slots := replicate (unat (ht_size st)) empty_entry, ht_entry_count := 0\<rparr>"
  have geo: "ht_geom st'" using v(1) by (simp add: st'_def ht_geom_def)
  have sf: "same_fns st st'" by (simp add: st'_def same_fns_def)
  note i = inv_fresh [OF geo, of "unat (ht_size st)"]
  have ml: "ht_max_load st = load_limit (ht_size st)" using inv by (simp add: ht_inv_def)
  have c: "concat (map (\<lambda>e. if e_hash e = 0 then [] else destroy_calls st e) T) =
      concat (map (destroy_calls st) (filter (\<lambda>e. e_hash e \<noteq> 0) T))" for T
    by (induction T) auto
  have nn: "concat (map (destroy_calls st) T) = []" if "\<not> ht_destroy_key_fn st" "\<not> ht_destroy_value_fn st" for T
    using that by (simp add: destroy_calls_def)
  show thesis
    by (rule that [of "concat (map (destroy_calls st) (filter (\<lambda>e. e_hash e \<noteq> 0) (ht_slots st)))" st'])
      (use i sf ml same_fns_keys(3) [OF sf] v(3) nn in \<open>auto simp: aws_hash_table_clear_def st'_def c\<close>)
qed

section \<open>Comparison of tables\<close>

lemma class_eq: "ht_fns_ok st \<Longrightarrow> {k. s_hash_keys_eq st a k} = {k. s_hash_keys_eq st b k} \<longleftrightarrow> s_hash_keys_eq st a b"
  using keys_eq_equiv(1) [of st] keys_eq_equiv(2) [of st] keys_eq_equiv(3) [of st] by blast

lemma card_key_classes:
  assumes "ht_fns_ok st" "keys_distinct st M"
  shows "card ((\<lambda>e. {k. s_hash_keys_eq st (e_key e) k}) ` set_mset M) = size M"
  using assms(2)
proof (induction M)
  case (add x M)
  have d: "keys_distinct st M" "\<forall>e \<in># M. \<not> s_hash_keys_eq st (e_key x) (e_key e)"
    using add.prems keys_distinct_add [OF assms(1)] by auto
  then have "{k. s_hash_keys_eq st (e_key x) k} \<notin> (\<lambda>e. {k. s_hash_keys_eq st (e_key e) k}) ` set_mset M"
    using class_eq [OF assms(1)] by (metis (no_types, lifting) imageE)
  then show ?case using add.IH [OF d(1)] by simp
qed simp

lemma in_key_classes:
  assumes "ht_inv st" shows "{x. s_hash_keys_eq st k x} \<in> key_classes st \<longleftrightarrow> ht_lookup st k \<noteq> None"
  using class_eq [OF ht_invD(3) [OF assms], of k] by (auto simp: key_classes_def ht_lookup_None key_absent_def)

lemma lookup_cong:
  assumes "ht_fns_ok st" "s_hash_keys_eq st k k'" shows "ht_lookup st k = ht_lookup st k'"
proof -
  have "s_hash_keys_eq st k x = s_hash_keys_eq st k' x" for x using class_eq [OF assms(1), of k k'] assms(2) by blast
  then show ?thesis by (simp add: ht_lookup_def)
qed

lemma eq_loop_ok:
  assumes inv: "ht_inv b"
  shows "eq_loop T b veq = Inr (\<forall>e \<in># ents T. \<exists>v. ht_lookup b (e_key e) = Some v \<and> s_safe_eq_check veq (e_value e) v)"
proof (induction T)
  case (Cons e T)
  have "ents (e # T) = (if e_hash e = 0 then ents T else add_mset e (ents T))" by (simp add: ents_def)
  then show ?case using Cons.IH find_law [OF inv, of "e_key e"]
    by (auto simp: slot_get_def split: sum.splits option.splits)
qed (simp add: ents_def)

lemma eq_law:
  assumes a: "ht_inv a" and b: "ht_inv b" and sf: "same_fns a b"
  shows "aws_hash_table_eq (Some a) (Some b) veq =
    Inr (\<forall>k. rel_option (s_safe_eq_check veq) (ht_lookup a k) (ht_lookup b k))"
proof -
  note va = ht_invD [OF a] and vb = ht_invD [OF b]
  let ?A = "ents (ht_slots a)" and ?P = "\<forall>k. rel_option (s_safe_eq_check veq) (ht_lookup a k) (ht_lookup b k)"
  let ?Q = "\<forall>e \<in># ents (ht_slots a). \<exists>v. ht_lookup b (e_key e) = Some v \<and> s_safe_eq_check veq (e_value e) v"
  have ca: "card (key_classes a) = unat (ht_entry_count a)" using card_key_classes [OF va(3,4)] va(6) by (simp add: key_classes_def)
  have cb: "card (key_classes b) = unat (ht_entry_count b)" using card_key_classes [OF vb(3,4)] vb(6) by (simp add: key_classes_def)
  have lk: "ht_lookup a (e_key e) = Some (e_value e)" if "e \<in># ?A" for e
    using ht_lookup_Some [OF va(3,4) that] keys_eq_equiv(1) [OF va(3)] by blast
  have ina: "{x. s_hash_keys_eq a k x} \<in> key_classes a \<longleftrightarrow> ht_lookup a k \<noteq> None" for k by (rule in_key_classes [OF a])
  have inb: "{x. s_hash_keys_eq a k x} \<in> key_classes b \<longleftrightarrow> ht_lookup b k \<noteq> None" for k
    using in_key_classes [OF b, of k] by (simp add: same_fns_keys [OF sf])
  have fin: "finite (key_classes b)" by (simp add: key_classes_def)
  have resp: "ht_lookup b k = ht_lookup b k'" if "s_hash_keys_eq a k k'" for k k'
    using lookup_cong [OF vb(3)] that by (simp add: same_fns_keys [OF sf])
  have "?P" if q: ?Q and n: "ht_entry_count a = ht_entry_count b"
  proof -
    have sub: "key_classes a \<subseteq> key_classes b"
      unfolding key_classes_def [of a] using q inb by (metis (no_types, lifting) image_subsetI option.simps(3))
    then have eq: "key_classes a = key_classes b" using fin ca cb n by (simp add: card_subset_eq)
    show ?P
    proof
      fix k
      show "rel_option (s_safe_eq_check veq) (ht_lookup a k) (ht_lookup b k)"
      proof (cases "key_absent a k")
        case True
        then have "ht_lookup a k = None" "ht_lookup b k = None" using ina [of k] inb [of k] eq by (auto simp: ht_lookup_None)
        then show ?thesis by simp
      next
        case False
        then obtain e where e: "e \<in># ?A" "s_hash_keys_eq a k (e_key e)" by (auto simp: key_absent_def)
        then obtain v where "ht_lookup b (e_key e) = Some v" "s_safe_eq_check veq (e_value e) v" using q by blast
        then show ?thesis using ht_lookup_Some [OF va(3,4) e] resp [OF e(2)] by simp
      qed
    qed
  qed
  moreover have "?Q \<and> ht_entry_count a = ht_entry_count b" if p: ?P
  proof
    show ?Q
    proof
      fix e assume "e \<in># ?A"
      then show "\<exists>v. ht_lookup b (e_key e) = Some v \<and> s_safe_eq_check veq (e_value e) v"
        using lk p [rule_format, of "e_key e"] by (cases "ht_lookup b (e_key e)") simp_all
    qed
    have n: "ht_lookup a k = None \<longleftrightarrow> ht_lookup b k = None" for k using p [rule_format, of k] by (cases "ht_lookup a k"; cases "ht_lookup b k") simp_all
    have "key_classes a = key_classes b"
    proof
      show "key_classes a \<subseteq> key_classes b"
        unfolding key_classes_def [of a] using inb n lk by (metis (no_types, lifting) image_subsetI option.simps(3))
      show "key_classes b \<subseteq> key_classes a"
      proof
        fix X assume "X \<in> key_classes b"
        then obtain e where e: "e \<in># ents (ht_slots b)" "X = {k. s_hash_keys_eq a (e_key e) k}"
          by (auto simp: key_classes_def same_fns_keys [OF sf])
        have "ht_lookup b (e_key e) \<noteq> None"
          using ht_lookup_Some [OF vb(3,4) e(1)] keys_eq_equiv(1) [OF vb(3)] by simp
        then have "ht_lookup a (e_key e) \<noteq> None" by (simp only: n not_False_eq_True)
        then show "X \<in> key_classes a" unfolding e(2) ina .
      qed
    qed
    then show "ht_entry_count a = ht_entry_count b" using ca cb by (metis word_unat_eq_iff)
  qed
  ultimately have "?P \<longleftrightarrow> ht_entry_count a = ht_entry_count b \<and> ?Q" by blast
  then show ?thesis by (simp add: aws_hash_table_eq_def eq_loop_ok [OF b])
qed

section \<open>The contract of a key-value store\<close>

locale key_value_store =
  fixes invar :: "'s \<Rightarrow> bool" and lookup :: "'s \<Rightarrow> 'k \<Rightarrow> 'v option" and same :: "'s \<Rightarrow> 'k \<Rightarrow> 'k \<Rightarrow> bool"
    and put :: "'s \<Rightarrow> 'k \<Rightarrow> 'v \<Rightarrow> bool res \<times> 's" and del :: "'s \<Rightarrow> 'k \<Rightarrow> 'v option res \<times> 's"
    and get :: "'s \<Rightarrow> 'k \<Rightarrow> 'v option res"
  assumes put_done: "invar s \<Longrightarrow> put s k v = (Inr b, s') \<Longrightarrow>
      invar s' \<and> same s' = same s \<and> b = (lookup s k = None) \<and>
      (\<forall>x. lookup s' x = (if same s k x then Some v else lookup s x))"
    and put_failed: "invar s \<Longrightarrow> put s k v = (Inl e, s') \<Longrightarrow> s' = s \<and> lookup s k = None \<and> (\<exists>c. e = Raised c)"
    and deleted: "invar s \<Longrightarrow> \<exists>s'. del s k = (Inr (lookup s k), s') \<and> invar s' \<and> same s' = same s \<and>
      (\<forall>x. lookup s' x = (if same s k x then None else lookup s x))"
    and got: "invar s \<Longrightarrow> get s k = Inr (lookup s k)"
begin

lemma run_accepted:
  assumes "invar s" "kv_run put del get s ops = (t, s')"
  shows "kv_accepts (same s) (lookup s) t = Some (lookup s') \<and> invar s' \<and> same s' = same s"
  using assms
proof (induction ops arbitrary: s t s')
  case (Cons op ops)
  show ?case
  proof (cases op)
    case (Put k v)
    obtain r s1 where p: "put s k v = (r, s1)" by (metis surj_pair)
    obtain t1 s2 where r: "kv_run put del get s1 ops = (t1, s2)" by (metis surj_pair)
    show ?thesis
    proof (cases r)
      case (Inl e)
      then obtain c where c: "s1 = s" "lookup s k = None" "e = Raised c" using put_failed [OF Cons.prems(1)] p by blast
      then show ?thesis using Cons.IH [OF Cons.prems(1), of t1] Cons.prems(2) Put p Inl r by auto
    next
      case (Inr b)
      then have d: "invar s1" "same s1 = same s" "b = (lookup s k = None)"
        "lookup s1 = (\<lambda>x. if same s k x then Some v else lookup s x)"
        using put_done [OF Cons.prems(1)] p by blast+
      show ?thesis using Cons.IH [OF d(1) r] Cons.prems(2) Put p Inr r d by auto
    qed
  next
    case (Del k)
    obtain s1 where d: "del s k = (Inr (lookup s k), s1)" "invar s1" "same s1 = same s"
      "lookup s1 = (\<lambda>x. if same s k x then None else lookup s x)"
      using deleted [OF Cons.prems(1)] by blast
    obtain t1 s2 where r: "kv_run put del get s1 ops = (t1, s2)" by (metis surj_pair)
    show ?thesis using Cons.IH [OF d(2) r] Cons.prems(2) Del r d by auto
  next
    case (Get k)
    obtain t1 s2 where r: "kv_run put del get s ops = (t1, s2)" by (metis surj_pair)
    show ?thesis using Cons.IH [OF Cons.prems(1) r] Cons.prems(2) Get r got [OF Cons.prems(1)] by auto
  qed
qed simp

lemma put_then_get: "invar s \<Longrightarrow> put s k v = (Inr b, s') \<Longrightarrow> same s k x \<Longrightarrow> get s' x = Inr (Some v)"
  using put_done got by metis

lemma del_then_get: "invar s \<Longrightarrow> del s k = (Inr r, s') \<Longrightarrow> same s k x \<Longrightarrow> get s' x = Inr None"
  using deleted [of s k] got by fastforce

end

lemma put_cases:
  assumes inv: "ht_inv st"
  obtains (stored) calls st' where "aws_hash_table_put (Some st) key v = (Inr (key_absent st key), calls, Some st')"
      "ht_inv st'" "same_fns st st'" "\<forall>k. ht_lookup st' k = (if s_hash_keys_eq st key k then Some v else ht_lookup st k)"
      "size (ents (ht_slots st')) = size (ents (ht_slots st)) + (if key_absent st key then 1 else 0)"
    "if key_absent st key then calls = []
     else \<exists>e. e \<in># ents (ht_slots st) \<and> s_hash_keys_eq st key (e_key e) \<and>
       calls = (if e_key e \<noteq> key \<and> ht_destroy_key_fn st then [DestroyKey (e_key e)] else []) @
         (if ht_destroy_value_fn st then [DestroyValue (e_value e)] else [])"
  | (full) "aws_hash_table_put (Some st) key v = (aws_raise_error AWS_ERROR_OVERFLOW_DETECTED, [], Some st)"
      "key_absent st key" "\<not> room_to_add st"
  using put_law [OF inv, of key v] put_full_law [OF inv, of key v] by blast

interpretation ht: key_value_store ht_inv ht_lookup s_hash_keys_eq table_put table_remove table_find
proof
  fix st st' :: "('k, 'v) hash_table_state" and k v b
  assume inv: "ht_inv st" and p: "table_put st k v = (Inr b, st')"
  show "ht_inv st' \<and> s_hash_keys_eq st' = s_hash_keys_eq st \<and> b = (ht_lookup st k = None) \<and>
      (\<forall>x. ht_lookup st' x = (if s_hash_keys_eq st k x then Some v else ht_lookup st x))"
    by (cases rule: put_cases [OF inv, of k v]) (use p in \<open>auto simp: table_put_def ht_lookup_None same_fns_keys\<close>)
next
  fix st st' :: "('k, 'v) hash_table_state" and k v e
  assume inv: "ht_inv st" and p: "table_put st k v = (Inl e, st')"
  show "st' = st \<and> ht_lookup st k = None \<and> (\<exists>c. e = Raised c)"
    by (cases rule: put_cases [OF inv, of k v]) (use p in \<open>auto simp: table_put_def ht_lookup_None\<close>)
next
  fix st :: "('k, 'v) hash_table_state" and k
  assume inv: "ht_inv st"
  show "\<exists>st'. table_remove st k = (Inr (ht_lookup st k), st') \<and> ht_inv st' \<and> s_hash_keys_eq st' = s_hash_keys_eq st \<and>
      (\<forall>x. ht_lookup st' x = (if s_hash_keys_eq st k x then None else ht_lookup st x))"
    by (rule remove_law [OF inv, of k False]) (auto simp: table_remove_def same_fns_keys)
  show "table_find st k = Inr (ht_lookup st k)"
    using find_law [OF inv, of k] by (auto simp: table_find_def slot_get_def split: sum.splits option.splits)
qed

lemma ht_inv_is_valid: "ht_inv st \<Longrightarrow> aws_hash_table_is_valid (Some st)"
  using ht_inv_valid by (simp add: aws_hash_table_is_valid_def)

section \<open>Properties\<close>

lemma demo_table_inv: "ht_inv demo_table"
proof -
  have "hashing_ok (id :: u64 \<Rightarrow> u64) (=)" by (simp add: hashing_ok_def)
  then obtain st where "(aws_hash_table_init 0 2 id (=) True True :: (u64, u64) hash_table res) = Inr (Some st)" "ht_inv st"
    by (rule init_law [of id "(=)" 2]) simp
  then show ?thesis by (simp add: demo_table_def)
qed

lemma demo_filled_inv: "ht_inv demo_filled"
  unfolding demo_filled_def using ht.run_accepted [OF demo_table_inv] by (metis prod.collapse)

text \<open>
  (C4) A table created by \<open>aws_hash_table_init\<close>, with a hash function that respects the comparison, behaves
  as a map from keys, up to the comparison, to values: for every sequence of puts, removals and finds each
  result is the one of the map, except that a put of a new key may fail with a raised error and then changes
  nothing.  The table stays valid throughout.
\<close>

theorem hash_table_refines_map:
  fixes hash_fn :: "'k \<Rightarrow> u64" and ops :: "('k option, 'v option) kv_op list"
  assumes "hashing_ok hash_fn eq_fn" "unat sz \<le> 2 ^ 59"
  shows "\<exists>st. aws_hash_table_init alloc sz hash_fn eq_fn dk dv = Inr (Some st) \<and>
    (case kv_run table_put table_remove table_find st ops of (trace, st') \<Rightarrow>
       kv_accepts (s_safe_eq_check eq_fn) (\<lambda>k. None) trace = Some (ht_lookup st') \<and> aws_hash_table_is_valid (Some st'))"
proof (rule init_law [OF assms, of alloc dk dv])
  fix st :: "('k, 'v) hash_table_state"
  assume st: "aws_hash_table_init alloc sz hash_fn eq_fn dk dv = Inr (Some st)" "ht_inv st"
    "\<And>k. ht_lookup st k = None" "ht_equals_fn st = eq_fn"
  obtain trace st' where r: "kv_run table_put table_remove table_find st ops = (trace, st')" by (metis surj_pair)
  have "ht_lookup st = (\<lambda>k. None)" by (rule ext) (simp add: st(3))
  moreover have "s_hash_keys_eq st = s_safe_eq_check eq_fn" by (intro ext) (simp add: st(4) s_hash_keys_eq_def)
  ultimately show ?thesis using st(1) ht.run_accepted [OF st(2) r] r ht_inv_is_valid by auto
qed

theorem hash_table_refines_map_witness:
  "\<exists>st. aws_hash_table_init 0 2 (id :: u64 \<Rightarrow> u64) (=) True True = Inr (Some st) \<and>
    (case kv_run table_put table_remove table_find st [Put (Some 1) (Some (5 :: u64)), Get (Some 1)] of (trace, st') \<Rightarrow>
       kv_accepts (s_safe_eq_check (=)) (\<lambda>k. None) trace = Some (ht_lookup st') \<and> aws_hash_table_is_valid (Some st'))"
  by (rule hash_table_refines_map) (simp_all add: hashing_ok_def)

text \<open>
  (C15) The Robin Hood search of \<open>aws_hash_table_find\<close> ends on every table that satisfies the invariant, finds
  the entry of a key that is present and reports an absent key as absent.
\<close>

theorem hash_table_find_correct:
  assumes "ht_inv st"
  shows "case aws_hash_table_find (Some st) key of
      Inr (Some i) \<Rightarrow> unat i < length (ht_slots st) \<and> e_hash (ht_slots st ! unat i) \<noteq> 0 \<and>
        s_hash_keys_eq st key (e_key (ht_slots st ! unat i))
    | Inr None \<Rightarrow> (\<forall>i < length (ht_slots st). e_hash (ht_slots st ! i) = 0 \<or>
        \<not> s_hash_keys_eq st key (e_key (ht_slots st ! i)))
    | Inl e \<Rightarrow> False"
proof (cases rule: find_cases [OF assms, of key])
  case (1 idx p)
  then show ?thesis by (simp add: aws_hash_table_find_def)
next
  case (2 idx p)
  then show ?thesis using nth_filter_mset [of _ "ht_slots st"]
    by (auto simp: aws_hash_table_find_def key_absent_def)
qed

theorem hash_table_find_correct_witness:
  "\<exists>i. aws_hash_table_find (Some demo_filled) (Some 9) = Inr (Some i) \<and>
     s_hash_keys_eq demo_filled (Some 9) (e_key (ht_slots demo_filled ! unat i))"
proof -
  have "aws_hash_table_find (Some demo_filled) (Some 9) \<noteq> Inr None" by code_simp
  then show ?thesis using hash_table_find_correct [OF demo_filled_inv, of "Some 9"]
    by (auto split: sum.splits option.splits)
qed

text \<open>
  (C14) \<open>aws_hash_table_put\<close> reports whether the key is new, leaves every other key alone and counts the new
  entry; for a key that was present it calls the destructors on the old value and on the old key when that is
  another object.  When the table would have to grow beyond the address space it raises
  \<open>AWS_ERROR_OVERFLOW_DETECTED\<close> and changes nothing.
\<close>

theorem hash_table_put_correct:
  assumes "ht_inv st"
  shows "case aws_hash_table_put (Some st) key v of
      (Inr created, calls, Some st') \<Rightarrow>
        ht_inv st' \<and> created = (ht_lookup st key = None) \<and>
        (\<forall>k. ht_lookup st' k = (if s_hash_keys_eq st key k then Some v else ht_lookup st k)) \<and>
        unat (ht_entry_count st') = unat (ht_entry_count st) + (if created then 1 else 0) \<and>
        (if created then calls = []
         else \<exists>e. e \<in># ents (ht_slots st) \<and> s_hash_keys_eq st key (e_key e) \<and>
           calls = (if e_key e \<noteq> key \<and> ht_destroy_key_fn st then [DestroyKey (e_key e)] else []) @
             (if ht_destroy_value_fn st then [DestroyValue (e_value e)] else []))
    | (Inl e, calls, Some st') \<Rightarrow> e = Raised AWS_ERROR_OVERFLOW_DETECTED \<and> calls = [] \<and> st' = st \<and>
        ht_lookup st key = None \<and> ht_entry_count st = ht_max_load st \<and> 2 ^ 64 \<le> 48 * unat (ht_size st) + 80
    | (_, _, None) \<Rightarrow> False"
proof (cases rule: put_cases [OF assms, of key v])
  case (1 calls st')
  then show ?thesis using ht_invD(6) [OF assms] ht_invD(6) [OF 1(2)] by (simp add: ht_lookup_None)
next
  case 2
  have "ht_entry_count st \<le> ht_max_load st" using assms unfolding ht_inv_def by blast
  then have "ht_entry_count st = ht_max_load st" using 2(3)
    by (simp add: room_to_add_def word_le_nat_alt word_unat_eq_iff)
  then show ?thesis using 2 by (simp add: ht_lookup_None room_to_add_def can_double_def)
qed

theorem hash_table_put_correct_witness:
  "\<exists>st'. aws_hash_table_put (Some demo_filled) (Some 9) (Some 92) = (Inr False, [DestroyValue (Some 91)], Some st') \<and>
     ht_inv st' \<and> ht_lookup st' (Some 9) = Some (Some 92)"
proof -
  have "fst (aws_hash_table_put (Some demo_filled) (Some 9) (Some 92)) = Inr False"
    "fst (snd (aws_hash_table_put (Some demo_filled) (Some 9) (Some 92))) = [DestroyValue (Some 91)]"
    "s_hash_keys_eq demo_filled (Some 9) (Some 9)" by code_simp+
  then show ?thesis using hash_table_put_correct [OF demo_filled_inv, of "Some 9" "Some 92"]
    by (auto split: sum.splits option.splits prod.splits)
qed

text \<open>
  (C16) \<open>aws_hash_table_remove\<close> reports and returns the removed element exactly when the key was present, keeps
  every other key, and runs the destructors of the element exactly when the caller did not ask for it.
\<close>

theorem hash_table_remove_correct:
  assumes "ht_inv st"
  shows "\<exists>r calls st'. aws_hash_table_remove (Some st) key want = (Inr r, calls, Some st') \<and> ht_inv st' \<and>
    map_option snd r = ht_lookup st key \<and>
    (\<forall>k. ht_lookup st' k = (if s_hash_keys_eq st key k then None else ht_lookup st k)) \<and>
    unat (ht_entry_count st) = unat (ht_entry_count st') + (if r = None then 0 else 1) \<and>
    calls = (case r of None \<Rightarrow> [] | Some (k, v) \<Rightarrow> if want then [] else
       (if ht_destroy_key_fn st then [DestroyKey k] else []) @ (if ht_destroy_value_fn st then [DestroyValue v] else []))"
proof (rule remove_law [OF assms, of key want])
  fix r calls st' assume r: "aws_hash_table_remove (Some st) key want = (Inr r, calls, Some st')" "ht_inv st'"
    "map_option snd r = ht_lookup st key" "\<forall>k. ht_lookup st' k = (if s_hash_keys_eq st key k then None else ht_lookup st k)"
    "size (ents (ht_slots st)) = size (ents (ht_slots st')) + (if r = None then 0 else 1)"
    "calls = (case r of None \<Rightarrow> [] | Some (k, v) \<Rightarrow> if want then [] else
       (if ht_destroy_key_fn st then [DestroyKey k] else []) @ (if ht_destroy_value_fn st then [DestroyValue v] else []))"
  show ?thesis
    by (rule exI [of _ r], rule exI [of _ calls], rule exI [of _ st'])
      (use r ht_invD(6) [OF assms] ht_invD(6) [OF r(2)] in simp)
qed

theorem hash_table_remove_correct_witness:
  "\<exists>st'. aws_hash_table_remove (Some demo_filled) (Some 2) False =
       (Inr (Some (Some 2, Some 20)), [DestroyKey (Some 2), DestroyValue (Some 20)], Some st') \<and>
     ht_inv st' \<and> ht_lookup st' (Some 2) = None"
proof -
  have "fst (aws_hash_table_remove (Some demo_filled) (Some 2) False) = Inr (Some (Some 2, Some 20))"
    "ht_destroy_key_fn demo_filled" "ht_destroy_value_fn demo_filled" "s_hash_keys_eq demo_filled (Some 2) (Some 2)"
    by code_simp+
  then show ?thesis using hash_table_remove_correct [OF demo_filled_inv, of "Some 2" False] by auto
qed

text \<open>
  \<open>aws_hash_table_foreach\<close> calls the callback on every entry exactly once, in slot order, until the
  callback stops it or reports an error, and removes exactly the entries for which the callback asked for
  it, although each removal moves later entries back by one slot and may wrap around.
\<close>

theorem hash_table_foreach_correct:
  assumes "ht_inv st"
    and "foreach_spec callback ctx (filter (\<lambda>e. e_hash e \<noteq> 0) (ht_slots st)) = (r, ctx', deleted)"
  shows "\<exists>st'. aws_hash_table_foreach (Some st) callback ctx = (r, ctx', Some st') \<and> ht_inv st' \<and>
    ents (ht_slots st') = ents (ht_slots st) - mset deleted"
  by (rule foreach_law [OF assms]) blast

theorem hash_table_foreach_correct_witness:
  "\<exists>st'. aws_hash_table_foreach (Some demo_filled) (\<lambda>c k v. (if k = Some 9 then 3 else 1, AWS_ERROR_SUCCESS, k # c)) [] =
       (AWS_OP_SUCCESS, [Some 2, Some 9], Some st') \<and> ht_inv st' \<and>
     ents (ht_slots st') = {#\<lparr>e_key = Some 2, e_value = Some 20, e_hash = 2\<rparr>#}"
proof -
  let ?cb = "\<lambda>c k v. (if k = Some 9 then 3 else 1 :: u32, AWS_ERROR_SUCCESS, k # c)"
  have f: "filter (\<lambda>e. e_hash e \<noteq> 0) (ht_slots demo_filled) =
      [\<lparr>e_key = Some 9, e_value = Some 91, e_hash = 9\<rparr>, \<lparr>e_key = Some 2, e_value = Some 20, e_hash = 2\<rparr>]" by code_simp
  have "foreach_spec ?cb [] (filter (\<lambda>e. e_hash e \<noteq> 0) (ht_slots demo_filled)) =
      (AWS_OP_SUCCESS, [Some 2, Some 9], [\<lparr>e_key = Some 9, e_value = Some 91, e_hash = 9\<rparr>])"
    unfolding f by code_simp
  from hash_table_foreach_correct [OF demo_filled_inv this] show ?thesis by (simp add: ents_def f)
qed

text \<open>
  \<open>aws_hash_table_eq\<close> decides whether two tables with the same functions map the same keys to equal
  values, although it only searches the second table for the entries of the first.
\<close>

theorem hash_table_eq_decides:
  assumes "ht_inv a" "ht_inv b" "same_fns a b"
  shows "aws_hash_table_eq (Some a) (Some b) value_eq =
    Inr (\<forall>k. rel_option (s_safe_eq_check value_eq) (ht_lookup a k) (ht_lookup b k))"
  by (rule eq_law [OF assms])

theorem hash_table_eq_decides_witness:
  "aws_hash_table_eq (Some demo_filled) (Some demo_filled) (=) = Inr True"
proof -
  have "s_safe_eq_check ((=) :: u64 \<Rightarrow> u64 \<Rightarrow> bool) v v" for v by (simp add: s_safe_eq_check_def)
  then show ?thesis
    using hash_table_eq_decides [OF demo_filled_inv demo_filled_inv, of "(=)"]
    by (simp add: same_fns_def option.rel_refl)
qed

text \<open>
  The load factor below one means that a table created for a power of two of elements grows before it holds
  them.
\<close>

lemma init_capacity_short:
  assumes "aws_hash_table_init alloc 2 hash_fn eq_fn dk dv = Inr (Some st)" shows "ht_max_load st = 1"
proof -
  have l: "load_limit 2 = 1" by code_simp
  have u: "unat (2 :: size_t) = 2 ^ 1" by simp
  show ?thesis using assms
    by (auto simp: aws_hash_table_init_def Let_def s_alloc_state_def update_template_pow2 [OF u] l split: sum.splits)
qed

end
