(* ===== verification/Linked_List.thy ===== *)
theory Linked_List
  imports Aws_Prelude
begin

text \<open>
  The intrusive doubly linked list of \<open>include/aws/common/linked_list.inl\<close>.

  Nodes live in a heap, a map from addresses to nodes; a pointer is an address or \<open>None\<close> for \<open>NULL\<close>, and
  following a pointer that is \<open>NULL\<close> or points to no node is \<open>Inl Undefined\<close>.  A list is the pair of the
  addresses of its \<open>head\<close> and \<open>tail\<close> members.  Every operation reads and writes the heap statement by
  statement as the source does, so that aliasing between nodes, neighbours and the two end members is the
  aliasing of the source.  The traversal of \<open>aws_linked_list_is_valid_deep\<close> takes fuel; running out of it is
  \<open>Inl Diverged\<close>.
\<close>

section \<open>Nodes and the heap\<close>

record 'a linked_list_node =
  n_next :: "'a option"
  n_prev :: "'a option"

record 'a linked_list =
  ll_head :: 'a
  ll_tail :: 'a

type_synonym 'a ll_heap = "'a \<Rightarrow> 'a linked_list_node option"

definition load_node :: "'a ll_heap \<Rightarrow> 'a option \<Rightarrow> 'a linked_list_node res" where
  "load_node h p =
     (case p of
        None \<Rightarrow> Inl Undefined
      | Some a \<Rightarrow> (case h a of None \<Rightarrow> Inl Undefined | Some n \<Rightarrow> Inr n))"

definition store_node :: "'a ll_heap \<Rightarrow> 'a option \<Rightarrow> 'a linked_list_node \<Rightarrow> 'a ll_heap res" where
  "store_node h p n = bind_res (load_node h p) (\<lambda>_. Inr (h(the p \<mapsto> n)))"

definition load_next :: "'a ll_heap \<Rightarrow> 'a option \<Rightarrow> 'a option res" where
  "load_next h p = bind_res (load_node h p) (\<lambda>n. Inr (n_next n))"

definition load_prev :: "'a ll_heap \<Rightarrow> 'a option \<Rightarrow> 'a option res" where
  "load_prev h p = bind_res (load_node h p) (\<lambda>n. Inr (n_prev n))"

definition store_next :: "'a ll_heap \<Rightarrow> 'a option \<Rightarrow> 'a option \<Rightarrow> 'a ll_heap res" where
  "store_next h p v = bind_res (load_node h p) (\<lambda>n. store_node h p (n\<lparr>n_next := v\<rparr>))"

definition store_prev :: "'a ll_heap \<Rightarrow> 'a option \<Rightarrow> 'a option \<Rightarrow> 'a ll_heap res" where
  "store_prev h p v = bind_res (load_node h p) (\<lambda>n. store_node h p (n\<lparr>n_prev := v\<rparr>))"

abbreviation head_of :: "'a linked_list \<Rightarrow> 'a option" where
  "head_of l \<equiv> Some (ll_head l)"

abbreviation tail_of :: "'a linked_list \<Rightarrow> 'a option" where
  "tail_of l \<equiv> Some (ll_tail l)"

section \<open>Queries\<close>

definition aws_linked_list_node_reset :: "'a ll_heap \<Rightarrow> 'a option \<Rightarrow> 'a ll_heap res" where
  "aws_linked_list_node_reset h node = store_node h node \<lparr>n_next = None, n_prev = None\<rparr>"

definition aws_linked_list_empty :: "'a ll_heap \<Rightarrow> 'a linked_list \<Rightarrow> bool res" where
  "aws_linked_list_empty h list = bind_res (load_next h (head_of list)) (\<lambda>p. Inr (p = tail_of list))"

definition aws_linked_list_is_valid :: "'a ll_heap \<Rightarrow> 'a linked_list option \<Rightarrow> bool res" where
  "aws_linked_list_is_valid h list =
     (case list of
        None \<Rightarrow> Inr False
      | Some list \<Rightarrow>
          bind_res (load_node h (head_of list)) (\<lambda>hd_node.
          bind_res (load_node h (tail_of list)) (\<lambda>tl_node.
            Inr (n_next hd_node \<noteq> None \<and> n_prev hd_node = None \<and> n_prev tl_node \<noteq> None \<and> n_next tl_node = None))))"

definition aws_linked_list_node_next_is_valid :: "'a ll_heap \<Rightarrow> 'a option \<Rightarrow> bool res" where
  "aws_linked_list_node_next_is_valid h node =
     (if node = None then Inr False
      else bind_res (load_next h node) (\<lambda>p.
             if p = None then Inr False else bind_res (load_prev h p) (\<lambda>q. Inr (q = node))))"

definition aws_linked_list_node_prev_is_valid :: "'a ll_heap \<Rightarrow> 'a option \<Rightarrow> bool res" where
  "aws_linked_list_node_prev_is_valid h node =
     (if node = None then Inr False
      else bind_res (load_prev h node) (\<lambda>p.
             if p = None then Inr False else bind_res (load_next h p) (\<lambda>q. Inr (q = node))))"

fun valid_deep_loop :: "nat \<Rightarrow> 'a ll_heap \<Rightarrow> 'a linked_list \<Rightarrow> 'a option \<Rightarrow> bool res" where
  "valid_deep_loop 0 h list temp = Inl Diverged"
| "valid_deep_loop (Suc fuel) h list temp =
     (if temp = None then Inr False
      else if temp = tail_of list then Inr True
      else bind_res (aws_linked_list_node_next_is_valid h temp) (\<lambda>ok.
             if \<not> ok then Inr False
             else bind_res (load_next h temp) (\<lambda>temp. valid_deep_loop fuel h list temp)))"

definition aws_linked_list_is_valid_deep :: "nat \<Rightarrow> 'a ll_heap \<Rightarrow> 'a linked_list option \<Rightarrow> bool res" where
  "aws_linked_list_is_valid_deep fuel h list =
     (case list of None \<Rightarrow> Inr False | Some list \<Rightarrow> valid_deep_loop fuel h list (head_of list))"

definition aws_linked_list_init :: "'a ll_heap \<Rightarrow> 'a linked_list \<Rightarrow> 'a ll_heap res" where
  "aws_linked_list_init h list =
     bind_res (store_next h (head_of list) (tail_of list)) (\<lambda>h.
     bind_res (store_prev h (head_of list) None) (\<lambda>h.
     bind_res (store_prev h (tail_of list) (head_of list)) (\<lambda>h.
       store_next h (tail_of list) None)))"

definition aws_linked_list_begin :: "'a ll_heap \<Rightarrow> 'a linked_list \<Rightarrow> 'a option res" where
  "aws_linked_list_begin h list = load_next h (head_of list)"

definition aws_linked_list_end :: "'a linked_list \<Rightarrow> 'a option" where
  "aws_linked_list_end list = tail_of list"

definition aws_linked_list_rbegin :: "'a ll_heap \<Rightarrow> 'a linked_list \<Rightarrow> 'a option res" where
  "aws_linked_list_rbegin h list = load_prev h (tail_of list)"

definition aws_linked_list_rend :: "'a linked_list \<Rightarrow> 'a option" where
  "aws_linked_list_rend list = head_of list"

definition aws_linked_list_next :: "'a ll_heap \<Rightarrow> 'a option \<Rightarrow> 'a option res" where
  "aws_linked_list_next h node = load_next h node"

definition aws_linked_list_prev :: "'a ll_heap \<Rightarrow> 'a option \<Rightarrow> 'a option res" where
  "aws_linked_list_prev h node = load_prev h node"

section \<open>Updates\<close>

definition aws_linked_list_insert_after :: "'a ll_heap \<Rightarrow> 'a option \<Rightarrow> 'a option \<Rightarrow> 'a ll_heap res" where
  "aws_linked_list_insert_after h after to_add =
     bind_res (store_prev h to_add after) (\<lambda>h.
     bind_res (load_next h after) (\<lambda>nx.
     bind_res (store_next h to_add nx) (\<lambda>h.
     bind_res (load_next h after) (\<lambda>nx.
     bind_res (store_prev h nx to_add) (\<lambda>h.
       store_next h after to_add)))))"

definition aws_linked_list_swap_nodes :: "'a ll_heap \<Rightarrow> 'a option \<Rightarrow> 'a option \<Rightarrow> 'a ll_heap res" where
  "aws_linked_list_swap_nodes h a b =
     (if a = b then Inr h
      else
        bind_res (load_node h b) (\<lambda>tmp.
        bind_res (load_prev h a) (\<lambda>p.
        bind_res (store_next h p b) (\<lambda>h.
        bind_res (load_next h a) (\<lambda>n.
        bind_res (store_prev h n b) (\<lambda>h.
        bind_res (store_next h (n_prev tmp) a) (\<lambda>h.
        bind_res (store_prev h (n_next tmp) a) (\<lambda>h.
        bind_res (load_node h a) (\<lambda>tmp.
        bind_res (load_node h b) (\<lambda>node_b.
        bind_res (store_node h a node_b) (\<lambda>h.
          store_node h b tmp)))))))))))"

definition aws_linked_list_insert_before :: "'a ll_heap \<Rightarrow> 'a option \<Rightarrow> 'a option \<Rightarrow> 'a ll_heap res" where
  "aws_linked_list_insert_before h before to_add =
     bind_res (store_next h to_add before) (\<lambda>h.
     bind_res (load_prev h before) (\<lambda>pv.
     bind_res (store_prev h to_add pv) (\<lambda>h.
     bind_res (load_prev h before) (\<lambda>pv.
     bind_res (store_next h pv to_add) (\<lambda>h.
       store_prev h before to_add)))))"

definition aws_linked_list_remove :: "'a ll_heap \<Rightarrow> 'a option \<Rightarrow> 'a ll_heap res" where
  "aws_linked_list_remove h node =
     bind_res (load_node h node) (\<lambda>n.
     bind_res (store_next h (n_prev n) (n_next n)) (\<lambda>h.
     bind_res (load_node h node) (\<lambda>n.
     bind_res (store_prev h (n_next n) (n_prev n)) (\<lambda>h.
       aws_linked_list_node_reset h node))))"

definition aws_linked_list_push_back :: "'a ll_heap \<Rightarrow> 'a linked_list \<Rightarrow> 'a option \<Rightarrow> 'a ll_heap res" where
  "aws_linked_list_push_back h list node = aws_linked_list_insert_before h (tail_of list) node"

definition aws_linked_list_back :: "'a ll_heap \<Rightarrow> 'a linked_list \<Rightarrow> 'a option res" where
  "aws_linked_list_back h list = load_prev h (tail_of list)"

definition aws_linked_list_pop_back :: "'a ll_heap \<Rightarrow> 'a linked_list \<Rightarrow> ('a option \<times> 'a ll_heap) res" where
  "aws_linked_list_pop_back h list =
     bind_res (aws_linked_list_back h list) (\<lambda>back.
     bind_res (aws_linked_list_remove h back) (\<lambda>h. Inr (back, h)))"

definition aws_linked_list_push_front :: "'a ll_heap \<Rightarrow> 'a linked_list \<Rightarrow> 'a option \<Rightarrow> 'a ll_heap res" where
  "aws_linked_list_push_front h list node =
     bind_res (load_next h (head_of list)) (\<lambda>nx. aws_linked_list_insert_before h nx node)"

definition aws_linked_list_front :: "'a ll_heap \<Rightarrow> 'a linked_list \<Rightarrow> 'a option res" where
  "aws_linked_list_front h list = load_next h (head_of list)"

definition aws_linked_list_pop_front :: "'a ll_heap \<Rightarrow> 'a linked_list \<Rightarrow> ('a option \<times> 'a ll_heap) res" where
  "aws_linked_list_pop_front h list =
     bind_res (aws_linked_list_front h list) (\<lambda>front.
     bind_res (aws_linked_list_remove h front) (\<lambda>h. Inr (front, h)))"

section \<open>Two lists\<close>

text \<open>The branches of \<open>aws_linked_list_swap_contents\<close>: give \<open>list\<close> the nodes from \<open>first\<close> to \<open>last\<close>.\<close>

definition attach_nodes ::
  "'a ll_heap \<Rightarrow> 'a linked_list \<Rightarrow> 'a option \<Rightarrow> 'a option \<Rightarrow> 'a ll_heap res" where
  "attach_nodes h list first last_node =
     bind_res (store_next h (head_of list) first) (\<lambda>h.
     bind_res (load_next h (head_of list)) (\<lambda>p.
     bind_res (store_prev h p (head_of list)) (\<lambda>h.
     bind_res (store_prev h (tail_of list) last_node) (\<lambda>h.
     bind_res (load_prev h (tail_of list)) (\<lambda>p.
       store_next h p (tail_of list))))))"

definition aws_linked_list_swap_contents ::
  "'a ll_heap \<Rightarrow> 'a linked_list \<Rightarrow> 'a linked_list \<Rightarrow> 'a ll_heap res" where
  "aws_linked_list_swap_contents h a b =
     bind_res (load_next h (head_of a)) (\<lambda>a_first.
     bind_res (load_prev h (tail_of a)) (\<lambda>a_last.
     bind_res (aws_linked_list_empty h b) (\<lambda>b_empty.
     bind_res (if b_empty then aws_linked_list_init h a
               else bind_res (load_next h (head_of b)) (\<lambda>b_first.
                    bind_res (load_prev h (tail_of b)) (\<lambda>b_last. attach_nodes h a b_first b_last))) (\<lambda>h.
       if a_first = tail_of a then aws_linked_list_init h b
       else attach_nodes h b a_first a_last))))"

definition aws_linked_list_move_all_back ::
  "'a ll_heap \<Rightarrow> 'a linked_list \<Rightarrow> 'a linked_list \<Rightarrow> 'a ll_heap res" where
  "aws_linked_list_move_all_back h dst src =
     bind_res (aws_linked_list_empty h src) (\<lambda>src_empty.
       if src_empty then Inr h
       else
         bind_res (load_prev h (tail_of dst)) (\<lambda>dst_back.
         bind_res (load_next h (head_of src)) (\<lambda>src_front.
         bind_res (load_prev h (tail_of src)) (\<lambda>src_back.
         bind_res (store_next h dst_back src_front) (\<lambda>h.
         bind_res (store_prev h src_front dst_back) (\<lambda>h.
         bind_res (store_prev h (tail_of dst) src_back) (\<lambda>h.
         bind_res (store_next h src_back (tail_of dst)) (\<lambda>h.
         bind_res (store_next h (head_of src) (tail_of src)) (\<lambda>h.
           store_prev h (tail_of src) (head_of src))))))))))"

definition aws_linked_list_move_all_front ::
  "'a ll_heap \<Rightarrow> 'a linked_list \<Rightarrow> 'a linked_list \<Rightarrow> 'a ll_heap res" where
  "aws_linked_list_move_all_front h dst src =
     bind_res (aws_linked_list_empty h src) (\<lambda>src_empty.
       if src_empty then Inr h
       else
         bind_res (load_next h (head_of dst)) (\<lambda>dst_front.
         bind_res (load_next h (head_of src)) (\<lambda>src_front.
         bind_res (load_prev h (tail_of src)) (\<lambda>src_back.
         bind_res (store_next h (head_of dst) src_front) (\<lambda>h.
         bind_res (store_prev h src_front (head_of dst)) (\<lambda>h.
         bind_res (store_next h src_back dst_front) (\<lambda>h.
         bind_res (store_prev h dst_front src_back) (\<lambda>h.
         bind_res (store_next h (head_of src) (tail_of src)) (\<lambda>h.
           store_prev h (tail_of src) (head_of src))))))))))"

section \<open>Abstraction and invariant\<close>

definition live :: "'a ll_heap \<Rightarrow> 'a \<Rightarrow> bool" where
  "live h a \<longleftrightarrow> h a \<noteq> None"

definition nx :: "'a ll_heap \<Rightarrow> 'a \<Rightarrow> 'a option" where
  "nx h a = (case h a of None \<Rightarrow> None | Some n \<Rightarrow> n_next n)"

definition pv :: "'a ll_heap \<Rightarrow> 'a \<Rightarrow> 'a option" where
  "pv h a = (case h a of None \<Rightarrow> None | Some n \<Rightarrow> n_prev n)"

text \<open>Consecutive nodes point at each other.\<close>

definition chain :: "('a \<Rightarrow> 'a option) \<Rightarrow> ('a \<Rightarrow> 'a option) \<Rightarrow> 'a list \<Rightarrow> bool" where
  "chain n p zs \<longleftrightarrow> successively (\<lambda>a b. n a = Some b \<and> p b = Some a) zs"

definition all_nodes :: "'a linked_list \<Rightarrow> 'a list \<Rightarrow> 'a list" where
  "all_nodes l xs = ll_head l # xs @ [ll_tail l]"

text \<open>The list \<open>l\<close> in the heap \<open>h\<close> holds the nodes \<open>xs\<close>, in this order.\<close>

definition is_list :: "'a ll_heap \<Rightarrow> 'a linked_list \<Rightarrow> 'a list \<Rightarrow> bool" where
  "is_list h l xs \<longleftrightarrow> distinct (all_nodes l xs) \<and> (\<forall>a \<in> set (all_nodes l xs). live h a) \<and>
     chain (nx h) (pv h) (all_nodes l xs) \<and> pv h (ll_head l) = None \<and> nx h (ll_tail l) = None"

text \<open>Heaps that agree outside a set of addresses.\<close>

definition agree_off :: "'a set \<Rightarrow> 'a ll_heap \<Rightarrow> 'a ll_heap \<Rightarrow> bool" where
  "agree_off A h h' \<longleftrightarrow> (\<forall>a. a \<notin> A \<longrightarrow> h' a = h a) \<and> (\<forall>a. live h' a \<longleftrightarrow> live h a)"

definition set_next :: "'a ll_heap \<Rightarrow> 'a \<Rightarrow> 'a option \<Rightarrow> 'a ll_heap" where
  "set_next h a v = h(a \<mapsto> \<lparr>n_next = v, n_prev = pv h a\<rparr>)"

definition set_prev :: "'a ll_heap \<Rightarrow> 'a \<Rightarrow> 'a option \<Rightarrow> 'a ll_heap" where
  "set_prev h a v = h(a \<mapsto> \<lparr>n_next = nx h a, n_prev = v\<rparr>)"

text \<open>
  What a client of the list relies on: \<open>rep s xs\<close> says that the queue in the state \<open>s\<close> holds the nodes
  \<open>xs\<close>, and \<open>free s x\<close> that \<open>x\<close> is a node that is in no list.
\<close>

primrec push_list :: "('s \<Rightarrow> 'a \<Rightarrow> 's res) \<Rightarrow> 's \<Rightarrow> 'a list \<Rightarrow> 's res" where
  "push_list f s [] = Inr s"
| "push_list f s (x # xs) = bind_res (f s x) (\<lambda>s. push_list f s xs)"

primrec pop_list :: "('s \<Rightarrow> ('a option \<times> 's) res) \<Rightarrow> 's \<Rightarrow> nat \<Rightarrow> ('a option list \<times> 's) res" where
  "pop_list f s 0 = Inr ([], s)"
| "pop_list f s (Suc n) = bind_res (f s) (\<lambda>(x, s). bind_res (pop_list f s n) (\<lambda>(xs, s). Inr (x # xs, s)))"

text \<open>A node of the heap that is not one of the list.\<close>

definition spare :: "'a linked_list \<Rightarrow> 'a ll_heap \<Rightarrow> 'a \<Rightarrow> bool" where
  "spare l h x \<longleftrightarrow> live h x \<and> (\<exists>xs. is_list h l xs \<and> x \<notin> set (all_nodes l xs))"

definition exch :: "'a \<Rightarrow> 'a \<Rightarrow> 'a \<Rightarrow> 'a" where
  "exch a b c = (if c = a then b else if c = b then a else c)"

text \<open>Every next pointer of the heap is \<open>NULL\<close> or points to a node.\<close>

definition closed :: "'a ll_heap \<Rightarrow> bool" where
  "closed h \<longleftrightarrow> (\<forall>a b. nx h a = Some b \<longrightarrow> live h b)"

text \<open>A heap of six nodes: the ends 0 and 1 of an empty list, and the ends 4 and 5 of a list of the nodes 2 and 3.\<close>

definition demo_heap :: "nat ll_heap" where
  "demo_heap = [0 \<mapsto> \<lparr>n_next = Some 1, n_prev = None\<rparr>, 1 \<mapsto> \<lparr>n_next = None, n_prev = Some 0\<rparr>,
     2 \<mapsto> \<lparr>n_next = Some 3, n_prev = Some 4\<rparr>, 3 \<mapsto> \<lparr>n_next = Some 5, n_prev = Some 2\<rparr>,
     4 \<mapsto> \<lparr>n_next = Some 2, n_prev = None\<rparr>, 5 \<mapsto> \<lparr>n_next = None, n_prev = Some 3\<rparr>,
     6 \<mapsto> \<lparr>n_next = None, n_prev = None\<rparr>]"

definition list_a :: "nat linked_list" where "list_a = \<lparr>ll_head = 0, ll_tail = 1\<rparr>"

definition list_b :: "nat linked_list" where "list_b = \<lparr>ll_head = 4, ll_tail = 5\<rparr>"

text \<open>A circular list: the node 2 follows the head and points back to it.\<close>

definition ring_heap :: "nat ll_heap" where
  "ring_heap = [0 \<mapsto> \<lparr>n_next = Some 2, n_prev = Some 2\<rparr>, 1 \<mapsto> \<lparr>n_next = None, n_prev = Some 2\<rparr>,
     2 \<mapsto> \<lparr>n_next = Some 0, n_prev = Some 0\<rparr>]"

section \<open>Lemmas\<close>

section \<open>Heap access\<close>

lemma load_node_eq: "load_node h (Some a) = (if live h a then Inr \<lparr>n_next = nx h a, n_prev = pv h a\<rparr> else Inl Undefined)"
  by (auto simp: load_node_def live_def nx_def pv_def split: option.splits)

lemma load_eqs [simp]:
  "load_next h (Some a) = (if live h a then Inr (nx h a) else Inl Undefined)"
  "load_prev h (Some a) = (if live h a then Inr (pv h a) else Inl Undefined)"
  "load_next h None = Inl Undefined" "load_prev h None = Inl Undefined"
  by (auto simp: load_next_def load_prev_def load_node_eq) (auto simp: load_node_def)

lemma store_eqs [simp]:
  "store_next h (Some a) v = (if live h a then Inr (set_next h a v) else Inl Undefined)"
  "store_prev h (Some a) v = (if live h a then Inr (set_prev h a v) else Inl Undefined)"
  "store_node h (Some a) n = (if live h a then Inr (h(a \<mapsto> n)) else Inl Undefined)"
  by (auto simp: store_next_def store_prev_def store_node_def load_node_eq set_next_def set_prev_def)

lemma set_simps [simp]:
  "nx (set_next h a v) = (nx h)(a := v)" "pv (set_next h a v) = pv h"
  "pv (set_prev h a v) = (pv h)(a := v)" "nx (set_prev h a v) = nx h"
  "live (set_next h a v) c \<longleftrightarrow> c = a \<or> live h c" "live (set_prev h a v) c \<longleftrightarrow> c = a \<or> live h c"
  "nx (h(a \<mapsto> n)) = (nx h)(a := n_next n)" "pv (h(a \<mapsto> n)) = (pv h)(a := n_prev n)"
  "live (h(a \<mapsto> n)) c \<longleftrightarrow> c = a \<or> live h c"
  by (auto simp: set_next_def set_prev_def nx_def pv_def live_def fun_eq_iff)

lemma set_other [simp]:
  "c \<noteq> a \<Longrightarrow> set_next h a v c = h c" "c \<noteq> a \<Longrightarrow> set_prev h a v c = h c"
  by (simp_all add: set_next_def set_prev_def)

section \<open>Chains\<close>

lemma chain_simps [simp]:
  "chain n p []" "chain n p [a]" "chain n p (a # b # zs) \<longleftrightarrow> n a = Some b \<and> p b = Some a \<and> chain n p (b # zs)"
  by (simp_all add: chain_def)

lemma chain_append:
  "chain n p (us @ a # b # vs) \<longleftrightarrow> chain n p (us @ [a]) \<and> n a = Some b \<and> p b = Some a \<and> chain n p (b # vs)"
  by (induction us rule: induct_list012) (auto simp: chain_def)

lemma chain_cong:
  assumes "chain n p zs" "\<forall>a \<in> set (butlast zs). n' a = n a" "\<forall>a \<in> set (tl zs). p' a = p a"
  shows "chain n' p' zs"
  using assms by (induction zs rule: induct_list012) (auto split: if_splits)

lemma chain_sublist: "chain n p (us @ vs @ ws) \<Longrightarrow> chain n p vs"
  by (auto simp: chain_def successively_append_iff)

lemma is_listD:
  assumes "is_list h l xs"
  shows "distinct (all_nodes l xs)" "\<And>a. a \<in> set (all_nodes l xs) \<Longrightarrow> live h a" "chain (nx h) (pv h) (all_nodes l xs)"
    "pv h (ll_head l) = None" "nx h (ll_tail l) = None"
  using assms by (auto simp: is_list_def)

lemma set_all_nodes [simp]: "set (all_nodes l xs) = insert (ll_head l) (insert (ll_tail l) (set xs))"
  by (auto simp: all_nodes_def)

lemma nodes_insert: "set (all_nodes l (xs @ x # ys)) = insert x (set (all_nodes l (xs @ ys)))"
  by auto

text \<open>A list does not see changes of the heap outside its nodes.\<close>

lemma is_list_frame:
  assumes "is_list h l xs" "agree_off A h h'" "A \<inter> set (all_nodes l xs) = {}"
  shows "is_list h' l xs"
proof -
  have eq: "nx h' a = nx h a" "pv h' a = pv h a" "live h' a = live h a" if "a \<in> set (all_nodes l xs)" for a
    using assms(2,3) that unfolding agree_off_def nx_def pv_def by auto
  have "chain (nx h') (pv h') (all_nodes l xs)"
    by (rule chain_cong [OF is_listD(3) [OF assms(1)]]) (metis eq in_set_butlastD list.set_sel(2) list.sel(2))+
  then show ?thesis using assms(1) eq by (simp add: is_list_def)
qed

lemma agree_off_refl [simp]: "agree_off A h h" by (simp add: agree_off_def)

lemma agree_off_trans: "agree_off A h h' \<Longrightarrow> agree_off B h' h'' \<Longrightarrow> agree_off (A \<union> B) h h''"
  by (simp add: agree_off_def)

lemma agree_off_mono: "agree_off A h h' \<Longrightarrow> A \<subseteq> B \<Longrightarrow> agree_off B h h'"
  by (auto simp: agree_off_def)

lemma set_tl: "set (tl zs) \<subseteq> set zs" by (cases zs) auto

lemma chain_cong_init:
  "chain n p (us @ [a]) \<Longrightarrow> \<forall>c \<in> set us. n' c = n c \<and> p' c = p c \<Longrightarrow> p' a = p a \<Longrightarrow> chain n' p' (us @ [a])"
  by (rule chain_cong) (use set_tl [of "us @ [a]"] in auto)

lemma chain_cong_rest:
  "chain n p (b # vs) \<Longrightarrow> \<forall>c \<in> set vs. n' c = n c \<and> p' c = p c \<Longrightarrow> n' b = n b \<Longrightarrow> chain n' p' (b # vs)"
  by (rule chain_cong) (auto dest: in_set_butlastD split: if_splits)

section \<open>Insertion and removal\<close>

lemma insert_chain:
  assumes c: "chain n p (us @ a # b # vs)" and d: "distinct (us @ a # b # vs)" and x: "x \<notin> set (us @ a # b # vs)"
  shows "chain (n(x := Some b, a := Some x)) (p(x := Some a, b := Some x)) (us @ a # x # b # vs)" (is "chain ?n ?p _")
proof -
  have "chain n p (us @ [a])" "chain n p (b # vs)" using c by (simp_all add: chain_append)
  then have "chain ?n ?p (us @ [a])" "chain ?n ?p (b # vs)"
    using d x by (auto intro!: chain_cong_init [of n p us a] chain_cong_rest [of n p b vs])
  then show ?thesis using d x by (auto simp: chain_append)
qed

lemma remove_chain:
  assumes c: "chain n p (us @ a # x # b # vs)" and d: "distinct (us @ a # x # b # vs)"
  shows "chain (n(a := Some b, x := y)) (p(b := Some a, x := z)) (us @ a # b # vs)" (is "chain ?n ?p _")
proof -
  have "chain n p (us @ [a])" "chain n p (b # vs)" using c by (simp_all add: chain_append)
  then have "chain ?n ?p (us @ [a])" "chain ?n ?p (b # vs)"
    using d by (auto intro!: chain_cong_init [of n p us a] chain_cong_rest [of n p b vs])
  then show ?thesis using d by (auto simp: chain_append)
qed

lemma insert_before_eval:
  assumes "live h x" "live h b" "live h a" "pv h b = Some a" "x \<noteq> b" "x \<noteq> a"
  obtains h' where "aws_linked_list_insert_before h (Some b) (Some x) = Inr h'"
    "nx h' = (nx h)(x := Some b, a := Some x)" "pv h' = (pv h)(x := Some a, b := Some x)" "agree_off {x, a, b} h h'"
  using assms by (auto simp: aws_linked_list_insert_before_def agree_off_def)

lemma insert_after_eval:
  assumes "live h x" "live h b" "live h a" "nx h a = Some b" "x \<noteq> b" "x \<noteq> a"
  obtains h' where "aws_linked_list_insert_after h (Some a) (Some x) = Inr h'"
    "nx h' = (nx h)(x := Some b, a := Some x)" "pv h' = (pv h)(x := Some a, b := Some x)" "agree_off {x, a, b} h h'"
  using assms by (auto simp: aws_linked_list_insert_after_def agree_off_def)

lemma remove_eval:
  assumes "live h x" "live h b" "live h a" "nx h x = Some b" "pv h x = Some a" "x \<noteq> b" "x \<noteq> a"
  obtains h' where "aws_linked_list_remove h (Some x) = Inr h'"
    "nx h' = (nx h)(a := Some b, x := None)" "pv h' = (pv h)(b := Some a, x := None)" "agree_off {x, a, b} h h'"
  using assms by (auto simp: aws_linked_list_remove_def aws_linked_list_node_reset_def load_node_eq agree_off_def)

text \<open>The two neighbours of a position in the list, the end members included.\<close>

lemma split_nodes:
  obtains us a b vs where "all_nodes l (xs @ ys) = us @ a # b # vs" "b = hd (ys @ [ll_tail l])" "a = last (ll_head l # xs)"
    "us @ [a] = ll_head l # xs" "b # vs = ys @ [ll_tail l]"
proof -
  have "all_nodes l (xs @ ys) = butlast (ll_head l # xs) @ last (ll_head l # xs) # hd (ys @ [ll_tail l]) # tl (ys @ [ll_tail l])"
    unfolding all_nodes_def by (simp only: append_butlast_last_id append_Cons [symmetric] append.assoc [symmetric] list.collapse) simp
  then show thesis by (rule that) simp_all
qed

lemma neighbours:
  assumes "is_list h l xs" "all_nodes l xs = us @ a # b # vs"
  shows "nx h a = Some b" "pv h b = Some a" "live h a" "live h b" "a \<noteq> b"
  using is_listD [OF assms(1)] set_all_nodes [of l xs] by (auto simp: assms(2) chain_append)

lemma insert_is_list:
  assumes l: "is_list h l (xs @ ys)" and x: "x \<notin> set (all_nodes l (xs @ ys))" "live h x"
    and sp: "all_nodes l (xs @ ys) = us @ a # b # vs" "us @ [a] = ll_head l # xs" "b # vs = ys @ [ll_tail l]"
    and h': "nx h' = (nx h)(x := Some b, a := Some x)" "pv h' = (pv h)(x := Some a, b := Some x)" "agree_off {x, a, b} h h'"
  shows "is_list h' l (xs @ x # ys)"
proof -
  have eq: "all_nodes l (xs @ x # ys) = us @ a # x # b # vs"
    using sp(2,3) by (simp add: all_nodes_def flip: append_Cons)
  note i = is_listD [OF l]
  have d: "distinct (us @ a # b # vs)" using i(1) sp(1) by simp
  have ends: "ll_head l \<noteq> b" "ll_tail l \<noteq> a" "ll_head l \<noteq> x" "ll_tail l \<noteq> x"
    using d x(1) sp(2,3) by (cases us; cases vs rule: rev_cases; auto simp: sp(1))+
  show ?thesis
    unfolding is_list_def eq
    using i(2,4,5) x insert_chain [OF i(3) [unfolded sp(1)] d] d h' ends sp(1)
    by (auto simp: agree_off_def)
qed

lemma remove_is_list:
  assumes l: "is_list h l (xs @ x # ys)"
  obtains h' where "aws_linked_list_remove h (Some x) = Inr h'" "is_list h' l (xs @ ys)" "nx h' x = None" "pv h' x = None"
    "agree_off (set (all_nodes l (xs @ x # ys))) h h'"
proof -
  obtain us a b vs where sp: "all_nodes l (xs @ ys) = us @ a # b # vs" "us @ [a] = ll_head l # xs" "b # vs = ys @ [ll_tail l]"
    by (rule split_nodes)
  have eq: "all_nodes l (xs @ x # ys) = us @ a # x # b # vs"
    using sp(2,3) by (simp add: all_nodes_def flip: append_Cons)
  note i = is_listD [OF l]
  have d: "distinct (us @ a # x # b # vs)" using i(1) eq by simp
  have n: "nx h x = Some b" "pv h x = Some a" "live h x" "live h a" "live h b"
    using i(3) i(2) set_all_nodes [of l "xs @ x # ys"] unfolding eq by (auto simp: chain_append)
  have ends: "ll_head l \<noteq> b" "ll_tail l \<noteq> a" "ll_head l \<noteq> x" "ll_tail l \<noteq> x"
    using d sp(2,3) by (cases us; cases vs rule: rev_cases; auto)+
  obtain h' where h': "aws_linked_list_remove h (Some x) = Inr h'"
    "nx h' = (nx h)(a := Some b, x := None)" "pv h' = (pv h)(b := Some a, x := None)" "agree_off {x, a, b} h h'"
    by (rule remove_eval [OF n(3,5,4,1,2)]) (use d in auto)
  have lv: "live h c" if "c \<in> set (us @ a # b # vs)" for c
    using i(2) [of c] that set_all_nodes [of l "xs @ x # ys"] unfolding eq by auto
  have "is_list h' l (xs @ ys)"
    unfolding is_list_def sp(1)
    using i(4,5) remove_chain [OF i(3) [unfolded eq] d] d h' ends lv by (auto simp: agree_off_def)
  moreover have "agree_off (set (all_nodes l (xs @ x # ys))) h h'"
    by (rule agree_off_mono [OF h'(4)]) (simp add: eq)
  ultimately show thesis using that h' by auto
qed

lemma ll_insert_before_ok:
  assumes l: "is_list h l (xs @ ys)" and x: "x \<notin> set (all_nodes l (xs @ ys))" "live h x"
  obtains h' where "aws_linked_list_insert_before h (Some (hd (ys @ [ll_tail l]))) (Some x) = Inr h'" "is_list h' l (xs @ x # ys)"
    "agree_off (set (all_nodes l (xs @ x # ys))) h h'"
proof -
  obtain us a b vs where sp: "all_nodes l (xs @ ys) = us @ a # b # vs" "b = hd (ys @ [ll_tail l])"
    "us @ [a] = ll_head l # xs" "b # vs = ys @ [ll_tail l]" by (rule split_nodes)
  note n = neighbours [OF l sp(1)]
  have ne: "x \<noteq> b" "x \<noteq> a" using x(1) by (auto simp: sp(1))
  obtain h' where h': "aws_linked_list_insert_before h (Some b) (Some x) = Inr h'"
    "nx h' = (nx h)(x := Some b, a := Some x)" "pv h' = (pv h)(x := Some a, b := Some x)" "agree_off {x, a, b} h h'"
    by (rule insert_before_eval [OF x(2) n(4,3,2) ne])
  have "{x, a, b} \<subseteq> set (all_nodes l (xs @ x # ys))"
    unfolding nodes_insert sp(1) by auto
  from agree_off_mono [OF h'(4) this] insert_is_list [OF l x sp(1,3,4) h'(2-4)] h'(1) show thesis
    using that sp(2) by simp
qed

lemma ll_insert_after_ok:
  assumes l: "is_list h l (xs @ ys)" and x: "x \<notin> set (all_nodes l (xs @ ys))" "live h x"
  obtains h' where "aws_linked_list_insert_after h (Some (last (ll_head l # xs))) (Some x) = Inr h'" "is_list h' l (xs @ x # ys)"
    "agree_off (set (all_nodes l (xs @ x # ys))) h h'"
proof -
  obtain us a b vs where sp: "all_nodes l (xs @ ys) = us @ a # b # vs" "a = last (ll_head l # xs)"
    "us @ [a] = ll_head l # xs" "b # vs = ys @ [ll_tail l]" by (rule split_nodes)
  note n = neighbours [OF l sp(1)]
  have ne: "x \<noteq> b" "x \<noteq> a" using x(1) by (auto simp: sp(1))
  obtain h' where h': "aws_linked_list_insert_after h (Some a) (Some x) = Inr h'"
    "nx h' = (nx h)(x := Some b, a := Some x)" "pv h' = (pv h)(x := Some a, b := Some x)" "agree_off {x, a, b} h h'"
    by (rule insert_after_eval [OF x(2) n(4,3,1) ne])
  have "{x, a, b} \<subseteq> set (all_nodes l (xs @ x # ys))"
    unfolding nodes_insert sp(1) by auto
  from agree_off_mono [OF h'(4) this] insert_is_list [OF l x sp(1,3,4) h'(2-4)] h'(1) show thesis
    using that sp(2) by simp
qed

lemma ll_empty_ok: "is_list h l xs \<Longrightarrow> aws_linked_list_empty h l = Inr (xs = [])"
  using is_listD [of h l xs] by (cases xs) (auto simp: aws_linked_list_empty_def all_nodes_def)

lemma ll_is_valid_ok: "is_list h l xs \<Longrightarrow> aws_linked_list_is_valid h (Some l) = Inr True"
proof -
  assume l: "is_list h l xs"
  note i = is_listD [OF this]
  obtain us a b vs where sp: "all_nodes l ([] @ xs) = us @ a # b # vs" "us @ [a] = ll_head l # []" by (rule split_nodes)
  obtain us' a' b' vs' where sp': "all_nodes l (xs @ []) = us' @ a' # b' # vs'" "b' # vs' = [] @ [ll_tail l]" by (rule split_nodes)
  have "nx h (ll_head l) \<noteq> None" "pv h (ll_tail l) \<noteq> None"
    using neighbours [OF l, of us a b vs] neighbours [OF l, of us' a' b' vs'] sp sp' by (auto simp: append_eq_Cons_conv)
  then show ?thesis using i by (auto simp: aws_linked_list_is_valid_def load_node_eq)
qed

lemma ll_front_ok: "is_list h l (x # xs) \<Longrightarrow> aws_linked_list_front h l = Inr (Some x)"
  using is_listD [of h l "x # xs"] by (auto simp: aws_linked_list_front_def all_nodes_def)

lemma ll_back_ok: "is_list h l (xs @ [x]) \<Longrightarrow> aws_linked_list_back h l = Inr (Some x)"
  using is_listD [of h l "xs @ [x]"] by (auto simp: aws_linked_list_back_def all_nodes_def chain_append [of _ _ "_ # _", simplified])

lemma ll_push_back_ok:
  assumes "is_list h l xs" "x \<notin> set (all_nodes l xs)" "live h x"
  obtains h' where "aws_linked_list_push_back h l (Some x) = Inr h'" "is_list h' l (xs @ [x])"
    "agree_off (set (all_nodes l (xs @ [x]))) h h'"
  using ll_insert_before_ok [of h l xs "[]" x] assms by (auto simp: aws_linked_list_push_back_def)

lemma ll_push_front_ok:
  assumes "is_list h l xs" "x \<notin> set (all_nodes l xs)" "live h x"
  obtains h' where "aws_linked_list_push_front h l (Some x) = Inr h'" "is_list h' l (x # xs)"
    "agree_off (set (all_nodes l (x # xs))) h h'"
proof -
  have "load_next h (head_of l) = Inr (Some (hd (xs @ [ll_tail l])))"
    using is_listD [OF assms(1)] by (cases xs) (auto simp: all_nodes_def)
  then show thesis using ll_insert_before_ok [of h l "[]" xs x] assms that by (auto simp: aws_linked_list_push_front_def)
qed

lemma ll_pop_front_ok:
  assumes "is_list h l (x # xs)"
  obtains h' where "aws_linked_list_pop_front h l = Inr (Some x, h')" "is_list h' l xs" "nx h' x = None" "pv h' x = None"
    "agree_off (set (all_nodes l (x # xs))) h h'"
proof (rule remove_is_list [of h l "[]" x xs])
  fix h' assume "aws_linked_list_remove h (Some x) = Inr h'" "is_list h' l ([] @ xs)" "nx h' x = None" "pv h' x = None"
    "agree_off (set (all_nodes l ([] @ x # xs))) h h'"
  then show thesis by (intro that [of h']) (simp_all add: aws_linked_list_pop_front_def ll_front_ok [OF assms])
qed (use assms in simp)

lemma ll_pop_back_ok:
  assumes "is_list h l (xs @ [x])"
  obtains h' where "aws_linked_list_pop_back h l = Inr (Some x, h')" "is_list h' l xs" "nx h' x = None" "pv h' x = None"
    "agree_off (set (all_nodes l (xs @ [x]))) h h'"
proof (rule remove_is_list [of h l xs x "[]"])
  fix h' assume "aws_linked_list_remove h (Some x) = Inr h'" "is_list h' l (xs @ [])" "nx h' x = None" "pv h' x = None"
    "agree_off (set (all_nodes l (xs @ x # []))) h h'"
  then show thesis by (intro that [of h']) (simp_all add: aws_linked_list_pop_back_def ll_back_ok [OF assms])
qed (use assms in simp)

lemma ll_init_ok:
  assumes "live h (ll_head l)" "live h (ll_tail l)" "ll_head l \<noteq> ll_tail l"
  obtains h' where "aws_linked_list_init h l = Inr h'" "is_list h' l []" "agree_off {ll_head l, ll_tail l} h h'"
  using assms by (auto simp: aws_linked_list_init_def is_list_def all_nodes_def agree_off_def)

section \<open>The contract of an intrusive queue\<close>

locale intrusive_queue =
  fixes rep :: "'s \<Rightarrow> 'a list \<Rightarrow> bool" and free :: "'s \<Rightarrow> 'a \<Rightarrow> bool"
    and push_b :: "'s \<Rightarrow> 'a \<Rightarrow> 's res" and push_f :: "'s \<Rightarrow> 'a \<Rightarrow> 's res"
    and pop_f :: "'s \<Rightarrow> ('a option \<times> 's) res" and pop_b :: "'s \<Rightarrow> ('a option \<times> 's) res"
  assumes push_back: "rep s xs \<Longrightarrow> free s x \<Longrightarrow>
      \<exists>s'. push_b s x = Inr s' \<and> rep s' (xs @ [x]) \<and> (\<forall>y. free s' y \<longleftrightarrow> free s y \<and> y \<noteq> x)"
    and push_front: "rep s xs \<Longrightarrow> free s x \<Longrightarrow>
      \<exists>s'. push_f s x = Inr s' \<and> rep s' (x # xs) \<and> (\<forall>y. free s' y \<longleftrightarrow> free s y \<and> y \<noteq> x)"
    and pop_front: "rep s (x # xs) \<Longrightarrow>
      \<exists>s'. pop_f s = Inr (Some x, s') \<and> rep s' xs \<and> (\<forall>y. free s' y \<longleftrightarrow> free s y \<or> y = x)"
    and pop_back: "rep s (xs @ [x]) \<Longrightarrow>
      \<exists>s'. pop_b s = Inr (Some x, s') \<and> rep s' xs \<and> (\<forall>y. free s' y \<longleftrightarrow> free s y \<or> y = x)"
begin

lemma push_pop_fifo:
  assumes "rep s xs" "distinct ys" "\<forall>y \<in> set ys. free s y"
  shows "\<exists>s'. push_list push_b s ys = Inr s' \<and> rep s' (xs @ ys) \<and> (\<forall>y. free s' y \<longleftrightarrow> free s y \<and> y \<notin> set ys)"
  using assms
proof (induction ys arbitrary: s xs)
  case (Cons y ys)
  obtain s1 where s1: "push_b s y = Inr s1" "rep s1 (xs @ [y])" "\<forall>z. free s1 z \<longleftrightarrow> free s z \<and> z \<noteq> y"
    using push_back [OF Cons.prems(1), of y] Cons.prems(3) by auto
  obtain s2 where "push_list push_b s1 ys = Inr s2" "rep s2 ((xs @ [y]) @ ys)" "\<forall>z. free s2 z \<longleftrightarrow> free s1 z \<and> z \<notin> set ys"
    using Cons.IH [OF s1(2)] Cons.prems(2,3) s1(3) by auto
  then show ?case using s1 by auto
qed simp

lemma drain_front:
  assumes "rep s (ys @ xs)"
  shows "\<exists>s'. pop_list pop_f s (length ys) = Inr (map Some ys, s') \<and> rep s' xs \<and> (\<forall>y. free s' y \<longleftrightarrow> free s y \<or> y \<in> set ys)"
  using assms
proof (induction ys arbitrary: s)
  case (Cons y ys)
  obtain s1 where s1: "pop_f s = Inr (Some y, s1)" "rep s1 (ys @ xs)" "\<forall>z. free s1 z \<longleftrightarrow> free s z \<or> z = y"
    using pop_front [of s y "ys @ xs"] Cons.prems by auto
  then show ?case using Cons.IH [OF s1(2)] by auto
qed simp

lemma drain_back:
  assumes "rep s (xs @ ys)"
  shows "\<exists>s'. pop_list pop_b s (length ys) = Inr (map Some (rev ys), s') \<and> rep s' xs \<and> (\<forall>y. free s' y \<longleftrightarrow> free s y \<or> y \<in> set ys)"
  using assms
proof (induction ys arbitrary: s rule: rev_induct)
  case (snoc y ys)
  obtain s1 where s1: "pop_b s = Inr (Some y, s1)" "rep s1 (xs @ ys)" "\<forall>z. free s1 z \<longleftrightarrow> free s z \<or> z = y"
    using pop_back [of s "xs @ ys" y] snoc.prems by auto
  then show ?case using snoc.IH [OF s1(2)] by auto
qed simp

end

lemma chain_unique:
  "chain n p (a # us) \<Longrightarrow> chain n p (a # vs) \<Longrightarrow> n (last (a # us)) = None \<Longrightarrow> n (last (a # vs)) = None \<Longrightarrow> us = vs"
proof (induction us arbitrary: a vs)
  case Nil
  then show ?case by (cases vs) auto
next
  case (Cons u us)
  then show ?case by (cases vs) auto
qed

lemma is_list_unique: "is_list h l xs \<Longrightarrow> is_list h l ys \<Longrightarrow> xs = ys"
  using chain_unique [of "nx h" "pv h" "ll_head l" "xs @ [ll_tail l]" "ys @ [ll_tail l]"]
  by (auto simp: is_list_def all_nodes_def)

lemma spare_iff: "is_list h l xs \<Longrightarrow> spare l h x \<longleftrightarrow> live h x \<and> x \<notin> set (all_nodes l xs)"
  unfolding spare_def using is_list_unique by blast

interpretation dq: intrusive_queue "\<lambda>h. is_list h l" "spare l"
  "\<lambda>h x. aws_linked_list_push_back h l (Some x)" "\<lambda>h x. aws_linked_list_push_front h l (Some x)"
  "\<lambda>h. aws_linked_list_pop_front h l" "\<lambda>h. aws_linked_list_pop_back h l" for l :: "'a linked_list"
proof (unfold_locales, goal_cases)
  case (1 h xs x)
  then have x: "x \<notin> set (all_nodes l xs)" "live h x" by (simp_all add: spare_iff)
  obtain h' where h': "aws_linked_list_push_back h l (Some x) = Inr h'" "is_list h' l (xs @ [x])"
    "agree_off (set (all_nodes l (xs @ [x]))) h h'" by (rule ll_push_back_ok [OF 1(1) x])
  then show ?case using spare_iff [OF 1(1)] spare_iff [OF h'(2)] by (auto simp: agree_off_def)
next
  case (2 h xs x)
  then have x: "x \<notin> set (all_nodes l xs)" "live h x" by (simp_all add: spare_iff)
  obtain h' where h': "aws_linked_list_push_front h l (Some x) = Inr h'" "is_list h' l (x # xs)"
    "agree_off (set (all_nodes l (x # xs))) h h'" by (rule ll_push_front_ok [OF 2(1) x])
  then show ?case using spare_iff [OF 2(1)] spare_iff [OF h'(2)] by (auto simp: agree_off_def)
next
  case (3 h x xs)
  obtain h' where h': "aws_linked_list_pop_front h l = Inr (Some x, h')" "is_list h' l xs"
    "agree_off (set (all_nodes l (x # xs))) h h'" by (rule ll_pop_front_ok [OF 3])
  then show ?case using spare_iff [OF 3] spare_iff [OF h'(2)] is_listD(1,2) [OF 3]
    by (auto simp: agree_off_def all_nodes_def)
next
  case (4 h xs x)
  obtain h' where h': "aws_linked_list_pop_back h l = Inr (Some x, h')" "is_list h' l xs"
    "agree_off (set (all_nodes l (xs @ [x]))) h h'" by (rule ll_pop_back_ok [OF 4])
  then show ?case using spare_iff [OF 4] spare_iff [OF h'(2)] is_listD(1,2) [OF 4]
    by (auto simp: agree_off_def all_nodes_def)
qed

section \<open>Exchange of two nodes\<close>

lemma exch_simps [simp]:
  "exch a b (exch a b c) = c" "exch a b a = b" "exch a b b = a" "c \<noteq> a \<Longrightarrow> c \<noteq> b \<Longrightarrow> exch a b c = c"
  "exch a b c = exch a b d \<longleftrightarrow> c = d"
  by (auto simp: exch_def)

lemma chain_nth:
  "chain n p zs \<longleftrightarrow> (\<forall>i. Suc i < length zs \<longrightarrow> n (zs ! i) = Some (zs ! Suc i) \<and> p (zs ! Suc i) = Some (zs ! i))"
  unfolding chain_def by (auto simp: successively_conv_nth)

lemma chain_inverse:
  assumes c: "chain n p zs" and d: "distinct zs" and e: "n (last zs) = None" "p (hd zs) = None" and m: "c \<in> set zs" "d \<in> set zs"
  shows "n c = Some d \<longleftrightarrow> p d = Some c"
proof -
  note ch = c [unfolded chain_nth, rule_format]
  obtain i j where i: "i < length zs" "c = zs ! i" "j < length zs" "d = zs ! j" using m by (auto simp: in_set_conv_nth)
  have z: "zs \<noteq> []" using i by auto
  have n: "n c = Some d \<longleftrightarrow> j = Suc i"
  proof (cases "Suc i < length zs")
    case True
    then have "n c = Some (zs ! Suc i)" using ch i(2) by simp
    then show ?thesis using nth_eq_iff_index_eq [OF d True i(3)] i(4) by (metis option.inject)
  next
    case False
    then have "i = length zs - 1" using i(1) by linarith
    then have "c = last zs" using i(2) z by (simp add: last_conv_nth)
    then show ?thesis using e(1) i False by simp
  qed
  have p: "p d = Some c \<longleftrightarrow> j = Suc i"
  proof (cases j)
    case 0
    then show ?thesis using e(2) i z by (simp add: hd_conv_nth)
  next
    case (Suc k)
    then have "p d = Some (zs ! k)" using ch [of k] i(3,4) by simp
    moreover have "zs ! k = c \<longleftrightarrow> k = i" using nth_eq_iff_index_eq [OF d, of k i] i(1-3) Suc by simp
    ultimately show ?thesis using Suc by auto
  qed
  show ?thesis by (simp add: n p)
qed

lemma inner_neighbours:
  assumes l: "is_list h l xs" and x: "x \<in> set xs"
  obtains p n where "pv h x = Some p" "nx h x = Some n" "p \<in> set (all_nodes l xs)" "n \<in> set (all_nodes l xs)" "p \<noteq> x" "n \<noteq> x"
proof -
  obtain ys zs where xs: "xs = ys @ x # zs" using x by (auto simp: in_set_conv_decomp)
  obtain us a b vs where sp: "all_nodes l (ys @ (x # zs)) = us @ a # b # vs" "b = hd ((x # zs) @ [ll_tail l])" by (rule split_nodes)
  obtain us' a' b' vs' where sp': "all_nodes l ((ys @ [x]) @ zs) = us' @ a' # b' # vs'" "a' = last (ll_head l # (ys @ [x]))"
    by (rule split_nodes)
  have "b = x" "a' = x" using sp(2) sp'(2) by simp_all
  moreover have e: "all_nodes l xs = us @ a # b # vs" "all_nodes l xs = us' @ a' # b' # vs'"
    using sp(1) sp'(1) by (simp_all add: xs)
  have "a \<in> set (us @ a # b # vs)" "b' \<in> set (us' @ a' # b' # vs')" by simp_all
  then have "a \<in> set (all_nodes l xs)" "b' \<in> set (all_nodes l xs)" unfolding e [symmetric] .
  ultimately show thesis
    using neighbours [OF l e(1)] neighbours [OF l e(2)] by (intro that [of a b']) simp_all
qed

lemma exch_upd:
  assumes ab: "a \<noteq> b" "f a = Some na" "f b = Some nb" "na \<noteq> a" "nb \<noteq> b"
    and f: "f a = Some b \<longleftrightarrow> a = y" "f b = Some a \<longleftrightarrow> b = x" "f c = Some a \<longleftrightarrow> c = x" "f c = Some b \<longleftrightarrow> c = y"
      "f a = Some a \<longleftrightarrow> a = x" "f b = Some b \<longleftrightarrow> b = y"
    and g: "g = f(x := Some b, y := Some a)"
  shows "(g(a := g b, b := g a)) c = map_option (exch a b) (f (exch a b c))"
proof -
  have ne: "a \<noteq> x" "b \<noteq> y" using ab f by auto
  consider "c = a" | "c = b" | "c \<noteq> a" "c \<noteq> b" "c = x" | "c \<noteq> a" "c \<noteq> b" "c = y" "c \<noteq> x" | "c \<noteq> a" "c \<noteq> b" "c \<noteq> x" "c \<noteq> y" by blast
  then show ?thesis
  proof cases
    case 1
    then show ?thesis using ab f(2) ne g by (cases "b = x") auto
  next
    case 2
    then show ?thesis using ab f(1) ne g by (cases "a = y") auto
  next
    case 3
    then show ?thesis using ab(1) f(3,4) g by (cases "x = y") auto
  next
    case 4
    then show ?thesis using f(4) g by simp
  next
    case 5
    then show ?thesis using f(3,4) g by (cases "f c") (auto simp: exch_def)
  qed
qed

lemma swap_nodes_eval:
  assumes l: "is_list h l xs" and m: "a \<in> set xs" "b \<in> set xs" "a \<noteq> b"
  obtains h' where "aws_linked_list_swap_nodes h (Some a) (Some b) = Inr h'"
    "\<forall>c \<in> set (all_nodes l xs). nx h' c = map_option (exch a b) (nx h (exch a b c))"
    "\<forall>c \<in> set (all_nodes l xs). pv h' c = map_option (exch a b) (pv h (exch a b c))"
    "agree_off (set (all_nodes l xs)) h h'"
proof -
  let ?N = "set (all_nodes l xs)"
  note i = is_listD [OF l]
  obtain pa na where A: "pv h a = Some pa" "nx h a = Some na" "pa \<in> ?N" "na \<in> ?N" "pa \<noteq> a" "na \<noteq> a" by (rule inner_neighbours [OF l m(1)])
  obtain pb nb where B: "pv h b = Some pb" "nx h b = Some nb" "pb \<in> ?N" "nb \<in> ?N" "pb \<noteq> b" "nb \<noteq> b" by (rule inner_neighbours [OF l m(2)])
  have "last (all_nodes l xs) = ll_tail l" "hd (all_nodes l xs) = ll_head l" by (simp_all add: all_nodes_def)
  then have inv: "nx h c = Some d \<longleftrightarrow> pv h d = Some c" if "c \<in> ?N" "d \<in> ?N" for c d
    using chain_inverse [OF i(3,1) _ _ that] i(4,5) by simp
  have ab: "a \<in> ?N" "b \<in> ?N" using m by auto
  have lv: "live h a" "live h b" "live h pa" "live h na" "live h pb" "live h nb" using i(2) ab A B by blast+
  let ?h4 = "set_prev (set_next (set_prev (set_next h pa (Some b)) na (Some b)) pb (Some a)) nb (Some a)"
  let ?h' = "?h4(a \<mapsto> \<lparr>n_next = nx ?h4 b, n_prev = pv ?h4 b\<rparr>, b \<mapsto> \<lparr>n_next = nx ?h4 a, n_prev = pv ?h4 a\<rparr>)"
  have ev: "aws_linked_list_swap_nodes h (Some a) (Some b) = Inr ?h'"
    using lv A B m by (simp add: aws_linked_list_swap_nodes_def load_node_eq)
  have n: "nx h c = Some a \<longleftrightarrow> c = pa" "nx h c = Some b \<longleftrightarrow> c = pb" "pv h c = Some a \<longleftrightarrow> c = na" "pv h c = Some b \<longleftrightarrow> c = nb"
    if "c \<in> ?N" for c
    using inv [OF that ab(1)] inv [OF that ab(2)] inv [OF ab(1) that] inv [OF ab(2) that] A(1,2) B(1,2) by (metis option.inject)+
  have h4: "nx ?h4 = (nx h)(pa := Some b, pb := Some a)" "pv ?h4 = (pv h)(na := Some b, nb := Some a)" by simp_all
  have h5: "nx ?h' = (nx ?h4)(a := nx ?h4 b, b := nx ?h4 a)" "pv ?h' = (pv ?h4)(a := pv ?h4 b, b := pv ?h4 a)"
    by (simp_all only: set_simps(7,8) linked_list_node.select_convs)
  have "nx ?h' c = map_option (exch a b) (nx h (exch a b c))" if "c \<in> ?N" for c
    unfolding h5 by (rule exch_upd [OF m(3) A(2) B(2) A(6) B(6) n(2) [OF ab(1)] n(1) [OF ab(2)] n(1,2) [OF that] n(1) [OF ab(1)] n(2) [OF ab(2)] h4(1)])
  moreover have "pv ?h' c = map_option (exch a b) (pv h (exch a b c))" if "c \<in> ?N" for c
    unfolding h5 by (rule exch_upd [OF m(3) A(1) B(1) A(5) B(5) n(4) [OF ab(1)] n(3) [OF ab(2)] n(3,4) [OF that] n(3) [OF ab(1)] n(4) [OF ab(2)] h4(2)])
  moreover have "agree_off ?N h ?h'"
    unfolding agree_off_def
  proof (intro conjI allI impI)
    fix c
    show "?h' c = h c" if "c \<notin> ?N"
    proof -
      have "c \<noteq> pa" "c \<noteq> na" "c \<noteq> pb" "c \<noteq> nb" "c \<noteq> a" "c \<noteq> b" using that A(3,4) B(3,4) ab by blast+
      then show ?thesis by simp
    qed
    have "live ?h' c \<longleftrightarrow> c \<in> {pa, na, pb, nb, a, b} \<or> live h c" by auto
    then show "live ?h' c \<longleftrightarrow> live h c" using lv by blast
  qed
  ultimately show thesis using that ev by blast
qed

lemma ll_swap_nodes_ok:
  assumes l: "is_list h l xs" and m: "a \<in> set xs" "b \<in> set xs"
  obtains h' where "aws_linked_list_swap_nodes h (Some a) (Some b) = Inr h'" "is_list h' l (map (exch a b) xs)"
    "agree_off (set (all_nodes l xs)) h h'"
proof (cases "a = b")
  case True
  then have "exch a b = id" by (auto simp: exch_def)
  then show thesis using that [of h] True l by (simp add: aws_linked_list_swap_nodes_def)
next
  case False
  let ?N = "set (all_nodes l xs)"
  note i = is_listD [OF l]
  obtain h' where h': "aws_linked_list_swap_nodes h (Some a) (Some b) = Inr h'"
    "\<forall>c \<in> ?N. nx h' c = map_option (exch a b) (nx h (exch a b c))"
    "\<forall>c \<in> ?N. pv h' c = map_option (exch a b) (pv h (exch a b c))" "agree_off ?N h h'"
    by (rule swap_nodes_eval [OF l m False])
  have ends: "exch a b (ll_head l) = ll_head l" "exch a b (ll_tail l) = ll_tail l"
    using i(1) m by (auto simp: exch_def all_nodes_def)
  then have nodes: "all_nodes l (map (exch a b) xs) = map (exch a b) (all_nodes l xs)" by (simp add: all_nodes_def)
  have mem: "exch a b c \<in> ?N" if "c \<in> ?N" for c using that m by (auto simp: exch_def)
  have "distinct (map (exch a b) (all_nodes l xs))" using i(1) by (simp add: distinct_map inj_on_def)
  moreover have "chain (nx h') (pv h') (map (exch a b) (all_nodes l xs))"
    unfolding chain_nth
  proof (intro allI impI)
    fix k assume k: "Suc k < length (map (exch a b) (all_nodes l xs))"
    then have m: "all_nodes l xs ! k \<in> ?N" "all_nodes l xs ! Suc k \<in> ?N" by (simp_all del: set_all_nodes)
    show "nx h' (map (exch a b) (all_nodes l xs) ! k) = Some (map (exch a b) (all_nodes l xs) ! Suc k) \<and>
        pv h' (map (exch a b) (all_nodes l xs) ! Suc k) = Some (map (exch a b) (all_nodes l xs) ! k)"
      using k i(3) [unfolded chain_nth, rule_format, of k] h'(2) [rule_format, OF mem [OF m(1)]] h'(3) [rule_format, OF mem [OF m(2)]]
      by simp
  qed
  moreover have "\<forall>c \<in> set (map (exch a b) (all_nodes l xs)). live h' c" using i(2) mem h'(4) by (auto simp: agree_off_def)
  ultimately have "is_list h' l (map (exch a b) xs)"
    unfolding is_list_def nodes using h'(2,3) i(4,5) ends by auto
  then show thesis using that h' by blast
qed

lemma map_exch: "distinct (us @ a # vs @ b # ws) \<Longrightarrow> map (exch a b) (us @ a # vs @ b # ws) = us @ b # vs @ a # ws"
proof -
  assume d: "distinct (us @ a # vs @ b # ws)"
  have "map (exch a b) zs = zs" if "a \<notin> set zs" "b \<notin> set zs" for zs using that by (intro map_idI) (auto simp: exch_def)
  then show ?thesis using d by simp
qed

section \<open>Two lists\<close>

lemma chain_join:
  "us \<noteq> [] \<Longrightarrow> vs \<noteq> [] \<Longrightarrow>
     chain n p (us @ vs) \<longleftrightarrow> chain n p us \<and> n (last us) = Some (hd vs) \<and> p (hd vs) = Some (last us) \<and> chain n p vs"
  by (auto simp: chain_def successively_append_iff)

lemma chain_ends:
  "xs \<noteq> [] \<Longrightarrow> chain n p (a # xs @ [b]) \<longleftrightarrow>
     n a = Some (hd xs) \<and> p (hd xs) = Some a \<and> chain n p xs \<and> n (last xs) = Some b \<and> p b = Some (last xs)"
  using chain_join [of "[a]" "xs @ [b]" n p] chain_join [of xs "[b]" n p] by auto

lemma chain_agree:
  assumes "chain (nx h) (pv h) zs" "agree_off A h h'" "A \<inter> set zs = {}" shows "chain (nx h') (pv h') zs"
proof (rule chain_cong [OF assms(1)]; intro ballI)
  fix c
  have eq: "nx h' c = nx h c" "pv h' c = pv h c" if "c \<in> set zs" using that assms(2,3) unfolding agree_off_def nx_def pv_def by auto
  show "nx h' c = nx h c" if "c \<in> set (butlast zs)" using eq(1) in_set_butlastD [OF that] .
  show "pv h' c = pv h c" if "c \<in> set (tl zs)" using eq(2) that set_tl [of zs] by blast
qed

lemma chain_upd:
  assumes "chain n p zs" "distinct zs" "zs \<noteq> []" "\<And>c. c \<in> set zs \<Longrightarrow> c \<noteq> last zs \<Longrightarrow> n' c = n c"
    "\<And>c. c \<in> set zs \<Longrightarrow> c \<noteq> hd zs \<Longrightarrow> p' c = p c"
  shows "chain n' p' zs"
proof (rule chain_cong [OF assms(1)]; intro ballI)
  fix c
  show "n' c = n c" if "c \<in> set (butlast zs)"
  proof -
    have "zs = butlast zs @ [last zs]" using assms(3) by simp
    then have "last zs \<notin> set (butlast zs)" using assms(2) by (metis distinct_append disjoint_insert(1) list.set(2) set_append)
    then show ?thesis using that in_set_butlastD [OF that] assms(4) by metis
  qed
  show "p' c = p c" if "c \<in> set (tl zs)"
    using that assms(2,3,5) by (cases zs) auto
qed

lemma attach_ok:
  assumes c: "chain (nx h) (pv h) xs" "xs \<noteq> []" and d: "distinct (all_nodes l xs)" and lv: "\<forall>c \<in> set (all_nodes l xs). live h c"
    and e: "pv h (ll_head l) = None" "nx h (ll_tail l) = None"
  obtains h' where "attach_nodes h l (Some (hd xs)) (Some (last xs)) = Inr h'" "is_list h' l xs"
    "agree_off (set (all_nodes l xs)) h h'"
proof -
  have m: "hd xs \<in> set xs" "last xs \<in> set xs" using c(2) by simp_all
  let ?h = "set_next (set_prev (set_prev (set_next h (ll_head l) (Some (hd xs))) (hd xs) (head_of l)) (ll_tail l) (Some (last xs))) (last xs) (tail_of l)"
  have ne: "hd xs \<noteq> ll_head l" "hd xs \<noteq> ll_tail l" "last xs \<noteq> ll_head l" "last xs \<noteq> ll_tail l" "ll_head l \<noteq> ll_tail l"
    using d m by (auto simp: all_nodes_def)
  have l: "live h (hd xs)" "live h (last xs)" "live h (ll_head l)" "live h (ll_tail l)" using lv m by auto
  have "attach_nodes h l (Some (hd xs)) (Some (last xs)) = Inr ?h" using l by (simp add: attach_nodes_def)
  moreover have "agree_off (set (all_nodes l xs)) h ?h"
    unfolding agree_off_def
  proof (intro conjI allI impI)
    fix c
    show "?h c = h c" if "c \<notin> set (all_nodes l xs)"
      using that m by (subst set_other, force)+ simp
    have "live ?h c \<longleftrightarrow> c \<in> {hd xs, last xs, ll_head l, ll_tail l} \<or> live h c" by auto
    then show "live ?h c \<longleftrightarrow> live h c" using l by blast
  qed
  moreover have "is_list ?h l xs"
  proof -
    have n: "nx ?h = (nx h)(ll_head l := Some (hd xs), last xs := tail_of l)"
      "pv ?h = (pv h)(hd xs := head_of l, ll_tail l := Some (last xs))" by simp_all
    have dx: "distinct xs" "ll_head l \<notin> set xs" "ll_tail l \<notin> set xs" using d by (auto simp: all_nodes_def)
    have "chain (nx ?h) (pv ?h) xs" by (rule chain_upd [OF c(1) dx(1) c(2)]) (use dx in \<open>auto simp only: n fun_upd_apply split: if_splits\<close>)
    then have "chain (nx ?h) (pv ?h) (all_nodes l xs)" unfolding all_nodes_def chain_ends [OF c(2)] using ne by simp
    moreover have "\<forall>c \<in> set (all_nodes l xs). live ?h c" using lv by (simp del: set_all_nodes)
    ultimately show ?thesis unfolding is_list_def using d e ne by simp
  qed
  ultimately show thesis by (intro that)
qed

lemma take_nodes_ok:
  assumes c: "chain (nx h) (pv h) xs" and d: "distinct (all_nodes l xs)" and lv: "\<forall>c \<in> set (all_nodes l xs). live h c"
    and e: "pv h (ll_head l) = None" "nx h (ll_tail l) = None"
  obtains h' where "(if xs = [] then aws_linked_list_init h l else attach_nodes h l (Some (hd xs)) (Some (last xs))) = Inr h'"
    "is_list h' l xs" "agree_off (set (all_nodes l xs)) h h'"
proof (cases "xs = []")
  case True
  have "ll_head l \<noteq> ll_tail l" "live h (ll_head l)" "live h (ll_tail l)" using d lv by (auto simp: all_nodes_def)
  then obtain h' where "aws_linked_list_init h l = Inr h'" "is_list h' l []" "agree_off {ll_head l, ll_tail l} h h'"
    using ll_init_ok by metis
  then show thesis using that True by simp
next
  case False
  then show thesis using attach_ok [OF c False d lv e] that by auto
qed

lemma list_ends:
  assumes "is_list h l xs"
  shows "load_next h (head_of l) = Inr (Some (hd (xs @ [ll_tail l])))" "load_prev h (tail_of l) = Inr (Some (last (ll_head l # xs)))"
proof -
  have 0: "live h (ll_head l)" "live h (ll_tail l)" using is_listD(2) [OF assms] by auto
  have c: "chain (nx h) (pv h) ([ll_head l] @ (xs @ [ll_tail l]))" "chain (nx h) (pv h) ((ll_head l # xs) @ [ll_tail l])"
    using is_listD(3) [OF assms] by (simp_all add: all_nodes_def)
  have "nx h (ll_head l) = Some (hd (xs @ [ll_tail l]))" using c(1) by (subst (asm) chain_join) simp_all
  moreover have "pv h (ll_tail l) = Some (last (ll_head l # xs))" using c(2) by (subst (asm) chain_join) simp_all
  ultimately show "load_next h (head_of l) = Inr (Some (hd (xs @ [ll_tail l])))" "load_prev h (tail_of l) = Inr (Some (last (ll_head l # xs)))"
    using 0 by simp_all
qed

lemma inner_chain: "is_list h l xs \<Longrightarrow> chain (nx h) (pv h) xs"
  using chain_sublist [of "nx h" "pv h" "[ll_head l]" xs "[ll_tail l]"] is_listD(3) by (fastforce simp: all_nodes_def)

lemma ll_swap_contents_ok:
  assumes a: "is_list h a xs" and b: "is_list h b ys" and dj: "set (all_nodes a xs) \<inter> set (all_nodes b ys) = {}"
  obtains h' where "aws_linked_list_swap_contents h a b = Inr h'" "is_list h' a ys" "is_list h' b xs"
    "agree_off (set (all_nodes a xs) \<union> set (all_nodes b ys)) h h'"
proof -
  note ia = is_listD [OF a] and ib = is_listD [OF b]
  have da: "distinct (all_nodes a ys)" "distinct (all_nodes b xs)"
    using ia(1) ib(1) dj by (auto simp: all_nodes_def)
  have lv: "\<forall>c \<in> set (all_nodes a ys). live h c" using ia(2) ib(2) by auto
  obtain h1 where h1: "(if ys = [] then aws_linked_list_init h a else attach_nodes h a (Some (hd ys)) (Some (last ys))) = Inr h1"
    "is_list h1 a ys" "agree_off (set (all_nodes a ys)) h h1"
    by (rule take_nodes_ok [OF inner_chain [OF b] da(1) lv ia(4,5)])
  have dj2: "set (all_nodes a ys) \<inter> set xs = {}" "set (all_nodes a ys) \<inter> {ll_head b, ll_tail b} = {}"
    "set (all_nodes b xs) \<inter> set (all_nodes a ys) = {}"
    using ia(1) ib(1) dj by (auto simp: all_nodes_def)
  have c1: "chain (nx h1) (pv h1) xs" by (rule chain_agree [OF inner_chain [OF a] h1(3) dj2(1)])
  have same: "h1 (ll_head b) = h (ll_head b)" "h1 (ll_tail b) = h (ll_tail b)" using h1(3) dj2(2) by (auto simp: agree_off_def)
  have e1: "pv h1 (ll_head b) = None" "nx h1 (ll_tail b) = None" using ib(4,5) same by (simp_all add: pv_def nx_def)
  have lv1: "\<forall>c \<in> set (all_nodes b xs). live h1 c" using ia(2) ib(2) h1(3) by (auto simp: agree_off_def)
  obtain h2 where h2: "(if xs = [] then aws_linked_list_init h1 b else attach_nodes h1 b (Some (hd xs)) (Some (last xs))) = Inr h2"
    "is_list h2 b xs" "agree_off (set (all_nodes b xs)) h1 h2"
    by (rule take_nodes_ok [OF c1 da(2) lv1 e1])
  have tl: "(hd (xs @ [ll_tail a]) = ll_tail a) = (xs = [])" using ia(1) by (cases xs) (auto simp: all_nodes_def)
  have "aws_linked_list_swap_contents h a b = Inr h2"
    using h1(1) h2(1) tl
    unfolding aws_linked_list_swap_contents_def list_ends [OF a] list_ends [OF b] ll_empty_ok [OF b]
    by (cases "xs = []"; cases "ys = []") auto
  moreover have "is_list h2 a ys" by (rule is_list_frame [OF h1(2) h2(3) dj2(3)])
  moreover have "agree_off (set (all_nodes a xs) \<union> set (all_nodes b ys)) h h2"
    by (rule agree_off_mono [OF agree_off_trans [OF h1(3) h2(3)]]) auto
  ultimately show thesis using that h2(2) by blast
qed

text \<open>Splicing the nodes of one list between two neighbours of another.\<close>

lemma splice_chain:
  assumes c: "chain n p U" "chain n p V" "chain n p W" and ne: "U \<noteq> []" "V \<noteq> []" "W \<noteq> []" and d: "distinct (U @ V @ W)"
    and j: "n' (last U) = Some (hd V)" "n' (last V) = Some (hd W)" "p' (hd V) = Some (last U)" "p' (hd W) = Some (last V)"
    and n: "\<And>c. c \<in> set (U @ V @ W) \<Longrightarrow> c \<noteq> last U \<Longrightarrow> c \<noteq> last V \<Longrightarrow> n' c = n c"
    and p: "\<And>c. c \<in> set (U @ V @ W) \<Longrightarrow> c \<noteq> hd V \<Longrightarrow> c \<noteq> hd W \<Longrightarrow> p' c = p c"
  shows "chain n' p' (U @ V @ W)"
proof -
  have m: "last U \<in> set U" "last V \<in> set V" "hd V \<in> set V" "hd W \<in> set W" using ne by simp_all
  have dj: "distinct U" "distinct V" "distinct W" "set U \<inter> set V = {}" "set U \<inter> set W = {}" "set V \<inter> set W = {}"
    using d by auto
  have "chain n' p' U" by (rule chain_upd [OF c(1) dj(1) ne(1)]) (rule n p; use dj m in auto)+
  moreover have "chain n' p' V" by (rule chain_upd [OF c(2) dj(2) ne(2)]) (rule n p; use dj m in auto)+
  moreover have "chain n' p' W" by (rule chain_upd [OF c(3) dj(3) ne(3)]) (rule n p; use dj m in auto)+
  ultimately show ?thesis using j ne by (simp add: chain_join)
qed

lemma disjointD: "A \<inter> B = {} \<Longrightarrow> a \<in> A \<Longrightarrow> b \<in> B \<Longrightarrow> a \<noteq> b" by blast

lemma splice_ok:
  assumes d: "is_list h dst (xs1 @ xs2)" and s: "is_list h src ys" and ys: "ys \<noteq> []"
    and dj: "set (all_nodes dst (xs1 @ xs2)) \<inter> set (all_nodes src ys) = {}"
    and u: "u = last (ll_head dst # xs1)" and w: "w = hd (xs2 @ [ll_tail dst])"
    and n: "nx h' = (nx h)(u := Some (hd ys), last ys := Some w, ll_head src := tail_of src)"
    and p: "pv h' = (pv h)(hd ys := Some u, w := Some (last ys), ll_tail src := head_of src)"
    and ag: "agree_off (set (all_nodes dst (xs1 @ xs2)) \<union> set (all_nodes src ys)) h h'"
  shows "is_list h' dst (xs1 @ ys @ xs2)" "is_list h' src []"
proof -
  let ?U = "ll_head dst # xs1" and ?W = "xs2 @ [ll_tail dst]" and ?D = "all_nodes dst (xs1 @ xs2)" and ?S = "all_nodes src ys"
  note iD = is_listD [OF d] and iS = is_listD [OF s]
  have D: "?D = ?U @ ?W" "all_nodes dst (xs1 @ ys @ xs2) = ?U @ ys @ ?W" by (simp_all add: all_nodes_def)
  have dist: "distinct (?U @ ys @ ?W)" and src: "ll_head src \<notin> set (?U @ ys @ ?W)" "ll_tail src \<notin> set (?U @ ys @ ?W)" "ll_head src \<noteq> ll_tail src"
    using iD(1) iS(1) dj by (auto simp: all_nodes_def)
  have "hd ys \<in> set ys" "last ys \<in> set ys" "u \<in> set ?U" using ys by (simp_all add: u)
  moreover have "w \<in> set ?W" unfolding w by (rule hd_in_set) simp
  ultimately have m: "hd ys \<in> set ys" "last ys \<in> set ys" "u \<in> set ?U" "w \<in> set ?W" by blast+
  have dj': "set ?U \<inter> set ys = {}" "set ?U \<inter> set ?W = {}" "set ys \<inter> set ?W = {}" using dist by auto
  have E: "ll_head dst \<in> set ?U" "ll_tail dst \<in> set ?W" by simp_all
  have S: "ll_head src \<notin> set ?U" "ll_head src \<notin> set ys" "ll_head src \<notin> set ?W" "ll_tail src \<notin> set ?U" "ll_tail src \<notin> set ys" "ll_tail src \<notin> set ?W"
    using src by auto
  have neq: "u \<noteq> last ys" "u \<noteq> ll_head src" "last ys \<noteq> ll_head src" "hd ys \<noteq> w" "hd ys \<noteq> ll_tail src" "w \<noteq> ll_tail src"
    "ll_head dst \<noteq> hd ys" "ll_head dst \<noteq> w" "ll_head dst \<noteq> ll_tail src" "ll_tail dst \<noteq> u" "ll_tail dst \<noteq> last ys" "ll_tail dst \<noteq> ll_head src"
    "ll_tail src \<noteq> u" "ll_tail src \<noteq> last ys" "ll_head src \<noteq> hd ys" "ll_head src \<noteq> w"
    using disjointD [OF dj'(1)] disjointD [OF dj'(2)] disjointD [OF dj'(3)] E S m by metis+
  have cD: "chain (nx h) (pv h) ?U" "chain (nx h) (pv h) ?W" using iD(3) unfolding D by (simp_all only: chain_join list.distinct append_is_Nil_conv not_False_eq_True simp_thms)
  have "chain (nx h') (pv h') (?U @ ys @ ?W)"
  proof (rule splice_chain [OF cD(1) inner_chain [OF s] cD(2) _ ys _ dist])
    show "nx h' (last ?U) = Some (hd ys)" "nx h' (last ys) = Some (hd ?W)" "pv h' (hd ys) = Some (last ?U)" "pv h' (hd ?W) = Some (last ys)"
      unfolding n p u [symmetric] w [symmetric] using neq by simp_all
    fix c assume c: "c \<in> set (?U @ ys @ ?W)"
    then have "c \<noteq> ll_head src" "c \<noteq> ll_tail src" using src by metis+
    then show "c \<noteq> last ?U \<Longrightarrow> c \<noteq> last ys \<Longrightarrow> nx h' c = nx h c" "c \<noteq> hd ys \<Longrightarrow> c \<noteq> hd ?W \<Longrightarrow> pv h' c = pv h c"
      unfolding n p u [symmetric] w [symmetric] by simp_all
  qed simp_all
  moreover have lv: "live h' c = live h c" for c using ag by (simp add: agree_off_def)
  moreover have "pv h' (ll_head dst) = None" "nx h' (ll_tail dst) = None"
    unfolding n p using iD(4,5) neq by simp_all
  moreover have "live h c" if "c \<in> set (?U @ ys @ ?W)" for c using that iD(2) iS(2) by auto
  ultimately show "is_list h' dst (xs1 @ ys @ xs2)" unfolding is_list_def D(2) using dist by blast
  have "nx h' (ll_tail src) = None" "pv h' (ll_head src) = None"
    unfolding n p using iS(4,5) neq src(3) by simp_all
  then show "is_list h' src []" using src(3) iS(2) lv by (simp add: is_list_def all_nodes_def n p)
qed

lemma agree_off_stores:
  assumes "\<And>c. c \<notin> A \<Longrightarrow> h' c = h c" "\<And>c. live h' c \<longleftrightarrow> c \<in> A \<or> live h c" "\<And>c. c \<in> A \<Longrightarrow> live h c" "A \<subseteq> B"
  shows "agree_off B h h'"
  using assms unfolding agree_off_def by blast

lemma ll_move_all_back_ok:
  assumes d: "is_list h dst xs" and s: "is_list h src ys" and dj: "set (all_nodes dst xs) \<inter> set (all_nodes src ys) = {}"
  obtains h' where "aws_linked_list_move_all_back h dst src = Inr h'" "is_list h' dst (xs @ ys)" "is_list h' src []"
    "agree_off (set (all_nodes dst xs) \<union> set (all_nodes src ys)) h h'"
proof (cases "ys = []")
  case True
  then show thesis using that [of h] d s ll_empty_ok [OF s] by (simp add: aws_linked_list_move_all_back_def)
next
  case False
  define u where "u = last (ll_head dst # xs)"
  define f where "f = hd ys"
  define b where "b = last ys"
  let ?td = "ll_tail dst" and ?hs = "ll_head src" and ?ts = "ll_tail src"
  have m: "f \<in> set ys" "b \<in> set ys" "u \<in> set (ll_head dst # xs)" using False by (simp_all add: f_def b_def u_def)
  have lv: "live h u" "live h f" "live h b" "live h ?td" "live h ?hs" "live h ?ts" using m is_listD(2) [OF d] is_listD(2) [OF s] by auto
  define h' where "h' = set_prev (set_next (set_next (set_prev (set_prev (set_next h u (Some f)) f (Some u)) ?td (Some b)) b (Some ?td)) ?hs (Some ?ts)) ?ts (Some ?hs)"
  have ev: "aws_linked_list_move_all_back h dst src = Inr h'"
    unfolding aws_linked_list_move_all_back_def ll_empty_ok [OF s] list_ends [OF d] list_ends [OF s] u_def [symmetric]
    using False lv by (simp add: f_def [symmetric] b_def [symmetric] h'_def)
  have ag: "agree_off (set (all_nodes dst xs) \<union> set (all_nodes src ys)) h h'"
    by (rule agree_off_stores [of "{u, f, b, ?td, ?hs, ?ts}"]) (use lv m in \<open>auto simp: h'_def\<close>)
  have n: "nx h' = (nx h)(u := Some f, b := Some ?td, ?hs := Some ?ts)" "pv h' = (pv h)(f := Some u, ?td := Some b, ?ts := Some ?hs)"
    by (simp_all add: h'_def)
  have "is_list h' dst (xs @ ys @ [])" "is_list h' src []"
    by (rule splice_ok [of h dst xs "[]" src ys u ?td h']; use d s False dj n ag in \<open>simp add: u_def f_def b_def\<close>)+
  then show thesis using that ev ag by simp
qed

lemma ll_move_all_front_ok:
  assumes d: "is_list h dst xs" and s: "is_list h src ys" and dj: "set (all_nodes dst xs) \<inter> set (all_nodes src ys) = {}"
  obtains h' where "aws_linked_list_move_all_front h dst src = Inr h'" "is_list h' dst (ys @ xs)" "is_list h' src []"
    "agree_off (set (all_nodes dst xs) \<union> set (all_nodes src ys)) h h'"
proof (cases "ys = []")
  case True
  then show thesis using that [of h] d s ll_empty_ok [OF s] by (simp add: aws_linked_list_move_all_front_def)
next
  case False
  define w where "w = hd (xs @ [ll_tail dst])"
  define f where "f = hd ys"
  define b where "b = last ys"
  let ?hd = "ll_head dst" and ?hs = "ll_head src" and ?ts = "ll_tail src"
  have m: "f \<in> set ys" "b \<in> set ys" "w = ll_tail dst \<or> w \<in> set xs"
    using False by (auto simp: f_def b_def w_def hd_append)
  have lv: "live h w" "live h f" "live h b" "live h ?hd" "live h ?hs" "live h ?ts" using m is_listD(2) [OF d] is_listD(2) [OF s] by auto
  define h' where "h' = set_prev (set_next (set_prev (set_next (set_prev (set_next h ?hd (Some f)) f (Some ?hd)) b (Some w)) w (Some b)) ?hs (Some ?ts)) ?ts (Some ?hs)"
  have ev: "aws_linked_list_move_all_front h dst src = Inr h'"
    unfolding aws_linked_list_move_all_front_def ll_empty_ok [OF s] list_ends [OF d] list_ends [OF s] w_def [symmetric]
    using False lv by (simp add: f_def [symmetric] b_def [symmetric] h'_def)
  have ag: "agree_off (set (all_nodes dst xs) \<union> set (all_nodes src ys)) h h'"
    by (rule agree_off_stores [of "{w, f, b, ?hd, ?hs, ?ts}"]) (use lv m in \<open>auto simp: h'_def\<close>)
  have n: "nx h' = (nx h)(?hd := Some f, b := Some w, ?hs := Some ?ts)" "pv h' = (pv h)(f := Some ?hd, w := Some b, ?ts := Some ?hs)"
    by (simp_all add: h'_def)
  have "is_list h' dst ([] @ ys @ xs)" "is_list h' src []"
    by (rule splice_ok [of h dst "[]" xs src ys ?hd w h']; use d s False dj n ag in \<open>simp add: w_def f_def b_def\<close>)+
  then show thesis using that ev ag by simp
qed

section \<open>The deep validity check\<close>

lemma chain_distinct:
  assumes "chain n p (a # zs)" "p a = None" shows "distinct (a # zs)"
  using assms(1)
proof (induction zs rule: rev_induct)
  case (snoc z zs)
  let ?y = "a # zs"
  have c: "chain n p ?y" "p z = Some (last ?y)" using snoc.prems chain_join [of ?y "[z]" n p] by auto
  have d: "distinct ?y" using snoc.IH c(1) by simp
  have "z \<notin> set ?y"
  proof
    assume "z \<in> set ?y"
    then obtain i where i: "i < length ?y" "z = ?y ! i" by (metis in_set_conv_nth)
    show False
    proof (cases i)
      case 0
      then show False using i c(2) assms(2) by simp
    next
      case (Suc k)
      then have "p z = Some (?y ! k)" using c(1) i unfolding chain_nth by simp
      then have "?y ! k = ?y ! (length ?y - 1)" using c(2) last_conv_nth [of ?y] by simp
      then show False using d i(1) Suc nth_eq_iff_index_eq [OF d, of k "length ?y - 1"] by simp
    qed
  qed
  then show ?case using d by auto
qed simp

lemma chain_comparable:
  "chain n p (a # us) \<Longrightarrow> chain n p (a # vs) \<Longrightarrow> (\<exists>ws. us = vs @ ws) \<or> (\<exists>ws. vs = us @ ws)"
proof (induction us arbitrary: a vs)
  case (Cons u us)
  then show ?case by (cases vs) auto
qed simp

lemma next_is_valid_eq:
  "aws_linked_list_node_next_is_valid h (Some a) =
     (if \<not> live h a then Inl Undefined
      else case nx h a of None \<Rightarrow> Inr False | Some b \<Rightarrow> if live h b then Inr (pv h b = Some a) else Inl Undefined)"
  by (auto simp: aws_linked_list_node_next_is_valid_def split: option.splits)

lemma valid_deep_loop_ok:
  assumes cl: "closed h" and fin: "finite {a. live h a}" and hd: "pv h (ll_head l) = None" "live h (ll_head l)"
    and ht: "ll_head l \<noteq> ll_tail l"
    and zs: "chain (nx h) (pv h) (ll_head l # zs)" "ll_tail l \<notin> set (butlast (ll_head l # zs))" "\<forall>a \<in> set zs. live h a"
    and f: "card {a. live h a} < fuel + length (ll_head l # zs)"
  shows "valid_deep_loop fuel h l (Some (last (ll_head l # zs))) = Inr (\<exists>xs. chain (nx h) (pv h) (all_nodes l xs))"
  using zs f
proof (induction fuel arbitrary: zs)
  case 0
  have "length (ll_head l # zs) = card (set (ll_head l # zs))"
    using chain_distinct [OF 0(1) hd(1)] by (metis distinct_card)
  also have "\<dots> \<le> card {a. live h a}" using 0(3) hd(2) fin by (intro card_mono) auto
  finally show ?case using 0(4) by simp
next
  case (Suc fuel)
  let ?t = "last (ll_head l # zs)"
  have lt: "live h ?t" using Suc.prems(3) hd(2) by (cases "zs = []") auto
  show ?case
  proof (cases "?t = ll_tail l")
    case True
    then have "zs \<noteq> []" using ht by auto
    then have "all_nodes l (butlast zs) = ll_head l # zs" using True by (simp add: all_nodes_def) (metis append_butlast_last_id)
    then have "\<exists>xs. chain (nx h) (pv h) (all_nodes l xs)" using Suc.prems(1) by metis
    then show ?thesis using True by simp
  next
    case False
    have tn: "ll_tail l \<notin> set (ll_head l # zs)"
      using Suc.prems(2) False by (metis append_butlast_last_id list.distinct(1) insert_iff set_append UnE list.set(1,2) empty_iff)
    have ext: "\<exists>b ws. chain (nx h) (pv h) (ll_head l # zs @ b # ws)" if "\<exists>xs. chain (nx h) (pv h) (all_nodes l xs)"
    proof -
      from that obtain xs where x: "chain (nx h) (pv h) (ll_head l # xs @ [ll_tail l])" by (auto simp: all_nodes_def)
      have "\<not> (\<exists>ws. zs = (xs @ [ll_tail l]) @ ws)" using tn by auto
      then obtain ws where "xs @ [ll_tail l] = zs @ ws" using chain_comparable [OF Suc.prems(1) x] by auto
      moreover have "ws \<noteq> []" using calculation tn by (cases zs rule: rev_cases) auto
      ultimately show ?thesis using x by (metis neq_Nil_conv)
    qed
    have link: "nx h ?t = Some b \<and> pv h b = Some ?t" if "chain (nx h) (pv h) (ll_head l # zs @ b # ws)" for b ws
      using that chain_join [of "ll_head l # zs" "b # ws" "nx h" "pv h"] by simp
    show ?thesis
    proof (cases "\<exists>b. nx h ?t = Some b \<and> pv h b = Some ?t")
      case True
      then obtain b where b: "nx h ?t = Some b" "pv h b = Some ?t" by blast
      then have lb: "live h b" using cl unfolding closed_def by blast
      have "chain (nx h) (pv h) (ll_head l # zs @ [b])"
        using b Suc.prems(1) chain_join [of "ll_head l # zs" "[b]" "nx h" "pv h"] by simp
      moreover have "ll_tail l \<notin> set (butlast (ll_head l # zs @ [b]))" using tn by (simp add: butlast_append)
      ultimately have "valid_deep_loop fuel h l (Some (last (ll_head l # zs @ [b]))) = Inr (\<exists>xs. chain (nx h) (pv h) (all_nodes l xs))"
        by (rule Suc.IH) (use Suc.prems lb in auto)
      then show ?thesis using False b lt lb by (simp add: next_is_valid_eq)
    next
      case nolink: False
      then have no: "\<not> (\<exists>xs. chain (nx h) (pv h) (all_nodes l xs))" using ext link by blast
      have "aws_linked_list_node_next_is_valid h (Some ?t) = Inr False"
        using nolink lt cl unfolding next_is_valid_eq closed_def by (auto split: option.splits)
      then show ?thesis using False no by simp
    qed
  qed
qed

lemma is_valid_deep_ok:
  assumes "closed h" "finite {a. live h a}" "ll_head l \<noteq> ll_tail l" "live h (ll_head l)" "pv h (ll_head l) = None"
    "card {a. live h a} \<le> fuel"
  shows "aws_linked_list_is_valid_deep fuel h (Some l) = Inr (\<exists>xs. chain (nx h) (pv h) (all_nodes l xs))"
  using valid_deep_loop_ok [of h l "[]" fuel] assms by (simp add: aws_linked_list_is_valid_deep_def)

lemma chain_is_list:
  assumes "chain (nx h) (pv h) (all_nodes l xs)" "closed h" "live h (ll_head l)" "pv h (ll_head l) = None" "nx h (ll_tail l) = None"
  shows "is_list h l xs"
proof -
  have "distinct (all_nodes l xs)" using chain_distinct [of "nx h" "pv h" "ll_head l" "xs @ [ll_tail l]"] assms(1,4) by (simp add: all_nodes_def)
  moreover have "live h a" if "a \<in> set (all_nodes l xs)" for a
  proof -
    from that obtain i where i: "i < length (all_nodes l xs)" "a = all_nodes l xs ! i" by (metis in_set_conv_nth)
    show ?thesis
    proof (cases i)
      case 0
      then show ?thesis using i assms(3) by (simp add: all_nodes_def)
    next
      case (Suc k)
      then have "nx h (all_nodes l xs ! k) = Some a" using assms(1) i unfolding chain_nth by auto
      then show ?thesis using assms(2) unfolding closed_def by blast
    qed
  qed
  ultimately show ?thesis using assms by (simp add: is_list_def)
qed

section \<open>Properties\<close>

lemma demo_lists: "is_list demo_heap list_a []" "is_list demo_heap list_b [2, 3]" "live demo_heap 6"
  by (simp_all add: is_list_def all_nodes_def demo_heap_def list_a_def list_b_def nx_def pv_def live_def)



text \<open>
  A list used as a queue is first in, first out, and used as a stack at its back it is last in, first
  out: pushing any distinct spare nodes and popping as many from the front returns the old nodes and then the
  pushed ones in order, and popping from the back returns the pushed ones in reverse.
\<close>

theorem linked_list_queue_order:
  assumes "is_list h l xs" "distinct ys" "\<forall>y \<in> set ys. spare l h y"
  shows "\<exists>h'. push_list (\<lambda>h x. aws_linked_list_push_back h l (Some x)) h ys = Inr h' \<and> is_list h' l (xs @ ys) \<and>
    (\<exists>h''. pop_list (\<lambda>h. aws_linked_list_pop_front h l) h' (length (xs @ ys)) = Inr (map Some (xs @ ys), h'') \<and> is_list h'' l []) \<and>
    (\<exists>h''. pop_list (\<lambda>h. aws_linked_list_pop_back h l) h' (length ys) = Inr (map Some (rev ys), h'') \<and> is_list h'' l xs)"
proof -
  obtain h' where h': "push_list (\<lambda>h x. aws_linked_list_push_back h l (Some x)) h ys = Inr h'" "is_list h' l (xs @ ys)"
    using dq.push_pop_fifo [OF assms] by blast
  show ?thesis using h' dq.drain_front [of h' l "xs @ ys" "[]"] dq.drain_back [of h' l xs ys] by auto
qed

theorem linked_list_queue_order_witness:
  "\<exists>h'. push_list (\<lambda>h x. aws_linked_list_push_back h list_b (Some x)) demo_heap [6] = Inr h' \<and>
     (\<exists>h''. pop_list (\<lambda>h. aws_linked_list_pop_front h list_b) h' 3 = Inr ([Some 2, Some 3, Some 6], h'') \<and> is_list h'' list_b [])"
proof -
  have "spare list_b demo_heap 6" using demo_lists by (subst spare_iff [OF demo_lists(2)]) (simp add: list_b_def)
  then show ?thesis using linked_list_queue_order [OF demo_lists(2), of "[6]"] by (auto simp: numeral_3_eq_3)
qed

text \<open>
  \<open>aws_linked_list_swap_nodes\<close> exchanges the positions of two nodes of a list in either order of its
  arguments, also when the nodes are neighbours.
\<close>

theorem linked_list_swap_nodes:
  assumes "is_list h l (us @ a # vs @ b # ws)"
  shows "(\<exists>h'. aws_linked_list_swap_nodes h (Some a) (Some b) = Inr h' \<and> is_list h' l (us @ b # vs @ a # ws)) \<and>
    (\<exists>h'. aws_linked_list_swap_nodes h (Some b) (Some a) = Inr h' \<and> is_list h' l (us @ b # vs @ a # ws))"
proof -
  have d: "distinct (us @ a # vs @ b # ws)" using is_listD(1) [OF assms] by (auto simp: all_nodes_def)
  have "exch b a = exch a b" using d by (auto simp: exch_def)
  then have e: "map (exch a b) (us @ a # vs @ b # ws) = us @ b # vs @ a # ws" "map (exch b a) (us @ a # vs @ b # ws) = us @ b # vs @ a # ws"
    using map_exch [OF d] by simp_all
  have m: "a \<in> set (us @ a # vs @ b # ws)" "b \<in> set (us @ a # vs @ b # ws)" by simp_all
  show ?thesis
    by (rule conjI; rule ll_swap_nodes_ok [OF assms m] ll_swap_nodes_ok [OF assms m(2,1)]) (use e in \<open>metis\<close>)+
qed

theorem linked_list_swap_nodes_witness:
  "\<exists>h'. aws_linked_list_swap_nodes demo_heap (Some 3) (Some 2) = Inr h' \<and> is_list h' list_b [3, 2]"
  using linked_list_swap_nodes [of demo_heap list_b "[]" 2 "[]" 3 "[]"] demo_lists by simp

text \<open>
  \<open>aws_linked_list_swap_contents\<close> exchanges the contents of two disjoint lists and the two move
  operations append or prepend the source list and empty it, empty lists included.
\<close>

theorem linked_list_two_lists:
  assumes "is_list h a xs" "is_list h b ys" "set (all_nodes a xs) \<inter> set (all_nodes b ys) = {}"
  shows "(\<exists>h'. aws_linked_list_swap_contents h a b = Inr h' \<and> is_list h' a ys \<and> is_list h' b xs) \<and>
    (\<exists>h'. aws_linked_list_move_all_back h a b = Inr h' \<and> is_list h' a (xs @ ys) \<and> is_list h' b []) \<and>
    (\<exists>h'. aws_linked_list_move_all_front h a b = Inr h' \<and> is_list h' a (ys @ xs) \<and> is_list h' b [])"
proof (intro conjI)
  show "\<exists>h'. aws_linked_list_swap_contents h a b = Inr h' \<and> is_list h' a ys \<and> is_list h' b xs"
    by (rule ll_swap_contents_ok [OF assms]) blast
  show "\<exists>h'. aws_linked_list_move_all_back h a b = Inr h' \<and> is_list h' a (xs @ ys) \<and> is_list h' b []"
    by (rule ll_move_all_back_ok [OF assms]) blast
  show "\<exists>h'. aws_linked_list_move_all_front h a b = Inr h' \<and> is_list h' a (ys @ xs) \<and> is_list h' b []"
    by (rule ll_move_all_front_ok [OF assms]) blast
qed

theorem linked_list_two_lists_witness:
  "\<exists>h'. aws_linked_list_swap_contents demo_heap list_a list_b = Inr h' \<and> is_list h' list_a [2, 3] \<and> is_list h' list_b []"
  using linked_list_two_lists [OF demo_lists(1,2)] by (simp add: list_a_def list_b_def)

text \<open>
  When the head has no predecessor, \<open>aws_linked_list_is_valid_deep\<close> terminates within as many steps as
  there are nodes and returns whether the tail is reachable from the head over links that agree in both
  directions; together with the shallow check it decides whether the heap holds a list.
\<close>

theorem linked_list_deep_check:
  assumes "closed h" "finite {a. live h a}" "ll_head l \<noteq> ll_tail l" "live h (ll_head l)" "pv h (ll_head l) = None"
    and "card {a. live h a} \<le> fuel"
  shows "aws_linked_list_is_valid_deep fuel h (Some l) = Inr (\<exists>xs. chain (nx h) (pv h) (all_nodes l xs)) \<and>
    (aws_linked_list_is_valid h (Some l) = Inr True \<longrightarrow>
      aws_linked_list_is_valid_deep fuel h (Some l) = Inr (\<exists>xs. is_list h l xs))"
proof -
  have v: "nx h (ll_tail l) = None" if "aws_linked_list_is_valid h (Some l) = Inr True"
    using that assms(4) by (auto simp: aws_linked_list_is_valid_def load_node_eq split: if_splits)
  have "(\<exists>xs. chain (nx h) (pv h) (all_nodes l xs)) = (\<exists>xs. is_list h l xs)" if "aws_linked_list_is_valid h (Some l) = Inr True"
    using chain_is_list [OF _ assms(1,4,5) v [OF that]] is_listD(3) by blast
  then show ?thesis using is_valid_deep_ok [OF assms] by simp
qed

theorem linked_list_deep_check_witness:
  "aws_linked_list_is_valid_deep 7 demo_heap (Some list_b) = Inr True"
proof -
  have l: "{a. live demo_heap a} = {0, 1, 2, 3, 4, 5, 6}" by (auto simp: live_def demo_heap_def split: if_splits)
  have "closed demo_heap" unfolding closed_def by (auto simp: nx_def live_def demo_heap_def split: if_splits)
  then have "aws_linked_list_is_valid_deep 7 demo_heap (Some list_b) = Inr (\<exists>xs. chain (nx demo_heap) (pv demo_heap) (all_nodes list_b xs))"
    using linked_list_deep_check [of demo_heap list_b 7] l is_listD [OF demo_lists(2)] by (simp add: list_b_def live_def demo_heap_def)
  moreover have "\<exists>xs. chain (nx demo_heap) (pv demo_heap) (all_nodes list_b xs)" using is_listD(3) [OF demo_lists(2)] by blast
  ultimately show ?thesis by simp
qed


end
