(* ===== verification/Byte_Memory.thy ===== *)
theory Byte_Memory
  imports Math_Ops
begin

text \<open>
  Byte-addressed memory and the allocator of \<open>source/allocator.c\<close>.

  Memory is a map from allocations to their bytes; a byte is \<open>None\<close> while its value is indeterminate.  A
  pointer is \<open>Null\<close> or an allocation with an offset.  An access outside an allocation, a read of an
  indeterminate byte that the program looks at, a release of something that is not the start of a live
  allocation and a \<open>memcpy\<close> between overlapping ranges are \<open>Inl Undefined\<close>.  Allocation succeeds: the source
  ends the process when memory is exhausted.  The optional functions of an allocator are flags; when they are
  present they are those of the default allocator.
\<close>

section \<open>Memory\<close>

datatype ptr = Null | Ptr nat nat

type_synonym byte = "u8 option"

record memory =
  m_blocks :: "nat \<Rightarrow> byte list option"
  m_next :: nat

fun ptr_add :: "ptr \<Rightarrow> nat \<Rightarrow> ptr" where
  "ptr_add Null n = Null"
| "ptr_add (Ptr b off) n = Ptr b (off + n)"

fun bytes_at :: "memory \<Rightarrow> ptr \<Rightarrow> nat \<Rightarrow> byte list option" where
  "bytes_at m Null n = None"
| "bytes_at m (Ptr b off) n =
     (case m_blocks m b of
        None \<Rightarrow> None
      | Some bs \<Rightarrow> if off + n \<le> length bs then Some (take n (drop off bs)) else None)"

definition load_bytes :: "memory \<Rightarrow> ptr \<Rightarrow> nat \<Rightarrow> byte list res" where
  "load_bytes m p n = (case bytes_at m p n of None \<Rightarrow> Inl Undefined | Some bs \<Rightarrow> Inr bs)"

definition load_u8 :: "memory \<Rightarrow> ptr \<Rightarrow> nat \<Rightarrow> u8 res" where
  "load_u8 m p i =
     (case bytes_at m (ptr_add p i) 1 of Some [Some v] \<Rightarrow> Inr v | _ \<Rightarrow> Inl Undefined)"

fun store_bytes :: "memory \<Rightarrow> ptr \<Rightarrow> byte list \<Rightarrow> memory res" where
  "store_bytes m Null xs = Inl Undefined"
| "store_bytes m (Ptr b off) xs =
     (case m_blocks m b of
        None \<Rightarrow> Inl Undefined
      | Some bs \<Rightarrow>
          if off + length xs \<le> length bs
          then Inr (m\<lparr>m_blocks := (m_blocks m)(b \<mapsto> take off bs @ xs @ drop (off + length xs) bs)\<rparr>)
          else Inl Undefined)"

definition store_u8 :: "memory \<Rightarrow> ptr \<Rightarrow> nat \<Rightarrow> u8 \<Rightarrow> memory res" where
  "store_u8 m p i v = store_bytes m (ptr_add p i) [Some v]"

fun overlap :: "ptr \<Rightarrow> ptr \<Rightarrow> nat \<Rightarrow> bool" where
  "overlap (Ptr b off) (Ptr b' off') n \<longleftrightarrow> b = b' \<and> off < off' + n \<and> off' < off + n"
| "overlap _ _ n \<longleftrightarrow> False"

definition memcpy :: "memory \<Rightarrow> ptr \<Rightarrow> ptr \<Rightarrow> nat \<Rightarrow> memory res" where
  "memcpy m dest src n =
     (if n = 0 then Inr m
      else if overlap dest src n then Inl Undefined
      else bind_res (load_bytes m src n) (\<lambda>bs. store_bytes m dest bs))"

definition memset :: "memory \<Rightarrow> ptr \<Rightarrow> u8 \<Rightarrow> nat \<Rightarrow> memory res" where
  "memset m p v n = (if n = 0 then Inr m else store_bytes m p (replicate n (Some v)))"

section \<open>Allocator\<close>

record aws_allocator =
  has_mem_realloc :: bool
  has_mem_calloc :: bool

definition aws_default_allocator :: aws_allocator where
  "aws_default_allocator = \<lparr>has_mem_realloc = True, has_mem_calloc = True\<rparr>"

definition s_default_malloc :: "memory \<Rightarrow> nat \<Rightarrow> ptr \<times> memory" where
  "s_default_malloc m n =
     (Ptr (m_next m) 0,
      m\<lparr>m_blocks := (m_blocks m)(m_next m \<mapsto> replicate n None), m_next := m_next m + 1\<rparr>)"

fun s_default_free :: "memory \<Rightarrow> ptr \<Rightarrow> memory res" where
  "s_default_free m Null = Inr m"
| "s_default_free m (Ptr b off) =
     (if off = 0 \<and> m_blocks m b \<noteq> None then Inr (m\<lparr>m_blocks := (m_blocks m)(b := None)\<rparr>)
      else Inl Undefined)"

definition s_default_realloc :: "memory \<Rightarrow> ptr \<Rightarrow> size_t \<Rightarrow> size_t \<Rightarrow> (ptr \<times> memory) res" where
  "s_default_realloc m p oldsize newsize =
     (if newsize = 0 then Inl Aborted
      else if newsize \<le> oldsize then Inr (p, m)
      else case s_default_malloc m (unat newsize) of
        (new_mem, m) \<Rightarrow>
          if p \<noteq> Null
          then bind_res (memcpy m new_mem p (unat oldsize)) (\<lambda>m.
               bind_res (s_default_free m p) (\<lambda>m. Inr (new_mem, m)))
          else Inr (new_mem, m))"

definition s_default_calloc :: "memory \<Rightarrow> size_t \<Rightarrow> size_t \<Rightarrow> (ptr \<times> memory) res" where
  "s_default_calloc m num sz =
     (case s_default_malloc m (unat (num * sz)) of
        (p, m) \<Rightarrow> bind_res (memset m p 0 (unat (num * sz))) (\<lambda>m. Inr (p, m)))"

definition aws_mem_acquire :: "memory \<Rightarrow> aws_allocator option \<Rightarrow> size_t \<Rightarrow> (ptr \<times> memory) res" where
  "aws_mem_acquire m allocator sz =
     (if allocator = None \<or> sz = 0 then Inl Aborted
      else Inr (s_default_malloc m (unat sz)))"

definition aws_mem_calloc :: "memory \<Rightarrow> aws_allocator option \<Rightarrow> size_t \<Rightarrow> size_t \<Rightarrow> (ptr \<times> memory) res" where
  "aws_mem_calloc m allocator num sz =
     (case allocator of
        None \<Rightarrow> Inl Aborted
      | Some allocator \<Rightarrow>
          if num = 0 \<or> sz = 0 then Inl Aborted
          else case aws_mul_size_checked num sz of
                 Inl e \<Rightarrow> Inl Aborted
               | Inr required_bytes \<Rightarrow>
                   if has_mem_calloc allocator then s_default_calloc m num sz
                   else case s_default_malloc m (unat required_bytes) of
                          (p, m) \<Rightarrow> bind_res (memset m p 0 (unat required_bytes)) (\<lambda>m. Inr (p, m)))"

definition AWS_ALIGN_ROUND_UP :: "size_t \<Rightarrow> size_t \<Rightarrow> size_t" where
  "AWS_ALIGN_ROUND_UP value alignment = (value + (alignment - 1)) AND NOT (alignment - 1)"

fun acquire_many_total :: "size_t list \<Rightarrow> size_t \<Rightarrow> size_t" where
  "acquire_many_total [] total_size = total_size"
| "acquire_many_total (alloc_size # rest) total_size =
     acquire_many_total rest (total_size + AWS_ALIGN_ROUND_UP alloc_size 8)"

fun acquire_many_ptrs :: "size_t list \<Rightarrow> ptr \<Rightarrow> ptr list" where
  "acquire_many_ptrs [] current_ptr = []"
| "acquire_many_ptrs (alloc_size # rest) current_ptr =
     current_ptr # acquire_many_ptrs rest (ptr_add current_ptr (unat (AWS_ALIGN_ROUND_UP alloc_size 8)))"

text \<open>The out pointers of \<open>aws_mem_acquire_many\<close> are set only when something is allocated.\<close>

definition aws_mem_acquire_many ::
  "memory \<Rightarrow> aws_allocator option \<Rightarrow> size_t list \<Rightarrow> (ptr \<times> ptr list option \<times> memory) res" where
  "aws_mem_acquire_many m allocator sizes =
     (let total_size = acquire_many_total sizes 0
      in if total_size > 0
         then bind_res (aws_mem_acquire m allocator total_size)
                (\<lambda>(allocation, m). Inr (allocation, Some (acquire_many_ptrs sizes allocation), m))
         else Inr (Null, None, m))"

definition aws_mem_release :: "memory \<Rightarrow> aws_allocator option \<Rightarrow> ptr \<Rightarrow> memory res" where
  "aws_mem_release m allocator p =
     (if allocator = None then Inl Aborted
      else if p \<noteq> Null then s_default_free m p
      else Inr m)"

definition aws_mem_realloc ::
  "memory \<Rightarrow> aws_allocator option \<Rightarrow> ptr \<Rightarrow> size_t \<Rightarrow> size_t \<Rightarrow> (ptr \<times> memory) res" where
  "aws_mem_realloc m allocator p oldsize newsize =
     (case allocator of
        None \<Rightarrow> Inl Aborted
      | Some alloc \<Rightarrow>
          if newsize = 0 then bind_res (aws_mem_release m allocator p) (\<lambda>m. Inr (Null, m))
          else if has_mem_realloc alloc then s_default_realloc m p oldsize newsize
          else if oldsize \<ge> newsize then Inr (p, m)
          else case s_default_malloc m (unat newsize) of
                 (newptr, m) \<Rightarrow>
                   bind_res (memcpy m newptr p (unat oldsize)) (\<lambda>m.
                   bind_res (memset m (ptr_add newptr (unat oldsize)) 0 (unat (newsize - oldsize))) (\<lambda>m.
                   bind_res (aws_mem_release m allocator p) (\<lambda>m. Inr (newptr, m)))))"

definition aws_secure_zero :: "memory \<Rightarrow> ptr \<Rightarrow> size_t \<Rightarrow> memory res" where
  "aws_secure_zero m p bufsize = memset m p 0 (unat bufsize)"

section \<open>Abstraction and invariant\<close>

text \<open>Allocations not yet handed out are dead.\<close>

definition mem_ok :: "memory \<Rightarrow> bool" where
  "mem_ok m \<longleftrightarrow> (\<forall>b \<ge> m_next m. m_blocks m b = None)"

text \<open>The bytes from \<open>p\<close> on are \<open>xs\<close>.\<close>

definition holds :: "memory \<Rightarrow> ptr \<Rightarrow> u8 list \<Rightarrow> bool" where
  "holds m p xs \<longleftrightarrow> xs = [] \<or> bytes_at m p (length xs) = Some (map Some xs)"

text \<open>The \<open>n\<close> bytes from \<open>p\<close> on can be accessed.\<close>

definition room :: "memory \<Rightarrow> ptr \<Rightarrow> nat \<Rightarrow> bool" where
  "room m p n \<longleftrightarrow> n = 0 \<or> bytes_at m p n \<noteq> None"

text \<open>Two ranges without a common byte.\<close>

fun apart :: "ptr \<Rightarrow> nat \<Rightarrow> ptr \<Rightarrow> nat \<Rightarrow> bool" where
  "apart (Ptr b off) n (Ptr b' off') n' \<longleftrightarrow> b \<noteq> b' \<or> off + n \<le> off' \<or> off' + n' \<le> off"
| "apart _ _ _ _ \<longleftrightarrow> True"

text \<open>The memories differ at most in the \<open>n\<close> bytes from \<open>p\<close> on.\<close>

definition changed_only :: "memory \<Rightarrow> ptr \<Rightarrow> nat \<Rightarrow> memory \<Rightarrow> bool" where
  "changed_only m p n m' \<longleftrightarrow> m_next m' = m_next m \<and>
     (\<forall>q k. apart q k p n \<longrightarrow> bytes_at m' q k = bytes_at m q k) \<and> (\<forall>q k. bytes_at m' q k = None \<longleftrightarrow> bytes_at m q k = None)"

text \<open>Everything readable stays as it is.\<close>

definition mem_le :: "memory \<Rightarrow> memory \<Rightarrow> bool" where
  "mem_le m m' \<longleftrightarrow> (\<forall>q k bs. bytes_at m q k = Some bs \<longrightarrow> bytes_at m' q k = Some bs)"

fun block_of :: "ptr \<Rightarrow> nat option" where
  "block_of Null = None"
| "block_of (Ptr b off) = Some b"

text \<open>The memories differ at most in the allocation of \<open>p\<close>.\<close>

definition changed_block :: "memory \<Rightarrow> ptr \<Rightarrow> memory \<Rightarrow> bool" where
  "changed_block m p m' \<longleftrightarrow> (\<forall>q k bs. block_of q \<noteq> block_of p \<longrightarrow> bytes_at m q k = Some bs \<longrightarrow> bytes_at m' q k = Some bs)"

abbreviation align8 :: "size_t \<Rightarrow> nat" where
  "align8 sz \<equiv> (unat sz + 7) div 8 * 8"

text \<open>An empty memory.\<close>

definition empty_memory :: memory where
  "empty_memory = \<lparr>m_blocks = (\<lambda>b. None), m_next = 0\<rparr>"

section \<open>Lemmas\<close>

section \<open>Slices\<close>

lemma ptr_add_zero [simp]: "ptr_add p 0 = p" by (cases p) auto

lemma ptr_add_add [simp]: "ptr_add (ptr_add p a) b = ptr_add p (a + b)" by (cases p) auto

lemma bytes_at_length: "bytes_at m p n = Some bs \<Longrightarrow> length bs = n"
  by (cases p) (auto split: option.splits if_splits)

lemma bytes_at_add:
  "bytes_at m p (a + b) = (case bytes_at m p a of None \<Rightarrow> None | Some xs \<Rightarrow>
     (case bytes_at m (ptr_add p a) b of None \<Rightarrow> None | Some ys \<Rightarrow> Some (xs @ ys)))"
  by (cases p) (auto simp: take_add add.commute add.left_commute split: option.splits if_splits)

lemma bytes_at_sub: "bytes_at m p n \<noteq> None \<Longrightarrow> i + k \<le> n \<Longrightarrow> bytes_at m (ptr_add p i) k \<noteq> None"
  by (cases p) (auto split: option.splits if_splits)

lemma bytes_at_take: "bytes_at m p n = Some bs \<Longrightarrow> k \<le> n \<Longrightarrow> bytes_at m p k = Some (take k bs)"
  by (cases p) (auto split: option.splits if_splits)

lemma bytes_at_drop: "bytes_at m p n = Some bs \<Longrightarrow> i + k \<le> n \<Longrightarrow> bytes_at m (ptr_add p i) k = Some (take k (drop i bs))"
  by (cases p) (auto simp: drop_take add.commute min_absorb1 split: option.splits if_splits)

lemma holds_Nil [simp]: "holds m p []" by (simp add: holds_def)

lemma holds_append: "holds m p (xs @ ys) \<longleftrightarrow> holds m p xs \<and> holds m (ptr_add p (length xs)) ys"
proof (cases "xs = [] \<or> ys = []")
  case False
  have "bytes_at m p (length xs) = Some as \<Longrightarrow> length as = length xs" for as by (rule bytes_at_length)
  then show ?thesis using False unfolding holds_def length_append bytes_at_add
    by (auto split: option.splits)
qed auto

lemma holds_nth: "holds m p xs \<Longrightarrow> i < length xs \<Longrightarrow> bytes_at m (ptr_add p i) 1 = Some [Some (xs ! i)]"
  using bytes_at_drop [of m p "length xs" "map Some xs" i 1] by (auto simp: holds_def take_Suc hd_drop_conv_nth)

lemma load_u8_holds [simp]: "holds m p xs \<Longrightarrow> i < length xs \<Longrightarrow> load_u8 m p i = Inr (xs ! i)"
  using holds_nth [of m p xs i] by (simp add: load_u8_def)

lemma holds_room: "holds m p xs \<Longrightarrow> room m p (length xs)"
  by (auto simp: holds_def room_def)

lemma room_sub: "room m p n \<Longrightarrow> i + k \<le> n \<Longrightarrow> room m (ptr_add p i) k"
  using bytes_at_sub [of m p n i k] by (cases "n = 0") (auto simp: room_def)

lemma room_Null [simp]: "room m Null n \<longleftrightarrow> n = 0" by (simp add: room_def)

lemma holds_Null [simp]: "holds m Null xs \<longleftrightarrow> xs = []" by (simp add: holds_def)

section \<open>Writes\<close>

lemma list_patch_slice:
  assumes "off + length xs \<le> length bs" "off' + k \<le> length bs" "off' + k \<le> off \<or> off + length xs \<le> off'"
  shows "take k (drop off' (take off bs @ xs @ drop (off + length xs) bs)) = take k (drop off' bs)"
  by (rule nth_equalityI) (use assms in \<open>auto simp: nth_append\<close>)

lemma store_bytes_ok:
  assumes "room m p (length xs)" "xs \<noteq> []"
  obtains m' where "store_bytes m p xs = Inr m'" "bytes_at m' p (length xs) = Some xs" "changed_only m p (length xs) m'"
proof (cases p)
  case Null
  then show thesis using assms by simp
next
  case (Ptr b off)
  then obtain bs where bs: "m_blocks m b = Some bs" "off + length xs \<le> length bs"
    using assms by (auto simp: room_def split: option.splits if_splits)
  let ?m = "m\<lparr>m_blocks := (m_blocks m)(b \<mapsto> take off bs @ xs @ drop (off + length xs) bs)\<rparr>"
  have "changed_only m p (length xs) ?m"
    unfolding changed_only_def
  proof (intro conjI allI impI)
    show "bytes_at ?m q k = bytes_at m q k" if "apart q k p (length xs)" for q k
      using that bs list_patch_slice [OF bs(2)] by (cases q) (auto simp: Ptr split: option.splits)
    show "bytes_at ?m q k = None \<longleftrightarrow> bytes_at m q k = None" for q k
      using bs by (cases q) (auto split: option.splits)
  qed simp
  then show thesis using that [of ?m] bs by (simp add: Ptr)
qed

lemma changed_only_refl [simp]: "changed_only m p n m" by (simp add: changed_only_def)

lemma apart_mono: "apart q k p n \<Longrightarrow> i + n' \<le> n \<Longrightarrow> apart q k (ptr_add p i) n'"
  by (cases q; cases p) auto

lemma changed_only_mono: "changed_only m (ptr_add p i) n' m' \<Longrightarrow> i + n' \<le> n \<Longrightarrow> changed_only m p n m'"
  unfolding changed_only_def using apart_mono by blast

lemma changed_only_trans: "changed_only m p n m1 \<Longrightarrow> changed_only m1 p n m2 \<Longrightarrow> changed_only m p n m2"
  unfolding changed_only_def by metis

lemma changed_only_holds: "changed_only m p n m' \<Longrightarrow> apart q (length xs) p n \<Longrightarrow> holds m' q xs \<longleftrightarrow> holds m q xs"
  by (simp add: changed_only_def holds_def)

lemma changed_only_room: "changed_only m p n m' \<Longrightarrow> room m' q k \<longleftrightarrow> room m q k"
  by (simp add: changed_only_def room_def)

lemma bytes_at_dead: "m_blocks m b = None \<longleftrightarrow> bytes_at m (Ptr b 0) 0 = None"
  by (auto split: option.splits)

lemma changed_only_mem_ok: "changed_only m p n m' \<Longrightarrow> mem_ok m' \<longleftrightarrow> mem_ok m"
  unfolding changed_only_def mem_ok_def bytes_at_dead by metis

lemma apart_sym: "apart p n q k \<longleftrightarrow> apart q k p n"
  by (cases p; cases q) auto

lemma not_overlap: "apart p n q n \<Longrightarrow> \<not> overlap p q n"
  by (cases p; cases q) auto

lemma memcpy_ok:
  assumes "holds m src xs" "room m dest (length xs)" "apart dest (length xs) src (length xs)" "length xs = n"
  obtains m' where "memcpy m dest src n = Inr m'" "holds m' dest xs" "changed_only m dest n m'"
proof (cases "xs = []")
  case True
  then show thesis using that [of m] assms by (simp add: memcpy_def)
next
  case False
  have s: "bytes_at m src n = Some (map Some xs)" using assms(1,4) False by (simp add: holds_def)
  have "room m dest (length (map Some xs))" "map Some xs \<noteq> []" using assms(2) False by simp_all
  from store_bytes_ok [OF this] obtain m' where "store_bytes m dest (map Some xs) = Inr m'"
    "bytes_at m' dest (length (map Some xs)) = Some (map Some xs)" "changed_only m dest (length (map Some xs)) m'" .
  then show thesis using that [of m'] s assms(3,4) not_overlap [of dest n src] False
    by (auto simp: memcpy_def load_bytes_def holds_def)
qed

lemma memset_ok:
  assumes "room m p n"
  obtains m' where "memset m p v n = Inr m'" "holds m' p (replicate n v)" "changed_only m p n m'"
proof (cases "n = 0")
  case True
  then show thesis using that [of m] by (simp add: memset_def)
next
  case False
  obtain m' where "store_bytes m p (replicate n (Some v)) = Inr m'" "bytes_at m' p n = Some (replicate n (Some v))" "changed_only m p n m'"
    using store_bytes_ok [of m p "replicate n (Some v)"] assms False by auto
  then show thesis using that [of m'] False by (simp add: memset_def holds_def map_replicate_const)
qed

lemma store_u8_ok:
  assumes "room m (ptr_add p i) 1"
  obtains m' where "store_u8 m p i v = Inr m'" "holds m' (ptr_add p i) [v]" "changed_only m (ptr_add p i) 1 m'"
  using store_bytes_ok [of m "ptr_add p i" "[Some v]"] assms by (auto simp: store_u8_def holds_def)

section \<open>Allocation\<close>

lemma memcpy_bytes:
  assumes "bytes_at m src n = Some bs" "room m dest n" "apart dest n src n" "0 < n"
  obtains m' where "memcpy m dest src n = Inr m'" "bytes_at m' dest n = Some bs" "changed_only m dest n m'"
proof -
  have l: "length bs = n" by (rule bytes_at_length [OF assms(1)])
  then have "room m dest (length bs)" "bs \<noteq> []" using assms by auto
  from store_bytes_ok [OF this] obtain m' where "store_bytes m dest bs = Inr m'"
    "bytes_at m' dest (length bs) = Some bs" "changed_only m dest (length bs) m'" .
  then show thesis using that l assms not_overlap [OF assms(3)] by (auto simp: memcpy_def load_bytes_def)
qed

lemma mem_le_holds: "mem_le m m' \<Longrightarrow> holds m p xs \<Longrightarrow> holds m' p xs"
  by (auto simp: mem_le_def holds_def)

lemma mem_le_room: "mem_le m m' \<Longrightarrow> room m p n \<Longrightarrow> room m' p n"
  by (auto simp: mem_le_def room_def)

lemma mem_le_trans: "mem_le a b \<Longrightarrow> mem_le b c \<Longrightarrow> mem_le a c" by (simp add: mem_le_def)

lemma fresh_block: "mem_ok m \<Longrightarrow> bytes_at m q k \<noteq> None \<Longrightarrow> block_of q \<noteq> Some (m_next m)"
  by (cases q) (auto simp: mem_ok_def split: option.splits)

lemma apart_blocks: "block_of p \<noteq> block_of q \<Longrightarrow> apart p n q k"
  by (cases p; cases q) auto

lemma malloc_ok:
  assumes "mem_ok m" "s_default_malloc m n = (p, m')"
  shows "p = Ptr (m_next m) 0" "bytes_at m' p n = Some (replicate n None)" "room m' p n" "mem_ok m'" "mem_le m m'"
proof -
  show p: "p = Ptr (m_next m) 0" using assms(2) by (auto simp: s_default_malloc_def)
  show "bytes_at m' p n = Some (replicate n None)" using assms(2) by (auto simp: s_default_malloc_def)
  then show "room m' p n" by (simp add: room_def)
  show "mem_ok m'" using assms by (auto simp: s_default_malloc_def mem_ok_def)
  show "mem_le m m'" unfolding mem_le_def
  proof (intro allI impI)
    fix q k bs assume "bytes_at m q k = Some bs"
    then show "bytes_at m' q k = Some bs" using fresh_block [OF assms(1), of q k] assms(2)
      by (cases q) (auto simp: s_default_malloc_def)
  qed
qed

lemma acquire_ok:
  assumes "mem_ok m" "sz \<noteq> 0"
  obtains p m' where "aws_mem_acquire m (Some a) sz = Inr (p, m')" "p = Ptr (m_next m) 0" "room m' p (unat sz)" "mem_ok m'" "mem_le m m'"
proof -
  obtain p m' where r: "s_default_malloc m (unat sz) = (p, m')" by (metis surj_pair)
  then show thesis using that [of p m'] malloc_ok [OF assms(1) r] assms(2) by (simp add: aws_mem_acquire_def)
qed

lemma free_ok:
  assumes "room m (Ptr b 0) n" "0 < n" "mem_ok m"
  obtains m' where "s_default_free m (Ptr b 0) = Inr m'" "changed_block m (Ptr b 0) m'" "mem_ok m'"
proof -
  have "m_blocks m b \<noteq> None" using assms(1,2) by (auto simp: room_def split: option.splits)
  moreover have "changed_block m (Ptr b 0) (m\<lparr>m_blocks := (m_blocks m)(b := None)\<rparr>)"
    unfolding changed_block_def
  proof (intro allI impI)
    fix q k bs assume "block_of q \<noteq> block_of (Ptr b 0)" "bytes_at m q k = Some bs"
    then show "bytes_at (m\<lparr>m_blocks := (m_blocks m)(b := None)\<rparr>) q k = Some bs" by (cases q) auto
  qed
  moreover have "mem_ok (m\<lparr>m_blocks := (m_blocks m)(b := None)\<rparr>)" using assms(3) by (simp add: mem_ok_def)
  ultimately show thesis using that by simp
qed

lemma changed_block_holds: "changed_block m p m' \<Longrightarrow> block_of q \<noteq> block_of p \<Longrightarrow> holds m q xs \<Longrightarrow> holds m' q xs"
  by (auto simp: changed_block_def holds_def)

lemma changed_block_room: "changed_block m p m' \<Longrightarrow> block_of q \<noteq> block_of p \<Longrightarrow> room m q k \<Longrightarrow> room m' q k"
  by (auto simp: changed_block_def room_def)

lemma release_old:
  assumes ok: "mem_ok m" and bs: "bytes_at m (Ptr b 0) n = Some bs" "0 < n" and p: "p = Ptr (m_next m) 0"
    and fr: "\<And>x k y. bytes_at m x k = Some y \<Longrightarrow> block_of x \<noteq> block_of p \<Longrightarrow> bytes_at m' x k = Some y"
    and m': "mem_ok m'" "bytes_at m' p n = Some bs" "room m' p k"
  obtains m'' where "s_default_free m' (Ptr b 0) = Inr m''" "bytes_at m'' p n = Some bs" "room m'' p k" "mem_ok m''"
    "changed_block m (Ptr b 0) m''"
proof -
  let ?q = "Ptr b 0"
  have nb: "block_of ?q \<noteq> block_of p" using fresh_block [OF ok, of ?q n] bs p by simp
  have "room m' ?q n" using fr [OF bs(1) nb] by (simp add: room_def)
  then obtain m'' where m'': "s_default_free m' ?q = Inr m''" "changed_block m' ?q m''" "mem_ok m''"
    using free_ok [OF _ bs(2) m'(1)] by blast
  have "changed_block m ?q m''"
    using fr m''(2) fresh_block [OF ok] p unfolding changed_block_def by (metis block_of.simps(2) option.distinct(1))
  moreover have "bytes_at m'' p n = Some bs" using m''(2) m'(2) nb unfolding changed_block_def by metis
  moreover have "room m'' p k" using changed_block_room [OF m''(2) _ m'(3)] nb by metis
  ultimately show thesis using that m'' by blast
qed

text \<open>Growing an allocation moves its bytes to a fresh one and leaves every other allocation alone.\<close>

lemma realloc_ok:
  assumes ok: "mem_ok m" and bs: "bytes_at m (Ptr b 0) (unat old) = Some bs" and lt: "old < new" "0 < old"
  obtains p m' where "aws_mem_realloc m (Some a) (Ptr b 0) old new = Inr (p, m')" "p = Ptr (m_next m) 0"
    "bytes_at m' p (unat old) = Some bs" "room m' p (unat new)" "mem_ok m'" "changed_block m (Ptr b 0) m'"
proof -
  let ?q = "Ptr b 0"
  have n: "new \<noteq> 0" "\<not> new \<le> old" "unat old < unat new" "0 < unat old" using lt by (auto simp: word_less_nat_alt word_le_nat_alt)
  obtain p m1 where r: "s_default_malloc m (unat new) = (p, m1)" by (metis surj_pair)
  note ma = malloc_ok [OF ok r]
  have bs1: "bytes_at m1 ?q (unat old) = Some bs" using ma(5) bs unfolding mem_le_def by blast
  have nb: "block_of ?q \<noteq> block_of p" using fresh_block [OF ok, of ?q "unat old"] bs ma(1) by simp
  have rm: "room m1 p (unat old)" using room_sub [OF ma(3), of 0 "unat old"] n(3) by simp
  obtain m2 where m2: "memcpy m1 p ?q (unat old) = Inr m2" "bytes_at m2 p (unat old) = Some bs" "changed_only m1 p (unat old) m2"
    by (rule memcpy_bytes [OF bs1 rm apart_blocks n(4)]) (use nb in simp)
  have rest: "\<exists>m'. bind_res (if fill then memset m2 (ptr_add p (unat old)) 0 (unat (new - old)) else Inr m2)
        (\<lambda>m. s_default_free m ?q) = Inr m' \<and>
      bytes_at m' p (unat old) = Some bs \<and> room m' p (unat new) \<and> mem_ok m' \<and> changed_block m ?q m'" for fill
  proof -
    have sub: "unat (new - old) = unat new - unat old" using lt by (intro unat_sub_exact) simp
    have "room m2 (ptr_add p (unat old)) (unat (new - old))"
      using room_sub [OF ma(3), of "unat old" "unat new - unat old"] changed_only_room [OF m2(3)] n(3) sub by simp
    then obtain m3 where m3: "(if fill then memset m2 (ptr_add p (unat old)) 0 (unat (new - old)) else Inr m2) = Inr m3"
      "changed_only m2 (ptr_add p (unat old)) (unat (new - old)) m3"
      using memset_ok [of m2 "ptr_add p (unat old)" "unat (new - old)" 0] by (cases fill) auto
    have fr: "bytes_at m3 x k = Some y" if "bytes_at m x k = Some y" "block_of x \<noteq> block_of p" for x k y
    proof -
      have "block_of x \<noteq> block_of (ptr_add p (unat old))" using that(2) ma(1) by simp
      then show ?thesis using that ma(5) m2(3) m3(2) apart_blocks by (metis changed_only_def mem_le_def)
    qed
    have ok3: "mem_ok m3" using ma(4) changed_only_mem_ok m2(3) m3(2) by blast
    have "apart p (unat old) (ptr_add p (unat old)) (unat (new - old))" using ma(1) by simp
    then have b3: "bytes_at m3 p (unat old) = Some bs" using m2(2) m3(2) by (simp add: changed_only_def)
    have r3: "room m3 p (unat new)" using ma(3) changed_only_room m2(3) m3(2) by blast
    obtain m4 where "s_default_free m3 ?q = Inr m4" "bytes_at m4 p (unat old) = Some bs" "room m4 p (unat new)" "mem_ok m4"
      "changed_block m ?q m4" by (rule release_old [OF ok bs n(4) ma(1) fr ok3 b3 r3])
    then show ?thesis using m3(1) by (auto simp del: bytes_at.simps s_default_free.simps)
  qed
  show thesis
  proof (cases "has_mem_realloc a")
    case True
    then show thesis using rest [of False] that n r m2(1) ma(1) by (auto simp: aws_mem_realloc_def s_default_realloc_def)
  next
    case False
    obtain m' where m': "bind_res (memset m2 (ptr_add p (unat old)) 0 (unat (new - old))) (\<lambda>m. s_default_free m ?q) = Inr m'"
      "bytes_at m' p (unat old) = Some bs" "room m' p (unat new)" "mem_ok m'" "changed_block m ?q m'" using rest [of True] by auto
    then show thesis using that False n r m2(1) ma(1)
      by (cases "memset m2 (ptr_add p (unat old)) 0 (unat (new - old))") (auto simp: aws_mem_realloc_def aws_mem_release_def)
  qed
qed

section \<open>Several allocations at once\<close>

lemma and_not_mask: "w AND NOT (mask k) = push_bit k (drop_bit k w)" for w :: "'a :: len word"
  by (rule bit_word_eqI) (auto simp: bit_and_iff bit_not_iff bit_mask_iff bit_push_bit_iff bit_drop_bit_eq)

lemma align_round_up:
  assumes "unat sz + 7 < 2 ^ 64"
  shows "unat (AWS_ALIGN_ROUND_UP sz 8) = (unat sz + 7) div 8 * 8"
proof -
  have "(8 :: size_t) - 1 = mask 3" by (simp add: mask_eq_exp_minus_1)
  then have "AWS_ALIGN_ROUND_UP sz 8 = push_bit 3 (drop_bit 3 (sz + mask 3))"
    unfolding AWS_ALIGN_ROUND_UP_def by (simp only: and_not_mask)
  then have e: "AWS_ALIGN_ROUND_UP sz 8 = drop_bit 3 (sz + mask 3) * 8" by (simp add: push_bit_eq_mult)
  have m: "unat (mask 3 :: size_t) = 7" by (simp add: mask_eq_exp_minus_1)
  have w: "unat (sz + mask 3) = unat sz + 7" using assms m by (subst unat_add_exact) auto
  have d: "unat (drop_bit 3 (sz + mask 3)) = (unat sz + 7) div 8"
    unfolding unat_drop_bit_eq w by (simp add: drop_bit_eq_div)
  have "(unat sz + 7) div 8 * 8 < 2 ^ 64" using assms div_times_less_eq_dividend [of "unat sz + 7" 8] by linarith
  then show ?thesis unfolding e using d by (subst unat_mul_exact) auto
qed

lemma align8_ge: "unat sz \<le> align8 sz" by linarith

lemma acquire_many_total_eq:
  assumes "(\<Sum>s\<leftarrow>sizes. unat s + 7) + unat t < 2 ^ 64"
  shows "unat (acquire_many_total sizes t) = (\<Sum>s\<leftarrow>sizes. align8 s) + unat t"
  using assms
proof (induction sizes arbitrary: t)
  case (Cons s ss)
  have a: "unat (AWS_ALIGN_ROUND_UP s 8) = align8 s" by (rule align_round_up) (use Cons.prems in simp)
  have le: "align8 s \<le> unat s + 7" by linarith
  then have u: "unat (t + AWS_ALIGN_ROUND_UP s 8) = unat t + align8 s" using a Cons.prems by (subst unat_add_exact) auto
  then have "(\<Sum>s\<leftarrow>ss. unat s + 7) + unat (t + AWS_ALIGN_ROUND_UP s 8) < 2 ^ 64" using Cons.prems le by simp
  from Cons.IH [OF this] u show ?case by simp
qed simp

lemma acquire_many_ptrs_eq:
  assumes "(\<Sum>s\<leftarrow>sizes. unat s + 7) < 2 ^ 64"
  shows "acquire_many_ptrs sizes (Ptr b off) = map (\<lambda>i. Ptr b (off + (\<Sum>s\<leftarrow>take i sizes. align8 s))) [0 ..< length sizes]"
  using assms
proof (induction sizes arbitrary: off)
  case (Cons s ss)
  have a: "unat (AWS_ALIGN_ROUND_UP s 8) = align8 s" by (rule align_round_up) (use Cons.prems in simp)
  have "[0 ..< length (s # ss)] = 0 # map Suc [0 ..< length ss]" by (simp add: map_Suc_upt upt_conv_Cons del: upt_Suc)
  then show ?case using Cons a by (simp add: comp_def add.assoc)
qed simp

lemma sum_take_Suc: "i < length xs \<Longrightarrow> (\<Sum>s\<leftarrow>take (Suc i) xs. f s) = (\<Sum>s\<leftarrow>take i xs. f s) + (f (xs ! i) :: nat)"
  by (simp add: take_Suc_conv_app_nth)

lemma sum_take_mono: "i \<le> j \<Longrightarrow> (\<Sum>s\<leftarrow>take i xs. f s) \<le> (\<Sum>s\<leftarrow>take j xs. (f s :: nat))"
  by (metis le_add1 le_add_diff_inverse map_append sum_list_append take_add)

lemma sum_take_le: "(\<Sum>s\<leftarrow>take i xs. f s) \<le> (\<Sum>s\<leftarrow>xs. (f s :: nat))"
  by (metis append_take_drop_id le_add1 map_append sum_list_append)

section \<open>Properties\<close>

lemma empty_memory_ok: "mem_ok empty_memory" by (simp add: mem_ok_def empty_memory_def)

text \<open>
  When the sum of the rounded sizes does not overflow, \<open>aws_mem_acquire_many\<close> returns pointers into one
  allocation that are aligned to eight bytes, have room for the requested sizes and do not overlap, and every
  earlier allocation keeps its bytes.
\<close>

theorem acquire_many_regions:
  assumes "mem_ok m" "(\<Sum>s\<leftarrow>sizes. unat s + 7) < 2 ^ 64" "\<exists>s \<in> set sizes. s \<noteq> 0"
  shows "\<exists>b ps m'. aws_mem_acquire_many m (Some a) sizes = Inr (Ptr b 0, Some ps, m') \<and> length ps = length sizes \<and>
    (\<forall>i < length sizes. \<exists>off. ps ! i = Ptr b off \<and> 8 dvd off \<and> room m' (ps ! i) (unat (sizes ! i))) \<and>
    (\<forall>i < length sizes. \<forall>j < length sizes. i \<noteq> j \<longrightarrow> apart (ps ! i) (unat (sizes ! i)) (ps ! j) (unat (sizes ! j))) \<and>
    mem_le m m' \<and> mem_ok m'"
proof -
  let ?off = "\<lambda>i. \<Sum>s\<leftarrow>take i sizes. align8 s" and ?t = "acquire_many_total sizes 0"
  have tot: "unat ?t = (\<Sum>s\<leftarrow>sizes. align8 s)" using acquire_many_total_eq [of sizes 0] assms(2) by simp
  obtain s where s: "s \<in> set sizes" "s \<noteq> 0" using assms(3) by blast
  then have "align8 s \<noteq> 0" using align8_ge [of s] by (metis le_zero_eq unat_eq_zero_iff)
  then have t0: "?t \<noteq> 0" using tot s member_le_sum_list [of "align8 s" "map align8 sizes"] by auto
  obtain p m' where p: "aws_mem_acquire m (Some a) ?t = Inr (p, m')" "p = Ptr (m_next m) 0" "room m' p (unat ?t)" "mem_ok m'" "mem_le m m'"
    by (rule acquire_ok [OF assms(1) t0])
  let ?ps = "acquire_many_ptrs sizes p"
  have ps: "?ps = map (\<lambda>i. Ptr (m_next m) (?off i)) [0 ..< length sizes]"
    using acquire_many_ptrs_eq [OF assms(2), of "m_next m" 0] p(2) by simp
  have nth: "?ps ! i = Ptr (m_next m) (?off i)" if "i < length sizes" for i using that by (simp add: ps)
  have end_: "?off i + unat (sizes ! i) \<le> ?off (Suc i)" if "i < length sizes" for i
    using align8_ge [of "sizes ! i"] sum_take_Suc [OF that, of align8] by linarith
  have "room m' (?ps ! i) (unat (sizes ! i))" if "i < length sizes" for i
    using room_sub [OF p(3), of "?off i" "unat (sizes ! i)"] end_ [OF that] sum_take_le [of align8 "Suc i" sizes] tot
    unfolding nth [OF that] by (simp add: p(2))
  moreover have "8 dvd (\<Sum>s\<leftarrow>xs. align8 s)" for xs by (induction xs) simp_all
  moreover have "?off i + unat (sizes ! i) \<le> ?off j" if "i < j" "j < length sizes" for i j
    using end_ [of i] sum_take_mono [of "Suc i" j align8 sizes] that by simp
  then have "apart (?ps ! i) (unat (sizes ! i)) (?ps ! j) (unat (sizes ! j))"
    if "i < length sizes" "j < length sizes" "i \<noteq> j" for i j
    using that by (cases "i < j") (auto simp: nth)
  moreover have "aws_mem_acquire_many m (Some a) sizes = Inr (p, Some ?ps, m')"
    using p(1) t0 by (simp add: aws_mem_acquire_many_def Let_def word_neq_0_conv)
  ultimately show ?thesis using p nth ps by auto
qed

theorem acquire_many_regions_witness:
  "\<exists>ps m'. aws_mem_acquire_many empty_memory (Some aws_default_allocator) [5, 0, 12] = Inr (Ptr 0 0, Some ps, m') \<and>
     apart (ps ! 0) 5 (ps ! 2) 12"
proof -
  let ?s = "[5, 0, 12] :: size_t list"
  have h: "(\<Sum>s\<leftarrow>?s. unat s + 7) < 2 ^ 64" "\<exists>s \<in> set ?s. s \<noteq> 0" by simp_all
  obtain b ps m' where r: "aws_mem_acquire_many empty_memory (Some aws_default_allocator) ?s = Inr (Ptr b 0, Some ps, m')"
    "\<forall>i < length ?s. \<forall>j < length ?s. i \<noteq> j \<longrightarrow> apart (ps ! i) (unat (?s ! i)) (ps ! j) (unat (?s ! j))"
    using acquire_many_regions [OF empty_memory_ok h, of aws_default_allocator] by blast
  have "fst (projr (aws_mem_acquire_many empty_memory (Some aws_default_allocator) ?s)) = Ptr 0 0" by code_simp
  moreover have "apart (ps ! 0) (unat (?s ! 0)) (ps ! 2) (unat (?s ! 2))" by (rule r(2) [rule_format]) simp_all
  ultimately show ?thesis using r(1) by simp
qed

end
