(* ===== verification/Byte_Buf.thy ===== *)
theory Byte_Buf
  imports Byte_Memory Math_Ops
begin

text \<open>
  Byte buffers of \<open>source/byte_buf.c\<close>: creation, growth, appending and writing, and the byte comparisons.

  A buffer is its \<open>struct aws_byte_buf\<close>; its bytes live in the memory.  A function that returns
  \<open>AWS_OP_SUCCESS\<close> or \<open>AWS_OP_ERR\<close> returns its result, the buffer and the memory after the call; a function
  that returns a \<open>bool\<close> and cannot raise returns it in the same way.  A cursor passed by value or by a pointer
  to \<open>const\<close> is an argument.  \<open>memcmp\<close> returns the sign of the first difference.
\<close>

section \<open>Data\<close>

record byte_buf =
  b_len :: size_t
  b_buffer :: ptr
  b_capacity :: size_t
  b_allocator :: "aws_allocator option"

record byte_cursor =
  c_len :: size_t
  c_ptr :: ptr

definition zero_buf :: byte_buf where
  "zero_buf = \<lparr>b_len = 0, b_buffer = Null, b_capacity = 0, b_allocator = None\<rparr>"

definition zero_cursor :: byte_cursor where
  "zero_cursor = \<lparr>c_len = 0, c_ptr = Null\<rparr>"

text \<open>A step on the memory inside a buffer operation: a failure leaves the buffer and ends the operation.\<close>

definition buf_step ::
  "memory res \<Rightarrow> byte_buf \<Rightarrow> memory \<Rightarrow> (memory \<Rightarrow> 'r res \<times> byte_buf \<times> memory) \<Rightarrow> 'r res \<times> byte_buf \<times> memory" where
  "buf_step r buf m f = (case r of Inl e \<Rightarrow> (Inl e, buf, m) | Inr m' \<Rightarrow> f m')"

definition aws_byte_buf_is_valid :: "byte_buf \<Rightarrow> bool" where
  "aws_byte_buf_is_valid buf \<longleftrightarrow>
     (b_capacity buf = 0 \<and> b_len buf = 0 \<and> b_buffer buf = Null) \<or>
     (b_capacity buf > 0 \<and> b_len buf \<le> b_capacity buf \<and> b_buffer buf \<noteq> Null)"

definition aws_byte_cursor_is_valid :: "byte_cursor \<Rightarrow> bool" where
  "aws_byte_cursor_is_valid cursor \<longleftrightarrow> c_len cursor = 0 \<or> (c_len cursor > 0 \<and> c_ptr cursor \<noteq> Null)"

section \<open>Creation and clean-up\<close>

definition aws_byte_buf_init ::
  "memory \<Rightarrow> aws_allocator option \<Rightarrow> size_t \<Rightarrow> unit res \<times> byte_buf \<times> memory" where
  "aws_byte_buf_init m allocator capacity =
     (if capacity = 0
      then (AWS_OP_SUCCESS, \<lparr>b_len = 0, b_buffer = Null, b_capacity = 0, b_allocator = allocator\<rparr>, m)
      else case aws_mem_acquire m allocator capacity of
             Inl e \<Rightarrow> (Inl e, zero_buf, m)
           | Inr (p, m) \<Rightarrow>
               (AWS_OP_SUCCESS, \<lparr>b_len = 0, b_buffer = p, b_capacity = capacity, b_allocator = allocator\<rparr>, m))"

definition aws_byte_buf_init_copy ::
  "memory \<Rightarrow> byte_buf \<Rightarrow> aws_allocator option \<Rightarrow> byte_buf \<Rightarrow> unit res \<times> byte_buf \<times> memory" where
  "aws_byte_buf_init_copy m dest allocator src =
     (if \<not> aws_byte_buf_is_valid src then (aws_raise_error AWS_ERROR_INVALID_ARGUMENT, dest, m)
      else if b_buffer src = Null then (AWS_OP_SUCCESS, zero_buf\<lparr>b_allocator := allocator\<rparr>, m)
      else case aws_mem_acquire m allocator (b_capacity src) of
             Inl e \<Rightarrow> (Inl e, zero_buf, m)
           | Inr (p, m) \<Rightarrow>
               let dest = src\<lparr>b_allocator := allocator, b_buffer := p\<rparr>
               in buf_step (memcpy m p (b_buffer src) (unat (b_len src))) dest m (\<lambda>m. (AWS_OP_SUCCESS, dest, m)))"

definition aws_byte_buf_secure_zero :: "memory \<Rightarrow> byte_buf \<Rightarrow> unit res \<times> byte_buf \<times> memory" where
  "aws_byte_buf_secure_zero m buf =
     buf_step (if b_buffer buf \<noteq> Null then aws_secure_zero m (b_buffer buf) (b_capacity buf) else Inr m) buf m
       (\<lambda>m. (AWS_OP_SUCCESS, buf\<lparr>b_len := 0\<rparr>, m))"

definition aws_byte_buf_reset :: "memory \<Rightarrow> byte_buf \<Rightarrow> bool \<Rightarrow> unit res \<times> byte_buf \<times> memory" where
  "aws_byte_buf_reset m buf zero_contents =
     (case (if zero_contents then aws_byte_buf_secure_zero m buf else (AWS_OP_SUCCESS, buf, m)) of
        (Inl e, buf, m) \<Rightarrow> (Inl e, buf, m)
      | (Inr _, buf, m) \<Rightarrow> (AWS_OP_SUCCESS, buf\<lparr>b_len := 0\<rparr>, m))"

definition aws_byte_buf_clean_up :: "memory \<Rightarrow> byte_buf \<Rightarrow> unit res \<times> byte_buf \<times> memory" where
  "aws_byte_buf_clean_up m buf =
     buf_step (if b_allocator buf \<noteq> None \<and> b_buffer buf \<noteq> Null
               then aws_mem_release m (b_allocator buf) (b_buffer buf) else Inr m) buf m
       (\<lambda>m. (AWS_OP_SUCCESS, zero_buf, m))"

definition aws_byte_buf_clean_up_secure :: "memory \<Rightarrow> byte_buf \<Rightarrow> unit res \<times> byte_buf \<times> memory" where
  "aws_byte_buf_clean_up_secure m buf =
     (case aws_byte_buf_secure_zero m buf of
        (Inl e, buf, m) \<Rightarrow> (Inl e, buf, m)
      | (Inr _, buf, m) \<Rightarrow> aws_byte_buf_clean_up m buf)"

definition aws_byte_buf_init_copy_from_cursor ::
  "memory \<Rightarrow> byte_buf \<Rightarrow> aws_allocator option \<Rightarrow> byte_cursor \<Rightarrow> unit res \<times> byte_buf \<times> memory" where
  "aws_byte_buf_init_copy_from_cursor m dest allocator src =
     (if \<not> aws_byte_cursor_is_valid src then (aws_raise_error AWS_ERROR_INVALID_ARGUMENT, dest, m)
      else if c_len src = 0 then (AWS_OP_SUCCESS, zero_buf\<lparr>b_allocator := allocator\<rparr>, m)
      else case aws_mem_acquire m allocator (c_len src) of
             Inl e \<Rightarrow> (Inl e, zero_buf, m)
           | Inr (p, m) \<Rightarrow>
               let dest = \<lparr>b_len = c_len src, b_buffer = p, b_capacity = c_len src, b_allocator = allocator\<rparr>
               in buf_step (memcpy m p (c_ptr src) (unat (c_len src))) dest m (\<lambda>m. (AWS_OP_SUCCESS, dest, m)))"

text \<open>The length of a C string: the distance to its terminator.\<close>

fun strlen_list :: "byte list \<Rightarrow> nat \<Rightarrow> nat res" where
  "strlen_list [] n = Inl Undefined"
| "strlen_list (None # bs) n = Inl Undefined"
| "strlen_list (Some v # bs) n = (if v = 0 then Inr n else strlen_list bs (Suc n))"

fun strlen :: "memory \<Rightarrow> ptr \<Rightarrow> nat res" where
  "strlen m Null = Inl Undefined"
| "strlen m (Ptr b off) =
     (case m_blocks m b of
        None \<Rightarrow> Inl Undefined
      | Some bs \<Rightarrow> if off \<le> length bs then strlen_list (drop off bs) 0 else Inl Undefined)"

definition aws_byte_buf_from_c_str :: "memory \<Rightarrow> ptr \<Rightarrow> byte_buf res" where
  "aws_byte_buf_from_c_str m c_str =
     bind_res (if c_str = Null then Inr 0 else strlen m c_str) (\<lambda>n.
       Inr \<lparr>b_len = word_of_nat n, b_buffer = (if (word_of_nat n :: size_t) = 0 then Null else c_str),
            b_capacity = word_of_nat n, b_allocator = None\<rparr>)"

definition aws_byte_buf_from_array :: "ptr \<Rightarrow> size_t \<Rightarrow> byte_buf" where
  "aws_byte_buf_from_array bytes len =
     \<lparr>b_len = len, b_buffer = (if len > 0 then bytes else Null), b_capacity = len, b_allocator = None\<rparr>"

definition aws_byte_buf_from_empty_array :: "ptr \<Rightarrow> size_t \<Rightarrow> byte_buf" where
  "aws_byte_buf_from_empty_array bytes capacity =
     \<lparr>b_len = 0, b_buffer = (if capacity > 0 then bytes else Null), b_capacity = capacity, b_allocator = None\<rparr>"

definition aws_byte_cursor_from_buf :: "byte_buf \<Rightarrow> byte_cursor" where
  "aws_byte_cursor_from_buf buf = \<lparr>c_len = b_len buf, c_ptr = b_buffer buf\<rparr>"

definition aws_byte_cursor_from_c_str :: "memory \<Rightarrow> ptr \<Rightarrow> byte_cursor res" where
  "aws_byte_cursor_from_c_str m c_str =
     bind_res (if c_str = Null then Inr 0 else strlen m c_str) (\<lambda>n.
       Inr \<lparr>c_len = word_of_nat n, c_ptr = c_str\<rparr>)"

definition aws_byte_cursor_from_array :: "ptr \<Rightarrow> size_t \<Rightarrow> byte_cursor" where
  "aws_byte_cursor_from_array bytes len = \<lparr>c_len = len, c_ptr = bytes\<rparr>"

section \<open>Comparison\<close>

fun memcmp :: "memory \<Rightarrow> ptr \<Rightarrow> ptr \<Rightarrow> nat \<Rightarrow> int res" where
  "memcmp m p q 0 = Inr 0"
| "memcmp m p q (Suc n) =
     bind_res (load_u8 m p 0) (\<lambda>x.
     bind_res (load_u8 m q 0) (\<lambda>y.
       if x < y then Inr (- 1)
       else if x > y then Inr 1
       else memcmp m (ptr_add p 1) (ptr_add q 1) n))"

definition aws_array_eq :: "memory \<Rightarrow> ptr \<Rightarrow> size_t \<Rightarrow> ptr \<Rightarrow> size_t \<Rightarrow> bool res" where
  "aws_array_eq m array_a len_a array_b len_b =
     (if len_a \<noteq> len_b then Inr False
      else if len_a = 0 then Inr True
      else bind_res (memcmp m array_a array_b (unat len_a)) (\<lambda>c. Inr (c = 0)))"

text \<open>The 256 entries of the table, by ranges.\<close>

definition s_tolower_table :: "u8 list" where
  "s_tolower_table = map word_of_nat ([0 ..< 65] @ [97 ..< 123] @ [91 ..< 97] @ [97 ..< 123] @ [123 ..< 256])"

definition tolower :: "u8 \<Rightarrow> u8" where
  "tolower c = s_tolower_table ! unat c"

fun eq_ignore_case_loop :: "memory \<Rightarrow> ptr \<Rightarrow> ptr \<Rightarrow> nat \<Rightarrow> nat \<Rightarrow> bool res" where
  "eq_ignore_case_loop m bytes_a bytes_b i 0 = Inr True"
| "eq_ignore_case_loop m bytes_a bytes_b i (Suc n) =
     bind_res (load_u8 m bytes_a i) (\<lambda>x.
     bind_res (load_u8 m bytes_b i) (\<lambda>y.
       if tolower x \<noteq> tolower y then Inr False
       else eq_ignore_case_loop m bytes_a bytes_b (i + 1) n))"

definition aws_array_eq_ignore_case :: "memory \<Rightarrow> ptr \<Rightarrow> size_t \<Rightarrow> ptr \<Rightarrow> size_t \<Rightarrow> bool res" where
  "aws_array_eq_ignore_case m array_a len_a array_b len_b =
     (if len_a \<noteq> len_b then Inr False
      else eq_ignore_case_loop m array_a array_b 0 (unat len_a))"

fun eq_c_str_loop :: "(u8 \<Rightarrow> u8) \<Rightarrow> memory \<Rightarrow> ptr \<Rightarrow> ptr \<Rightarrow> nat \<Rightarrow> nat \<Rightarrow> bool res" where
  "eq_c_str_loop f m array_bytes str_bytes i 0 = bind_res (load_u8 m str_bytes i) (\<lambda>s. Inr (s = 0))"
| "eq_c_str_loop f m array_bytes str_bytes i (Suc n) =
     bind_res (load_u8 m str_bytes i) (\<lambda>s.
       if s = 0 then Inr False
       else bind_res (load_u8 m array_bytes i) (\<lambda>x.
              if f x \<noteq> f s then Inr False
              else eq_c_str_loop f m array_bytes str_bytes (i + 1) n))"

definition aws_array_eq_c_str_ignore_case :: "memory \<Rightarrow> ptr \<Rightarrow> size_t \<Rightarrow> ptr \<Rightarrow> bool res" where
  "aws_array_eq_c_str_ignore_case m array array_len c_str = eq_c_str_loop tolower m array c_str 0 (unat array_len)"

definition aws_array_eq_c_str :: "memory \<Rightarrow> ptr \<Rightarrow> size_t \<Rightarrow> ptr \<Rightarrow> bool res" where
  "aws_array_eq_c_str m array array_len c_str = eq_c_str_loop id m array c_str 0 (unat array_len)"

definition aws_byte_buf_eq :: "memory \<Rightarrow> byte_buf \<Rightarrow> byte_buf \<Rightarrow> bool res" where
  "aws_byte_buf_eq m a b = aws_array_eq m (b_buffer a) (b_len a) (b_buffer b) (b_len b)"

definition aws_byte_buf_eq_ignore_case :: "memory \<Rightarrow> byte_buf \<Rightarrow> byte_buf \<Rightarrow> bool res" where
  "aws_byte_buf_eq_ignore_case m a b = aws_array_eq_ignore_case m (b_buffer a) (b_len a) (b_buffer b) (b_len b)"

definition aws_byte_buf_eq_c_str :: "memory \<Rightarrow> byte_buf \<Rightarrow> ptr \<Rightarrow> bool res" where
  "aws_byte_buf_eq_c_str m buf c_str = aws_array_eq_c_str m (b_buffer buf) (b_len buf) c_str"

definition aws_byte_buf_eq_c_str_ignore_case :: "memory \<Rightarrow> byte_buf \<Rightarrow> ptr \<Rightarrow> bool res" where
  "aws_byte_buf_eq_c_str_ignore_case m buf c_str = aws_array_eq_c_str_ignore_case m (b_buffer buf) (b_len buf) c_str"

definition aws_byte_cursor_eq :: "memory \<Rightarrow> byte_cursor \<Rightarrow> byte_cursor \<Rightarrow> bool res" where
  "aws_byte_cursor_eq m a b = aws_array_eq m (c_ptr a) (c_len a) (c_ptr b) (c_len b)"

definition aws_byte_cursor_eq_ignore_case :: "memory \<Rightarrow> byte_cursor \<Rightarrow> byte_cursor \<Rightarrow> bool res" where
  "aws_byte_cursor_eq_ignore_case m a b = aws_array_eq_ignore_case m (c_ptr a) (c_len a) (c_ptr b) (c_len b)"

definition aws_byte_cursor_eq_byte_buf :: "memory \<Rightarrow> byte_cursor \<Rightarrow> byte_buf \<Rightarrow> bool res" where
  "aws_byte_cursor_eq_byte_buf m a b = aws_array_eq m (c_ptr a) (c_len a) (b_buffer b) (b_len b)"

definition aws_byte_cursor_eq_byte_buf_ignore_case :: "memory \<Rightarrow> byte_cursor \<Rightarrow> byte_buf \<Rightarrow> bool res" where
  "aws_byte_cursor_eq_byte_buf_ignore_case m a b = aws_array_eq_ignore_case m (c_ptr a) (c_len a) (b_buffer b) (b_len b)"

definition aws_byte_cursor_eq_c_str :: "memory \<Rightarrow> byte_cursor \<Rightarrow> ptr \<Rightarrow> bool res" where
  "aws_byte_cursor_eq_c_str m cursor c_str = aws_array_eq_c_str m (c_ptr cursor) (c_len cursor) c_str"

definition aws_byte_cursor_eq_c_str_ignore_case :: "memory \<Rightarrow> byte_cursor \<Rightarrow> ptr \<Rightarrow> bool res" where
  "aws_byte_cursor_eq_c_str_ignore_case m cursor c_str = aws_array_eq_c_str_ignore_case m (c_ptr cursor) (c_len cursor) c_str"

fun hash_ignore_case_loop :: "memory \<Rightarrow> ptr \<Rightarrow> nat \<Rightarrow> nat \<Rightarrow> u64 \<Rightarrow> u64 res" where
  "hash_ignore_case_loop m array i 0 hash = Inr hash"
| "hash_ignore_case_loop m array i (Suc n) hash =
     bind_res (load_u8 m array i) (\<lambda>c.
       hash_ignore_case_loop m array (i + 1) n ((hash XOR ucast (tolower c)) * 0x100000001b3))"

definition aws_hash_array_ignore_case :: "memory \<Rightarrow> ptr \<Rightarrow> size_t \<Rightarrow> u64 res" where
  "aws_hash_array_ignore_case m array len =
     (if array = Null then Inr 0xcbf29ce484222325
      else hash_ignore_case_loop m array 0 (unat len) 0xcbf29ce484222325)"

definition aws_hash_byte_cursor_ptr_ignore_case :: "memory \<Rightarrow> byte_cursor \<Rightarrow> u64 res" where
  "aws_hash_byte_cursor_ptr_ignore_case m cursor = aws_hash_array_ignore_case m (c_ptr cursor) (c_len cursor)"

definition aws_byte_cursor_starts_with :: "memory \<Rightarrow> byte_cursor \<Rightarrow> byte_cursor \<Rightarrow> bool res" where
  "aws_byte_cursor_starts_with m input pre =
     (if c_len input < c_len pre then Inr False
      else aws_byte_cursor_eq m \<lparr>c_len = c_len pre, c_ptr = c_ptr input\<rparr> pre)"

definition aws_byte_cursor_starts_with_ignore_case :: "memory \<Rightarrow> byte_cursor \<Rightarrow> byte_cursor \<Rightarrow> bool res" where
  "aws_byte_cursor_starts_with_ignore_case m input pre =
     (if c_len input < c_len pre then Inr False
      else aws_byte_cursor_eq_ignore_case m \<lparr>c_len = c_len pre, c_ptr = c_ptr input\<rparr> pre)"

section \<open>Appending\<close>

definition aws_byte_buf_append :: "memory \<Rightarrow> byte_buf \<Rightarrow> byte_cursor \<Rightarrow> unit res \<times> byte_buf \<times> memory" where
  "aws_byte_buf_append m to from =
     (if b_capacity to - b_len to < c_len from then (aws_raise_error AWS_ERROR_DEST_COPY_TOO_SMALL, to, m)
      else if c_len from > 0
      then buf_step (memcpy m (ptr_add (b_buffer to) (unat (b_len to))) (c_ptr from) (unat (c_len from))) to m
             (\<lambda>m. (AWS_OP_SUCCESS, to\<lparr>b_len := b_len to + c_len from\<rparr>, m))
      else (AWS_OP_SUCCESS, to, m))"

fun lookup_loop :: "memory \<Rightarrow> ptr \<Rightarrow> ptr \<Rightarrow> (u8 \<Rightarrow> u8) \<Rightarrow> nat \<Rightarrow> nat \<Rightarrow> memory res" where
  "lookup_loop m dest src lookup_table i 0 = Inr m"
| "lookup_loop m dest src lookup_table i (Suc n) =
     bind_res (load_u8 m src i) (\<lambda>c.
     bind_res (store_u8 m dest i (lookup_table c)) (\<lambda>m.
       lookup_loop m dest src lookup_table (i + 1) n))"

definition aws_byte_buf_append_with_lookup ::
  "memory \<Rightarrow> byte_buf \<Rightarrow> byte_cursor \<Rightarrow> (u8 \<Rightarrow> u8) \<Rightarrow> unit res \<times> byte_buf \<times> memory" where
  "aws_byte_buf_append_with_lookup m to from lookup_table =
     (if b_capacity to - b_len to < c_len from then (aws_raise_error AWS_ERROR_DEST_COPY_TOO_SMALL, to, m)
      else buf_step (lookup_loop m (ptr_add (b_buffer to) (unat (b_len to))) (c_ptr from) lookup_table 0 (unat (c_len from))) to m
        (\<lambda>m. case aws_add_size_checked (b_len to) (c_len from) of
                Inl e \<Rightarrow> (Inl e, to, m)
              | Inr len \<Rightarrow> (AWS_OP_SUCCESS, to\<lparr>b_len := len\<rparr>, m)))"

definition s_aws_byte_buf_append_dynamic ::
  "memory \<Rightarrow> byte_buf \<Rightarrow> byte_cursor \<Rightarrow> bool \<Rightarrow> unit res \<times> byte_buf \<times> memory" where
  "s_aws_byte_buf_append_dynamic m to from clear_released_memory =
     (if b_allocator to = None then (aws_raise_error AWS_ERROR_INVALID_ARGUMENT, to, m)
      else if b_capacity to - b_len to < c_len from then
        (let missing_capacity = c_len from - (b_capacity to - b_len to)
         in case aws_add_size_checked (b_capacity to) missing_capacity of
              Inl e \<Rightarrow> (Inl e, to, m)
            | Inr required_capacity \<Rightarrow>
                let growth_capacity = aws_add_size_saturating (b_capacity to) (b_capacity to);
                    new_capacity = (if required_capacity < growth_capacity then growth_capacity else required_capacity)
                in case aws_mem_acquire m (b_allocator to) new_capacity of
                     Inl e \<Rightarrow> (Inl e, to, m)
                   | Inr (new_buffer, m) \<Rightarrow>
                       buf_step (if b_len to > 0 then memcpy m new_buffer (b_buffer to) (unat (b_len to)) else Inr m) to m (\<lambda>m.
                       buf_step (if c_len from > 0
                                 then memcpy m (ptr_add new_buffer (unat (b_len to))) (c_ptr from) (unat (c_len from))
                                 else Inr m) to m (\<lambda>m.
                       buf_step (if clear_released_memory then aws_secure_zero m (b_buffer to) (b_capacity to) else Inr m) to m (\<lambda>m.
                       buf_step (aws_mem_release m (b_allocator to) (b_buffer to)) to m (\<lambda>m.
                         (AWS_OP_SUCCESS,
                          to\<lparr>b_buffer := new_buffer, b_capacity := new_capacity, b_len := b_len to + c_len from\<rparr>, m))))))
      else
        buf_step (if c_len from > 0
                  then memcpy m (ptr_add (b_buffer to) (unat (b_len to))) (c_ptr from) (unat (c_len from))
                  else Inr m) to m
          (\<lambda>m. (AWS_OP_SUCCESS, to\<lparr>b_len := b_len to + c_len from\<rparr>, m)))"

definition aws_byte_buf_append_dynamic ::
  "memory \<Rightarrow> byte_buf \<Rightarrow> byte_cursor \<Rightarrow> unit res \<times> byte_buf \<times> memory" where
  "aws_byte_buf_append_dynamic m to from = s_aws_byte_buf_append_dynamic m to from False"

definition aws_byte_buf_append_dynamic_secure ::
  "memory \<Rightarrow> byte_buf \<Rightarrow> byte_cursor \<Rightarrow> unit res \<times> byte_buf \<times> memory" where
  "aws_byte_buf_append_dynamic_secure m to from = s_aws_byte_buf_append_dynamic m to from True"

text \<open>A local variable whose address is taken is an allocation of its own, released at the end.\<close>

definition with_local :: "memory \<Rightarrow> u8 list \<Rightarrow> (memory \<Rightarrow> ptr \<Rightarrow> 'r \<times> byte_buf \<times> memory) \<Rightarrow> 'r \<times> byte_buf \<times> memory" where
  "with_local m bytes f =
     (let b = m_next m;
          m = m\<lparr>m_blocks := (m_blocks m)(b \<mapsto> map Some bytes), m_next := b + 1\<rparr>
      in case f m (Ptr b 0) of (r, buf, m) \<Rightarrow> (r, buf, m\<lparr>m_blocks := (m_blocks m)(b := None)\<rparr>))"

definition s_aws_byte_buf_append_byte_dynamic ::
  "memory \<Rightarrow> byte_buf \<Rightarrow> u8 \<Rightarrow> bool \<Rightarrow> unit res \<times> byte_buf \<times> memory" where
  "s_aws_byte_buf_append_byte_dynamic m buffer value clear_released_memory =
     with_local m [value] (\<lambda>m p.
       s_aws_byte_buf_append_dynamic m buffer \<lparr>c_len = 1, c_ptr = p\<rparr> clear_released_memory)"

definition aws_byte_buf_append_byte_dynamic :: "memory \<Rightarrow> byte_buf \<Rightarrow> u8 \<Rightarrow> unit res \<times> byte_buf \<times> memory" where
  "aws_byte_buf_append_byte_dynamic m buffer value = s_aws_byte_buf_append_byte_dynamic m buffer value False"

definition aws_byte_buf_append_byte_dynamic_secure :: "memory \<Rightarrow> byte_buf \<Rightarrow> u8 \<Rightarrow> unit res \<times> byte_buf \<times> memory" where
  "aws_byte_buf_append_byte_dynamic_secure m buffer value = s_aws_byte_buf_append_byte_dynamic m buffer value True"

definition aws_byte_buf_append_null_terminator :: "memory \<Rightarrow> byte_buf \<Rightarrow> unit res \<times> byte_buf \<times> memory" where
  "aws_byte_buf_append_null_terminator m buf =
     with_local m [0] (\<lambda>m p. aws_byte_buf_append_dynamic m buf \<lparr>c_len = 1, c_ptr = p\<rparr>)"

definition aws_byte_buf_reserve :: "memory \<Rightarrow> byte_buf \<Rightarrow> size_t \<Rightarrow> unit res \<times> byte_buf \<times> memory" where
  "aws_byte_buf_reserve m buffer requested_capacity =
     (if b_allocator buffer = None \<or> \<not> aws_byte_buf_is_valid buffer then (aws_raise_error AWS_ERROR_INVALID_ARGUMENT, buffer, m)
      else if requested_capacity \<le> b_capacity buffer then (AWS_OP_SUCCESS, buffer, m)
      else if b_buffer buffer = Null \<and> b_capacity buffer = 0 \<and> requested_capacity > b_capacity buffer
      then aws_byte_buf_init m (b_allocator buffer) requested_capacity
      else case aws_mem_realloc m (b_allocator buffer) (b_buffer buffer) (b_capacity buffer) requested_capacity of
             Inl e \<Rightarrow> (Inl e, buffer, m)
           | Inr (p, m) \<Rightarrow> (AWS_OP_SUCCESS, buffer\<lparr>b_buffer := p, b_capacity := requested_capacity\<rparr>, m))"

definition aws_byte_buf_reserve_relative :: "memory \<Rightarrow> byte_buf \<Rightarrow> size_t \<Rightarrow> unit res \<times> byte_buf \<times> memory" where
  "aws_byte_buf_reserve_relative m buffer additional_length =
     (if b_allocator buffer = None \<or> \<not> aws_byte_buf_is_valid buffer then (aws_raise_error AWS_ERROR_INVALID_ARGUMENT, buffer, m)
      else case aws_add_size_checked (b_len buffer) additional_length of
             Inl e \<Rightarrow> (Inl e, buffer, m)
           | Inr requested_capacity \<Rightarrow> aws_byte_buf_reserve m buffer requested_capacity)"

fun aws_byte_buf_cat :: "memory \<Rightarrow> byte_buf \<Rightarrow> byte_buf list \<Rightarrow> unit res \<times> byte_buf \<times> memory" where
  "aws_byte_buf_cat m dest [] = (AWS_OP_SUCCESS, dest, m)"
| "aws_byte_buf_cat m dest (buffer # rest) =
     (case aws_byte_buf_append m dest (aws_byte_cursor_from_buf buffer) of
        (Inl e, dest, m) \<Rightarrow> (Inl e, dest, m)
      | (Inr _, dest, m) \<Rightarrow> aws_byte_buf_cat m dest rest)"

text \<open>The cursor after the update is part of the result.\<close>

definition aws_byte_buf_append_and_update ::
  "memory \<Rightarrow> byte_buf \<Rightarrow> byte_cursor \<Rightarrow> byte_cursor res \<times> byte_buf \<times> memory" where
  "aws_byte_buf_append_and_update m to from_and_update =
     (case aws_byte_buf_append m to from_and_update of
        (Inl e, to, m) \<Rightarrow> (Inl e, to, m)
      | (Inr _, to, m) \<Rightarrow>
          (Inr (from_and_update\<lparr>c_ptr := ptr_add (b_buffer to) (unat (b_len to - c_len from_and_update))\<rparr>), to, m))"

fun cursors_total_len :: "byte_cursor list \<Rightarrow> size_t \<Rightarrow> size_t res" where
  "cursors_total_len [] total_len = Inr total_len"
| "cursors_total_len (cursor_i # rest) total_len =
     (case aws_add_size_checked total_len (c_len cursor_i) of
        Inl e \<Rightarrow> Inl e
      | Inr total_len \<Rightarrow> cursors_total_len rest total_len)"

fun cache_cursors :: "memory \<Rightarrow> byte_buf \<Rightarrow> byte_cursor list \<Rightarrow> byte_cursor list res \<times> byte_buf \<times> memory" where
  "cache_cursors m dest [] = (Inr [], dest, m)"
| "cache_cursors m dest (cursor_i # rest) =
     (case aws_byte_buf_append_and_update m dest cursor_i of
        (Inl (Raised e), dest, m) \<Rightarrow>
          (case cache_cursors m dest rest of (r, dest, m) \<Rightarrow> (map_sum id ((#) cursor_i) r, dest, m))
      | (Inl e, dest, m) \<Rightarrow> (Inl e, dest, m)
      | (Inr cursor_i, dest, m) \<Rightarrow>
          (case cache_cursors m dest rest of (r, dest, m) \<Rightarrow> (map_sum id ((#) cursor_i) r, dest, m)))"

definition aws_byte_buf_init_cache_and_update_cursors ::
  "memory \<Rightarrow> aws_allocator option \<Rightarrow> byte_cursor list \<Rightarrow> byte_cursor list res \<times> byte_buf \<times> memory" where
  "aws_byte_buf_init_cache_and_update_cursors m allocator cursors =
     (case cursors_total_len cursors 0 of
        Inl e \<Rightarrow> (Inl e, zero_buf, m)
      | Inr total_len \<Rightarrow>
          (case aws_byte_buf_init m allocator total_len of
             (Inl e, dest, m) \<Rightarrow> (Inl e, dest, m)
           | (Inr _, dest, m) \<Rightarrow> cache_cursors m dest cursors))"

section \<open>Writing\<close>

definition aws_byte_buf_advance :: "byte_buf \<Rightarrow> size_t \<Rightarrow> bool \<times> byte_buf \<times> byte_buf" where
  "aws_byte_buf_advance buffer len =
     (if b_capacity buffer - b_len buffer \<ge> len
      then (True, buffer\<lparr>b_len := b_len buffer + len\<rparr>,
            (aws_byte_buf_from_array
               (if b_buffer buffer = Null then Null else ptr_add (b_buffer buffer) (unat (b_len buffer))) len)\<lparr>b_len := 0\<rparr>)
      else (False, buffer, zero_buf))"

definition aws_byte_buf_write :: "memory \<Rightarrow> byte_buf \<Rightarrow> ptr \<Rightarrow> size_t \<Rightarrow> bool res \<times> byte_buf \<times> memory" where
  "aws_byte_buf_write m buf src len =
     (if len = 0 then (Inr True, buf, m)
      else if b_len buf > drop_bit 1 SIZE_MAX \<or> len > drop_bit 1 SIZE_MAX \<or> b_len buf + len > b_capacity buf
      then (Inr False, buf, m)
      else buf_step (memcpy m (ptr_add (b_buffer buf) (unat (b_len buf))) src (unat len)) buf m
             (\<lambda>m. (Inr True, buf\<lparr>b_len := b_len buf + len\<rparr>, m)))"

definition aws_byte_buf_write_from_whole_buffer :: "memory \<Rightarrow> byte_buf \<Rightarrow> byte_buf \<Rightarrow> bool res \<times> byte_buf \<times> memory" where
  "aws_byte_buf_write_from_whole_buffer m buf src = aws_byte_buf_write m buf (b_buffer src) (b_len src)"

definition aws_byte_buf_write_from_whole_cursor :: "memory \<Rightarrow> byte_buf \<Rightarrow> byte_cursor \<Rightarrow> bool res \<times> byte_buf \<times> memory" where
  "aws_byte_buf_write_from_whole_cursor m buf src = aws_byte_buf_write m buf (c_ptr src) (c_len src)"

definition aws_byte_buf_write_u8 :: "memory \<Rightarrow> byte_buf \<Rightarrow> u8 \<Rightarrow> bool res \<times> byte_buf \<times> memory" where
  "aws_byte_buf_write_u8 m buf c = with_local m [c] (\<lambda>m p. aws_byte_buf_write m buf p 1)"

definition aws_byte_buf_write_u8_n :: "memory \<Rightarrow> byte_buf \<Rightarrow> u8 \<Rightarrow> size_t \<Rightarrow> bool res \<times> byte_buf \<times> memory" where
  "aws_byte_buf_write_u8_n m buf c n_bytes =
     (if b_len buf > drop_bit 1 SIZE_MAX \<or> n_bytes > drop_bit 1 SIZE_MAX \<or> b_len buf + n_bytes > b_capacity buf
      then (Inr False, buf, m)
      else buf_step (memset m (ptr_add (b_buffer buf) (unat (b_len buf))) c (unat n_bytes)) buf m
             (\<lambda>m. (Inr True, buf\<lparr>b_len := b_len buf + n_bytes\<rparr>, m)))"

section \<open>Abstraction and invariant\<close>

text \<open>The buffer is valid in the memory and its first \<open>b_len\<close> bytes are \<open>xs\<close>.\<close>

definition buf_holds :: "memory \<Rightarrow> byte_buf \<Rightarrow> u8 list \<Rightarrow> bool" where
  "buf_holds m buf xs \<longleftrightarrow> aws_byte_buf_is_valid buf \<and> unat (b_len buf) = length xs \<and>
     room m (b_buffer buf) (unat (b_capacity buf)) \<and> holds m (b_buffer buf) xs"

text \<open>The buffer owns its allocation.\<close>

definition owned :: "byte_buf \<Rightarrow> bool" where
  "owned buf \<longleftrightarrow> b_allocator buf \<noteq> None \<and> (b_capacity buf = 0 \<or> (\<exists>b. b_buffer buf = Ptr b 0))"

definition cur_holds :: "memory \<Rightarrow> byte_cursor \<Rightarrow> u8 list \<Rightarrow> bool" where
  "cur_holds m c xs \<longleftrightarrow> unat (c_len c) = length xs \<and> holds m (c_ptr c) xs"

text \<open>The unused part of the buffer, where it writes next, does not meet the range of the cursor.\<close>

definition off_tail :: "byte_buf \<Rightarrow> byte_cursor \<Rightarrow> bool" where
  "off_tail buf c \<longleftrightarrow> c_len c = 0 \<or> apart (ptr_add (b_buffer buf) (unat (b_len buf))) (unat (b_capacity buf) - unat (b_len buf))
     (c_ptr c) (unat (c_len c))"

fun lex_sign :: "u8 list \<Rightarrow> u8 list \<Rightarrow> int" where
  "lex_sign (x # xs) (y # ys) = (if x < y then - 1 else if x > y then 1 else lex_sign xs ys)"
| "lex_sign [] [] = 0"
| "lex_sign [] ys = - 1"
| "lex_sign xs [] = 1"

fun fnv :: "u8 list \<Rightarrow> u64 \<Rightarrow> u64" where
  "fnv [] hash = hash"
| "fnv (c # cs) hash = fnv cs ((hash XOR ucast (tolower c)) * 0x100000001b3)"

text \<open>
  What a client relies on when it appends several pieces: \<open>rep s xs\<close> says that the sink holds \<open>xs\<close>,
  \<open>src s c ys\<close> that the piece \<open>c\<close> denotes \<open>ys\<close> and is not disturbed by appending, and \<open>fits s n\<close> that \<open>n\<close>
  more bytes can be appended.
\<close>

fun put_list :: "('s \<Rightarrow> 'c \<Rightarrow> unit res \<times> 's) \<Rightarrow> 's \<Rightarrow> 'c list \<Rightarrow> unit res \<times> 's" where
  "put_list put s [] = (AWS_OP_SUCCESS, s)"
| "put_list put s (c # cs) = (case put s c of (Inl e, s) \<Rightarrow> (Inl e, s) | (Inr _, s) \<Rightarrow> put_list put s cs)"

text \<open>Sources of a fixed buffer lie off its unused part; sources of a growing one lie in another allocation.\<close>

definition fixed_src :: "byte_buf \<times> memory \<Rightarrow> byte_cursor \<Rightarrow> u8 list \<Rightarrow> bool" where
  "fixed_src s c ys \<longleftrightarrow> cur_holds (snd s) c ys \<and> off_tail (fst s) c"

definition outside :: "byte_buf \<Rightarrow> byte_cursor \<Rightarrow> bool" where
  "outside buf c \<longleftrightarrow> c_len c = 0 \<or> block_of (c_ptr c) \<noteq> block_of (b_buffer buf)"

definition dynamic_src :: "byte_buf \<times> memory \<Rightarrow> byte_cursor \<Rightarrow> u8 list \<Rightarrow> bool" where
  "dynamic_src s c ys \<longleftrightarrow> cur_holds (snd s) c ys \<and> outside (fst s) c"

text \<open>The cursors a run of the caching loop returns: consecutive ranges of the buffer.\<close>

fun placed :: "ptr \<Rightarrow> nat \<Rightarrow> byte_cursor list \<Rightarrow> u8 list list \<Rightarrow> bool" where
  "placed p i [] [] \<longleftrightarrow> True"
| "placed p i (c # cs) (ys # yss) \<longleftrightarrow> c_ptr c = ptr_add p i \<and> unat (c_len c) = length ys \<and> placed p (i + length ys) cs yss"
| "placed _ _ _ _ \<longleftrightarrow> False"

text \<open>A memory with two blocks, a growing buffer on the first and a cursor on the second.\<close>

definition demo_memory :: memory where
  "demo_memory = \<lparr>m_blocks = (\<lambda>b. None)(0 \<mapsto> [Some 72, Some 105, None], 1 \<mapsto> [Some 33, Some 63]), m_next = 2\<rparr>"

definition demo_buf :: byte_buf where
  "demo_buf = \<lparr>b_len = 2, b_buffer = Ptr 0 0, b_capacity = 3, b_allocator = Some aws_default_allocator\<rparr>"

definition demo_cursor :: byte_cursor where
  "demo_cursor = \<lparr>c_len = 2, c_ptr = Ptr 1 0\<rparr>"

section \<open>Lemmas\<close>

lemma buf_holdsD:
  assumes "buf_holds m buf xs"
  shows "b_len buf \<le> b_capacity buf" "unat (b_len buf) = length xs" "length xs \<le> unat (b_capacity buf)"
    "unat (b_capacity buf - b_len buf) = unat (b_capacity buf) - length xs"
    "room m (b_buffer buf) (unat (b_capacity buf))" "holds m (b_buffer buf) xs"
  using assms by (auto simp: buf_holds_def aws_byte_buf_is_valid_def word_le_nat_alt unat_sub_exact)

lemma buf_holds_cursor: "buf_holds m buf xs \<Longrightarrow> cur_holds m (aws_byte_cursor_from_buf buf) xs"
  by (simp add: buf_holds_def cur_holds_def aws_byte_cursor_from_buf_def)

lemma apart_sub:
  assumes "apart p n q k" "i + n' \<le> n" "j + k' \<le> k" shows "apart (ptr_add p i) n' (ptr_add q j) k'"
  using assms by (cases p; cases q) auto

lemma apart_empty: "apart p 0 q 0"
  by (cases p; cases q) auto

text \<open>Writing at the end of a buffer that has room.\<close>

lemma buf_extend:
  assumes b: "buf_holds m buf xs" and n: "length xs + length ys \<le> unat (b_capacity buf)"
    and c: "changed_only m (ptr_add (b_buffer buf) (length xs)) (length ys) m'" "holds m' (ptr_add (b_buffer buf) (length xs)) ys"
    and l: "unat len = length xs + length ys"
  shows "buf_holds m' (buf\<lparr>b_len := len\<rparr>) (xs @ ys)"
proof -
  note d = buf_holdsD [OF b]
  have "apart (b_buffer buf) (length xs) (ptr_add (b_buffer buf) (length xs)) (length ys)" by (cases "b_buffer buf") auto
  then have "holds m' (b_buffer buf) xs" using changed_only_holds [OF c(1)] d(6) by blast
  moreover have "b_capacity buf > 0" if "len \<noteq> 0"
    using n l that by (metis le_zero_eq unat_eq_zero_iff unat_0 word_neq_0_conv)
  ultimately show ?thesis using b n l c changed_only_room [OF c(1)]
    unfolding buf_holds_def aws_byte_buf_is_valid_def by (auto simp: holds_append word_le_nat_alt)
qed

lemma append_ok:
  assumes b: "buf_holds m buf xs" and c: "cur_holds m from ys" and off: "off_tail buf from"
    and n: "length xs + length ys \<le> unat (b_capacity buf)"
  obtains m' where "aws_byte_buf_append m buf from = (AWS_OP_SUCCESS, buf\<lparr>b_len := b_len buf + c_len from\<rparr>, m')"
    "buf_holds m' (buf\<lparr>b_len := b_len buf + c_len from\<rparr>) (xs @ ys)"
    "changed_only m (ptr_add (b_buffer buf) (length xs)) (length ys) m'"
proof -
  note d = buf_holdsD [OF b]
  have cl: "unat (c_len from) = length ys" "holds m (c_ptr from) ys" using c by (auto simp: cur_holds_def)
  have lim: "unat (b_capacity buf) < 2 ^ 64" by simp
  have ul: "unat (b_len buf + c_len from) = length xs + length ys"
    using d(2) cl(1) n lim by (subst unat_add_exact) (auto simp del: unat_size_lt)
  have "room m (ptr_add (b_buffer buf) (length xs)) (length ys)" by (rule room_sub [OF d(5) n])
  moreover have "apart (ptr_add (b_buffer buf) (length xs)) (length ys) (c_ptr from) (length ys)"
    using apart_empty [of "ptr_add (b_buffer buf) (length xs)" "c_ptr from"]
      apart_sub [of "ptr_add (b_buffer buf) (length xs)" "unat (b_capacity buf) - length xs" "c_ptr from" "length ys" 0 "length ys" 0 "length ys"]
      off n d(2) cl(1) by (auto simp: off_tail_def)
  ultimately obtain m' where m': "memcpy m (ptr_add (b_buffer buf) (length xs)) (c_ptr from) (length ys) = Inr m'"
    "holds m' (ptr_add (b_buffer buf) (length xs)) ys" "changed_only m (ptr_add (b_buffer buf) (length xs)) (length ys) m'"
    using memcpy_ok [OF cl(2)] by metis
  have "\<not> b_capacity buf - b_len buf < c_len from" using d(4) cl(1) n by (simp add: word_less_nat_alt)
  moreover have "buf = buf\<lparr>b_len := b_len buf + c_len from\<rparr>" "m' = m" if "c_len from = 0"
    using that m'(1) cl(1) by (auto simp: memcpy_def)
  ultimately have "aws_byte_buf_append m buf from = (AWS_OP_SUCCESS, buf\<lparr>b_len := b_len buf + c_len from\<rparr>, m')"
    using m'(1) d(2) cl(1) by (cases "c_len from = 0") (auto simp: aws_byte_buf_append_def buf_step_def word_neq_0_conv)
  then show thesis using that buf_extend [OF b n m'(3,2) ul] m'(3) by blast
qed

lemma append_short:
  assumes "buf_holds m buf xs" "cur_holds m from ys" "unat (b_capacity buf) < length xs + length ys"
  shows "aws_byte_buf_append m buf from = (aws_raise_error AWS_ERROR_DEST_COPY_TOO_SMALL, buf, m)"
proof -
  have "b_capacity buf - b_len buf < c_len from"
    using buf_holdsD [OF assms(1)] assms(2,3) by (simp add: cur_holds_def word_less_nat_alt)
  then show ?thesis by (simp add: aws_byte_buf_append_def)
qed

section \<open>Growth\<close>

text \<open>The new allocation of a growing append: the old bytes followed by the new ones.\<close>

lemma copy_both:
  assumes ok: "mem_ok m" and a: "aws_mem_acquire m (Some alloc) cap = Inr (p, m1)" and c0: "cap \<noteq> 0"
    and xs: "holds m q xs" and ys: "holds m r ys" and n: "length xs + length ys \<le> unat cap"
  obtains m3 where
    "bind_res (memcpy m1 p q (length xs)) (\<lambda>m. memcpy m (ptr_add p (length xs)) r (length ys)) = Inr m3"
    "holds m3 p (xs @ ys)" "room m3 p (unat cap)" "mem_ok m3" "p = Ptr (m_next m) 0" "mem_le m m3"
proof -
  obtain p' m1' where ac: "aws_mem_acquire m (Some alloc) cap = Inr (p', m1')" "p' = Ptr (m_next m) 0" "room m1' p' (unat cap)" "mem_ok m1'" "mem_le m m1'"
    by (rule acquire_ok [OF ok c0])
  then have p: "p = Ptr (m_next m) 0" "room m1 p (unat cap)" "mem_ok m1" "mem_le m m1" using a by auto
  have nb: "apart p k z j" if "bytes_at m z i \<noteq> None" for z i j k
    using fresh_block [OF ok that] p(1) by (intro apart_blocks) auto
  have ap: "apart (ptr_add p i) (length zs) z (length zs)" if "holds m z zs" for z zs i
    using that p(1) fresh_block [OF ok, of z "length zs"] apart_blocks [of "ptr_add p i" z]
    by (cases "zs = []") (cases z; auto simp: holds_def)+
  have "room m1 p (length xs)" using room_sub [OF p(2), of 0 "length xs"] n by simp
  then obtain m2 where m2: "memcpy m1 p q (length xs) = Inr m2" "holds m2 p xs" "changed_only m1 p (length xs) m2"
    using memcpy_ok [OF mem_le_holds [OF p(4) xs]] ap [OF xs, of 0] by (metis ptr_add_zero)
  have le2: "bytes_at m2 z k = Some bs" if "bytes_at m z k = Some bs" for z k bs
    using that p(4) m2(3) nb [of z k] apart_sym unfolding mem_le_def changed_only_def by (metis option.distinct(1))
  then have "mem_le m m2" by (simp add: mem_le_def)
  then have ys2: "holds m2 r ys" using ys mem_le_holds by blast
  have "room m2 (ptr_add p (length xs)) (length ys)" using room_sub [OF p(2) n] changed_only_room [OF m2(3)] by blast
  then obtain m3 where m3: "memcpy m2 (ptr_add p (length xs)) r (length ys) = Inr m3" "holds m3 (ptr_add p (length xs)) ys"
    "changed_only m2 (ptr_add p (length xs)) (length ys) m3"
    using memcpy_ok [OF ys2 _ ap [OF ys, of "length xs"]] by metis
  have "apart p (length xs) (ptr_add p (length xs)) (length ys)" using p(1) by simp
  then have "holds m3 p (xs @ ys)" using changed_only_holds [OF m3(3)] m2(2) m3(2) by (simp add: holds_append)
  moreover have "mem_le m m3"
    unfolding mem_le_def
  proof (intro allI impI)
    fix z k bs assume z: "bytes_at m z k = Some bs"
    have "apart z k (ptr_add p (length xs)) (length ys)"
      using fresh_block [OF ok, of z k] z p(1) by (intro apart_blocks) auto
    then show "bytes_at m3 z k = Some bs" using le2 [OF z] m3(3) by (simp add: changed_only_def)
  qed
  ultimately show thesis
    using that m2(1) m3(1) p changed_only_room [OF m2(3)] changed_only_room [OF m3(3)] changed_only_mem_ok [OF m2(3)] changed_only_mem_ok [OF m3(3)]
    by auto
qed

text \<open>Clearing and releasing the old allocation of a buffer keeps every other allocation.\<close>

lemma drop_old:
  assumes ok: "mem_ok m" and r: "room m (b_buffer buf) (unat (b_capacity buf))" and o: "owned buf" and v: "aws_byte_buf_is_valid buf"
  obtains m' where
    "bind_res (if clear then aws_secure_zero m (b_buffer buf) (b_capacity buf) else Inr m)
       (\<lambda>m. aws_mem_release m (b_allocator buf) (b_buffer buf)) = Inr m'"
    "changed_block m (b_buffer buf) m'" "mem_ok m'"
proof (cases "b_capacity buf = 0")
  case True
  then have "b_buffer buf = Null" using v by (auto simp: aws_byte_buf_is_valid_def)
  then show thesis using that [of m] True o ok
    by (simp add: aws_secure_zero_def memset_def aws_mem_release_def owned_def changed_block_def)
next
  case False
  then obtain b where b: "b_buffer buf = Ptr b 0" using o by (auto simp: owned_def)
  obtain m0 where "memset m (b_buffer buf) 0 (unat (b_capacity buf)) = Inr m0" "changed_only m (b_buffer buf) (unat (b_capacity buf)) m0"
    by (rule memset_ok [OF r, of 0])
  then obtain m1 where m1: "(if clear then aws_secure_zero m (b_buffer buf) (b_capacity buf) else Inr m) = Inr m1"
    "changed_only m (b_buffer buf) (unat (b_capacity buf)) m1"
    by (cases clear) (auto simp: aws_secure_zero_def)
  have "room m1 (Ptr b 0) (unat (b_capacity buf))" "mem_ok m1"
    using changed_only_room [OF m1(2)] r b changed_only_mem_ok [OF m1(2)] ok by auto
  moreover have "0 < unat (b_capacity buf)" using False by (simp add: unat_gt_0)
  ultimately obtain m2 where m2: "s_default_free m1 (Ptr b 0) = Inr m2" "changed_block m1 (Ptr b 0) m2" "mem_ok m2"
    using free_ok by blast
  have "changed_block m (b_buffer buf) m2"
    unfolding changed_block_def
  proof (intro allI impI)
    fix q k bs assume q: "block_of q \<noteq> block_of (b_buffer buf)" "bytes_at m q k = Some bs"
    then have "bytes_at m1 q k = Some bs" using m1(2) apart_blocks [OF q(1)] by (simp add: changed_only_def)
    then show "bytes_at m2 q k = Some bs" using m2(2) q(1) b unfolding changed_block_def by metis
  qed
  then show thesis using that m1(1) m2 b o by (simp add: aws_mem_release_def owned_def)
qed

lemma memcpy_if: "(if 0 < n then memcpy m p q (unat n) else Inr m) = memcpy m p q (unat n)"
  by (auto simp: memcpy_def word_neq_0_conv)

lemma grown_capacity:
  assumes "unat (len :: size_t) \<le> unat cap" "unat cap < unat len + unat flen" "unat len + unat flen < 2 ^ 64"
  obtains req where "aws_add_size_checked cap (flen - (cap - len)) = Inr req" "unat req = unat len + unat flen"
    "req \<noteq> 0" "unat req \<le> unat (if req < aws_add_size_saturating cap cap then aws_add_size_saturating cap cap else req)"
proof -
  have "len \<le> cap" using assms(1) by (simp add: word_le_nat_alt)
  then have a: "unat (cap - len) = unat cap - unat len" by (rule unat_sub_exact)
  then have "cap - len \<le> flen" using assms(1,2) by (simp add: word_le_nat_alt)
  then have b: "unat (flen - (cap - len)) = unat flen - (unat cap - unat len)" using a by (simp add: unat_sub_exact)
  then have s: "unat cap + unat (flen - (cap - len)) = unat len + unat flen" using assms(1,2) by simp
  then have "aws_add_size_checked cap (flen - (cap - len)) = Inr (cap + (flen - (cap - len)))"
    using assms(3) by (simp add: aws_add_size_checked_eq)
  moreover have u: "unat (cap + (flen - (cap - len))) = unat len + unat flen" using s assms(3) by (subst unat_add_exact) auto
  moreover have "cap + (flen - (cap - len)) \<noteq> 0" using u assms(1,2) by (metis gr_implies_not0 unat_0)
  ultimately show thesis by (intro that) (auto simp: word_less_nat_alt)
qed

lemma append_dynamic_grow:
  assumes ok: "mem_ok m" and b: "buf_holds m buf xs" and o: "owned buf" and c: "cur_holds m from ys"
    and gr: "\<not> length xs + length ys \<le> unat (b_capacity buf)" and n: "length xs + length ys < 2 ^ 64"
  obtains buf' m' where "s_aws_byte_buf_append_dynamic m buf from clear = (AWS_OP_SUCCESS, buf', m')"
    "buf_holds m' buf' (xs @ ys)" "owned buf'" "mem_ok m'" "changed_block m (b_buffer buf) m'" "b_buffer buf' = Ptr (m_next m) 0"
proof -
  note d = buf_holdsD [OF b]
  have cl: "unat (c_len from) = length ys" "holds m (c_ptr from) ys" using c by (auto simp: cur_holds_def)
  obtain al where al: "b_allocator buf = Some al" using o by (auto simp: owned_def)
  obtain req where req: "aws_add_size_checked (b_capacity buf) (c_len from - (b_capacity buf - b_len buf)) = Inr req"
    "unat req = length xs + length ys" "req \<noteq> 0"
    "unat req \<le> unat (if req < aws_add_size_saturating (b_capacity buf) (b_capacity buf) then aws_add_size_saturating (b_capacity buf) (b_capacity buf) else req)"
    using grown_capacity [of "b_len buf" "b_capacity buf" "c_len from"] d(2,3) cl(1) gr n by (metis not_le)
  define cap where "cap = (if req < aws_add_size_saturating (b_capacity buf) (b_capacity buf) then aws_add_size_saturating (b_capacity buf) (b_capacity buf) else req)"
  have cap: "length xs + length ys \<le> unat cap" using req(2,4) by (simp add: cap_def)
  have cap0: "cap \<noteq> 0" using req(3,4) by (metis cap_def le_zero_eq unat_eq_zero_iff)
  obtain p m1 where a: "aws_mem_acquire m (Some al) cap = Inr (p, m1)" by (rule acquire_ok [OF ok cap0])
  obtain m3 where m3: "bind_res (memcpy m1 p (b_buffer buf) (length xs)) (\<lambda>m. memcpy m (ptr_add p (length xs)) (c_ptr from) (length ys)) = Inr m3"
    "holds m3 p (xs @ ys)" "room m3 p (unat cap)" "mem_ok m3" "p = Ptr (m_next m) 0" "mem_le m m3"
    by (rule copy_both [OF ok a cap0 d(6) cl(2) cap])
  have "room m3 (b_buffer buf) (unat (b_capacity buf))" "aws_byte_buf_is_valid buf" using m3(6) d(5) mem_le_room b by (auto simp: buf_holds_def)
  then obtain m5 where m5: "bind_res (if clear then aws_secure_zero m3 (b_buffer buf) (b_capacity buf) else Inr m3)
       (\<lambda>m. aws_mem_release m (b_allocator buf) (b_buffer buf)) = Inr m5" "changed_block m3 (b_buffer buf) m5" "mem_ok m5"
    using drop_old [OF m3(4) _ o] by metis
  let ?buf = "buf\<lparr>b_buffer := p, b_capacity := cap, b_len := b_len buf + c_len from\<rparr>"
  obtain m2 where m2: "memcpy m1 p (b_buffer buf) (length xs) = Inr m2" "memcpy m2 (ptr_add p (length xs)) (c_ptr from) (length ys) = Inr m3"
    using m3(1) by (auto simp: bind_res_Inr_iff)
  obtain m4 where m4: "(if clear then aws_secure_zero m3 (b_buffer buf) (b_capacity buf) else Inr m3) = Inr m4"
    "aws_mem_release m4 (b_allocator buf) (b_buffer buf) = Inr m5" using m5(1) by (auto simp: bind_res_Inr_iff)
  have "b_capacity buf - b_len buf < c_len from" using d(3,4) cl(1) gr by (simp add: word_less_nat_alt)
  then have ev: "s_aws_byte_buf_append_dynamic m buf from clear = (AWS_OP_SUCCESS, ?buf, m5)"
    unfolding s_aws_byte_buf_append_dynamic_def memcpy_if
    using al req(1) a m2 m4 d(2) cl(1) by (simp add: Let_def buf_step_def cap_def [symmetric])
  have nb: "block_of p \<noteq> block_of (b_buffer buf)"
    using fresh_block [OF ok, of "b_buffer buf" "unat (b_capacity buf)"] d(5) m3(5) b
    by (cases "b_capacity buf = 0") (auto simp: room_def buf_holds_def aws_byte_buf_is_valid_def)
  have ul: "unat (b_len buf + c_len from) = length xs + length ys" using d(2) cl(1) n by (subst unat_add_exact) auto
  have "buf_holds m5 ?buf (xs @ ys)"
    using changed_block_holds [OF m5(2) nb m3(2)] changed_block_room [OF m5(2) nb m3(3)] ul cap cap0 m3(5)
    by (simp add: buf_holds_def aws_byte_buf_is_valid_def word_le_nat_alt word_neq_0_conv)
  moreover have "changed_block m (b_buffer buf) m5" using m3(6) m5(2) unfolding mem_le_def changed_block_def by metis
  ultimately show thesis using that [OF ev] o m3(5) m5(3) by (simp add: owned_def)
qed

lemma append_dynamic_ok:
  assumes ok: "mem_ok m" and b: "buf_holds m buf xs" and o: "owned buf" and c: "cur_holds m from ys"
    and off: "off_tail buf from" and n: "length xs + length ys < 2 ^ 64"
  obtains buf' m' where "s_aws_byte_buf_append_dynamic m buf from clear = (AWS_OP_SUCCESS, buf', m')"
    "buf_holds m' buf' (xs @ ys)" "owned buf'" "mem_ok m'" "changed_block m (b_buffer buf) m'"
    "b_buffer buf' = b_buffer buf \<or> b_buffer buf' = Ptr (m_next m) 0"
proof -
  note d = buf_holdsD [OF b]
  have cl: "unat (c_len from) = length ys" "holds m (c_ptr from) ys" using c by (auto simp: cur_holds_def)
  obtain al where al: "b_allocator buf = Some al" using o by (auto simp: owned_def)
  have ul: "unat (b_len buf + c_len from) = length xs + length ys" using d(2) cl(1) n by (subst unat_add_exact) auto
  show thesis
  proof (cases "length xs + length ys \<le> unat (b_capacity buf)")
    case True
    obtain m' where m': "aws_byte_buf_append m buf from = (AWS_OP_SUCCESS, buf\<lparr>b_len := b_len buf + c_len from\<rparr>, m')"
      "buf_holds m' (buf\<lparr>b_len := b_len buf + c_len from\<rparr>) (xs @ ys)"
      "changed_only m (ptr_add (b_buffer buf) (length xs)) (length ys) m'"
      by (rule append_ok [OF b c off True])
    have "\<not> b_capacity buf - b_len buf < c_len from" using d(4) cl(1) True by (simp add: word_less_nat_alt)
    then have "s_aws_byte_buf_append_dynamic m buf from clear = (AWS_OP_SUCCESS, buf\<lparr>b_len := b_len buf + c_len from\<rparr>, m')"
      using m'(1) al by (auto simp: s_aws_byte_buf_append_dynamic_def aws_byte_buf_append_def buf_step_def split: if_splits)
    moreover have "changed_block m (b_buffer buf) m'"
    proof -
      have "block_of (ptr_add (b_buffer buf) (length xs)) = block_of (b_buffer buf)" by (cases "b_buffer buf") auto
      then show ?thesis using m'(3) apart_blocks unfolding changed_block_def changed_only_def by metis
    qed
    ultimately show thesis using that m' o ok changed_only_mem_ok [OF m'(3)] by (auto simp: owned_def)
  next
    case False
    from append_dynamic_grow [OF ok b o c this n, of clear] that show thesis by metis
  qed
qed

lemma append_dynamic_overflow:
  assumes "buf_holds m buf xs" "b_allocator buf \<noteq> None" "cur_holds m from ys" "2 ^ 64 \<le> length xs + length ys"
  shows "s_aws_byte_buf_append_dynamic m buf from clear = (aws_raise_error AWS_ERROR_OVERFLOW_DETECTED, buf, m)"
proof -
  note d = buf_holdsD [OF assms(1)]
  have cl: "unat (c_len from) = length ys" using assms(3) by (simp add: cur_holds_def)
  have lim: "unat (b_capacity buf) < 2 ^ 64" by simp
  then have lt: "b_capacity buf - b_len buf < c_len from" unfolding word_less_nat_alt d(4) cl using d(3) assms(4) by linarith
  then have "unat (c_len from - (b_capacity buf - b_len buf)) = length ys - (unat (b_capacity buf) - length xs)"
    using d(4) cl by (simp add: unat_sub_exact less_imp_le)
  then have "\<not> unat (b_capacity buf) + unat (c_len from - (b_capacity buf - b_len buf)) < 2 ^ 64" using d(3) assms(4) lim by linarith
  then show ?thesis using lt assms(2) by (simp add: s_aws_byte_buf_append_dynamic_def aws_add_size_checked_eq Let_def)
qed

lemma reserve_ok:
  assumes ok: "mem_ok m" and b: "buf_holds m buf xs" and o: "owned buf"
  obtains buf' m' where "aws_byte_buf_reserve m buf cap = (AWS_OP_SUCCESS, buf', m')" "buf_holds m' buf' xs" "owned buf'"
    "mem_ok m'" "changed_block m (b_buffer buf) m'" "cap \<le> b_capacity buf'" "b_len buf' = b_len buf"
    "b_buffer buf' = b_buffer buf \<and> m' = m \<or> b_buffer buf' = Ptr (m_next m) 0"
proof -
  note d = buf_holdsD [OF b]
  have v: "aws_byte_buf_is_valid buf" "b_allocator buf \<noteq> None" using b o by (auto simp: buf_holds_def owned_def)
  then obtain al where al: "b_allocator buf = Some al" by auto
  consider (enough) "cap \<le> b_capacity buf" | (fresh) "b_capacity buf < cap" "b_capacity buf = 0"
    | (grow) "b_capacity buf < cap" "b_capacity buf \<noteq> 0" by (metis not_le)
  then show thesis
  proof cases
    case enough
    then show thesis using that [of buf m] v b o ok by (simp add: aws_byte_buf_reserve_def changed_block_def)
  next
    case fresh
    then have z: "b_buffer buf = Null" "b_len buf = 0" "xs = []" using v d by (auto simp: aws_byte_buf_is_valid_def)
    obtain p m' where p: "aws_mem_acquire m (Some al) cap = Inr (p, m')" "p = Ptr (m_next m) 0" "room m' p (unat cap)" "mem_ok m'" "mem_le m m'"
      by (rule acquire_ok [OF ok]) (use fresh in auto)
    let ?buf = "\<lparr>b_len = 0, b_buffer = p, b_capacity = cap, b_allocator = b_allocator buf\<rparr>"
    have "aws_byte_buf_reserve m buf cap = (AWS_OP_SUCCESS, ?buf, m')"
      using fresh z v p(1) al by (simp add: aws_byte_buf_reserve_def aws_byte_buf_init_def)
    moreover have "buf_holds m' ?buf xs" using p z fresh by (simp add: buf_holds_def aws_byte_buf_is_valid_def)
    ultimately show thesis using that [of ?buf m'] p z v unfolding owned_def mem_le_def changed_block_def by simp
  next
    case grow
    then obtain bl where bl: "b_buffer buf = Ptr bl 0" using o by (auto simp: owned_def)
    obtain bs where bs: "bytes_at m (Ptr bl 0) (unat (b_capacity buf)) = Some bs" using d(5) grow bl by (auto simp: room_def)
    obtain p m' where p: "aws_mem_realloc m (Some al) (Ptr bl 0) (b_capacity buf) cap = Inr (p, m')" "p = Ptr (m_next m) 0"
      "bytes_at m' p (unat (b_capacity buf)) = Some bs" "room m' p (unat cap)" "mem_ok m'" "changed_block m (Ptr bl 0) m'"
      by (rule realloc_ok [OF ok bs grow(1), of al]) (use grow in \<open>simp add: word_neq_0_conv\<close>)
    let ?buf = "buf\<lparr>b_buffer := p, b_capacity := cap\<rparr>"
    have "bytes_at m' p (length xs) = bytes_at m (b_buffer buf) (length xs)"
      using bytes_at_take [OF bs, of "length xs"] bytes_at_take [OF p(3), of "length xs"] d(3) bl by simp
    then have "holds m' p xs" using d(6) by (simp add: holds_def)
    moreover have "b_len buf \<le> cap" using d(1) grow(1) by simp
    moreover have "0 < cap" using grow(1) by (metis word_neq_0_conv not_less_zero word_not_simps(1))
    ultimately have "buf_holds m' ?buf xs" using p d(2) by (auto simp: buf_holds_def aws_byte_buf_is_valid_def)
    moreover have "aws_byte_buf_reserve m buf cap = (AWS_OP_SUCCESS, ?buf, m')"
      using grow v p(1) al bl by (simp add: aws_byte_buf_reserve_def not_le)
    ultimately show thesis using that [of ?buf m'] p al bl by (simp add: owned_def)
  qed
qed

section \<open>Comparison\<close>

lemma holds_Cons: "holds m p (x # xs) \<longleftrightarrow> holds m p [x] \<and> holds m (ptr_add p 1) xs"
  using holds_append [of m p "[x]" xs] by simp

lemma memcmp_ok:
  "holds m p xs \<Longrightarrow> holds m q ys \<Longrightarrow> length xs = n \<Longrightarrow> length ys = n \<Longrightarrow> memcmp m p q n = Inr (lex_sign xs ys)"
proof (induction n arbitrary: p q xs ys)
  case (Suc n)
  then obtain x xs' y ys' where e: "xs = x # xs'" "ys = y # ys'" by (metis length_Suc_conv)
  have h: "holds m p [x]" "holds m (ptr_add p 1) xs'" "holds m q [y]" "holds m (ptr_add q 1) ys'"
    using Suc.prems(1,2) holds_Cons [of m p x xs'] holds_Cons [of m q y ys'] by (simp_all only: e)
  then have "load_u8 m p 0 = Inr x" "load_u8 m q 0 = Inr y" using load_u8_holds [OF h(1), of 0] load_u8_holds [OF h(3), of 0] by simp_all
  then show ?case using Suc.IH [OF h(2,4)] Suc.prems(3,4) by (simp add: e)
qed simp

lemma lex_sign_zero: "lex_sign xs ys = 0 \<longleftrightarrow> xs = ys"
  by (induction xs ys rule: lex_sign.induct) auto

lemma array_eq_ok:
  assumes "holds m p xs" "holds m q ys" "unat la = length xs" "unat lb = length ys"
  shows "aws_array_eq m p la q lb = Inr (xs = ys)"
proof (cases "la = lb")
  case True
  then show ?thesis using memcmp_ok [OF assms(1,2)] assms(3,4) lex_sign_zero [of xs ys]
    by (auto simp: aws_array_eq_def)
next
  case False
  then have "length xs \<noteq> length ys" using assms(3,4) by (metis word_unat_eq_iff)
  then show ?thesis using False by (auto simp: aws_array_eq_def)
qed

lemma eq_ignore_case_loop_ok:
  "holds m p xs \<Longrightarrow> holds m q ys \<Longrightarrow> length xs = i + n \<Longrightarrow> length ys = i + n \<Longrightarrow>
     eq_ignore_case_loop m p q i n = Inr (map tolower (drop i xs) = map tolower (drop i ys))"
proof (induction n arbitrary: i)
  case (Suc n)
  have "load_u8 m p i = Inr (xs ! i)" "load_u8 m q i = Inr (ys ! i)" using Suc.prems by simp_all
  moreover have "drop i xs = xs ! i # drop (i + 1) xs" "drop i ys = ys ! i # drop (i + 1) ys"
    using Suc.prems by (simp_all add: Cons_nth_drop_Suc)
  ultimately show ?case using Suc.IH [of "i + 1"] Suc.prems by simp
qed simp

lemma array_eq_ignore_case_ok:
  assumes "holds m p xs" "holds m q ys" "unat la = length xs" "unat lb = length ys"
  shows "aws_array_eq_ignore_case m p la q lb = Inr (map tolower xs = map tolower ys)"
proof (cases "la = lb")
  case True
  then show ?thesis using eq_ignore_case_loop_ok [OF assms(1,2), of 0] assms(3,4) by (simp add: aws_array_eq_ignore_case_def)
next
  case False
  then have "length xs \<noteq> length ys" using assms(3,4) by (metis word_unat_eq_iff)
  then have "map tolower xs \<noteq> map tolower ys" by (metis length_map)
  then show ?thesis using False by (simp add: aws_array_eq_ignore_case_def)
qed

lemma eq_c_str_loop_ok:
  assumes "holds m p xs" "holds m q (ys @ [0])" "0 \<notin> set ys"
  shows "i \<le> length ys \<Longrightarrow> length xs = i + n \<Longrightarrow> eq_c_str_loop f m p q i n = Inr (map f (drop i xs) = map f (drop i ys))"
proof (induction n arbitrary: i)
  case 0
  have l: "load_u8 m q i = Inr ((ys @ [0]) ! i)" by (rule load_u8_holds [OF assms(2)]) (use 0 in simp)
  show ?case
  proof (cases "i = length ys")
    case True
    then show ?thesis using l 0 by simp
  next
    case False
    then have "ys ! i \<noteq> 0" using 0 assms(3) by (metis le_neq_implies_less nth_mem)
    then show ?thesis using l 0 False by (simp add: nth_append)
  qed
next
  case (Suc n)
  have l: "load_u8 m q i = Inr ((ys @ [0]) ! i)" by (rule load_u8_holds [OF assms(2)]) (use Suc in simp)
  show ?case
  proof (cases "i = length ys")
    case True
    then show ?thesis using l Suc.prems by simp
  next
    case False
    then have i: "i < length ys" using Suc.prems by simp
    then have "ys ! i \<noteq> 0" using assms(3) by (metis nth_mem)
    moreover have "drop i xs = xs ! i # drop (i + 1) xs" "drop i ys = ys ! i # drop (i + 1) ys"
      using Suc.prems i by (simp_all add: Cons_nth_drop_Suc)
    moreover have "load_u8 m p i = Inr (xs ! i)" using Suc.prems assms(1) by simp
    ultimately show ?thesis using l i Suc.IH [of "i + 1"] Suc.prems by (simp add: nth_append)
  qed
qed

lemma tolower_eq: "tolower c = (if 65 \<le> c \<and> c \<le> 90 then c + 32 else c)"
proof -
  have n: "unat c < 256" using unsigned_less [of c] by simp
  have "tolower c = word_of_nat (if 65 \<le> unat c \<and> unat c \<le> 90 then unat c + 32 else unat c)"
    unfolding tolower_def s_tolower_table_def using n
    by (subst nth_map) (auto simp: nth_append simp del: upt_rec_numeral upt_Suc)
  then show ?thesis by (simp add: word_le_nat_alt)
qed

lemma tolower_zero: "tolower c = 0 \<longleftrightarrow> c = 0"
proof (cases "65 \<le> c \<and> c \<le> 90")
  case True
  then have "unat (c + 32) = unat c + 32" by (subst unat_add_exact) (auto simp: word_le_nat_alt)
  moreover have "c \<noteq> 0" using True by auto
  ultimately show ?thesis using True by (auto simp: tolower_eq)
next
  case False
  then show ?thesis by (auto simp: tolower_eq)
qed

lemma fnv_tolower: "map tolower xs = map tolower ys \<Longrightarrow> fnv xs h = fnv ys h"
proof (induction xs arbitrary: ys h)
  case (Cons x xs)
  then obtain y ys' where "ys = y # ys'" "tolower x = tolower y" "map tolower xs = map tolower ys'" by (cases ys) auto
  then show ?case using Cons.IH [of ys'] by simp
qed simp

lemma hash_ignore_case_loop_ok:
  "holds m p xs \<Longrightarrow> length xs = i + n \<Longrightarrow> hash_ignore_case_loop m p i n h = Inr (fnv (drop i xs) h)"
proof (induction n arbitrary: i h)
  case (Suc n)
  have "drop i xs = xs ! i # drop (i + 1) xs" using Suc.prems by (simp add: Cons_nth_drop_Suc)
  then show ?case using Suc.IH [of "i + 1"] Suc.prems by simp
qed simp

lemma hash_ignore_case_ok:
  assumes "cur_holds m c xs"
  shows "aws_hash_byte_cursor_ptr_ignore_case m c = Inr (fnv xs 0xcbf29ce484222325)"
  using hash_ignore_case_loop_ok [of m "c_ptr c" xs 0 "unat (c_len c)"] assms
  by (auto simp: aws_hash_byte_cursor_ptr_ignore_case_def aws_hash_array_ignore_case_def cur_holds_def)

section \<open>The contract of a byte sink\<close>

locale byte_sink =
  fixes rep :: "'s \<Rightarrow> u8 list \<Rightarrow> bool" and src :: "'s \<Rightarrow> 'c \<Rightarrow> u8 list \<Rightarrow> bool" and fits :: "'s \<Rightarrow> nat \<Rightarrow> bool"
    and put :: "'s \<Rightarrow> 'c \<Rightarrow> unit res \<times> 's"
  assumes put_one: "rep s xs \<Longrightarrow> src s c ys \<Longrightarrow> fits s (length ys) \<Longrightarrow>
      \<exists>s'. put s c = (AWS_OP_SUCCESS, s') \<and> rep s' (xs @ ys) \<and> (\<forall>d zs. src s d zs \<longrightarrow> src s' d zs) \<and>
        (\<forall>n. fits s (length ys + n) \<longrightarrow> fits s' n)"
    and fits_less: "fits s n \<Longrightarrow> k \<le> n \<Longrightarrow> fits s k"
begin

lemma put_many:
  assumes "rep s xs" "list_all2 (src s) cs yss" "fits s (length (concat yss))"
  shows "\<exists>s'. put_list put s cs = (AWS_OP_SUCCESS, s') \<and> rep s' (xs @ concat yss)"
  using assms
proof (induction cs arbitrary: s xs yss)
  case (Cons c cs)
  obtain ys zss where y: "yss = ys # zss" "src s c ys" "list_all2 (src s) cs zss" using Cons.prems(2) by (auto simp: list_all2_Cons1)
  have "fits s (length ys)" by (rule fits_less [OF Cons.prems(3)]) (simp add: y(1))
  then obtain s' where s': "put s c = (AWS_OP_SUCCESS, s')" "rep s' (xs @ ys)" "\<forall>d zs. src s d zs \<longrightarrow> src s' d zs"
    "\<forall>n. fits s (length ys + n) \<longrightarrow> fits s' n" using put_one [OF Cons.prems(1) y(2)] by blast
  have "list_all2 (src s') cs zss" using y(3) s'(3) by (simp add: list_all2_mono)
  then show ?case using Cons.IH [OF s'(2), of zss] s'(1,4) Cons.prems(3) by (simp add: y(1))
qed simp

end

lemma outside_off_tail: "outside buf c \<Longrightarrow> off_tail buf c"
  unfolding outside_def off_tail_def by (cases "b_buffer buf"; cases "c_ptr c") auto

lemma append_keeps_src:
  assumes b: "buf_holds m buf xs" and b': "unat (b_len buf') = length xs + length ys" "b_buffer buf' = b_buffer buf" "b_capacity buf' = b_capacity buf"
    and n: "length xs + length ys \<le> unat (b_capacity buf)"
    and m': "changed_only m (ptr_add (b_buffer buf) (length xs)) (length ys) m'" and z: "fixed_src (buf, m) z zs"
  shows "fixed_src (buf', m') z zs"
proof (cases "c_len z = 0")
  case True
  then show ?thesis using z by (simp add: fixed_src_def off_tail_def cur_holds_def)
next
  case False
  have h: "cur_holds m z zs" "off_tail buf z" using z by (auto simp: fixed_src_def)
  have "off_tail buf' z" using h(2) buf_holdsD(2) [OF b] b' n unfolding off_tail_def by (cases "b_buffer buf"; cases "c_ptr z") auto
  moreover have "apart (c_ptr z) (length zs) (ptr_add (b_buffer buf) (length xs)) (length ys)"
    using h False buf_holdsD(2) [OF b] n unfolding off_tail_def cur_holds_def by (cases "b_buffer buf"; cases "c_ptr z") auto
  ultimately show ?thesis using h(1) changed_only_holds [OF m'] by (simp add: fixed_src_def cur_holds_def)
qed

interpretation fixed: byte_sink "\<lambda>s xs. buf_holds (snd s) (fst s) xs" fixed_src
  "\<lambda>s n. n \<le> unat (b_capacity (fst s)) - unat (b_len (fst s))" "\<lambda>s c. aws_byte_buf_append (snd s) (fst s) c"
proof (unfold_locales, goal_cases)
  case (1 s xs c ys)
  obtain buf m where s: "s = (buf, m)" by (cases s)
  have b: "buf_holds m buf xs" and c: "cur_holds m c ys" "off_tail buf c" using 1 by (auto simp: s fixed_src_def)
  note d = buf_holdsD [OF b]
  have cl: "unat (c_len c) = length ys" using c(1) by (simp add: cur_holds_def)
  have n: "length xs + length ys \<le> unat (b_capacity buf)" using 1(3) d(2,3) by (simp add: s)
  obtain m' where m': "aws_byte_buf_append m buf c = (AWS_OP_SUCCESS, buf\<lparr>b_len := b_len buf + c_len c\<rparr>, m')"
    "buf_holds m' (buf\<lparr>b_len := b_len buf + c_len c\<rparr>) (xs @ ys)"
    "changed_only m (ptr_add (b_buffer buf) (length xs)) (length ys) m'" by (rule append_ok [OF b c n])
  let ?b = "buf\<lparr>b_len := b_len buf + c_len c\<rparr>"
  have l: "unat (b_len ?b) = length xs + length ys" using buf_holdsD(2) [OF m'(2)] by simp
  have src: "fixed_src (?b, m') z zs" if "fixed_src s z zs" for z zs
    by (rule append_keeps_src [OF b _ _ _ n m'(3)]) (use l that s in auto)
  show ?case
    by (rule exI [of _ "(?b, m')"]) (use m' src l d(2) n in \<open>auto simp: s\<close>)
next
  case (2 s n k)
  then show ?case by simp
qed

interpretation dynamic: byte_sink "\<lambda>s xs. buf_holds (snd s) (fst s) xs \<and> owned (fst s) \<and> mem_ok (snd s)" dynamic_src
  "\<lambda>s n. unat (b_len (fst s)) + n < 2 ^ 64" "\<lambda>s c. aws_byte_buf_append_dynamic (snd s) (fst s) c"
proof (unfold_locales, goal_cases)
  case (1 s xs c ys)
  obtain buf m where s: "s = (buf, m)" by (cases s)
  have b: "buf_holds m buf xs" "owned buf" "mem_ok m" and c: "cur_holds m c ys" "outside buf c" using 1 by (auto simp: s dynamic_src_def)
  note d = buf_holdsD [OF b(1)]
  have n: "length xs + length ys < 2 ^ 64" using 1(3) d(2) by (simp add: s)
  obtain buf' m' where m': "s_aws_byte_buf_append_dynamic m buf c False = (AWS_OP_SUCCESS, buf', m')"
    "buf_holds m' buf' (xs @ ys)" "owned buf'" "mem_ok m'" "changed_block m (b_buffer buf) m'"
    "b_buffer buf' = b_buffer buf \<or> b_buffer buf' = Ptr (m_next m) 0"
    by (rule append_dynamic_ok [OF b(3,1,2) c(1) outside_off_tail [OF c(2)] n])
  have "dynamic_src (buf', m') z zs" if z: "dynamic_src s z zs" for z zs
  proof (cases "c_len z = 0")
    case True
    then show ?thesis using z by (simp add: dynamic_src_def cur_holds_def outside_def s)
  next
    case False
    then have h: "holds m (c_ptr z) zs" "block_of (c_ptr z) \<noteq> block_of (b_buffer buf)" "unat (c_len z) = length zs" "zs \<noteq> []"
      using z by (auto simp: dynamic_src_def cur_holds_def outside_def s)
    moreover have "block_of (c_ptr z) \<noteq> Some (m_next m)"
      using fresh_block [OF b(3), of "c_ptr z" "length zs"] h(1,4) by (simp add: holds_def)
    ultimately show ?thesis using changed_block_holds [OF m'(5)] m'(6)
      by (auto simp: dynamic_src_def cur_holds_def outside_def)
  qed
  then show ?case using m' buf_holdsD(2) [OF m'(2)] d(2)
    by (intro exI [of _ "(buf', m')"]) (auto simp: s aws_byte_buf_append_dynamic_def)
next
  case (2 s n k)
  then show ?case by simp
qed

lemma cat_eq:
  "aws_byte_buf_cat m dest bufs =
     put_list (\<lambda>s c. aws_byte_buf_append (snd s) (fst s) c) (dest, m) (map aws_byte_cursor_from_buf bufs)"
  by (induction bufs arbitrary: m dest) (auto split: prod.splits sum.splits)

section \<open>Caching cursors\<close>

lemma append_and_update_ok:
  assumes b: "buf_holds m buf xs" and c: "cur_holds m from ys" "off_tail buf from"
    and n: "length xs + length ys \<le> unat (b_capacity buf)"
  obtains c' m' where "aws_byte_buf_append_and_update m buf from = (Inr c', buf\<lparr>b_len := b_len buf + c_len from\<rparr>, m')"
    "buf_holds m' (buf\<lparr>b_len := b_len buf + c_len from\<rparr>) (xs @ ys)" "c_len c' = c_len from"
    "c_ptr c' = ptr_add (b_buffer buf) (length xs)"
    "changed_only m (ptr_add (b_buffer buf) (length xs)) (length ys) m'"
proof -
  obtain m' where m': "aws_byte_buf_append m buf from = (AWS_OP_SUCCESS, buf\<lparr>b_len := b_len buf + c_len from\<rparr>, m')"
    "buf_holds m' (buf\<lparr>b_len := b_len buf + c_len from\<rparr>) (xs @ ys)"
    "changed_only m (ptr_add (b_buffer buf) (length xs)) (length ys) m'" by (rule append_ok [OF b c n])
  let ?c = "from\<lparr>c_ptr := ptr_add (b_buffer buf) (length xs)\<rparr>"
  have "b_len buf + c_len from - c_len from = b_len buf" by simp
  then have "aws_byte_buf_append_and_update m buf from = (Inr ?c, buf\<lparr>b_len := b_len buf + c_len from\<rparr>, m')"
    using m'(1) buf_holdsD(2) [OF b] by (simp add: aws_byte_buf_append_and_update_def)
  then show thesis using that [of ?c m'] m' by simp
qed

lemma placed_holds: "placed p i cs yss \<Longrightarrow> holds m (ptr_add p i) (concat yss) \<Longrightarrow> list_all2 (cur_holds m) cs yss"
  by (induction p i cs yss rule: placed.induct) (auto simp: cur_holds_def holds_append)

lemma cache_cursors_ok:
  assumes "buf_holds m buf xs" "list_all2 (fixed_src (buf, m)) cs yss" 
    "length xs + length (concat yss) \<le> unat (b_capacity buf)"
  shows "\<exists>cs' buf' m'. cache_cursors m buf cs = (Inr cs', buf', m') \<and> buf_holds m' buf' (xs @ concat yss) \<and>
    placed (b_buffer buf) (length xs) cs' yss \<and> b_buffer buf' = b_buffer buf \<and> b_capacity buf' = b_capacity buf \<and> b_allocator buf' = b_allocator buf"
  using assms
proof (induction cs arbitrary: m buf xs yss)
  case (Cons c cs)
  obtain ys zss where y: "yss = ys # zss" "cur_holds m c ys" "off_tail buf c" "list_all2 (fixed_src (buf, m)) cs zss"
    using Cons.prems(2) by (cases yss) (auto simp: fixed_src_def [of "(buf, m)" c])
  have n: "length xs + length ys \<le> unat (b_capacity buf)" using Cons.prems(3) y(1) by simp
  let ?b = "buf\<lparr>b_len := b_len buf + c_len c\<rparr>"
  obtain c' m1 where m1: "aws_byte_buf_append_and_update m buf c = (Inr c', ?b, m1)"
    "buf_holds m1 ?b (xs @ ys)" "c_len c' = c_len c"
    "c_ptr c' = ptr_add (b_buffer buf) (length xs)" "changed_only m (ptr_add (b_buffer buf) (length xs)) (length ys) m1"
    by (rule append_and_update_ok [OF Cons.prems(1) y(2,3) n])
  have "fixed_src (?b, m1) z zs" if "fixed_src (buf, m) z zs" for z zs
    by (rule append_keeps_src [OF Cons.prems(1) _ _ _ n m1(5) that]) (use buf_holdsD(2) [OF m1(2)] in auto)
  then have s: "list_all2 (fixed_src (?b, m1)) cs zss" using y(4) by (simp add: list_all2_mono)
  have "length (xs @ ys) + length (concat zss) \<le> unat (b_capacity ?b)" using Cons.prems(3) y(1) by simp
  then show ?case using Cons.IH [OF m1(2) s] m1(1,3,4) y(1,2) by (auto simp: cur_holds_def)
qed auto

lemma cursors_total_len_eq:
  "cursors_total_len cs t =
     (if unat t + (\<Sum>c\<leftarrow>cs. unat (c_len c)) < 2 ^ 64 then Inr (t + (\<Sum>c\<leftarrow>cs. c_len c)) else aws_raise_error AWS_ERROR_OVERFLOW_DETECTED)"
proof (induction cs arbitrary: t)
  case (Cons c cs)
  show ?case
  proof (cases "unat t + unat (c_len c) < 2 ^ 64")
    case True
    then have "unat (t + c_len c) = unat t + unat (c_len c)" by (simp add: unat_add_exact)
    then show ?thesis using True Cons.IH by (simp add: aws_add_size_checked_eq add.assoc)
  next
    case False
    then show ?thesis by (simp add: aws_add_size_checked_eq)
  qed
qed simp

lemma sum_c_len: "list_all2 (cur_holds m) cs yss \<Longrightarrow> (\<Sum>c\<leftarrow>cs. unat (c_len c)) = length (concat yss)"
  by (induction rule: list_all2_induct) (auto simp: cur_holds_def)

lemma unat_sum_list: "(\<Sum>x\<leftarrow>xs. unat (f x)) < 2 ^ 64 \<Longrightarrow> unat (\<Sum>x\<leftarrow>xs. f x :: size_t) = (\<Sum>x\<leftarrow>xs. unat (f x))"
  by (induction xs) (auto simp: unat_add_exact)

lemma init_ok:
  assumes ok: "mem_ok m"
  obtains buf m' where "aws_byte_buf_init m (Some al) cap = (AWS_OP_SUCCESS, buf, m')" "buf_holds m' buf []" "owned buf" "mem_ok m'"
    "mem_le m m'" "b_capacity buf = cap" "b_allocator buf = Some al" "b_buffer buf = (if cap = 0 then Null else Ptr (m_next m) 0)"
proof (cases "cap = 0")
  case True
  then show thesis using that [of "\<lparr>b_len = 0, b_buffer = Null, b_capacity = 0, b_allocator = Some al\<rparr>" m] ok
    by (auto simp: aws_byte_buf_init_def buf_holds_def owned_def mem_le_def aws_byte_buf_is_valid_def)
next
  case False
  obtain p m1 where a: "aws_mem_acquire m (Some al) cap = Inr (p, m1)" "p = Ptr (m_next m) 0" "room m1 p (unat cap)" "mem_ok m1" "mem_le m m1"
    by (rule acquire_ok [OF ok False])
  then show thesis using that [of "\<lparr>b_len = 0, b_buffer = p, b_capacity = cap, b_allocator = Some al\<rparr>" m1] False
    by (auto simp: aws_byte_buf_init_def buf_holds_def owned_def aws_byte_buf_is_valid_def word_neq_0_conv)
qed

lemma init_cache_ok:
  assumes ok: "mem_ok m" and c: "list_all2 (cur_holds m) cs yss" and n: "length (concat yss) < 2 ^ 64"
  obtains cs' buf m' where "aws_byte_buf_init_cache_and_update_cursors m (Some al) cs = (Inr cs', buf, m')"
    "buf_holds m' buf (concat yss)" "placed (b_buffer buf) 0 cs' yss" "unat (b_capacity buf) = length (concat yss)" "b_allocator buf = Some al"
    "b_buffer buf = (if concat yss = [] then Null else Ptr (m_next m) 0)"
proof -
  let ?t = "\<Sum>c\<leftarrow>cs. c_len c"
  have t: "cursors_total_len cs 0 = Inr ?t" "unat ?t = length (concat yss)"
    using cursors_total_len_eq [of cs 0] sum_c_len [OF c] n unat_sum_list [of c_len cs] by auto
  obtain buf m1 where i: "aws_byte_buf_init m (Some al) ?t = (AWS_OP_SUCCESS, buf, m1)" "buf_holds m1 buf []" "owned buf" "mem_ok m1"
    "mem_le m m1" "b_capacity buf = ?t" "b_allocator buf = Some al" "b_buffer buf = (if ?t = 0 then Null else Ptr (m_next m) 0)"
    by (rule init_ok [OF ok])
  have "fixed_src (buf, m1) z zs" if "cur_holds m z zs" for z zs
  proof -
    have "off_tail buf z" if "c_len z \<noteq> 0"
    proof -
      have "holds m (c_ptr z) zs" "zs \<noteq> []" using \<open>cur_holds m z zs\<close> that by (auto simp: cur_holds_def)
      then have "block_of (c_ptr z) \<noteq> Some (m_next m)" using fresh_block [OF ok, of "c_ptr z" "length zs"] by (simp add: holds_def)
      then show ?thesis using i(8) by (cases "c_ptr z") (auto simp: off_tail_def)
    qed
    then show ?thesis using that mem_le_holds [OF i(5)] by (auto simp: fixed_src_def cur_holds_def off_tail_def)
  qed
  then have "list_all2 (fixed_src (buf, m1)) cs yss" using c by (simp add: list_all2_mono)
  then obtain cs' buf' m' where r: "cache_cursors m1 buf cs = (Inr cs', buf', m')" "buf_holds m' buf' (concat yss)"
    "placed (b_buffer buf) 0 cs' yss" "b_buffer buf' = b_buffer buf" "b_capacity buf' = b_capacity buf" "b_allocator buf' = b_allocator buf"
    using cache_cursors_ok [OF i(2), of cs yss] i(6) t(2) by auto
  have "?t = 0 \<longleftrightarrow> concat yss = []" using t(2) by (metis length_0_conv unat_eq_zero_iff)
  then show thesis using that [of cs' buf' m'] t(1,2) i(1,6-8) r by (simp add: aws_byte_buf_init_cache_and_update_cursors_def)
qed

section \<open>Properties\<close>

lemma demo_ok: "mem_ok demo_memory" "buf_holds demo_memory demo_buf [72, 105]" "owned demo_buf" "cur_holds demo_memory demo_cursor [33, 63]"
  "off_tail demo_buf demo_cursor" "outside demo_buf demo_cursor"
  by (auto simp: mem_ok_def demo_memory_def buf_holds_def demo_buf_def aws_byte_buf_is_valid_def room_def holds_def owned_def
    demo_cursor_def cur_holds_def off_tail_def outside_def)

text \<open>
  (C8) A growing append, secure or not, to a valid buffer that owns its allocation, from a cursor that may point into the
  used part of the same buffer: when the new length fits \<open>size_t\<close> it succeeds, the buffer stays valid and holds the old bytes
  followed by those of the cursor, and no other allocation changes; otherwise it raises the overflow error and nothing changes.
\<close>

theorem append_dynamic_spec:
  assumes "mem_ok m" "buf_holds m buf xs" "owned buf" "cur_holds m from ys" "off_tail buf from"
  shows "(length xs + length ys < 2 ^ 64 \<longrightarrow>
      (\<exists>buf' m'. s_aws_byte_buf_append_dynamic m buf from clear = (AWS_OP_SUCCESS, buf', m') \<and> buf_holds m' buf' (xs @ ys) \<and>
         owned buf' \<and> mem_ok m' \<and> changed_block m (b_buffer buf) m')) \<and>
    (2 ^ 64 \<le> length xs + length ys \<longrightarrow>
      s_aws_byte_buf_append_dynamic m buf from clear = (aws_raise_error AWS_ERROR_OVERFLOW_DETECTED, buf, m))"
proof (intro conjI impI)
  assume "length xs + length ys < 2 ^ 64"
  from append_dynamic_ok [OF assms this, of clear] show "\<exists>buf' m'. s_aws_byte_buf_append_dynamic m buf from clear = (AWS_OP_SUCCESS, buf', m') \<and>
      buf_holds m' buf' (xs @ ys) \<and> owned buf' \<and> mem_ok m' \<and> changed_block m (b_buffer buf) m'" by metis
next
  assume "2 ^ 64 \<le> length xs + length ys"
  then show "s_aws_byte_buf_append_dynamic m buf from clear = (aws_raise_error AWS_ERROR_OVERFLOW_DETECTED, buf, m)"
    using append_dynamic_overflow [OF assms(2) _ assms(4)] assms(3) by (simp add: owned_def)
qed

theorem append_dynamic_spec_witness:
  "\<exists>buf' m'. s_aws_byte_buf_append_dynamic demo_memory demo_buf demo_cursor True = (AWS_OP_SUCCESS, buf', m') \<and>
     buf_holds m' buf' [72, 105, 33, 63]"
  using append_dynamic_spec [OF demo_ok(1-5), of True] by auto

text \<open>
  (C29) Concatenation: appending pieces one after the other, to a fixed buffer with \<open>aws_byte_buf_cat\<close> when the total fits its
  capacity, or to a growing buffer, leaves the buffer holding its old bytes followed by the bytes of the pieces in order.
\<close>

theorem append_all_concat:
  assumes "buf_holds m dest xs"
  shows "(list_all2 (\<lambda>b ys. buf_holds m b ys \<and> off_tail dest (aws_byte_cursor_from_buf b)) bufs yss \<and>
      length xs + length (concat yss) \<le> unat (b_capacity dest) \<longrightarrow>
      (\<exists>dest' m'. aws_byte_buf_cat m dest bufs = (AWS_OP_SUCCESS, dest', m') \<and> buf_holds m' dest' (xs @ concat yss))) \<and>
    (mem_ok m \<and> owned dest \<and> list_all2 (\<lambda>c ys. cur_holds m c ys \<and> outside dest c) cs yss \<and>
      length xs + length (concat yss) < 2 ^ 64 \<longrightarrow>
      (\<exists>dest' m'. put_list (\<lambda>s c. aws_byte_buf_append_dynamic (snd s) (fst s) c) (dest, m) cs = (AWS_OP_SUCCESS, dest', m') \<and>
        buf_holds m' dest' (xs @ concat yss)))"
proof (intro conjI impI; elim conjE)
  assume b: "list_all2 (\<lambda>b ys. buf_holds m b ys \<and> off_tail dest (aws_byte_cursor_from_buf b)) bufs yss"
    and n: "length xs + length (concat yss) \<le> unat (b_capacity dest)"
  have "list_all2 (fixed_src (dest, m)) (map aws_byte_cursor_from_buf bufs) yss"
    using b buf_holds_cursor by (auto simp: list.rel_map fixed_src_def elim!: list_all2_mono)
  then show "\<exists>dest' m'. aws_byte_buf_cat m dest bufs = (AWS_OP_SUCCESS, dest', m') \<and> buf_holds m' dest' (xs @ concat yss)"
    using fixed.put_many [of "(dest, m)" xs "map aws_byte_cursor_from_buf bufs" yss] assms n buf_holdsD(2) [OF assms]
    by (auto simp: cat_eq)
next
  assume h: "mem_ok m" "owned dest" and c: "list_all2 (\<lambda>c ys. cur_holds m c ys \<and> outside dest c) cs yss"
    and n: "length xs + length (concat yss) < 2 ^ 64"
  have "list_all2 (dynamic_src (dest, m)) cs yss" using c by (auto simp: dynamic_src_def elim!: list_all2_mono)
  then show "\<exists>dest' m'. put_list (\<lambda>s c. aws_byte_buf_append_dynamic (snd s) (fst s) c) (dest, m) cs = (AWS_OP_SUCCESS, dest', m') \<and>
        buf_holds m' dest' (xs @ concat yss)"
    using dynamic.put_many [of "(dest, m)" xs cs yss] assms h n buf_holdsD(2) [OF assms] by auto
qed

theorem append_all_concat_witness:
  "\<exists>dest' m'. put_list (\<lambda>s c. aws_byte_buf_append_dynamic (snd s) (fst s) c) (demo_buf, demo_memory) [demo_cursor, demo_cursor] =
       (AWS_OP_SUCCESS, dest', m') \<and> buf_holds m' dest' [72, 105, 33, 63, 33, 63]"
proof -
  have "list_all2 (\<lambda>c ys. cur_holds demo_memory c ys \<and> outside demo_buf c) [demo_cursor, demo_cursor] [[33, 63], [33, 63]]"
    using demo_ok(4,6) by simp
  then show ?thesis
    using append_all_concat [OF demo_ok(2), of "[]" "[[33, 63], [33, 63]]" "[demo_cursor, demo_cursor]"] demo_ok(1,3) by auto
qed

text \<open>
  Caching cursors: when the total length fits \<open>size_t\<close>, \<open>aws_byte_buf_init_cache_and_update_cursors\<close> makes a new buffer of
  exactly that capacity holding the bytes of all cursors, and returns cursors to consecutive ranges of it that denote the same bytes
  as before; when the total overflows it raises the overflow error and allocates nothing.
\<close>

theorem cache_cursors_keep_bytes:
  assumes "mem_ok m" "list_all2 (cur_holds m) cs yss"
  shows "(length (concat yss) < 2 ^ 64 \<longrightarrow>
      (\<exists>cs' buf m'. aws_byte_buf_init_cache_and_update_cursors m (Some al) cs = (Inr cs', buf, m') \<and> buf_holds m' buf (concat yss) \<and>
         unat (b_capacity buf) = length (concat yss) \<and> placed (b_buffer buf) 0 cs' yss \<and> list_all2 (cur_holds m') cs' yss)) \<and>
    (2 ^ 64 \<le> length (concat yss) \<longrightarrow>
      aws_byte_buf_init_cache_and_update_cursors m (Some al) cs = (Inl (Raised AWS_ERROR_OVERFLOW_DETECTED), zero_buf, m))"
proof (intro conjI impI)
  assume "length (concat yss) < 2 ^ 64"
  from init_cache_ok [OF assms this, of al] show "\<exists>cs' buf m'. aws_byte_buf_init_cache_and_update_cursors m (Some al) cs = (Inr cs', buf, m') \<and>
      buf_holds m' buf (concat yss) \<and> unat (b_capacity buf) = length (concat yss) \<and> placed (b_buffer buf) 0 cs' yss \<and>
      list_all2 (cur_holds m') cs' yss"
    using buf_holdsD(6) placed_holds [of _ 0] by (metis ptr_add_zero)
next
  assume "2 ^ 64 \<le> length (concat yss)"
  then show "aws_byte_buf_init_cache_and_update_cursors m (Some al) cs = (Inl (Raised AWS_ERROR_OVERFLOW_DETECTED), zero_buf, m)"
    using cursors_total_len_eq [of cs 0] sum_c_len [OF assms(2)] by (simp add: aws_byte_buf_init_cache_and_update_cursors_def)
qed

theorem cache_cursors_keep_bytes_witness:
  "\<exists>cs' buf m'. aws_byte_buf_init_cache_and_update_cursors demo_memory (Some aws_default_allocator) [demo_cursor, demo_cursor] = (Inr cs', buf, m') \<and>
     buf_holds m' buf [33, 63, 33, 63]"
proof -
  have "list_all2 (cur_holds demo_memory) [demo_cursor, demo_cursor] [[33, 63], [33, 63]]" using demo_ok(4) by simp
  from cache_cursors_keep_bytes [OF demo_ok(1) this, of aws_default_allocator] show ?thesis by auto
qed

text \<open>
  (C30) On readable cursors the case-insensitive comparison decides equality of the bytes after folding the ASCII capitals, the
  exact comparison decides equality of the bytes, and cursors that compare equal ignoring case have the same case-insensitive hash:
  the two functions meet the contract of a hash table's equality and hash.
\<close>

theorem cursor_eq_hash_consistent:
  assumes "cur_holds m a xs" "cur_holds m b ys"
  shows "aws_byte_cursor_eq m a b = Inr (xs = ys) \<and>
    aws_byte_cursor_eq_ignore_case m a b =
      Inr (map (\<lambda>c. if 65 \<le> c \<and> c \<le> 90 then c + 32 else c) xs = map (\<lambda>c. if 65 \<le> c \<and> c \<le> 90 then c + 32 else c) ys) \<and>
    (aws_byte_cursor_eq_ignore_case m a b = Inr True \<longrightarrow>
      (\<exists>h. aws_hash_byte_cursor_ptr_ignore_case m a = Inr h \<and> aws_hash_byte_cursor_ptr_ignore_case m b = Inr h))"
proof -
  have t: "tolower = (\<lambda>c. if 65 \<le> c \<and> c \<le> 90 then c + 32 else c)" by (rule ext) (rule tolower_eq)
  have "aws_byte_cursor_eq m a b = Inr (xs = ys)" "aws_byte_cursor_eq_ignore_case m a b = Inr (map tolower xs = map tolower ys)"
    using assms by (simp_all add: aws_byte_cursor_eq_def aws_byte_cursor_eq_ignore_case_def cur_holds_def array_eq_ok array_eq_ignore_case_ok)
  then show ?thesis
    using hash_ignore_case_ok [OF assms(1)] hash_ignore_case_ok [OF assms(2)] fnv_tolower [of xs ys] unfolding t [symmetric] by auto
qed

theorem cursor_eq_hash_consistent_witness:
  "aws_byte_cursor_eq_ignore_case demo_memory demo_cursor \<lparr>c_len = 2, c_ptr = Ptr 0 0\<rparr> = Inr False"
proof -
  have "cur_holds demo_memory \<lparr>c_len = 2, c_ptr = Ptr 0 0\<rparr> [72, 105]" by (simp add: cur_holds_def holds_def demo_memory_def)
  from cursor_eq_hash_consistent [OF demo_ok(4) this] show ?thesis by simp
qed

end
