(* ===== verification/Byte_Cursor.thy ===== *)
theory Byte_Cursor
  imports Byte_Buf Array_List
begin

text \<open>
  Byte cursors of \<open>source/byte_buf.c\<close>: advancing, with and without protection against speculation, reading and
  writing integers in network byte order, splitting, searching, trimming, ordering and parsing of numbers;
  and the byte order conversions of \<open>include/aws/common/byte_order.inl\<close>.

  The byte order of the host is the parameter \<open>big\<close>: the bytes of an integer object in memory are \<open>host_bytes\<close>.
  A \<open>float\<close> or \<open>double\<close> is its storage, a list of bytes.  A function that advances a cursor given by pointer returns
  the cursor after the call.  The C library's \<open>memchr\<close>, \<open>htonl\<close> and \<open>htons\<close> are written out.
\<close>

section \<open>Byte order\<close>

definition le_bytes :: "nat \<Rightarrow> 'a :: len word \<Rightarrow> u8 list" where
  "le_bytes n x = map (\<lambda>i. ucast (drop_bit (8 * i) x)) [0..<n]"

primrec of_le_bytes :: "u8 list \<Rightarrow> 'a :: len word" where
  "of_le_bytes [] = 0"
| "of_le_bytes (b # bs) = ucast b OR push_bit 8 (of_le_bytes bs)"

definition host_bytes :: "bool \<Rightarrow> nat \<Rightarrow> 'a :: len word \<Rightarrow> u8 list" where
  "host_bytes big n x = (if big then rev (le_bytes n x) else le_bytes n x)"

definition host_word :: "bool \<Rightarrow> u8 list \<Rightarrow> 'a :: len word" where
  "host_word big bs = of_le_bytes (if big then rev bs else bs)"

definition aws_is_big_endian :: "bool \<Rightarrow> bool" where
  "aws_is_big_endian big \<longleftrightarrow> hd (host_bytes big 2 (0x100 :: u16)) \<noteq> 0"

text \<open>\<open>htonl\<close> and \<open>htons\<close>: the value whose object holds the bytes of \<open>x\<close> from the most significant on.\<close>

definition hton :: "bool \<Rightarrow> nat \<Rightarrow> 'a :: len word \<Rightarrow> 'a word" where
  "hton big n x = host_word big (rev (le_bytes n x))"

text \<open>The instruction \<open>bswap\<close>.\<close>

definition bswap64 :: "u64 \<Rightarrow> u64" where
  "bswap64 x = of_le_bytes (rev (le_bytes 8 x))"

definition aws_hton64 :: "bool \<Rightarrow> u64 \<Rightarrow> u64" where
  "aws_hton64 big x = (if aws_is_big_endian big then x else bswap64 x)"

definition aws_ntoh64 :: "bool \<Rightarrow> u64 \<Rightarrow> u64" where
  "aws_ntoh64 big x = aws_hton64 big x"

definition aws_hton32 :: "bool \<Rightarrow> u32 \<Rightarrow> u32" where
  "aws_hton32 big x = hton big 4 x"

definition aws_htonf32 :: "bool \<Rightarrow> u8 list \<Rightarrow> u8 list" where
  "aws_htonf32 big f_storage =
     (if aws_is_big_endian big then f_storage else [f_storage ! 3, f_storage ! 2, f_storage ! 1, f_storage ! 0])"

definition aws_htonf64 :: "bool \<Rightarrow> u8 list \<Rightarrow> u8 list" where
  "aws_htonf64 big f_storage =
     (if aws_is_big_endian big then f_storage
      else [f_storage ! 7, f_storage ! 6, f_storage ! 5, f_storage ! 4,
            f_storage ! 3, f_storage ! 2, f_storage ! 1, f_storage ! 0])"

definition aws_ntoh32 :: "bool \<Rightarrow> u32 \<Rightarrow> u32" where
  "aws_ntoh32 big x = hton big 4 x"

definition aws_ntohf32 :: "bool \<Rightarrow> u8 list \<Rightarrow> u8 list" where
  "aws_ntohf32 big x = aws_htonf32 big x"

definition aws_ntohf64 :: "bool \<Rightarrow> u8 list \<Rightarrow> u8 list" where
  "aws_ntohf64 big x = aws_htonf64 big x"

definition aws_hton16 :: "bool \<Rightarrow> u16 \<Rightarrow> u16" where
  "aws_hton16 big x = hton big 2 x"

definition aws_ntoh16 :: "bool \<Rightarrow> u16 \<Rightarrow> u16" where
  "aws_ntoh16 big x = hton big 2 x"

section \<open>Pointers\<close>

fun ptr_less :: "ptr \<Rightarrow> ptr \<Rightarrow> bool res" where
  "ptr_less (Ptr b off) (Ptr b' off') = (if b = b' then Inr (off < off') else Inl Undefined)"
| "ptr_less _ _ = Inl Undefined"

fun ptr_sub :: "ptr \<Rightarrow> ptr \<Rightarrow> size_t res" where
  "ptr_sub (Ptr b off) (Ptr b' off') = (if b = b' then Inr (word_of_nat off - word_of_nat off') else Inl Undefined)"
| "ptr_sub _ _ = Inl Undefined"

text \<open>Masking the integer value of a pointer: only the two masks the code computes have a meaning.\<close>

definition ptr_and :: "ptr \<Rightarrow> size_t \<Rightarrow> ptr res" where
  "ptr_and p ptr_mask = (if ptr_mask = SIZE_MAX then Inr p else if ptr_mask = 0 then Inr Null else Inl Undefined)"

fun memchr :: "memory \<Rightarrow> ptr \<Rightarrow> u8 \<Rightarrow> nat \<Rightarrow> ptr res" where
  "memchr m p c 0 = Inr Null"
| "memchr m p c (Suc n) = bind_res (load_u8 m p 0) (\<lambda>x. if x = c then Inr p else memchr m (ptr_add p 1) c n)"

definition load_known :: "memory \<Rightarrow> ptr \<Rightarrow> nat \<Rightarrow> u8 list res" where
  "load_known m p n = bind_res (load_bytes m p n) (\<lambda>bs. if None \<in> set bs then Inl Undefined else Inr (map the bs))"

section \<open>Advancing\<close>

definition aws_nospec_mask :: "size_t \<Rightarrow> size_t \<Rightarrow> size_t" where
  "aws_nospec_mask index bound =
     (let negative_mask = index OR bound;
          toobig_mask = bound - index - 1;
          combined_mask = negative_mask OR toobig_mask;
          combined_mask = NOT combined_mask div (SIZE_MAX - drop_bit 1 SIZE_MAX)
      in combined_mask * SIZE_MAX)"

definition aws_byte_cursor_advance :: "byte_cursor \<Rightarrow> size_t \<Rightarrow> byte_cursor \<times> byte_cursor" where
  "aws_byte_cursor_advance cursor len =
     (if c_len cursor > drop_bit 1 SIZE_MAX \<or> len > drop_bit 1 SIZE_MAX \<or> len > c_len cursor
      then (zero_cursor, cursor)
      else (\<lparr>c_len = len, c_ptr = c_ptr cursor\<rparr>,
            \<lparr>c_len = c_len cursor - len,
             c_ptr = (if c_ptr cursor = Null then Null else ptr_add (c_ptr cursor) (unat len))\<rparr>))"

definition aws_byte_cursor_advance_nospec :: "byte_cursor \<Rightarrow> size_t \<Rightarrow> (byte_cursor \<times> byte_cursor) res" where
  "aws_byte_cursor_advance_nospec cursor len =
     (if len \<le> c_len cursor \<and> len \<le> drop_bit 1 SIZE_MAX \<and> c_len cursor \<le> drop_bit 1 SIZE_MAX
      then let ptr_mask = aws_nospec_mask len (c_len cursor + 1);
               len = len AND ptr_mask
           in bind_res (ptr_and (c_ptr cursor) ptr_mask) (\<lambda>p.
                let cursor = \<lparr>c_len = c_len cursor AND ptr_mask, c_ptr = p\<rparr>
                in Inr (\<lparr>c_len = len AND ptr_mask, c_ptr = p\<rparr>,
                        \<lparr>c_len = c_len cursor - len, c_ptr = (if p = Null then Null else ptr_add p (unat len))\<rparr>))
      else Inr (zero_cursor, cursor))"

section \<open>Reading\<close>

definition aws_byte_cursor_read ::
  "memory \<Rightarrow> byte_cursor \<Rightarrow> ptr \<Rightarrow> size_t \<Rightarrow> bool res \<times> byte_cursor \<times> memory" where
  "aws_byte_cursor_read m cur dest len =
     (if len = 0 then (Inr True, cur, m)
      else case aws_byte_cursor_advance_nospec cur len of
             Inl e \<Rightarrow> (Inl e, cur, m)
           | Inr (subcur, cur) \<Rightarrow>
               if c_ptr subcur \<noteq> Null
               then (case memcpy m dest (c_ptr subcur) (unat len) of
                       Inl e \<Rightarrow> (Inl e, cur, m)
                     | Inr m \<Rightarrow> (Inr True, cur, m))
               else (Inr False, cur, m))"

definition aws_byte_cursor_read_and_fill_buffer ::
  "memory \<Rightarrow> byte_cursor \<Rightarrow> byte_buf \<Rightarrow> bool res \<times> byte_cursor \<times> byte_buf \<times> memory" where
  "aws_byte_cursor_read_and_fill_buffer m cur dest =
     (case aws_byte_cursor_read m cur (b_buffer dest) (b_capacity dest) of
        (Inr True, cur, m) \<Rightarrow> (Inr True, cur, dest\<lparr>b_len := b_capacity dest\<rparr>, m)
      | (r, cur, m) \<Rightarrow> (r, cur, dest, m))"

definition aws_byte_cursor_read_u8 :: "memory \<Rightarrow> byte_cursor \<Rightarrow> ptr \<Rightarrow> bool res \<times> byte_cursor \<times> memory" where
  "aws_byte_cursor_read_u8 m cur var = aws_byte_cursor_read m cur var 1"

text \<open>Rewriting the object at \<open>var\<close> after a successful read.\<close>

definition then_convert ::
  "bool res \<times> byte_cursor \<times> memory \<Rightarrow> (memory \<Rightarrow> memory res) \<Rightarrow> bool res \<times> byte_cursor \<times> memory" where
  "then_convert r f =
     (case r of
        (Inr True, cur, m) \<Rightarrow> (case f m of Inl e \<Rightarrow> (Inl e, cur, m) | Inr m \<Rightarrow> (Inr True, cur, m))
      | (r, cur, m) \<Rightarrow> (r, cur, m))"

definition convert_object :: "memory \<Rightarrow> ptr \<Rightarrow> nat \<Rightarrow> (u8 list \<Rightarrow> u8 list) \<Rightarrow> memory res" where
  "convert_object m var n f = bind_res (load_known m var n) (\<lambda>bs. store_bytes m var (map Some (f bs)))"

definition aws_byte_cursor_read_be16 :: "bool \<Rightarrow> memory \<Rightarrow> byte_cursor \<Rightarrow> ptr \<Rightarrow> bool res \<times> byte_cursor \<times> memory" where
  "aws_byte_cursor_read_be16 big m cur var =
     then_convert (aws_byte_cursor_read m cur var 2)
       (\<lambda>m. convert_object m var 2 (\<lambda>bs. host_bytes big 2 (aws_ntoh16 big (host_word big bs))))"

definition aws_byte_cursor_read_be24 :: "bool \<Rightarrow> memory \<Rightarrow> byte_cursor \<Rightarrow> ptr \<Rightarrow> bool res \<times> byte_cursor \<times> memory" where
  "aws_byte_cursor_read_be24 big m cur var =
     then_convert (aws_byte_cursor_read m cur (ptr_add var 1) 3)
       (\<lambda>m. bind_res (store_u8 m var 0 0)
         (\<lambda>m. convert_object m var 4 (\<lambda>bs. host_bytes big 4 (aws_ntoh32 big (host_word big bs)))))"

definition aws_byte_cursor_read_be32 :: "bool \<Rightarrow> memory \<Rightarrow> byte_cursor \<Rightarrow> ptr \<Rightarrow> bool res \<times> byte_cursor \<times> memory" where
  "aws_byte_cursor_read_be32 big m cur var =
     then_convert (aws_byte_cursor_read m cur var 4)
       (\<lambda>m. convert_object m var 4 (\<lambda>bs. host_bytes big 4 (aws_ntoh32 big (host_word big bs))))"

definition aws_byte_cursor_read_float_be32 :: "bool \<Rightarrow> memory \<Rightarrow> byte_cursor \<Rightarrow> ptr \<Rightarrow> bool res \<times> byte_cursor \<times> memory" where
  "aws_byte_cursor_read_float_be32 big m cur var =
     then_convert (aws_byte_cursor_read m cur var 4) (\<lambda>m. convert_object m var 4 (aws_ntohf32 big))"

definition aws_byte_cursor_read_float_be64 :: "bool \<Rightarrow> memory \<Rightarrow> byte_cursor \<Rightarrow> ptr \<Rightarrow> bool res \<times> byte_cursor \<times> memory" where
  "aws_byte_cursor_read_float_be64 big m cur var =
     then_convert (aws_byte_cursor_read m cur var 8) (\<lambda>m. convert_object m var 8 (aws_ntohf64 big))"

definition aws_byte_cursor_read_be64 :: "bool \<Rightarrow> memory \<Rightarrow> byte_cursor \<Rightarrow> ptr \<Rightarrow> bool res \<times> byte_cursor \<times> memory" where
  "aws_byte_cursor_read_be64 big m cur var =
     then_convert (aws_byte_cursor_read m cur var 8)
       (\<lambda>m. convert_object m var 8 (\<lambda>bs. host_bytes big 8 (aws_ntoh64 big (host_word big bs))))"

definition s_hex_to_num_table :: "u8 list" where
  "s_hex_to_num_table =
     replicate 48 255 @ [0, 1, 2, 3, 4, 5, 6, 7, 8, 9] @ replicate 7 255 @ [0xA, 0xB, 0xC, 0xD, 0xE, 0xF] @
     replicate 26 255 @ [0xA, 0xB, 0xC, 0xD, 0xE, 0xF] @ replicate 153 255"

definition hex_to_num :: "u8 \<Rightarrow> u8" where
  "hex_to_num c = s_hex_to_num_table ! unat c"

definition aws_byte_cursor_read_hex_u8 :: "memory \<Rightarrow> byte_cursor \<Rightarrow> ptr \<Rightarrow> bool res \<times> byte_cursor \<times> memory" where
  "aws_byte_cursor_read_hex_u8 m cur var =
     (if c_len cur \<ge> 2
      then case bind_res (load_u8 m (c_ptr cur) 0) (\<lambda>a. bind_res (load_u8 m (c_ptr cur) 1) (\<lambda>b. Inr (hex_to_num a, hex_to_num b))) of
             Inl e \<Rightarrow> (Inl e, cur, m)
           | Inr (hi, lo) \<Rightarrow>
               if hi \<noteq> 255 \<and> lo \<noteq> 255
               then (case store_u8 m var 0 (push_bit 4 hi OR lo) of
                       Inl e \<Rightarrow> (Inl e, cur, m)
                     | Inr m \<Rightarrow> (Inr True, \<lparr>c_len = c_len cur - 2, c_ptr = ptr_add (c_ptr cur) 2\<rparr>, m))
               else (Inr False, cur, m)
      else (Inr False, cur, m))"

section \<open>Writing\<close>

definition aws_byte_buf_write_to_capacity ::
  "memory \<Rightarrow> byte_buf \<Rightarrow> byte_cursor \<Rightarrow> byte_cursor res \<times> byte_cursor \<times> byte_buf \<times> memory" where
  "aws_byte_buf_write_to_capacity m buf advancing_cursor =
     (let available = b_capacity buf - b_len buf;
          write_size = aws_min_size available (c_len advancing_cursor)
      in case aws_byte_cursor_advance advancing_cursor write_size of
           (write_cursor, advancing_cursor) \<Rightarrow>
             (case aws_byte_buf_write_from_whole_cursor m buf write_cursor of
                (Inl e, buf, m) \<Rightarrow> (Inl e, advancing_cursor, buf, m)
              | (Inr _, buf, m) \<Rightarrow> (Inr write_cursor, advancing_cursor, buf, m)))"

definition aws_byte_buf_write_be16 :: "bool \<Rightarrow> memory \<Rightarrow> byte_buf \<Rightarrow> u16 \<Rightarrow> bool res \<times> byte_buf \<times> memory" where
  "aws_byte_buf_write_be16 big m buf x =
     (let x = aws_hton16 big x in with_local m (host_bytes big 2 x) (\<lambda>m p. aws_byte_buf_write m buf p 2))"

definition aws_byte_buf_write_be24 :: "bool \<Rightarrow> memory \<Rightarrow> byte_buf \<Rightarrow> u32 \<Rightarrow> bool res \<times> byte_buf \<times> memory" where
  "aws_byte_buf_write_be24 big m buf x =
     (if x > 0x00FFFFFF then (Inr False, buf, m)
      else let be32 = aws_hton32 big x
           in with_local m (host_bytes big 4 be32) (\<lambda>m p. aws_byte_buf_write m buf (ptr_add p 1) 3))"

definition aws_byte_buf_write_be32 :: "bool \<Rightarrow> memory \<Rightarrow> byte_buf \<Rightarrow> u32 \<Rightarrow> bool res \<times> byte_buf \<times> memory" where
  "aws_byte_buf_write_be32 big m buf x =
     (let x = aws_hton32 big x in with_local m (host_bytes big 4 x) (\<lambda>m p. aws_byte_buf_write m buf p 4))"

definition aws_byte_buf_write_float_be32 :: "bool \<Rightarrow> memory \<Rightarrow> byte_buf \<Rightarrow> u8 list \<Rightarrow> bool res \<times> byte_buf \<times> memory" where
  "aws_byte_buf_write_float_be32 big m buf x =
     (let x = aws_htonf32 big x in with_local m x (\<lambda>m p. aws_byte_buf_write m buf p 4))"

definition aws_byte_buf_write_be64 :: "bool \<Rightarrow> memory \<Rightarrow> byte_buf \<Rightarrow> u64 \<Rightarrow> bool res \<times> byte_buf \<times> memory" where
  "aws_byte_buf_write_be64 big m buf x =
     (let x = aws_hton64 big x in with_local m (host_bytes big 8 x) (\<lambda>m p. aws_byte_buf_write m buf p 8))"

definition aws_byte_buf_write_float_be64 :: "bool \<Rightarrow> memory \<Rightarrow> byte_buf \<Rightarrow> u8 list \<Rightarrow> bool res \<times> byte_buf \<times> memory" where
  "aws_byte_buf_write_float_be64 big m buf x =
     (let x = aws_htonf64 big x in with_local m x (\<lambda>m p. aws_byte_buf_write m buf p 8))"

section \<open>Splitting and searching\<close>

text \<open>\<open>empty_str\<close> is the address of the string literal the code uses for an empty part of a null input.\<close>

definition aws_byte_cursor_next_split ::
  "memory \<Rightarrow> ptr \<Rightarrow> byte_cursor \<Rightarrow> u8 \<Rightarrow> byte_cursor \<Rightarrow> (bool \<times> byte_cursor) res" where
  "aws_byte_cursor_next_split m empty_str input_str split_on substr =
     (let first_run = (c_ptr substr = Null)
      in if c_ptr input_str = Null
         then if first_run then Inr (True, \<lparr>c_len = 0, c_ptr = empty_str\<rparr>) else Inr (False, zero_cursor)
         else bind_res
           (if first_run then Inr (Some input_str)
            else let input_end = ptr_add (c_ptr input_str) (unat (c_len input_str));
                     p = ptr_add (c_ptr substr) (unat (c_len substr + 1))
                 in bind_res (ptr_less input_end p) (\<lambda>past. bind_res (ptr_less p (c_ptr input_str)) (\<lambda>before.
                      if past \<or> before then Inr None
                      else bind_res (ptr_sub p (c_ptr input_str)) (\<lambda>d. Inr (Some \<lparr>c_len = c_len input_str - d, c_ptr = p\<rparr>)))))
           (\<lambda>rest. case rest of
               None \<Rightarrow> Inr (False, zero_cursor)
             | Some substr \<Rightarrow>
                 bind_res (memchr m (c_ptr substr) split_on (unat (c_len substr))) (\<lambda>new_location.
                   if new_location \<noteq> Null
                   then bind_res (ptr_sub new_location (c_ptr substr)) (\<lambda>d. Inr (True, substr\<lparr>c_len := d\<rparr>))
                   else Inr (True, substr))))"

fun split_loop ::
  "nat \<Rightarrow> memory \<Rightarrow> ptr \<Rightarrow> byte_cursor \<Rightarrow> u8 \<Rightarrow> size_t \<Rightarrow> size_t \<Rightarrow> byte_cursor \<Rightarrow> byte_cursor array_list \<Rightarrow>
    unit res \<times> byte_cursor array_list" where
  "split_loop 0 m empty_str input_str split_on max_splits split_count substr output_list = (Inl Diverged, output_list)"
| "split_loop (Suc fuel) m empty_str input_str split_on max_splits split_count substr output_list =
     (if split_count \<le> max_splits
      then case aws_byte_cursor_next_split m empty_str input_str split_on substr of
             Inl e \<Rightarrow> (Inl e, output_list)
           | Inr (False, _) \<Rightarrow> (AWS_OP_SUCCESS, output_list)
           | Inr (True, substr) \<Rightarrow>
               (case (if split_count = max_splits
                      then bind_res (ptr_sub (c_ptr substr) (c_ptr input_str)) (\<lambda>d. Inr (substr\<lparr>c_len := c_len input_str - d\<rparr>))
                      else Inr substr) of
                  Inl e \<Rightarrow> (Inl e, output_list)
                | Inr substr \<Rightarrow>
                    (case aws_array_list_push_back output_list substr of
                       (Inl e, output_list) \<Rightarrow> (Inl e, output_list)
                     | (Inr _, output_list) \<Rightarrow>
                         split_loop fuel m empty_str input_str split_on max_splits (split_count + 1) substr output_list))
      else (AWS_OP_SUCCESS, output_list))"

definition aws_byte_cursor_split_on_char_n ::
  "memory \<Rightarrow> ptr \<Rightarrow> byte_cursor \<Rightarrow> u8 \<Rightarrow> size_t \<Rightarrow> byte_cursor array_list \<Rightarrow> unit res \<times> byte_cursor array_list" where
  "aws_byte_cursor_split_on_char_n m empty_str input_str split_on n output_list =
     (let max_splits = (if n > 0 then n else SIZE_MAX)
      in split_loop (unat (c_len input_str) + 2) m empty_str input_str split_on max_splits 0 zero_cursor output_list)"

definition aws_byte_cursor_split_on_char ::
  "memory \<Rightarrow> ptr \<Rightarrow> byte_cursor \<Rightarrow> u8 \<Rightarrow> byte_cursor array_list \<Rightarrow> unit res \<times> byte_cursor array_list" where
  "aws_byte_cursor_split_on_char m empty_str input_str split_on output_list =
     aws_byte_cursor_split_on_char_n m empty_str input_str split_on 0 output_list"

fun find_exact_loop :: "nat \<Rightarrow> memory \<Rightarrow> byte_cursor \<Rightarrow> byte_cursor \<Rightarrow> byte_cursor res" where
  "find_exact_loop 0 m to_find working_cur = Inl Diverged"
| "find_exact_loop (Suc fuel) m to_find working_cur =
     (if c_len working_cur \<noteq> 0
      then bind_res (load_u8 m (c_ptr to_find) 0) (\<lambda>first_char.
             bind_res (memchr m (c_ptr working_cur) first_char (unat (c_len working_cur))) (\<lambda>first_char_location.
               if first_char_location = Null then aws_raise_error AWS_ERROR_STRING_MATCH_NOT_FOUND
               else bind_res (ptr_sub first_char_location (c_ptr working_cur)) (\<lambda>d.
                 let working_cur = snd (aws_byte_cursor_advance working_cur d)
                 in if c_len working_cur < c_len to_find then aws_raise_error AWS_ERROR_STRING_MATCH_NOT_FOUND
                    else bind_res (memcmp m (c_ptr working_cur) (c_ptr to_find) (unat (c_len to_find))) (\<lambda>r.
                      if r = 0 then Inr working_cur
                      else find_exact_loop fuel m to_find (snd (aws_byte_cursor_advance working_cur 1))))))
      else aws_raise_error AWS_ERROR_STRING_MATCH_NOT_FOUND)"

definition aws_byte_cursor_find_exact :: "memory \<Rightarrow> byte_cursor \<Rightarrow> byte_cursor \<Rightarrow> byte_cursor res" where
  "aws_byte_cursor_find_exact m input_str to_find =
     (if c_len to_find > c_len input_str then aws_raise_error AWS_ERROR_STRING_MATCH_NOT_FOUND
      else if c_len to_find < 1 then aws_raise_error AWS_ERROR_SHORT_BUFFER
      else find_exact_loop (unat (c_len input_str) + 1) m to_find input_str)"

section \<open>Trimming and ordering\<close>

fun right_trim_loop :: "memory \<Rightarrow> (u8 \<Rightarrow> bool) \<Rightarrow> ptr \<Rightarrow> nat \<Rightarrow> nat res" where
  "right_trim_loop m predicate p 0 = Inr 0"
| "right_trim_loop m predicate p (Suc n) =
     bind_res (load_u8 m p n) (\<lambda>c. if predicate c then right_trim_loop m predicate p n else Inr (Suc n))"

definition aws_byte_cursor_right_trim_pred :: "memory \<Rightarrow> byte_cursor \<Rightarrow> (u8 \<Rightarrow> bool) \<Rightarrow> byte_cursor res" where
  "aws_byte_cursor_right_trim_pred m source predicate =
     bind_res (right_trim_loop m predicate (c_ptr source) (unat (c_len source))) (\<lambda>n. Inr (source\<lparr>c_len := word_of_nat n\<rparr>))"

fun left_trim_loop :: "memory \<Rightarrow> (u8 \<Rightarrow> bool) \<Rightarrow> ptr \<Rightarrow> nat \<Rightarrow> (ptr \<times> nat) res" where
  "left_trim_loop m predicate p 0 = Inr (p, 0)"
| "left_trim_loop m predicate p (Suc n) =
     bind_res (load_u8 m p 0) (\<lambda>c. if predicate c then left_trim_loop m predicate (ptr_add p 1) n else Inr (p, Suc n))"

definition aws_byte_cursor_left_trim_pred :: "memory \<Rightarrow> byte_cursor \<Rightarrow> (u8 \<Rightarrow> bool) \<Rightarrow> byte_cursor res" where
  "aws_byte_cursor_left_trim_pred m source predicate =
     bind_res (left_trim_loop m predicate (c_ptr source) (unat (c_len source)))
       (\<lambda>(p, n). Inr \<lparr>c_len = word_of_nat n, c_ptr = p\<rparr>)"

definition aws_byte_cursor_trim_pred :: "memory \<Rightarrow> byte_cursor \<Rightarrow> (u8 \<Rightarrow> bool) \<Rightarrow> byte_cursor res" where
  "aws_byte_cursor_trim_pred m source predicate =
     bind_res (aws_byte_cursor_left_trim_pred m source predicate)
       (\<lambda>left_trimmed. aws_byte_cursor_right_trim_pred m left_trimmed predicate)"

definition aws_byte_cursor_satisfies_pred :: "memory \<Rightarrow> byte_cursor \<Rightarrow> (u8 \<Rightarrow> bool) \<Rightarrow> bool res" where
  "aws_byte_cursor_satisfies_pred m source predicate =
     bind_res (aws_byte_cursor_left_trim_pred m source predicate) (\<lambda>trimmed. Inr (c_len trimmed = 0))"

definition aws_byte_cursor_compare_lexical :: "memory \<Rightarrow> byte_cursor \<Rightarrow> byte_cursor \<Rightarrow> int res" where
  "aws_byte_cursor_compare_lexical m lhs rhs =
     (let comparison_length = (if c_len lhs > c_len rhs then c_len rhs else c_len lhs)
      in bind_res (memcmp m (c_ptr lhs) (c_ptr rhs) (unat comparison_length)) (\<lambda>result.
           if result \<noteq> 0 then Inr result
           else if c_len lhs \<noteq> c_len rhs then Inr (if comparison_length = c_len lhs then - 1 else 1)
           else Inr 0))"

fun compare_lookup_loop :: "memory \<Rightarrow> (u8 \<Rightarrow> u8) \<Rightarrow> ptr \<Rightarrow> nat \<Rightarrow> ptr \<Rightarrow> nat \<Rightarrow> int res" where
  "compare_lookup_loop m lookup_table lhs_curr (Suc n) rhs_curr (Suc k) =
     bind_res (load_u8 m lhs_curr 0) (\<lambda>l. bind_res (load_u8 m rhs_curr 0) (\<lambda>r.
       let lhc = lookup_table l; rhc = lookup_table r
       in if lhc < rhc then Inr (- 1) else if lhc > rhc then Inr 1
          else compare_lookup_loop m lookup_table (ptr_add lhs_curr 1) n (ptr_add rhs_curr 1) k))"
| "compare_lookup_loop m lookup_table lhs_curr (Suc n) rhs_curr 0 = Inr 1"
| "compare_lookup_loop m lookup_table lhs_curr 0 rhs_curr (Suc k) = Inr (- 1)"
| "compare_lookup_loop m lookup_table lhs_curr 0 rhs_curr 0 = Inr 0"

definition aws_byte_cursor_compare_lookup :: "memory \<Rightarrow> byte_cursor \<Rightarrow> byte_cursor \<Rightarrow> (u8 \<Rightarrow> u8) \<Rightarrow> int res" where
  "aws_byte_cursor_compare_lookup m lhs rhs lookup_table =
     (if c_len lhs = 0 \<and> c_len rhs = 0 then Inr 0
      else if c_len lhs = 0 then Inr (- 1)
      else if c_len rhs = 0 then Inr 1
      else compare_lookup_loop m lookup_table (c_ptr lhs) (unat (c_len lhs)) (c_ptr rhs) (unat (c_len rhs)))"

section \<open>Character classes and numbers\<close>

definition aws_isalnum :: "u8 \<Rightarrow> bool" where
  "aws_isalnum ch \<longleftrightarrow> 97 \<le> ch \<and> ch \<le> 122 \<or> 65 \<le> ch \<and> ch \<le> 90 \<or> 48 \<le> ch \<and> ch \<le> 57"

definition aws_isalpha :: "u8 \<Rightarrow> bool" where
  "aws_isalpha ch \<longleftrightarrow> 97 \<le> ch \<and> ch \<le> 122 \<or> 65 \<le> ch \<and> ch \<le> 90"

definition aws_isdigit :: "u8 \<Rightarrow> bool" where
  "aws_isdigit ch \<longleftrightarrow> 48 \<le> ch \<and> ch \<le> 57"

definition aws_isxdigit :: "u8 \<Rightarrow> bool" where
  "aws_isxdigit ch \<longleftrightarrow> 48 \<le> ch \<and> ch \<le> 57 \<or> 97 \<le> ch \<and> ch \<le> 102 \<or> 65 \<le> ch \<and> ch \<le> 70"

definition aws_isspace :: "u8 \<Rightarrow> bool" where
  "aws_isspace ch \<longleftrightarrow> ch \<in> {0x20, 0x09, 0x0A, 0x0B, 0x0C, 0x0D}"

fun read_unsigned_loop :: "memory \<Rightarrow> ptr \<Rightarrow> nat \<Rightarrow> nat \<Rightarrow> u8 \<Rightarrow> u64 \<Rightarrow> u64 res" where
  "read_unsigned_loop m p i 0 base val = Inr val"
| "read_unsigned_loop m p i (Suc n) base val =
     bind_res (load_u8 m p i) (\<lambda>c.
       let cval = hex_to_num c
       in if cval \<ge> base then aws_raise_error AWS_ERROR_INVALID_ARGUMENT
          else case aws_mul_u64_checked val (ucast base) of
                 Inl e \<Rightarrow> aws_raise_error AWS_ERROR_OVERFLOW_DETECTED
               | Inr val \<Rightarrow>
                   (case aws_add_u64_checked val (ucast cval) of
                      Inl e \<Rightarrow> aws_raise_error AWS_ERROR_OVERFLOW_DETECTED
                    | Inr val \<Rightarrow> read_unsigned_loop m p (i + 1) n base val))"

definition s_read_unsigned :: "memory \<Rightarrow> byte_cursor \<Rightarrow> u8 \<Rightarrow> u64 res" where
  "s_read_unsigned m cursor base =
     (if c_len cursor = 0 then aws_raise_error AWS_ERROR_INVALID_ARGUMENT
      else read_unsigned_loop m (c_ptr cursor) 0 (unat (c_len cursor)) base 0)"

definition aws_byte_cursor_utf8_parse_u64 :: "memory \<Rightarrow> byte_cursor \<Rightarrow> u64 res" where
  "aws_byte_cursor_utf8_parse_u64 m cursor = s_read_unsigned m cursor 10"

definition aws_byte_cursor_utf8_parse_u64_hex :: "memory \<Rightarrow> byte_cursor \<Rightarrow> u64 res" where
  "aws_byte_cursor_utf8_parse_u64_hex m cursor = s_read_unsigned m cursor 16"

section \<open>Abstraction and invariant\<close>

text \<open>
  A writer and a reader that fit together: the writer appends \<open>bytes\<close>, and the reader, on a cursor that starts with those bytes,
  leaves \<open>obj\<close> in the object it reads into and the cursor behind the bytes.
\<close>

definition reads_back :: "(memory \<Rightarrow> byte_cursor \<Rightarrow> ptr \<Rightarrow> bool res \<times> byte_cursor \<times> memory) \<Rightarrow> u8 list \<Rightarrow> u8 list \<Rightarrow> bool" where
  "reads_back rd bytes obj \<longleftrightarrow>
     (\<forall>m c zs var. cur_holds m c (bytes @ zs) \<and> length (bytes @ zs) < 2 ^ 63 - 1 \<and> room m var (length obj) \<and>
        apart var (length obj) (c_ptr c) (length (bytes @ zs)) \<longrightarrow>
        (\<exists>c' m'. rd m c var = (Inr True, c', m') \<and> holds m' var obj \<and> cur_holds m' c' zs))"

definition writes :: "(memory \<Rightarrow> byte_buf \<Rightarrow> bool res \<times> byte_buf \<times> memory) \<Rightarrow> u8 list \<Rightarrow> bool" where
  "writes wr bytes \<longleftrightarrow>
     (\<forall>m buf xs. mem_ok m \<and> buf_holds m buf xs \<and> length xs + length bytes \<le> unat (b_capacity buf) \<and> length xs < 2 ^ 63 \<longrightarrow>
        (\<exists>buf' m'. wr m buf = (Inr True, buf', m') \<and> buf_holds m' buf' (xs @ bytes) \<and> mem_ok m' \<and> changed_block m (b_buffer buf) m'))"

abbreviation be_bytes :: "nat \<Rightarrow> 'a :: len word \<Rightarrow> u8 list" where
  "be_bytes n x \<equiv> rev (le_bytes n x)"

text \<open>At most \<open>n\<close> splits; the last part is the rest.\<close>

fun split_upto :: "nat \<Rightarrow> u8 \<Rightarrow> u8 list \<Rightarrow> u8 list list" where
  "split_upto 0 c xs = [xs]"
| "split_upto (Suc n) c xs =
     (if c \<in> set xs then takeWhile (\<lambda>x. x \<noteq> c) xs # split_upto n c (tl (dropWhile (\<lambda>x. x \<noteq> c) xs)) else [xs])"

fun part_cursors :: "ptr \<Rightarrow> nat \<Rightarrow> u8 list list \<Rightarrow> byte_cursor list" where
  "part_cursors p i [] = []"
| "part_cursors p i (ys # yss) = \<lparr>c_len = word_of_nat (length ys), c_ptr = ptr_add p i\<rparr> # part_cursors p (i + length ys + 1) yss"

fun join_with :: "u8 \<Rightarrow> u8 list list \<Rightarrow> u8 list" where
  "join_with c [] = []"
| "join_with c [ys] = ys"
| "join_with c (ys # zs # yss) = ys @ c # join_with c (zs # yss)"

abbreviation up_to :: "u8 \<Rightarrow> u8 list \<Rightarrow> nat" where
  "up_to c ys \<equiv> length (takeWhile (\<lambda>x. x \<noteq> c) ys)"

text \<open>The cursor of the part before the one that starts at \<open>i\<close>, or the zeroed cursor.\<close>

definition before :: "ptr \<Rightarrow> nat \<Rightarrow> byte_cursor \<Rightarrow> bool" where
  "before p i c \<longleftrightarrow> c = zero_cursor \<and> i = 0 \<or> (\<exists>s. c_ptr c = ptr_add p s \<and> i = s + unat (c_len c) + 1 \<and> unat (c_len c) < 2 ^ 64 - 1)"

definition match_at :: "u8 list \<Rightarrow> u8 list \<Rightarrow> nat \<Rightarrow> bool" where
  "match_at zs xs i \<longleftrightarrow> take (length zs) (drop i xs) = zs"

fun first_match :: "u8 list \<Rightarrow> u8 list \<Rightarrow> nat option" where
  "first_match zs [] = (if zs = [] then Some 0 else None)"
| "first_match zs (x # xs) = (if take (length zs) (x # xs) = zs then Some 0 else map_option Suc (first_match zs xs))"

definition digits_value :: "nat \<Rightarrow> nat \<Rightarrow> u8 list \<Rightarrow> nat" where
  "digits_value base v cs = foldl (\<lambda>v c. v * base + unat (hex_to_num c)) v cs"

definition text_memory :: "u8 list \<Rightarrow> u8 list \<Rightarrow> memory" where
  "text_memory as bs = \<lparr>m_blocks = (\<lambda>b. None)(0 \<mapsto> map Some as, 1 \<mapsto> map Some bs), m_next = 2\<rparr>"

definition text_cursor :: "nat \<Rightarrow> u8 list \<Rightarrow> byte_cursor" where
  "text_cursor b as = \<lparr>c_len = word_of_nat (length as), c_ptr = Ptr b 0\<rparr>"

section \<open>Lemmas\<close>

section \<open>Advancing\<close>

lemma size_max_half [simp]: "drop_bit (Suc 0) SIZE_MAX = (0x7FFFFFFFFFFFFFFF :: size_t)" "SIZE_MAX - 0x7FFFFFFFFFFFFFFF = (0x8000000000000000 :: size_t)"
  by (simp_all add: SIZE_MAX_def drop_bit_eq_div)

lemma top_bit: "bit (x :: size_t) 63 \<longleftrightarrow> 2 ^ 63 \<le> unat x"
proof -
  have "bit (unat x) 63 \<longleftrightarrow> bit x 63" by (simp add: bit_unsigned_iff)
  then have "bit x 63 \<longleftrightarrow> odd (unat x div 2 ^ 63)" unfolding bit_iff_odd [of "unat x"] by simp
  moreover have "unat x div 2 ^ 63 < 2" using unat_size_lt [of x] by (simp add: div_less_iff_less_mult)
  ultimately show ?thesis by (cases "unat x < 2 ^ 63") (auto simp: not_less less_2_cases_iff div_eq_0_iff odd_iff_mod_2_eq_one)
qed

lemma not_div_top: "NOT (x :: size_t) div 0x8000000000000000 = (if bit x 63 then 0 else 1)"
proof -
  have "unat (NOT x) div 2 ^ 63 < 2" using unat_size_lt [of "NOT x"] by (simp add: div_less_iff_less_mult)
  moreover have "unat (NOT x) div 2 ^ 63 = 0 \<longleftrightarrow> bit x 63" using top_bit [of "NOT x"] by (auto simp: bit_not_iff div_eq_0_iff not_le)
  ultimately have "unat (NOT x div 0x8000000000000000) = unat (if bit x 63 then 0 else 1 :: size_t)"
    by (auto simp: unat_div less_2_cases_iff)
  then show ?thesis by (simp add: word_unat_eq_iff)
qed

lemma nospec_mask_eq:
  "aws_nospec_mask index bound = (if index < bound \<and> bound \<le> 0x7FFFFFFFFFFFFFFF then SIZE_MAX else 0)"
proof -
  have split: "bit ((index OR bound) OR (bound - index - 1)) 63 \<longleftrightarrow>
      2 ^ 63 \<le> unat index \<or> 2 ^ 63 \<le> unat bound \<or> 2 ^ 63 \<le> unat (bound - index - 1)"
    by (simp only: bit_or_iff top_bit [symmetric] disj_assoc)
  have top: "bit ((index OR bound) OR (bound - index - 1)) 63 \<longleftrightarrow> \<not> (index < bound \<and> bound \<le> 0x7FFFFFFFFFFFFFFF)"
  proof (cases "index < bound")
    case True
    then have d: "unat (bound - index) = unat bound - unat index" "unat index < unat bound"
      using unat_sub_exact [of index bound] by (simp_all add: word_less_nat_alt less_imp_le)
    then have "1 \<le> bound - index" by (simp add: word_le_nat_alt)
    then have "unat (bound - index - 1) = unat bound - unat index - 1" using d by (simp add: unat_sub_exact)
    then show ?thesis using True unfolding split word_less_nat_alt word_le_nat_alt by auto
  next
    case False
    have "unat (bound - index - 1) = 2 ^ 64 - 1 - (unat index - unat bound)"
    proof -
      have e: "bound - index - 1 = SIZE_MAX - (index - bound)" by (simp add: SIZE_MAX_def)
      show ?thesis unfolding e using False by (subst unat_sub_exact) (auto simp: unat_sub_exact not_less)
    qed
    then show ?thesis using False unat_size_lt [of index] unfolding split word_less_nat_alt word_le_nat_alt by auto
  qed
  have "aws_nospec_mask index bound = NOT ((index OR bound) OR (bound - index - 1)) div 0x8000000000000000 * SIZE_MAX"
    unfolding aws_nospec_mask_def Let_def by simp
  then show ?thesis unfolding not_div_top top by simp
qed

lemma SIZE_MAX_not_0 [simp]: "SIZE_MAX \<noteq> 0"
  by (simp add: SIZE_MAX_def)

lemma and_SIZE_MAX [simp]: "x AND SIZE_MAX = x"
  by (simp add: SIZE_MAX_def)

text \<open>Both ways to advance agree except when the cursor has exactly \<open>SIZE_MAX / 2\<close> bytes.\<close>

lemma advance_nospec_eq:
  assumes "c_len c \<noteq> 0x7FFFFFFFFFFFFFFF"
  shows "aws_byte_cursor_advance_nospec c len = Inr (aws_byte_cursor_advance c len)"
proof (cases "len \<le> c_len c \<and> len \<le> 0x7FFFFFFFFFFFFFFF \<and> c_len c \<le> 0x7FFFFFFFFFFFFFFF")
  case True
  then have "c_len c < 0x7FFFFFFFFFFFFFFF" using assms by (simp add: order_less_le)
  then have "unat (c_len c) < 0x7FFFFFFFFFFFFFFF" by (simp add: word_less_nat_alt)
  then have "unat (c_len c + 1) = unat (c_len c) + 1" by (subst unat_add_exact) auto
  then have "aws_nospec_mask len (c_len c + 1) = SIZE_MAX"
    using True \<open>unat (c_len c) < _\<close> by (simp add: nospec_mask_eq word_less_nat_alt word_le_nat_alt)
  then show ?thesis using True
    by (auto simp: aws_byte_cursor_advance_nospec_def aws_byte_cursor_advance_def ptr_and_def Let_def not_less)
next
  case False
  then show ?thesis by (auto simp: aws_byte_cursor_advance_nospec_def aws_byte_cursor_advance_def not_less)
qed

lemma advance_nospec_half:
  assumes "c_len c = 0x7FFFFFFFFFFFFFFF" "len \<le> c_len c"
  shows "aws_byte_cursor_advance_nospec c len = Inr (zero_cursor, zero_cursor)"
  using assms by (simp add: aws_byte_cursor_advance_nospec_def nospec_mask_eq ptr_and_def zero_cursor_def)

lemma advance_ok:
  assumes "cur_holds m c xs" "length xs < 2 ^ 63" "unat len \<le> length xs" "c_ptr c \<noteq> Null \<or> len = 0"
  shows "fst (aws_byte_cursor_advance c len) = \<lparr>c_len = len, c_ptr = c_ptr c\<rparr>"
    and "snd (aws_byte_cursor_advance c len) = \<lparr>c_len = c_len c - len, c_ptr = ptr_add (c_ptr c) (unat len)\<rparr>"
    and "cur_holds m (snd (aws_byte_cursor_advance c len)) (drop (unat len) xs)"
    and "holds m (c_ptr c) (take (unat len) xs)"
proof -
  have l: "len \<le> c_len c" "unat (c_len c) = length xs" "\<not> 0x7FFFFFFFFFFFFFFF < c_len c" "\<not> 0x7FFFFFFFFFFFFFFF < len"
    using assms(1-3) by (auto simp: cur_holds_def word_le_nat_alt word_less_nat_alt)
  then have a: "aws_byte_cursor_advance c len =
      (\<lparr>c_len = len, c_ptr = c_ptr c\<rparr>, \<lparr>c_len = c_len c - len, c_ptr = ptr_add (c_ptr c) (unat len)\<rparr>)"
    using assms(4) by (auto simp: aws_byte_cursor_advance_def not_less)
  have h: "holds m (c_ptr c) (take (unat len) xs)" "holds m (ptr_add (c_ptr c) (unat len)) (drop (unat len) xs)"
    using assms(1,3) holds_append [of m "c_ptr c" "take (unat len) xs" "drop (unat len) xs"] by (simp_all add: cur_holds_def min_absorb2)
  show "fst (aws_byte_cursor_advance c len) = \<lparr>c_len = len, c_ptr = c_ptr c\<rparr>"
    and "snd (aws_byte_cursor_advance c len) = \<lparr>c_len = c_len c - len, c_ptr = ptr_add (c_ptr c) (unat len)\<rparr>"
    and "cur_holds m (snd (aws_byte_cursor_advance c len)) (drop (unat len) xs)"
    and "holds m (c_ptr c) (take (unat len) xs)"
    using h a l by (simp_all add: cur_holds_def unat_sub_exact)
qed

section \<open>Byte order\<close>

lemma length_le_bytes [simp]: "length (le_bytes n x) = n" "length (host_bytes big n x) = n"
  by (simp_all add: le_bytes_def host_bytes_def)

lemma le_bytes_Suc: "le_bytes (Suc n) x = ucast x # le_bytes n (drop_bit 8 x)"
  by (simp add: le_bytes_def upt_conv_Cons map_Suc_upt [symmetric] comp_def add.commute del: upt_Suc)

lemma of_le_bytes: "bit (of_le_bytes (le_bytes n x) :: 'a :: len word) i \<longleftrightarrow> i < 8 * n \<and> bit (x :: 'a word) i"
proof (induction n arbitrary: x i)
  case 0
  then show ?case by (simp add: le_bytes_def)
next
  case (Suc n)
  show ?case
    unfolding le_bytes_Suc of_le_bytes.simps bit_or_iff bit_push_bit_iff Suc.IH
    by (cases "i < 8") (auto simp: bit_unsigned_iff bit_drop_bit_eq dest: bit_imp_le_length)
qed

lemma of_le_bytes_le: "LENGTH('a) \<le> 8 * n \<Longrightarrow> of_le_bytes (le_bytes n x) = (x :: 'a :: len word)"
  by (rule bit_word_eqI) (auto simp: of_le_bytes)

lemma le_bytes_nth: "i < n \<Longrightarrow> le_bytes n x ! i = ucast (drop_bit (8 * i) x)"
  by (simp add: le_bytes_def)

lemma le_bytes_cong: "(\<And>i. i < 8 * n \<Longrightarrow> bit x i \<longleftrightarrow> bit y i) \<Longrightarrow> le_bytes n x = le_bytes n y"
  unfolding le_bytes_def by (rule map_cong) (auto intro!: bit_word_eqI simp: bit_unsigned_iff bit_drop_bit_eq)

lemma le_of_le_bytes: "8 * length bs \<le> LENGTH('a) \<Longrightarrow> le_bytes (length bs) (of_le_bytes bs :: 'a :: len word) = bs"
proof (induction bs)
  case Nil
  then show ?case by (simp add: le_bytes_def)
next
  case (Cons b bs)
  have "(ucast (of_le_bytes (b # bs) :: 'a word) :: u8) = b"
    by (rule bit_word_eqI) (use Cons.prems in \<open>auto simp: bit_unsigned_iff bit_or_iff bit_push_bit_iff\<close>)
  moreover have "le_bytes (length bs) (drop_bit 8 (of_le_bytes (b # bs) :: 'a word)) = le_bytes (length bs) (of_le_bytes bs :: 'a word)"
    by (rule le_bytes_cong) (use Cons.prems in \<open>auto simp: bit_drop_bit_eq bit_unsigned_iff bit_or_iff bit_push_bit_iff dest: bit_imp_le_length\<close>)
  ultimately show ?case using Cons unfolding list.size le_bytes_Suc add_Suc_right add_0_right by simp
qed

lemma le_of_le_bytes_eq: "length bs = n \<Longrightarrow> 8 * n \<le> LENGTH('a) \<Longrightarrow> le_bytes n (of_le_bytes bs :: 'a :: len word) = bs"
  using le_of_le_bytes by blast

lemma host_word_bytes [simp]: "LENGTH('a) \<le> 8 * n \<Longrightarrow> host_word big (host_bytes big n x) = (x :: 'a :: len word)"
  by (simp add: host_word_def host_bytes_def of_le_bytes_le)

lemma host_bytes_word [simp]: "length bs = n \<Longrightarrow> 8 * n \<le> LENGTH('a) \<Longrightarrow> host_bytes big n (host_word big bs :: 'a :: len word) = bs"
  by (simp add: host_word_def host_bytes_def le_of_le_bytes_eq)

lemma is_big_endian [simp]: "aws_is_big_endian big = big"
proof -
  have "[0..<2] = [0, 1 :: nat]" by code_simp
  then show ?thesis by (simp add: aws_is_big_endian_def host_bytes_def le_bytes_def drop_bit_eq_div)
qed

lemma aws_hton64_eq: "aws_hton64 big x = hton big 8 x"
  by (simp add: aws_hton64_def bswap64_def hton_def host_word_def of_le_bytes_le)

text \<open>The network order conversion puts the most significant byte first in memory, on either kind of host.\<close>

lemma host_bytes_hton: "8 * n = LENGTH('a) \<Longrightarrow> host_bytes big n (hton big n (x :: 'a :: len word)) = rev (le_bytes n x)"
  by (simp add: hton_def)

lemma hton_network: "8 * n = LENGTH('a) \<Longrightarrow> hton big n (host_word big (rev (le_bytes n x))) = (x :: 'a :: len word)"
  by (cases big) (simp_all add: hton_def host_word_def of_le_bytes_le le_of_le_bytes_eq)

lemma be_bytes_take: "k \<le> n \<Longrightarrow> drop k (rev (le_bytes n x)) = rev (le_bytes (n - k) x)"
  by (simp add: le_bytes_def rev_map [symmetric] drop_map take_map min_def flip: rev_take) (simp add: drop_rev take_map)

section \<open>Reading and writing\<close>

lemma write_as_append:
  assumes "buf_holds m buf xs" "cur_holds m \<lparr>c_len = len, c_ptr = p\<rparr> ys" "length xs < 2 ^ 63" "length ys < 2 ^ 63"
    "length xs + length ys \<le> unat (b_capacity buf)" "aws_byte_buf_append m buf \<lparr>c_len = len, c_ptr = p\<rparr> = (AWS_OP_SUCCESS, buf', m')"
  shows "aws_byte_buf_write m buf p len = (Inr True, buf', m')"
proof -
  note d = buf_holdsD [OF assms(1)]
  have len: "unat len = length ys" using assms(2) by (simp add: cur_holds_def)
  then have u: "unat (b_len buf + len) = length xs + length ys" using d(2) assms(3,4) by (subst unat_add_exact) auto
  have "\<not> (b_len buf > 0x7FFFFFFFFFFFFFFF \<or> len > 0x7FFFFFFFFFFFFFFF \<or> b_len buf + len > b_capacity buf)"
    unfolding word_less_nat_alt u len d(2) using assms(3-5) by simp
  then show ?thesis using assms(6)
    by (auto simp: aws_byte_buf_write_def aws_byte_buf_append_def buf_step_def word_gt_0 split: if_splits sum.splits)
qed

lemma write_no_space:
  assumes "buf_holds m buf xs" "unat len = n" "n \<noteq> 0" "unat (b_capacity buf) < length xs + n \<or> 2 ^ 63 \<le> length xs \<or> 2 ^ 63 \<le> n"
  shows "aws_byte_buf_write m buf p len = (Inr False, buf, m)"
proof -
  note d = buf_holdsD [OF assms(1)]
  have "b_len buf > 0x7FFFFFFFFFFFFFFF \<or> len > 0x7FFFFFFFFFFFFFFF \<or> b_len buf + len > b_capacity buf"
  proof (cases "2 ^ 63 \<le> length xs \<or> 2 ^ 63 \<le> n")
    case True
    then show ?thesis using d(2) assms(2) by (auto simp: word_less_nat_alt)
  next
    case False
    then have "unat (b_len buf + len) = length xs + n" using d(2) assms(2) by (subst unat_add_exact) auto
    then show ?thesis using assms(4) False by (auto simp: word_less_nat_alt)
  qed
  moreover have "len \<noteq> 0" using assms(2,3) by auto
  ultimately show ?thesis by (simp add: aws_byte_buf_write_def)
qed

text \<open>Writing the bytes of a local variable.\<close>

lemma local_block:
  assumes ok: "mem_ok m" and m1: "m1 = m\<lparr>m_blocks := (m_blocks m)(m_next m \<mapsto> map Some bytes), m_next := m_next m + 1\<rparr>"
  shows "mem_ok m1" "mem_le m m1" "holds m1 (Ptr (m_next m) 0) bytes"
proof -
  show "mem_ok m1" using ok by (auto simp: mem_ok_def m1)
  have "bytes_at m1 q k = Some bs" if "bytes_at m q k = Some bs" for q k bs
    using that fresh_block [OF ok, of q k] by (cases q) (auto simp: m1)
  then show "mem_le m m1" by (simp add: mem_le_def)
  show "holds m1 (Ptr (m_next m) 0) bytes" by (simp add: holds_def m1)
qed

lemma drop_block:
  assumes "block_of q \<noteq> Some b" shows "bytes_at (m\<lparr>m_blocks := (m_blocks m)(b := None)\<rparr>) q k = bytes_at m q k"
  using assms by (cases q) auto

lemma buf_block:
  assumes "mem_ok m" "buf_holds m buf xs" shows "block_of (b_buffer buf) \<noteq> Some (m_next m)"
proof (cases "b_capacity buf = 0")
  case True
  then show ?thesis using assms(2) by (auto simp: buf_holds_def aws_byte_buf_is_valid_def)
next
  case False
  then show ?thesis using fresh_block [OF assms(1), of "b_buffer buf" "unat (b_capacity buf)"] buf_holdsD(5) [OF assms(2)]
    by (auto simp: room_def unat_eq_zero_iff)
qed

lemma write_local_ok:
  assumes ok: "mem_ok m" and b: "buf_holds m buf xs" and n: "length xs + length ys \<le> unat (b_capacity buf)" "length xs < 2 ^ 63"
    and ys: "bytes = zs @ ys" "unat len = length ys" "length ys < 2 ^ 63"
  obtains buf' m' where "with_local m bytes (\<lambda>m p. aws_byte_buf_write m buf (ptr_add p (length zs)) len) = (Inr True, buf', m')"
    "buf_holds m' buf' (xs @ ys)" "mem_ok m'" "changed_block m (b_buffer buf) m'" "buf' = buf\<lparr>b_len := b_len buf + len\<rparr>"
proof -
  let ?b = "m_next m"
  define m1 where "m1 = m\<lparr>m_blocks := (m_blocks m)(?b \<mapsto> map Some bytes), m_next := ?b + 1\<rparr>"
  note l = local_block [OF ok m1_def]
  have b1: "buf_holds m1 buf xs" using b mem_le_holds [OF l(2)] mem_le_room [OF l(2)] by (simp add: buf_holds_def)
  let ?c = "\<lparr>c_len = len, c_ptr = ptr_add (Ptr ?b 0) (length zs)\<rparr>"
  have c: "cur_holds m1 ?c ys" using l(3) ys(1,2) by (simp add: cur_holds_def holds_append)
  have nb: "block_of (b_buffer buf) \<noteq> Some ?b" by (rule buf_block [OF ok b])
  have off: "off_tail buf ?c" using nb by (cases "b_buffer buf") (auto simp: off_tail_def)
  let ?buf = "buf\<lparr>b_len := b_len buf + len\<rparr>"
  obtain m2 where m2: "aws_byte_buf_append m1 buf ?c = (AWS_OP_SUCCESS, ?buf, m2)" "buf_holds m2 ?buf (xs @ ys)"
    "changed_only m1 (ptr_add (b_buffer buf) (length xs)) (length ys) m2"
    using append_ok [OF b1 c off n(1)] by (metis byte_cursor.select_convs(1))
  define m3 where "m3 = m2\<lparr>m_blocks := (m_blocks m2)(?b := None)\<rparr>"
  have same: "bytes_at m3 q k = bytes_at m2 q k" if "block_of q \<noteq> Some ?b" for q k unfolding m3_def by (rule drop_block [OF that])
  have "with_local m bytes (\<lambda>m p. aws_byte_buf_write m buf (ptr_add p (length zs)) len) = (Inr True, ?buf, m3)"
    using write_as_append [OF b1 c n(2) ys(3) n(1) m2(1)] by (simp add: with_local_def Let_def m1_def m3_def)
  moreover have "buf_holds m3 ?buf (xs @ ys)" using m2(2) nb by (auto simp: buf_holds_def room_def holds_def same)
  moreover have "mem_ok m3" using changed_only_mem_ok [OF m2(3)] l(1) by (auto simp: mem_ok_def m3_def)
  moreover have "changed_block m (b_buffer buf) m3"
    unfolding changed_block_def
  proof (intro allI impI)
    fix q k bs assume q: "block_of q \<noteq> block_of (b_buffer buf)" "bytes_at m q k = Some bs"
    have "block_of q \<noteq> Some ?b" using fresh_block [OF ok] q(2) by blast
    moreover have "apart q k (ptr_add (b_buffer buf) (length xs)) (length ys)"
      using q(1) by (intro apart_blocks) (cases "b_buffer buf"; simp)
    ultimately show "bytes_at m3 q k = Some bs" using same l(2) m2(3) q(2) by (simp add: mem_le_def changed_only_def)
  qed
  ultimately show thesis by (rule that) simp
qed

lemma holds_load_known: "holds m p xs \<Longrightarrow> n = length xs \<Longrightarrow> n \<noteq> 0 \<Longrightarrow> load_known m p n = Inr xs"
  by (auto simp: load_known_def load_bytes_def holds_def comp_def)

lemma read_ok:
  assumes c: "cur_holds m c (bs @ zs)" "length (bs @ zs) < 2 ^ 63 - 1" "bs \<noteq> []" and len: "unat len = length bs"
    and v: "room m var (length bs)" "apart var (length bs) (c_ptr c) (length bs)"
  obtains m' where "aws_byte_cursor_read m c var len = (Inr True, \<lparr>c_len = c_len c - len, c_ptr = ptr_add (c_ptr c) (length bs)\<rparr>, m')"
    "holds m' var bs" "changed_only m var (length bs) m'"
proof -
  have p: "c_ptr c \<noteq> Null" using c(1,3) by (auto simp: cur_holds_def)
  have cl: "unat (c_len c) = length (bs @ zs)" using c(1) by (simp add: cur_holds_def)
  have "c_len c \<noteq> 0x7FFFFFFFFFFFFFFF"
  proof
    assume "c_len c = 0x7FFFFFFFFFFFFFFF"
    then have "unat (c_len c) = 2 ^ 63 - 1" by simp
    then show False using cl c(2) by simp
  qed
  note a = advance_nospec_eq [OF this, of len]
  note ad = advance_ok [OF c(1), of len]
  have "length (bs @ zs) < 2 ^ 63" using c(2) by simp
  then have e: "aws_byte_cursor_advance c len = (\<lparr>c_len = len, c_ptr = c_ptr c\<rparr>, \<lparr>c_len = c_len c - len, c_ptr = ptr_add (c_ptr c) (length bs)\<rparr>)"
    using ad(1,2) p len by (simp add: prod_eq_iff)
  have h: "holds m (c_ptr c) bs" using c(1) by (simp add: cur_holds_def holds_append)
  obtain m' where m': "memcpy m var (c_ptr c) (length bs) = Inr m'" "holds m' var bs" "changed_only m var (length bs) m'"
    using memcpy_ok [OF h v] by metis
  have "len \<noteq> 0" using len c(3) by auto
  then have "aws_byte_cursor_read m c var len = (Inr True, \<lparr>c_len = c_len c - len, c_ptr = ptr_add (c_ptr c) (length bs)\<rparr>, m')"
    using a e p len m'(1) by (simp add: aws_byte_cursor_read_def)
  then show thesis using that m'(2,3) by blast
qed

lemma cur_holds_rest:
  assumes "cur_holds m c (bs @ zs)" "unat len = length bs" "changed_only m p n m'" "apart p n (c_ptr c) (length (bs @ zs))"
  shows "cur_holds m' \<lparr>c_len = c_len c - len, c_ptr = ptr_add (c_ptr c) (length bs)\<rparr> zs"
proof -
  have "holds m (ptr_add (c_ptr c) (length bs)) zs" "unat (c_len c) = length bs + length zs"
    using assms(1) by (simp_all add: cur_holds_def holds_append)
  moreover have "apart (ptr_add (c_ptr c) (length bs)) (length zs) p n"
    using assms(4) apart_sub [of p n "c_ptr c" "length (bs @ zs)" 0 n "length bs" "length zs"] apart_sym by auto
  moreover have "len \<le> c_len c" using assms(2) calculation(2) by (simp add: word_le_nat_alt)
  ultimately show ?thesis using changed_only_holds [OF assms(3)] assms(2) by (simp add: cur_holds_def unat_sub_exact)
qed

lemma convert_ok:
  assumes h: "holds m var bs" and n: "n = length bs" "length (f bs) = n" "n \<noteq> 0"
  obtains m' where "convert_object m var n f = Inr m'" "holds m' var (f bs)" "changed_only m var n m'"
proof -
  have "room m var (length (map Some (f bs)))" "map Some (f bs) \<noteq> []" using holds_room [OF h] n by auto
  then obtain m' where "store_bytes m var (map Some (f bs)) = Inr m'" "bytes_at m' var (length (f bs)) = Some (map Some (f bs))"
     "changed_only m var (length (f bs)) m'" using store_bytes_ok by (metis length_map)
  then show thesis using that holds_load_known [OF h] n by (auto simp: convert_object_def holds_def)
qed

lemma reads_back_convert:
  assumes "unat len = length bytes" "bytes \<noteq> []" "length (f bytes) = length bytes"
  shows "reads_back (\<lambda>m c var. then_convert (aws_byte_cursor_read m c var len) (\<lambda>m. convert_object m var (length bytes) f)) bytes (f bytes)"
  unfolding reads_back_def
proof (intro allI impI; elim conjE)
  fix m c zs var
  assume c: "cur_holds m c (bytes @ zs)" "length (bytes @ zs) < 2 ^ 63 - 1" and r: "room m var (length (f bytes))"
    and ap: "apart var (length (f bytes)) (c_ptr c) (length (bytes @ zs))"
  have r': "room m var (length bytes)" and ap': "apart var (length bytes) (c_ptr c) (length bytes)"
    using r assms(3) apart_sub [OF ap, of 0 "length bytes" 0 "length bytes"] by simp_all
  let ?c = "\<lparr>c_len = c_len c - len, c_ptr = ptr_add (c_ptr c) (length bytes)\<rparr>"
  obtain m1 where m1: "aws_byte_cursor_read m c var len = (Inr True, ?c, m1)" "holds m1 var bytes" "changed_only m var (length bytes) m1"
    by (rule read_ok [OF c assms(2,1) r' ap'])
  have nz: "length bytes \<noteq> 0" using assms(2) by simp
  obtain m2 where m2: "convert_object m1 var (length bytes) f = Inr m2" "holds m2 var (f bytes)" "changed_only m1 var (length bytes) m2"
    by (rule convert_ok [where f = f, OF m1(2) refl assms(3) nz])
  have "cur_holds m2 ?c zs" by (rule cur_holds_rest [OF c(1) assms(1) changed_only_trans [OF m1(3) m2(3)]]) (use ap assms(3) in simp)
  then show "\<exists>c' m'. then_convert (aws_byte_cursor_read m c var len) (\<lambda>m. convert_object m var (length bytes) f) = (Inr True, c', m') \<and>
      holds m' var (f bytes) \<and> cur_holds m' c' zs"
    using m1(1) m2(1,2) by (simp add: then_convert_def)
qed

lemma reads_back_be:
  assumes "unat len = n" "n \<noteq> 0" "8 * n = LENGTH('a)"
  shows "reads_back (\<lambda>m c var. then_convert (aws_byte_cursor_read m c var len)
    (\<lambda>m. convert_object m var n (\<lambda>bs. host_bytes big n (hton big n (host_word big bs :: 'a :: len word))))) (be_bytes n (x :: 'a word)) (host_bytes big n x)"
proof -
  have "be_bytes n x \<noteq> []" using assms(2) by (metis length_0_conv length_le_bytes(1) length_rev)
  then show ?thesis
    using reads_back_convert [of len "be_bytes n x" "\<lambda>bs. host_bytes big n (hton big n (host_word big bs :: 'a word))"] assms
    by (simp add: hton_network)
qed

lemma writes_local:
  assumes "unat len = length ys" "length ys < 2 ^ 63" "bytes = zs @ ys"
  shows "writes (\<lambda>m buf. with_local m bytes (\<lambda>m p. aws_byte_buf_write m buf (ptr_add p (length zs)) len)) ys"
  unfolding writes_def
proof (intro allI impI; elim conjE)
  fix m buf xs
  assume h: "mem_ok m" "buf_holds m buf xs" "length xs + length ys \<le> unat (b_capacity buf)" "length xs < 2 ^ 63"
  from write_local_ok [OF h assms(3,1,2)]
  show "\<exists>buf' m'. with_local m bytes (\<lambda>m p. aws_byte_buf_write m buf (ptr_add p (length zs)) len) = (Inr True, buf', m') \<and>
    buf_holds m' buf' (xs @ ys) \<and> mem_ok m' \<and> changed_block m (b_buffer buf) m'" by metis
qed

lemma writes_be:
  assumes "unat len = n" "n < 2 ^ 63" "8 * n = LENGTH('a)"
  shows "writes (\<lambda>m buf. with_local m (host_bytes big n (hton big n (x :: 'a :: len word))) (\<lambda>m p. aws_byte_buf_write m buf p len)) (be_bytes n x)"
  using writes_local [of len "be_bytes n x" "be_bytes n x" "[]"] assms by (simp add: host_bytes_hton)

lemma be_bytes_4:
  assumes "x \<le> (0x00FFFFFF :: u32)" shows "be_bytes 4 x = 0 # be_bytes 3 x"
proof -
  have d: "drop 1 (be_bytes 4 x) = be_bytes 3 x" using be_bytes_take [of 1 4 x] by simp
  have "be_bytes 4 x ! 0 = ucast (drop_bit 24 x)" by (simp add: rev_nth le_bytes_nth)
  moreover have "drop_bit 24 x = 0"
  proof -
    have "unat x div 2 ^ 24 = 0" using assms by (simp add: word_le_nat_alt div_eq_0_iff)
    then show ?thesis by (simp add: word_unat_eq_iff drop_bit_eq_div unat_div)
  qed
  ultimately have "be_bytes 4 x ! 0 = 0" by simp
  then show ?thesis using d Cons_nth_drop_Suc [of 0 "be_bytes 4 x"] by simp
qed

lemma writes_be24:
  assumes "x \<le> 0x00FFFFFF" shows "writes (\<lambda>m buf. aws_byte_buf_write_be24 big m buf x) (be_bytes 3 x)"
proof -
  have "writes (\<lambda>m buf. with_local m (be_bytes 4 x) (\<lambda>m p. aws_byte_buf_write m buf (ptr_add p (length [0 :: u8])) 3)) (be_bytes 3 x)"
    by (intro writes_local) (simp_all add: be_bytes_4 [OF assms])
  moreover have "\<not> 0x00FFFFFF < x" using assms by simp
  moreover have "host_bytes big 4 (hton big 4 x) = be_bytes 4 x" by (simp add: host_bytes_hton)
  ultimately show ?thesis by (simp add: aws_byte_buf_write_be24_def Let_def aws_hton32_def)
qed

lemma reads_back_be24:
  assumes x: "x \<le> (0x00FFFFFF :: u32)" shows "reads_back (aws_byte_cursor_read_be24 big) (be_bytes 3 x) (host_bytes big 4 x)"
  unfolding reads_back_def
proof (intro allI impI; elim conjE)
  fix m c zs var
  assume c: "cur_holds m c (be_bytes 3 x @ zs)" "length (be_bytes 3 x @ zs) < 2 ^ 63 - 1" and r: "room m var (length (host_bytes big 4 x))"
    and ap: "apart var (length (host_bytes big 4 x)) (c_ptr c) (length (be_bytes 3 x @ zs))"
  let ?bs = "be_bytes 3 x"
  have r4: "room m var 4" and ap4: "apart var 4 (c_ptr c) (length (?bs @ zs))" using r ap by simp_all
  have r': "room m (ptr_add var 1) (length ?bs)" and ap': "apart (ptr_add var 1) (length ?bs) (c_ptr c) (length ?bs)"
    using room_sub [OF r4, of 1 3] apart_sub [OF ap4, of 1 3 0 3] by simp_all
  have nz: "?bs \<noteq> []" "unat (3 :: size_t) = length ?bs" by (metis length_0_conv length_le_bytes(1) length_rev zero_neq_numeral) simp
  let ?c = "\<lparr>c_len = c_len c - 3, c_ptr = ptr_add (c_ptr c) (length ?bs)\<rparr>"
  obtain m1 where m1: "aws_byte_cursor_read m c (ptr_add var 1) 3 = (Inr True, ?c, m1)" "holds m1 (ptr_add var 1) ?bs"
    "changed_only m (ptr_add var 1) (length ?bs) m1" by (rule read_ok [OF c nz r' ap'])
  have "room m1 (ptr_add var 0) 1" using changed_only_room [OF m1(3)] room_sub [OF r4, of 0 1] by simp
  then obtain m2 where m2: "store_u8 m1 var 0 0 = Inr m2" "holds m2 (ptr_add var 0) [0]" "changed_only m1 (ptr_add var 0) 1 m2"
    by (rule store_u8_ok [where v = 0])
  have "apart (ptr_add var 1) (length ?bs) (ptr_add var 0) 1" by (cases var) auto
  then have h: "holds m2 var (be_bytes 4 x)" using m1(2) m2(2) changed_only_holds [OF m2(3)] holds_Cons [of m2 var 0 ?bs]
    by (simp add: be_bytes_4 [OF x])
  let ?f = "\<lambda>bs. host_bytes big 4 (aws_ntoh32 big (host_word big bs))"
  obtain m3 where m3: "convert_object m2 var 4 ?f = Inr m3" "holds m3 var (?f (be_bytes 4 x))" "changed_only m2 var 4 m3"
    by (rule convert_ok [where f = ?f and n = 4, OF h]) simp_all
  have f: "?f (be_bytes 4 x) = host_bytes big 4 x" by (simp add: aws_ntoh32_def hton_network)
  have ch: "changed_only m var 4 m3"
    by (rule changed_only_trans [OF changed_only_trans [OF changed_only_mono [OF m1(3)] changed_only_mono [OF m2(3)]] m3(3)]) simp_all
  have "cur_holds m3 ?c zs" by (rule cur_holds_rest [OF c(1) nz(2) ch ap4])
  then show "\<exists>c' m'. aws_byte_cursor_read_be24 big m c var = (Inr True, c', m') \<and> holds m' var (host_bytes big 4 x) \<and> cur_holds m' c' zs"
    using m1(1) m2(1) m3(1,2) f by (simp add: aws_byte_cursor_read_be24_def then_convert_def)
qed

section \<open>Splitting\<close>

lemma split_upto_not_Nil [simp]: "split_upto n c xs \<noteq> []"
  by (cases n) auto

lemma dropWhile_found: "c \<in> set xs \<Longrightarrow> dropWhile (\<lambda>x. x \<noteq> c) xs = c # tl (dropWhile (\<lambda>x. x \<noteq> c) xs)"
  by (induction xs) auto

lemma takeWhile_found: "c \<in> set xs \<Longrightarrow> xs = takeWhile (\<lambda>x. x \<noteq> c) xs @ c # tl (dropWhile (\<lambda>x. x \<noteq> c) xs)"
  by (metis dropWhile_found takeWhile_dropWhile_id)

lemma split_upto_spec:
  "join_with c (split_upto n c xs) = xs \<and> (\<forall>ys \<in> set (butlast (split_upto n c xs)). c \<notin> set ys) \<and>
   length (split_upto n c xs) \<le> n + 1 \<and> (length (split_upto n c xs) < n + 1 \<longrightarrow> c \<notin> set (last (split_upto n c xs)))"
proof (induction n arbitrary: xs)
  case (Suc n)
  let ?r = "tl (dropWhile (\<lambda>x. x \<noteq> c) xs)" and ?t = "takeWhile (\<lambda>x. x \<noteq> c) xs"
  show ?case
  proof (cases "c \<in> set xs")
    case True
    obtain z zs where z: "split_upto n c ?r = z # zs" by (meson list.exhaust split_upto_not_Nil)
    have "c \<notin> set ?t" using set_takeWhileD by fastforce
    then show ?thesis using Suc [of ?r] True takeWhile_found [OF True] unfolding z by (auto simp: z)
  qed simp
qed simp

lemma part_cursors_hold:
  "holds m (ptr_add p i) (join_with c yss) \<Longrightarrow> length (join_with c yss) < 2 ^ 64 \<Longrightarrow> list_all2 (cur_holds m) (part_cursors p i yss) yss"
proof (induction c yss arbitrary: i rule: join_with.induct)
  case (2 c ys)
  then show ?case by (simp add: cur_holds_def unsigned_of_nat take_bit_nat_eq_self)
next
  case (3 c ys zs yss)
  have "holds m (ptr_add p i) ys" "holds m (ptr_add p (i + length ys)) (c # join_with c (zs # yss))"
    using 3(2) by (simp_all add: holds_append)
  moreover from this have "holds m (ptr_add p (i + length ys + 1)) (join_with c (zs # yss))"
    using holds_Cons [of m "ptr_add p (i + length ys)" c "join_with c (zs # yss)"] by simp
  ultimately show ?case using 3(1) [of "i + length ys + 1"] 3(3) by (simp add: cur_holds_def unsigned_of_nat take_bit_nat_eq_self)
qed simp

lemma memchr_ok:
  "holds m p ys \<Longrightarrow> n = length ys \<Longrightarrow>
   memchr m p c n = Inr (if c \<in> set ys then ptr_add p (up_to c ys) else Null)"
proof (induction n arbitrary: p ys)
  case (Suc n)
  then obtain y zs where y: "ys = y # zs" by (cases ys) auto
  have "holds m p [y]" "holds m (ptr_add p 1) zs" using Suc.prems(1) holds_Cons [of m p y zs] by (simp_all only: y)
  moreover have "load_u8 m p 0 = Inr y" using load_u8_holds [OF \<open>holds m p [y]\<close>, of 0] by simp
  ultimately show ?case using Suc.IH [of "ptr_add p 1" zs] Suc.prems(2) by (auto simp: y)
qed simp

lemma next_split_ok:
  assumes c: "cur_holds m input xs" "c_ptr input = Ptr b off" "length xs < 2 ^ 64 - 1" and pr: "before (Ptr b off) i prev"
  shows "aws_byte_cursor_next_split m e input ch prev =
    Inr (if i \<le> length xs then (True, \<lparr>c_len = word_of_nat (up_to ch (drop i xs)), c_ptr = Ptr b (off + i)\<rparr>) else (False, zero_cursor))"
proof -
  let ?rest = "\<lparr>c_len = word_of_nat (length xs - i), c_ptr = Ptr b (off + i)\<rparr>"
  have cl: "c_len input = word_of_nat (length xs)" using c(1) unfolding cur_holds_def by (metis of_nat_unat ucast_id)
  have lt: "length xs < 2 ^ 64" using c(3) by simp
  define st where "st = (if c_ptr prev = Null then Inr (Some input)
            else let input_end = ptr_add (c_ptr input) (unat (c_len input));
                     p = ptr_add (c_ptr prev) (unat (c_len prev + 1))
                 in bind_res (ptr_less input_end p) (\<lambda>past. bind_res (ptr_less p (c_ptr input)) (\<lambda>before.
                      if past \<or> before then Inr None
                      else bind_res (ptr_sub p (c_ptr input)) (\<lambda>d. Inr (Some \<lparr>c_len = c_len input - d, c_ptr = p\<rparr>)))))"
  have st: "st = Inr (if i \<le> length xs then Some ?rest else None)"
  proof (cases "c_ptr prev = Null")
    case True
    then have "i = 0" using pr by (auto simp: before_def)
    then show ?thesis using True c(2) cl by (simp add: st_def)
  next
    case False
    then obtain s where s: "c_ptr prev = Ptr b (off + s)" "i = s + unat (c_len prev) + 1" "unat (c_len prev) < 2 ^ 64 - 1"
      using pr by (auto simp: before_def zero_cursor_def)
    have "unat (c_len prev + 1) = unat (c_len prev) + 1" using s(3) by (subst unat_add_exact) auto
    then have p: "ptr_add (c_ptr prev) (unat (c_len prev + 1)) = Ptr b (off + i)" using s by simp
    have "unat (c_len input) = length xs" using c(1) by (simp add: cur_holds_def)
    then show ?thesis using False unfolding st_def p by (auto simp: c(2) cl not_less of_nat_diff)
  qed
  have ev: "aws_byte_cursor_next_split m e input ch prev =
     bind_res st (\<lambda>rest. case rest of
               None \<Rightarrow> Inr (False, zero_cursor)
             | Some substr \<Rightarrow>
                 bind_res (memchr m (c_ptr substr) ch (unat (c_len substr))) (\<lambda>new_location.
                   if new_location \<noteq> Null
                   then bind_res (ptr_sub new_location (c_ptr substr)) (\<lambda>d. Inr (True, substr\<lparr>c_len := d\<rparr>))
                   else Inr (True, substr)))"
    unfolding aws_byte_cursor_next_split_def st_def Let_def using c(2) by simp
  show ?thesis
  proof (cases "i \<le> length xs")
    case True
    have "holds m (ptr_add (Ptr b off) (length (take i xs))) (drop i xs)"
      using c(1,2) holds_append [of m "Ptr b off" "take i xs" "drop i xs"] by (simp add: cur_holds_def)
    then have h: "holds m (Ptr b (off + i)) (drop i xs)" using True by (simp add: min_absorb2)
    have "unat (word_of_nat (length xs - i) :: size_t) = length (drop i xs)" using lt by (simp add: unsigned_of_nat take_bit_nat_eq_self)
    note mc = memchr_ok [OF h this, of ch]
    have "up_to ch (drop i xs) = length xs - i" if "ch \<notin> set (drop i xs)"
      using that by (metis (mono_tags, lifting) length_drop takeWhile_eq_all_conv)
    then show ?thesis using True mc unfolding ev st by (auto simp: of_nat_diff)
  next
    case False
    then show ?thesis unfolding ev st by simp
  qed
qed

lemma split_loop_done:
  assumes "cur_holds m input xs" "c_ptr input = Ptr b off" "length xs < 2 ^ 64 - 1" "before (Ptr b off) i prev" "length xs < i" "fuel \<noteq> 0"
  shows "split_loop fuel m e input ch mx k prev out = (AWS_OP_SUCCESS, out)"
  using next_split_ok [OF assms(1-4), of e ch] assms(5,6) by (cases fuel) auto

lemma split_loop_ok:
  assumes c: "cur_holds m input xs" "c_ptr input = Ptr b off" "length xs < 2 ^ 64 - 1"
  shows "before (Ptr b off) i prev \<Longrightarrow> i \<le> length xs \<Longrightarrow> k \<le> mx \<Longrightarrow> unat k \<le> i \<Longrightarrow> length xs - i + 2 \<le> fuel \<Longrightarrow>
    al_wf out \<Longrightarrow> has_room out (length (split_upto (unat mx - unat k) ch (drop i xs))) \<Longrightarrow>
    \<exists>out'. split_loop fuel m e input ch mx k prev out = (AWS_OP_SUCCESS, out') \<and> al_wf out' \<and>
      al_items out' = al_items out @ map Item (part_cursors (Ptr b off) i (split_upto (unat mx - unat k) ch (drop i xs)))"
proof (induction fuel arbitrary: i k prev out)
  case (Suc fuel)
  let ?r = "drop i xs"
  let ?y = "up_to ch ?r"
  let ?s = "\<lparr>c_len = word_of_nat ?y, c_ptr = Ptr b (off + i)\<rparr>"
  have ns: "aws_byte_cursor_next_split m e input ch prev = Inr (True, ?s)"
    using next_split_ok [OF c Suc.prems(1), of e ch] Suc.prems(2) by simp
  have yl: "?y \<le> length xs - i" using length_takeWhile_le [of _ ?r] by simp
  have k1: "unat (k + 1) = unat k + 1" using Suc.prems(2,4) c(3) by (subst unat_add_exact) auto
  have push: "\<exists>out1. aws_array_list_push_back out s = (AWS_OP_SUCCESS, out1) \<and> al_wf out1 \<and> al_items out1 = al_items out @ [Item s] \<and> has_room out1 n"
    if "has_room out (Suc n)" for s n using al.push_law [OF Suc.prems(6) that] .
  have cl: "c_len input = word_of_nat (length xs)" using c(1) unfolding cur_holds_def by (metis of_nat_unat ucast_id)
  show ?case
  proof (cases "k = mx")
    case True
    let ?t = "\<lparr>c_len = word_of_nat (length xs - i), c_ptr = Ptr b (off + i)\<rparr>"
    have t: "bind_res (ptr_sub (c_ptr ?s) (c_ptr input)) (\<lambda>d. Inr (?s\<lparr>c_len := c_len input - d\<rparr>)) = Inr ?t"
      using c(2) cl Suc.prems(2) by (simp add: of_nat_diff)
    have sp: "split_upto (unat mx - unat k) ch ?r = [?r]" using True by simp
    obtain out1 where o: "aws_array_list_push_back out ?t = (AWS_OP_SUCCESS, out1)" "al_wf out1" "al_items out1 = al_items out @ [Item ?t]"
      using push [of 0 ?t] Suc.prems(7) unfolding sp by auto
    have "\<not> k + 1 \<le> mx" unfolding word_le_nat_alt k1 using True by simp
    then have "split_loop fuel m e input ch mx (k + 1) ?t out1 = (AWS_OP_SUCCESS, out1)" using Suc.prems(5) by (cases fuel) auto
    then have "split_loop (Suc fuel) m e input ch mx k prev out = (AWS_OP_SUCCESS, out1)"
      unfolding split_loop.simps ns using True t o(1) by simp
    then show ?thesis using o(2,3) unfolding sp by simp
  next
    case False
    then have km: "k < mx" using Suc.prems(3) by simp
    then obtain n where n: "unat mx - unat k = Suc n" "n = unat mx - unat (k + 1)" "k + 1 \<le> mx"
      using k1 by (auto simp: word_less_nat_alt word_le_nat_alt intro!: that [of "unat mx - unat k - 1"])
    have hr: "has_room out (Suc (if ch \<in> set ?r then length (split_upto n ch (tl (dropWhile (\<lambda>x. x \<noteq> ch) ?r))) else 0))"
      using Suc.prems(7) unfolding n(1) by (auto split: if_splits)
    obtain out1 where o: "aws_array_list_push_back out ?s = (AWS_OP_SUCCESS, out1)" "al_wf out1" "al_items out1 = al_items out @ [Item ?s]"
        "has_room out1 (if ch \<in> set ?r then length (split_upto n ch (tl (dropWhile (\<lambda>x. x \<noteq> ch) ?r))) else 0)"
      using push [OF hr, of ?s] by blast
    have ev: "split_loop (Suc fuel) m e input ch mx k prev out = split_loop fuel m e input ch mx (k + 1) ?s out1"
      unfolding split_loop.simps ns using False o(1) Suc.prems(3) by simp
    have uy: "unat (word_of_nat ?y :: size_t) = ?y" using yl c(3) by (simp add: unsigned_of_nat take_bit_nat_eq_self)
    have bf: "before (Ptr b off) (i + ?y + 1) ?s" unfolding before_def using uy yl c(3) by (intro disjI2 exI [of _ i]) simp
    show ?thesis
    proof (cases "ch \<in> set ?r")
      case True
      have dr: "tl (dropWhile (\<lambda>x. x \<noteq> ch) ?r) = drop (i + ?y + 1) xs"
        by (simp add: dropWhile_eq_drop drop_Suc tl_drop add.commute)
      have "length ?r = length (takeWhile (\<lambda>x. x \<noteq> ch) ?r @ ch # tl (dropWhile (\<lambda>x. x \<noteq> ch) ?r))"
        by (rule arg_cong [OF takeWhile_found [OF True]])
      then have il: "i + ?y + 1 \<le> length xs" using Suc.prems(2) unfolding length_append list.size length_drop by linarith
      have p: "unat (k + 1) \<le> i + ?y + 1" "length xs - (i + ?y + 1) + 2 \<le> fuel" using k1 Suc.prems(4,5) il by simp_all
      have "has_room out1 (length (split_upto (unat mx - unat (k + 1)) ch (drop (i + ?y + 1) xs)))"
        using o(4) True unfolding dr n(2) by simp
      from Suc.IH [OF bf il n(3) p o(2) this] show ?thesis
        unfolding ev n(1) using o(3) True by (simp add: dr n(2) [symmetric] word_of_nat_eq_iff)
    next
      case False
      then have yy: "?y = length xs - i" by (metis (mono_tags, lifting) length_drop takeWhile_eq_all_conv)
      have "split_loop fuel m e input ch mx (k + 1) ?s out1 = (AWS_OP_SUCCESS, out1)"
        by (rule split_loop_done [OF c bf]) (use yy Suc.prems(2,5) in auto)
      then show ?thesis unfolding ev n(1) using o(2,3) False yy by simp
    qed
  qed
qed simp

section \<open>Searching\<close>

lemma first_match_spec:
  "case first_match zs xs of None \<Rightarrow> \<forall>i. \<not> match_at zs xs i | Some i \<Rightarrow> match_at zs xs i \<and> (\<forall>j < i. \<not> match_at zs xs j)"
proof (induction zs xs rule: first_match.induct)
  case (1 zs)
  then show ?case by (simp add: match_at_def)
next
  case (2 zs x xs)
  have s: "match_at zs (x # xs) (Suc i) \<longleftrightarrow> match_at zs xs i" for i by (simp add: match_at_def)
  have z: "match_at zs (x # xs) 0 \<longleftrightarrow> take (length zs) (x # xs) = zs" by (simp add: match_at_def)
  have all: "(\<forall>i. P i) \<longleftrightarrow> P 0 \<and> (\<forall>i. P (Suc i))" for P by (metis not0_implies_Suc)
  have less: "(\<forall>j < Suc i. P j) \<longleftrightarrow> P 0 \<and> (\<forall>j < i. P (Suc j))" for P i by (rule All_less_Suc2)
  show ?case
  proof (cases "take (length zs) (x # xs) = zs")
    case True
    then show ?thesis using z by simp
  next
    case False
    then have ih: "case first_match zs xs of None \<Rightarrow> \<forall>i. \<not> match_at zs xs i | Some i \<Rightarrow> match_at zs xs i \<and> (\<forall>j < i. \<not> match_at zs xs j)"
      by (rule 2)
    show ?thesis
    proof (cases "first_match zs xs")
      case None
      then show ?thesis using ih False z all [of "\<lambda>i. \<not> match_at zs (x # xs) i"] s by simp
    next
      case (Some i)
      then show ?thesis using ih False z less [of i "\<lambda>j. \<not> match_at zs (x # xs) j"] s by simp
    qed
  qed
qed

lemma first_match_skip:
  assumes "zs = z # zs'" shows "\<forall>x \<in> set as. x \<noteq> z \<Longrightarrow> first_match zs (as @ xs) = map_option ((+) (length as)) (first_match zs xs)"
  by (induction as; cases "first_match zs xs") (auto simp: assms)

lemma first_match_short: "length xs < length zs \<Longrightarrow> first_match zs xs = None"
  by (induction xs) (auto dest: arg_cong [of _ _ length])

lemma advance_at:
  assumes "cur_holds m c xs" "length xs < 2 ^ 63" "i \<le> length xs" "c_ptr c \<noteq> Null"
  shows "snd (aws_byte_cursor_advance c (word_of_nat i)) = \<lparr>c_len = c_len c - word_of_nat i, c_ptr = ptr_add (c_ptr c) i\<rparr>"
    and "cur_holds m \<lparr>c_len = c_len c - word_of_nat i, c_ptr = ptr_add (c_ptr c) i\<rparr> (drop i xs)"
proof -
  have u: "unat (word_of_nat i :: size_t) = i" using assms(2,3) by (simp add: unsigned_of_nat take_bit_nat_eq_self)
  show e: "snd (aws_byte_cursor_advance c (word_of_nat i)) = \<lparr>c_len = c_len c - word_of_nat i, c_ptr = ptr_add (c_ptr c) i\<rparr>"
    using advance_ok(2) [OF assms(1,2), of "word_of_nat i"] assms(3,4) u by simp
  show "cur_holds m \<lparr>c_len = c_len c - word_of_nat i, c_ptr = ptr_add (c_ptr c) i\<rparr> (drop i xs)"
    using advance_ok(3) [OF assms(1,2), of "word_of_nat i"] assms(3,4) u e by simp
qed

lemma up_to_found: "c \<in> set xs \<Longrightarrow> up_to c xs < length xs"
  by (induction xs) auto

lemma ptr_add_Null: "ptr_add p i = Null \<longleftrightarrow> p = Null"
  by (cases p) auto

lemma ptr_sub_add: "p \<noteq> Null \<Longrightarrow> ptr_sub (ptr_add p i) p = Inr (word_of_nat i)"
  by (cases p) auto

lemma find_exact_loop_ok:
  assumes z: "cur_holds m tf zs" "zs \<noteq> []"
  shows "cur_holds m w xs \<Longrightarrow> length xs < 2 ^ 63 \<Longrightarrow> length xs < fuel \<Longrightarrow>
    find_exact_loop fuel m tf w = (case first_match zs xs of
        None \<Rightarrow> aws_raise_error AWS_ERROR_STRING_MATCH_NOT_FOUND
      | Some i \<Rightarrow> Inr \<lparr>c_len = c_len w - word_of_nat i, c_ptr = ptr_add (c_ptr w) i\<rparr>)"
proof (induction fuel arbitrary: w xs)
  case (Suc fuel)
  obtain z0 zs' where zs: "zs = z0 # zs'" using z(2) by (cases zs) auto
  have wl: "unat (c_len w) = length xs" and wh: "holds m (c_ptr w) xs" using Suc.prems(1) by (simp_all add: cur_holds_def)
  have th: "holds m (c_ptr tf) zs" and tl: "unat (c_len tf) = length zs" using z(1) by (simp_all add: cur_holds_def)
  show ?case
  proof (cases "xs = []")
    case True
    then have "c_len w = 0" using wl by (simp add: unat_eq_zero_iff)
    then show ?thesis using True z(2) by simp
  next
    case False
    then have w0: "c_len w \<noteq> 0" and wp: "c_ptr w \<noteq> Null" using wl wh by auto
    have f: "load_u8 m (c_ptr tf) 0 = Inr z0" using load_u8_holds [OF th, of 0] zs by simp
    note mc = memchr_ok [OF wh wl, of z0]
    show ?thesis
    proof (cases "z0 \<in> set xs")
      case nf: False
      then have "first_match zs xs = None" using first_match_skip [OF zs, of xs "[]"] z(2) by auto
      then show ?thesis using w0 f mc nf by simp
    next
      case True
      let ?j = "up_to z0 xs"
      have jl: "?j < length xs" by (rule up_to_found [OF True])
      have tw: "\<forall>x \<in> set (takeWhile (\<lambda>x. x \<noteq> z0) xs). x \<noteq> z0" by (auto dest: set_takeWhileD)
      have fm: "first_match zs xs = map_option ((+) ?j) (first_match zs (drop ?j xs))"
        using first_match_skip [OF zs tw, of "dropWhile (\<lambda>x. x \<noteq> z0) xs"] unfolding takeWhile_dropWhile_id by (simp only: dropWhile_eq_drop)
      have dj: "cur_holds m \<lparr>c_len = c_len w - word_of_nat ?j, c_ptr = ptr_add (c_ptr w) ?j\<rparr> (drop ?j xs)"
        "snd (aws_byte_cursor_advance w (word_of_nat ?j)) = \<lparr>c_len = c_len w - word_of_nat ?j, c_ptr = ptr_add (c_ptr w) ?j\<rparr>"
        using advance_at [OF Suc.prems(1,2), of ?j] jl wp by simp_all
      let ?w = "\<lparr>c_len = c_len w - word_of_nat ?j, c_ptr = ptr_add (c_ptr w) ?j\<rparr>" and ?ys = "drop ?j xs"
      have step: "find_exact_loop (Suc fuel) m tf w =
        (if c_len ?w < c_len tf then aws_raise_error AWS_ERROR_STRING_MATCH_NOT_FOUND
         else bind_res (memcmp m (c_ptr ?w) (c_ptr tf) (unat (c_len tf)))
           (\<lambda>r. if r = 0 then Inr ?w else find_exact_loop fuel m tf (snd (aws_byte_cursor_advance ?w 1))))"
        using w0 f mc True ptr_sub_add [OF wp, of ?j] wp by (simp add: Let_def ptr_add_Null dj(2) cong: if_cong)
      have wl': "unat (c_len ?w) = length ?ys" "holds m (c_ptr ?w) ?ys" using dj(1) by (simp_all only: cur_holds_def)
      show ?thesis
      proof (cases "length ?ys < length zs")
        case True
        then have "c_len ?w < c_len tf" unfolding word_less_nat_alt wl'(1) tl .
        then show ?thesis unfolding step fm using first_match_short [OF True] by simp
      next
        case False
        then have nl: "\<not> c_len ?w < c_len tf" unfolding word_less_nat_alt wl'(1) tl .
        have "holds m (c_ptr ?w) (take (length zs) ?ys)"
          using wl'(2) holds_append [of m "c_ptr ?w" "take (length zs) ?ys" "drop (length zs) ?ys"] unfolding append_take_drop_id by blast
        from memcmp_ok [OF this th] have cmp: "memcmp m (c_ptr ?w) (c_ptr tf) (unat (c_len tf)) = Inr (lex_sign (take (length zs) ?ys) zs)"
          using False tl by simp
        obtain y ys where y: "?ys = y # ys" using jl by (metis Cons_nth_drop_Suc)
        show ?thesis
        proof (cases "take (length zs) ?ys = zs")
          case True
          then have "first_match zs ?ys = Some 0" unfolding y by simp
          then show ?thesis unfolding step fm cmp using nl True lex_sign_zero [of zs zs] by simp
        next
          case False
          then have fy: "first_match zs ?ys = map_option Suc (first_match zs ys)" unfolding y by (simp only: first_match.simps if_False)
          have l: "length ?ys < 2 ^ 63" "1 \<le> length ?ys" "c_ptr ?w \<noteq> Null" using Suc.prems(2) jl wp by (auto simp: ptr_add_Null)
          have ys: "drop 1 ?ys = ys" "length ys < 2 ^ 63" "length ys < fuel" using Suc.prems(2,3) arg_cong [OF y, of length] y unfolding length_drop by auto
          note a = advance_at [OF dj(1) l]
          note ih = Suc.IH [OF a(2) [unfolded ys(1)] ys(2,3)]
          show ?thesis unfolding step fm cmp fy using nl False lex_sign_zero [of "take (length zs) ?ys" zs] a(1) ih
            by (cases "first_match zs ys") (simp_all add: diff_diff_eq add.commute)
        qed
      qed
    qed
  qed
qed simp

section \<open>Numbers\<close>

lemma hex_table_nth:
  assumes "k < 256"
  shows "s_hex_to_num_table ! k = (if 48 \<le> k \<and> k \<le> 57 then word_of_nat (k - 48) else if 65 \<le> k \<and> k \<le> 70 then word_of_nat (k - 55)
      else if 97 \<le> k \<and> k \<le> 102 then word_of_nat (k - 87) else 255)"
proof -
  have d: "[0, 1, 2, 3, 4, 5, 6, 7, 8, 9] = map (\<lambda>i. word_of_nat i :: u8) [0..<10]" by code_simp
  have x: "[0xA, 0xB, 0xC, 0xD, 0xE, 0xF] = map (\<lambda>i. word_of_nat (i + 10) :: u8) [0..<6]" by code_simp
  show ?thesis unfolding s_hex_to_num_table_def d x using assms
    by (auto simp: nth_append simp del: upt_rec_numeral upt_Suc of_nat_add)
qed

lemma hex_to_num_eq:
  "hex_to_num c = (if 48 \<le> c \<and> c \<le> 57 then c - 48 else if 65 \<le> c \<and> c \<le> 70 then c - 55 else if 97 \<le> c \<and> c \<le> 102 then c - 87 else 255)"
proof -
  have n: "unat c < 256" using unsigned_less [of c] by simp
  have sub: "c - word_of_nat k = word_of_nat (unat c - k)" if "k \<le> unat c" for k using that by (simp add: of_nat_diff)
  show ?thesis unfolding hex_to_num_def hex_table_nth [OF n] using sub [of 48] sub [of 55] sub [of 87] by (auto simp: word_le_nat_alt)
qed

lemma hex_digit: "hex_to_num ch < 10 \<longleftrightarrow> aws_isdigit ch" "hex_to_num ch < 16 \<longleftrightarrow> aws_isxdigit ch"
proof -
  have n: "unat ch < 256" using unsigned_less [of ch] by simp
  have u: "unat (ch - 48) = unat ch - 48" if "48 \<le> unat ch" using that by (simp add: unat_sub_exact word_le_nat_alt)
  have v: "unat (ch - 55) = unat ch - 55" if "55 \<le> unat ch" using that by (simp add: unat_sub_exact word_le_nat_alt)
  have w: "unat (ch - 87) = unat ch - 87" if "87 \<le> unat ch" using that by (simp add: unat_sub_exact word_le_nat_alt)
  show "hex_to_num ch < 10 \<longleftrightarrow> aws_isdigit ch" "hex_to_num ch < 16 \<longleftrightarrow> aws_isxdigit ch"
    unfolding hex_to_num_def hex_table_nth [OF n] aws_isdigit_def aws_isxdigit_def word_less_nat_alt word_le_nat_alt using n by (auto simp: u v w)
qed

lemma hex_digit_value: "aws_isdigit ch \<Longrightarrow> unat (hex_to_num ch) = unat ch - 48"
  by (simp add: hex_to_num_eq aws_isdigit_def unat_sub_exact)

lemma unat_ucast_u8 [simp]: "unat (ucast (x :: u8) :: u64) = unat x"
proof -
  have "unat x < 256" using unsigned_less [of x] by simp
  then show ?thesis by (simp add: unsigned_ucast_eq take_bit_nat_eq_self)
qed

lemma digits_value_simps [simp]:
  "digits_value b v [] = v" "digits_value b v (c # cs) = digits_value b (v * b + unat (hex_to_num c)) cs"
  by (simp_all add: digits_value_def)

lemma digits_value_ge: "1 \<le> b \<Longrightarrow> v \<le> digits_value b v cs"
proof (induction cs arbitrary: v)
  case (Cons c cs)
  have "v \<le> v * b" using Cons.prems by (cases b) auto
  then show ?case using Cons.IH [OF Cons.prems, of "v * b + unat (hex_to_num c)"] unfolding digits_value_simps by linarith
qed simp

lemma mul_u64_eq: "aws_mul_u64_checked a b = (if unat a * unat b < 2 ^ 64 then Inr (a * b) else aws_raise_error AWS_ERROR_OVERFLOW_DETECTED)"
  using aws_mul_size_checked_eq [of a b] by (simp add: aws_mul_size_checked_def)

lemma add_u64_eq: "aws_add_u64_checked a b = (if unat a + unat b < 2 ^ 64 then Inr (a + b) else aws_raise_error AWS_ERROR_OVERFLOW_DETECTED)"
  using aws_add_size_checked_eq [of a b] by (simp add: aws_add_size_checked_def)

lemma read_unsigned_loop_ok:
  assumes "holds m p xs" "1 \<le> unat base"
  shows "length xs = i + n \<Longrightarrow> read_unsigned_loop m p i n base val =
    (let ds = takeWhile (\<lambda>c. hex_to_num c < base) (drop i xs); v = digits_value (unat base) (unat val) ds
     in if 2 ^ 64 \<le> v then aws_raise_error AWS_ERROR_OVERFLOW_DETECTED
        else if ds \<noteq> drop i xs then aws_raise_error AWS_ERROR_INVALID_ARGUMENT else Inr (word_of_nat v))"
proof (induction n arbitrary: i val)
  case 0
  then show ?case using unat_size_lt [of val] by (simp add: Let_def not_le)
next
  case (Suc n)
  have c: "load_u8 m p i = Inr (xs ! i)" using load_u8_holds [OF assms(1)] Suc.prems by simp
  have dr: "drop i xs = xs ! i # drop (i + 1) xs" using Suc.prems by (simp add: Cons_nth_drop_Suc)
  let ?d = "hex_to_num (xs ! i)" and ?b = "ucast base :: u64"
  have u: "unat ?b = unat base" "unat (ucast ?d :: u64) = unat ?d" by simp_all
  show ?case
  proof (cases "?d < base")
    case False
    then show ?thesis using c by (simp add: dr Let_def not_le)
  next
    case True
    let ?w = "unat val * unat base + unat ?d"
    show ?thesis
    proof (cases "?w < 2 ^ 64")
      case small: True
      have m: "aws_mul_u64_checked val ?b = Inr (val * ?b)" "unat (val * ?b) = unat val * unat base"
        using small u unat_mul_exact [of val ?b] by (simp_all add: mul_u64_eq)
      have a: "aws_add_u64_checked (val * ?b) (ucast ?d) = Inr (val * ?b + ucast ?d)" "unat (val * ?b + ucast ?d) = ?w"
        using small u m(2) unat_add_exact [of "val * ?b" "ucast ?d"] by (simp_all add: add_u64_eq)
      show ?thesis using c m(1) a True Suc.IH [of "i + 1" "val * ?b + ucast ?d"] Suc.prems by (simp add: dr Let_def not_le)
    next
      case False
      have "2 ^ 64 \<le> digits_value (unat base) ?w ds" for ds using digits_value_ge [OF assms(2), of ?w ds] False by linarith
      moreover have "(case aws_mul_u64_checked val ?b of Inl e \<Rightarrow> aws_raise_error AWS_ERROR_OVERFLOW_DETECTED
          | Inr v \<Rightarrow> (case aws_add_u64_checked v (ucast ?d) of Inl e \<Rightarrow> aws_raise_error AWS_ERROR_OVERFLOW_DETECTED | Inr v \<Rightarrow> f v))
        = aws_raise_error AWS_ERROR_OVERFLOW_DETECTED" for f :: "u64 \<Rightarrow> u64 res"
        using False u unat_mul_exact [of val ?b] by (auto simp: mul_u64_eq add_u64_eq)
      ultimately show ?thesis using c True by (simp add: dr Let_def not_le)
    qed
  qed
qed

section \<open>Trimming and ordering\<close>

lemma right_trim_loop_ok:
  "holds m p xs \<Longrightarrow> n = length xs \<Longrightarrow> right_trim_loop m pred p n = Inr (length (rev (dropWhile pred (rev xs))))"
proof (induction n arbitrary: xs)
  case (Suc n)
  then obtain ys y where y: "xs = ys @ [y]" by (metis length_Suc_conv_rev)
  have "holds m p ys" using Suc.prems(1) by (simp add: y holds_append)
  moreover have "load_u8 m p n = Inr y" using load_u8_holds [OF Suc.prems(1), of n] Suc.prems(2) by (simp add: y)
  ultimately show ?case using Suc.IH [of ys] Suc.prems(2) by (simp add: y)
qed simp

lemma left_trim_loop_ok:
  "holds m p xs \<Longrightarrow> n = length xs \<Longrightarrow>
   left_trim_loop m pred p n = Inr (ptr_add p (length (takeWhile pred xs)), length (dropWhile pred xs))"
proof (induction n arbitrary: p xs)
  case (Suc n)
  then obtain y ys where y: "xs = y # ys" by (cases xs) auto
  have h: "holds m p [y]" "holds m (ptr_add p 1) ys" using Suc.prems(1) holds_Cons [of m p y ys] by (simp_all only: y)
  have "load_u8 m p 0 = Inr y" using load_u8_holds [OF h(1), of 0] by simp
  then show ?case using Suc.IH [OF h(2)] Suc.prems(2) by (simp add: y)
qed simp

lemma left_trim_ok:
  assumes "cur_holds m c xs"
  obtains c' where "aws_byte_cursor_left_trim_pred m c pred = Inr c'" "cur_holds m c' (dropWhile pred xs)"
    "c_ptr c' = ptr_add (c_ptr c) (length (takeWhile pred xs))"
proof -
  have l: "unat (c_len c) = length xs" "holds m (c_ptr c) xs" using assms by (simp_all add: cur_holds_def)
  have "holds m (ptr_add (c_ptr c) (length (takeWhile pred xs))) (dropWhile pred xs)"
    using l(2) holds_append [of m "c_ptr c" "takeWhile pred xs" "dropWhile pred xs"] by simp
  moreover have "length (dropWhile pred xs) < 2 ^ 64" using l(1) unat_size_lt [of "c_len c"] length_dropWhile_le [of pred xs] by simp
  ultimately show thesis
    using left_trim_loop_ok [OF l(2,1), of pred]
    by (intro that [of "\<lparr>c_len = word_of_nat (length (dropWhile pred xs)), c_ptr = ptr_add (c_ptr c) (length (takeWhile pred xs))\<rparr>"])
      (simp_all add: aws_byte_cursor_left_trim_pred_def cur_holds_def unsigned_of_nat take_bit_nat_eq_self)
qed

lemma right_trim_ok:
  assumes "cur_holds m c xs"
  obtains c' where "aws_byte_cursor_right_trim_pred m c pred = Inr c'" "cur_holds m c' (rev (dropWhile pred (rev xs)))" "c_ptr c' = c_ptr c"
proof -
  have l: "unat (c_len c) = length xs" "holds m (c_ptr c) xs" using assms by (simp_all add: cur_holds_def)
  let ?r = "rev (dropWhile pred (rev xs))"
  have "xs = ?r @ rev (takeWhile pred (rev xs))" by (metis rev_append rev_rev_ident takeWhile_dropWhile_id)
  then have "holds m (c_ptr c) ?r" using l(2) holds_append [of m "c_ptr c" ?r "rev (takeWhile pred (rev xs))"] by simp
  moreover have "length ?r < 2 ^ 64" using l(1) unat_size_lt [of "c_len c"] length_dropWhile_le [of pred "rev xs"] by simp
  ultimately show thesis
    using right_trim_loop_ok [OF l(2,1), of pred]
    by (intro that [of "c\<lparr>c_len := word_of_nat (length ?r)\<rparr>"])
      (simp_all add: aws_byte_cursor_right_trim_pred_def cur_holds_def unsigned_of_nat take_bit_nat_eq_self)
qed

lemma lex_sign_take:
  "lex_sign xs ys = (let n = min (length xs) (length ys); r = lex_sign (take n xs) (take n ys)
     in if r \<noteq> 0 then r else if length xs \<noteq> length ys then (if n = length xs then - 1 else 1) else 0)"
  by (induction xs ys rule: lex_sign.induct) (auto simp: Let_def)

lemma compare_lexical_ok:
  assumes "cur_holds m a xs" "cur_holds m b ys"
  shows "aws_byte_cursor_compare_lexical m a b = Inr (lex_sign xs ys)"
proof -
  have l: "unat (c_len a) = length xs" "holds m (c_ptr a) xs" "unat (c_len b) = length ys" "holds m (c_ptr b) ys"
    using assms by (simp_all add: cur_holds_def)
  let ?c = "if c_len a > c_len b then c_len b else c_len a" and ?n = "min (length xs) (length ys)"
  have c: "unat ?c = ?n" using l by (simp add: word_less_nat_alt)
  have "holds m (c_ptr a) (take ?n xs)" "holds m (c_ptr b) (take ?n ys)"
    using l(2,4) holds_append [of m "c_ptr a" "take ?n xs" "drop ?n xs"] holds_append [of m "c_ptr b" "take ?n ys" "drop ?n ys"]
    unfolding append_take_drop_id by blast+
  from memcmp_ok [OF this, of ?n] have "memcmp m (c_ptr a) (c_ptr b) (unat ?c) = Inr (lex_sign (take ?n xs) (take ?n ys))" unfolding c by simp
  moreover have "c_len a = c_len b \<longleftrightarrow> length xs = length ys" "?c = c_len a \<longleftrightarrow> ?n = length xs"
    unfolding word_unat_eq_iff c l by simp_all
  ultimately show ?thesis unfolding aws_byte_cursor_compare_lexical_def lex_sign_take [of xs ys] Let_def by simp
qed

lemma compare_lookup_loop_ok:
  "holds m p xs \<Longrightarrow> holds m q ys \<Longrightarrow> n = length xs \<Longrightarrow> k = length ys \<Longrightarrow>
   compare_lookup_loop m f p n q k = Inr (lex_sign (map f xs) (map f ys))"
proof (induction m f p n q k arbitrary: xs ys rule: compare_lookup_loop.induct)
  case (1 m f p n q k)
  obtain x xs' y ys' where e: "xs = x # xs'" "ys = y # ys'" using 1(4,5) by (metis length_Suc_conv)
  have h: "holds m p [x]" "holds m (ptr_add p 1) xs'" "holds m q [y]" "holds m (ptr_add q 1) ys'"
    using 1(2,3) holds_Cons [of m p x xs'] holds_Cons [of m q y ys'] by (simp_all only: e)
  have "load_u8 m p 0 = Inr x" "load_u8 m q 0 = Inr y" using load_u8_holds [OF h(1), of 0] load_u8_holds [OF h(3), of 0] by simp_all
  then show ?case using 1(1) [OF _ _ _ _ h(2,4)] 1(4,5) by (auto simp: e Let_def)
next
  case (2 m f p n q)
  then show ?case by (cases xs) auto
next
  case (3 m f p q k)
  then show ?case by (cases ys) auto
qed simp

lemma compare_lookup_ok:
  assumes "cur_holds m a xs" "cur_holds m b ys"
  shows "aws_byte_cursor_compare_lookup m a b f = Inr (lex_sign (map f xs) (map f ys))"
proof -
  have l: "unat (c_len a) = length xs" "holds m (c_ptr a) xs" "unat (c_len b) = length ys" "holds m (c_ptr b) ys"
    using assms by (simp_all add: cur_holds_def)
  have z: "c_len a = 0 \<longleftrightarrow> xs = []" "c_len b = 0 \<longleftrightarrow> ys = []" using l by (metis length_0_conv unat_eq_zero_iff)+
  show ?thesis using compare_lookup_loop_ok [OF l(2,4,1,3), of f] z
    by (cases xs; cases ys) (auto simp: aws_byte_cursor_compare_lookup_def)
qed

lemma lex_sign_swap: "lex_sign ys xs = - lex_sign xs ys"
  by (induction xs ys rule: lex_sign.induct) auto

lemma lex_sign_trans: "lex_sign xs ys \<le> 0 \<Longrightarrow> lex_sign ys zs \<le> 0 \<Longrightarrow> lex_sign xs zs \<le> 0"
proof (induction xs ys arbitrary: zs rule: lex_sign.induct)
  case (1 x xs y ys)
  then show ?case by (cases zs) (auto split: if_splits)
next
  case 2
  then show ?case by simp
next
  case (3 y ys)
  then show ?case by (cases zs) auto
next
  case (4 x xs)
  then show ?case by simp
qed

lemma split_upto_length: "length (split_upto n c xs) \<le> length xs + 1"
proof (induction n arbitrary: xs)
  case (Suc n)
  let ?r = "tl (dropWhile (\<lambda>x. x \<noteq> c) xs)"
  show ?case
  proof (cases "c \<in> set xs")
    case True
    have "length xs = length (takeWhile (\<lambda>x. x \<noteq> c) xs @ c # ?r)" by (rule arg_cong [OF takeWhile_found [OF True]])
    then show ?thesis using Suc.IH [of ?r] True by simp
  qed simp
qed simp

section \<open>Properties\<close>

text \<open>
  The mask is all ones exactly when the index is below a bound of at most \<open>SIZE_MAX / 2\<close>, and zero otherwise;
  \<open>aws_byte_cursor_advance_nospec\<close> then behaves as \<open>aws_byte_cursor_advance\<close> for every cursor whose length is not
  exactly \<open>SIZE_MAX / 2\<close>.  At that length every advance the plain function performs is refused and clears the cursor.
\<close>

theorem advance_nospec_agrees:
  "aws_nospec_mask index bound = (if index < bound \<and> bound \<le> 0x7FFFFFFFFFFFFFFF then SIZE_MAX else 0) \<and>
   (c_len cursor \<noteq> 0x7FFFFFFFFFFFFFFF \<longrightarrow> aws_byte_cursor_advance_nospec cursor len = Inr (aws_byte_cursor_advance cursor len)) \<and>
   (c_len cursor = 0x7FFFFFFFFFFFFFFF \<and> len \<le> c_len cursor \<longrightarrow>
     aws_byte_cursor_advance_nospec cursor len = Inr (zero_cursor, zero_cursor) \<and>
     fst (aws_byte_cursor_advance cursor len) = \<lparr>c_len = len, c_ptr = c_ptr cursor\<rparr>)"
  using nospec_mask_eq [of index bound] advance_nospec_eq [of cursor len] advance_nospec_half [of cursor len]
  by (auto simp: aws_byte_cursor_advance_def not_less)

theorem advance_nospec_agrees_witness:
  "aws_byte_cursor_advance_nospec \<lparr>c_len = 5, c_ptr = Ptr 0 0\<rparr> 3 = Inr (\<lparr>c_len = 3, c_ptr = Ptr 0 0\<rparr>, \<lparr>c_len = 2, c_ptr = Ptr 0 3\<rparr>) \<and>
   aws_byte_cursor_advance_nospec \<lparr>c_len = 0x7FFFFFFFFFFFFFFF, c_ptr = Ptr 0 0\<rparr> 3 = Inr (zero_cursor, zero_cursor)"
  using advance_nospec_agrees [of 0 0 "\<lparr>c_len = 5, c_ptr = Ptr 0 0\<rparr>" 3] advance_nospec_agrees [of 0 0 "\<lparr>c_len = 0x7FFFFFFFFFFFFFFF, c_ptr = Ptr 0 0\<rparr>" 3]
  by (simp add: aws_byte_cursor_advance_def)

text \<open>
  (C21) On a host of either byte order, each network order writer appends the bytes of its argument with the most significant first
  and touches no other allocation, and the reader of the same width, on a cursor that starts with those bytes, leaves the object
  representation of the value in its output and the cursor behind the bytes: for 16, 24, 32 and 64 bits and for the storage of
  \<open>float\<close> and \<open>double\<close>.
\<close>

theorem network_order_round_trip:
  assumes "y \<le> 0x00FFFFFF" "length f = 4" "length d = 8"
  shows "writes (\<lambda>m buf. aws_byte_buf_write_be16 big m buf x) (be_bytes 2 x) \<and> reads_back (aws_byte_cursor_read_be16 big) (be_bytes 2 x) (host_bytes big 2 x) \<and>
    writes (\<lambda>m buf. aws_byte_buf_write_be24 big m buf y) (be_bytes 3 y) \<and> reads_back (aws_byte_cursor_read_be24 big) (be_bytes 3 y) (host_bytes big 4 y) \<and>
    writes (\<lambda>m buf. aws_byte_buf_write_be32 big m buf z) (be_bytes 4 z) \<and> reads_back (aws_byte_cursor_read_be32 big) (be_bytes 4 z) (host_bytes big 4 z) \<and>
    writes (\<lambda>m buf. aws_byte_buf_write_be64 big m buf w) (be_bytes 8 w) \<and> reads_back (aws_byte_cursor_read_be64 big) (be_bytes 8 w) (host_bytes big 8 w) \<and>
    writes (\<lambda>m buf. aws_byte_buf_write_float_be32 big m buf f) (if big then f else rev f) \<and>
    reads_back (aws_byte_cursor_read_float_be32 big) (if big then f else rev f) f \<and>
    writes (\<lambda>m buf. aws_byte_buf_write_float_be64 big m buf d) (if big then d else rev d) \<and>
    reads_back (aws_byte_cursor_read_float_be64 big) (if big then d else rev d) d"
proof (intro conjI)
  have ne: "f \<noteq> []" "d \<noteq> []" using assms by auto
  have f: "aws_htonf32 big f = (if big then f else rev f)" "aws_htonf32 big (if big then f else rev f) = f"
    using assms(2) by (auto simp: aws_htonf32_def numeral_eq_Suc length_Suc_conv)
  have d: "aws_htonf64 big d = (if big then d else rev d)" "aws_htonf64 big (if big then d else rev d) = d"
    using assms(3) by (auto simp: aws_htonf64_def numeral_eq_Suc length_Suc_conv)
  show "writes (\<lambda>m buf. aws_byte_buf_write_be16 big m buf x) (be_bytes 2 x)"
    using writes_be [of 2 2 big x] by (simp add: aws_byte_buf_write_be16_def Let_def aws_hton16_def)
  show "reads_back (aws_byte_cursor_read_be16 big) (be_bytes 2 x) (host_bytes big 2 x)"
    using reads_back_be [of 2 2 big x] by (simp add: aws_byte_cursor_read_be16_def [abs_def] aws_ntoh16_def)
  show "writes (\<lambda>m buf. aws_byte_buf_write_be24 big m buf y) (be_bytes 3 y)" by (rule writes_be24 [OF assms(1)])
  show "reads_back (aws_byte_cursor_read_be24 big) (be_bytes 3 y) (host_bytes big 4 y)" by (rule reads_back_be24 [OF assms(1)])
  show "writes (\<lambda>m buf. aws_byte_buf_write_be32 big m buf z) (be_bytes 4 z)"
    using writes_be [of 4 4 big z] by (simp add: aws_byte_buf_write_be32_def Let_def aws_hton32_def)
  show "reads_back (aws_byte_cursor_read_be32 big) (be_bytes 4 z) (host_bytes big 4 z)"
    using reads_back_be [of 4 4 big z] by (simp add: aws_byte_cursor_read_be32_def [abs_def] aws_ntoh32_def)
  show "writes (\<lambda>m buf. aws_byte_buf_write_be64 big m buf w) (be_bytes 8 w)"
    using writes_be [of 8 8 big w] by (simp add: aws_byte_buf_write_be64_def Let_def aws_hton64_eq)
  show "reads_back (aws_byte_cursor_read_be64 big) (be_bytes 8 w) (host_bytes big 8 w)"
    using reads_back_be [of 8 8 big w] by (simp add: aws_byte_cursor_read_be64_def [abs_def] aws_ntoh64_def aws_hton64_eq)
  show "writes (\<lambda>m buf. aws_byte_buf_write_float_be32 big m buf f) (if big then f else rev f)"
    using writes_local [of 4 "if big then f else rev f" "if big then f else rev f" "[]"] assms(2)
    by (simp add: aws_byte_buf_write_float_be32_def Let_def f)
  show "reads_back (aws_byte_cursor_read_float_be32 big) (if big then f else rev f) f"
    using reads_back_convert [of 4 "if big then f else rev f" "aws_htonf32 big"] assms(2) ne
    by (auto simp: aws_byte_cursor_read_float_be32_def [abs_def] aws_ntohf32_def [abs_def] f split: if_splits)
  show "writes (\<lambda>m buf. aws_byte_buf_write_float_be64 big m buf d) (if big then d else rev d)"
    using writes_local [of 8 "if big then d else rev d" "if big then d else rev d" "[]"] assms(3)
    by (simp add: aws_byte_buf_write_float_be64_def Let_def d)
  show "reads_back (aws_byte_cursor_read_float_be64 big) (if big then d else rev d) d"
    using reads_back_convert [of 8 "if big then d else rev d" "aws_htonf64 big"] assms(3) ne
    by (auto simp: aws_byte_cursor_read_float_be64_def [abs_def] aws_ntohf64_def [abs_def] d split: if_splits)
qed

theorem network_order_round_trip_witness:
  "writes (\<lambda>m buf. aws_byte_buf_write_be24 False m buf 0xAABBCC) [0xAA, 0xBB, 0xCC] \<and>
   reads_back (aws_byte_cursor_read_be24 False) [0xAA, 0xBB, 0xCC] [0xCC, 0xBB, 0xAA, 0]"
proof -
  have b: "be_bytes 3 (0xAABBCC :: u32) = [0xAA, 0xBB, 0xCC]" "host_bytes False 4 (0xAABBCC :: u32) = [0xCC, 0xBB, 0xAA, 0]" by code_simp+
  show ?thesis using network_order_round_trip [of "0xAABBCC" "[1, 2, 3, 4]" "[1, 2, 3, 4, 5, 6, 7, 8]" False] unfolding b by simp
qed

text \<open>
  (C20) Splitting a readable string at a byte, with \<open>n\<close> splits at most or without limit for 0, terminates and pushes, in order, one
  cursor per part: the parts joined with the byte give the string, no part but possibly the last contains the byte, the last one only
  when all \<open>n\<close> splits were used, and the cursors point to the places of the parts in the string.
\<close>

theorem split_on_char_correct:
  assumes "cur_holds m input xs" "c_ptr input \<noteq> Null" "length xs < 2 ^ 64 - 1" "al_wf out" "has_room out (length xs + 1)"
  shows "\<exists>out' parts. aws_byte_cursor_split_on_char_n m empty_str input ch n out = (AWS_OP_SUCCESS, out') \<and> al_wf out' \<and>
    al_items out' = al_items out @ map Item (part_cursors (c_ptr input) 0 parts) \<and>
    list_all2 (cur_holds m) (part_cursors (c_ptr input) 0 parts) parts \<and>
    join_with ch parts = xs \<and> (\<forall>ys \<in> set (butlast parts). ch \<notin> set ys) \<and>
    (n \<noteq> 0 \<longrightarrow> length parts \<le> unat n + 1) \<and> (n = 0 \<or> length parts < unat n + 1 \<longrightarrow> ch \<notin> set (last parts))"
proof -
  obtain b off where p: "c_ptr input = Ptr b off" using assms(2) by (cases "c_ptr input") auto
  let ?mx = "if n > 0 then n else SIZE_MAX"
  let ?parts = "split_upto (unat ?mx) ch xs"
  note sp = split_upto_spec [of ch "unat ?mx" xs]
  have pl: "length ?parts \<le> length xs + 1" by (rule split_upto_length)
  then have "has_room out (length ?parts)" using assms(5) room_mono by blast
  then obtain out' where o: "split_loop (length xs + 2) m empty_str input ch ?mx 0 zero_cursor out = (AWS_OP_SUCCESS, out')" "al_wf out'"
    "al_items out' = al_items out @ map Item (part_cursors (Ptr b off) 0 ?parts)"
    using split_loop_ok [OF assms(1) p assms(3), of 0 zero_cursor 0 ?mx "length xs + 2" out ch empty_str] assms(4) by (auto simp: before_def)
  have "unat (c_len input) = length xs" "holds m (Ptr b off) xs" using assms(1) p by (simp_all add: cur_holds_def)
  moreover have "list_all2 (cur_holds m) (part_cursors (Ptr b off) 0 ?parts) ?parts"
    using part_cursors_hold [of m "Ptr b off" 0 ch ?parts] sp assms(3) calculation(2) by simp
  ultimately show ?thesis
    using o sp pl assms(3) unfolding aws_byte_cursor_split_on_char_n_def Let_def p by (intro exI [of _ out'] exI [of _ ?parts]) (auto simp: word_gt_0)
qed

lemma text_cursor_holds:
  assumes "length as < 2 ^ 64" "length bs < 2 ^ 64"
  shows "cur_holds (text_memory as bs) (text_cursor 0 as) as" "cur_holds (text_memory as bs) (text_cursor 1 bs) bs"
  using assms by (simp_all add: cur_holds_def text_cursor_def holds_def text_memory_def unsigned_of_nat take_bit_nat_eq_self)

theorem split_on_char_correct_witness:
  "\<exists>out' parts. aws_byte_cursor_split_on_char_n (text_memory [65, 38, 66, 38] []) Null (text_cursor 0 [65, 38, 66, 38]) 38 0
       (snd (aws_array_list_init_dynamic (Some 0) 2 16)) = (AWS_OP_SUCCESS, out') \<and> join_with 38 parts = [65, 38, 66, 38] \<and> 38 \<notin> set (last parts)"
proof -
  let ?l = "snd (aws_array_list_init_dynamic (Some 0) 2 16) :: byte_cursor array_list"
  have l: "al_wf ?l" "al_length ?l = 0" "al_item_size ?l = 16" "al_alloc ?l = Some 0" by code_simp+
  then have r: "has_room ?l (length [65, 38, 66, 38 :: u8] + 1)" by (simp add: has_room_def)
  have "c_ptr (text_cursor 0 [65, 38, 66, 38]) \<noteq> Null" by (simp add: text_cursor_def)
  from split_on_char_correct [OF text_cursor_holds(1) [of "[65, 38, 66, 38]" "[]"] this _ l(1) r, of Null 38 0] show ?thesis by auto
qed

text \<open>
  (C19) \<open>aws_byte_cursor_find_exact\<close> terminates on readable strings shorter than \<open>SIZE_MAX / 2\<close> and returns the rest of the input from
  the first occurrence on; without an occurrence it raises the match-not-found error, and for an empty needle the short-buffer error.
\<close>

theorem find_exact_correct:
  assumes "cur_holds m input xs" "cur_holds m to_find zs" "length xs < 2 ^ 63"
  shows "(zs = [] \<longrightarrow> aws_byte_cursor_find_exact m input to_find = aws_raise_error AWS_ERROR_SHORT_BUFFER) \<and>
    (zs \<noteq> [] \<and> (\<forall>i. \<not> match_at zs xs i) \<longrightarrow> aws_byte_cursor_find_exact m input to_find = aws_raise_error AWS_ERROR_STRING_MATCH_NOT_FOUND) \<and>
    (zs \<noteq> [] \<and> match_at zs xs i \<and> (\<forall>j < i. \<not> match_at zs xs j) \<longrightarrow>
      aws_byte_cursor_find_exact m input to_find = Inr \<lparr>c_len = word_of_nat (length xs - i), c_ptr = ptr_add (c_ptr input) i\<rparr>)"
proof (cases "zs = []")
  case True
  then have "c_len to_find = 0" using assms(2) by (simp add: cur_holds_def unat_eq_zero_iff)
  then show ?thesis using True by (simp add: aws_byte_cursor_find_exact_def)
next
  case False
  have l: "unat (c_len input) = length xs" "unat (c_len to_find) = length zs" using assms(1,2) by (simp_all add: cur_holds_def)
  have ev: "aws_byte_cursor_find_exact m input to_find = (case first_match zs xs of
        None \<Rightarrow> aws_raise_error AWS_ERROR_STRING_MATCH_NOT_FOUND
      | Some i \<Rightarrow> Inr \<lparr>c_len = c_len input - word_of_nat i, c_ptr = ptr_add (c_ptr input) i\<rparr>)"
  proof (cases "length xs < length zs")
    case True
    then show ?thesis using l first_match_short [OF True] by (simp add: aws_byte_cursor_find_exact_def word_less_nat_alt)
  next
    case nl: False
    have "\<not> c_len to_find < 1" using False l(2) by (simp add: word_less_nat_alt)
    then show ?thesis using find_exact_loop_ok [OF assms(2) False assms(1,3), of "unat (c_len input) + 1"] nl l
      by (simp add: aws_byte_cursor_find_exact_def word_less_nat_alt)
  qed
  have sub: "c_len input - word_of_nat i = word_of_nat (length xs - i)" if "i \<le> length xs" for i
    using that l(1) by (metis of_nat_diff of_nat_unat ucast_id)
  have le: "i \<le> length xs" if "match_at zs xs i" for i
    using that False by (auto simp: match_at_def) (metis drop_all nle_le take_Nil)
  have uniq: "i = j" if "match_at zs xs i" "\<forall>k < i. \<not> match_at zs xs k" "match_at zs xs j" "\<forall>k < j. \<not> match_at zs xs k" for i j
    using that by (metis linorder_neqE_nat)
  show ?thesis
  proof (cases "first_match zs xs")
    case None
    then show ?thesis using ev first_match_spec [of zs xs] False by auto
  next
    case (Some k)
    then have "match_at zs xs k" "\<forall>j < k. \<not> match_at zs xs j" using first_match_spec [of zs xs] by auto
    then show ?thesis using ev Some False sub [OF le] uniq by auto
  qed
qed

theorem find_exact_correct_witness:
  "aws_byte_cursor_find_exact (text_memory [97, 97, 98, 99] [97, 98]) (text_cursor 0 [97, 97, 98, 99]) (text_cursor 1 [97, 98]) =
     Inr \<lparr>c_len = 3, c_ptr = Ptr 0 1\<rparr>"
proof -
  have m: "match_at [97, 98] [97, 97, 98, 99] 1" "\<forall>j < 1. \<not> match_at [97, 98] [97, 97, 98, 99] j" by (simp_all add: match_at_def)
  show ?thesis
    using find_exact_correct [OF text_cursor_holds(1) [of "[97, 97, 98, 99]" "[97, 98]"] text_cursor_holds(2) [of "[97, 97, 98, 99]" "[97, 98]"], of 1] m
    by (simp add: text_cursor_def)
qed



text \<open>
  \<open>aws_byte_cursor_compare_lexical\<close> is a total order on the bytes of readable cursors: it is zero exactly on equal bytes,
  changes sign when the arguments are exchanged and is transitive, a proper prefix being smaller; \<open>aws_byte_cursor_compare_lookup\<close> is
  the same order on the bytes mapped through the table.
\<close>

theorem cursor_order:
  assumes "cur_holds m a xs" "cur_holds m b ys" "cur_holds m c zs"
  shows "\<exists>s t u. aws_byte_cursor_compare_lexical m a b = Inr s \<and> aws_byte_cursor_compare_lexical m b a = Inr (- s) \<and>
    aws_byte_cursor_compare_lexical m b c = Inr t \<and> aws_byte_cursor_compare_lexical m a c = Inr u \<and>
    (s = 0 \<longleftrightarrow> xs = ys) \<and> (s \<le> 0 \<and> t \<le> 0 \<longrightarrow> u \<le> 0) \<and> (ys \<noteq> [] \<and> zs = xs @ ys \<longrightarrow> u = - 1) \<and>
    (map f xs = xs \<and> map f ys = ys \<longrightarrow> aws_byte_cursor_compare_lookup m a b f = Inr s) \<and>
    (aws_byte_cursor_compare_lookup m a b f = Inr 0 \<longleftrightarrow> map f xs = map f ys)"
proof -
  have "lex_sign xs (xs @ ys) = - 1" if "ys \<noteq> []" for ys using that by (induction xs) (cases ys; auto)+
  then show ?thesis
    using compare_lexical_ok [OF assms(1,2)] compare_lexical_ok [OF assms(2,1)] compare_lexical_ok [OF assms(2,3)] compare_lexical_ok [OF assms(1,3)]
      compare_lookup_ok [OF assms(1,2), of f] lex_sign_zero lex_sign_trans [of xs ys zs]
    by (intro exI [of _ "lex_sign xs ys"] exI [of _ "lex_sign ys zs"] exI [of _ "lex_sign xs zs"]) (auto simp: lex_sign_swap [of ys xs])
qed

theorem cursor_order_witness:
  "\<exists>s. aws_byte_cursor_compare_lexical (text_memory [97, 98] [97]) (text_cursor 0 [97, 98]) (text_cursor 1 [97]) = Inr s \<and> s \<noteq> 0"
  using cursor_order [OF text_cursor_holds(1) [of "[97, 98]" "[97]"] text_cursor_holds(2) [of "[97, 98]" "[97]"] text_cursor_holds(1) [of "[97, 98]" "[97]"]]
  by auto

text \<open>
  Trimming by a predicate leaves the cursor on the bytes of the input without its leading and trailing bytes that satisfy the
  predicate, inside the input; and the predicate test succeeds exactly when all bytes satisfy it.
\<close>

theorem trim_pred_correct:
  assumes "cur_holds m c xs"
  shows "\<exists>c'. aws_byte_cursor_trim_pred m c predicate = Inr c' \<and>
      cur_holds m c' (rev (dropWhile predicate (rev (dropWhile predicate xs)))) \<and>
      c_ptr c' = ptr_add (c_ptr c) (length (takeWhile predicate xs)) \<and>
    aws_byte_cursor_satisfies_pred m c predicate = Inr (\<forall>x \<in> set xs. predicate x)"
proof -
  obtain l where l: "aws_byte_cursor_left_trim_pred m c predicate = Inr l" "cur_holds m l (dropWhile predicate xs)"
    "c_ptr l = ptr_add (c_ptr c) (length (takeWhile predicate xs))" by (rule left_trim_ok [OF assms])
  obtain r where r: "aws_byte_cursor_right_trim_pred m l predicate = Inr r" "cur_holds m r (rev (dropWhile predicate (rev (dropWhile predicate xs))))"
    "c_ptr r = c_ptr l" by (rule right_trim_ok [OF l(2)])
  have "c_len l = 0 \<longleftrightarrow> (\<forall>x \<in> set xs. predicate x)"
    using l(2) by (simp add: cur_holds_def dropWhile_eq_Nil_conv flip: unat_eq_zero_iff)
  then show ?thesis using l r by (simp add: aws_byte_cursor_trim_pred_def aws_byte_cursor_satisfies_pred_def)
qed

theorem trim_pred_correct_witness:
  "\<exists>c'. aws_byte_cursor_trim_pred (text_memory [32, 97, 32] []) (text_cursor 0 [32, 97, 32]) aws_isspace = Inr c' \<and>
     cur_holds (text_memory [32, 97, 32] []) c' [97]"
  using trim_pred_correct [OF text_cursor_holds(1) [of "[32, 97, 32]" "[]"], of aws_isspace] by (auto simp: aws_isspace_def)

end
