(* ===== verification/Encoding.thy ===== *)
theory Encoding
  imports Byte_Cursor
begin

text \<open>
  Hexadecimal and base64 of \<open>source/encoding.c\<close>, and the fixed-width accessors and the text encoding detection of
  \<open>include/aws/common/encoding.inl\<close>, over the byte memory.

  The build without \<open>USE_SIMD_ENCODING\<close> is modelled: there \<open>aws_common_private_has_avx2\<close> is a stub that returns \<open>false\<close>
  and the vectorised routines are not called.  Loop counters and buffer indices are natural numbers; the sizes the code
  computes with \<open>size_t\<close> arithmetic are words.
\<close>

section \<open>Tables\<close>

definition HEX_CHARS :: "u8 list" where
  "HEX_CHARS = map word_of_nat [48..<58] @ map word_of_nat [97..<103]"

definition BASE64_SENTIANAL_VALUE :: u8 where
  "BASE64_SENTIANAL_VALUE = 0xff"

definition BASE64_ENCODING_TABLE :: "u8 list" where
  "BASE64_ENCODING_TABLE = map word_of_nat [65..<91] @ map word_of_nat [97..<123] @ map word_of_nat [48..<58] @ [43, 47]"

definition BASE64_DECODING_TABLE :: "u8 list" where
  "BASE64_DECODING_TABLE =
     64 # replicate 42 0xDD @ 62 # replicate 3 0xDD @ 63 # map word_of_nat [52..<62] @ replicate 3 0xDD @ 255 # replicate 3 0xDD @
     map word_of_nat [0..<26] @ replicate 6 0xDD @ map word_of_nat [26..<52] @ replicate 133 0xDD"

text \<open>Consecutive stores \<open>buffer[i++] = v\<close>.\<close>

fun store_all :: "memory \<Rightarrow> ptr \<Rightarrow> nat \<Rightarrow> u8 list \<Rightarrow> memory res" where
  "store_all m p i [] = Inr m"
| "store_all m p i (v # vs) = bind_res (store_u8 m p i v) (\<lambda>m. store_all m p (i + 1) vs)"

section \<open>Hexadecimal\<close>

definition aws_hex_compute_encoded_len :: "size_t \<Rightarrow> size_t res" where
  "aws_hex_compute_encoded_len to_encode_len =
     (let temp = push_bit 1 to_encode_len + 1
      in if temp < to_encode_len then aws_raise_error AWS_ERROR_OVERFLOW_DETECTED else Inr temp)"

fun hex_encode_loop :: "memory \<Rightarrow> ptr \<Rightarrow> ptr \<Rightarrow> nat \<Rightarrow> nat \<Rightarrow> nat \<Rightarrow> (nat \<times> memory) res" where
  "hex_encode_loop m src buffer i written 0 = Inr (written, m)"
| "hex_encode_loop m src buffer i written (Suc n) =
     bind_res (load_u8 m src i) (\<lambda>c.
     bind_res (store_u8 m buffer written (HEX_CHARS ! unat (drop_bit 4 c AND 0x0f))) (\<lambda>m.
     bind_res (load_u8 m src i) (\<lambda>c.
     bind_res (store_u8 m buffer (written + 1) (HEX_CHARS ! unat (c AND 0x0f))) (\<lambda>m.
     hex_encode_loop m src buffer (i + 1) (written + 2) n))))"

definition aws_hex_encode :: "memory \<Rightarrow> byte_cursor \<Rightarrow> byte_buf \<Rightarrow> unit res \<times> byte_buf \<times> memory" where
  "aws_hex_encode m to_encode output_buf =
     (case aws_hex_compute_encoded_len (c_len to_encode) of
        Inl e \<Rightarrow> (Inl e, output_buf, m)
      | Inr encoded_len \<Rightarrow>
          if b_capacity output_buf < encoded_len then (aws_raise_error AWS_ERROR_SHORT_BUFFER, output_buf, m)
          else buf_step
            (bind_res (hex_encode_loop m (c_ptr to_encode) (b_buffer output_buf) 0 0 (unat (c_len to_encode)))
              (\<lambda>(written, m). store_u8 m (b_buffer output_buf) written 0))
            output_buf m (\<lambda>m. (AWS_OP_SUCCESS, output_buf\<lparr>b_len := encoded_len\<rparr>, m)))"

definition aws_hex_encode_append_dynamic :: "memory \<Rightarrow> byte_cursor \<Rightarrow> byte_buf \<Rightarrow> unit res \<times> byte_buf \<times> memory" where
  "aws_hex_encode_append_dynamic m to_encode output_buf =
     (case aws_add_size_checked (c_len to_encode) (c_len to_encode) of
        Inl e \<Rightarrow> (Inl e, output_buf, m)
      | Inr encoded_len \<Rightarrow>
          (case aws_byte_buf_reserve_relative m output_buf encoded_len of
             (Inl e, output_buf, m) \<Rightarrow> (Inl e, output_buf, m)
           | (Inr _, output_buf, m) \<Rightarrow>
               buf_step
                 (bind_res (hex_encode_loop m (c_ptr to_encode) (b_buffer output_buf) 0 (unat (b_len output_buf)) (unat (c_len to_encode)))
                   (\<lambda>(written, m). Inr m))
                 output_buf m (\<lambda>m. (AWS_OP_SUCCESS, output_buf\<lparr>b_len := b_len output_buf + encoded_len\<rparr>, m))))"

definition s_hex_decode_char_to_int :: "u8 \<Rightarrow> u8 option" where
  "s_hex_decode_char_to_int character =
     (if character \<ge> 97 \<and> character \<le> 102 then Some (10 + (character - 97))
      else if character \<ge> 65 \<and> character \<le> 70 then Some (10 + (character - 65))
      else if character \<ge> 48 \<and> character \<le> 57 then Some (character - 48)
      else None)"

definition aws_hex_compute_decoded_len :: "size_t \<Rightarrow> size_t res" where
  "aws_hex_compute_decoded_len to_decode_len =
     (let temp = to_decode_len + 1
      in if temp < to_decode_len then aws_raise_error AWS_ERROR_OVERFLOW_DETECTED else Inr (drop_bit 1 temp))"

definition hex_decode_char :: "memory \<Rightarrow> ptr \<Rightarrow> nat \<Rightarrow> u8 res" where
  "hex_decode_char m src i =
     bind_res (load_u8 m src i) (\<lambda>c.
       case s_hex_decode_char_to_int c of
         None \<Rightarrow> aws_raise_error AWS_ERROR_INVALID_HEX_STR
       | Some int_val \<Rightarrow> Inr int_val)"

fun hex_decode_loop :: "memory \<Rightarrow> ptr \<Rightarrow> ptr \<Rightarrow> nat \<Rightarrow> nat \<Rightarrow> nat \<Rightarrow> unit res \<times> memory" where
  "hex_decode_loop m src buffer i written 0 = (AWS_OP_SUCCESS, m)"
| "hex_decode_loop m src buffer i written (Suc n) =
     (case bind_res (hex_decode_char m src i) (\<lambda>high_value.
           bind_res (hex_decode_char m src (i + 1)) (\<lambda>low_value.
             store_u8 m buffer written (push_bit 4 high_value OR low_value))) of
        Inl e \<Rightarrow> (Inl e, m)
      | Inr m \<Rightarrow> hex_decode_loop m src buffer (i + 2) (written + 1) n)"

definition aws_hex_decode :: "memory \<Rightarrow> byte_cursor \<Rightarrow> byte_buf \<Rightarrow> unit res \<times> byte_buf \<times> memory" where
  "aws_hex_decode m to_decode output_buf =
     (case aws_hex_compute_decoded_len (c_len to_decode) of
        Inl e \<Rightarrow> (aws_raise_error AWS_ERROR_OVERFLOW_DETECTED, output_buf, m)
      | Inr decoded_length \<Rightarrow>
          if b_capacity output_buf < decoded_length then (aws_raise_error AWS_ERROR_SHORT_BUFFER, output_buf, m)
          else
            (case (if c_len to_decode AND 0x01 \<noteq> 0
                   then (case bind_res (hex_decode_char m (c_ptr to_decode) 0) (\<lambda>low_value. store_u8 m (b_buffer output_buf) 0 low_value) of
                           Inl e \<Rightarrow> (Inl e, m)
                         | Inr m \<Rightarrow> hex_decode_loop m (c_ptr to_decode) (b_buffer output_buf) 1 1 (unat (c_len to_decode) div 2))
                   else hex_decode_loop m (c_ptr to_decode) (b_buffer output_buf) 0 0 (unat (c_len to_decode) div 2)) of
               (Inl e, m) \<Rightarrow> (Inl e, output_buf, m)
             | (Inr _, m) \<Rightarrow> (AWS_OP_SUCCESS, output_buf\<lparr>b_len := decoded_length\<rparr>, m)))"

section \<open>Base64\<close>

definition aws_base64_compute_encoded_len :: "size_t \<Rightarrow> size_t res" where
  "aws_base64_compute_encoded_len to_encode_len =
     (let tmp = to_encode_len + 2
      in if tmp < to_encode_len then aws_raise_error AWS_ERROR_OVERFLOW_DETECTED
         else let tmp = tmp div 3;
                  overflow_check = tmp;
                  tmp = 4 * tmp + 1
              in if tmp < overflow_check then aws_raise_error AWS_ERROR_OVERFLOW_DETECTED else Inr tmp)"

definition aws_base64_compute_decoded_len :: "memory \<Rightarrow> byte_cursor \<Rightarrow> size_t res" where
  "aws_base64_compute_decoded_len m to_decode =
     (let len = c_len to_decode; input_ptr = c_ptr to_decode
      in if len = 0 then Inr 0
         else if len AND 0x03 \<noteq> 0 then aws_raise_error AWS_ERROR_INVALID_BASE64_STR
         else let tmp = len * 3
              in if tmp < len then aws_raise_error AWS_ERROR_OVERFLOW_DETECTED
                 else bind_res (load_u8 m input_ptr (unat (len - 1))) (\<lambda>last_char.
                      bind_res (if len \<ge> 2 \<and> last_char = 61
                                then bind_res (load_u8 m input_ptr (unat (len - 2))) (\<lambda>c. Inr (c = 61))
                                else Inr False) (\<lambda>two.
                      let padding = (if two then 2 else if last_char = 61 then 1 else 0)
                      in Inr (tmp div 4 - padding))))"

fun base64_encode_loop :: "memory \<Rightarrow> ptr \<Rightarrow> nat \<Rightarrow> ptr \<Rightarrow> nat \<Rightarrow> nat \<Rightarrow> nat \<Rightarrow> memory res" where
  "base64_encode_loop m src buffer_length buffer i str_index 0 = Inr m"
| "base64_encode_loop m src buffer_length buffer i str_index (Suc n) =
     bind_res (load_u8 m src i) (\<lambda>c.
       let block = push_bit 8 (ucast c :: u32)
       in bind_res (if i + 1 < buffer_length then bind_res (load_u8 m src (i + 1)) (\<lambda>c. Inr (block OR ucast c)) else Inr block) (\<lambda>block.
       let block = push_bit 8 block
       in bind_res (if i + 2 < buffer_length then bind_res (load_u8 m src (i + 2)) (\<lambda>c. Inr (block OR ucast c)) else Inr block) (\<lambda>block.
       bind_res (store_all m buffer str_index
         [BASE64_ENCODING_TABLE ! unat (drop_bit 18 block AND 0x3F), BASE64_ENCODING_TABLE ! unat (drop_bit 12 block AND 0x3F),
          BASE64_ENCODING_TABLE ! unat (drop_bit 6 block AND 0x3F), BASE64_ENCODING_TABLE ! unat (block AND 0x3F)]) (\<lambda>m.
       base64_encode_loop m src buffer_length buffer (i + 3) (str_index + 4) n))))"

definition aws_base64_encode :: "memory \<Rightarrow> byte_cursor \<Rightarrow> byte_buf \<Rightarrow> unit res \<times> byte_buf \<times> memory" where
  "aws_base64_encode m to_encode output_buf =
     (case aws_base64_compute_encoded_len (c_len to_encode) of
        Inl e \<Rightarrow> (Inl e, output_buf, m)
      | Inr terminated_length \<Rightarrow>
          (case aws_add_size_checked (b_len output_buf) terminated_length of
             Inl e \<Rightarrow> (Inl e, output_buf, m)
           | Inr needed_capacity \<Rightarrow>
               if b_capacity output_buf < needed_capacity then (aws_raise_error AWS_ERROR_SHORT_BUFFER, output_buf, m)
               else
                 let encoded_length = terminated_length - 1;
                     buffer_length = c_len to_encode;
                     block_count = (buffer_length + 2) div 3;
                     remainder_count = buffer_length mod 3;
                     buffer = b_buffer output_buf;
                     out_len = b_len output_buf
                 in buf_step
                      (bind_res (base64_encode_loop m (c_ptr to_encode) (unat buffer_length) buffer 0 (unat out_len) (unat block_count)) (\<lambda>m.
                       bind_res (if remainder_count > 0
                                 then bind_res (store_u8 m buffer (unat (out_len + block_count * 4 - 1)) 61) (\<lambda>m.
                                        if remainder_count = 1 then store_u8 m buffer (unat (out_len + block_count * 4 - 2)) 61 else Inr m)
                                 else Inr m) (\<lambda>m.
                       store_u8 m buffer (unat (out_len + encoded_length)) 0)))
                      output_buf m (\<lambda>m. (AWS_OP_SUCCESS, output_buf\<lparr>b_len := out_len + encoded_length\<rparr>, m))))"

definition s_base64_get_decoded_value :: "u8 \<Rightarrow> bool \<Rightarrow> u8 option" where
  "s_base64_get_decoded_value to_decode allow_sentinal =
     (let decode_value = BASE64_DECODING_TABLE ! unat to_decode
      in if decode_value \<noteq> 0xDD \<and> (decode_value \<noteq> BASE64_SENTIANAL_VALUE \<or> allow_sentinal) then Some decode_value else None)"

text \<open>The chain of calls \<open>s_base64_get_decoded_value (...) || ...\<close> on consecutive characters.\<close>

fun base64_get_values :: "memory \<Rightarrow> ptr \<Rightarrow> nat \<Rightarrow> bool list \<Rightarrow> u8 list res" where
  "base64_get_values m src string_index [] = Inr []"
| "base64_get_values m src string_index (allow_sentinal # rest) =
     bind_res (load_u8 m src string_index) (\<lambda>c.
       case s_base64_get_decoded_value c allow_sentinal of
         None \<Rightarrow> aws_raise_error AWS_ERROR_INVALID_BASE64_STR
       | Some value \<Rightarrow> bind_res (base64_get_values m src (string_index + 1) rest) (\<lambda>values. Inr (value # values)))"

definition decoded1 :: "u8 \<Rightarrow> u8 \<Rightarrow> u8" where
  "decoded1 value1 value2 = push_bit 2 value1 OR (drop_bit 4 value2 AND 0x03)"

definition decoded2 :: "u8 \<Rightarrow> u8 \<Rightarrow> u8" where
  "decoded2 value2 value3 = (push_bit 4 value2 AND 0xF0) OR (drop_bit 2 value3 AND 0x0F)"

definition decoded3 :: "u8 \<Rightarrow> u8 \<Rightarrow> u8" where
  "decoded3 value3 value4 = push_bit 6 (value3 AND 0x03) OR value4"

fun base64_decode_loop :: "memory \<Rightarrow> ptr \<Rightarrow> ptr \<Rightarrow> nat \<Rightarrow> nat \<Rightarrow> unit res \<times> memory" where
  "base64_decode_loop m src buffer i 0 = (AWS_OP_SUCCESS, m)"
| "base64_decode_loop m src buffer i (Suc n) =
     (case bind_res (base64_get_values m src (4 * i) [False, False, False, False]) (\<lambda>values.
             let value1 = values ! 0; value2 = values ! 1; value3 = values ! 2; value4 = values ! 3
             in store_all m buffer (i * 3) [decoded1 value1 value2, decoded2 value2 value3, decoded3 value3 value4]) of
        Inl e \<Rightarrow> (Inl e, m)
      | Inr m \<Rightarrow> base64_decode_loop m src buffer (i + 1) n)"

definition base64_decode_last :: "memory \<Rightarrow> ptr \<Rightarrow> ptr \<Rightarrow> nat \<Rightarrow> memory res" where
  "base64_decode_last m src buffer i =
     bind_res (base64_get_values m src (4 * i) [False, False, True, True]) (\<lambda>values.
       let value1 = values ! 0; value2 = values ! 1; value3 = values ! 2; value4 = values ! 3; buffer_index = i * 3
       in bind_res (store_u8 m buffer buffer_index (decoded1 value1 value2)) (\<lambda>m.
            if value3 \<noteq> BASE64_SENTIANAL_VALUE
            then bind_res (store_u8 m buffer (buffer_index + 1) (decoded2 value2 value3)) (\<lambda>m.
                   if value4 \<noteq> BASE64_SENTIANAL_VALUE
                   then store_u8 m buffer (buffer_index + 2) (decoded3 value3 value4)
                   else Inr m)
            else Inr m))"

definition aws_base64_decode :: "memory \<Rightarrow> byte_cursor \<Rightarrow> byte_buf \<Rightarrow> unit res \<times> byte_buf \<times> memory" where
  "aws_base64_decode m to_decode output_buf =
     (case aws_base64_compute_decoded_len m to_decode of
        Inl e \<Rightarrow> (Inl e, output_buf, m)
      | Inr decoded_length \<Rightarrow>
          if b_capacity output_buf < decoded_length then (aws_raise_error AWS_ERROR_SHORT_BUFFER, output_buf, m)
          else
            let block_count = sint (c_len to_decode) div 4;
                src = c_ptr to_decode;
                buffer = b_buffer output_buf
            in case base64_decode_loop m src buffer 0 (nat (block_count - 1)) of
                 (Inl e, m) \<Rightarrow> (Inl e, output_buf, m)
               | (Inr _, m) \<Rightarrow>
                   let buffer_index = (block_count - 1) * 3
                   in case (if buffer_index \<ge> 0 then base64_decode_last m src buffer (nat (block_count - 1)) else Inr m) of
                        Inl e \<Rightarrow> (Inl e, output_buf, m)
                      | Inr m \<Rightarrow> (AWS_OP_SUCCESS, output_buf\<lparr>b_len := decoded_length\<rparr>, m))"

section \<open>Fixed-width accessors and text detection\<close>

definition aws_write_u64 :: "bool \<Rightarrow> memory \<Rightarrow> u64 \<Rightarrow> ptr \<Rightarrow> memory res" where
  "aws_write_u64 big m value buffer = store_bytes m buffer (map Some (host_bytes big 8 (aws_hton64 big value)))"

definition aws_read_u64 :: "bool \<Rightarrow> memory \<Rightarrow> ptr \<Rightarrow> u64 res" where
  "aws_read_u64 big m buffer = bind_res (load_known m buffer 8) (\<lambda>bs. Inr (aws_ntoh64 big (host_word big bs)))"

definition aws_write_u32 :: "bool \<Rightarrow> memory \<Rightarrow> u32 \<Rightarrow> ptr \<Rightarrow> memory res" where
  "aws_write_u32 big m value buffer = store_bytes m buffer (map Some (host_bytes big 4 (aws_hton32 big value)))"

definition aws_read_u32 :: "bool \<Rightarrow> memory \<Rightarrow> ptr \<Rightarrow> u32 res" where
  "aws_read_u32 big m buffer = bind_res (load_known m buffer 4) (\<lambda>bs. Inr (aws_ntoh32 big (host_word big bs)))"

definition aws_write_u24 :: "bool \<Rightarrow> memory \<Rightarrow> u32 \<Rightarrow> ptr \<Rightarrow> memory res" where
  "aws_write_u24 big m value buffer = store_bytes m buffer (map Some (drop 1 (host_bytes big 4 (aws_hton32 big value))))"

definition aws_read_u24 :: "bool \<Rightarrow> memory \<Rightarrow> ptr \<Rightarrow> u32 res" where
  "aws_read_u24 big m buffer = bind_res (load_known m buffer 3) (\<lambda>bs. Inr (aws_ntoh32 big (host_word big (0 # bs))))"

definition aws_write_u16 :: "bool \<Rightarrow> memory \<Rightarrow> u16 \<Rightarrow> ptr \<Rightarrow> memory res" where
  "aws_write_u16 big m value buffer = store_bytes m buffer (map Some (host_bytes big 2 (aws_hton16 big value)))"

definition aws_read_u16 :: "bool \<Rightarrow> memory \<Rightarrow> ptr \<Rightarrow> u16 res" where
  "aws_read_u16 big m buffer = bind_res (load_known m buffer 2) (\<lambda>bs. Inr (aws_ntoh16 big (host_word big bs)))"

datatype aws_text_encoding = AWS_TEXT_UNKNOWN | AWS_TEXT_UTF8 | AWS_TEXT_UTF16 | AWS_TEXT_UTF32 | AWS_TEXT_ASCII

text \<open>\<open>memcmp (bytes, literal, n) == 0\<close>.\<close>

fun starts_with_literal :: "memory \<Rightarrow> ptr \<Rightarrow> u8 list \<Rightarrow> bool res" where
  "starts_with_literal m p [] = Inr True"
| "starts_with_literal m p (v # vs) = bind_res (load_u8 m p 0) (\<lambda>x. if x \<noteq> v then Inr False else starts_with_literal m (ptr_add p 1) vs)"

fun detect_ascii_loop :: "memory \<Rightarrow> ptr \<Rightarrow> nat \<Rightarrow> nat \<Rightarrow> aws_text_encoding res" where
  "detect_ascii_loop m bytes idx 0 = Inr AWS_TEXT_ASCII"
| "detect_ascii_loop m bytes idx (Suc n) =
     bind_res (load_u8 m bytes idx) (\<lambda>c. if c AND 0x80 \<noteq> 0 then Inr AWS_TEXT_UNKNOWN else detect_ascii_loop m bytes (idx + 1) n)"

fun try_boms :: "memory \<Rightarrow> ptr \<Rightarrow> size_t \<Rightarrow> (u8 list \<times> aws_text_encoding) list \<Rightarrow> aws_text_encoding option res" where
  "try_boms m bytes sz [] = Inr None"
| "try_boms m bytes sz ((bom, enc) # rest) =
     bind_res (if sz \<ge> word_of_nat (length bom) then starts_with_literal m bytes bom else Inr False)
       (\<lambda>found. if found then Inr (Some enc) else try_boms m bytes sz rest)"

definition aws_text_detect_encoding :: "memory \<Rightarrow> ptr \<Rightarrow> size_t \<Rightarrow> aws_text_encoding res" where
  "aws_text_detect_encoding m bytes sz =
     bind_res (try_boms m bytes sz
       [([0xEF, 0xBB, 0xBF], AWS_TEXT_UTF8), ([0xFF, 0xFE, 0, 0], AWS_TEXT_UTF32), ([0, 0, 0xFE, 0xFF], AWS_TEXT_UTF32),
        ([0xFF, 0xFE], AWS_TEXT_UTF16), ([0xFE, 0xFF], AWS_TEXT_UTF16)])
       (\<lambda>found. case found of Some enc \<Rightarrow> Inr enc | None \<Rightarrow> detect_ascii_loop m bytes 0 (unat sz))"

definition aws_text_is_utf8 :: "memory \<Rightarrow> ptr \<Rightarrow> size_t \<Rightarrow> bool res" where
  "aws_text_is_utf8 m bytes sz =
     bind_res (aws_text_detect_encoding m bytes sz) (\<lambda>encoding. Inr (encoding = AWS_TEXT_UTF8 \<or> encoding = AWS_TEXT_ASCII))"

section \<open>Abstraction and invariant\<close>

text \<open>The bytes \<open>vs\<close> stand at \<open>p + i\<close> and nothing else changed.\<close>

definition wrote :: "memory \<Rightarrow> ptr \<Rightarrow> nat \<Rightarrow> u8 list \<Rightarrow> memory \<Rightarrow> bool" where
  "wrote m p i vs m' \<longleftrightarrow> holds m' (ptr_add p i) vs \<and> changed_only m (ptr_add p i) (length vs) m'"

definition hex_byte :: "u8 \<Rightarrow> u8 list" where
  "hex_byte c = [HEX_CHARS ! unat (drop_bit 4 c AND 0x0f), HEX_CHARS ! unat (c AND 0x0f)]"

definition hex_of :: "u8 list \<Rightarrow> u8 list" where
  "hex_of xs = concat (map hex_byte xs)"

abbreviation hexv :: "u8 \<Rightarrow> u8 option" where
  "hexv \<equiv> s_hex_decode_char_to_int"

fun unhex :: "u8 list \<Rightarrow> u8 list" where
  "unhex (h # l # cs) = (push_bit 4 (the (hexv h)) OR the (hexv l)) # unhex cs"
| "unhex cs = []"

abbreviation enc64 :: "u8 \<Rightarrow> u8" where
  "enc64 v \<equiv> BASE64_ENCODING_TABLE ! unat v"

text \<open>The encoding by groups of six bits, and the same without padding characters.\<close>

fun sextets :: "u8 \<Rightarrow> u8 \<Rightarrow> u8 \<Rightarrow> u8 list" where
  "sextets a b c = [drop_bit 2 a, push_bit 4 (take_bit 2 a) OR drop_bit 4 b, push_bit 2 (take_bit 4 b) OR drop_bit 6 c, take_bit 6 c]"

fun raw64 :: "u8 list \<Rightarrow> u8 list" where
  "raw64 (a # b # c # xs) = map enc64 (sextets a b c) @ raw64 xs"
| "raw64 [a, b] = map enc64 (sextets a b 0)"
| "raw64 [a] = map enc64 (sextets a 0 0)"
| "raw64 [] = []"

fun base64 :: "u8 list \<Rightarrow> u8 list" where
  "base64 (a # b # c # xs) = map enc64 (sextets a b c) @ base64 xs"
| "base64 [a, b] = map enc64 (take 3 (sextets a b 0)) @ [61]"
| "base64 [a] = map enc64 (take 2 (sextets a 0 0)) @ [61, 61]"
| "base64 [] = []"

definition out_buf :: "nat \<Rightarrow> size_t \<Rightarrow> byte_buf" where
  "out_buf b cap = \<lparr>b_len = 0, b_buffer = Ptr b 0, b_capacity = cap, b_allocator = None\<rparr>"

definition codec_memory :: "u8 list \<Rightarrow> nat \<Rightarrow> u8 list \<Rightarrow> nat \<Rightarrow> memory" where
  "codec_memory as n bs k = \<lparr>m_blocks = (\<lambda>b. None)(0 \<mapsto> map Some as, 1 \<mapsto> replicate n (Some 7), 2 \<mapsto> map Some bs, 3 \<mapsto> replicate k (Some 7)), m_next = 4\<rparr>"

section \<open>Lemmas\<close>

section \<open>Sequences of stores\<close>

lemma wrote_Nil [simp]: "wrote m p i [] m" by (simp add: wrote_def)

lemma wrote_append: "wrote m p i vs m1 \<Longrightarrow> wrote m1 p (i + length vs) us m2 \<Longrightarrow> wrote m p i (vs @ us) m2"
proof -
  assume 1: "wrote m p i vs m1" and 2: "wrote m1 p (i + length vs) us m2"
  have ap: "apart (ptr_add p i) (length vs) (ptr_add p (i + length vs)) (length us)" by (cases p) auto
  have "holds m2 (ptr_add p i) vs" using changed_only_holds [OF _ ap, of m1 m2] 1 2 by (simp add: wrote_def)
  moreover have "changed_only m (ptr_add p i) (length (vs @ us)) m2"
    by (rule changed_only_trans [of m _ _ m1])
      (use 1 2 changed_only_mono [of m "ptr_add p i" 0 "length vs" m1 "length (vs @ us)"]
         changed_only_mono [of m1 "ptr_add p i" "length vs" "length us" m2 "length (vs @ us)"] in \<open>auto simp: wrote_def\<close>)
  ultimately show ?thesis using 2 by (simp add: wrote_def holds_append)
qed

lemma wrote_room: "wrote m p i vs m' \<Longrightarrow> room m' q k \<longleftrightarrow> room m q k"
  unfolding wrote_def using changed_only_room by blast

lemma wrote_keeps: "wrote m p i vs m' \<Longrightarrow> holds m q xs \<Longrightarrow> apart q (length xs) (ptr_add p i) (length vs) \<Longrightarrow> holds m' q xs"
  unfolding wrote_def using changed_only_holds by blast

lemma store_all_ok:
  "room m (ptr_add p i) (length vs) \<Longrightarrow> \<exists>m'. store_all m p i vs = Inr m' \<and> wrote m p i vs m'"
proof (induction vs arbitrary: m i)
  case (Cons v vs)
  have r: "room m (ptr_add p i) 1" using room_sub [OF Cons.prems, of 0 1] by simp
  obtain m1 where m1: "store_u8 m p i v = Inr m1" "holds m1 (ptr_add p i) [v]" "changed_only m (ptr_add p i) 1 m1"
    by (rule store_u8_ok [OF r])
  then have w1: "wrote m p i [v] m1" by (simp add: wrote_def)
  have "room m1 (ptr_add p (i + 1)) (length vs)" using room_sub [OF Cons.prems, of 1 "length vs"] wrote_room [OF w1] by simp
  from Cons.IH [OF this] obtain m2 where m2: "store_all m1 p (i + 1) vs = Inr m2" "wrote m1 p (i + 1) vs m2" by blast
  then show ?case using m1(1) wrote_append [OF w1, of vs m2] by auto
qed simp

lemma store_u8_wrote:
  assumes "room m (ptr_add p i) 1" obtains m' where "store_u8 m p i v = Inr m'" "wrote m p i [v] m'"
  using store_all_ok [of m p i "[v]"] assms by (auto simp: bind_res_Inr_iff)

text \<open>A buffer written from its start and given the length of what was written.\<close>

lemma wrote_buf:
  assumes "aws_byte_buf_is_valid buf" "room m (b_buffer buf) (unat (b_capacity buf))" "wrote m (b_buffer buf) 0 (xs @ zs) m'"
    "length (xs @ zs) \<le> unat (b_capacity buf)" "unat len = length xs"
  shows "buf_holds m' (buf\<lparr>b_len := len\<rparr>) xs"
proof -
  have "len \<le> b_capacity buf" using assms(4,5) by (simp add: word_le_nat_alt)
  moreover have "holds m' (b_buffer buf) xs" using assms(3) by (simp add: wrote_def holds_append)
  ultimately show ?thesis using assms(1,2,5) wrote_room [OF assms(3)] unfolding buf_holds_def aws_byte_buf_is_valid_def by auto
qed

section \<open>Hexadecimal\<close>

lemma hex_of_simps [simp]: "hex_of [] = []" "hex_of (x # xs) = hex_byte x @ hex_of xs" "length (hex_byte x) = 2"
  by (simp_all add: hex_of_def hex_byte_def)

lemma length_hex_of [simp]: "length (hex_of xs) = 2 * length xs"
  by (induction xs) auto

lemma hex_encode_loop_ok:
  "holds m src xs \<Longrightarrow> length xs = i + n \<Longrightarrow> room m (ptr_add buffer w) (2 * n) \<Longrightarrow> apart src (length xs) (ptr_add buffer w) (2 * n) \<Longrightarrow>
   \<exists>m'. hex_encode_loop m src buffer i w n = Inr (w + 2 * n, m') \<and> wrote m buffer w (hex_of (drop i xs)) m'"
proof (induction n arbitrary: m i w)
  case (Suc n)
  have dr: "drop i xs = xs ! i # drop (i + 1) xs" using Suc.prems(2) by (simp add: Cons_nth_drop_Suc)
  let ?h = "HEX_CHARS ! unat (drop_bit 4 (xs ! i) AND 0x0f)" and ?l = "HEX_CHARS ! unat (xs ! i AND 0x0f)"
  have ap: "apart src (length xs) (ptr_add buffer (w + k)) j" if "k + j \<le> 2 * Suc n" for k j
    using apart_sub [OF Suc.prems(4), of 0 "length xs" k j] that by simp
  obtain m1 where m1: "store_u8 m buffer w ?h = Inr m1" "wrote m buffer w [?h] m1"
    by (rule store_u8_wrote [of m buffer w ?h]) (use room_sub [OF Suc.prems(3), of 0 1] in simp_all)
  have h1: "holds m1 src xs" by (rule wrote_keeps [OF m1(2) Suc.prems(1)]) (use ap [of 0 1] in simp)
  obtain m2 where m2: "store_u8 m1 buffer (w + 1) ?l = Inr m2" "wrote m1 buffer (w + 1) [?l] m2"
    by (rule store_u8_wrote [of m1 buffer "w + 1" ?l]) (use room_sub [OF Suc.prems(3), of 1 1] wrote_room [OF m1(2)] in simp_all)
  have h2: "holds m2 src xs" by (rule wrote_keeps [OF m2(2) h1]) (use ap [of 1 1] in simp)
  have w2: "wrote m buffer w (hex_byte (xs ! i)) m2" using wrote_append [OF m1(2), of "[?l]" m2] m2(2) by (simp add: hex_byte_def)
  have "room m2 (ptr_add buffer (w + 2)) (2 * n)" "length xs = i + 1 + n"
    using room_sub [OF Suc.prems(3), of 2 "2 * n"] wrote_room [OF w2] Suc.prems(2) by simp_all
  from Suc.IH [OF h2 this(2,1)] ap [of 2 "2 * n"] obtain m3 where
    m3: "hex_encode_loop m2 src buffer (i + 1) (w + 2) n = Inr (w + 2 + 2 * n, m3)" "wrote m2 buffer (w + 2) (hex_of (drop (i + 1) xs)) m3" by auto
  have "load_u8 m src i = Inr (xs ! i)" "load_u8 m1 src i = Inr (xs ! i)" using Suc.prems(1,2) h1 by simp_all
  then show ?case using m1(1) m2(1) m3(1) wrote_append [OF w2, of "hex_of (drop (i + 1) xs)" m3] m3(2) by (simp add: dr)
qed simp

lemma length_unhex: "length (unhex cs) = length cs div 2"
  by (induction cs rule: unhex.induct) auto

lemma drop_two: "length xs = i + 2 * Suc n \<Longrightarrow> drop i xs = xs ! i # xs ! (i + 1) # drop (i + 2) xs"
  using Cons_nth_drop_Suc [of i xs] Cons_nth_drop_Suc [of "i + 1" xs] by simp

lemma hex_decode_char_ok: "holds m src xs \<Longrightarrow> i < length xs \<Longrightarrow> hex_decode_char m src i =
    (case hexv (xs ! i) of None \<Rightarrow> aws_raise_error AWS_ERROR_INVALID_HEX_STR | Some v \<Rightarrow> Inr v)"
  by (simp add: hex_decode_char_def)

lemma hex_decode_loop_ok:
  "holds m src xs \<Longrightarrow> length xs = i + 2 * n \<Longrightarrow> room m (ptr_add buffer w) n \<Longrightarrow> apart src (length xs) (ptr_add buffer w) n \<Longrightarrow>
   \<exists>r m'. hex_decode_loop m src buffer i w n = (r, m') \<and>
     (if \<forall>c \<in> set (drop i xs). hexv c \<noteq> None then r = AWS_OP_SUCCESS \<and> wrote m buffer w (unhex (drop i xs)) m'
      else r = aws_raise_error AWS_ERROR_INVALID_HEX_STR \<and> changed_only m (ptr_add buffer w) n m')"
proof (induction n arbitrary: m i w)
  case (Suc n)
  note dr = drop_two [OF Suc.prems(2)]
  have ap: "apart src (length xs) (ptr_add buffer (w + k)) j" if "k + j \<le> Suc n" for k j
    using apart_sub [OF Suc.prems(4), of 0 "length xs" k j] that by simp
  have ch: "hex_decode_char m src i = (case hexv (xs ! i) of None \<Rightarrow> aws_raise_error AWS_ERROR_INVALID_HEX_STR | Some v \<Rightarrow> Inr v)"
    "hex_decode_char m src (i + 1) = (case hexv (xs ! (i + 1)) of None \<Rightarrow> aws_raise_error AWS_ERROR_INVALID_HEX_STR | Some v \<Rightarrow> Inr v)"
    by (rule hex_decode_char_ok [OF Suc.prems(1)]; use Suc.prems(2) in simp)+
  show ?case
  proof (cases "hexv (xs ! i) = None \<or> hexv (xs ! (i + 1)) = None")
    case True
    then show ?thesis using ch dr by (cases "hexv (xs ! i)") (auto split: option.splits)
  next
    case False
    then obtain h l where hl: "hexv (xs ! i) = Some h" "hexv (xs ! (i + 1)) = Some l" by auto
    let ?v = "push_bit 4 h OR l"
    obtain m1 where m1: "store_u8 m buffer w ?v = Inr m1" "wrote m buffer w [?v] m1"
      by (rule store_u8_wrote [of m buffer w ?v]) (use room_sub [OF Suc.prems(3), of 0 1] in simp_all)
    have h1: "holds m1 src xs" by (rule wrote_keeps [OF m1(2) Suc.prems(1)]) (use ap [of 0 1] in simp)
    have r1: "room m1 (ptr_add buffer (w + 1)) n" using room_sub [OF Suc.prems(3), of 1 n] wrote_room [OF m1(2)] by simp
    have l1: "length xs = i + 2 + 2 * n" using Suc.prems(2) by simp
    obtain r m2 where m2: "hex_decode_loop m1 src buffer (i + 2) (w + 1) n = (r, m2)"
      "if \<forall>c \<in> set (drop (i + 2) xs). hexv c \<noteq> None then r = AWS_OP_SUCCESS \<and> wrote m1 buffer (w + 1) (unhex (drop (i + 2) xs)) m2
       else r = aws_raise_error AWS_ERROR_INVALID_HEX_STR \<and> changed_only m1 (ptr_add buffer (w + 1)) n m2"
      using Suc.IH [OF h1 l1 r1] ap [of 1 n] by auto
    have ev: "hex_decode_loop m src buffer i w (Suc n) = (r, m2)" using ch hl m1(1) m2(1) by simp
    show ?thesis
    proof (cases "\<forall>c \<in> set (drop (i + 2) xs). hexv c \<noteq> None")
      case True
      then have "wrote m buffer w (unhex (drop i xs)) m2" using wrote_append [OF m1(2), of "unhex (drop (i + 2) xs)" m2] m2(2) hl by (simp add: dr)
      then show ?thesis using ev True m2(2) hl by (simp add: dr)
    next
      case False
      then have "changed_only m1 (ptr_add buffer (w + 1)) n m2" "r = aws_raise_error AWS_ERROR_INVALID_HEX_STR" using m2(2) by (simp_all only: if_False)
      moreover have "changed_only m (ptr_add buffer w) (Suc n) m2"
        by (rule changed_only_trans [of m _ _ m1])
          (use m1(2) calculation(1) changed_only_mono [of m "ptr_add buffer w" 0 1 m1 "Suc n"] changed_only_mono [of m1 "ptr_add buffer w" 1 n m2 "Suc n"] in \<open>auto simp: wrote_def\<close>)
      ultimately show ?thesis using ev False dr by auto
    qed
  qed
qed simp

lemma HEX_CHARS_nth: "v < 16 \<Longrightarrow> HEX_CHARS ! v = word_of_nat (if v < 10 then 48 + v else 87 + v)"
  by (auto simp: HEX_CHARS_def nth_append simp del: upt_rec_numeral upt_Suc of_nat_add)

lemma hexv_HEX_CHARS: "v \<le> 15 \<Longrightarrow> hexv (HEX_CHARS ! unat v) = Some v"
proof -
  assume v: "v \<le> 15"
  then have n: "unat v < 16" by (simp add: word_le_nat_alt)
  have u: "unat (word_of_nat k :: u8) = k" if "k < 256" for k using that by (simp add: unsigned_of_nat take_bit_nat_eq_self)
  show ?thesis
  proof (cases "unat v < 10")
    case True
    then have "HEX_CHARS ! unat v = 48 + v" "unat (48 + v) = 48 + unat v" using HEX_CHARS_nth [OF n] by (simp_all add: unat_add_exact)
    then show ?thesis using True by (simp add: s_hex_decode_char_to_int_def word_le_nat_alt)
  next
    case False
    then have "HEX_CHARS ! unat v = 87 + v" "unat (87 + v) = 87 + unat v" using HEX_CHARS_nth [OF n] n by (simp_all add: unat_add_exact)
    then show ?thesis using False n by (simp add: s_hex_decode_char_to_int_def word_le_nat_alt)
  qed
qed

lemma nibbles: "push_bit 4 (drop_bit 4 c AND 0x0f) OR (c AND 0x0f) = (c :: u8)" "drop_bit 4 c AND 0x0f \<le> 15" "c AND 0x0f \<le> 15"
proof -
  have m: "0x0f = (mask 4 :: u8)" by (simp add: mask_eq_exp_minus_1)
  show "push_bit 4 (drop_bit 4 c AND 0x0f) OR (c AND 0x0f) = c"
    unfolding m by (rule bit_word_eqI) (auto simp: bit_or_iff bit_push_bit_iff bit_and_iff bit_drop_bit_eq bit_mask_iff)
  show "drop_bit 4 c AND 0x0f \<le> 15" "c AND 0x0f \<le> 15" using word_and_le1 by blast+
qed

lemma unhex_hex_of: "unhex (hex_of xs) = xs" "\<forall>c \<in> set (hex_of xs). hexv c \<noteq> None"
  by (induction xs) (auto simp: hex_byte_def hexv_HEX_CHARS nibbles nibbles(1) [simplified])

section \<open>Fixed-width accessors\<close>

lemma store_known:
  assumes "room m p (length bs)" "bs \<noteq> []"
  obtains m' where "store_bytes m p (map Some bs) = Inr m'" "holds m' p bs" "load_known m' p (length bs) = Inr bs"
proof -
  obtain m' where m': "store_bytes m p (map Some bs) = Inr m'" "bytes_at m' p (length (map Some bs)) = Some (map Some bs)"
    by (rule store_bytes_ok [of m p "map Some bs"]) (use assms in auto)
  then have h: "holds m' p bs" by (simp add: holds_def)
  then show thesis using that m'(1) holds_load_known [OF h refl] assms(2) by simp
qed

lemma accessor_ok:
  assumes "8 * n = LENGTH('a)" "n \<noteq> 0" "room m p n"
  shows "\<exists>m'. store_bytes m p (map Some (host_bytes big n (hton big n (x :: 'a :: len word)))) = Inr m' \<and> holds m' p (be_bytes n x) \<and>
    bind_res (load_known m' p n) (\<lambda>bs. Inr (hton big n (host_word big bs))) = Inr x"
proof -
  have ne: "be_bytes n x \<noteq> []" "room m p (length (be_bytes n x))" using assms(2,3) by (auto dest: arg_cong [of _ _ length])
  show ?thesis unfolding host_bytes_hton [OF assms(1)]
    by (rule store_known [OF ne(2,1)]) (use hton_network [OF assms(1), of big x] in simp)
qed

lemma accessor_round_trips:
  assumes "room m p 8" "z \<le> 0x00FFFFFF"
  shows "\<exists>m'. aws_write_u64 big m x p = Inr m' \<and> holds m' p (be_bytes 8 x) \<and> aws_read_u64 big m' p = Inr x"
    and "\<exists>m'. aws_write_u32 big m y p = Inr m' \<and> holds m' p (be_bytes 4 y) \<and> aws_read_u32 big m' p = Inr y"
    and "\<exists>m'. aws_write_u24 big m z p = Inr m' \<and> holds m' p (be_bytes 3 z) \<and> aws_read_u24 big m' p = Inr z"
    and "\<exists>m'. aws_write_u16 big m w p = Inr m' \<and> holds m' p (be_bytes 2 w) \<and> aws_read_u16 big m' p = Inr w"
proof -
  have r: "room m p k" if "k \<le> 8" for k using room_sub [OF assms(1), of 0 k] that by simp
  show "\<exists>m'. aws_write_u64 big m x p = Inr m' \<and> holds m' p (be_bytes 8 x) \<and> aws_read_u64 big m' p = Inr x"
    unfolding aws_write_u64_def aws_read_u64_def aws_ntoh64_def aws_hton64_eq by (rule accessor_ok) (use r in simp_all)
  show "\<exists>m'. aws_write_u32 big m y p = Inr m' \<and> holds m' p (be_bytes 4 y) \<and> aws_read_u32 big m' p = Inr y"
    unfolding aws_write_u32_def aws_read_u32_def aws_ntoh32_def aws_hton32_def by (rule accessor_ok) (use r in simp_all)
  show "\<exists>m'. aws_write_u16 big m w p = Inr m' \<and> holds m' p (be_bytes 2 w) \<and> aws_read_u16 big m' p = Inr w"
    unfolding aws_write_u16_def aws_read_u16_def aws_ntoh16_def aws_hton16_def by (rule accessor_ok) (use r in simp_all)
  have e: "drop 1 (host_bytes big 4 (hton big 4 z)) = be_bytes 3 z" "hton big 4 (host_word big (0 # be_bytes 3 z)) = z"
    using be_bytes_4 [OF assms(2)] hton_network [of 4 big z] host_bytes_hton [of 4 big z] by simp_all
  have "be_bytes 3 z \<noteq> []" "room m p (length (be_bytes 3 z))" using r [of 3] by (auto dest: arg_cong [of _ _ length])
  from store_known [OF this(2,1)] obtain m' where "store_bytes m p (map Some (be_bytes 3 z)) = Inr m'" "holds m' p (be_bytes 3 z)" "load_known m' p 3 = Inr (be_bytes 3 z)"
    by (metis length_le_bytes(1) length_rev)
  then show "\<exists>m'. aws_write_u24 big m z p = Inr m' \<and> holds m' p (be_bytes 3 z) \<and> aws_read_u24 big m' p = Inr z"
    unfolding aws_write_u24_def aws_read_u24_def aws_ntoh32_def aws_hton32_def e(1) by (intro exI [of _ m']) (simp add: e(2))
qed

lemma starts_with_literal_ok: "holds m p xs \<Longrightarrow> length vs \<le> length xs \<Longrightarrow> starts_with_literal m p vs = Inr (take (length vs) xs = vs)"
proof (induction vs arbitrary: p xs)
  case (Cons v vs)
  then obtain x ys where x: "xs = x # ys" by (cases xs) auto
  have h: "holds m p [x]" "holds m (ptr_add p 1) ys" using Cons.prems(1) holds_Cons [of m p x ys] by (simp_all only: x)
  have "load_u8 m p 0 = Inr x" using load_u8_holds [OF h(1), of 0] by simp
  then show ?case using Cons.IH [OF h(2)] Cons.prems(2) by (auto simp: x)
qed simp

lemma and_1_odd: "(w :: size_t) AND 1 \<noteq> 0 \<longleftrightarrow> odd (unat w)"
proof -
  have "w AND 1 = word_of_nat (unat w mod 2)" by (simp add: and_one_eq unat_mod word_unat_eq_iff unsigned_of_nat take_bit_nat_eq_self)
  then show ?thesis by (auto simp: odd_iff_mod_2_eq_one mod2_eq_if)
qed

lemma hex_encode_ok:
  assumes c: "cur_holds m c xs" and b: "aws_byte_buf_is_valid buf" "room m (b_buffer buf) (unat (b_capacity buf))"
    and n: "2 * length xs + 1 \<le> unat (b_capacity buf)" and ap: "apart (c_ptr c) (length xs) (b_buffer buf) (unat (b_capacity buf))"
  obtains m' where "aws_hex_encode m c buf = (AWS_OP_SUCCESS, buf\<lparr>b_len := push_bit 1 (c_len c) + 1\<rparr>, m')"
    "buf_holds m' (buf\<lparr>b_len := push_bit 1 (c_len c) + 1\<rparr>) (hex_of xs @ [0])"
    "changed_only m (b_buffer buf) (unat (b_capacity buf)) m'"
proof -
  have cl: "unat (c_len c) = length xs" "holds m (c_ptr c) xs" using c by (simp_all add: cur_holds_def)
  have "unat (b_capacity buf) < 2 ^ 64" by simp
  then have lim: "2 * length xs + 1 < 2 ^ 64" using n by linarith
  let ?e = "push_bit 1 (c_len c) + 1"
  have pb: "push_bit 1 (c_len c) = c_len c + c_len c" by (simp add: push_bit_eq_mult)
  have s: "unat (c_len c + c_len c) = 2 * length xs" using cl(1) lim by (subst unat_add_exact) auto
  have "unat (c_len c + c_len c + 1) = unat (c_len c + c_len c) + unat (1 :: size_t)" by (rule unat_add_exact) (use s lim in simp)
  then have e: "unat ?e = 2 * length xs + 1" unfolding pb s by simp
  then have el: "aws_hex_compute_encoded_len (c_len c) = Inr ?e" "\<not> b_capacity buf < ?e"
    using cl(1) n by (simp_all add: aws_hex_compute_encoded_len_def word_less_nat_alt)
  have r: "room m (ptr_add (b_buffer buf) 0) (2 * length xs)" and a0: "apart (c_ptr c) (length xs) (ptr_add (b_buffer buf) 0) (2 * length xs)"
    using room_sub [OF b(2), of 0 "2 * length xs"] n apart_sub [OF ap, of 0 "length xs" 0 "2 * length xs"] by simp_all
  obtain m1 where m1: "hex_encode_loop m (c_ptr c) (b_buffer buf) 0 0 (length xs) = Inr (0 + 2 * length xs, m1)" "wrote m (b_buffer buf) 0 (hex_of xs) m1"
    using hex_encode_loop_ok [OF cl(2) _ r a0, of 0] by auto
  obtain m2 where m2: "store_u8 m1 (b_buffer buf) (2 * length xs) 0 = Inr m2" "wrote m1 (b_buffer buf) (2 * length xs) [0] m2"
    by (rule store_u8_wrote [of m1 "b_buffer buf" "2 * length xs" 0]) (use room_sub [OF b(2), of "2 * length xs" 1] n wrote_room [OF m1(2)] in simp_all)
  have w: "wrote m (b_buffer buf) 0 (hex_of xs @ [0]) m2" using wrote_append [OF m1(2), of "[0]" m2] m2(2) by simp
  have "buf_holds m2 (buf\<lparr>b_len := ?e\<rparr>) (hex_of xs @ [0])"
    by (rule wrote_buf [OF b, where zs = "[]"]) (use w n e in simp_all)
  moreover have "changed_only m (b_buffer buf) (unat (b_capacity buf)) m2"
    using w n changed_only_mono [of m "b_buffer buf" 0 "length (hex_of xs @ [0])" m2] by (simp add: wrote_def)
  moreover have "aws_hex_encode m c buf = (AWS_OP_SUCCESS, buf\<lparr>b_len := ?e\<rparr>, m2)"
    using el m1(1) m2(1) cl(1) by (simp add: aws_hex_encode_def buf_step_def)
  ultimately show thesis by (intro that)
qed

lemma hex_decode_ok:
  assumes c: "cur_holds m c cs" "length cs < 2 ^ 64 - 1" and b: "aws_byte_buf_is_valid buf" "room m (b_buffer buf) (unat (b_capacity buf))"
    and n: "(length cs + 1) div 2 \<le> unat (b_capacity buf)" and ap: "apart (c_ptr c) (length cs) (b_buffer buf) (unat (b_capacity buf))"
  shows "\<exists>r buf' m'. aws_hex_decode m c buf = (r, buf', m') \<and>
     (if \<forall>ch \<in> set cs. hexv ch \<noteq> None
      then r = AWS_OP_SUCCESS \<and> buf_holds m' buf' (unhex (if odd (length cs) then 48 # cs else cs)) \<and> b_buffer buf' = b_buffer buf
      else r = aws_raise_error AWS_ERROR_INVALID_HEX_STR \<and> buf' = buf)"
proof -
  have cl: "unat (c_len c) = length cs" "holds m (c_ptr c) cs" using c by (simp_all add: cur_holds_def)
  let ?d = "drop_bit 1 (c_len c + 1)"
  have l1: "unat (c_len c + 1) = length cs + 1" using cl(1) c(2) by (subst unat_add_exact) auto
  then have d: "unat ?d = (length cs + 1) div 2" by (simp add: drop_bit_eq_div unat_div)
  have dl: "aws_hex_compute_decoded_len (c_len c) = Inr ?d" "\<not> b_capacity buf < ?d"
    using cl(1) l1 d n by (simp_all add: aws_hex_compute_decoded_len_def word_less_nat_alt Let_def)
  show ?thesis
  proof (cases "odd (length cs)")
    case False
    have r: "room m (ptr_add (b_buffer buf) 0) (length cs div 2)" "apart (c_ptr c) (length cs) (ptr_add (b_buffer buf) 0) (length cs div 2)"
      using room_sub [OF b(2), of 0 "length cs div 2"] n apart_sub [OF ap, of 0 "length cs" 0 "length cs div 2"] by simp_all
    have e0: "length cs = 0 + 2 * (length cs div 2)" using False by simp
    obtain r' m' where m': "hex_decode_loop m (c_ptr c) (b_buffer buf) 0 0 (length cs div 2) = (r', m')"
      "if \<forall>ch \<in> set cs. hexv ch \<noteq> None then r' = AWS_OP_SUCCESS \<and> wrote m (b_buffer buf) 0 (unhex cs) m'
       else r' = aws_raise_error AWS_ERROR_INVALID_HEX_STR \<and> changed_only m (ptr_add (b_buffer buf) 0) (length cs div 2) m'"
      using hex_decode_loop_ok [OF cl(2) e0 r] unfolding drop0 by blast
    have "aws_hex_decode m c buf = (case r' of Inl e \<Rightarrow> (Inl e, buf, m') | Inr _ \<Rightarrow> (AWS_OP_SUCCESS, buf\<lparr>b_len := ?d\<rparr>, m'))"
      using dl m'(1) cl(1) False and_1_odd [of "c_len c"] by (auto simp: aws_hex_decode_def split: sum.splits)
    moreover have "buf_holds m' (buf\<lparr>b_len := ?d\<rparr>) (unhex cs)" if "wrote m (b_buffer buf) 0 (unhex cs) m'"
      by (rule wrote_buf [OF b, where zs = "[]"]) (use that n d False in \<open>auto simp: length_unhex\<close>)
    ultimately show ?thesis using m'(2) False by (auto split: if_splits)
  next
    case True
    then obtain x xs where x: "cs = x # xs" by (cases cs) auto
    have ch: "hex_decode_char m (c_ptr c) 0 = (case hexv x of None \<Rightarrow> aws_raise_error AWS_ERROR_INVALID_HEX_STR | Some v \<Rightarrow> Inr v)"
      using hex_decode_char_ok [OF cl(2), of 0] x by simp
    have od: "c_len c AND 1 \<noteq> 0" using and_1_odd [of "c_len c"] cl(1) True by simp
    show ?thesis
    proof (cases "hexv x")
      case None
      then show ?thesis using dl ch od x by (auto simp: aws_hex_decode_def)
    next
      case (Some v)
      have e: "even (length xs)" "length cs div 2 = length xs div 2" "length cs = 1 + 2 * (length xs div 2)" using True x by auto
      obtain m1 where m1: "store_u8 m (b_buffer buf) 0 v = Inr m1" "wrote m (b_buffer buf) 0 [v] m1"
        by (rule store_u8_wrote [of m "b_buffer buf" 0 v]) (use room_sub [OF b(2), of 0 1] n x in simp_all)
      have h1: "holds m1 (c_ptr c) cs" by (rule wrote_keeps [OF m1(2) cl(2)]) (use apart_sub [OF ap, of 0 "length cs" 0 1] n x in simp)
      have r: "room m1 (ptr_add (b_buffer buf) 1) (length xs div 2)" "apart (c_ptr c) (length cs) (ptr_add (b_buffer buf) 1) (length xs div 2)"
        using room_sub [OF b(2), of 1 "length xs div 2"] wrote_room [OF m1(2)] n e x apart_sub [OF ap, of 0 "length cs" 1 "length xs div 2"] by simp_all
      have dx: "drop 1 cs = xs" using x by simp
      obtain r' m' where m': "hex_decode_loop m1 (c_ptr c) (b_buffer buf) 1 1 (length xs div 2) = (r', m')"
        "if \<forall>ch \<in> set xs. hexv ch \<noteq> None then r' = AWS_OP_SUCCESS \<and> wrote m1 (b_buffer buf) 1 (unhex xs) m'
         else r' = aws_raise_error AWS_ERROR_INVALID_HEX_STR \<and> changed_only m1 (ptr_add (b_buffer buf) 1) (length xs div 2) m'"
        using hex_decode_loop_ok [OF h1 e(3) r] unfolding dx by blast
      have ev: "aws_hex_decode m c buf = (case r' of Inl e \<Rightarrow> (Inl e, buf, m') | Inr _ \<Rightarrow> (AWS_OP_SUCCESS, buf\<lparr>b_len := ?d\<rparr>, m'))"
        using dl m'(1) cl(1) od ch Some m1(1) e(2) by (auto simp: aws_hex_decode_def split: sum.splits)
      have u: "hexv 48 = Some 0" by (simp add: s_hex_decode_char_to_int_def)
      have "buf_holds m' (buf\<lparr>b_len := ?d\<rparr>) (v # unhex xs)" if "wrote m1 (b_buffer buf) 1 (unhex xs) m'"
        by (rule wrote_buf [OF b, where zs = "[]"]) (use wrote_append [OF m1(2), of "unhex xs" m'] that n d e x in \<open>auto simp: length_unhex\<close>)
      then show ?thesis using m'(2) ev True Some by (auto simp: x u split: if_splits)
    qed
  qed
qed

section \<open>Base64\<close>

lemma blocks_step: "(5 + n) div 3 = Suc (Suc (Suc n) div 3)"
proof -
  have "5 + n = Suc (Suc n) + 3" by simp
  then show ?thesis by (simp only: div_add_self2 zero_neq_numeral not_False_eq_True)
qed

lemma length_raw64: "length (raw64 xs) = 4 * ((length xs + 2) div 3)"
  by (induction xs rule: raw64.induct) (simp_all add: blocks_step)

lemma length_base64: "length (base64 xs) = 4 * ((length xs + 2) div 3)"
  by (induction xs rule: base64.induct) (simp_all add: blocks_step)

lemma unat_ucast_u8_32 [simp]: "unat (ucast (x :: u8) :: u32) = unat x"
proof -
  have "unat x < 256" using unsigned_less [of x] by simp
  then show ?thesis by (simp add: unsigned_ucast_eq take_bit_nat_eq_self)
qed

lemma block_sextets:
  fixes a b c :: u8
  defines "block \<equiv> push_bit 8 (push_bit 8 (ucast a) OR ucast b) OR (ucast c :: u32)"
  shows "[drop_bit 18 block AND 0x3F, drop_bit 12 block AND 0x3F, drop_bit 6 block AND 0x3F, block AND 0x3F] = map ucast (sextets a b c)"
proof -
  have m: "0x3F = (mask 6 :: u32)" by (simp add: mask_eq_exp_minus_1)
  show ?thesis unfolding m block_def sextets.simps list.map list.inject
    by (intro conjI refl; rule bit_word_eqI) (auto simp: bit_or_iff bit_push_bit_iff bit_and_iff bit_drop_bit_eq bit_mask_iff bit_unsigned_iff bit_take_bit_iff dest: bit_imp_le_length)
qed

lemma ENC_nth:
  "i < 26 \<Longrightarrow> BASE64_ENCODING_TABLE ! i = word_of_nat (65 + i)" "i < 26 \<Longrightarrow> BASE64_ENCODING_TABLE ! (26 + i) = word_of_nat (97 + i)"
  "i < 10 \<Longrightarrow> BASE64_ENCODING_TABLE ! (52 + i) = word_of_nat (48 + i)" "BASE64_ENCODING_TABLE ! 62 = 43" "BASE64_ENCODING_TABLE ! 63 = 47"
  unfolding BASE64_ENCODING_TABLE_def by (simp_all add: nth_append nth_Cons' del: upt_rec_numeral upt_Suc of_nat_add)

lemma DEC_nth:
  "i < 26 \<Longrightarrow> BASE64_DECODING_TABLE ! (65 + i) = word_of_nat i" "i < 26 \<Longrightarrow> BASE64_DECODING_TABLE ! (97 + i) = word_of_nat (26 + i)"
  "i < 10 \<Longrightarrow> BASE64_DECODING_TABLE ! (48 + i) = word_of_nat (52 + i)" "BASE64_DECODING_TABLE ! 43 = 62" "BASE64_DECODING_TABLE ! 47 = 63"
  "BASE64_DECODING_TABLE ! 61 = 255" "BASE64_DECODING_TABLE ! 0 = 64"
  unfolding BASE64_DECODING_TABLE_def by (simp_all add: nth_append nth_Cons' del: upt_rec_numeral upt_Suc of_nat_add)

lemma sextet_cases:
  assumes "v < (64 :: nat)"
  obtains "v < 26" | i where "v = 26 + i" "i < 26" | i where "v = 52 + i" "i < 10" | "v = 62" | "v = 63"
proof -
  have "v < 26 \<or> v = 26 + (v - 26) \<and> v - 26 < 26 \<or> v = 52 + (v - 52) \<and> v - 52 < 10 \<or> v = 62 \<or> v = 63" using assms by arith
  then show thesis using that by blast
qed

lemma dec_enc:
  assumes "v < 64" shows "BASE64_DECODING_TABLE ! unat (BASE64_ENCODING_TABLE ! v) = word_of_nat v" "BASE64_ENCODING_TABLE ! v \<noteq> 61"
proof -
  have u: "unat (word_of_nat k :: u8) = k" if "k < 256" for k using that by (simp add: unsigned_of_nat take_bit_nat_eq_self)
  have "BASE64_DECODING_TABLE ! unat (BASE64_ENCODING_TABLE ! v) = word_of_nat v \<and> unat (BASE64_ENCODING_TABLE ! v) \<noteq> 61"
    using assms by (cases rule: sextet_cases) (simp_all add: ENC_nth DEC_nth u del: of_nat_add)
  then show "BASE64_DECODING_TABLE ! unat (BASE64_ENCODING_TABLE ! v) = word_of_nat v" "BASE64_ENCODING_TABLE ! v \<noteq> 61" by auto
qed

lemma get_decoded_enc:
  assumes "v < (64 :: u8)" shows "s_base64_get_decoded_value (enc64 v) allow = Some v" "enc64 v \<noteq> 61"
proof -
  have "unat v < 64" using assms by (simp add: word_less_nat_alt)
  note d = dec_enc [OF this]
  have "v \<noteq> 0xDD" "v \<noteq> 0xff" using assms by auto
  then show "s_base64_get_decoded_value (enc64 v) allow = Some v" using d(1)
    by (simp add: s_base64_get_decoded_value_def BASE64_SENTIANAL_VALUE_def)
  show "enc64 v \<noteq> 61" by (rule d(2))
qed

lemma get_decoded_pad: "s_base64_get_decoded_value 61 True = Some BASE64_SENTIANAL_VALUE" "s_base64_get_decoded_value 61 False = None"
  using DEC_nth(6) by (simp_all add: s_base64_get_decoded_value_def BASE64_SENTIANAL_VALUE_def)

lemma bits8_eqI:
  fixes x y :: u8
  assumes "bit x 0 = bit y 0" "bit x 1 = bit y 1" "bit x 2 = bit y 2" "bit x 3 = bit y 3"
    "bit x 4 = bit y 4" "bit x 5 = bit y 5" "bit x 6 = bit y 6" "bit x 7 = bit y 7"
  shows "x = y"
proof (rule bit_word_eqI)
  fix n assume "n < LENGTH(8)"
  then have "n = 0 \<or> n = 1 \<or> n = 2 \<or> n = 3 \<or> n = 4 \<or> n = 5 \<or> n = 6 \<or> n = 7" by auto
  then show "bit x n = bit y n" using assms by (elim disjE) simp_all
qed

lemma no_bit8: "8 \<le> n \<Longrightarrow> \<not> bit (x :: u8) n"
  using bit_imp_le_length [of x n] by auto

lemma sextets_small: "v \<in> set (sextets a b c) \<Longrightarrow> v < 64"
proof -
  have m: "x < 64" if "\<not> bit x 6" "\<not> bit x 7" for x :: u8
  proof -
    have "take_bit 6 x = x" by (rule bits8_eqI) (use that in \<open>simp_all add: bit_take_bit_iff\<close>)
    then have "unat x = take_bit 6 (unat x)" by (metis unsigned_take_bit_eq)
    then have "unat x < 2 ^ 6" by (metis take_bit_nat_less_exp)
    then show ?thesis by (simp add: word_less_nat_alt)
  qed
  assume "v \<in> set (sextets a b c)"
  then show "v < 64" by (intro m) (auto simp: bit_or_iff bit_push_bit_iff bit_drop_bit_eq bit_take_bit_iff no_bit8)
qed

lemma sextets_decode:
  "decoded1 (sextets a b c ! 0) (sextets a b c ! 1) = a" "decoded2 (sextets a b c ! 1) (sextets a b c ! 2) = b"
  "decoded3 (sextets a b c ! 2) (sextets a b c ! 3) = c"
proof -
  have m: "0x03 = (mask 2 :: u8)" "0x0F = (mask 4 :: u8)" "0xF0 = (push_bit 4 (mask 4) :: u8)"
    by (simp_all add: mask_eq_exp_minus_1 push_bit_eq_mult)
  show "decoded1 (sextets a b c ! 0) (sextets a b c ! 1) = a" "decoded2 (sextets a b c ! 1) (sextets a b c ! 2) = b"
    "decoded3 (sextets a b c ! 2) (sextets a b c ! 3) = c"
    unfolding decoded1_def decoded2_def decoded3_def m
    by (rule bits8_eqI; simp add: bit_or_iff bit_push_bit_iff bit_and_iff bit_drop_bit_eq bit_mask_iff bit_take_bit_iff no_bit8)+
qed

lemma get_values_ok:
  "holds m src cs \<Longrightarrow> j + length fl \<le> length cs \<Longrightarrow> length vs = length fl \<Longrightarrow>
   (\<And>k. k < length fl \<Longrightarrow> s_base64_get_decoded_value (cs ! (j + k)) (fl ! k) = Some (vs ! k)) \<Longrightarrow>
   base64_get_values m src j fl = Inr vs"
proof (induction fl arbitrary: j vs)
  case (Cons f fl)
  obtain v us where v: "vs = v # us" using Cons.prems(3) by (cases vs) auto
  have "s_base64_get_decoded_value (cs ! j) f = Some v" using Cons.prems(4) [of 0] by (simp add: v)
  moreover have "base64_get_values m src (j + 1) fl = Inr us"
    by (rule Cons.IH [OF Cons.prems(1)]) (use Cons.prems(2,3) Cons.prems(4) [of "Suc k" for k] in \<open>auto simp: v\<close>)
  moreover have "load_u8 m src j = Inr (cs ! j)" using Cons.prems(1,2) by simp
  ultimately show ?case by (simp add: v)
qed simp

lemma enc64_sextets: "map (\<lambda>w. BASE64_ENCODING_TABLE ! unat w) (map ucast (sextets a b c) :: u32 list) = map enc64 (sextets a b c)"
  by simp

lemma raw64_drop:
  assumes "i < length xs"
  shows "raw64 (drop i xs) = map enc64 (sextets (xs ! i) (if i + 1 < length xs then xs ! (i + 1) else 0) (if i + 2 < length xs then xs ! (i + 2) else 0)) @
    raw64 (drop (i + 3) xs)"
proof -
  have 1: "drop i xs = xs ! i # drop (i + 1) xs" using assms by (simp add: Cons_nth_drop_Suc)
  consider "i + 1 \<ge> length xs" | "i + 1 < length xs" "i + 2 \<ge> length xs" | "i + 2 < length xs" by linarith
  then show ?thesis
  proof cases
    case 1
    then show ?thesis using \<open>drop i xs = _\<close> by simp
  next
    case 2
    then have "drop (i + 1) xs = [xs ! (i + 1)]" using Cons_nth_drop_Suc [of "i + 1" xs] by simp
    then show ?thesis using \<open>drop i xs = _\<close> 2 by simp
  next
    case 3
    then have "drop (i + 1) xs = xs ! (i + 1) # xs ! (i + 2) # drop (i + 3) xs"
      using Cons_nth_drop_Suc [of "i + 1" xs] Cons_nth_drop_Suc [of "i + 2" xs] by (simp add: numeral_3_eq_3)
    then show ?thesis using \<open>drop i xs = _\<close> 3 by simp
  qed
qed

lemma blocks_next:
  assumes "Suc n = (k + 2) div 3" shows "n = (k - 3 + 2) div (3 :: nat)"
proof -
  obtain j r where k: "k + 2 = 3 * j + r" "r < 3" by (metis mod_less_divisor mult_div_mod_eq zero_less_numeral)
  then have "j = Suc n" using assms by simp
  then show ?thesis using k by (cases "k < 3") auto
qed

lemma base64_encode_loop_ok:
  "holds m src xs \<Longrightarrow> n = (length xs - i + 2) div 3 \<Longrightarrow> room m (ptr_add buffer idx) (4 * n) \<Longrightarrow>
   apart src (length xs) (ptr_add buffer idx) (4 * n) \<Longrightarrow>
   \<exists>m'. base64_encode_loop m src (length xs) buffer i idx n = Inr m' \<and> wrote m buffer idx (raw64 (drop i xs)) m'"
proof (induction n arbitrary: m i idx)
  case 0
  then have "drop i xs = []" by simp
  then show ?case by simp
next
  case (Suc n)
  have i: "i < length xs" using Suc.prems(2) by (rule_tac ccontr) simp
  let ?a = "xs ! i" and ?b = "if i + 1 < length xs then xs ! (i + 1) else 0" and ?c = "if i + 2 < length xs then xs ! (i + 2) else 0"
  let ?bl = "push_bit 8 (push_bit 8 (ucast ?a) OR ucast ?b) OR (ucast ?c :: u32)"
  let ?vs = "map enc64 (sextets ?a ?b ?c)"
  have "map (\<lambda>w. BASE64_ENCODING_TABLE ! unat w) [drop_bit 18 ?bl AND 0x3F, drop_bit 12 ?bl AND 0x3F, drop_bit 6 ?bl AND 0x3F, ?bl AND 0x3F] = ?vs"
    unfolding block_sextets by (rule enc64_sextets)
  then have vs: "[BASE64_ENCODING_TABLE ! unat (drop_bit 18 ?bl AND 0x3F), BASE64_ENCODING_TABLE ! unat (drop_bit 12 ?bl AND 0x3F),
      BASE64_ENCODING_TABLE ! unat (drop_bit 6 ?bl AND 0x3F), BASE64_ENCODING_TABLE ! unat (?bl AND 0x3F)] = ?vs"
    unfolding list.map .
  have lv: "length ?vs = 4" by simp
  have r: "room m (ptr_add buffer idx) (length ?vs)" unfolding lv using room_sub [OF Suc.prems(3), of 0 4] by simp
  obtain m1 where m1: "store_all m buffer idx ?vs = Inr m1" "wrote m buffer idx ?vs m1" using store_all_ok [OF r] by blast
  have h1: "holds m1 src xs" by (rule wrote_keeps [OF m1(2) Suc.prems(1)]) (unfold lv, use apart_sub [OF Suc.prems(4), of 0 "length xs" 0 4] in simp)
  have "n = (length xs - (i + 3) + 2) div 3" using Suc.prems(2) i blocks_next by simp
  moreover have "room m1 (ptr_add buffer (idx + 4)) (4 * n)" "apart src (length xs) (ptr_add buffer (idx + 4)) (4 * n)"
    using room_sub [OF Suc.prems(3), of 4 "4 * n"] wrote_room [OF m1(2)] apart_sub [OF Suc.prems(4), of 0 "length xs" 4 "4 * n"] by simp_all
  ultimately obtain m2 where m2: "base64_encode_loop m1 src (length xs) buffer (i + 3) (idx + 4) n = Inr m2" "wrote m1 buffer (idx + 4) (raw64 (drop (i + 3) xs)) m2"
    using Suc.IH [OF h1] by blast
  have "load_u8 m src i = Inr ?a" "i + 1 < length xs \<Longrightarrow> load_u8 m src (i + 1) = Inr ?b" "i + 2 < length xs \<Longrightarrow> load_u8 m src (i + 2) = Inr ?c"
    using Suc.prems(1) i by simp_all
  then have "base64_encode_loop m src (length xs) buffer i idx (Suc n) =
      bind_res (store_all m buffer idx [BASE64_ENCODING_TABLE ! unat (drop_bit 18 ?bl AND 0x3F), BASE64_ENCODING_TABLE ! unat (drop_bit 12 ?bl AND 0x3F),
      BASE64_ENCODING_TABLE ! unat (drop_bit 6 ?bl AND 0x3F), BASE64_ENCODING_TABLE ! unat (?bl AND 0x3F)]) (\<lambda>m. base64_encode_loop m src (length xs) buffer (i + 3) (idx + 4) n)"
    unfolding base64_encode_loop.simps Let_def by (cases "i + 1 < length xs"; cases "i + 2 < length xs") (simp_all del: store_all.simps)
  then have "base64_encode_loop m src (length xs) buffer i idx (Suc n) = Inr m2" unfolding vs using m1(1) m2(1) by simp
  moreover have "wrote m buffer idx (raw64 (drop i xs)) m2"
    unfolding raw64_drop [OF i] by (rule wrote_append [OF m1(2)]) (unfold lv, rule m2(2))
  ultimately show ?case by blast
qed

text \<open>Overwriting one of the bytes written before.\<close>

lemma wrote_patch:
  assumes 1: "wrote m p i (ys @ y # zs) m1" and 2: "wrote m1 p (i + length ys) [v] m2"
  shows "wrote m p i (ys @ v # zs) m2"
proof -
  have h: "holds m1 (ptr_add p i) ys" "holds m1 (ptr_add p (i + length ys + 1)) zs"
    using 1 holds_Cons [of m1 "ptr_add p (i + length ys)" y zs] by (simp_all add: wrote_def holds_append)
  have "holds m2 (ptr_add p i) ys" by (rule wrote_keeps [OF 2 h(1)]) (cases p; simp)
  moreover have "holds m2 (ptr_add p (i + length ys + 1)) zs" by (rule wrote_keeps [OF 2 h(2)]) (cases p; simp)
  ultimately have "holds m2 (ptr_add p i) (ys @ v # zs)"
    using 2 holds_Cons [of m2 "ptr_add p (i + length ys)" v zs] by (simp add: wrote_def holds_append)
  moreover have "changed_only m1 (ptr_add p i) (length (ys @ v # zs)) m2"
    using 2 changed_only_mono [of m1 "ptr_add p i" "length ys" 1 m2 "length (ys @ v # zs)"] by (simp add: wrote_def)
  ultimately show ?thesis using 1 changed_only_trans [of m "ptr_add p i" "length (ys @ v # zs)" m1 m2] by (simp add: wrote_def)
qed

lemma base64_raw:
  "length xs mod 3 = 0 \<Longrightarrow> base64 xs = raw64 xs"
  "length xs mod 3 = 1 \<Longrightarrow> \<exists>ys y z. raw64 xs = ys @ [y, z] \<and> base64 xs = ys @ [61, 61]"
  "length xs mod 3 = 2 \<Longrightarrow> \<exists>ys z. raw64 xs = ys @ [z] \<and> base64 xs = ys @ [61]"
proof (induction xs rule: raw64.induct)
  case (1 a b c xs)
  have "length (a # b # c # xs) = length xs + 3" by simp
  then have m: "length (a # b # c # xs) mod 3 = length xs mod 3" by (simp only: mod_add_self2)
  { case 1
    then show ?case using "1.IH"(1) m by simp }
  { case 2
    then obtain ys y z where "raw64 xs = ys @ [y, z]" "base64 xs = ys @ [61, 61]" using "1.IH"(2) m by metis
    then show ?case by (intro exI [of _ "map enc64 (sextets a b c) @ ys"] exI [of _ y] exI [of _ z]) simp }
  { case 3
    then obtain ys z where "raw64 xs = ys @ [z]" "base64 xs = ys @ [61]" using "1.IH"(3) m by metis
    then show ?case by (intro exI [of _ "map enc64 (sextets a b c) @ ys"] exI [of _ z]) simp }
qed auto

lemma base64_sizes:
  fixes len :: size_t
  assumes "unat len = n" "4 * ((n + 2) div 3) + 1 < 2 ^ 64" "n < 2 ^ 64 - 3"
  shows "aws_base64_compute_encoded_len len = Inr (4 * ((len + 2) div 3) + 1)" "unat (4 * ((len + 2) div 3) + 1) = 4 * ((n + 2) div 3) + 1"
    "unat ((len + 2) div 3) = (n + 2) div 3" "unat (4 * ((len + 2) div 3)) = 4 * ((n + 2) div 3)" "unat (len mod 3) = n mod 3"
proof -
  have l2: "unat (len + 2) = n + 2" using assms(1,3) by (subst unat_add_exact) auto
  then show d: "unat ((len + 2) div 3) = (n + 2) div 3" by (simp add: unat_div)
  then show f: "unat (4 * ((len + 2) div 3)) = 4 * ((n + 2) div 3)" using assms(2) unat_mul_exact [of 4 "(len + 2) div 3"] by simp
  then show g: "unat (4 * ((len + 2) div 3) + 1) = 4 * ((n + 2) div 3) + 1" using assms(2) unat_add_exact [of "4 * ((len + 2) div 3)" 1] by simp
  have "\<not> len + 2 < len" "\<not> 4 * ((len + 2) div 3) + 1 < (len + 2) div 3" unfolding word_less_nat_alt l2 g d using assms(1) by simp_all
  then show "aws_base64_compute_encoded_len len = Inr (4 * ((len + 2) div 3) + 1)" by (simp add: aws_base64_compute_encoded_len_def Let_def)
  show "unat (len mod 3) = n mod 3" using assms(1) by (simp add: unat_mod)
qed

text \<open>The padding characters, stored over the encoding of the missing bytes.\<close>

lemma base64_pad:
  assumes w: "wrote m p i (raw64 xs) m1" and r: "room m (ptr_add p i) (length (raw64 xs))" and e: "e = i + length (raw64 xs)"
  shows "\<exists>m2. (if length xs mod 3 > 0 then bind_res (store_u8 m1 p (e - 1) 61) (\<lambda>m. if length xs mod 3 = 1 then store_u8 m p (e - 2) 61 else Inr m)
      else Inr m1) = Inr m2 \<and> wrote m p i (base64 xs) m2"
proof -
  have "length xs mod 3 < 3" by simp
  then consider "length xs mod 3 = 0" | "length xs mod 3 = 1" | "length xs mod 3 = 2" by linarith
  then show ?thesis
  proof cases
    case 1
    then show ?thesis using w base64_raw(1) by auto
  next
    case 2
    obtain ys y z where y: "raw64 xs = ys @ [y, z]" "base64 xs = ys @ [61, 61]" using base64_raw(2) [OF 2] by blast
    have r2: "room m1 (ptr_add p (i + length ys)) 1" "room m1 (ptr_add p (i + length (ys @ [y]))) 1"
      using room_sub [OF r, of "length ys" 1] room_sub [OF r, of "length ys + 1" 1] wrote_room [OF w] y(1) by simp_all
    obtain m2 where m2: "store_u8 m1 p (i + length (ys @ [y])) 61 = Inr m2" "wrote m1 p (i + length (ys @ [y])) [61] m2"
      by (rule store_u8_wrote [OF r2(2), of 61])
    have w2: "wrote m p i (ys @ y # [61]) m2" using wrote_patch [OF _ m2(2), of m z "[]"] w y(1) by simp
    have "room m2 (ptr_add p (i + length ys)) 1" using r2(1) wrote_room [OF m2(2)] by simp
    then obtain m3 where m3: "store_u8 m2 p (i + length ys) 61 = Inr m3" "wrote m2 p (i + length ys) [61] m3" by (rule store_u8_wrote)
    have "wrote m p i (ys @ 61 # [61]) m3" by (rule wrote_patch [OF w2 m3(2)])
    then show ?thesis using 2 m2(1) m3(1) y e by simp
  next
    case 3
    obtain ys z where y: "raw64 xs = ys @ [z]" "base64 xs = ys @ [61]" using base64_raw(3) [OF 3] by blast
    have r2: "room m1 (ptr_add p (i + length ys)) 1" using room_sub [OF r, of "length ys" 1] wrote_room [OF w] y(1) by simp
    obtain m2 where m2: "store_u8 m1 p (i + length ys) 61 = Inr m2" "wrote m1 p (i + length ys) [61] m2" by (rule store_u8_wrote [OF r2])
    have "wrote m p i (ys @ 61 # []) m2" using wrote_patch [OF _ m2(2), of m z "[]"] w y(1) by simp
    then show ?thesis using 3 m2(1) y e by simp
  qed
qed

lemma base64_encode_ok:
  assumes c: "cur_holds m c xs" and b: "buf_holds m buf zs" and ap: "off_tail buf c" "length xs < 2 ^ 63"
    and n: "length zs + 4 * ((length xs + 2) div 3) + 1 \<le> unat (b_capacity buf)"
  obtains buf' m' where "aws_base64_encode m c buf = (AWS_OP_SUCCESS, buf', m')" "buf_holds m' buf' (zs @ base64 xs)"
    "holds m' (ptr_add (b_buffer buf) (length zs + length (base64 xs))) [0]" "b_buffer buf' = b_buffer buf"
proof -
  note d = buf_holdsD [OF b]
  let ?l = "c_len c" and ?n = "4 * ((length xs + 2) div 3)"
  have cl: "unat ?l = length xs" "holds m (c_ptr c) xs" using c by (simp_all add: cur_holds_def)
  have cap: "unat (b_capacity buf) < 2 ^ 64" by simp
  have tot: "length zs + ?n + 1 < 2 ^ 64" using n cap by linarith
  have lim: "?n + 1 < 2 ^ 64" "length xs < 2 ^ 64 - 3" using tot ap(2) by simp_all
  note sz = base64_sizes [OF cl(1) lim]
  let ?bc = "(?l + 2) div 3" and ?p = "b_buffer buf"
  have u: "unat (b_len buf + (4 * ?bc + 1)) = length zs + ?n + 1" using tot d(2) sz(2) by (subst unat_add_exact) simp_all
  have need: "aws_add_size_checked (b_len buf) (4 * ?bc + 1) = Inr (b_len buf + (4 * ?bc + 1))" "\<not> b_capacity buf < b_len buf + (4 * ?bc + 1)"
    using n tot d(2) sz(2) u by (simp_all add: aws_add_size_checked_eq word_less_nat_alt)
  have v: "unat (b_len buf + ?bc * 4) = length zs + ?n" using tot d(2) sz(4) by (subst unat_add_exact) (simp_all add: mult.commute)
  have len: "length (raw64 xs) = ?n" "length (base64 xs) = ?n" by (rule length_raw64, rule length_base64)
  have "room m (ptr_add ?p (length zs)) (?n + 1)" using room_sub [OF d(5)] n by simp
  then have r: "room m (ptr_add ?p (length zs)) ?n" "room m (ptr_add ?p (length zs + ?n)) 1"
    using room_sub [of m "ptr_add ?p (length zs)" "?n + 1" 0 ?n] room_sub [of m "ptr_add ?p (length zs)" "?n + 1" ?n 1] by simp_all
  have "apart (c_ptr c) (length xs) (ptr_add ?p (length zs)) ?n"
  proof (cases "xs = []")
    case True
    then show ?thesis using apart_empty by simp
  next
    case False
    then have "apart (ptr_add ?p (length zs)) (unat (b_capacity buf) - length zs) (c_ptr c) (length xs)" using ap(1) cl(1) d(2) by (auto simp: off_tail_def)
    then show ?thesis using apart_sub [of _ _ _ _ 0 ?n 0 "length xs"] n apart_sym by fastforce
  qed
  then obtain m1 where m1: "base64_encode_loop m (c_ptr c) (length xs) ?p 0 (length zs) ((length xs + 2) div 3) = Inr m1" "wrote m ?p (length zs) (raw64 xs) m1"
    using base64_encode_loop_ok [OF cl(2) _ r(1), of 0] by auto
  obtain m2 where m2: "(if length xs mod 3 > 0 then bind_res (store_u8 m1 ?p (length zs + ?n - 1) 61) (\<lambda>m. if length xs mod 3 = 1 then store_u8 m ?p (length zs + ?n - 2) 61 else Inr m)
      else Inr m1) = Inr m2" "wrote m ?p (length zs) (base64 xs) m2"
    using base64_pad [OF m1(2), of "length zs + ?n"] r(1) unfolding len by blast
  have "room m2 (ptr_add ?p (length zs + ?n)) 1" using r(2) wrote_room [OF m2(2)] by simp
  then obtain m3 where m3: "store_u8 m2 ?p (length zs + ?n) 0 = Inr m3" "wrote m2 ?p (length zs + ?n) [0] m3" by (rule store_u8_wrote)
  have w: "wrote m ?p (length zs) (base64 xs @ [0]) m3" by (rule wrote_append [OF m2(2)]) (unfold len, rule m3(2))
  have rc: "0 < ?l mod 3 \<longleftrightarrow> 0 < length xs mod 3" "?l mod 3 = 1 \<longleftrightarrow> length xs mod 3 = 1"
    unfolding word_less_nat_alt word_unat_eq_iff sz(5) by simp_all
  have pos: "unat (b_len buf + ?bc * 4 - 1) = length zs + ?n - 1" "unat (b_len buf + ?bc * 4 - 2) = length zs + ?n - 2" if "0 < length xs mod 3"
  proof -
    have "4 \<le> ?n" using that by (cases xs) auto
    then have "1 \<le> b_len buf + ?bc * 4" "2 \<le> b_len buf + ?bc * 4" unfolding word_le_nat_alt v by simp_all
    then show "unat (b_len buf + ?bc * 4 - 1) = length zs + ?n - 1" "unat (b_len buf + ?bc * 4 - 2) = length zs + ?n - 2"
      using v by (simp_all add: unat_sub_exact)
  qed
  let ?buf = "buf\<lparr>b_len := b_len buf + 4 * ?bc\<rparr>"
  have pad: "(if 0 < ?l mod 3 then bind_res (store_u8 m1 ?p (unat (b_len buf + ?bc * 4 - 1)) 61)
      (\<lambda>m. if ?l mod 3 = 1 then store_u8 m ?p (unat (b_len buf + ?bc * 4 - 2)) 61 else Inr m) else Inr m1) = Inr m2"
    using m2(1) pos unfolding rc by (cases "0 < length xs mod 3") (simp_all cong: if_cong)
  have "4 * ?bc + 1 - 1 = 4 * ?bc" "unat (b_len buf + 4 * ?bc) = length zs + ?n" using v by (simp_all add: mult.commute)
  then have ev: "aws_base64_encode m c buf = (AWS_OP_SUCCESS, ?buf, m3)"
    using need(2) pad m1(1) m3(1) cl(1) d(2) sz(3) by (simp add: aws_base64_encode_def sz(1) need(1) Let_def buf_step_def)
  have "holds m3 ?p zs" by (rule wrote_keeps [OF w d(6)]) (cases ?p; simp)
  then have h: "holds m3 ?p (zs @ base64 xs)" using w by (simp add: wrote_def holds_append)
  have lu: "unat (b_len ?buf) = length (zs @ base64 xs)" using v len by (simp add: mult.commute)
  moreover have "b_len ?buf \<le> b_capacity ?buf" unfolding word_le_nat_alt lu using n len by simp
  moreover have "0 < b_capacity buf" using n by (metis add_is_0 le_zero_eq one_neq_zero unat_0 word_neq_0_conv)
  ultimately have "buf_holds m3 ?buf (zs @ base64 xs)"
    using h b wrote_room [OF w] unfolding buf_holds_def aws_byte_buf_is_valid_def by auto
  moreover have "holds m3 (ptr_add ?p (length zs + length (base64 xs))) [0]" using m3(2) len by (simp add: wrote_def)
  ultimately show thesis by (intro that [of ?buf m3]) (use ev in simp_all)
qed

lemma bind_res_Inr [simp]: "bind_res r Inr = r"
  by (cases r) auto

lemma base64_append: "length ys = 3 * k \<Longrightarrow> base64 (ys @ zs) = base64 ys @ base64 zs"
proof (induction k arbitrary: ys)
  case (Suc k)
  then obtain a b c ys' where y: "ys = a # b # c # ys'" by (metis Suc_length_conv mult_Suc_right numeral_3_eq_3 add_Suc)
  then show ?case using Suc by simp
qed simp

lemma sextets_get: "k < 4 \<Longrightarrow> s_base64_get_decoded_value (enc64 (sextets a b c ! k)) f = Some (sextets a b c ! k)"
  by (rule get_decoded_enc(1)) (rule sextets_small [OF nth_mem], simp)

lemma sextets_obtain:
  obtains s0 s1 s2 s3 where "sextets a b c = [s0, s1, s2, s3]" "decoded1 s0 s1 = a" "decoded2 s1 s2 = b" "decoded3 s2 s3 = c"
    "\<forall>f. s_base64_get_decoded_value (enc64 s0) f = Some s0" "\<forall>f. s_base64_get_decoded_value (enc64 s1) f = Some s1"
      "\<forall>f. s_base64_get_decoded_value (enc64 s2) f = Some s2" "\<forall>f. s_base64_get_decoded_value (enc64 s3) f = Some s3"
      "s2 \<noteq> BASE64_SENTIANAL_VALUE" "s3 \<noteq> BASE64_SENTIANAL_VALUE"
proof -
  obtain s0 s1 s2 s3 where s: "sextets a b c = [s0, s1, s2, s3]" by simp
  have "s_base64_get_decoded_value (enc64 v) f = Some v \<and> v \<noteq> BASE64_SENTIANAL_VALUE" if "v \<in> {s0, s1, s2, s3}" for v f
  proof -
    have "v < 64" by (rule sextets_small [of v a b c]) (use that s in \<open>simp del: sextets.simps\<close>)
    then show ?thesis using get_decoded_enc(1) by (auto simp: BASE64_SENTIANAL_VALUE_def)
  qed
  then show thesis using that [OF s] sextets_decode [of a b c] unfolding s by simp
qed

lemma base64_decode_loop_ok:
  "holds m src cs \<Longrightarrow> drop (4 * i) cs = base64 ys @ rest \<Longrightarrow> length ys = 3 * n \<Longrightarrow> room m (ptr_add buffer (3 * i)) (3 * n) \<Longrightarrow>
   apart src (length cs) (ptr_add buffer (3 * i)) (3 * n) \<Longrightarrow>
   \<exists>m'. base64_decode_loop m src buffer i n = (AWS_OP_SUCCESS, m') \<and> wrote m buffer (3 * i) ys m'"
proof (induction n arbitrary: m i ys)
  case (Suc n)
  obtain a b c ys' where y: "ys = a # b # c # ys'" "length ys' = 3 * n" using Suc.prems(3) by (auto simp: length_Suc_conv numeral_3_eq_3)
  let ?s = "sextets a b c"
  have dr: "drop (4 * i) cs = map enc64 ?s @ base64 ys' @ rest" using Suc.prems(2) by (simp add: y(1))
  have ls: "length ?s = 4" by simp
  have lc: "4 * i + 4 \<le> length cs" using arg_cong [OF dr, of length] ls by (simp del: sextets.simps)
  have nth: "cs ! (4 * i + k) = enc64 (?s ! k)" if "k < 4" for k
    using arg_cong [OF dr, of "\<lambda>l. l ! k"] that lc ls by (simp add: nth_append del: sextets.simps)
  have gv: "base64_get_values m src (4 * i) [False, False, False, False] = Inr ?s"
    by (rule get_values_ok [OF Suc.prems(1)]) (use lc ls in \<open>simp_all add: nth sextets_get del: sextets.simps\<close>)
  have l3: "length [a, b, c] = 3" by simp
  have r: "room m (ptr_add buffer (i * 3)) (length [a, b, c])" unfolding l3 using room_sub [OF Suc.prems(4), of 0 3] by (simp add: mult.commute)
  obtain m1 where m1: "store_all m buffer (i * 3) [a, b, c] = Inr m1" "wrote m buffer (i * 3) [a, b, c] m1" using store_all_ok [OF r] by blast
  have h1: "holds m1 src cs" by (rule wrote_keeps [OF m1(2) Suc.prems(1)]) (unfold l3, use apart_sub [OF Suc.prems(5), of 0 "length cs" 0 3] in \<open>simp add: mult.commute\<close>)
  have "drop (4 * (i + 1)) cs = base64 ys' @ rest"
    using arg_cong [OF dr, of "drop 4"] ls by (simp add: add.commute del: sextets.simps)
  moreover have "room m1 (ptr_add buffer (3 * (i + 1))) (3 * n)" "apart src (length cs) (ptr_add buffer (3 * (i + 1))) (3 * n)"
    using room_sub [OF Suc.prems(4), of 3 "3 * n"] wrote_room [OF m1(2)] apart_sub [OF Suc.prems(5), of 0 "length cs" 3 "3 * n"] by (simp_all add: add.commute)
  ultimately obtain m2 where m2: "base64_decode_loop m1 src buffer (i + 1) n = (AWS_OP_SUCCESS, m2)" "wrote m1 buffer (3 * (i + 1)) ys' m2"
    using Suc.IH [OF h1 _ y(2)] by blast
  have "base64_decode_loop m src buffer i (Suc n) = (AWS_OP_SUCCESS, m2)"
    using gv m1(1) m2(1) unfolding base64_decode_loop.simps gv bind_res.simps Let_def sextets_decode by simp
  moreover have "wrote m buffer (3 * i) ([a, b, c] @ ys') m2"
    using wrote_append [OF m1(2), of ys' m2] m2(2) unfolding l3 by (simp add: mult.commute add.commute)
  ultimately show ?case by (simp add: y(1))
qed simp

lemma base64_decode_last_ok:
  assumes h: "holds m src cs" "drop (4 * i) cs = base64 zs" and z: "zs \<noteq> []" "length zs \<le> 3" and r: "room m (ptr_add buffer (3 * i)) (length zs)"
  shows "\<exists>m'. base64_decode_last m src buffer i = Inr m' \<and> wrote m buffer (3 * i) zs m'"
proof -
  have lc: "4 * i + 4 \<le> length cs" proof -
    have "1 \<le> (length zs + 2) div 3" using z by (cases zs) (simp_all add: less_eq_div_iff_mult_less_eq)
    then show ?thesis using arg_cong [OF h(2), of length] length_base64 [of zs] by simp
  qed
  have nth: "cs ! (4 * i + k) = base64 zs ! k" if "k < 4" for k using arg_cong [OF h(2), of "\<lambda>l. l ! k"] that lc by simp
  have gv: "base64_get_values m src (4 * i) [False, False, True, True] = Inr [v0, v1, v2, v3]"
    if "base64 zs = [c0, c1, c2, c3]" "s_base64_get_decoded_value c0 False = Some v0" "s_base64_get_decoded_value c1 False = Some v1"
      "s_base64_get_decoded_value c2 True = Some v2" "s_base64_get_decoded_value c3 True = Some v3" for c0 c1 c2 c3 v0 v1 v2 v3
    by (rule get_values_ok [OF h(1)]) (use lc that(2-) nth [of 0] nth [of 1] nth [of 2] nth [of 3] that(1) in \<open>auto simp: less_Suc_eq numeral_3_eq_3\<close>)
  have rk: "room m (ptr_add buffer (i * 3)) (length zs)" using r by (simp add: mult.commute)
  obtain m1 where m1: "store_all m buffer (i * 3) zs = Inr m1" "wrote m buffer (i * 3) zs m1" using store_all_ok [OF rk] by blast
  consider a where "zs = [a]" | a b where "zs = [a, b]" | a b c where "zs = [a, b, c]"
    using z by (cases zs rule: raw64.cases) auto
  then have "base64_decode_last m src buffer i = store_all m buffer (i * 3) zs"
  proof cases
    case (1 a)
    obtain s0 s1 s2 s3 where s: "sextets a 0 0 = [s0, s1, s2, s3]" "decoded1 s0 s1 = a" "decoded2 s1 s2 = 0" "decoded3 s2 s3 = 0"
      "\<forall>f. s_base64_get_decoded_value (enc64 s0) f = Some s0" "\<forall>f. s_base64_get_decoded_value (enc64 s1) f = Some s1"
      "\<forall>f. s_base64_get_decoded_value (enc64 s2) f = Some s2" "\<forall>f. s_base64_get_decoded_value (enc64 s3) f = Some s3"
      "s2 \<noteq> BASE64_SENTIANAL_VALUE" "s3 \<noteq> BASE64_SENTIANAL_VALUE" by (rule sextets_obtain)
    have "base64_get_values m src (4 * i) [False, False, True, True] = Inr [s0, s1, BASE64_SENTIANAL_VALUE, BASE64_SENTIANAL_VALUE]"
      by (rule gv [of "enc64 s0" "enc64 s1" 61 61]) (simp_all add: 1 s get_decoded_pad del: sextets.simps)
    then show ?thesis using s(2) unfolding base64_decode_last_def by (simp add: 1 Let_def)
  next
    case (2 a b)
    obtain s0 s1 s2 s3 where s: "sextets a b 0 = [s0, s1, s2, s3]" "decoded1 s0 s1 = a" "decoded2 s1 s2 = b" "decoded3 s2 s3 = 0"
      "\<forall>f. s_base64_get_decoded_value (enc64 s0) f = Some s0" "\<forall>f. s_base64_get_decoded_value (enc64 s1) f = Some s1"
      "\<forall>f. s_base64_get_decoded_value (enc64 s2) f = Some s2" "\<forall>f. s_base64_get_decoded_value (enc64 s3) f = Some s3"
      "s2 \<noteq> BASE64_SENTIANAL_VALUE" "s3 \<noteq> BASE64_SENTIANAL_VALUE" by (rule sextets_obtain)
    have "base64_get_values m src (4 * i) [False, False, True, True] = Inr [s0, s1, s2, BASE64_SENTIANAL_VALUE]"
      by (rule gv [of "enc64 s0" "enc64 s1" "enc64 s2" 61]) (simp_all add: 2 s get_decoded_pad del: sextets.simps)
    then show ?thesis using s unfolding base64_decode_last_def by (simp add: 2 Let_def)
  next
    case (3 a b c)
    obtain s0 s1 s2 s3 where s: "sextets a b c = [s0, s1, s2, s3]" "decoded1 s0 s1 = a" "decoded2 s1 s2 = b" "decoded3 s2 s3 = c"
      "\<forall>f. s_base64_get_decoded_value (enc64 s0) f = Some s0" "\<forall>f. s_base64_get_decoded_value (enc64 s1) f = Some s1"
      "\<forall>f. s_base64_get_decoded_value (enc64 s2) f = Some s2" "\<forall>f. s_base64_get_decoded_value (enc64 s3) f = Some s3"
      "s2 \<noteq> BASE64_SENTIANAL_VALUE" "s3 \<noteq> BASE64_SENTIANAL_VALUE" by (rule sextets_obtain)
    have "base64_get_values m src (4 * i) [False, False, True, True] = Inr [s0, s1, s2, s3]"
      by (rule gv [of "enc64 s0" "enc64 s1" "enc64 s2" "enc64 s3"]) (simp_all add: 3 s del: sextets.simps)
    then show ?thesis using s unfolding base64_decode_last_def by (simp add: 3 Let_def)
  qed
  then show ?thesis using m1 by (simp add: mult.commute)
qed

lemma base64_last:
  assumes "zs \<noteq> []" "length zs \<le> 3"
  obtains c0 c1 c2 c3 where "base64 zs = [c0, c1, c2, c3]" "c3 = 61 \<longleftrightarrow> length zs < 3" "c2 = 61 \<longleftrightarrow> length zs = 1"
proof -
  consider a where "zs = [a]" | a b where "zs = [a, b]" | a b c where "zs = [a, b, c]"
    using assms by (cases zs rule: raw64.cases) auto
  then show thesis
  proof cases
    case (1 a)
    then show thesis using that [of "enc64 (sextets a 0 0 ! 0)" "enc64 (sextets a 0 0 ! 1)" 61 61] by simp
  next
    case (2 a b)
    have "enc64 (sextets a b 0 ! 2) \<noteq> 61" by (rule get_decoded_enc(2)) (rule sextets_small [OF nth_mem], simp)
    then show thesis using 2 that [of "enc64 (sextets a b 0 ! 0)" "enc64 (sextets a b 0 ! 1)" "enc64 (sextets a b 0 ! 2)" 61] by simp
  next
    case (3 a b c)
    have "enc64 (sextets a b c ! 2) \<noteq> 61" "enc64 (sextets a b c ! 3) \<noteq> 61"
      by (rule get_decoded_enc(2), rule sextets_small [OF nth_mem], simp)+
    then show thesis using 3 that [of "enc64 (sextets a b c ! 0)" "enc64 (sextets a b c ! 1)" "enc64 (sextets a b c ! 2)" "enc64 (sextets a b c ! 3)"] by simp
  qed
qed

lemma split_blocks:
  assumes "xs \<noteq> []"
  obtains ys zs k where "xs = ys @ zs" "length ys = 3 * k" "zs \<noteq> []" "length zs \<le> 3" "k + 1 = (length xs + 2) div 3"
proof -
  let ?k = "(length xs - 1) div 3"
  let ?ys = "take (3 * ?k) xs" and ?zs = "drop (3 * ?k) xs"
  have n: "0 < length xs" using assms by simp
  have le: "3 * ?k \<le> length xs - 1" by simp
  have lt: "length xs - 1 < 3 * ?k + 3" by (metis add.commute div_mult_mod_eq mod_less_divisor mult.commute nat_add_left_cancel_less zero_less_numeral)
  have le': "3 * ?k < length xs" "length xs - 3 * ?k \<le> 3" using le lt n by linarith+
  then have "length ?ys = 3 * ?k" "?zs \<noteq> []" "length ?zs \<le> 3" by (simp_all add: min_def)
  moreover have "?k + 1 = (length xs + 2) div 3"
  proof -
    have "length xs + 2 = (length xs - 1) + 3" using n by simp
    then show ?thesis by (simp only: div_add_self2 zero_neq_numeral not_False_eq_True)
  qed
  ultimately show thesis using that [of ?ys ?zs ?k] by simp
qed

lemma and_3_mod: "(w :: size_t) AND 0x03 = 0 \<longleftrightarrow> 4 dvd unat w"
proof -
  have "w AND 0x03 = take_bit 2 w" by (simp add: take_bit_eq_mask mask_eq_exp_minus_1)
  then have "unat (w AND 0x03) = unat w mod 4" by (simp add: unsigned_take_bit_eq take_bit_eq_mod unat_mod)
  then show ?thesis by (metis dvd_eq_mod_eq_0 unat_eq_zero_iff)
qed

lemma base64_decoded_len:
  assumes c: "cur_holds m c (base64 xs)" and n: "length xs < 2 ^ 60"
  shows "aws_base64_compute_decoded_len m c = Inr (word_of_nat (length xs))"
proof (cases "xs = []")
  case True
  then have "c_len c = 0" using c by (simp add: cur_holds_def unat_eq_zero_iff)
  then show ?thesis using True by (simp add: aws_base64_compute_decoded_len_def Let_def)
next
  case False
  obtain ys zs k where x: "xs = ys @ zs" "length ys = 3 * k" "zs \<noteq> []" "length zs \<le> 3" "k + 1 = (length xs + 2) div 3"
    by (rule split_blocks [OF False])
  obtain c0 c1 c2 c3 where z: "base64 zs = [c0, c1, c2, c3]" "c3 = 61 \<longleftrightarrow> length zs < 3" "c2 = 61 \<longleftrightarrow> length zs = 1"
    by (rule base64_last [OF x(3,4)])
  have b: "base64 xs = base64 ys @ [c0, c1, c2, c3]" using base64_append [OF x(2), of zs] x(1) z(1) by simp
  let ?n = "4 * (k + 1)"
  have len: "length (base64 xs) = ?n" using length_base64 [of xs] x(5) by simp
  have lb: "length (base64 ys) = 4 * k" using len b by simp
  have cl: "unat (c_len c) = ?n" "holds m (c_ptr c) (base64 xs)" using c len by (simp_all add: cur_holds_def)
  have kl: "3 * k < 2 ^ 60" using n x(1,2) by simp
  have u1: "unat (c_len c - 1) = ?n - 1" "unat (c_len c - 2) = ?n - 2" "\<not> c_len c < 2" "c_len c \<noteq> 0"
    using cl(1) by (auto simp: unat_sub_exact word_le_nat_alt word_less_nat_alt)
  have u3: "unat (c_len c * 3) = 3 * ?n" using cl(1) kl by (subst unat_mul_exact) simp_all
  have l1: "load_u8 m (c_ptr c) (unat (c_len c - 1)) = Inr c3" "load_u8 m (c_ptr c) (unat (c_len c - 2)) = Inr c2"
    unfolding u1 using load_u8_holds [OF cl(2), of "?n - 1"] load_u8_holds [OF cl(2), of "?n - 2"] len lb by (simp_all add: b nth_append)
  have a3: "c_len c AND 0x03 = 0" unfolding and_3_mod cl(1) by simp
  have nov: "\<not> c_len c * 3 < c_len c" unfolding word_less_nat_alt u3 cl(1) by simp
  have d4: "c_len c * 3 div 4 = word_of_nat (3 * (k + 1))"
  proof -
    have "unat (c_len c * 3 div 4) = 3 * (k + 1)" unfolding unat_div u3 by simp
    then show ?thesis by (metis of_nat_unat ucast_id)
  qed
  have pad: "word_of_nat (3 * (k + 1)) - (if length zs = 1 then 2 else if length zs < 3 then 1 else 0) = (word_of_nat (length xs) :: size_t)"
  proof -
    have "length zs = 1 \<or> length zs = 2 \<or> length zs = 3" using x(3,4) by (cases zs) (auto simp: numeral_eq_Suc le_Suc_eq)
    then show ?thesis using x(1,2) by auto
  qed
  have "aws_base64_compute_decoded_len m c = Inr (c_len c * 3 div 4 - (if c3 = 61 \<and> c2 = 61 then 2 else if c3 = 61 then 1 else 0))"
    using l1 a3 nov u1(3,4) unfolding aws_base64_compute_decoded_len_def Let_def by (cases "c3 = 61") (simp_all add: not_less)
  then show ?thesis unfolding d4 z(2,3) using pad by (cases "length zs = 1") simp_all
qed

lemma base64_decode_ok:
  assumes c: "cur_holds m c (base64 xs)" "length xs < 2 ^ 60" and b: "aws_byte_buf_is_valid buf" "room m (b_buffer buf) (unat (b_capacity buf))"
    and n: "length xs \<le> unat (b_capacity buf)" and ap: "apart (c_ptr c) (length (base64 xs)) (b_buffer buf) (unat (b_capacity buf))"
  obtains buf' m' where "aws_base64_decode m c buf = (AWS_OP_SUCCESS, buf', m')" "buf_holds m' buf' xs"
proof -
  let ?d = "word_of_nat (length xs) :: size_t" and ?p = "b_buffer buf"
  have d: "unat ?d = length xs" using c(2) by (simp add: unsigned_of_nat take_bit_nat_eq_self)
  then have nd: "\<not> b_capacity buf < ?d" using n by (simp add: word_less_nat_alt)
  note dl = base64_decoded_len [OF c]
  have hold: "buf_holds m' (buf\<lparr>b_len := ?d\<rparr>) xs" if "wrote m ?p 0 xs m'" for m'
    by (rule wrote_buf [OF b, where zs = "[]"]) (use that n d in simp_all)
  have cl: "unat (c_len c) = 4 * ((length xs + 2) div 3)" "holds m (c_ptr c) (base64 xs)" using c(1) by (simp_all add: cur_holds_def length_base64)
  have u: "uint (c_len c) = int (unat (c_len c))" by simp
  have "unat (c_len c) < 2 ^ 63" using cl(1) c(2) by simp
  then have "int (unat (c_len c)) < int (2 ^ 63)" by (simp only: of_nat_less_iff)
  then have "uint (c_len c) < 2 ^ 63" unfolding u [symmetric] by simp
  moreover have "- (2 ^ 63) \<le> uint (c_len c)" by (rule order_trans [of _ 0]) simp_all
  ultimately have "signed_take_bit 63 (uint (c_len c)) = uint (c_len c)" by (intro signed_take_bit_int_eq_self)
  then have "sint (c_len c) = int (unat (c_len c))" unfolding u [symmetric] by (simp add: sint_uint)
  then have bc: "sint (c_len c) div 4 = int ((length xs + 2) div 3)" unfolding cl(1) by simp
  show thesis
  proof (cases "xs = []")
    case True
    then have "aws_base64_decode m c buf = (AWS_OP_SUCCESS, buf\<lparr>b_len := ?d\<rparr>, m)"
      using dl nd bc by (simp add: aws_base64_decode_def Let_def)
    then show thesis using that hold [of m] True by simp
  next
    case False
    obtain ys zs k where x: "xs = ys @ zs" "length ys = 3 * k" "zs \<noteq> []" "length zs \<le> 3" "k + 1 = (length xs + 2) div 3"
      by (rule split_blocks [OF False])
    have bs: "base64 xs = base64 ys @ base64 zs" using base64_append [OF x(2), of zs] x(1) by simp
    have lb: "length (base64 ys) = 4 * k" using length_base64 [of ys] x(2) by simp
    have r: "room m (ptr_add ?p (3 * 0)) (3 * k)" "apart (c_ptr c) (length (base64 xs)) (ptr_add ?p (3 * 0)) (3 * k)"
      using room_sub [OF b(2), of 0 "3 * k"] apart_sub [OF ap, of 0 "length (base64 xs)" 0 "3 * k"] n x(1,2) by simp_all
    obtain m1 where m1: "base64_decode_loop m (c_ptr c) ?p 0 k = (AWS_OP_SUCCESS, m1)" "wrote m ?p 0 ys m1"
      using base64_decode_loop_ok [OF cl(2) _ x(2) r, of "base64 zs"] bs by auto
    have h1: "holds m1 (c_ptr c) (base64 xs)" by (rule wrote_keeps [OF m1(2) cl(2)]) (use r(2) x(2) in simp)
    have "room m1 (ptr_add ?p (3 * k)) (length zs)" using room_sub [OF b(2), of "3 * k" "length zs"] wrote_room [OF m1(2)] n x(1,2) by simp
    moreover have "drop (4 * k) (base64 xs) = base64 zs" using bs lb by simp
    ultimately obtain m2 where m2: "base64_decode_last m1 (c_ptr c) ?p k = Inr m2" "wrote m1 ?p (3 * k) zs m2"
      using base64_decode_last_ok [OF h1 _ x(3,4)] by blast
    have w: "wrote m ?p 0 xs m2" using wrote_append [OF m1(2), of zs m2] m2(2) x(1,2) by simp
    have "sint (c_len c) div 4 = int (k + 1)" using bc x(5) by simp
    then have "aws_base64_decode m c buf = (AWS_OP_SUCCESS, buf\<lparr>b_len := ?d\<rparr>, m2)"
      using dl nd m1(1) m2(1) by (simp add: aws_base64_decode_def Let_def)
    then show thesis using that hold [OF w] by blast
  qed
qed

section \<open>Properties\<close>

lemma codec_memory_ok:
  assumes "length as < 2 ^ 64" "length bs < 2 ^ 64" "0 < n" "0 < k" "n < 2 ^ 64" "k < 2 ^ 64"
  shows "cur_holds (codec_memory as n bs k) (text_cursor 0 as) as" "cur_holds (codec_memory as n bs k) (text_cursor 2 bs) bs"
    "buf_holds (codec_memory as n bs k) (out_buf 1 (word_of_nat n)) []" "buf_holds (codec_memory as n bs k) (out_buf 3 (word_of_nat k)) []"
proof -
  have u: "unat (word_of_nat j :: size_t) = j" if "j < 2 ^ 64" for j using that by (simp add: unsigned_of_nat take_bit_nat_eq_self)
  have "(word_of_nat j :: size_t) > 0" if "0 < j" "j < 2 ^ 64" for j using u [OF that(2)] that(1) by (metis gr_implies_not0 unat_0 word_neq_0_conv)
  then show "cur_holds (codec_memory as n bs k) (text_cursor 0 as) as" "cur_holds (codec_memory as n bs k) (text_cursor 2 bs) bs"
    "buf_holds (codec_memory as n bs k) (out_buf 1 (word_of_nat n)) []" "buf_holds (codec_memory as n bs k) (out_buf 3 (word_of_nat k)) []"
    using assms by (simp_all add: cur_holds_def text_cursor_def holds_def codec_memory_def u buf_holds_def out_buf_def aws_byte_buf_is_valid_def room_def)
qed



text \<open>
  (C7) Base64: encoding appends the encoding of the bytes by groups of six bits, padded with \<open>=\<close>, followed by a zero that the length
  does not count; decoding that text gives the bytes back; and a text whose length is not a multiple of four is rejected.
\<close>

theorem base64_round_trip:
  assumes "cur_holds m c xs" "length xs < 2 ^ 60" "buf_holds m buf zs" "off_tail buf c" "length zs + 4 * ((length xs + 2) div 3) + 1 \<le> unat (b_capacity buf)"
    and "cur_holds m d cs" "buf_holds m out zs'" "length xs \<le> unat (b_capacity out)" "apart (c_ptr d) (length cs) (b_buffer out) (unat (b_capacity out))"
  shows "(\<exists>buf' m'. aws_base64_encode m c buf = (AWS_OP_SUCCESS, buf', m') \<and> buf_holds m' buf' (zs @ base64 xs) \<and>
      holds m' (ptr_add (b_buffer buf') (unat (b_len buf'))) [0]) \<and>
    (cs = base64 xs \<longrightarrow> (\<exists>out' m'. aws_base64_decode m d out = (AWS_OP_SUCCESS, out', m') \<and> buf_holds m' out' xs)) \<and>
    (\<not> 4 dvd length cs \<longrightarrow> aws_base64_decode m d out = (aws_raise_error AWS_ERROR_INVALID_BASE64_STR, out, m))"
proof (intro conjI impI)
  have x: "length xs < 2 ^ 63" using assms(2) by simp
  from base64_encode_ok [OF assms(1,3,4) x assms(5)] obtain buf' m' where
    e: "aws_base64_encode m c buf = (AWS_OP_SUCCESS, buf', m')" "buf_holds m' buf' (zs @ base64 xs)"
      "holds m' (ptr_add (b_buffer buf) (length zs + length (base64 xs))) [0]" "b_buffer buf' = b_buffer buf" by blast
  then show "\<exists>buf' m'. aws_base64_encode m c buf = (AWS_OP_SUCCESS, buf', m') \<and> buf_holds m' buf' (zs @ base64 xs) \<and>
      holds m' (ptr_add (b_buffer buf') (unat (b_len buf'))) [0]"
    using buf_holdsD(2) [OF e(2)] by auto
  have v: "aws_byte_buf_is_valid out" "room m (b_buffer out) (unat (b_capacity out))" using assms(7) by (simp_all add: buf_holds_def)
  show "\<exists>out' m'. aws_base64_decode m d out = (AWS_OP_SUCCESS, out', m') \<and> buf_holds m' out' xs" if cs: "cs = base64 xs"
    using base64_decode_ok [OF assms(6) [unfolded cs] assms(2) v assms(8) assms(9) [unfolded cs]] by metis
  show "aws_base64_decode m d out = (aws_raise_error AWS_ERROR_INVALID_BASE64_STR, out, m)" if "\<not> 4 dvd length cs"
  proof -
    have l: "unat (c_len d) = length cs" using assms(6) by (simp add: cur_holds_def)
    have "c_len d \<noteq> 0" using that l by (metis dvd_0_right unat_0)
    moreover have "c_len d AND 0x03 \<noteq> 0" using that unfolding and_3_mod l .
    ultimately show ?thesis by (simp add: aws_base64_decode_def aws_base64_compute_decoded_len_def Let_def)
  qed
qed

theorem base64_round_trip_witness:
  "(\<exists>buf' m'. aws_base64_encode (codec_memory [77, 97] 5 [84, 87, 69, 61] 3) (text_cursor 0 [77, 97]) (out_buf 1 5) = (AWS_OP_SUCCESS, buf', m') \<and>
     buf_holds m' buf' [84, 87, 69, 61]) \<and>
   (\<exists>out' m'. aws_base64_decode (codec_memory [77, 97] 5 [84, 87, 69, 61] 3) (text_cursor 2 [84, 87, 69, 61]) (out_buf 3 3) = (AWS_OP_SUCCESS, out', m') \<and>
     buf_holds m' out' [77, 97])"
proof -
  let ?m = "codec_memory [77, 97] 5 [84, 87, 69, 61] 3"
  have h: "base64 [77, 97] = [84, 87, 69, 61]" by code_simp
  have o: "cur_holds ?m (text_cursor 0 [77, 97]) [77, 97]" "cur_holds ?m (text_cursor 2 [84, 87, 69, 61]) [84, 87, 69, 61]"
    "buf_holds ?m (out_buf 1 5) []" "buf_holds ?m (out_buf 3 3) []"
    using codec_memory_ok [of "[77, 97]" "[84, 87, 69, 61]" 5 3] by simp_all
  have p: "length [77, 97 :: u8] < 2 ^ 60" "off_tail (out_buf 1 5) (text_cursor 0 [77, 97])"
    "length ([] :: u8 list) + 4 * ((length [77, 97 :: u8] + 2) div 3) + 1 \<le> unat (b_capacity (out_buf 1 5))"
    "length [77, 97 :: u8] \<le> unat (b_capacity (out_buf 3 3))"
    "apart (c_ptr (text_cursor 2 [84, 87, 69, 61])) (length [84, 87, 69, 61 :: u8]) (b_buffer (out_buf 3 3)) (unat (b_capacity (out_buf 3 3)))"
    by (simp_all add: out_buf_def text_cursor_def off_tail_def)
  show ?thesis using base64_round_trip [OF o(1) p(1) o(3) p(2,3) o(2,4) p(4,5)] unfolding h append_Nil by blast
qed

text \<open>
  (C31) Malformed padding is accepted by the base64 decoder: on four characters of which only the third is \<open>=\<close> it reports success and a
  length of three although it stores one byte, so the second and third byte of the result are whatever the buffer held before; and the
  zero byte is accepted as a character, with the seven-bit value 64.
\<close>

theorem base64_misplaced_padding:
  assumes "cur_holds m c [enc64 v1, enc64 v2, 61, enc64 v4]" "v1 < 64" "v2 < 64" "v4 < 64"
    and "buf_holds m buf (z0 # z1 # z2 # zs)" "apart (c_ptr c) 4 (b_buffer buf) (unat (b_capacity buf))"
  shows "(\<exists>buf' m'. aws_base64_decode m c buf = (AWS_OP_SUCCESS, buf', m') \<and> buf_holds m' buf' [decoded1 v1 v2, z1, z2]) \<and>
    s_base64_get_decoded_value 0 False = Some 64"
proof
  show "s_base64_get_decoded_value 0 False = Some 64" using DEC_nth(7) by (simp add: s_base64_get_decoded_value_def BASE64_SENTIANAL_VALUE_def)
  note d = buf_holdsD [OF assms(5)]
  let ?cs = "[enc64 v1, enc64 v2, 61, enc64 v4]"
  have cl: "unat (c_len c) = 4" "holds m (c_ptr c) ?cs" using assms(1) by (simp_all add: cur_holds_def)
  have c4: "c_len c = 4" using cl(1) by (simp add: word_unat_eq_iff)
  have ld: "load_u8 m (c_ptr c) 0 = Inr (enc64 v1)" "load_u8 m (c_ptr c) 1 = Inr (enc64 v2)" "load_u8 m (c_ptr c) 2 = Inr 61" "load_u8 m (c_ptr c) 3 = Inr (enc64 v4)"
    using load_u8_holds [OF cl(2), of 0] load_u8_holds [OF cl(2), of 1] load_u8_holds [OF cl(2), of 2] load_u8_holds [OF cl(2), of 3] by simp_all
  note g = get_decoded_enc [OF assms(2)] get_decoded_enc [OF assms(3)] get_decoded_enc [OF assms(4)] get_decoded_pad
  have r1: "room m (ptr_add (b_buffer buf) 0) 1" using room_sub [OF d(5), of 0 1] d(3) by simp
  obtain m1 where m1: "store_u8 m (b_buffer buf) 0 (decoded1 v1 v2) = Inr m1" "wrote m (b_buffer buf) 0 [decoded1 v1 v2] m1" by (rule store_u8_wrote [OF r1])
  have len: "aws_base64_compute_decoded_len m c = Inr 3" using ld(4) g(6) by (simp add: aws_base64_compute_decoded_len_def c4 Let_def)
  have "base64_get_values m (c_ptr c) (4 * 0) [False, False, True, True] = Inr [v1, v2, BASE64_SENTIANAL_VALUE, v4]"
    using ld g by (simp add: numeral_2_eq_2 numeral_3_eq_3)
  then have "base64_decode_last m (c_ptr c) (b_buffer buf) 0 = Inr m1" using m1(1) by (simp add: base64_decode_last_def Let_def)
  moreover have "\<not> b_capacity buf < 3" using d(3) by (simp add: word_less_nat_alt)
  ultimately have "aws_base64_decode m c buf = (AWS_OP_SUCCESS, buf\<lparr>b_len := 3\<rparr>, m1)" using len by (simp add: aws_base64_decode_def c4 Let_def)
  moreover have "buf_holds m1 (buf\<lparr>b_len := 3\<rparr>) [decoded1 v1 v2, z1, z2]"
  proof -
    have "holds m (ptr_add (b_buffer buf) 1) (z1 # z2 # zs)" using d(6) holds_Cons [of m "b_buffer buf" z0 "z1 # z2 # zs"] by simp
    then have "holds m (ptr_add (b_buffer buf) 1) [z1, z2]" using holds_append [of m "ptr_add (b_buffer buf) 1" "[z1, z2]" zs] by simp
    then have "holds m1 (ptr_add (b_buffer buf) 1) [z1, z2]" by (rule wrote_keeps [OF m1(2)]) (cases "b_buffer buf"; simp)
    then have h: "holds m1 (b_buffer buf) [decoded1 v1 v2, z1, z2]"
      using m1(2) holds_Cons [of m1 "b_buffer buf" "decoded1 v1 v2" "[z1, z2]"] by (simp add: wrote_def)
    show ?thesis using assms(5) h wrote_room [OF m1(2)] d(3)
      unfolding buf_holds_def aws_byte_buf_is_valid_def by (auto simp: word_le_nat_alt)
  qed
  ultimately show "\<exists>buf' m'. aws_base64_decode m c buf = (AWS_OP_SUCCESS, buf', m') \<and> buf_holds m' buf' [decoded1 v1 v2, z1, z2]" by blast
qed

theorem base64_misplaced_padding_witness:
  "\<exists>buf' m'. aws_base64_decode (codec_memory [81, 81, 61, 65] 3 [] 1) (text_cursor 0 [81, 81, 61, 65]) ((out_buf 1 3)\<lparr>b_len := 3\<rparr>) = (AWS_OP_SUCCESS, buf', m') \<and>
     buf_holds m' buf' [65, 7, 7]"
proof -
  let ?m = "codec_memory [81, 81, 61, 65] 3 [] 1" and ?b = "(out_buf 1 3)\<lparr>b_len := 3\<rparr>"
  have e: "enc64 16 = 81" "enc64 0 = 65" "decoded1 16 16 = 65" by code_simp+
  have c: "cur_holds ?m (text_cursor 0 [81, 81, 61, 65]) [enc64 16, enc64 16, 61, enc64 0]"
    unfolding e using codec_memory_ok(1) [of "[81, 81, 61, 65]" "[]" 3 1] by simp
  have "replicate 3 (Some 7) = map Some [7, 7, 7 :: u8]" by code_simp
  then have b: "buf_holds ?m ?b (7 # 7 # 7 # [])"
    by (simp add: buf_holds_def out_buf_def aws_byte_buf_is_valid_def room_def holds_def codec_memory_def)
  have "apart (c_ptr (text_cursor 0 [81, 81, 61, 65])) 4 (b_buffer ?b) (unat (b_capacity ?b))" by (simp add: text_cursor_def out_buf_def)
  from base64_misplaced_padding [OF c _ _ _ b this] show ?thesis unfolding e by auto
qed

end
