(* ===== verification/Ring_Buffer.thy ===== *)
theory Ring_Buffer
  imports Byte_Cursor
begin

text \<open>
  The lock-free ring buffer of \<open>source/ring_buffer.c\<close>, which one thread acquires from and one thread releases to.

  The head and tail pointers are the atomic variables of \<open>struct aws_ring_buffer\<close>.  \<open>acquire_vend\<close> and
  \<open>acquire_up_to_vend\<close> are what the two acquiring functions decide from the copies they loaded, in the order of the
  source: the new head, the new tail where the source stores one, and the buffer handed out.  The functions
  themselves load, decide and store without interruption.  \<open>ring_step\<close> is the same code with every load and store
  of an atomic variable as a step of its own, interleaved with the releases of the other thread; the steps are
  sequentially consistent, which is what the acquire load and release store of the tail give two threads that
  share nothing else.  The macros compiled for the CBMC model checker only are not part of the model.
\<close>

section \<open>Data\<close>

record ring_buffer =
  rb_allocator :: "aws_allocator option"
  rb_allocation :: ptr
  rb_head :: ptr
  rb_tail :: ptr
  rb_allocation_end :: ptr

definition zero_ring :: ring_buffer where
  "zero_ring = \<lparr>rb_allocator = None, rb_allocation = Null, rb_head = Null, rb_tail = Null, rb_allocation_end = Null\<rparr>"

record ring_vend =
  v_head :: ptr
  v_tail :: "ptr option"
  v_dest :: byte_buf

section \<open>Operations\<close>

definition aws_ring_buffer_check_atomic_ptr :: "ring_buffer \<Rightarrow> ptr \<Rightarrow> bool res" where
  "aws_ring_buffer_check_atomic_ptr ring_buf atomic_ptr =
     (if atomic_ptr = Null then Inr False
      else bind_res (ptr_less atomic_ptr (rb_allocation ring_buf)) (\<lambda>below.
             if below then Inr False
             else bind_res (ptr_less (rb_allocation_end ring_buf) atomic_ptr) (\<lambda>above. Inr (\<not> above))))"

definition aws_ring_buffer_is_empty :: "ring_buffer \<Rightarrow> bool" where
  "aws_ring_buffer_is_empty ring_buf \<longleftrightarrow> rb_head ring_buf = rb_tail ring_buf"

definition aws_ring_buffer_is_valid :: "ring_buffer \<Rightarrow> bool res" where
  "aws_ring_buffer_is_valid ring_buf =
     bind_res (aws_ring_buffer_check_atomic_ptr ring_buf (rb_head ring_buf)) (\<lambda>head_in_range.
     bind_res (aws_ring_buffer_check_atomic_ptr ring_buf (rb_tail ring_buf)) (\<lambda>tail_in_range.
       let valid_head_tail = (rb_head ring_buf \<noteq> rb_allocation ring_buf \<or> rb_tail ring_buf = rb_allocation ring_buf)
       in Inr (rb_allocation ring_buf \<noteq> Null \<and> head_in_range \<and> tail_in_range \<and> valid_head_tail \<and>
               rb_allocator ring_buf \<noteq> None)))"

definition aws_ring_buffer_init ::
  "memory \<Rightarrow> aws_allocator option \<Rightarrow> size_t \<Rightarrow> (ring_buffer \<times> memory) res" where
  "aws_ring_buffer_init m allocator sz =
     bind_res (aws_mem_acquire m allocator sz) (\<lambda>(allocation, m).
       Inr (\<lparr>rb_allocator = allocator, rb_allocation = allocation, rb_head = allocation, rb_tail = allocation,
             rb_allocation_end = ptr_add allocation (unat sz)\<rparr>, m))"

definition aws_ring_buffer_clean_up :: "memory \<Rightarrow> ring_buffer \<Rightarrow> (ring_buffer \<times> memory) res" where
  "aws_ring_buffer_clean_up m ring_buf =
     bind_res (if rb_allocation ring_buf \<noteq> Null
               then aws_mem_release m (rb_allocator ring_buf) (rb_allocation ring_buf) else Inr m)
       (\<lambda>m. Inr (zero_ring, m))"

definition vend_from :: "ptr \<Rightarrow> ptr option \<Rightarrow> size_t \<Rightarrow> ring_vend" where
  "vend_from p new_tail n =
     \<lparr>v_head = ptr_add p (unat n), v_tail = new_tail, v_dest = aws_byte_buf_from_empty_array p n\<rparr>"

definition acquire_vend :: "ring_buffer \<Rightarrow> size_t \<Rightarrow> ptr \<Rightarrow> ptr \<Rightarrow> ring_vend res" where
  "acquire_vend ring_buf requested_size tail_cpy head_cpy =
     (if head_cpy = tail_cpy
      then bind_res (if rb_allocation_end ring_buf = Null then Inr 0
                     else ptr_sub (rb_allocation_end ring_buf) (rb_allocation ring_buf)) (\<lambda>ring_space.
             if requested_size > ring_space then aws_raise_error AWS_ERROR_OOM
             else Inr (vend_from (rb_allocation ring_buf) (Some (rb_allocation ring_buf)) requested_size))
      else bind_res (ptr_less head_cpy tail_cpy) (\<lambda>wrapped.
        if wrapped
        then bind_res (ptr_sub tail_cpy head_cpy) (\<lambda>d.
               let space = d - 1
               in if space \<ge> requested_size then Inr (vend_from head_cpy None requested_size)
                  else aws_raise_error AWS_ERROR_OOM)
        else bind_res (ptr_less tail_cpy head_cpy) (\<lambda>ahead.
          if ahead
          then bind_res (ptr_sub (rb_allocation_end ring_buf) head_cpy) (\<lambda>head_space.
                 if head_space \<ge> requested_size then Inr (vend_from head_cpy None requested_size)
                 else bind_res (ptr_sub tail_cpy (rb_allocation ring_buf)) (\<lambda>tail_space.
                   if tail_space > requested_size
                   then Inr (vend_from (rb_allocation ring_buf) None requested_size)
                   else aws_raise_error AWS_ERROR_OOM))
          else aws_raise_error AWS_ERROR_OOM)))"

definition acquire_up_to_vend :: "ring_buffer \<Rightarrow> size_t \<Rightarrow> size_t \<Rightarrow> ptr \<Rightarrow> ptr \<Rightarrow> ring_vend res" where
  "acquire_up_to_vend ring_buf minimum_size requested_size tail_cpy head_cpy =
     (if head_cpy = tail_cpy
      then bind_res (if rb_allocation_end ring_buf = Null then Inr 0
                     else ptr_sub (rb_allocation_end ring_buf) (rb_allocation ring_buf)) (\<lambda>ring_space.
             let allocation_size = (if ring_space > requested_size then requested_size else ring_space)
             in if allocation_size < minimum_size then aws_raise_error AWS_ERROR_OOM
                else Inr (vend_from (rb_allocation ring_buf) (Some (rb_allocation ring_buf)) allocation_size))
      else bind_res (ptr_less head_cpy tail_cpy) (\<lambda>wrapped.
        if wrapped
        then bind_res (ptr_sub tail_cpy head_cpy) (\<lambda>d.
               let space = d - 1;
                   returnable_size = (if space > requested_size then requested_size else space)
               in if returnable_size \<ge> minimum_size then Inr (vend_from head_cpy None returnable_size)
                  else aws_raise_error AWS_ERROR_OOM)
        else bind_res (ptr_less tail_cpy head_cpy) (\<lambda>ahead.
          if ahead
          then bind_res (ptr_sub (rb_allocation_end ring_buf) head_cpy) (\<lambda>head_space.
               bind_res (ptr_sub tail_cpy (rb_allocation ring_buf)) (\<lambda>tail_space.
                 if head_space \<ge> requested_size then Inr (vend_from head_cpy None requested_size)
                 else if tail_space > requested_size
                 then Inr (vend_from (rb_allocation ring_buf) None requested_size)
                 else if head_space \<ge> minimum_size \<and> head_space \<ge> tail_space
                 then Inr (vend_from head_cpy None head_space)
                 else if tail_space > minimum_size
                 then Inr (vend_from (rb_allocation ring_buf) None (tail_space - 1))
                 else aws_raise_error AWS_ERROR_OOM))
          else aws_raise_error AWS_ERROR_OOM)))"

definition store_vend :: "ring_vend \<Rightarrow> ring_buffer \<Rightarrow> ring_buffer" where
  "store_vend v ring_buf =
     (let ring_buf = ring_buf\<lparr>rb_head := v_head v\<rparr>
      in case v_tail v of None \<Rightarrow> ring_buf | Some t \<Rightarrow> ring_buf\<lparr>rb_tail := t\<rparr>)"

definition aws_ring_buffer_acquire ::
  "ring_buffer \<Rightarrow> size_t \<Rightarrow> byte_buf \<Rightarrow> unit res \<times> byte_buf \<times> ring_buffer" where
  "aws_ring_buffer_acquire ring_buf requested_size dest =
     (if requested_size = 0 then (aws_raise_error AWS_ERROR_INVALID_ARGUMENT, dest, ring_buf)
      else case acquire_vend ring_buf requested_size (rb_tail ring_buf) (rb_head ring_buf) of
             Inl e \<Rightarrow> (Inl e, dest, ring_buf)
           | Inr v \<Rightarrow> (AWS_OP_SUCCESS, v_dest v, store_vend v ring_buf))"

definition aws_ring_buffer_acquire_up_to ::
  "ring_buffer \<Rightarrow> size_t \<Rightarrow> size_t \<Rightarrow> byte_buf \<Rightarrow> unit res \<times> byte_buf \<times> ring_buffer" where
  "aws_ring_buffer_acquire_up_to ring_buf minimum_size requested_size dest =
     (if requested_size = 0 \<or> minimum_size = 0 then (aws_raise_error AWS_ERROR_INVALID_ARGUMENT, dest, ring_buf)
      else case acquire_up_to_vend ring_buf minimum_size requested_size (rb_tail ring_buf) (rb_head ring_buf) of
             Inl e \<Rightarrow> (Inl e, dest, ring_buf)
           | Inr v \<Rightarrow> (AWS_OP_SUCCESS, v_dest v, store_vend v ring_buf))"

definition s_buf_belongs_to_pool :: "ring_buffer \<Rightarrow> byte_buf \<Rightarrow> bool res" where
  "s_buf_belongs_to_pool ring_buffer buf =
     (if b_buffer buf = Null \<or> rb_allocation ring_buffer = Null \<or> rb_allocation_end ring_buffer = Null then Inr False
      else bind_res (ptr_less (b_buffer buf) (rb_allocation ring_buffer)) (\<lambda>below.
             if below then Inr False
             else bind_res (ptr_less (rb_allocation_end ring_buffer) (ptr_add (b_buffer buf) (unat (b_capacity buf))))
                    (\<lambda>above. Inr (\<not> above))))"

definition aws_ring_buffer_release :: "ring_buffer \<Rightarrow> byte_buf \<Rightarrow> byte_buf \<times> ring_buffer" where
  "aws_ring_buffer_release ring_buffer buf =
     (zero_buf, ring_buffer\<lparr>rb_tail := ptr_add (b_buffer buf) (unat (b_capacity buf))\<rparr>)"

definition aws_ring_buffer_buf_belongs_to_pool :: "ring_buffer \<Rightarrow> byte_buf \<Rightarrow> bool res" where
  "aws_ring_buffer_buf_belongs_to_pool ring_buffer buf = s_buf_belongs_to_pool ring_buffer buf"

section \<open>Two threads\<close>

datatype ring_request = Exactly size_t | Up_To size_t size_t

fun vend_for :: "ring_buffer \<Rightarrow> ring_request \<Rightarrow> ptr \<Rightarrow> ptr \<Rightarrow> ring_vend res" where
  "vend_for ring_buf (Exactly requested_size) tail_cpy head_cpy =
     acquire_vend ring_buf requested_size tail_cpy head_cpy"
| "vend_for ring_buf (Up_To minimum_size requested_size) tail_cpy head_cpy =
     acquire_up_to_vend ring_buf minimum_size requested_size tail_cpy head_cpy"

fun request_ok :: "ring_request \<Rightarrow> bool" where
  "request_ok (Exactly requested_size) \<longleftrightarrow> requested_size \<noteq> 0"
| "request_ok (Up_To minimum_size requested_size) \<longleftrightarrow>
     requested_size \<noteq> 0 \<and> minimum_size \<noteq> 0 \<and> minimum_size \<le> requested_size"

text \<open>
  Where the acquiring thread is: outside the function, after the load of the tail, after the load of the head with
  the decision taken, after the store of the head, and after the store of the tail.  \<open>s_live\<close> are the buffers that
  were returned and not yet released, the oldest first.
\<close>

datatype acquirer =
    Idle
  | Loaded_Tail ring_request ptr
  | Decided ring_request ring_vend
  | Stored_Head ring_vend
  | Stored_Tail ring_vend

record ring_system =
  s_ring :: ring_buffer
  s_acquirer :: acquirer
  s_live :: "byte_buf list"

inductive ring_step :: "ring_system \<Rightarrow> ring_system \<Rightarrow> bool" where
  load_tail: "s_acquirer s = Idle \<Longrightarrow> request_ok r \<Longrightarrow>
     ring_step s (s\<lparr>s_acquirer := Loaded_Tail r (rb_tail (s_ring s))\<rparr>)"
| load_head: "s_acquirer s = Loaded_Tail r t \<Longrightarrow> vend_for (s_ring s) r t (rb_head (s_ring s)) = Inr v \<Longrightarrow>
     ring_step s (s\<lparr>s_acquirer := Decided r v\<rparr>)"
| refuse: "s_acquirer s = Loaded_Tail r t \<Longrightarrow> vend_for (s_ring s) r t (rb_head (s_ring s)) = Inl e \<Longrightarrow>
     ring_step s (s\<lparr>s_acquirer := Idle\<rparr>)"
| store_head: "s_acquirer s = Decided r v \<Longrightarrow>
     ring_step s (s\<lparr>s_ring := (s_ring s)\<lparr>rb_head := v_head v\<rparr>, s_acquirer := Stored_Head v\<rparr>)"
| store_tail: "s_acquirer s = Stored_Head v \<Longrightarrow> v_tail v = Some t \<Longrightarrow>
     ring_step s (s\<lparr>s_ring := (s_ring s)\<lparr>rb_tail := t\<rparr>, s_acquirer := Stored_Tail v\<rparr>)"
| return_dest: "s_acquirer s = Stored_Tail v \<or> s_acquirer s = Stored_Head v \<and> v_tail v = None \<Longrightarrow>
     ring_step s (s\<lparr>s_acquirer := Idle, s_live := s_live s @ [v_dest v]\<rparr>)"
| release: "s_live s = buf # rest \<Longrightarrow>
     ring_step s (s\<lparr>s_ring := snd (aws_ring_buffer_release (s_ring s) buf), s_live := rest\<rparr>)"

inductive ring_reachable :: "ring_system \<Rightarrow> ring_system \<Rightarrow> bool" for s\<^sub>0 where
  start: "ring_reachable s\<^sub>0 s\<^sub>0"
| step: "ring_reachable s\<^sub>0 s \<Longrightarrow> ring_step s s' \<Longrightarrow> ring_reachable s\<^sub>0 s'"

definition ring_start :: "ring_buffer \<Rightarrow> ring_system" where
  "ring_start ring_buf = \<lparr>s_ring = ring_buf, s_acquirer = Idle, s_live = []\<rparr>"

section \<open>Abstraction and invariant\<close>

text \<open>The buffers \<open>xs\<close> lie one after the other in allocation \<open>b\<close> from offset \<open>a\<close> to offset \<open>z\<close>.\<close>

fun laid :: "nat \<Rightarrow> nat \<Rightarrow> byte_buf list \<Rightarrow> nat \<Rightarrow> bool" where
  "laid b a [] z \<longleftrightarrow> a = z"
| "laid b a (x # xs) z \<longleftrightarrow>
     b_buffer x = Ptr b a \<and> b_capacity x \<noteq> 0 \<and> laid b (a + unat (b_capacity x)) xs z"

text \<open>
  Tail at \<open>t\<close>, head at \<open>h\<close>: the live buffers fill the bytes from tail to head, or those from the tail to some end
  and, after a wrap, those from the start to the head.
\<close>

definition ring_inv :: "nat \<Rightarrow> nat \<Rightarrow> nat \<Rightarrow> nat \<Rightarrow> byte_buf list \<Rightarrow> bool" where
  "ring_inv b n t h xs \<longleftrightarrow>
     (laid b t xs h \<and> h \<le> n) \<or>
     (\<exists>e ys zs. xs = ys @ zs \<and> zs \<noteq> [] \<and> laid b t ys e \<and> e \<le> n \<and> laid b 0 zs h \<and> h < t)"

definition buf_apart :: "byte_buf \<Rightarrow> byte_buf \<Rightarrow> bool" where
  "buf_apart x y \<longleftrightarrow> apart (b_buffer x) (unat (b_capacity x)) (b_buffer y) (unat (b_capacity y))"

definition buf_within :: "nat \<Rightarrow> nat \<Rightarrow> nat \<Rightarrow> byte_buf \<Rightarrow> bool" where
  "buf_within b a z x \<longleftrightarrow>
     (\<exists>off. b_buffer x = Ptr b off \<and> a \<le> off \<and> off + unat (b_capacity x) \<le> z \<and> b_capacity x \<noteq> 0)"

definition buf_end :: "byte_buf \<Rightarrow> ptr" where
  "buf_end x = ptr_add (b_buffer x) (unat (b_capacity x))"

abbreviation off_of :: "ptr \<Rightarrow> nat" where
  "off_of p \<equiv> (case p of Null \<Rightarrow> 0 | Ptr b off \<Rightarrow> off)"

fun tail_after :: "nat \<Rightarrow> byte_buf list \<Rightarrow> nat" where
  "tail_after t [] = t"
| "tail_after t (x # us) = tail_after (off_of (buf_end x)) us"

abbreviation buf_at :: "nat \<Rightarrow> nat \<Rightarrow> size_t \<Rightarrow> byte_buf" where
  "buf_at b off k \<equiv> aws_byte_buf_from_empty_array (Ptr b off) k"

text \<open>A ring buffer over allocation \<open>b\<close> of \<open>n\<close> bytes, with its tail and head at the given offsets.\<close>

definition ring_over :: "nat \<Rightarrow> nat \<Rightarrow> ring_buffer \<Rightarrow> bool" where
  "ring_over b n ring \<longleftrightarrow> 0 < n \<and> n < 2 ^ 64 \<and> rb_allocator ring \<noteq> None \<and>
     rb_allocation ring = Ptr b 0 \<and> rb_allocation_end ring = Ptr b n"

text \<open>The size of a buffer handed out for a request.\<close>

fun fits :: "ring_request \<Rightarrow> size_t \<Rightarrow> bool" where
  "fits (Exactly requested_size) k \<longleftrightarrow> k = requested_size"
| "fits (Up_To minimum_size requested_size) k \<longleftrightarrow> minimum_size \<le> k \<and> k \<le> requested_size"

fun asked :: "ring_request \<Rightarrow> size_t" where
  "asked (Exactly requested_size) = requested_size"
| "asked (Up_To minimum_size requested_size) = requested_size"

fun least_size :: "ring_request \<Rightarrow> size_t" where
  "least_size (Exactly requested_size) = requested_size"
| "least_size (Up_To minimum_size requested_size) = minimum_size"

text \<open>The largest buffer the ring can hand out next.\<close>

definition ring_space :: "nat \<Rightarrow> nat \<Rightarrow> nat \<Rightarrow> nat" where
  "ring_space n t h =
     (if h = t then n else if h < t then t - h - 1 else max (n - h) (t - 1))"

text \<open>Where the next buffer of \<open>k\<close> bytes goes.\<close>

definition vend_ok :: "nat \<Rightarrow> nat \<Rightarrow> nat \<Rightarrow> nat \<Rightarrow> ring_vend \<Rightarrow> size_t \<Rightarrow> bool" where
  "vend_ok b n t h v k \<longleftrightarrow>
     (h = t \<and> unat k \<le> n \<and> v = vend_from (Ptr b 0) (Some (Ptr b 0)) k) \<or>
     (h < t \<and> h + unat k < t \<and> v = vend_from (Ptr b h) None k) \<or>
     (t < h \<and> h + unat k \<le> n \<and> v = vend_from (Ptr b h) None k) \<or>
     (t < h \<and> unat k < t \<and> v = vend_from (Ptr b 0) None k)"

text \<open>The state between two calls.\<close>

definition ring_state :: "nat \<Rightarrow> nat \<Rightarrow> ring_buffer \<Rightarrow> byte_buf list \<Rightarrow> bool" where
  "ring_state b n ring live \<longleftrightarrow> ring_over b n ring \<and>
     (\<exists>t h. rb_tail ring = Ptr b t \<and> rb_head ring = Ptr b h \<and> ring_inv b n t h live \<and> (h = 0 \<longrightarrow> t = 0))"

definition free_space :: "nat \<Rightarrow> ring_buffer \<Rightarrow> nat" where
  "free_space n ring = ring_space n (off_of (rb_tail ring)) (off_of (rb_head ring))"

text \<open>What holds between any two steps of the two threads.\<close>

fun acquirer_inv :: "nat \<Rightarrow> nat \<Rightarrow> nat \<Rightarrow> nat \<Rightarrow> byte_buf list \<Rightarrow> acquirer \<Rightarrow> bool" where
  "acquirer_inv b n t h live Idle \<longleftrightarrow> ring_inv b n t h live"
| "acquirer_inv b n t h live (Loaded_Tail r p) \<longleftrightarrow> request_ok r \<and>
     (\<exists>t\<^sub>0 us. p = Ptr b t\<^sub>0 \<and> ring_inv b n t\<^sub>0 h (us @ live) \<and> t = tail_after t\<^sub>0 us)"
| "acquirer_inv b n t h live (Decided r v) \<longleftrightarrow>
     (\<exists>t\<^sub>0 us k. ring_inv b n t\<^sub>0 h (us @ live) \<and> t = tail_after t\<^sub>0 us \<and> vend_ok b n t\<^sub>0 h v k \<and> k \<noteq> 0 \<and> fits r k)"
| "acquirer_inv b n t h live (Stored_Head v) \<longleftrightarrow>
     (case v_tail v of
        None \<Rightarrow> ring_inv b n t h (live @ [v_dest v])
      | Some p \<Rightarrow> p = Ptr b 0 \<and> live = [] \<and> ring_inv b n 0 h [v_dest v])"
| "acquirer_inv b n t h live (Stored_Tail v) \<longleftrightarrow> ring_inv b n t h (live @ [v_dest v])"

definition system_inv :: "nat \<Rightarrow> nat \<Rightarrow> ring_system \<Rightarrow> bool" where
  "system_inv b n s \<longleftrightarrow> ring_over b n (s_ring s) \<and>
     (\<exists>t h. rb_tail (s_ring s) = Ptr b t \<and> rb_head (s_ring s) = Ptr b h \<and> t \<le> n \<and> h \<le> n \<and> (h = 0 \<longrightarrow> t = 0) \<and>
        acquirer_inv b n t h (s_live s) (s_acquirer s))"

definition held :: "ring_system \<Rightarrow> byte_buf list" where
  "held s = s_live s @ (case s_acquirer s of Stored_Head v \<Rightarrow> [v_dest v] | Stored_Tail v \<Rightarrow> [v_dest v] | _ \<Rightarrow> [])"

text \<open>A schedule: which thread moves next, and what the acquiring thread asks for.\<close>

datatype ring_event = Call ring_request | Continue | Release

fun ring_next :: "ring_system \<Rightarrow> ring_event \<Rightarrow> ring_system option" where
  "ring_next s (Call r) =
     (if s_acquirer s = Idle \<and> request_ok r then Some (s\<lparr>s_acquirer := Loaded_Tail r (rb_tail (s_ring s))\<rparr>) else None)"
| "ring_next s Continue =
     (case s_acquirer s of
        Idle \<Rightarrow> None
      | Loaded_Tail r t \<Rightarrow>
          (case vend_for (s_ring s) r t (rb_head (s_ring s)) of
             Inl e \<Rightarrow> Some (s\<lparr>s_acquirer := Idle\<rparr>)
           | Inr v \<Rightarrow> Some (s\<lparr>s_acquirer := Decided r v\<rparr>))
      | Decided r v \<Rightarrow> Some (s\<lparr>s_ring := (s_ring s)\<lparr>rb_head := v_head v\<rparr>, s_acquirer := Stored_Head v\<rparr>)
      | Stored_Head v \<Rightarrow>
          (case v_tail v of
             None \<Rightarrow> Some (s\<lparr>s_acquirer := Idle, s_live := s_live s @ [v_dest v]\<rparr>)
           | Some t \<Rightarrow> Some (s\<lparr>s_ring := (s_ring s)\<lparr>rb_tail := t\<rparr>, s_acquirer := Stored_Tail v\<rparr>))
      | Stored_Tail v \<Rightarrow> Some (s\<lparr>s_acquirer := Idle, s_live := s_live s @ [v_dest v]\<rparr>))"
| "ring_next s Release =
     (case s_live s of
        [] \<Rightarrow> None
      | buf # rest \<Rightarrow> Some (s\<lparr>s_ring := snd (aws_ring_buffer_release (s_ring s) buf), s_live := rest\<rparr>))"

fun ring_run :: "ring_system \<Rightarrow> ring_event list \<Rightarrow> ring_system option" where
  "ring_run s [] = Some s"
| "ring_run s (e # es) = (case ring_next s e of None \<Rightarrow> None | Some s' \<Rightarrow> ring_run s' es)"

definition example_ring :: ring_buffer where
  "example_ring = \<lparr>rb_allocator = Some aws_default_allocator, rb_allocation = Ptr 0 0, rb_head = Ptr 0 0, rb_tail = Ptr 0 0,
     rb_allocation_end = Ptr 0 8\<rparr>"

definition example_schedule :: "ring_event list" where
  "example_schedule =
     [Call (Exactly 5), Continue, Continue, Continue, Continue,
      Call (Up_To 2 4), Continue, Release, Continue, Continue,
      Call (Exactly 4), Release, Continue, Continue, Continue]"

section \<open>Lemmas\<close>

section \<open>Layout of the vended buffers\<close>

lemma laid_le: "laid b a xs z \<Longrightarrow> a \<le> z"
  by (induction xs arbitrary: a) fastforce+

lemma laid_less: "laid b a xs z \<Longrightarrow> xs \<noteq> [] \<Longrightarrow> a < z"
  by (cases xs) (auto dest!: laid_le simp: unat_gt_0 intro: less_le_trans [rotated])

lemma laid_snoc [simp]:
  "laid b a (xs @ [x]) z \<longleftrightarrow> (\<exists>e. laid b a xs e \<and> b_buffer x = Ptr b e \<and> b_capacity x \<noteq> 0 \<and> z = e + unat (b_capacity x))"
  by (induction xs arbitrary: a) auto

lemma laid_within: "laid b a xs z \<Longrightarrow> x \<in> set xs \<Longrightarrow> buf_within b a z x"
proof (induction xs arbitrary: a)
  case (Cons y ys)
  then show ?case using laid_le [of b _ ys z] by (fastforce simp: buf_within_def)
qed simp

lemma buf_within_mono: "buf_within b a z x \<Longrightarrow> a' \<le> a \<Longrightarrow> z \<le> z' \<Longrightarrow> buf_within b a' z' x"
  by (force simp: buf_within_def)

lemma buf_within_apart: "buf_within b a z x \<Longrightarrow> buf_within b a' z' y \<Longrightarrow> z \<le> a' \<or> z' \<le> a \<Longrightarrow> buf_apart x y"
  by (auto simp: buf_within_def buf_apart_def)

lemma laid_apart: "laid b a xs z \<Longrightarrow> sorted_wrt buf_apart xs"
proof (induction xs arbitrary: a)
  case (Cons x xs)
  then have x: "buf_within b a (a + unat (b_capacity x)) x" by (simp add: buf_within_def)
  have "buf_apart x y" if "y \<in> set xs" for y
    using laid_within [of b _ xs z, OF _ that] Cons.prems by (intro buf_within_apart [OF x]) auto
  with Cons show ?case by auto
qed simp

lemma ring_inv_apart: "ring_inv b n t h xs \<Longrightarrow> sorted_wrt buf_apart xs"
  unfolding ring_inv_def
proof (elim disjE exE conjE)
  fix e ys zs
  assume w: "xs = ys @ zs" "laid b t ys e" "laid b 0 zs h" "h < t"
  have "buf_apart y z" if "y \<in> set ys" "z \<in> set zs" for y z
    using laid_within [OF w(2) that(1)] laid_within [OF w(3) that(2)] w(4) by (auto intro: buf_within_apart)
  then show ?thesis using w laid_apart by (auto simp: sorted_wrt_append)
qed (rule laid_apart)

lemma ring_inv_within: "ring_inv b n t h xs \<Longrightarrow> x \<in> set xs \<Longrightarrow> buf_within b 0 n x"
  unfolding ring_inv_def
proof (elim disjE exE conjE)
  fix e ys zs
  assume w: "xs = ys @ zs" "laid b t ys e" "laid b 0 zs h" "h < t" "e \<le> n" "x \<in> set xs"
  have "t \<le> e" using w(2) by (rule laid_le)
  then show ?thesis
    using w laid_within [OF w(2), of x] laid_within [OF w(3), of x] buf_within_mono [of b 0 h x 0 n] buf_within_mono [of b t e x 0 n]
    by auto
qed (auto dest!: laid_within elim: buf_within_mono)

lemma ring_inv_bounds: "ring_inv b n t h xs \<Longrightarrow> t \<le> n \<and> h \<le> n"
  by (auto simp: ring_inv_def dest!: laid_le)

lemma ring_inv_empty_iff: "ring_inv b n t h xs \<Longrightarrow> t = h \<longleftrightarrow> xs = []"
  by (auto simp: ring_inv_def dest: laid_less)

section \<open>Releasing\<close>

lemma release_inv: "ring_inv b n t h (x # xs) \<Longrightarrow> buf_end x = Ptr b (off_of (buf_end x)) \<and> ring_inv b n (off_of (buf_end x)) h xs"
  unfolding ring_inv_def
proof (elim disjE exE conjE)
  fix e ys zs
  assume w: "x # xs = ys @ zs" "zs \<noteq> []" "laid b t ys e" "laid b 0 zs h" "h < t" "e \<le> n"
  show "buf_end x = Ptr b (off_of (buf_end x)) \<and> ((laid b (off_of (buf_end x)) xs h \<and> h \<le> n) \<or>
     (\<exists>e ys zs. xs = ys @ zs \<and> zs \<noteq> [] \<and> laid b (off_of (buf_end x)) ys e \<and> e \<le> n \<and> laid b 0 zs h \<and> h < off_of (buf_end x)))"
  proof (cases ys)
    case Nil
    then show ?thesis using w laid_le [of b t ys e] by (auto simp: buf_end_def)
  next
    case (Cons y ys')
    then have "xs = ys' @ zs \<and> zs \<noteq> [] \<and> laid b (off_of (buf_end x)) ys' e \<and> e \<le> n \<and> laid b 0 zs h \<and> h < off_of (buf_end x)"
      using w by (auto simp: buf_end_def)
    then show ?thesis using w Cons by (auto simp: buf_end_def)
  qed
qed (auto simp: buf_end_def)

lemma releases_inv: "ring_inv b n t h (us @ xs) \<Longrightarrow> ring_inv b n (tail_after t us) h xs"
  by (induction us arbitrary: t) (auto dest: release_inv)

lemma tail_after_snoc [simp]: "tail_after t (us @ [x]) = off_of (buf_end x)"
  by (induction us arbitrary: t) auto

section \<open>Acquiring\<close>

lemma buf_at_simps [simp]: "k \<noteq> 0 \<Longrightarrow> b_buffer (buf_at b off k) = Ptr b off" "b_capacity (buf_at b off k) = k"
  by (simp_all add: aws_byte_buf_from_empty_array_def word_neq_0_conv)

lemma vend_fresh: "k \<noteq> 0 \<Longrightarrow> unat k \<le> n \<Longrightarrow> ring_inv b n 0 (unat k) [buf_at b 0 k]"
  by (simp add: ring_inv_def)

lemma vend_ahead:
  assumes "ring_inv b n t h xs" "t < h" "k \<noteq> 0" "h + unat k \<le> n"
  shows "ring_inv b n t (h + unat k) (xs @ [buf_at b h k])"
  using assms by (auto simp: ring_inv_def)

lemma vend_wrap:
  assumes "ring_inv b n t h xs" "t < h" "k \<noteq> 0" "unat k < t"
  shows "ring_inv b n t (unat k) (xs @ [buf_at b 0 k])"
proof -
  have "laid b t xs h \<and> h \<le> n" using assms by (auto simp: ring_inv_def)
  then show ?thesis using assms unfolding ring_inv_def
    by (intro disjI2 exI [of _ h] exI [of _ xs] exI [of _ "[buf_at b 0 k]"]) simp
qed

lemma vend_behind:
  assumes "ring_inv b n t h xs" "h < t" "k \<noteq> 0" "h + unat k < t"
  shows "ring_inv b n t (h + unat k) (xs @ [buf_at b h k])"
proof -
  obtain e ys zs where w: "xs = ys @ zs" "zs \<noteq> []" "laid b t ys e" "laid b 0 zs h" "e \<le> n"
    using assms by (auto simp: ring_inv_def dest: laid_le)
  then show ?thesis using assms unfolding ring_inv_def
    by (intro disjI2 exI [of _ e] exI [of _ ys] exI [of _ "zs @ [buf_at b h k]"]) auto
qed

lemma unat_off_diff:
  "a \<le> c \<Longrightarrow> c < 2 ^ 64 \<Longrightarrow> unat (word_of_nat c - word_of_nat a :: size_t) = c - a"
  by (simp add: unat_sub_exact unat_word_of_nat word_le_nat_alt)

lemma acquire_vend_spec:
  assumes "ring_over b n ring" "t \<le> n" "h \<le> n" "k \<noteq> 0"
  shows "(unat k \<le> ring_space n t h \<longrightarrow>
            (\<exists>v. acquire_vend ring k (Ptr b t) (Ptr b h) = Inr v \<and> vend_ok b n t h v k)) \<and>
         (ring_space n t h < unat k \<longrightarrow> acquire_vend ring k (Ptr b t) (Ptr b h) = aws_raise_error AWS_ERROR_OOM)"
proof -
  have n: "n < 2 ^ 64" and r: "rb_allocation ring = Ptr b 0" "rb_allocation_end ring = Ptr b n"
    using assms by (auto simp: ring_over_def)
  consider "h = t" | "h < t" | "t < h" by linarith
  then show ?thesis
  proof cases
    case 1
    then show ?thesis using r n unat_off_diff [of 0 n]
      by (auto simp: acquire_vend_def ring_space_def vend_ok_def word_less_nat_alt)
  next
    case 2
    have "unat (word_of_nat t - word_of_nat h :: size_t) = t - h"
      using unat_off_diff [of h t] 2 assms n by simp
    then have "unat (word_of_nat t - word_of_nat h - 1 :: size_t) = t - h - 1"
      using 2 by (subst unat_sub_exact) (auto simp: word_le_nat_alt)
    then show ?thesis using 2 by (auto simp: acquire_vend_def ring_space_def vend_ok_def word_le_nat_alt Let_def)
  next
    case 3
    have "unat (word_of_nat n - word_of_nat h :: size_t) = n - h" "unat (word_of_nat t :: size_t) = t"
      using unat_off_diff [of h n] unat_off_diff [of 0 t] 3 assms n by simp_all
    moreover have "0 < unat k" using assms by (simp add: unat_gt_0)
    ultimately show ?thesis using 3 r assms
      by (auto simp: acquire_vend_def ring_space_def vend_ok_def word_le_nat_alt word_less_nat_alt max_def)
  qed
qed

lemma acquire_up_to_vend_spec:
  assumes "ring_over b n ring" "t \<le> n" "h \<le> n" "l \<noteq> 0" "l \<le> k"
  shows "if unat l \<le> ring_space n t h
         then \<exists>j v. acquire_up_to_vend ring l k (Ptr b t) (Ptr b h) = Inr v \<and> vend_ok b n t h v j \<and>
                    unat j = min (unat k) (ring_space n t h)
         else acquire_up_to_vend ring l k (Ptr b t) (Ptr b h) = aws_raise_error AWS_ERROR_OOM"
proof -
  have n: "n < 2 ^ 64" and r: "rb_allocation ring = Ptr b 0" "rb_allocation_end ring = Ptr b n"
    using assms by (auto simp: ring_over_def)
  have l: "unat l \<le> unat k" using assms by (simp add: word_le_nat_alt)
  note defs = acquire_up_to_vend_def ring_space_def vend_ok_def word_less_nat_alt word_le_nat_alt Let_def
  consider "h = t" | "h < t" | "t < h" by linarith
  then show ?thesis
  proof cases
    case 1
    have "unat (word_of_nat n :: size_t) = n" using unat_off_diff [of 0 n] n by simp
    then show ?thesis using 1 r l
      by (auto simp: defs intro!: exI [of _ "if unat k < n then k else word_of_nat n"])
  next
    case 2
    let ?s = "word_of_nat t - word_of_nat h - 1 :: size_t"
    have "unat (word_of_nat t - word_of_nat h :: size_t) = t - h"
      using unat_off_diff [of h t] 2 assms n by simp
    then have "unat ?s = t - h - 1" using 2 by (subst unat_sub_exact) (auto simp: word_le_nat_alt)
    then show ?thesis using 2 l
      by (auto simp: defs intro!: exI [of _ "if unat k < t - h - 1 then k else ?s"])
  next
    case 3
    have u: "unat (word_of_nat n - word_of_nat h :: size_t) = n - h" "unat (word_of_nat t :: size_t) = t"
      using unat_off_diff [of h n] unat_off_diff [of 0 t] 3 assms n by simp_all
    then have u1: "0 < t \<Longrightarrow> unat (word_of_nat t - 1 :: size_t) = t - 1"
      by (subst unat_sub_exact) (auto simp: word_le_nat_alt)
    consider "unat k \<le> n - h \<or> unat k < t" | "n - h < unat k" "t \<le> unat k" "t \<le> n - h" | "n - h < unat k" "t \<le> unat k" "n - h < t"
      by linarith
    then show ?thesis
    proof cases
      case 1
      then show ?thesis using 3 r l u assms by (auto simp: defs max_def intro!: exI [of _ k])
    next
      case 2
      then show ?thesis using 3 r l u assms by (auto simp: defs max_def intro!: exI [of _ "word_of_nat n - word_of_nat h"])
    next
      case c: 3
      then show ?thesis using 3 r l u u1 assms by (auto simp: defs max_def intro!: exI [of _ "word_of_nat t - 1"])
    qed
  qed
qed

lemma vend_for_spec:
  assumes "ring_over b n ring" "t \<le> n" "h \<le> n" "request_ok r"
  shows "if unat (least_size r) \<le> ring_space n t h
         then \<exists>j v. vend_for ring r (Ptr b t) (Ptr b h) = Inr v \<and> vend_ok b n t h v j \<and>
                    unat j = min (unat (asked r)) (ring_space n t h)
         else vend_for ring r (Ptr b t) (Ptr b h) = aws_raise_error AWS_ERROR_OOM"
proof (cases r)
  case (Exactly k)
  then show ?thesis using acquire_vend_spec [OF assms(1-3), of k] assms(4) by (auto intro!: exI [of _ k])
next
  case (Up_To l k)
  then show ?thesis using acquire_up_to_vend_spec [OF assms(1-3), of l k] assms(4) by auto
qed

lemma vend_for_cases:
  assumes "ring_over b n ring" "t \<le> n" "h \<le> n" "request_ok r" "vend_for ring r (Ptr b t) (Ptr b h) = Inr v"
  obtains k where "vend_ok b n t h v k" "k \<noteq> 0" "fits r k" "unat k = min (unat (asked r)) (ring_space n t h)"
proof -
  obtain k where k: "vend_ok b n t h v k" "unat k = min (unat (asked r)) (ring_space n t h)"
    "unat (least_size r) \<le> ring_space n t h"
    using vend_for_spec [OF assms(1-4)] assms(5) by (auto split: if_splits)
  have l: "least_size r \<noteq> 0" "least_size r \<le> asked r" using assms(4) by (cases r; simp)+
  then have "unat (least_size r) \<le> unat k" using k by (simp add: word_le_nat_alt)
  then have f: "least_size r \<le> k" "k \<le> asked r" using k by (simp_all add: word_le_nat_alt)
  then have "k \<noteq> 0" using l by auto
  moreover have "fits r k" using f by (cases r) auto
  ultimately show ?thesis using that k by blast
qed

text \<open>A decision taken from an earlier tail is right for every later one.\<close>

lemma vend_inv:
  assumes "ring_inv b n t h (us @ xs)" "vend_ok b n t h v k" "k \<noteq> 0"
  shows "\<exists>h'. v_head v = Ptr b h' \<and> b_capacity (v_dest v) = k \<and> 0 < h' \<and> h' \<le> n \<and>
           (case v_tail v of
              None \<Rightarrow> ring_inv b n (tail_after t us) h' (xs @ [v_dest v])
            | Some p \<Rightarrow> p = Ptr b 0 \<and> us = [] \<and> xs = [] \<and> ring_inv b n 0 h' [v_dest v])"
proof -
  have k0: "0 < unat k" using assms(3) by (simp add: unat_gt_0)
  have step: "ring_inv b n (tail_after t us) h' (xs @ [x])" if "ring_inv b n t h' ((us @ xs) @ [x])" for h' x
    using that releases_inv [of b n t h' us "xs @ [x]"] by simp
  have bounds: "t \<le> n" "h \<le> n" using ring_inv_bounds [OF assms(1)] by auto
  from assms(2) show ?thesis unfolding vend_ok_def
  proof (elim disjE conjE)
    assume "h = t" "unat k \<le> n" "v = vend_from (Ptr b 0) (Some (Ptr b 0)) k"
    then show ?thesis using ring_inv_empty_iff [OF assms(1)] vend_fresh [OF assms(3)] k0 by (auto simp: vend_from_def)
  next
    assume "h < t" "h + unat k < t" "v = vend_from (Ptr b h) None k"
    then show ?thesis using step [OF vend_behind [OF assms(1) _ assms(3)]] bounds k0 by (auto simp: vend_from_def)
  next
    assume "t < h" "h + unat k \<le> n" "v = vend_from (Ptr b h) None k"
    then show ?thesis using step [OF vend_ahead [OF assms(1) _ assms(3)]] k0 by (auto simp: vend_from_def)
  next
    assume "t < h" "unat k < t" "v = vend_from (Ptr b 0) None k"
    then show ?thesis using step [OF vend_wrap [OF assms(1) _ assms(3)]] bounds k0 by (auto simp: vend_from_def)
  qed
qed

lemma ring_state_init:
  "aws_ring_buffer_init m a sz = Inr (ring, m') \<Longrightarrow> ring_state (m_next m) (unat sz) ring []"
  by (auto simp: aws_ring_buffer_init_def aws_mem_acquire_def s_default_malloc_def ring_state_def ring_over_def
        ring_inv_def unat_gt_0 split: if_splits)

lemma ring_state_valid:
  "ring_state b n ring live \<Longrightarrow> aws_ring_buffer_is_valid ring = Inr True"
  by (auto simp: ring_state_def ring_over_def aws_ring_buffer_is_valid_def aws_ring_buffer_check_atomic_ptr_def
        dest!: ring_inv_bounds)

lemma ring_state_release:
  "ring_state b n ring (x # live) \<Longrightarrow> ring_state b n (snd (aws_ring_buffer_release ring x)) live"
  using release_inv [of b n _ _ x live]
  by (fastforce simp: ring_state_def ring_over_def aws_ring_buffer_release_def buf_end_def [symmetric] dest: ring_inv_empty_iff)

section \<open>Sequential correctness\<close>

lemma vend_state:
  assumes s: "ring_state b n ring live" and r: "request_ok r"
  shows "if unat (least_size r) \<le> free_space n ring
         then \<exists>v. vend_for ring r (rb_tail ring) (rb_head ring) = Inr v \<and>
                  ring_state b n (store_vend v ring) (live @ [v_dest v]) \<and> b_len (v_dest v) = 0 \<and>
                  unat (b_capacity (v_dest v)) = min (unat (asked r)) (free_space n ring)
         else vend_for ring r (rb_tail ring) (rb_head ring) = aws_raise_error AWS_ERROR_OOM"
proof -
  obtain t h where o: "ring_over b n ring" and th: "rb_tail ring = Ptr b t" "rb_head ring = Ptr b h" and i: "ring_inv b n t h live"
    using s by (auto simp: ring_state_def)
  have f: "free_space n ring = ring_space n t h" using th by (simp add: free_space_def)
  have le: "t \<le> n" "h \<le> n" using ring_inv_bounds [OF i] by auto
  show ?thesis
  proof (cases "unat (least_size r) \<le> ring_space n t h")
    case True
    then obtain v where v: "vend_for ring r (Ptr b t) (Ptr b h) = Inr v"
      using vend_for_spec [OF o le r] by auto
    then obtain k where k: "vend_ok b n t h v k" "k \<noteq> 0" "unat k = min (unat (asked r)) (ring_space n t h)"
      by (rule vend_for_cases [OF o le r])
    have "b_len (v_dest v) = 0" using k(1) by (auto simp: vend_ok_def vend_from_def aws_byte_buf_from_empty_array_def)
    moreover have "ring_state b n (store_vend v ring) (live @ [v_dest v]) \<and> b_capacity (v_dest v) = k"
      using vend_inv [of b n t h "[]" live, simplified, OF i k(1,2)] o th
      by (cases "v_tail v") (auto simp: ring_state_def ring_over_def store_vend_def Let_def)
    ultimately show ?thesis using True v th f k(3) by auto
  next
    case False
    then show ?thesis using vend_for_spec [OF o le r] th f by simp
  qed
qed

lemma ring_state_pool:
  assumes "ring_state b n ring live" "x \<in> set live"
  shows "aws_ring_buffer_buf_belongs_to_pool ring x = Inr True"
  using assms by (auto simp: ring_state_def ring_over_def aws_ring_buffer_buf_belongs_to_pool_def s_buf_belongs_to_pool_def
      buf_within_def dest!: ring_inv_within)

lemma ring_state_layout:
  assumes "ring_state b n ring live"
  shows "sorted_wrt buf_apart live" "\<And>x. x \<in> set live \<Longrightarrow> buf_within b 0 n x" "aws_ring_buffer_is_empty ring \<longleftrightarrow> live = []"
    "live = [] \<Longrightarrow> free_space n ring = n"
proof -
  obtain t h where "rb_tail ring = Ptr b t" "rb_head ring = Ptr b h" "ring_inv b n t h live"
    using assms by (auto simp: ring_state_def)
  then show "sorted_wrt buf_apart live" "\<And>x. x \<in> set live \<Longrightarrow> buf_within b 0 n x" "aws_ring_buffer_is_empty ring \<longleftrightarrow> live = []"
    "live = [] \<Longrightarrow> free_space n ring = n"
    using ring_inv_empty_iff [of b n t h live]
    by (auto simp: ring_inv_apart ring_inv_within aws_ring_buffer_is_empty_def free_space_def ring_space_def)
qed

lemma acquire_state:
  assumes s: "ring_state b n ring live" and k: "k \<noteq> 0"
  shows "if unat k \<le> free_space n ring
         then \<exists>d ring'. aws_ring_buffer_acquire ring k dest = (AWS_OP_SUCCESS, d, ring') \<and>
                ring_state b n ring' (live @ [d]) \<and> b_len d = 0 \<and> b_capacity d = k
         else aws_ring_buffer_acquire ring k dest = (aws_raise_error AWS_ERROR_OOM, dest, ring)"
proof -
  have eq: "j = k" if "unat j = unat k" for j :: size_t
    using that by (simp add: word_unat_eq_iff)
  show ?thesis using vend_state [OF s, of "Exactly k"] k
    by (auto simp: aws_ring_buffer_acquire_def dest: eq split: if_splits)
qed

lemma acquire_up_to_state:
  assumes s: "ring_state b n ring live" and k: "l \<noteq> 0" "l \<le> k"
  shows "if unat l \<le> free_space n ring
         then \<exists>d ring'. aws_ring_buffer_acquire_up_to ring l k dest = (AWS_OP_SUCCESS, d, ring') \<and>
                ring_state b n ring' (live @ [d]) \<and> b_len d = 0 \<and> unat (b_capacity d) = min (unat k) (free_space n ring)
         else aws_ring_buffer_acquire_up_to ring l k dest = (aws_raise_error AWS_ERROR_OOM, dest, ring)"
proof -
  have "k \<noteq> 0" using k by auto
  then show ?thesis using vend_state [OF s, of "Up_To l k"] k
    by (auto simp: aws_ring_buffer_acquire_up_to_def split: if_splits)
qed

text \<open>
  (C32) On a ring whose live buffers are \<open>live\<close>: the state is valid, the live buffers are pairwise disjoint, non-empty
  and inside the allocation and are recognised as belonging to the pool; \<open>acquire\<close> succeeds exactly when the largest
  free contiguous range is at least the requested size and hands out exactly that size, \<open>acquire_up_to\<close> hands out
  as much of the requested size as fits and fails exactly when that is less than the minimum; a success appends one buffer to the
  live ones and a failure changes nothing; releasing the oldest buffer removes it, and once all are
  released the whole allocation is free again.
\<close>

theorem ring_buffer_acquire_correct:
  assumes "ring_state b n ring live"
  shows "aws_ring_buffer_is_valid ring = Inr True \<and> sorted_wrt buf_apart live \<and>
    (\<forall>x \<in> set live. buf_within b 0 n x \<and> aws_ring_buffer_buf_belongs_to_pool ring x = Inr True) \<and>
    (aws_ring_buffer_is_empty ring \<longleftrightarrow> live = []) \<and> (live = [] \<longrightarrow> free_space n ring = n) \<and>
    (\<forall>k dest.
       if k = 0 then aws_ring_buffer_acquire ring k dest = (aws_raise_error AWS_ERROR_INVALID_ARGUMENT, dest, ring)
       else if free_space n ring < unat k
       then aws_ring_buffer_acquire ring k dest = (aws_raise_error AWS_ERROR_OOM, dest, ring)
       else \<exists>d ring'. aws_ring_buffer_acquire ring k dest = (AWS_OP_SUCCESS, d, ring') \<and>
              ring_state b n ring' (live @ [d]) \<and> b_len d = 0 \<and> b_capacity d = k) \<and>
    (\<forall>l k dest. l \<le> k \<longrightarrow>
       (if l = 0 then aws_ring_buffer_acquire_up_to ring l k dest = (aws_raise_error AWS_ERROR_INVALID_ARGUMENT, dest, ring)
        else if free_space n ring < unat l
        then aws_ring_buffer_acquire_up_to ring l k dest = (aws_raise_error AWS_ERROR_OOM, dest, ring)
        else \<exists>d ring'. aws_ring_buffer_acquire_up_to ring l k dest = (AWS_OP_SUCCESS, d, ring') \<and>
               ring_state b n ring' (live @ [d]) \<and> b_len d = 0 \<and> unat (b_capacity d) = min (unat k) (free_space n ring))) \<and>
    (\<forall>x rest. live = x # rest \<longrightarrow> ring_state b n (snd (aws_ring_buffer_release ring x)) rest)"
proof -
  have acq: "if k = 0 then aws_ring_buffer_acquire ring k dest = (aws_raise_error AWS_ERROR_INVALID_ARGUMENT, dest, ring)
       else if free_space n ring < unat k
       then aws_ring_buffer_acquire ring k dest = (aws_raise_error AWS_ERROR_OOM, dest, ring)
       else \<exists>d ring'. aws_ring_buffer_acquire ring k dest = (AWS_OP_SUCCESS, d, ring') \<and>
              ring_state b n ring' (live @ [d]) \<and> b_len d = 0 \<and> b_capacity d = k" for k dest
    using acquire_state [OF assms, of k dest] by (auto simp: aws_ring_buffer_acquire_def [of ring 0])
  have up_to: "if l = 0 then aws_ring_buffer_acquire_up_to ring l k dest = (aws_raise_error AWS_ERROR_INVALID_ARGUMENT, dest, ring)
        else if free_space n ring < unat l
        then aws_ring_buffer_acquire_up_to ring l k dest = (aws_raise_error AWS_ERROR_OOM, dest, ring)
        else \<exists>d ring'. aws_ring_buffer_acquire_up_to ring l k dest = (AWS_OP_SUCCESS, d, ring') \<and>
               ring_state b n ring' (live @ [d]) \<and> b_len d = 0 \<and> unat (b_capacity d) = min (unat k) (free_space n ring)" if "l \<le> k" for l k dest
    using acquire_up_to_state [OF assms, of l k dest] that by (auto simp: aws_ring_buffer_acquire_up_to_def [of ring 0])
  have rel: "ring_state b n (snd (aws_ring_buffer_release ring x)) rest" if "live = x # rest" for x rest
    using ring_state_release assms that by blast
  show ?thesis
    using ring_state_valid [OF assms] ring_state_pool [OF assms] ring_state_layout [OF assms]
    by (intro conjI ballI allI impI acq up_to rel)
qed

theorem ring_buffer_acquire_correct_witness:
  "\<exists>ring m' d ring'.
     aws_ring_buffer_init \<lparr>m_blocks = (\<lambda>_. None), m_next = 0\<rparr> (Some aws_default_allocator) 8 = Inr (ring, m') \<and>
     aws_ring_buffer_acquire ring 5 zero_buf = (AWS_OP_SUCCESS, d, ring') \<and> b_capacity d = 5"
proof -
  let ?r = "\<lparr>rb_allocator = Some aws_default_allocator, rb_allocation = Ptr 0 0, rb_head = Ptr 0 0, rb_tail = Ptr 0 0,
             rb_allocation_end = Ptr 0 8\<rparr>"
  have i: "aws_ring_buffer_init \<lparr>m_blocks = (\<lambda>_. None), m_next = 0\<rparr> (Some aws_default_allocator) 8 =
     Inr (?r, \<lparr>m_blocks = (\<lambda>_. None)(0 \<mapsto> replicate 8 None), m_next = 1\<rparr>)"
    by (simp add: aws_ring_buffer_init_def aws_mem_acquire_def s_default_malloc_def)
  have s: "ring_state 0 8 ?r []" by (simp add: ring_state_def ring_over_def ring_inv_def)
  have f: "free_space 8 ?r = 8" by (simp add: free_space_def ring_space_def)
  have "\<exists>d ring'. aws_ring_buffer_acquire ?r 5 zero_buf = (AWS_OP_SUCCESS, d, ring') \<and> ring_state 0 8 ring' ([] @ [d]) \<and>
      b_len d = 0 \<and> b_capacity d = 5"
    using ring_buffer_acquire_correct [OF s, THEN conjunct2, THEN conjunct2, THEN conjunct2, THEN conjunct2, THEN conjunct2,
      THEN conjunct1, rule_format, of 5 zero_buf] f by simp
  then show ?thesis using i by blast
qed

section \<open>Interleaved correctness\<close>

lemma release_acquirer:
  assumes "acquirer_inv b n t h (x # live) a"
  shows "buf_end x = Ptr b (off_of (buf_end x)) \<and> off_of (buf_end x) \<le> n \<and> (h = 0 \<longrightarrow> off_of (buf_end x) = 0) \<and>
         acquirer_inv b n (off_of (buf_end x)) h live a"
proof -
  have rel: "buf_end x = Ptr b (off_of (buf_end x)) \<and> off_of (buf_end x) \<le> n \<and> (h = 0 \<longrightarrow> off_of (buf_end x) = 0)"
    if i: "ring_inv b n t' h (x # xs)" for t' xs
  proof -
    have r: "buf_end x = Ptr b (off_of (buf_end x))" "ring_inv b n (off_of (buf_end x)) h xs"
      using release_inv [OF i] by auto
    moreover have "0 < h" using i laid_less [of b _ "x # xs" h] laid_less [of b 0 _ h] by (auto simp: ring_inv_def)
    ultimately show ?thesis using ring_inv_bounds [OF r(2)] by simp
  qed
  have later: "acquirer_inv b n (off_of (buf_end x)) h live a" if "a = Loaded_Tail r p \<or> a = Decided r v" for r p v
    using that
  proof (elim disjE)
    assume a: "a = Loaded_Tail r p"
    then obtain t\<^sub>0 us where "request_ok r" "p = Ptr b t\<^sub>0" "ring_inv b n t\<^sub>0 h (us @ x # live)" using assms by auto
    then show ?thesis using a by (auto intro!: exI [of _ "us @ [x]"])
  next
    assume a: "a = Decided r v"
    then obtain t\<^sub>0 us k where "vend_ok b n t\<^sub>0 h v k" "k \<noteq> 0" "fits r k" "ring_inv b n t\<^sub>0 h (us @ x # live)" using assms by auto
    then show ?thesis using a by (auto intro!: exI [of _ t\<^sub>0] exI [of _ "us @ [x]"] exI [of _ k])
  qed
  show ?thesis
  proof (cases a)
    case Idle
    then show ?thesis using assms rel release_inv by fastforce
  next
    case (Loaded_Tail r p)
    then obtain t\<^sub>0 us where "ring_inv b n t\<^sub>0 h (us @ x # live)" using assms by auto
    from rel [OF releases_inv [OF this]] show ?thesis using later Loaded_Tail by blast
  next
    case (Decided r v)
    then obtain t\<^sub>0 us where "ring_inv b n t\<^sub>0 h (us @ x # live)" using assms by auto
    from rel [OF releases_inv [OF this]] show ?thesis using later Decided by blast
  next
    case (Stored_Head v)
    then have i: "v_tail v = None" "ring_inv b n t h (x # live @ [v_dest v])" using assms by (auto split: option.splits)
    then show ?thesis using Stored_Head rel [OF i(2)] release_inv [OF i(2)] by simp
  next
    case (Stored_Tail v)
    then have i: "ring_inv b n t h (x # live @ [v_dest v])" using assms by simp
    then show ?thesis using Stored_Tail rel [OF i] release_inv [OF i] by simp
  qed
qed

lemma system_inv_step:
  assumes inv: "system_inv b n s" and step: "ring_step s s'"
  shows "system_inv b n s'"
proof -
  obtain t h where o: "ring_over b n (s_ring s)" and th: "rb_tail (s_ring s) = Ptr b t" "rb_head (s_ring s) = Ptr b h"
    and le: "t \<le> n" "h \<le> n" and z: "h = 0 \<longrightarrow> t = 0" and a: "acquirer_inv b n t h (s_live s) (s_acquirer s)"
    using inv by (auto simp: system_inv_def)
  note goal = system_inv_def ring_over_def
  from step show ?thesis
  proof cases
    case (load_tail r)
    then have "ring_inv b n t h ([] @ s_live s)" using a by simp
    then show ?thesis using load_tail o th le z by (auto simp: goal intro: exI [of _ "[]"])
  next
    case (load_head r p v)
    then obtain t\<^sub>0 us where i: "request_ok r" "p = Ptr b t\<^sub>0" "ring_inv b n t\<^sub>0 h (us @ s_live s)" "t = tail_after t\<^sub>0 us"
      using a by auto
    obtain k where "vend_ok b n t\<^sub>0 h v k" "k \<noteq> 0" "fits r k"
      using vend_for_cases [OF o _ _ i(1), of t\<^sub>0 h v] ring_inv_bounds [OF i(3)] load_head th i(2) by auto
    then show ?thesis using load_head o th le z i by (auto simp: goal)
  next
    case (refuse r p e)
    then obtain t\<^sub>0 us where "ring_inv b n t\<^sub>0 h (us @ s_live s)" "t = tail_after t\<^sub>0 us" using a by auto
    then show ?thesis using refuse o th le z releases_inv by (auto simp: goal)
  next
    case (store_head r v)
    then obtain t\<^sub>0 us k where i: "ring_inv b n t\<^sub>0 h (us @ s_live s)" "t = tail_after t\<^sub>0 us" "vend_ok b n t\<^sub>0 h v k" "k \<noteq> 0"
      using a by auto
    from vend_inv [OF i(1,3,4)] show ?thesis using store_head o th le i(2) by (auto simp: goal split: option.splits)
  next
    case (store_tail v p)
    then show ?thesis using a o th le by (auto simp: goal)
  next
    case (return_dest v)
    then show ?thesis using a o th le z by (auto simp: goal)
  next
    case (release x rest)
    then show ?thesis using release_acquirer [of b n t h x rest "s_acquirer s"] a o th le
      by (auto simp: goal aws_ring_buffer_release_def buf_end_def [symmetric])
  qed
qed

lemma system_inv_reachable:
  "ring_reachable s\<^sub>0 s \<Longrightarrow> system_inv b n s\<^sub>0 \<Longrightarrow> system_inv b n s"
  by (induction rule: ring_reachable.induct) (auto intro: system_inv_step)

lemma ring_next_step: "ring_next s e = Some s' \<Longrightarrow> ring_step s s'"
proof (cases e)
  case Continue
  assume "ring_next s e = Some s'"
  with Continue show ?thesis
    by (auto split: acquirer.splits sum.splits option.splits
        intro: ring_step.load_head ring_step.refuse ring_step.store_head ring_step.store_tail ring_step.return_dest)
qed (auto split: if_splits list.splits intro: ring_step.load_tail ring_step.release)

lemma ring_run_reachable: "ring_reachable s\<^sub>0 s \<Longrightarrow> ring_run s es = Some s' \<Longrightarrow> ring_reachable s\<^sub>0 s'"
  by (induction s es rule: ring_run.induct)
    (auto split: option.splits intro: ring_reachable.step ring_next_step)

lemma held_inv: "system_inv b n s \<Longrightarrow> \<exists>t h. ring_inv b n t h (held s)"
proof -
  assume "system_inv b n s"
  then obtain t h where a: "acquirer_inv b n t h (s_live s) (s_acquirer s)" by (auto simp: system_inv_def)
  show ?thesis
  proof (cases "s_acquirer s")
    case (Stored_Head v)
    then show ?thesis using a by (auto simp: held_def split: option.splits)
  qed (use a in \<open>auto simp: held_def dest: releases_inv\<close>)
qed

lemma system_inv_valid: "system_inv b n s \<Longrightarrow> aws_ring_buffer_is_valid (s_ring s) = Inr True"
  by (auto simp: system_inv_def ring_over_def aws_ring_buffer_is_valid_def aws_ring_buffer_check_atomic_ptr_def)

lemma system_inv_decides:
  assumes "system_inv b n s" "s_acquirer s = Loaded_Tail r p"
  shows "vend_for (s_ring s) r p (rb_head (s_ring s)) = aws_raise_error AWS_ERROR_OOM \<or>
         (\<exists>v. vend_for (s_ring s) r p (rb_head (s_ring s)) = Inr v)"
proof -
  obtain t h t\<^sub>0 us where o: "ring_over b n (s_ring s)" "request_ok r" "rb_head (s_ring s) = Ptr b h" "p = Ptr b t\<^sub>0"
    "ring_inv b n t\<^sub>0 h (us @ s_live s)"
    using assms by (auto simp: system_inv_def)
  show ?thesis using vend_for_spec [OF o(1) _ _ o(2), of t\<^sub>0 h] ring_inv_bounds [OF o(5)] o(3,4) by (auto split: if_splits)
qed

lemma system_inv_fits:
  assumes "system_inv b n s" "s_acquirer s = Decided r v"
  shows "fits r (b_capacity (v_dest v))"
  using assms by (auto simp: system_inv_def vend_ok_def vend_from_def)

text \<open>
  (C9) From the initial state, whatever the order in which the atomic loads and stores of the acquiring thread and the
  in-order releases of the other thread happen: the ring stays valid, the buffers that are handed out, and the
  one about to be, are pairwise disjoint, non-empty and inside the allocation; every decision taken from a
  possibly stale tail is a buffer of the size asked for or the out-of-memory error.
\<close>

theorem ring_buffer_interleaved_safe:
  assumes "aws_ring_buffer_init m allocator sz = Inr (ring, m')" "ring_reachable (ring_start ring) s"
  shows "aws_ring_buffer_is_valid (s_ring s) = Inr True \<and> sorted_wrt buf_apart (held s) \<and>
    (\<forall>x \<in> set (held s). buf_within (m_next m) 0 (unat sz) x) \<and>
    (\<forall>r t. s_acquirer s = Loaded_Tail r t \<longrightarrow>
       vend_for (s_ring s) r t (rb_head (s_ring s)) = aws_raise_error AWS_ERROR_OOM \<or>
       (\<exists>v. vend_for (s_ring s) r t (rb_head (s_ring s)) = Inr v)) \<and>
    (\<forall>r v. s_acquirer s = Decided r v \<longrightarrow> fits r (b_capacity (v_dest v)))"
proof -
  have "system_inv (m_next m) (unat sz) (ring_start ring)"
    using ring_state_init [OF assms(1)] ring_inv_bounds by (fastforce simp: system_inv_def ring_start_def ring_state_def)
  then have i: "system_inv (m_next m) (unat sz) s" by (rule system_inv_reachable [OF assms(2)])
  obtain t h where "ring_inv (m_next m) (unat sz) t h (held s)" using held_inv [OF i] by blast
  then show ?thesis
    using system_inv_valid [OF i] system_inv_decides [OF i] system_inv_fits [OF i] by (auto intro: ring_inv_apart ring_inv_within)
qed

lemma example_run:
  "map_option held (ring_run (ring_start example_ring) example_schedule) = Some [aws_byte_buf_from_empty_array (Ptr 0 0) 4]"
  by code_simp

theorem ring_buffer_interleaved_safe_witness:
  "\<exists>s. ring_reachable (ring_start example_ring) s \<and> held s = [aws_byte_buf_from_empty_array (Ptr 0 0) 4] \<and>
     aws_ring_buffer_is_valid (s_ring s) = Inr True \<and> (\<forall>x \<in> set (held s). buf_within 0 0 8 x)"
proof -
  have i: "aws_ring_buffer_init \<lparr>m_blocks = (\<lambda>_. None), m_next = 0\<rparr> (Some aws_default_allocator) 8 =
     Inr (example_ring, \<lparr>m_blocks = (\<lambda>_. None)(0 \<mapsto> replicate 8 None), m_next = 1\<rparr>)"
    by (simp add: aws_ring_buffer_init_def aws_mem_acquire_def s_default_malloc_def example_ring_def)
  obtain s where s: "ring_run (ring_start example_ring) example_schedule = Some s"
    "held s = [aws_byte_buf_from_empty_array (Ptr 0 0) 4]"
    using example_run by auto
  have r: "ring_reachable (ring_start example_ring) s" using ring_run_reachable [OF ring_reachable.start s(1)] .
  from ring_buffer_interleaved_safe [OF i r] show ?thesis using r s(2) by auto
qed

end
