(* ===== verification/Linked_Hash_Table.thy ===== *)
theory Linked_Hash_Table
  imports Hash_Table Linked_List
begin

text \<open>
  The hash table with a linked list over its elements of \<open>source/linked_hash_table.c\<close>: the composition of
  \<open>Hash_Table\<close>, whose values are pointers to nodes, and \<open>Linked_List\<close>, which links those nodes in insertion order.

  A node is an address; its \<open>key\<close> and \<open>value\<close> members are in \<open>lt_nodes\<close>, its list links in \<open>lt_heap\<close>, and its
  \<open>table\<close> member is the one table of the state.  \<open>lt_next\<close> is the next address the allocator returns.  The hash
  table's value destructor is \<open>s_element_destroy\<close>; it does not touch the hash table, so the calls an operation of
  the hash table makes are run on the list after it.  An operation returns its result, the calls of the user's
  key and value destructors in order, and the new state.
\<close>

section \<open>State\<close>

record ('k, 'v) linked_hash_table_node =
  ln_key :: "'k option"
  ln_value :: "'v option"

record ('k, 'v) linked_hash_table =
  lt_list :: "nat linked_list"
  lt_table :: "('k, nat) hash_table"
  lt_user_on_value_destroy :: bool
  lt_heap :: "nat ll_heap"
  lt_nodes :: "nat \<Rightarrow> ('k, 'v) linked_hash_table_node option"
  lt_next :: nat

type_synonym ('k, 'v) user_calls = "('k, 'v) destroy_call list"

section \<open>Destruction of elements\<close>

definition s_element_destroy ::
  "('k, 'v) linked_hash_table \<Rightarrow> nat option \<Rightarrow> (('k, 'v) user_calls \<times> ('k, 'v) linked_hash_table) res" where
  "s_element_destroy t value =
     (case value of
        None \<Rightarrow> Inl Undefined
      | Some a \<Rightarrow>
          (case lt_nodes t a of
             None \<Rightarrow> Inl Undefined
           | Some node \<Rightarrow>
               bind_res (aws_linked_list_remove (lt_heap t) (Some a)) (\<lambda>h.
                 Inr (if lt_user_on_value_destroy t then [DestroyValue (ln_value node)] else [],
                      t\<lparr>lt_heap := h(a := None), lt_nodes := (lt_nodes t)(a := None)\<rparr>))))"

fun run_destroy_calls ::
  "('k, nat) destroy_call list \<Rightarrow> ('k, 'v) linked_hash_table \<Rightarrow>
     (('k, 'v) user_calls \<times> ('k, 'v) linked_hash_table) res" where
  "run_destroy_calls [] t = Inr ([], t)"
| "run_destroy_calls (DestroyKey k # calls) t =
     bind_res (run_destroy_calls calls t) (\<lambda>(us, t). Inr (DestroyKey k # us, t))"
| "run_destroy_calls (DestroyValue v # calls) t =
     bind_res (s_element_destroy t v) (\<lambda>(us, t).
     bind_res (run_destroy_calls calls t) (\<lambda>(vs, t). Inr (us @ vs, t)))"

section \<open>Operations\<close>

definition aws_linked_hash_table_init ::
  "nat ll_heap \<Rightarrow> nat linked_list \<Rightarrow> nat \<Rightarrow> nat \<Rightarrow> ('k \<Rightarrow> u64) \<Rightarrow> ('k \<Rightarrow> 'k \<Rightarrow> bool) \<Rightarrow> bool \<Rightarrow> bool \<Rightarrow> size_t \<Rightarrow>
     ('k, 'v) linked_hash_table res" where
  "aws_linked_hash_table_init h l next_address alloc hash_fn equals_fn destroy_key_fn destroy_value_fn initial_item_count =
     bind_res (aws_linked_list_init h l) (\<lambda>h.
     bind_res (aws_hash_table_init alloc initial_item_count hash_fn equals_fn destroy_key_fn True) (\<lambda>tbl.
       Inr \<lparr>lt_list = l, lt_table = tbl, lt_user_on_value_destroy = destroy_value_fn, lt_heap = h,
            lt_nodes = (\<lambda>_. None), lt_next = next_address\<rparr>))"

definition aws_linked_hash_table_get_iteration_list :: "('k, 'v) linked_hash_table \<Rightarrow> nat linked_list" where
  "aws_linked_hash_table_get_iteration_list t = lt_list t"

definition aws_linked_hash_table_get_element_count :: "('k, 'v) linked_hash_table \<Rightarrow> size_t res" where
  "aws_linked_hash_table_get_element_count t = aws_hash_table_get_entry_count (lt_table t)"

definition aws_linked_hash_table_move_node_to_end_of_list ::
  "('k, 'v) linked_hash_table \<Rightarrow> nat \<Rightarrow> ('k, 'v) linked_hash_table res" where
  "aws_linked_hash_table_move_node_to_end_of_list t node =
     bind_res (aws_linked_list_remove (lt_heap t) (Some node)) (\<lambda>h.
     bind_res (aws_linked_list_push_back h (lt_list t) (Some node)) (\<lambda>h. Inr (t\<lparr>lt_heap := h\<rparr>)))"

text \<open>The node an element of the hash table points to.\<close>

definition element_node :: "('k, 'v) linked_hash_table \<Rightarrow> size_t \<Rightarrow> (nat \<times> ('k, 'v) linked_hash_table_node) res" where
  "element_node t element =
     (case lt_table t of
        None \<Rightarrow> Inl Undefined
      | Some st \<Rightarrow>
          bind_res (slot_get st element) (\<lambda>entry.
            case e_value entry of
              None \<Rightarrow> Inl Undefined
            | Some a \<Rightarrow> (case lt_nodes t a of None \<Rightarrow> Inl Undefined | Some node \<Rightarrow> Inr (a, node))))"

definition aws_linked_hash_table_find :: "('k, 'v) linked_hash_table \<Rightarrow> 'k option \<Rightarrow> 'v option res" where
  "aws_linked_hash_table_find t key =
     bind_res (aws_hash_table_find (lt_table t) key) (\<lambda>element.
       case element of
         None \<Rightarrow> Inr None
       | Some element \<Rightarrow> bind_res (element_node t element) (\<lambda>(_, linked_node). Inr (ln_value linked_node)))"

definition aws_linked_hash_table_find_and_move_to_back ::
  "('k, 'v) linked_hash_table \<Rightarrow> 'k option \<Rightarrow> ('v option \<times> ('k, 'v) linked_hash_table) res" where
  "aws_linked_hash_table_find_and_move_to_back t key =
     bind_res (aws_hash_table_find (lt_table t) key) (\<lambda>element.
       case element of
         None \<Rightarrow> Inr (None, t)
       | Some element \<Rightarrow>
           bind_res (element_node t element) (\<lambda>(a, linked_node).
           bind_res (aws_linked_hash_table_move_node_to_end_of_list t a) (\<lambda>t. Inr (ln_value linked_node, t))))"

definition aws_linked_hash_table_put ::
  "('k, 'v) linked_hash_table \<Rightarrow> 'k option \<Rightarrow> 'v option \<Rightarrow>
     unit res \<times> ('k, 'v) user_calls \<times> ('k, 'v) linked_hash_table" where
  "aws_linked_hash_table_put t key p_value =
     (let node = lt_next t;
          t = t\<lparr>lt_heap := (lt_heap t)(node \<mapsto> \<lparr>n_next = None, n_prev = None\<rparr>),
                lt_nodes := (lt_nodes t)(node \<mapsto> \<lparr>ln_key = None, ln_value = None\<rparr>), lt_next := node + 1\<rparr>
      in case aws_hash_table_create (lt_table t) key of
           (Inl err_val, tbl) \<Rightarrow>
             (Inl err_val, [],
              t\<lparr>lt_table := tbl, lt_heap := (lt_heap t)(node := None), lt_nodes := (lt_nodes t)(node := None)\<rparr>)
         | (Inr (Some element, was_added), Some st) \<Rightarrow>
             (case slot_get st element of
                Inl e \<Rightarrow> (Inl e, [], t\<lparr>lt_table := Some st\<rparr>)
              | Inr entry \<Rightarrow>
                  (case (if e_value entry \<noteq> None then s_element_destroy t (e_value entry) else Inr ([], t)) of
                     Inl e \<Rightarrow> (Inl e, [], t\<lparr>lt_table := Some st\<rparr>)
                   | Inr (calls, t) \<Rightarrow>
                       let t = t\<lparr>lt_nodes := (lt_nodes t)(node \<mapsto> \<lparr>ln_key = key, ln_value = p_value\<rparr>),
                                 lt_table := Some (slot_set st element (entry\<lparr>e_value := Some node\<rparr>))\<rparr>
                       in case aws_linked_list_push_back (lt_heap t) (lt_list t) (Some node) of
                            Inl e \<Rightarrow> (Inl e, calls, t)
                          | Inr h \<Rightarrow> (AWS_OP_SUCCESS, calls, t\<lparr>lt_heap := h\<rparr>)))
         | (_, tbl) \<Rightarrow> (Inl Undefined, [], t\<lparr>lt_table := tbl\<rparr>))"

definition aws_linked_hash_table_remove ::
  "('k, 'v) linked_hash_table \<Rightarrow> 'k option \<Rightarrow> unit res \<times> ('k, 'v) user_calls \<times> ('k, 'v) linked_hash_table" where
  "aws_linked_hash_table_remove t key =
     (case aws_hash_table_remove (lt_table t) key False of
        (Inl e, _, tbl) \<Rightarrow> (Inl e, [], t\<lparr>lt_table := tbl\<rparr>)
      | (Inr _, calls, tbl) \<Rightarrow>
          (case run_destroy_calls calls (t\<lparr>lt_table := tbl\<rparr>) of
             Inl e \<Rightarrow> (Inl e, [], t)
           | Inr (us, t) \<Rightarrow> (AWS_OP_SUCCESS, us, t)))"

definition aws_linked_hash_table_clear ::
  "('k, 'v) linked_hash_table \<Rightarrow> (('k, 'v) user_calls \<times> ('k, 'v) linked_hash_table) res" where
  "aws_linked_hash_table_clear t =
     (case aws_hash_table_clear (lt_table t) of
        (Inl e, _) \<Rightarrow> Inl e
      | (Inr calls, tbl) \<Rightarrow> run_destroy_calls calls (t\<lparr>lt_table := tbl\<rparr>))"

text \<open>
  After \<open>AWS_ZERO_STRUCT\<close> the table has no state; its list head and tail have no links.
\<close>

definition aws_linked_hash_table_clean_up ::
  "('k, 'v) linked_hash_table \<Rightarrow> (('k, 'v) user_calls \<times> ('k, 'v) linked_hash_table) res" where
  "aws_linked_hash_table_clean_up t =
     (case aws_hash_table_clean_up (lt_table t) of
        (Inl e, _) \<Rightarrow> Inl e
      | (Inr calls, tbl) \<Rightarrow>
          bind_res (run_destroy_calls calls (t\<lparr>lt_table := tbl\<rparr>)) (\<lambda>(us, t).
            Inr (us, t\<lparr>lt_table := None, lt_user_on_value_destroy := False,
                       lt_heap := (lt_heap t)(ll_head (lt_list t) \<mapsto> \<lparr>n_next = None, n_prev = None\<rparr>,
                                              ll_tail (lt_list t) \<mapsto> \<lparr>n_next = None, n_prev = None\<rparr>)\<rparr>)))"

section \<open>Abstraction and invariant\<close>

text \<open>A table as its pairs in iteration order, under the equality \<open>E\<close> of keys.\<close>

definition kv_find :: "('k \<Rightarrow> 'k \<Rightarrow> bool) \<Rightarrow> 'k \<Rightarrow> ('k \<times> 'v) list \<Rightarrow> ('k \<times> 'v) option" where
  "kv_find E k ps = List.find (\<lambda>p. E k (fst p)) ps"

definition kv_drop :: "('k \<Rightarrow> 'k \<Rightarrow> bool) \<Rightarrow> 'k \<Rightarrow> ('k \<times> 'v) list \<Rightarrow> ('k \<times> 'v) list" where
  "kv_drop E k ps = filter (\<lambda>p. \<not> E k (fst p)) ps"

definition kv_put :: "('k \<Rightarrow> 'k \<Rightarrow> bool) \<Rightarrow> 'k \<Rightarrow> 'v \<Rightarrow> ('k \<times> 'v) list \<Rightarrow> ('k \<times> 'v) list" where
  "kv_put E k v ps = kv_drop E k ps @ [(k, v)]"

definition kv_touch :: "('k \<Rightarrow> 'k \<Rightarrow> bool) \<Rightarrow> 'k \<Rightarrow> ('k \<times> 'v) list \<Rightarrow> ('k \<times> 'v) list" where
  "kv_touch E k ps = kv_drop E k ps @ (case kv_find E k ps of None \<Rightarrow> [] | Some p \<Rightarrow> [p])"

text \<open>The key and value of the node at an address.\<close>

definition node_kv :: "('k, 'v) linked_hash_table \<Rightarrow> nat \<Rightarrow> 'k option \<times> 'v option" where
  "node_kv t a = (case lt_nodes t a of None \<Rightarrow> (None, None) | Some n \<Rightarrow> (ln_key n, ln_value n))"

text \<open>The list of the state links the nodes \<open>xs\<close>; the other live nodes are those of \<open>P\<close>.\<close>

definition links_ok :: "('k, 'v) linked_hash_table \<Rightarrow> nat set \<Rightarrow> nat list \<Rightarrow> bool" where
  "links_ok t P xs \<longleftrightarrow> is_list (lt_heap t) (lt_list t) xs \<and> dom (lt_nodes t) = set xs \<union> P \<and>
     P \<inter> set (all_nodes (lt_list t) xs) = {} \<and> (\<forall>a \<in> P. live (lt_heap t) a) \<and> (\<forall>a. live (lt_heap t) a \<longrightarrow> a < lt_next t)"

abbreviation nodes_ok :: "('k, 'v) linked_hash_table \<Rightarrow> nat list \<Rightarrow> bool" where
  "nodes_ok t xs \<equiv> links_ok t {} xs"

text \<open>Elements of the hash table and nodes correspond, with equal keys.\<close>

definition elements_ok ::
  "('k, 'v) linked_hash_table \<Rightarrow> ('k, nat) hash_table_state \<Rightarrow> nat list \<Rightarrow> bool" where
  "elements_ok t st xs \<longleftrightarrow> image_mset e_value (ents (ht_slots st)) = mset (map Some xs) \<and>
     (\<forall>e \<in># ents (ht_slots st). \<forall>a. e_value e = Some a \<longrightarrow> s_hash_keys_eq st (e_key e) (fst (node_kv t a)))"

definition lht_inv :: "('k, 'v) linked_hash_table \<Rightarrow> ('k, nat) hash_table_state \<Rightarrow> nat list \<Rightarrow> bool" where
  "lht_inv t st xs \<longleftrightarrow> lt_table t = Some st \<and> ht_inv st \<and> ht_destroy_value_fn st \<and> nodes_ok t xs \<and> elements_ok t st xs"

text \<open>The state after the allocation of a node.\<close>

definition with_node :: "('k, 'v) linked_hash_table \<Rightarrow> ('k, 'v) linked_hash_table" where
  "with_node t = t\<lparr>lt_heap := (lt_heap t)(lt_next t \<mapsto> \<lparr>n_next = None, n_prev = None\<rparr>),
     lt_nodes := (lt_nodes t)(lt_next t \<mapsto> \<lparr>ln_key = None, ln_value = None\<rparr>), lt_next := lt_next t + 1\<rparr>"

definition tbl_keys :: "('k, 'v) linked_hash_table \<Rightarrow> 'k option multiset" where
  "tbl_keys t = (case lt_table t of None \<Rightarrow> {#} | Some st \<Rightarrow> image_mset e_key (ents (ht_slots st)))"

text \<open>
  The table with key equality \<open>eq\<close>, a key destructor when \<open>dk\<close> and a value destructor when \<open>dv\<close> holds the pairs
  \<open>ps\<close> in iteration order.
\<close>

definition lht_rep ::
  "('k \<Rightarrow> 'k \<Rightarrow> bool) \<Rightarrow> bool \<Rightarrow> bool \<Rightarrow> ('k, 'v) linked_hash_table \<Rightarrow> ('k option \<times> 'v option) list \<Rightarrow> bool" where
  "lht_rep eq dk dv t ps \<longleftrightarrow> (\<exists>st xs. lht_inv t st xs \<and> ht_equals_fn st = eq \<and> ht_destroy_key_fn st = dk \<and>
     lt_user_on_value_destroy t = dv \<and> ps = map (node_kv t) xs)"

definition demo_ends :: "nat ll_heap" where
  "demo_ends = [0 \<mapsto> \<lparr>n_next = None, n_prev = None\<rparr>, 1 \<mapsto> \<lparr>n_next = None, n_prev = None\<rparr>]"

definition demo_lht :: "(u64, u64) linked_hash_table res" where
  "demo_lht = aws_linked_hash_table_init demo_ends \<lparr>ll_head = 0, ll_tail = 1\<rparr> 2 0 (\<lambda>k. k) (=) True True 2"

section \<open>Lemmas\<close>

section \<open>The list of key-value pairs\<close>

section \<open>Lists of pairs\<close>

lemma find_unique:
  assumes "a \<in> set xs" "P (f a)" "\<forall>b \<in> set xs. b \<noteq> a \<longrightarrow> \<not> P (f b)"
  shows "List.find P (map f xs) = Some (f a)"
  using assms by (induction xs) auto

lemma kv_find_unique:
  assumes "a \<in> set xs" "E k (fst (f a))" "\<forall>b \<in> set xs. b \<noteq> a \<longrightarrow> \<not> E k (fst (f b))"
  shows "kv_find E k (map f xs) = Some (f a)"
  unfolding kv_find_def using assms by (intro find_unique) auto

lemma kv_find_absent: "(\<And>b. b \<in> set xs \<Longrightarrow> \<not> E k (fst (f b))) \<Longrightarrow> kv_find E k (map f xs) = None"
  by (auto simp: kv_find_def find_None_iff)

lemma kv_drop_absent: "(\<And>b. b \<in> set xs \<Longrightarrow> \<not> E k (fst (f b))) \<Longrightarrow> kv_drop E k (map f xs) = map f xs"
  by (auto simp: kv_drop_def filter_id_conv)

lemma kv_drop_unique:
  assumes "distinct (us @ a # vs)" "E k (fst (f a))" "\<forall>b \<in> set (us @ a # vs). b \<noteq> a \<longrightarrow> \<not> E k (fst (f b))"
  shows "kv_drop E k (map f (us @ a # vs)) = map f (us @ vs)"
proof -
  have "\<not> E k (fst (f b))" if "b \<in> set us \<or> b \<in> set vs" for b
    using assms(1,3) that by auto
  then show ?thesis using assms(2) by (simp add: kv_drop_def filter_id_conv)
qed

section \<open>Nodes\<close>

lemma nodes_okD:
  assumes "links_ok t P xs"
  shows "is_list (lt_heap t) (lt_list t) xs" "dom (lt_nodes t) = set xs \<union> P" "distinct xs"
    "\<And>a. a \<in> set (all_nodes (lt_list t) xs) \<Longrightarrow> a < lt_next t" "\<And>a. a \<in> set xs \<Longrightarrow> \<exists>n. lt_nodes t a = Some n"
    "\<not> live (lt_heap t) (lt_next t)"
  using assms is_listD(1,2) [of "lt_heap t" "lt_list t" xs] by (auto simp: links_ok_def all_nodes_def)

lemma is_list_cong:
  assumes l: "is_list h l xs" and eq: "\<And>b. b \<in> set (all_nodes l xs) \<Longrightarrow> h' b = h b"
  shows "is_list h' l xs"
proof -
  have e: "nx h' b = nx h b" "pv h' b = pv h b" "live h' b = live h b" if "b \<in> set (all_nodes l xs)" for b
    using eq [OF that] by (simp_all add: nx_def pv_def live_def)
  have "set (butlast (all_nodes l xs)) \<subseteq> set (all_nodes l xs)" "set (tl (all_nodes l xs)) \<subseteq> set (all_nodes l xs)"
    by (auto dest: in_set_butlastD) (simp add: all_nodes_def)
  then have "chain (nx h') (pv h') (all_nodes l xs)"
    using e by (intro chain_cong [OF is_listD(3) [OF l]]) blast+
  then show ?thesis using l e by (simp add: is_list_def)
qed

lemma destroy_ok:
  assumes n: "links_ok t P (us @ a # vs)"
  obtains h where "s_element_destroy t (Some a) =
      Inr (if lt_user_on_value_destroy t then [DestroyValue (snd (node_kv t a))] else [],
           t\<lparr>lt_heap := h, lt_nodes := (lt_nodes t)(a := None)\<rparr>)"
    "links_ok (t\<lparr>lt_heap := h, lt_nodes := (lt_nodes t)(a := None)\<rparr>) P (us @ vs)"
proof -
  note d = nodes_okD [OF n]
  obtain nd where nd: "lt_nodes t a = Some nd" using d(5) [of a] by auto
  obtain h where h: "aws_linked_list_remove (lt_heap t) (Some a) = Inr h" "is_list h (lt_list t) (us @ vs)"
    "agree_off (set (all_nodes (lt_list t) (us @ a # vs))) (lt_heap t) h"
    using remove_is_list [OF d(1)] .
  have lv: "live h b \<longleftrightarrow> live (lt_heap t) b" for b using h(3) by (simp add: agree_off_def)
  have a: "a \<notin> set (all_nodes (lt_list t) (us @ vs))" "a \<notin> P"
    using is_listD(1) [OF d(1)] n by (auto simp: all_nodes_def links_ok_def)
  have "is_list (h(a := None)) (lt_list t) (us @ vs)" using a by (intro is_list_cong [OF h(2)]) auto
  moreover have "dom ((lt_nodes t)(a := None)) = set (us @ vs) \<union> P" using d(2,3) a by auto
  moreover have "b < lt_next t" if "live (h(a := None)) b" for b
    using that lv n by (auto simp: links_ok_def live_def split: if_splits)
  moreover have "live (h(a := None)) b" if "b \<in> P" for b
    using that lv [of b] n a by (auto simp: links_ok_def live_def)
  ultimately have "links_ok (t\<lparr>lt_heap := h(a := None), lt_nodes := (lt_nodes t)(a := None)\<rparr>) P (us @ vs)"
    using n by (auto simp: links_ok_def)
  then show thesis using h(1) nd by (intro that [of "h(a := None)"]) (simp_all add: s_element_destroy_def node_kv_def)
qed

lemma with_node_ok:
  assumes n: "nodes_ok t xs"
  shows "links_ok (with_node t) {lt_next t} xs"
proof -
  note d = nodes_okD [OF n]
  have a: "lt_next t \<notin> set (all_nodes (lt_list t) xs)" using d(4) by blast
  have "is_list ((lt_heap t)(lt_next t \<mapsto> \<lparr>n_next = None, n_prev = None\<rparr>)) (lt_list t) xs"
    using a by (intro is_list_cong [OF d(1)]) auto
  then show ?thesis using n a by (auto simp: links_ok_def with_node_def live_def less_Suc_eq)
qed

lemma push_node_ok:
  assumes n: "links_ok t {a} xs"
  obtains h where "aws_linked_list_push_back (lt_heap t) (lt_list t) (Some a) = Inr h"
    "nodes_ok (t\<lparr>lt_heap := h\<rparr>) (xs @ [a])"
proof -
  note d = nodes_okD [OF n]
  have a: "a \<notin> set (all_nodes (lt_list t) xs)" "live (lt_heap t) a" using n by (auto simp: links_ok_def)
  obtain h where h: "aws_linked_list_push_back (lt_heap t) (lt_list t) (Some a) = Inr h" "is_list h (lt_list t) (xs @ [a])"
    "agree_off (set (all_nodes (lt_list t) (xs @ [a]))) (lt_heap t) h"
    by (rule ll_push_back_ok [OF d(1) a])
  have "live h b \<longleftrightarrow> live (lt_heap t) b" for b using h(3) by (simp add: agree_off_def)
  then show thesis using h(1,2) n by (intro that [of h]) (auto simp: links_ok_def)
qed

section \<open>Keys and nodes\<close>

lemma lht_invD:
  assumes "lht_inv t st xs"
  shows "lt_table t = Some st" "ht_inv st" "ht_destroy_value_fn st" "nodes_ok t xs" "elements_ok t st xs" "distinct xs"
  using assms nodes_okD(3) by (auto simp: lht_inv_def)

lemma element_of_node:
  assumes "elements_ok t st xs" "b \<in> set xs"
  obtains f where "f \<in># ents (ht_slots st)" "e_value f = Some b" "s_hash_keys_eq st (e_key f) (fst (node_kv t b))"
proof -
  have "Some b \<in># image_mset e_value (ents (ht_slots st))" using assms by (simp add: elements_ok_def)
  then obtain f where "f \<in># ents (ht_slots st)" "e_value f = Some b" by (auto simp: eq_commute)
  then show thesis using that assms(1) by (auto simp: elements_ok_def)
qed

lemma node_of_element:
  assumes "elements_ok t st xs" "e \<in># ents (ht_slots st)"
  obtains a where "a \<in> set xs" "e_value e = Some a" "s_hash_keys_eq st (e_key e) (fst (node_kv t a))"
proof -
  have "e_value e \<in># mset (map Some xs)" using assms unfolding elements_ok_def by (metis in_image_mset imageI)
  then show thesis using that assms by (auto simp: elements_ok_def)
qed

lemma other_nodes:
  assumes inv: "lht_inv t st xs" and e: "e \<in># ents (ht_slots st)" "e_value e = Some a" "s_hash_keys_eq st key (e_key e)"
  shows "\<forall>b \<in> set xs. b \<noteq> a \<longrightarrow> \<not> s_hash_keys_eq st key (fst (node_kv t b))"
proof (intro ballI impI notI)
  fix b assume b: "b \<in> set xs" "b \<noteq> a" "s_hash_keys_eq st key (fst (node_kv t b))"
  note v = ht_invD [OF lht_invD(2) [OF inv]]
  obtain f where f: "f \<in># ents (ht_slots st)" "e_value f = Some b" "s_hash_keys_eq st (e_key f) (fst (node_kv t b))"
    by (rule element_of_node [OF lht_invD(5) [OF inv] b(1)])
  have "e \<noteq> f" using e(2) f(2) b(2) by auto
  then have "{#e, f#} \<subseteq># ents (ht_slots st)" using e(1) f(1) by (auto simp: pair_subset in_diff_count)
  moreover have "s_hash_keys_eq st (e_key e) (e_key f)"
    using keys_eq_equiv(2) [OF v(3)] keys_eq_equiv(3) [OF v(3)] e(3) f(3) b(3) by metis
  ultimately show False using v(4) by (simp add: keys_distinct_def)
qed

lemma absent_nodes:
  assumes inv: "lht_inv t st xs" and abs: "key_absent st key" and b: "b \<in> set xs"
  shows "\<not> s_hash_keys_eq st key (fst (node_kv t b))"
proof
  assume k: "s_hash_keys_eq st key (fst (node_kv t b))"
  note v = ht_invD [OF lht_invD(2) [OF inv]]
  obtain f where f: "f \<in># ents (ht_slots st)" "s_hash_keys_eq st (e_key f) (fst (node_kv t b))"
    by (rule element_of_node [OF lht_invD(5) [OF inv] b])
  then have "s_hash_keys_eq st key (e_key f)" using keys_eq_equiv(2) [OF v(3)] keys_eq_equiv(3) [OF v(3)] k by metis
  then show False using abs f(1) by (simp add: key_absent_def)
qed

lemma lookup_cases:
  assumes inv: "lht_inv t st xs"
  obtains (found) idx p us a vs where "s_find_entry st (s_hash_for st key) key = Inr (True, idx, p)"
      "unat idx < length (ht_slots st)" "occ (ht_slots st) (unat idx)" "s_hash_keys_eq st key (e_key (ht_slots st ! unat idx))"
      "ht_slots st ! unat idx \<in># ents (ht_slots st)" "e_value (ht_slots st ! unat idx) = Some a" "xs = us @ a # vs"
      "kv_find (s_hash_keys_eq st) key (map (node_kv t) xs) = Some (node_kv t a)"
      "kv_drop (s_hash_keys_eq st) key (map (node_kv t) xs) = map (node_kv t) (us @ vs)"
      "s_hash_keys_eq st key (fst (node_kv t a))"
  | (absent) idx p where "s_find_entry st (s_hash_for st key) key = Inr (False, idx, p)" "key_absent st key"
      "kv_find (s_hash_keys_eq st) key (map (node_kv t) xs) = None"
      "kv_drop (s_hash_keys_eq st) key (map (node_kv t) xs) = map (node_kv t) xs"
proof (cases rule: find_cases [OF lht_invD(2) [OF inv], of key])
  case (1 idx p)
  note v = ht_invD [OF lht_invD(2) [OF inv]]
  obtain a where a: "a \<in> set xs" "e_value (ht_slots st ! unat idx) = Some a"
    "s_hash_keys_eq st (e_key (ht_slots st ! unat idx)) (fst (node_kv t a))"
    by (rule node_of_element [OF lht_invD(5) [OF inv] 1(5)])
  obtain us vs where xs: "xs = us @ a # vs" using a(1) by (metis split_list)
  have k: "s_hash_keys_eq st key (fst (node_kv t a))" using keys_eq_equiv(3) [OF v(3) 1(4) a(3)] .
  note o = other_nodes [OF inv 1(5) a(2) 1(4)]
  have "distinct (us @ a # vs)" using lht_invD(6) [OF inv] xs by simp
  from kv_drop_unique [where f = "node_kv t" and E = "s_hash_keys_eq st" and k = key, OF this k] o xs
  have "kv_drop (s_hash_keys_eq st) key (map (node_kv t) xs) = map (node_kv t) (us @ vs)" by simp
  moreover have "kv_find (s_hash_keys_eq st) key (map (node_kv t) xs) = Some (node_kv t a)"
    by (rule kv_find_unique [OF a(1)]) (use k o in auto)
  ultimately show ?thesis using found 1 a(2) xs k by blast
next
  case (2 idx p)
  then show ?thesis
    using absent kv_find_absent [of xs "s_hash_keys_eq st" key "node_kv t"] kv_drop_absent [of xs "s_hash_keys_eq st" key "node_kv t"]
      absent_nodes [OF inv 2(2)] by blast
qed

section \<open>Operations\<close>

lemma node_kv_cong: "lt_nodes t' = lt_nodes t \<Longrightarrow> node_kv t' = node_kv t"
  by (simp add: node_kv_def fun_eq_iff)

lemma node_kv_upd [simp]:
  "b \<noteq> a \<Longrightarrow> node_kv (t\<lparr>lt_heap := h, lt_nodes := (lt_nodes t)(a := x)\<rparr>) b = node_kv t b"
  by (simp add: node_kv_def)

lemma kv_find_ok:
  assumes inv: "lht_inv t st xs"
  shows "aws_linked_hash_table_find t key =
    Inr (case kv_find (s_hash_keys_eq st) key (map (node_kv t) xs) of None \<Rightarrow> None | Some p \<Rightarrow> snd p)"
proof (cases rule: lookup_cases [OF inv, of key])
  case (1 idx p us a vs)
  obtain n where n: "lt_nodes t a = Some n" using nodes_okD(5) [OF lht_invD(4) [OF inv], of a] 1(7) by auto
  have "element_node t idx = Inr (a, n)"
    using lht_invD(1) [OF inv] 1(2,6) n by (simp add: element_node_def slot_get_def)
  then show ?thesis using 1(1,8) lht_invD(1) [OF inv] n
    by (simp add: aws_linked_hash_table_find_def aws_hash_table_find_def node_kv_def)
next
  case (2 idx p)
  then show ?thesis using lht_invD(1) [OF inv] by (simp add: aws_linked_hash_table_find_def aws_hash_table_find_def)
qed

lemma move_node_ok:
  assumes n: "nodes_ok t (us @ a # vs)"
  obtains h where "aws_linked_hash_table_move_node_to_end_of_list t a = Inr (t\<lparr>lt_heap := h\<rparr>)"
    "nodes_ok (t\<lparr>lt_heap := h\<rparr>) (us @ vs @ [a])"
proof -
  note d = nodes_okD [OF n]
  obtain h where h: "aws_linked_list_remove (lt_heap t) (Some a) = Inr h" "is_list h (lt_list t) (us @ vs)"
    "agree_off (set (all_nodes (lt_list t) (us @ a # vs))) (lt_heap t) h"
    using remove_is_list [OF d(1)] .
  have a: "a \<notin> set (all_nodes (lt_list t) (us @ vs))" using is_listD(1) [OF d(1)] by (auto simp: all_nodes_def)
  have la: "live h a" using h(3) is_listD(2) [OF d(1), of a] by (simp add: agree_off_def)
  obtain h' where h': "aws_linked_list_push_back h (lt_list t) (Some a) = Inr h'" "is_list h' (lt_list t) ((us @ vs) @ [a])"
    "agree_off (set (all_nodes (lt_list t) ((us @ vs) @ [a]))) h h'"
    by (rule ll_push_back_ok [OF h(2) a la])
  have "live h' b \<longleftrightarrow> live (lt_heap t) b" for b using h(3) h'(3) by (simp add: agree_off_def)
  then have "nodes_ok (t\<lparr>lt_heap := h'\<rparr>) (us @ vs @ [a])" using h'(2) n d(2) by (auto simp: links_ok_def)
  then show thesis using h(1) h'(1) by (intro that [of h']) (simp_all add: aws_linked_hash_table_move_node_to_end_of_list_def)
qed

lemma kv_touch_ok:
  assumes inv: "lht_inv t st xs"
  obtains t' ys where "aws_linked_hash_table_find_and_move_to_back t key =
      Inr (case kv_find (s_hash_keys_eq st) key (map (node_kv t) xs) of None \<Rightarrow> None | Some p \<Rightarrow> snd p, t')"
    "lht_inv t' st ys" "map (node_kv t') ys = kv_touch (s_hash_keys_eq st) key (map (node_kv t) xs)"
    "lt_user_on_value_destroy t' = lt_user_on_value_destroy t"
proof (cases rule: lookup_cases [OF inv, of key])
  case (1 idx p us a vs)
  note i = lht_invD [OF inv]
  obtain n where n: "lt_nodes t a = Some n" using nodes_okD(5) [OF i(4), of a] 1(7) by auto
  have e: "element_node t idx = Inr (a, n)" using i(1) 1(2,6) n by (simp add: element_node_def slot_get_def)
  have no: "nodes_ok t (us @ a # vs)" using i(4) 1(7) by simp
  obtain h where h: "aws_linked_hash_table_move_node_to_end_of_list t a = Inr (t\<lparr>lt_heap := h\<rparr>)"
    "nodes_ok (t\<lparr>lt_heap := h\<rparr>) (us @ vs @ [a])"
    by (rule move_node_ok [OF no])
  have nk: "node_kv (t\<lparr>lt_heap := h\<rparr>) = node_kv t" by (rule node_kv_cong) simp
  have "lht_inv (t\<lparr>lt_heap := h\<rparr>) st (us @ vs @ [a])"
    using inv h(2) 1(7) by (simp add: lht_inv_def elements_ok_def nk)
  moreover have "aws_linked_hash_table_find_and_move_to_back t key = Inr (snd (node_kv t a), t\<lparr>lt_heap := h\<rparr>)"
    using 1(1) i(1) e h(1) n
    by (simp add: aws_linked_hash_table_find_and_move_to_back_def aws_hash_table_find_def node_kv_def)
  ultimately show thesis using 1(8,9) by (intro that [of "t\<lparr>lt_heap := h\<rparr>" "us @ vs @ [a]"]) (simp_all add: kv_touch_def nk)
next
  case (2 idx p)
  then show thesis using inv lht_invD(1) [OF inv]
    by (intro that [of t xs]) (simp_all add: aws_linked_hash_table_find_and_move_to_back_def aws_hash_table_find_def kv_touch_def)
qed

text \<open>The state after the hash table lost or gained elements and the nodes changed accordingly.\<close>

lemma lht_inv_dropped:
  assumes inv: "lht_inv t st (us @ a # vs)" and e: "e \<in># ents (ht_slots st)" "e_value e = Some a"
    and s: "ht_inv st'" "same_fns st st'" "ents (ht_slots st') = ents (ht_slots st) - {#e#}"
    and n: "nodes_ok (t\<lparr>lt_table := Some st', lt_heap := h, lt_nodes := (lt_nodes t)(a := None)\<rparr>) (us @ vs)"
  shows "lht_inv (t\<lparr>lt_table := Some st', lt_heap := h, lt_nodes := (lt_nodes t)(a := None)\<rparr>) st' (us @ vs)"
proof -
  note i = lht_invD [OF inv]
  have k: "s_hash_keys_eq st' = s_hash_keys_eq st" using same_fns_keys(2) [OF s(2)] .
  have im: "image_mset e_value (ents (ht_slots st')) = mset (map Some (us @ vs))"
    using i(5) e s(3) by (simp add: elements_ok_def image_mset_Diff)
  have "s_hash_keys_eq st' (e_key f) (fst (node_kv (t\<lparr>lt_table := Some st', lt_heap := h, lt_nodes := (lt_nodes t)(a := None)\<rparr>) b))"
    if f: "f \<in># ents (ht_slots st')" "e_value f = Some b" for f b
  proof -
    have "Some b \<in># mset (map Some (us @ vs))" using f im by (metis in_image_mset imageI)
    then have "b \<noteq> a" using i(6) by auto
    moreover have "f \<in># ents (ht_slots st)" using f(1) s(3) by (metis in_diffD)
    ultimately show ?thesis using i(5) f(2) k by (auto simp: elements_ok_def node_kv_def)
  qed
  then show ?thesis using n im s i(3) by (simp add: lht_inv_def elements_ok_def same_fns_def)
qed

lemma kv_remove_ok:
  assumes inv: "lht_inv t st xs"
  obtains t' st' ys k0 where
    "aws_linked_hash_table_remove t key = (AWS_OP_SUCCESS,
       (case kv_find (s_hash_keys_eq st) key (map (node_kv t) xs) of None \<Rightarrow> []
        | Some p \<Rightarrow> (if ht_destroy_key_fn st then [DestroyKey k0] else []) @
                    (if lt_user_on_value_destroy t then [DestroyValue (snd p)] else [])), t')"
    "lht_inv t' st' ys" "same_fns st st'" "map (node_kv t') ys = kv_drop (s_hash_keys_eq st) key (map (node_kv t) xs)"
    "lt_user_on_value_destroy t' = lt_user_on_value_destroy t" "s_hash_keys_eq st key k0"
    "tbl_keys t' = (if kv_find (s_hash_keys_eq st) key (map (node_kv t) xs) = None then tbl_keys t else tbl_keys t - {#k0#})"
proof (cases rule: lookup_cases [OF inv, of key])
  case (1 idx p us a vs)
  note i = lht_invD [OF inv]
  let ?e = "ht_slots st ! unat idx"
  obtain l st' where s: "s_remove_entry st idx = Inr (l, st')" "ht_inv st'" "same_fns st st'"
    "ents (ht_slots st') = ents (ht_slots st) - {#?e#}"
    using s_remove_entry_ok [OF i(2) 1(2,3)] by metis
  have n: "nodes_ok (t\<lparr>lt_table := Some st'\<rparr>) (us @ a # vs)" using i(4) 1(7) by (simp add: links_ok_def)
  obtain h where h: "s_element_destroy (t\<lparr>lt_table := Some st'\<rparr>) (Some a) =
      Inr (if lt_user_on_value_destroy t then [DestroyValue (snd (node_kv t a))] else [],
           t\<lparr>lt_table := Some st', lt_heap := h, lt_nodes := (lt_nodes t)(a := None)\<rparr>)"
    "nodes_ok (t\<lparr>lt_table := Some st', lt_heap := h, lt_nodes := (lt_nodes t)(a := None)\<rparr>) (us @ vs)"
    by (rule destroy_ok [OF n]) (simp add: node_kv_def)
  let ?t = "t\<lparr>lt_table := Some st', lt_heap := h, lt_nodes := (lt_nodes t)(a := None)\<rparr>"
  have inv': "lht_inv ?t st' (us @ vs)" using lht_inv_dropped [OF _ 1(5,6) s(2,3,4) h(2)] inv 1(7) by simp
  have "aws_hash_table_remove (lt_table t) key False = (Inr (Some (e_key ?e, Some a)), destroy_calls st ?e, Some st')"
    using 1(1,2,6) s(1) i(1) by (simp add: aws_hash_table_remove_def slot_get_def)
  then have "aws_linked_hash_table_remove t key = (AWS_OP_SUCCESS,
      (if ht_destroy_key_fn st then [DestroyKey (e_key ?e)] else []) @
      (if lt_user_on_value_destroy t then [DestroyValue (snd (node_kv t a))] else []), ?t)"
    using h(1) i(3) 1(6) by (simp add: aws_linked_hash_table_remove_def destroy_calls_def)
  moreover have "map (node_kv ?t) (us @ vs) = map (node_kv t) (us @ vs)" using i(6) 1(7) by (auto simp: node_kv_def)
  moreover have "tbl_keys ?t = tbl_keys t - {#e_key ?e#}"
    using i(1) s(4) 1(5) by (simp add: tbl_keys_def image_mset_Diff)
  ultimately show thesis using that [of "e_key ?e" ?t st' "us @ vs"] inv' s(3) 1(4,8,9) by simp
next
  case (2 idx p)
  note i = lht_invD [OF inv]
  have "aws_linked_hash_table_remove t key = (AWS_OP_SUCCESS, [], t)"
    using 2(1) i(1) by (simp add: aws_linked_hash_table_remove_def aws_hash_table_remove_def)
  then show thesis
    using 2 inv keys_eq_equiv(1) [OF ht_invD(3) [OF i(2)], of key]
    by (intro that [of key t st xs]) (simp_all add: same_fns_def)
qed

section \<open>Insertion\<close>

lemma create_full:
  assumes inv: "ht_inv st" and abs: "key_absent st key" and full: "\<not> room_to_add st"
  shows "aws_hash_table_create (Some st) key = (aws_raise_error AWS_ERROR_OVERFLOW_DETECTED, Some st)"
proof (cases rule: find_cases [OF inv, of key])
  case (2 idx p)
  note v = ht_invD [OF inv]
  have fits: "unat (ht_entry_count st) + 1 < 2 ^ 64" using v(6,7) mask_mod(4) [OF v(1)] by simp
  then have c: "unat (ht_entry_count st + 1) = unat (ht_entry_count st) + 1" by (subst unat_add_exact) auto
  have "ht_max_load st < ht_entry_count st + 1" "\<not> can_double st"
    using full c by (auto simp: room_to_add_def word_less_nat_alt)
  then show ?thesis
    using 2(1) fits s_expand_table_err [OF inv] by (simp add: aws_hash_table_create_def aws_add_size_checked_eq)
qed (use abs in simp)

text \<open>The state after an element got the new node as its value.\<close>

lemma lht_inv_added:
  assumes s: "ht_inv st'" "ht_destroy_value_fn st'" "ents (ht_slots st') = add_mset x M"
    and x: "e_value x = Some a" "s_hash_keys_eq st' (e_key x) key"
    and M: "image_mset e_value M = mset (map Some xs)" "a \<notin> set xs"
      "\<forall>e \<in># M. \<forall>b. e_value e = Some b \<longrightarrow> s_hash_keys_eq st' (e_key e) (fst (node_kv t b))"
    and t': "lt_table t' = Some st'" "lt_nodes t' a = Some \<lparr>ln_key = key, ln_value = v\<rparr>"
      "\<forall>b \<in> set xs. node_kv t' b = node_kv t b"
    and n: "nodes_ok t' (xs @ [a])"
  shows "lht_inv t' st' (xs @ [a])"
proof -
  have "image_mset e_value (ents (ht_slots st')) = mset (map Some (xs @ [a]))" using s(3) x(1) M(1) by simp
  moreover have "s_hash_keys_eq st' (e_key e) (fst (node_kv t' b))" if e: "e \<in># add_mset x M" "e_value e = Some b" for e b
  proof (cases "e = x")
    case True
    then show ?thesis using x e(2) t'(2) by (simp add: node_kv_def)
  next
    case False
    then have "e \<in># M" using e(1) by simp
    moreover from this have "Some b \<in># mset (map Some xs)" using e(2) M(1) by (metis in_image_mset imageI)
    then have "b \<in> set xs" by auto
    ultimately show ?thesis using M(3) t'(3) e(2) by auto
  qed
  ultimately show ?thesis using s t'(1) n by (simp add: lht_inv_def elements_ok_def)
qed

lemma create_found:
  assumes "lht_inv t st xs" "s_find_entry st (s_hash_for st key) key = Inr (True, idx, p)"
  shows "aws_hash_table_create (lt_table t) key = (Inr (Some idx, False), Some st)"
  using assms lht_invD(1) [OF assms(1)] by (simp add: aws_hash_table_create_def)

lemma put_unfold:
  assumes "aws_hash_table_create (lt_table t) key = (Inr (Some s, added), Some st)" "unat s < length (ht_slots st)"
  shows "aws_linked_hash_table_put t key v =
    (case (if e_value (ht_slots st ! unat s) \<noteq> None then s_element_destroy (with_node t) (e_value (ht_slots st ! unat s))
           else Inr ([], with_node t)) of
       Inl e \<Rightarrow> (Inl e, [], (with_node t)\<lparr>lt_table := Some st\<rparr>)
     | Inr (calls, t') \<Rightarrow>
         let t' = t'\<lparr>lt_nodes := (lt_nodes t')(lt_next t \<mapsto> \<lparr>ln_key = key, ln_value = v\<rparr>),
                     lt_table := Some (slot_set st s ((ht_slots st ! unat s)\<lparr>e_value := Some (lt_next t)\<rparr>))\<rparr>
         in case aws_linked_list_push_back (lt_heap t') (lt_list t') (Some (lt_next t)) of
              Inl e \<Rightarrow> (Inl e, calls, t')
            | Inr h \<Rightarrow> (AWS_OP_SUCCESS, calls, t'\<lparr>lt_heap := h\<rparr>))"
  unfolding aws_linked_hash_table_put_def with_node_def Let_def using assms by (simp add: slot_get_def)

lemma put_absent_ok:
  assumes inv: "lht_inv t st xs" and abs: "key_absent st key" and room: "room_to_add st"
  obtains t' st' where "aws_linked_hash_table_put t key v = (AWS_OP_SUCCESS, [], t')"
    "lht_inv t' st' (xs @ [lt_next t])" "same_fns st st'"
    "map (node_kv t') (xs @ [lt_next t]) = map (node_kv t) xs @ [(key, v)]"
    "lt_user_on_value_destroy t' = lt_user_on_value_destroy t" "tbl_keys t' = add_mset key (tbl_keys t)"
proof -
  note i = lht_invD [OF inv]
  let ?c = "lt_next t" and ?nd = "\<lparr>ln_key = key, ln_value = v\<rparr>"
  obtain s st1 where c: "aws_hash_table_create (Some st) key = (Inr (Some s, True), Some st1)" "ht_inv st1" "same_fns st st1"
    "ents (ht_slots st1) = add_mset (new_entry st key None) (ents (ht_slots st))"
    "unat s < length (ht_slots st1)" "ht_slots st1 ! unat s = new_entry st key None"
    by (rule create_absent [OF i(2) room abs])
  let ?x = "(ht_slots st1 ! unat s)\<lparr>e_key := key, e_value := Some ?c\<rparr>"
  let ?st = "slot_set st1 s ?x"
  have o: "occ (ht_slots st1) (unat s)" using c(6) hash_for_nonzero by (simp add: new_entry_def)
  have kk: "s_hash_keys_eq st1 key key" by (rule keys_eq_equiv(1) [OF ht_invD(3) [OF c(2)]])
  then have k: "s_hash_keys_eq st1 key (e_key (ht_slots st1 ! unat s))" using c(6) by (simp add: new_entry_def)
  note w = overwrite_ok [OF c(2,5) o k refl, of "Some ?c"]
  have x: "?x = (ht_slots st1 ! unat s)\<lparr>e_value := Some ?c\<rparr>" using c(6) by (simp add: new_entry_def)
  have e: "ents (ht_slots ?st) = add_mset ?x (ents (ht_slots st))" using w(4) c(4,6) by simp
  have sf: "same_fns st ?st" by (rule same_fns_trans [OF c(3) w(2)])
  let ?t1 = "(with_node t)\<lparr>lt_nodes := (lt_nodes (with_node t))(?c \<mapsto> ?nd), lt_table := Some ?st\<rparr>"
  have "links_ok ?t1 {?c} xs" using with_node_ok [OF i(4)] by (auto simp: links_ok_def with_node_def)
  then obtain h where h: "aws_linked_list_push_back (lt_heap ?t1) (lt_list ?t1) (Some ?c) = Inr h" "nodes_ok (?t1\<lparr>lt_heap := h\<rparr>) (xs @ [?c])"
    by (rule push_node_ok)
  let ?t = "?t1\<lparr>lt_heap := h\<rparr>"
  have cx: "?c \<notin> set xs" using nodes_okD(4) [OF i(4), of ?c] by auto
  have nk: "\<forall>b \<in> set xs. node_kv ?t b = node_kv t b" using cx by (auto simp: node_kv_def with_node_def)
  have "lht_inv ?t ?st (xs @ [?c])"
  proof (rule lht_inv_added [OF w(1) _ e, where key = key and t = t and v = v])
    show "ht_destroy_value_fn ?st" using sf i(3) by (simp add: same_fns_def)
    show "s_hash_keys_eq ?st (e_key ?x) key" using kk same_fns_keys(2) [OF w(2)] by simp
    show "\<forall>e \<in># ents (ht_slots st). \<forall>b. e_value e = Some b \<longrightarrow> s_hash_keys_eq ?st (e_key e) (fst (node_kv t b))"
      using i(5) same_fns_keys(2) [OF sf] by (simp add: elements_ok_def)
  qed (use i(5) cx nk h(2) in \<open>simp_all add: elements_ok_def with_node_def\<close>)
  moreover have "aws_linked_hash_table_put t key v = (AWS_OP_SUCCESS, [], ?t)"
    using put_unfold [of t key s True st1 v] c(1,5,6) i(1) h(1) x by (simp add: new_entry_def Let_def)
  moreover have "tbl_keys ?t = add_mset key (tbl_keys t)" using e i(1) by (simp add: tbl_keys_def)
  moreover have "map (node_kv ?t) (xs @ [?c]) = map (node_kv t) xs @ [(key, v)]"
    using nk by (simp add: node_kv_def with_node_def)
  moreover have "lt_user_on_value_destroy ?t = lt_user_on_value_destroy t" by (simp add: with_node_def)
  ultimately show thesis using that sf by blast
qed

lemma put_found_ok:
  assumes inv: "lht_inv t st (us @ a # vs)" and f: "s_find_entry st (s_hash_for st key) key = Inr (True, idx, p)"
    "unat idx < length (ht_slots st)" "occ (ht_slots st) (unat idx)" "s_hash_keys_eq st key (e_key (ht_slots st ! unat idx))"
    "ht_slots st ! unat idx \<in># ents (ht_slots st)" "e_value (ht_slots st ! unat idx) = Some a"
  obtains t' st' where "aws_linked_hash_table_put t key v =
      (AWS_OP_SUCCESS, if lt_user_on_value_destroy t then [DestroyValue (snd (node_kv t a))] else [], t')"
    "lht_inv t' st' ((us @ vs) @ [lt_next t])" "same_fns st st'"
    "map (node_kv t') ((us @ vs) @ [lt_next t]) = map (node_kv t) (us @ vs) @ [(key, v)]"
    "lt_user_on_value_destroy t' = lt_user_on_value_destroy t" "tbl_keys t' = tbl_keys t"
proof -
  note i = lht_invD [OF inv]
  let ?c = "lt_next t" and ?nd = "\<lparr>ln_key = key, ln_value = v\<rparr>" and ?o = "ht_slots st ! unat idx"
  let ?x = "?o\<lparr>e_value := Some ?c\<rparr>"
  let ?st = "slot_set st idx ?x"
  have kk: "s_hash_keys_eq st (e_key ?o) (e_key ?o)" by (rule keys_eq_equiv(1) [OF ht_invD(3) [OF i(2)]])
  note w = overwrite_ok [OF i(2) f(2,3) kk refl, of "Some ?c"]
  have x: "?o\<lparr>e_key := e_key ?o, e_value := Some ?c\<rparr> = ?x" by simp
  obtain M where M: "ents (ht_slots st) = add_mset ?o M" using f(5) by (metis multi_member_split)
  have e: "ents (ht_slots ?st) = add_mset ?x M" using w(4) M unfolding x by simp
  obtain h1 where h1: "s_element_destroy (with_node t) (Some a) =
      Inr (if lt_user_on_value_destroy (with_node t) then [DestroyValue (snd (node_kv (with_node t) a))] else [],
           (with_node t)\<lparr>lt_heap := h1, lt_nodes := (lt_nodes (with_node t))(a := None)\<rparr>)"
    "links_ok ((with_node t)\<lparr>lt_heap := h1, lt_nodes := (lt_nodes (with_node t))(a := None)\<rparr>) {?c} (us @ vs)"
    by (rule destroy_ok [OF with_node_ok [OF i(4)]])
  let ?t0 = "(with_node t)\<lparr>lt_heap := h1, lt_nodes := (lt_nodes (with_node t))(a := None)\<rparr>"
  let ?t1 = "?t0\<lparr>lt_nodes := (lt_nodes ?t0)(?c \<mapsto> ?nd), lt_table := Some ?st\<rparr>"
  have ca: "?c \<noteq> a" "?c \<notin> set (us @ vs)" using nodes_okD(4) [OF i(4), of ?c] by auto
  have "links_ok ?t1 {?c} (us @ vs)" using h1(2) by (auto simp: links_ok_def)
  then obtain h where h: "aws_linked_list_push_back (lt_heap ?t1) (lt_list ?t1) (Some ?c) = Inr h"
    "nodes_ok (?t1\<lparr>lt_heap := h\<rparr>) ((us @ vs) @ [?c])"
    by (rule push_node_ok)
  let ?t = "?t1\<lparr>lt_heap := h\<rparr>"
  have av: "a \<notin> set (us @ vs)" using i(6) by simp
  have nk: "\<forall>b \<in> set (us @ vs). node_kv ?t b = node_kv t b" using ca av by (auto simp: node_kv_def with_node_def)
  have im: "image_mset e_value M = mset (map Some (us @ vs))" using i(5) M f(6) by (simp add: elements_ok_def)
  have "lht_inv ?t ?st ((us @ vs) @ [?c])"
  proof (rule lht_inv_added [OF w(1) [unfolded x] _ e, where key = key and t = t and v = v])
    show "ht_destroy_value_fn ?st" using i(3) by (simp add: slot_set_def)
    show "s_hash_keys_eq ?st (e_key ?x) key"
      using keys_eq_equiv(2) [OF ht_invD(3) [OF i(2)] f(4)] same_fns_keys(2) [OF w(2) [unfolded x]] by simp
    show "\<forall>e \<in># M. \<forall>b. e_value e = Some b \<longrightarrow> s_hash_keys_eq ?st (e_key e) (fst (node_kv t b))"
      using i(5) M same_fns_keys(2) [OF w(2) [unfolded x]] by (simp add: elements_ok_def)
  qed (use im ca nk h(2) in \<open>simp_all\<close>)
  moreover have "aws_linked_hash_table_put t key v =
      (AWS_OP_SUCCESS, if lt_user_on_value_destroy t then [DestroyValue (snd (node_kv t a))] else [], ?t)"
    using put_unfold [OF create_found [OF inv f(1)] f(2), of v] f(6) h1(1) h(1) ca(1)
    by (simp add: Let_def node_kv_def with_node_def)
  moreover have "tbl_keys ?t = tbl_keys t" using e M i(1) by (simp add: tbl_keys_def)
  moreover have "map (node_kv ?t) ((us @ vs) @ [?c]) = map (node_kv t) (us @ vs) @ [(key, v)]"
    using nk ca by (simp add: node_kv_def)
  moreover have "lt_user_on_value_destroy ?t = lt_user_on_value_destroy t" by (simp add: with_node_def)
  ultimately show thesis using that w(2) [unfolded x] by blast
qed

section \<open>The contract\<close>

lemma lht_repE:
  assumes "lht_rep eq dk dv t ps"
  obtains st xs where "lht_inv t st xs" "s_hash_keys_eq st = s_safe_eq_check eq" "ht_equals_fn st = eq" "ht_destroy_key_fn st = dk"
    "lt_user_on_value_destroy t = dv" "ps = map (node_kv t) xs"
  using assms by (auto simp: lht_rep_def s_hash_keys_eq_def fun_eq_iff)

lemma lht_repI:
  assumes "lht_inv t st xs" "same_fns st' st" "ht_equals_fn st' = eq" "ht_destroy_key_fn st' = dk"
    "lt_user_on_value_destroy t = dv" "ps = map (node_kv t) xs"
  shows "lht_rep eq dk dv t ps"
  unfolding lht_rep_def using assms by (intro exI [of _ st] exI [of _ xs]) (auto simp: same_fns_def)

lemma rep_find:
  assumes "lht_rep eq dk dv t ps"
  shows "aws_linked_hash_table_find t key = Inr (case kv_find (s_safe_eq_check eq) key ps of None \<Rightarrow> None | Some p \<Rightarrow> snd p)"
  using assms by (elim lht_repE) (metis kv_find_ok)

lemma rep_touch:
  assumes "lht_rep eq dk dv t ps"
  obtains t' where "aws_linked_hash_table_find_and_move_to_back t key =
      Inr (case kv_find (s_safe_eq_check eq) key ps of None \<Rightarrow> None | Some p \<Rightarrow> snd p, t')"
    "lht_rep eq dk dv t' (kv_touch (s_safe_eq_check eq) key ps)"
proof (rule lht_repE [OF assms])
  fix st xs
  assume r: "lht_inv t st xs" "s_hash_keys_eq st = s_safe_eq_check eq" "ht_equals_fn st = eq" "ht_destroy_key_fn st = dk"
    "lt_user_on_value_destroy t = dv" "ps = map (node_kv t) xs"
  obtain t' ys where k: "aws_linked_hash_table_find_and_move_to_back t key =
      Inr (case kv_find (s_hash_keys_eq st) key (map (node_kv t) xs) of None \<Rightarrow> None | Some p \<Rightarrow> snd p, t')"
    "lht_inv t' st ys" "map (node_kv t') ys = kv_touch (s_hash_keys_eq st) key (map (node_kv t) xs)"
    "lt_user_on_value_destroy t' = lt_user_on_value_destroy t"
    by (rule kv_touch_ok [OF r(1)])
  then show thesis using r by (intro that [of t'] lht_repI [of t' st ys st]) (simp_all add: same_fns_def)
qed

lemma rep_remove:
  assumes "lht_rep eq dk dv t ps"
  obtains t' k0 where "aws_linked_hash_table_remove t key = (AWS_OP_SUCCESS,
      (case kv_find (s_safe_eq_check eq) key ps of None \<Rightarrow> []
       | Some p \<Rightarrow> (if dk then [DestroyKey k0] else []) @ (if dv then [DestroyValue (snd p)] else [])), t')"
    "lht_rep eq dk dv t' (kv_drop (s_safe_eq_check eq) key ps)" "s_safe_eq_check eq key k0"
    "tbl_keys t' = (if kv_find (s_safe_eq_check eq) key ps = None then tbl_keys t else tbl_keys t - {#k0#})"
proof (rule lht_repE [OF assms])
  fix st xs
  assume r: "lht_inv t st xs" "s_hash_keys_eq st = s_safe_eq_check eq" "ht_equals_fn st = eq" "ht_destroy_key_fn st = dk"
    "lt_user_on_value_destroy t = dv" "ps = map (node_kv t) xs"
  show thesis
  proof (rule kv_remove_ok [OF r(1), of key])
    fix k0 t' st' ys
    assume k: "aws_linked_hash_table_remove t key = (AWS_OP_SUCCESS,
       (case kv_find (s_hash_keys_eq st) key (map (node_kv t) xs) of None \<Rightarrow> []
        | Some p \<Rightarrow> (if ht_destroy_key_fn st then [DestroyKey k0] else []) @
                    (if lt_user_on_value_destroy t then [DestroyValue (snd p)] else [])), t')"
      "lht_inv t' st' ys" "same_fns st st'" "map (node_kv t') ys = kv_drop (s_hash_keys_eq st) key (map (node_kv t) xs)"
      "lt_user_on_value_destroy t' = lt_user_on_value_destroy t" "s_hash_keys_eq st key k0"
      "tbl_keys t' = (if kv_find (s_hash_keys_eq st) key (map (node_kv t) xs) = None then tbl_keys t else tbl_keys t - {#k0#})"
    then show thesis using r by (intro that [of k0 t'] lht_repI [of t' st' ys st]) (simp_all split: option.split)
  qed
qed

lemma rep_put:
  assumes "lht_rep eq dk dv t ps"
  obtains t' where "aws_linked_hash_table_put t key v = (AWS_OP_SUCCESS,
      (case kv_find (s_safe_eq_check eq) key ps of None \<Rightarrow> [] | Some p \<Rightarrow> if dv then [DestroyValue (snd p)] else []), t')"
    "lht_rep eq dk dv t' (kv_put (s_safe_eq_check eq) key v ps)"
    "tbl_keys t' = (if kv_find (s_safe_eq_check eq) key ps = None then add_mset key (tbl_keys t) else tbl_keys t)"
  | t' where "aws_linked_hash_table_put t key v = (aws_raise_error AWS_ERROR_OVERFLOW_DETECTED, [], t')"
    "lht_rep eq dk dv t' ps" "tbl_keys t' = tbl_keys t" "kv_find (s_safe_eq_check eq) key ps = None"
    "\<exists>st. lt_table t = Some st \<and> \<not> room_to_add st"
proof (rule lht_repE [OF assms])
  fix st xs
  assume r: "lht_inv t st xs" "s_hash_keys_eq st = s_safe_eq_check eq" "ht_equals_fn st = eq" "ht_destroy_key_fn st = dk"
    "lt_user_on_value_destroy t = dv" "ps = map (node_kv t) xs"
  show thesis
  proof (cases rule: lookup_cases [OF r(1), of key])
    case (1 idx p us a vs)
    have inv: "lht_inv t st (us @ a # vs)" using r(1) 1(7) by simp
    obtain t' st' where k: "aws_linked_hash_table_put t key v =
      (AWS_OP_SUCCESS, if lt_user_on_value_destroy t then [DestroyValue (snd (node_kv t a))] else [], t')"
      "lht_inv t' st' ((us @ vs) @ [lt_next t])" "same_fns st st'"
      "map (node_kv t') ((us @ vs) @ [lt_next t]) = map (node_kv t) (us @ vs) @ [(key, v)]"
      "lt_user_on_value_destroy t' = lt_user_on_value_destroy t" "tbl_keys t' = tbl_keys t"
      by (rule put_found_ok [OF inv 1(1-6), of v])
    have "lht_rep eq dk dv t' (kv_put (s_safe_eq_check eq) key v ps)"
      by (rule lht_repI [OF k(2,3)]) (use r k 1(9) in \<open>simp_all add: kv_put_def\<close>)
    then show thesis using that(1) [of t'] k(1,6) r(2,5,6) 1(8) by simp
  next
    case (2 idx p)
    show thesis
    proof (cases "room_to_add st")
      case True
      obtain t' st' where k: "aws_linked_hash_table_put t key v = (AWS_OP_SUCCESS, [], t')"
        "lht_inv t' st' (xs @ [lt_next t])" "same_fns st st'"
        "map (node_kv t') (xs @ [lt_next t]) = map (node_kv t) xs @ [(key, v)]"
        "lt_user_on_value_destroy t' = lt_user_on_value_destroy t" "tbl_keys t' = add_mset key (tbl_keys t)"
        by (rule put_absent_ok [OF r(1) 2(2) True])
      have "lht_rep eq dk dv t' (kv_put (s_safe_eq_check eq) key v ps)"
        by (rule lht_repI [OF k(2,3)]) (use r k 2(4) in \<open>simp_all add: kv_put_def\<close>)
      then show thesis using that(1) [of t'] k(1,6) r(2,6) 2(3) by simp
    next
      case False
      note i = lht_invD [OF r(1)]
      let ?t = "t\<lparr>lt_next := Suc (lt_next t), lt_table := Some st\<rparr>"
      have z: "lt_heap t (lt_next t) = None" "lt_nodes t (lt_next t) = None"
        using nodes_okD(2,4,6) [OF i(4)] by (auto simp: live_def)
      then have "(lt_heap t)(lt_next t := None) = lt_heap t" "(lt_nodes t)(lt_next t := None) = lt_nodes t" by auto
      then have "aws_linked_hash_table_put t key v = (aws_raise_error AWS_ERROR_OVERFLOW_DETECTED, [], ?t)"
        using create_full [OF i(2) 2(2) False] i(1) by (simp add: aws_linked_hash_table_put_def Let_def)
      moreover have nk: "node_kv ?t = node_kv t" by (rule node_kv_cong) simp
      have "lht_inv ?t st xs" using r(1) by (auto simp: lht_inv_def links_ok_def elements_ok_def nk less_Suc_eq)
      then have "lht_rep eq dk dv ?t ps" by (rule lht_repI [where st' = st]) (use r in \<open>simp_all add: same_fns_def nk\<close>)
      moreover have "tbl_keys ?t = tbl_keys t" using i(1) by (simp add: tbl_keys_def)
      ultimately show thesis using that(2) [of ?t] r(2,6) 2(3) False i(1) by auto
    qed
  qed
qed

section \<open>Clearing and creation\<close>

lemma run_clear:
  assumes "nodes_ok t xs" "mset (map e_value es) = mset (map Some xs)" "ht_destroy_value_fn st"
  shows "\<exists>us h ns. run_destroy_calls (concat (map (destroy_calls st) es)) t = Inr (us, t\<lparr>lt_heap := h, lt_nodes := ns\<rparr>) \<and>
    nodes_ok (t\<lparr>lt_heap := h, lt_nodes := ns\<rparr>) [] \<and>
    mset us = (if ht_destroy_key_fn st then image_mset (DestroyKey \<circ> e_key) (mset es) else {#}) +
      (if lt_user_on_value_destroy t then mset (map (DestroyValue \<circ> snd \<circ> node_kv t) xs) else {#})"
  using assms
proof (induction es arbitrary: t xs)
  case Nil
  then have "t = t\<lparr>lt_heap := lt_heap t, lt_nodes := lt_nodes t\<rparr>" "xs = []" by auto
  then show ?case using Nil by (intro exI [of _ "[]"] exI [of _ "lt_heap t"] exI [of _ "lt_nodes t"]) auto
next
  case (Cons e es)
  have "e_value e \<in># mset (map Some xs)" unfolding Cons.prems(2) [symmetric] by simp
  then obtain a where a: "e_value e = Some a" "a \<in> set xs" by auto
  obtain us vs where xs: "xs = us @ a # vs" using a(2) by (metis split_list)
  have n: "nodes_ok t (us @ a # vs)" using Cons.prems(1) xs by simp
  obtain h where h: "s_element_destroy t (Some a) =
      Inr (if lt_user_on_value_destroy t then [DestroyValue (snd (node_kv t a))] else [],
           t\<lparr>lt_heap := h, lt_nodes := (lt_nodes t)(a := None)\<rparr>)"
    "nodes_ok (t\<lparr>lt_heap := h, lt_nodes := (lt_nodes t)(a := None)\<rparr>) (us @ vs)"
    by (rule destroy_ok [OF n])
  let ?t = "t\<lparr>lt_heap := h, lt_nodes := (lt_nodes t)(a := None)\<rparr>"
  have m: "mset (map e_value es) = mset (map Some (us @ vs))" using Cons.prems(2) a(1) xs by simp
  obtain cs h' ns where r: "run_destroy_calls (concat (map (destroy_calls st) es)) ?t = Inr (cs, ?t\<lparr>lt_heap := h', lt_nodes := ns\<rparr>)"
    "nodes_ok (?t\<lparr>lt_heap := h', lt_nodes := ns\<rparr>) []"
    "mset cs = (if ht_destroy_key_fn st then image_mset (DestroyKey \<circ> e_key) (mset es) else {#}) +
      (if lt_user_on_value_destroy ?t then mset (map (DestroyValue \<circ> snd \<circ> node_kv ?t) (us @ vs)) else {#})"
    using Cons.IH [OF h(2) m Cons.prems(3)] by blast
  have "a \<notin> set (us @ vs)" using nodes_okD(3) [OF n] by simp
  then have nk: "map (DestroyValue \<circ> snd \<circ> node_kv ?t) (us @ vs) = map (DestroyValue \<circ> snd \<circ> node_kv t) (us @ vs)"
    by (auto simp: node_kv_def)
  have d: "destroy_calls st e = (if ht_destroy_key_fn st then [DestroyKey (e_key e)] else []) @ [DestroyValue (Some a)]"
    using a(1) Cons.prems(3) by (simp add: destroy_calls_def)
  show ?case
    using r(1,2) r(3) [unfolded nk] h(1)
    by (intro exI [of _ "(if ht_destroy_key_fn st then [DestroyKey (e_key e)] else []) @
          (if lt_user_on_value_destroy t then [DestroyValue (snd (node_kv t a))] else []) @ cs"] exI [of _ h'] exI [of _ ns])
      (auto simp: d xs)
qed

lemma rep_clear:
  assumes "lht_rep eq dk dv t ps"
  obtains us t' where "aws_linked_hash_table_clear t = Inr (us, t')" "lht_rep eq dk dv t' []"
    "mset us = (if dk then image_mset DestroyKey (tbl_keys t) else {#}) +
       (if dv then mset (map (DestroyValue \<circ> snd) ps) else {#})"
proof (rule lht_repE [OF assms])
  fix st xs
  assume r: "lht_inv t st xs" "s_hash_keys_eq st = s_safe_eq_check eq" "ht_equals_fn st = eq" "ht_destroy_key_fn st = dk"
    "lt_user_on_value_destroy t = dv" "ps = map (node_kv t) xs"
  note i = lht_invD [OF r(1)]
  let ?es = "filter (\<lambda>e. e_hash e \<noteq> 0) (ht_slots st)"
  obtain calls st' where c: "aws_hash_table_clear (Some st) = (Inr calls, Some st')" "ht_inv st'" "same_fns st st'"
    "\<And>k. ht_lookup st' k = None" "calls = concat (map (destroy_calls st) ?es)"
    using clear_law [OF i(2)] by metis
  have e0: "ents (ht_slots st') = {#}"
    using c(1) by (auto simp: aws_hash_table_clear_def ents_def empty_entry_def)
  have n: "nodes_ok (t\<lparr>lt_table := Some st'\<rparr>) xs" using i(4) by (simp add: links_ok_def)
  have m: "mset (map e_value ?es) = mset (map Some xs)" using i(5) by (simp add: elements_ok_def ents_def)
  obtain us h ns where u: "run_destroy_calls calls (t\<lparr>lt_table := Some st'\<rparr>) =
      Inr (us, t\<lparr>lt_table := Some st', lt_heap := h, lt_nodes := ns\<rparr>)"
    "nodes_ok (t\<lparr>lt_table := Some st', lt_heap := h, lt_nodes := ns\<rparr>) []"
    "mset us = (if dk then image_mset (DestroyKey \<circ> e_key) (mset ?es) else {#}) +
      (if dv then mset (map (DestroyValue \<circ> snd \<circ> node_kv (t\<lparr>lt_table := Some st'\<rparr>)) xs) else {#})"
    using run_clear [OF n m i(3)] r(4,5) unfolding c(5) by auto
  let ?t = "t\<lparr>lt_table := Some st', lt_heap := h, lt_nodes := ns\<rparr>"
  have "lht_inv ?t st' []" using c(2,3) i(3) u(2) e0 by (simp add: lht_inv_def elements_ok_def same_fns_def)
  then have "lht_rep eq dk dv ?t []" by (rule lht_repI [OF _ c(3)]) (use r in simp_all)
  moreover have "node_kv (t\<lparr>lt_table := Some st'\<rparr>) = node_kv t" by (rule node_kv_cong) simp
  then have "mset us = (if dk then image_mset DestroyKey (tbl_keys t) else {#}) +
       (if dv then mset (map (DestroyValue \<circ> snd) ps) else {#})"
    using u(3) r(6) i(1) by (simp add: tbl_keys_def ents_def comp_def multiset.map_comp)
  moreover have "aws_linked_hash_table_clear t = Inr (us, ?t)" using i(1) c(1) u(1) by (simp add: aws_linked_hash_table_clear_def)
  ultimately show thesis using that by blast
qed

lemma rep_count:
  assumes "lht_rep eq dk dv t ps"
  shows "\<exists>n. aws_linked_hash_table_get_element_count t = Inr n \<and> unat n = length ps"
proof (rule lht_repE [OF assms])
  fix st xs
  assume r: "lht_inv t st xs" "ps = map (node_kv t) xs"
  note i = lht_invD [OF r(1)]
  have "size (ents (ht_slots st)) = length xs"
    using i(5) by (metis elements_ok_def length_map size_image_mset size_mset)
  then show ?thesis using i(1) ht_invD(6) [OF i(2)] r(2)
    by (simp add: aws_linked_hash_table_get_element_count_def aws_hash_table_get_entry_count_def)
qed

lemma rep_init:
  fixes hash_fn :: "'k \<Rightarrow> u64"
  assumes "hashing_ok hash_fn eq" "unat sz \<le> 2 ^ 59" "live h (ll_head l)" "live h (ll_tail l)" "ll_head l \<noteq> ll_tail l"
    "\<And>a. live h a \<Longrightarrow> a < c"
  obtains t :: "('k, 'v) linked_hash_table" where "aws_linked_hash_table_init h l c alloc hash_fn eq dk dv sz = Inr t" "lht_rep eq dk dv t []"
    "lt_list t = l"
proof -
  obtain h' where h: "aws_linked_list_init h l = Inr h'" "is_list h' l []" "agree_off {ll_head l, ll_tail l} h h'"
    by (rule ll_init_ok [OF assms(3-5)])
  obtain st :: "('k, nat) hash_table_state" where st: "aws_hash_table_init alloc sz hash_fn eq dk True = Inr (Some st)"
    "ht_inv st" "ents (ht_slots st) = {#}" "ht_equals_fn st = eq" "ht_destroy_key_fn st = dk" "ht_destroy_value_fn st = True"
    using init_law [OF assms(1,2), of alloc dk True] by metis
  let ?t = "\<lparr>lt_list = l, lt_table = Some st, lt_user_on_value_destroy = dv, lt_heap = h', lt_nodes = (\<lambda>_. None), lt_next = c\<rparr>"
  have "live h' a \<longleftrightarrow> live h a" for a using h(3) by (simp add: agree_off_def)
  then have "lht_inv ?t st []" using st h(2) assms(6) by (auto simp: lht_inv_def links_ok_def elements_ok_def)
  then have "lht_rep eq dk dv ?t []" by (rule lht_repI [where st' = st]) (use st in \<open>simp_all add: same_fns_def\<close>)
  then show thesis using h(1) st(1) by (intro that [of ?t]) (simp_all add: aws_linked_hash_table_init_def)
qed

text \<open>
  (C10) A linked hash table behaves as the list of its pairs in insertion order.  Finding returns the value of the pair
  with an equal key or \<open>NULL\<close>; finding with a move also puts that pair last; putting replaces the pair with an equal
  key by the new pair at the end, or appends it, and destroys the replaced value, unless the growth of the hash table
  overflows, which is reported with nothing changed; removing deletes the pair and runs the destructors on the stored
  key and its value; clearing empties the table and runs the destructors once on every stored key and every
  value; the count is the number of pairs.  Replacing keeps the key that was stored first: the keys of the hash
  table do not change and no key is destroyed.
\<close>

theorem lht_refines_pairs:
  assumes "lht_rep eq dk dv t ps"
  shows "(\<forall>key. aws_linked_hash_table_find t key =
            Inr (case kv_find (s_safe_eq_check eq) key ps of None \<Rightarrow> None | Some p \<Rightarrow> snd p)) \<and>
    (\<forall>key. \<exists>t'. aws_linked_hash_table_find_and_move_to_back t key =
              Inr (case kv_find (s_safe_eq_check eq) key ps of None \<Rightarrow> None | Some p \<Rightarrow> snd p, t') \<and>
            lht_rep eq dk dv t' (kv_touch (s_safe_eq_check eq) key ps)) \<and>
    (\<forall>key v. \<exists>t'.
       (aws_linked_hash_table_put t key v = (AWS_OP_SUCCESS,
          (case kv_find (s_safe_eq_check eq) key ps of None \<Rightarrow> [] | Some p \<Rightarrow> if dv then [DestroyValue (snd p)] else []), t') \<and>
        lht_rep eq dk dv t' (kv_put (s_safe_eq_check eq) key v ps) \<and>
        tbl_keys t' = (if kv_find (s_safe_eq_check eq) key ps = None then add_mset key (tbl_keys t) else tbl_keys t)) \<or>
       (aws_linked_hash_table_put t key v = (aws_raise_error AWS_ERROR_OVERFLOW_DETECTED, [], t') \<and>
        lht_rep eq dk dv t' ps \<and> tbl_keys t' = tbl_keys t \<and> (\<exists>st. lt_table t = Some st \<and> \<not> room_to_add st))) \<and>
    (\<forall>key. \<exists>t' k0. aws_linked_hash_table_remove t key = (AWS_OP_SUCCESS,
          (case kv_find (s_safe_eq_check eq) key ps of None \<Rightarrow> []
           | Some p \<Rightarrow> (if dk then [DestroyKey k0] else []) @ (if dv then [DestroyValue (snd p)] else [])), t') \<and>
        s_safe_eq_check eq key k0 \<and> lht_rep eq dk dv t' (kv_drop (s_safe_eq_check eq) key ps) \<and>
        tbl_keys t' = (if kv_find (s_safe_eq_check eq) key ps = None then tbl_keys t else tbl_keys t - {#k0#})) \<and>
    (\<exists>us t'. aws_linked_hash_table_clear t = Inr (us, t') \<and> lht_rep eq dk dv t' [] \<and>
        mset us = (if dk then image_mset DestroyKey (tbl_keys t) else {#}) +
          (if dv then mset (map (DestroyValue \<circ> snd) ps) else {#})) \<and>
    (\<exists>n. aws_linked_hash_table_get_element_count t = Inr n \<and> unat n = length ps)"
proof (intro conjI allI)
  fix key and v
  show "aws_linked_hash_table_find t key =
      Inr (case kv_find (s_safe_eq_check eq) key ps of None \<Rightarrow> None | Some p \<Rightarrow> snd p)"
    by (rule rep_find [OF assms])
  show "\<exists>t'. aws_linked_hash_table_find_and_move_to_back t key =
        Inr (case kv_find (s_safe_eq_check eq) key ps of None \<Rightarrow> None | Some p \<Rightarrow> snd p, t') \<and>
      lht_rep eq dk dv t' (kv_touch (s_safe_eq_check eq) key ps)"
    by (rule rep_touch [OF assms, of key]) blast
  show "\<exists>t'. (aws_linked_hash_table_put t key v = (AWS_OP_SUCCESS,
          (case kv_find (s_safe_eq_check eq) key ps of None \<Rightarrow> [] | Some p \<Rightarrow> if dv then [DestroyValue (snd p)] else []), t') \<and>
        lht_rep eq dk dv t' (kv_put (s_safe_eq_check eq) key v ps) \<and>
        tbl_keys t' = (if kv_find (s_safe_eq_check eq) key ps = None then add_mset key (tbl_keys t) else tbl_keys t)) \<or>
       (aws_linked_hash_table_put t key v = (aws_raise_error AWS_ERROR_OVERFLOW_DETECTED, [], t') \<and>
        lht_rep eq dk dv t' ps \<and> tbl_keys t' = tbl_keys t \<and> (\<exists>st. lt_table t = Some st \<and> \<not> room_to_add st))"
    by (rule rep_put [OF assms, of key v]) blast+
  show "\<exists>t' k0. aws_linked_hash_table_remove t key = (AWS_OP_SUCCESS,
          (case kv_find (s_safe_eq_check eq) key ps of None \<Rightarrow> []
           | Some p \<Rightarrow> (if dk then [DestroyKey k0] else []) @ (if dv then [DestroyValue (snd p)] else [])), t') \<and>
        s_safe_eq_check eq key k0 \<and> lht_rep eq dk dv t' (kv_drop (s_safe_eq_check eq) key ps) \<and>
        tbl_keys t' = (if kv_find (s_safe_eq_check eq) key ps = None then tbl_keys t else tbl_keys t - {#k0#})"
    by (rule rep_remove [OF assms, of key]) blast
  show "\<exists>us t'. aws_linked_hash_table_clear t = Inr (us, t') \<and> lht_rep eq dk dv t' [] \<and>
        mset us = (if dk then image_mset DestroyKey (tbl_keys t) else {#}) +
          (if dv then mset (map (DestroyValue \<circ> snd) ps) else {#})"
    by (rule rep_clear [OF assms]) blast
qed (rule rep_count [OF assms])

lemma demo_lht_rep: "\<exists>t. demo_lht = Inr t \<and> lht_rep (=) True True t []"
  unfolding demo_lht_def
  by (rule rep_init [of "\<lambda>k. k" "(=)" 2 demo_ends "\<lparr>ll_head = 0, ll_tail = 1\<rparr>" 2 0 True True])
    (auto simp: hashing_ok_def demo_ends_def live_def split: if_splits)

lemma demo_lht_put:
  "(case demo_lht of Inr t \<Rightarrow> fst (aws_linked_hash_table_put t (Some 7) (Some 5)) | Inl e \<Rightarrow> Inl e) = AWS_OP_SUCCESS"
  by code_simp

theorem lht_refines_pairs_witness:
  "\<exists>t t'. demo_lht = Inr t \<and> aws_linked_hash_table_put t (Some 7) (Some 5) = (AWS_OP_SUCCESS, [], t') \<and>
     lht_rep (=) True True t' [(Some 7, Some 5)]"
proof -
  obtain t where t: "demo_lht = Inr t" "lht_rep (=) True True t []" using demo_lht_rep by blast
  have ok: "fst (aws_linked_hash_table_put t (Some 7) (Some 5)) = AWS_OP_SUCCESS" using demo_lht_put unfolding t(1) by (simp only: sum.case)
  from lht_refines_pairs [OF t(2), THEN conjunct2, THEN conjunct2, THEN conjunct1, rule_format, of "Some 7" "Some 5"] ok
  show ?thesis using t(1) by (auto simp: kv_find_def kv_put_def kv_drop_def)
qed

end
