(* ===== verification/Caches.thy ===== *)
theory Caches
  imports Linked_Hash_Table
begin

text \<open>
  The caches of \<open>source/cache.c\<close>, \<open>source/lru_cache.c\<close>, \<open>source/fifo_cache.c\<close> and \<open>source/lifo_cache.c\<close>: a linked
  hash table with a bound on its elements and a policy that says which element leaves when the bound is passed.

  The pointer to a \<open>struct aws_cache_vtable\<close> is one of the three static tables; \<open>aws_cache_put\<close> and its siblings
  dispatch on it.  The \<open>impl\<close> member is set by \<open>aws_cache_new_lru\<close> only, to the two functions that the last two
  operations below dispatch to.
\<close>

datatype aws_cache_vtable = S_lru_cache_vtable | S_fifo_cache_vtable | S_lifo_cache_vtable

record ('k, 'v) aws_cache =
  ca_vtable :: aws_cache_vtable
  ca_table :: "('k, 'v) linked_hash_table"
  ca_max_items :: size_t

section \<open>Default implementations\<close>

definition aws_cache_base_default_destroy :: "('k, 'v) aws_cache \<Rightarrow> ('k, 'v) user_calls res" where
  "aws_cache_base_default_destroy cache =
     bind_res (aws_linked_hash_table_clean_up (ca_table cache)) (\<lambda>(calls, _). Inr calls)"

definition aws_cache_base_default_find ::
  "('k, 'v) aws_cache \<Rightarrow> 'k option \<Rightarrow> ('v option \<times> ('k, 'v) aws_cache) res" where
  "aws_cache_base_default_find cache key =
     bind_res (aws_linked_hash_table_find (ca_table cache) key) (\<lambda>v. Inr (v, cache))"

definition aws_cache_base_default_remove ::
  "('k, 'v) aws_cache \<Rightarrow> 'k option \<Rightarrow> unit res \<times> ('k, 'v) user_calls \<times> ('k, 'v) aws_cache" where
  "aws_cache_base_default_remove cache key =
     (case aws_linked_hash_table_remove (ca_table cache) key of (r, calls, t) \<Rightarrow> (r, calls, cache\<lparr>ca_table := t\<rparr>))"

definition aws_cache_base_default_clear :: "('k, 'v) aws_cache \<Rightarrow> (('k, 'v) user_calls \<times> ('k, 'v) aws_cache) res" where
  "aws_cache_base_default_clear cache =
     bind_res (aws_linked_hash_table_clear (ca_table cache)) (\<lambda>(calls, t). Inr (calls, cache\<lparr>ca_table := t\<rparr>))"

definition aws_cache_base_default_get_element_count :: "('k, 'v) aws_cache \<Rightarrow> size_t res" where
  "aws_cache_base_default_get_element_count cache = aws_linked_hash_table_get_element_count (ca_table cache)"

section \<open>Least recently used\<close>

text \<open>The \<open>key\<close> member of the node around a list node.\<close>

definition node_key :: "('k, 'v) linked_hash_table \<Rightarrow> nat option \<Rightarrow> 'k option res" where
  "node_key t node =
     (case node of
        None \<Rightarrow> Inl Undefined
      | Some a \<Rightarrow> (case lt_nodes t a of None \<Rightarrow> Inl Undefined | Some n \<Rightarrow> Inr (ln_key n)))"

definition aws_cache_new_lru ::
  "nat ll_heap \<Rightarrow> nat linked_list \<Rightarrow> nat \<Rightarrow> nat \<Rightarrow> ('k \<Rightarrow> u64) \<Rightarrow> ('k \<Rightarrow> 'k \<Rightarrow> bool) \<Rightarrow> bool \<Rightarrow> bool \<Rightarrow> size_t \<Rightarrow>
     ('k, 'v) aws_cache res" where
  "aws_cache_new_lru h l next_address alloc hash_fn equals_fn destroy_key_fn destroy_value_fn max_items =
     bind_res (aws_linked_hash_table_init h l next_address alloc hash_fn equals_fn destroy_key_fn destroy_value_fn max_items)
       (\<lambda>t. Inr \<lparr>ca_vtable = S_lru_cache_vtable, ca_table = t, ca_max_items = max_items\<rparr>)"

definition s_lru_cache_put ::
  "('k, 'v) aws_cache \<Rightarrow> 'k option \<Rightarrow> 'v option \<Rightarrow> unit res \<times> ('k, 'v) user_calls \<times> ('k, 'v) aws_cache" where
  "s_lru_cache_put cache key p_value =
     (case aws_linked_hash_table_put (ca_table cache) key p_value of
        (Inl e, calls, t) \<Rightarrow> (Inl e, calls, cache\<lparr>ca_table := t\<rparr>)
      | (Inr _, calls, t) \<Rightarrow>
          (case bind_res (aws_linked_hash_table_get_element_count t) (\<lambda>n.
                  if n > ca_max_items cache
                  then bind_res (aws_linked_list_front (lt_heap t) (aws_linked_hash_table_get_iteration_list t)) (\<lambda>node.
                       bind_res (node_key t node) (\<lambda>k. Inr (Some k)))
                  else Inr None) of
             Inl e \<Rightarrow> (Inl e, calls, cache\<lparr>ca_table := t\<rparr>)
           | Inr None \<Rightarrow> (AWS_OP_SUCCESS, calls, cache\<lparr>ca_table := t\<rparr>)
           | Inr (Some k) \<Rightarrow>
               (case aws_linked_hash_table_remove t k of (r, calls', t) \<Rightarrow> (r, calls @ calls', cache\<lparr>ca_table := t\<rparr>))))"

definition s_lru_cache_find ::
  "('k, 'v) aws_cache \<Rightarrow> 'k option \<Rightarrow> ('v option \<times> ('k, 'v) aws_cache) res" where
  "s_lru_cache_find cache key =
     bind_res (aws_linked_hash_table_find_and_move_to_back (ca_table cache) key) (\<lambda>(v, t). Inr (v, cache\<lparr>ca_table := t\<rparr>))"

definition s_lru_cache_use_lru_element :: "('k, 'v) aws_cache \<Rightarrow> ('v option \<times> ('k, 'v) aws_cache) res" where
  "s_lru_cache_use_lru_element cache =
     (let t = ca_table cache; list = aws_linked_hash_table_get_iteration_list t
      in bind_res (aws_linked_list_empty (lt_heap t) list) (\<lambda>empty.
           if empty then Inr (None, cache)
           else bind_res (aws_linked_list_front (lt_heap t) list) (\<lambda>node.
                  case node of
                    None \<Rightarrow> Inl Undefined
                  | Some a \<Rightarrow>
                      bind_res (aws_linked_hash_table_move_node_to_end_of_list t a) (\<lambda>t.
                        case lt_nodes t a of
                          None \<Rightarrow> Inl Undefined
                        | Some lru_node \<Rightarrow> Inr (ln_value lru_node, cache\<lparr>ca_table := t\<rparr>)))))"

definition s_lru_cache_get_mru_element :: "('k, 'v) aws_cache \<Rightarrow> 'v option res" where
  "s_lru_cache_get_mru_element cache =
     (let t = ca_table cache; list = aws_linked_hash_table_get_iteration_list t
      in bind_res (aws_linked_list_empty (lt_heap t) list) (\<lambda>empty.
           if empty then Inr None
           else bind_res (aws_linked_list_back (lt_heap t) list) (\<lambda>node.
                  case node of
                    None \<Rightarrow> Inl Undefined
                  | Some a \<Rightarrow> (case lt_nodes t a of None \<Rightarrow> Inl Undefined | Some mru_node \<Rightarrow> Inr (ln_value mru_node)))))"

section \<open>First in first out\<close>

definition aws_cache_new_fifo ::
  "nat ll_heap \<Rightarrow> nat linked_list \<Rightarrow> nat \<Rightarrow> nat \<Rightarrow> ('k \<Rightarrow> u64) \<Rightarrow> ('k \<Rightarrow> 'k \<Rightarrow> bool) \<Rightarrow> bool \<Rightarrow> bool \<Rightarrow> size_t \<Rightarrow>
     ('k, 'v) aws_cache res" where
  "aws_cache_new_fifo h l next_address alloc hash_fn equals_fn destroy_key_fn destroy_value_fn max_items =
     bind_res (aws_linked_hash_table_init h l next_address alloc hash_fn equals_fn destroy_key_fn destroy_value_fn max_items)
       (\<lambda>t. Inr \<lparr>ca_vtable = S_fifo_cache_vtable, ca_table = t, ca_max_items = max_items\<rparr>)"

definition s_fifo_cache_put ::
  "('k, 'v) aws_cache \<Rightarrow> 'k option \<Rightarrow> 'v option \<Rightarrow> unit res \<times> ('k, 'v) user_calls \<times> ('k, 'v) aws_cache" where
  "s_fifo_cache_put cache key p_value =
     (case aws_linked_hash_table_put (ca_table cache) key p_value of
        (Inl e, calls, t) \<Rightarrow> (Inl e, calls, cache\<lparr>ca_table := t\<rparr>)
      | (Inr _, calls, t) \<Rightarrow>
          (case bind_res (aws_linked_hash_table_get_element_count t) (\<lambda>n.
                  if n > ca_max_items cache
                  then bind_res (aws_linked_list_front (lt_heap t) (aws_linked_hash_table_get_iteration_list t)) (\<lambda>node.
                       bind_res (node_key t node) (\<lambda>k. Inr (Some k)))
                  else Inr None) of
             Inl e \<Rightarrow> (Inl e, calls, cache\<lparr>ca_table := t\<rparr>)
           | Inr None \<Rightarrow> (AWS_OP_SUCCESS, calls, cache\<lparr>ca_table := t\<rparr>)
           | Inr (Some k) \<Rightarrow>
               (case aws_linked_hash_table_remove t k of (r, calls', t) \<Rightarrow> (r, calls @ calls', cache\<lparr>ca_table := t\<rparr>))))"

section \<open>Last in first out\<close>

definition aws_cache_new_lifo ::
  "nat ll_heap \<Rightarrow> nat linked_list \<Rightarrow> nat \<Rightarrow> nat \<Rightarrow> ('k \<Rightarrow> u64) \<Rightarrow> ('k \<Rightarrow> 'k \<Rightarrow> bool) \<Rightarrow> bool \<Rightarrow> bool \<Rightarrow> size_t \<Rightarrow>
     ('k, 'v) aws_cache res" where
  "aws_cache_new_lifo h l next_address alloc hash_fn equals_fn destroy_key_fn destroy_value_fn max_items =
     bind_res (aws_linked_hash_table_init h l next_address alloc hash_fn equals_fn destroy_key_fn destroy_value_fn max_items)
       (\<lambda>t. Inr \<lparr>ca_vtable = S_lifo_cache_vtable, ca_table = t, ca_max_items = max_items\<rparr>)"

definition s_lifo_cache_put ::
  "('k, 'v) aws_cache \<Rightarrow> 'k option \<Rightarrow> 'v option \<Rightarrow> unit res \<times> ('k, 'v) user_calls \<times> ('k, 'v) aws_cache" where
  "s_lifo_cache_put cache key p_value =
     (case aws_linked_hash_table_put (ca_table cache) key p_value of
        (Inl e, calls, t) \<Rightarrow> (Inl e, calls, cache\<lparr>ca_table := t\<rparr>)
      | (Inr _, calls, t) \<Rightarrow>
          (case bind_res (aws_linked_hash_table_get_element_count t) (\<lambda>n.
                  if n > ca_max_items cache
                  then bind_res (aws_linked_list_back (lt_heap t) (aws_linked_hash_table_get_iteration_list t)) (\<lambda>node.
                       bind_res (load_prev (lt_heap t) node) (\<lambda>prev.
                         if prev = None then Inr None
                         else bind_res (node_key t prev) (\<lambda>k. Inr (Some k))))
                  else Inr None) of
             Inl e \<Rightarrow> (Inl e, calls, cache\<lparr>ca_table := t\<rparr>)
           | Inr None \<Rightarrow> (AWS_OP_SUCCESS, calls, cache\<lparr>ca_table := t\<rparr>)
           | Inr (Some k) \<Rightarrow>
               (case aws_linked_hash_table_remove t k of (r, calls', t) \<Rightarrow> (r, calls @ calls', cache\<lparr>ca_table := t\<rparr>))))"

section \<open>Dispatch\<close>

definition aws_cache_destroy :: "('k, 'v) aws_cache \<Rightarrow> ('k, 'v) user_calls res" where
  "aws_cache_destroy cache =
     (case ca_vtable cache of
        S_lru_cache_vtable \<Rightarrow> aws_cache_base_default_destroy cache
      | S_fifo_cache_vtable \<Rightarrow> aws_cache_base_default_destroy cache
      | S_lifo_cache_vtable \<Rightarrow> aws_cache_base_default_destroy cache)"

definition aws_cache_find :: "('k, 'v) aws_cache \<Rightarrow> 'k option \<Rightarrow> ('v option \<times> ('k, 'v) aws_cache) res" where
  "aws_cache_find cache key =
     (case ca_vtable cache of
        S_lru_cache_vtable \<Rightarrow> s_lru_cache_find cache key
      | S_fifo_cache_vtable \<Rightarrow> aws_cache_base_default_find cache key
      | S_lifo_cache_vtable \<Rightarrow> aws_cache_base_default_find cache key)"

definition aws_cache_put ::
  "('k, 'v) aws_cache \<Rightarrow> 'k option \<Rightarrow> 'v option \<Rightarrow> unit res \<times> ('k, 'v) user_calls \<times> ('k, 'v) aws_cache" where
  "aws_cache_put cache key p_value =
     (case ca_vtable cache of
        S_lru_cache_vtable \<Rightarrow> s_lru_cache_put cache key p_value
      | S_fifo_cache_vtable \<Rightarrow> s_fifo_cache_put cache key p_value
      | S_lifo_cache_vtable \<Rightarrow> s_lifo_cache_put cache key p_value)"

definition aws_cache_remove ::
  "('k, 'v) aws_cache \<Rightarrow> 'k option \<Rightarrow> unit res \<times> ('k, 'v) user_calls \<times> ('k, 'v) aws_cache" where
  "aws_cache_remove cache key =
     (case ca_vtable cache of
        S_lru_cache_vtable \<Rightarrow> aws_cache_base_default_remove cache key
      | S_fifo_cache_vtable \<Rightarrow> aws_cache_base_default_remove cache key
      | S_lifo_cache_vtable \<Rightarrow> aws_cache_base_default_remove cache key)"

definition aws_cache_clear :: "('k, 'v) aws_cache \<Rightarrow> (('k, 'v) user_calls \<times> ('k, 'v) aws_cache) res" where
  "aws_cache_clear cache =
     (case ca_vtable cache of
        S_lru_cache_vtable \<Rightarrow> aws_cache_base_default_clear cache
      | S_fifo_cache_vtable \<Rightarrow> aws_cache_base_default_clear cache
      | S_lifo_cache_vtable \<Rightarrow> aws_cache_base_default_clear cache)"

definition aws_cache_get_element_count :: "('k, 'v) aws_cache \<Rightarrow> size_t res" where
  "aws_cache_get_element_count cache =
     (case ca_vtable cache of
        S_lru_cache_vtable \<Rightarrow> aws_cache_base_default_get_element_count cache
      | S_fifo_cache_vtable \<Rightarrow> aws_cache_base_default_get_element_count cache
      | S_lifo_cache_vtable \<Rightarrow> aws_cache_base_default_get_element_count cache)"

text \<open>Without an LRU cache's \<open>impl\<close> the following two functions call through a null pointer.\<close>

definition aws_lru_cache_use_lru_element :: "('k, 'v) aws_cache \<Rightarrow> ('v option \<times> ('k, 'v) aws_cache) res" where
  "aws_lru_cache_use_lru_element cache =
     (if ca_vtable cache = S_lru_cache_vtable then s_lru_cache_use_lru_element cache else Inl Undefined)"

definition aws_lru_cache_get_mru_element :: "('k, 'v) aws_cache \<Rightarrow> 'v option res" where
  "aws_lru_cache_get_mru_element cache =
     (if ca_vtable cache = S_lru_cache_vtable then s_lru_cache_get_mru_element cache else Inl Undefined)"

section \<open>Abstraction and invariant\<close>

text \<open>The pair that leaves a cache that is over its bound, and what stays.\<close>

fun evicted :: "aws_cache_vtable \<Rightarrow> 'p list \<Rightarrow> 'p" where
  "evicted S_lifo_cache_vtable qs = last (butlast qs)"
| "evicted _ qs = hd qs"

fun kept :: "aws_cache_vtable \<Rightarrow> 'p list \<Rightarrow> 'p list" where
  "kept S_lifo_cache_vtable qs = butlast (butlast qs) @ [last qs]"
| "kept _ qs = tl qs"

definition policy_put ::
  "aws_cache_vtable \<Rightarrow> nat \<Rightarrow> ('k \<Rightarrow> 'k \<Rightarrow> bool) \<Rightarrow> 'k \<Rightarrow> 'v \<Rightarrow> ('k \<times> 'v) list \<Rightarrow> ('k \<times> 'v) list" where
  "policy_put vt max_items E k v ps =
     (let qs = kv_put E k v ps in if max_items < length qs then kept vt qs else qs)"

definition policy_find ::
  "aws_cache_vtable \<Rightarrow> ('k \<Rightarrow> 'k \<Rightarrow> bool) \<Rightarrow> 'k \<Rightarrow> ('k \<times> 'v) list \<Rightarrow> ('k \<times> 'v) list" where
  "policy_find vt E k ps = (if vt = S_lru_cache_vtable then kv_touch E k ps else ps)"

definition found_value :: "('k \<Rightarrow> 'k \<Rightarrow> bool) \<Rightarrow> 'k \<Rightarrow> ('k \<times> 'v option) list \<Rightarrow> 'v option" where
  "found_value E k ps = (case kv_find E k ps of None \<Rightarrow> None | Some p \<Rightarrow> snd p)"

text \<open>The destructor calls of a put: the value it replaces, then the pair it evicts.\<close>

definition put_calls ::
  "aws_cache_vtable \<Rightarrow> nat \<Rightarrow> ('k option \<Rightarrow> 'k option \<Rightarrow> bool) \<Rightarrow> bool \<Rightarrow> bool \<Rightarrow> 'k option \<Rightarrow> 'k option \<Rightarrow> 'v option \<Rightarrow>
     ('k option \<times> 'v option) list \<Rightarrow> ('k, 'v) user_calls" where
  "put_calls vt max_items E dk dv k0 k v ps =
     (case kv_find E k ps of None \<Rightarrow> [] | Some p \<Rightarrow> if dv then [DestroyValue (snd p)] else []) @
     (let qs = kv_put E k v ps
      in if max_items < length qs
         then (if dk then [DestroyKey k0] else []) @ (if dv then [DestroyValue (snd (evicted vt qs))] else [])
         else [])"

definition cache_rep ::
  "aws_cache_vtable \<Rightarrow> nat \<Rightarrow> ('k \<Rightarrow> 'k \<Rightarrow> bool) \<Rightarrow> bool \<Rightarrow> bool \<Rightarrow> ('k, 'v) aws_cache \<Rightarrow> ('k option \<times> 'v option) list \<Rightarrow> bool" where
  "cache_rep vt max_items eq dk dv c ps \<longleftrightarrow> ca_vtable c = vt \<and> unat (ca_max_items c) = max_items \<and> 0 < max_items \<and>
     lht_rep eq dk dv (ca_table c) ps \<and> length ps \<le> max_items"

text \<open>What a put does after the linked hash table succeeded.\<close>

definition after_put ::
  "('k, 'v) aws_cache \<Rightarrow> ('k, 'v) linked_hash_table \<Rightarrow> 'k option option res" where
  "after_put cache t =
     bind_res (aws_linked_hash_table_get_element_count t) (\<lambda>n.
       if n > ca_max_items cache
       then if ca_vtable cache = S_lifo_cache_vtable
            then bind_res (aws_linked_list_back (lt_heap t) (lt_list t)) (\<lambda>node.
                 bind_res (load_prev (lt_heap t) node) (\<lambda>prev.
                   if prev = None then Inr None else bind_res (node_key t prev) (\<lambda>k. Inr (Some k))))
            else bind_res (aws_linked_list_front (lt_heap t) (lt_list t)) (\<lambda>node.
                 bind_res (node_key t node) (\<lambda>k. Inr (Some k)))
       else Inr None)"

text \<open>
  A component that runs operations, and a specification that says which results and which next contents it allows.
\<close>

fun run_ops :: "('s \<Rightarrow> 'op \<Rightarrow> 'r \<times> 's) \<Rightarrow> 's \<Rightarrow> 'op list \<Rightarrow> 'r list \<times> 's" where
  "run_ops step s [] = ([], s)"
| "run_ops step s (x # xs) = (case step s x of (r, s) \<Rightarrow> (case run_ops step s xs of (rs, s) \<Rightarrow> (r # rs, s)))"

fun allowed_run :: "('a \<Rightarrow> 'op \<Rightarrow> 'r \<Rightarrow> 'a \<Rightarrow> bool) \<Rightarrow> 'a \<Rightarrow> 'op list \<Rightarrow> 'r list \<Rightarrow> 'a \<Rightarrow> bool" where
  "allowed_run ok a [] [] b \<longleftrightarrow> b = a"
| "allowed_run ok a (x # xs) (r # rs) b \<longleftrightarrow> (\<exists>c. ok a x r c \<and> allowed_run ok c xs rs b)"
| "allowed_run ok a _ _ b \<longleftrightarrow> False"

datatype ('k, 'v) cache_op =
    Cache_put "'k option" "'v option" | Cache_find "'k option" | Cache_remove "'k option" | Cache_clear
  | Cache_use_lru | Cache_get_mru

text \<open>An operation through \<open>aws_cache_put\<close> and its siblings, with the value it returns.\<close>

fun cache_step :: "('k, 'v) aws_cache \<Rightarrow> ('k, 'v) cache_op \<Rightarrow> 'v option res \<times> ('k, 'v) aws_cache" where
  "cache_step c (Cache_put k v) = (case aws_cache_put c k v of (r, calls, c) \<Rightarrow> (map_sum id (\<lambda>_. None) r, c))"
| "cache_step c (Cache_find k) = (case aws_cache_find c k of Inl e \<Rightarrow> (Inl e, c) | Inr (v, c) \<Rightarrow> (Inr v, c))"
| "cache_step c (Cache_remove k) = (case aws_cache_remove c k of (r, calls, c) \<Rightarrow> (map_sum id (\<lambda>_. None) r, c))"
| "cache_step c Cache_clear = (case aws_cache_clear c of Inl e \<Rightarrow> (Inl e, c) | Inr (calls, c) \<Rightarrow> (Inr None, c))"
| "cache_step c Cache_use_lru = (case aws_lru_cache_use_lru_element c of Inl e \<Rightarrow> (Inl e, c) | Inr (v, c) \<Rightarrow> (Inr v, c))"
| "cache_step c Cache_get_mru = (aws_lru_cache_get_mru_element c, c)"

fun cache_allows ::
  "aws_cache_vtable \<Rightarrow> nat \<Rightarrow> ('k option \<Rightarrow> 'k option \<Rightarrow> bool) \<Rightarrow> ('k option \<times> 'v option) list \<Rightarrow> ('k, 'v) cache_op \<Rightarrow>
     'v option res \<Rightarrow> ('k option \<times> 'v option) list \<Rightarrow> bool" where
  "cache_allows vt max_items E ps (Cache_put k v) r qs \<longleftrightarrow>
     r = Inr None \<and> qs = policy_put vt max_items E k v ps \<or> r = aws_raise_error AWS_ERROR_OVERFLOW_DETECTED \<and> qs = ps"
| "cache_allows vt max_items E ps (Cache_find k) r qs \<longleftrightarrow> r = Inr (found_value E k ps) \<and> qs = policy_find vt E k ps"
| "cache_allows vt max_items E ps (Cache_remove k) r qs \<longleftrightarrow> r = Inr None \<and> qs = kv_drop E k ps"
| "cache_allows vt max_items E ps Cache_clear r qs \<longleftrightarrow> r = Inr None \<and> qs = []"
| "cache_allows vt max_items E ps Cache_use_lru r qs \<longleftrightarrow>
     (if vt = S_lru_cache_vtable
      then (case ps of [] \<Rightarrow> r = Inr None \<and> qs = [] | p # ps \<Rightarrow> r = Inr (snd p) \<and> qs = ps @ [p])
      else r = Inl Undefined \<and> qs = ps)"
| "cache_allows vt max_items E ps Cache_get_mru r qs \<longleftrightarrow> qs = ps \<and>
     r = (if vt = S_lru_cache_vtable then Inr (if ps = [] then None else snd (last ps)) else Inl Undefined)"

text \<open>The constructor of each policy.\<close>

fun cache_new ::
  "aws_cache_vtable \<Rightarrow> nat ll_heap \<Rightarrow> nat linked_list \<Rightarrow> nat \<Rightarrow> nat \<Rightarrow> ('k \<Rightarrow> u64) \<Rightarrow> ('k \<Rightarrow> 'k \<Rightarrow> bool) \<Rightarrow> bool \<Rightarrow> bool \<Rightarrow>
     size_t \<Rightarrow> ('k, 'v) aws_cache res" where
  "cache_new S_lru_cache_vtable h l a alloc hash_fn eq dk dv n = aws_cache_new_lru h l a alloc hash_fn eq dk dv n"
| "cache_new S_fifo_cache_vtable h l a alloc hash_fn eq dk dv n = aws_cache_new_fifo h l a alloc hash_fn eq dk dv n"
| "cache_new S_lifo_cache_vtable h l a alloc hash_fn eq dk dv n = aws_cache_new_lifo h l a alloc hash_fn eq dk dv n"

text \<open>The head and tail members of a cache's list are two allocated addresses below the next free one.\<close>

definition ends_ok :: "nat ll_heap \<Rightarrow> nat linked_list \<Rightarrow> nat \<Rightarrow> bool" where
  "ends_ok h l a \<longleftrightarrow> live h (ll_head l) \<and> live h (ll_tail l) \<and> ll_head l \<noteq> ll_tail l \<and> (\<forall>b. live h b \<longrightarrow> b < a)"

definition demo_cache :: "aws_cache_vtable \<Rightarrow> (u64, u64) aws_cache res" where
  "demo_cache vt = cache_new vt demo_ends \<lparr>ll_head = 0, ll_tail = 1\<rparr> 2 0 (\<lambda>k. k) (=) False False 2"

definition demo_ops :: "(u64, u64) cache_op list" where
  "demo_ops = [Cache_put (Some 1) (Some 10), Cache_put (Some 2) (Some 20), Cache_find (Some 1), Cache_put (Some 3) (Some 30),
     Cache_find (Some 1), Cache_find (Some 2), Cache_find (Some 3)]"

definition demo_results :: "aws_cache_vtable \<Rightarrow> u64 option res list" where
  "demo_results vt = fst (run_ops cache_step (projr (demo_cache vt)) demo_ops)"

section \<open>Lemmas\<close>

section \<open>The policies\<close>

section \<open>Ends of the iteration list\<close>

lemma rep_nodes:
  assumes "lht_rep eq dk dv t ps"
  obtains xs where "is_list (lt_heap t) (lt_list t) xs" "ps = map (node_kv t) xs"
    "\<And>a. a \<in> set xs \<Longrightarrow> \<exists>n. lt_nodes t a = Some n \<and> node_kv t a = (ln_key n, ln_value n)"
proof (rule lht_repE [OF assms])
  fix st xs
  assume r: "lht_inv t st xs" "ps = map (node_kv t) xs"
  note n = nodes_okD [OF lht_invD(4) [OF r(1)]]
  show thesis
  proof (rule that [OF n(1) r(2)])
    fix a assume "a \<in> set xs"
    then show "\<exists>n. lt_nodes t a = Some n \<and> node_kv t a = (ln_key n, ln_value n)" using n(5) [of a] by (auto simp: node_kv_def)
  qed
qed

lemma node_key_ok: "lt_nodes t a = Some n \<Longrightarrow> node_kv t a = (k, v) \<Longrightarrow> node_key t (Some a) = Inr k"
  by (simp add: node_key_def node_kv_def)

lemma rep_front:
  assumes "lht_rep eq dk dv t (p # ps)"
  obtains a n where "aws_linked_list_front (lt_heap t) (lt_list t) = Inr (Some a)" "lt_nodes t a = Some n" "p = (ln_key n, ln_value n)"
    "node_key t (Some a) = Inr (fst p)"
proof (rule rep_nodes [OF assms])
  fix xs
  assume x: "is_list (lt_heap t) (lt_list t) xs" "p # ps = map (node_kv t) xs"
    "\<And>a. a \<in> set xs \<Longrightarrow> \<exists>n. lt_nodes t a = Some n \<and> node_kv t a = (ln_key n, ln_value n)"
  obtain a ys where a: "xs = a # ys" "p = node_kv t a" using x(2) by (cases xs) auto
  obtain n where n: "lt_nodes t a = Some n" "node_kv t a = (ln_key n, ln_value n)" using x(3) a(1) by auto
  have "aws_linked_list_front (lt_heap t) (lt_list t) = Inr (Some a)" by (rule ll_front_ok) (use x(1) a(1) in simp)
  then show thesis using that [of a n] n a(2) by (simp add: node_key_ok)
qed

lemma rep_back:
  assumes "lht_rep eq dk dv t (ps @ [p])"
  obtains a n where "aws_linked_list_back (lt_heap t) (lt_list t) = Inr (Some a)" "lt_nodes t a = Some n" "p = (ln_key n, ln_value n)"
proof (rule rep_nodes [OF assms])
  fix xs
  assume x: "is_list (lt_heap t) (lt_list t) xs" "ps @ [p] = map (node_kv t) xs"
    "\<And>a. a \<in> set xs \<Longrightarrow> \<exists>n. lt_nodes t a = Some n \<and> node_kv t a = (ln_key n, ln_value n)"
  obtain a ys where a: "xs = ys @ [a]" "p = node_kv t a" using x(2) by (cases xs rule: rev_cases) auto
  obtain n where n: "lt_nodes t a = Some n" "node_kv t a = (ln_key n, ln_value n)" using x(3) a(1) by auto
  have "aws_linked_list_back (lt_heap t) (lt_list t) = Inr (Some a)" by (rule ll_back_ok) (use x(1) a(1) in simp)
  then show thesis using that [of a n] n a(2) by simp
qed

lemma rep_before_back:
  assumes "lht_rep eq dk dv t (ps @ [p, q])"
  obtains a b where "aws_linked_list_back (lt_heap t) (lt_list t) = Inr (Some b)" "load_prev (lt_heap t) (Some b) = Inr (Some a)"
    "node_key t (Some a) = Inr (fst p)"
proof (rule rep_nodes [OF assms])
  fix xs
  assume x: "is_list (lt_heap t) (lt_list t) xs" "ps @ [p, q] = map (node_kv t) xs"
    "\<And>a. a \<in> set xs \<Longrightarrow> \<exists>n. lt_nodes t a = Some n \<and> node_kv t a = (ln_key n, ln_value n)"
  obtain zs b where b: "xs = zs @ [b]" "ps @ [p] = map (node_kv t) zs" using x(2) by (cases xs rule: rev_cases) auto
  obtain ys a where a: "zs = ys @ [a]" "p = node_kv t a" using b(2) by (cases zs rule: rev_cases) auto
  have xs: "xs = ys @ [a, b]" using a b by simp
  obtain n where n: "lt_nodes t a = Some n" "node_kv t a = (ln_key n, ln_value n)" using x(3) xs by auto
  note i = is_listD [OF x(1)]
  have "pv (lt_heap t) b = Some a" "live (lt_heap t) b"
    using i(3) i(2) [of b] by (auto simp: xs all_nodes_def chain_append [of _ _ "_ # _", simplified])
  moreover have "aws_linked_list_back (lt_heap t) (lt_list t) = Inr (Some b)" by (rule ll_back_ok) (use x(1) b(1) in simp)
  ultimately show thesis using that [of b a] n a(2) by (simp add: node_key_ok)
qed

lemma rep_split:
  assumes "lht_rep eq dk dv t (us @ p # vs)"
  shows "kv_drop (s_safe_eq_check eq) (fst p) (us @ p # vs) = us @ vs" "kv_find (s_safe_eq_check eq) (fst p) (us @ p # vs) = Some p"
proof -
  obtain st xs where r: "lht_inv t st xs" "s_hash_keys_eq st = s_safe_eq_check eq" "us @ p # vs = map (node_kv t) xs"
    by (rule lht_repE [OF assms])
  obtain xu a xv where x: "xs = xu @ a # xv" "us = map (node_kv t) xu" "p = node_kv t a" "vs = map (node_kv t) xv"
    using r(3) unfolding append_eq_map_conv by (auto simp: Cons_eq_map_conv)
  note i = lht_invD [OF r(1)]
  note eqv = ht_invD(3) [OF i(2)]
  obtain e where e: "e \<in># ents (ht_slots st)" "e_value e = Some a" "s_hash_keys_eq st (e_key e) (fst (node_kv t a))"
    by (rule element_of_node [OF i(5), of a]) (use x(1) in auto)
  have o: "\<forall>b \<in> set xs. b \<noteq> a \<longrightarrow> \<not> s_hash_keys_eq st (fst p) (fst (node_kv t b))"
    by (rule other_nodes [OF r(1) e(1,2)]) (use keys_eq_equiv(2) [OF eqv e(3)] x(3) in simp)
  have p: "s_hash_keys_eq st (fst p) (fst (node_kv t a))" using keys_eq_equiv(1) [OF eqv] x(3) by simp
  have "kv_drop (s_hash_keys_eq st) (fst p) (map (node_kv t) (xu @ a # xv)) = map (node_kv t) (xu @ xv)"
    by (rule kv_drop_unique) (use i(6) p o x(1) in auto)
  then show "kv_drop (s_safe_eq_check eq) (fst p) (us @ p # vs) = us @ vs" using x r(2) by simp
  have "kv_find (s_hash_keys_eq st) (fst p) (map (node_kv t) (xu @ a # xv)) = Some (node_kv t a)"
    by (rule kv_find_unique) (use p o x(1) in auto)
  then show "kv_find (s_safe_eq_check eq) (fst p) (us @ p # vs) = Some p" using x r(2) by simp
qed

section \<open>Operations of a cache\<close>

lemma evicted_split:
  assumes "2 \<le> length qs"
  obtains us p vs where "qs = us @ p # vs" "evicted vt qs = p" "kept vt qs = us @ vs"
    "vt = S_lifo_cache_vtable \<longrightarrow> (\<exists>q. vs = [q])" "vt \<noteq> S_lifo_cache_vtable \<longrightarrow> us = []"
proof (cases "vt = S_lifo_cache_vtable")
  case True
  obtain rs q where q: "qs = rs @ [q]" using assms by (cases qs rule: rev_cases) auto
  then obtain us p where "rs = us @ [p]" using assms by (cases rs rule: rev_cases) auto
  then show thesis using that [of us p "[q]"] True q by (simp add: butlast_append)
next
  case False
  then have "evicted vt qs = hd qs" "kept vt qs = tl qs" by (cases vt; simp)+
  then show thesis using that [of "[]" "hd qs" "tl qs"] False assms by (cases qs) auto
qed

lemma put_cases_vt:
  "aws_cache_put cache key v =
     (case aws_linked_hash_table_put (ca_table cache) key v of
        (Inl e, calls, t) \<Rightarrow> (Inl e, calls, cache\<lparr>ca_table := t\<rparr>)
      | (Inr _, calls, t) \<Rightarrow>
          (case after_put cache t of
             Inl e \<Rightarrow> (Inl e, calls, cache\<lparr>ca_table := t\<rparr>)
           | Inr None \<Rightarrow> (AWS_OP_SUCCESS, calls, cache\<lparr>ca_table := t\<rparr>)
           | Inr (Some k) \<Rightarrow>
               (case aws_linked_hash_table_remove t k of (r, calls', t) \<Rightarrow> (r, calls @ calls', cache\<lparr>ca_table := t\<rparr>))))"
  by (cases "ca_vtable cache")
    (simp_all only: aws_cache_put_def s_lru_cache_put_def s_fifo_cache_put_def s_lifo_cache_put_def after_put_def
      aws_linked_hash_table_get_iteration_list_def aws_cache_vtable.simps if_True if_False simp_thms)

lemma after_put_ok:
  assumes r: "lht_rep eq dk dv t qs" and m: "unat (ca_max_items cache) = max_items" "0 < max_items"
  shows "after_put cache t =
    Inr (if max_items < length qs then Some (fst (evicted (ca_vtable cache) qs)) else None)"
proof -
  obtain n where n: "aws_linked_hash_table_get_element_count t = Inr n" "unat n = length qs" using rep_count [OF r] by blast
  have over: "n > ca_max_items cache \<longleftrightarrow> max_items < length qs" using n(2) m(1) by (simp add: word_less_nat_alt)
  show ?thesis
  proof (cases "max_items < length qs")
    case True
    then have "2 \<le> length qs" using m(2) by simp
    then obtain us p vs where s: "qs = us @ p # vs" "evicted (ca_vtable cache) qs = p" "kept (ca_vtable cache) qs = us @ vs"
      "ca_vtable cache = S_lifo_cache_vtable \<longrightarrow> (\<exists>q. vs = [q])" "ca_vtable cache \<noteq> S_lifo_cache_vtable \<longrightarrow> us = []"
      by (rule evicted_split [of qs "ca_vtable cache"])
    show ?thesis
    proof (cases "ca_vtable cache = S_lifo_cache_vtable")
      case lifo: True
      then obtain q where "vs = [q]" using s(4) by blast
      then have "lht_rep eq dk dv t (us @ [p, q])" using r s(1) by simp
      then obtain a b where "aws_linked_list_back (lt_heap t) (lt_list t) = Inr (Some b)"
        "load_prev (lt_heap t) (Some b) = Inr (Some a)" "node_key t (Some a) = Inr (fst p)"
        by (rule rep_before_back)
      then show ?thesis using True lifo over n(1) s(2) by (simp add: after_put_def)
    next
      case False
      then have "lht_rep eq dk dv t (p # vs)" using r s(1,5) by simp
      then obtain a where "aws_linked_list_front (lt_heap t) (lt_list t) = Inr (Some a)" "node_key t (Some a) = Inr (fst p)"
        by (rule rep_front)
      then show ?thesis using True False over n(1) s(2) by (simp add: after_put_def)
    qed
  next
    case False
    then show ?thesis using over n(1) by (simp add: after_put_def)
  qed
qed

lemma kv_put_length: "length (kv_put E k v ps) \<le> length ps + 1"
  by (simp add: kv_put_def kv_drop_def)

lemma cache_put_law:
  assumes c: "cache_rep vt max_items eq dk dv c ps"
  obtains c' k0 where "aws_cache_put c k v = (AWS_OP_SUCCESS, put_calls vt max_items (s_safe_eq_check eq) dk dv k0 k v ps, c')"
    "cache_rep vt max_items eq dk dv c' (policy_put vt max_items (s_safe_eq_check eq) k v ps)"
    "max_items < length (kv_put (s_safe_eq_check eq) k v ps) \<Longrightarrow>
      s_safe_eq_check eq (fst (evicted vt (kv_put (s_safe_eq_check eq) k v ps))) k0"
  | c' where "aws_cache_put c k v = (aws_raise_error AWS_ERROR_OVERFLOW_DETECTED, [], c')" "cache_rep vt max_items eq dk dv c' ps"
proof -
  let ?E = "s_safe_eq_check eq" and ?qs = "kv_put (s_safe_eq_check eq) k v ps"
  have m: "ca_vtable c = vt" "unat (ca_max_items c) = max_items" "0 < max_items" "lht_rep eq dk dv (ca_table c) ps" "length ps \<le> max_items"
    using c by (auto simp: cache_rep_def)
  show thesis
  proof (rule rep_put [OF m(4), of k v])
    fix t'
    assume p: "aws_linked_hash_table_put (ca_table c) k v = (AWS_OP_SUCCESS,
        (case kv_find ?E k ps of None \<Rightarrow> [] | Some p \<Rightarrow> if dv then [DestroyValue (snd p)] else []), t')" "lht_rep eq dk dv t' ?qs"
    note a = after_put_ok [OF p(2) m(2,3)]
    show thesis
    proof (cases "max_items < length ?qs")
      case True
      then have "2 \<le> length ?qs" using m(3) by simp
      then obtain us p0 vs where s: "?qs = us @ p0 # vs" "evicted vt ?qs = p0" "kept vt ?qs = us @ vs"
        by (rule evicted_split [of ?qs vt])
      have r: "lht_rep eq dk dv t' (us @ p0 # vs)" using p(2) unfolding s(1) .
      note sp = rep_split [OF r]
      obtain t2 k0 where d: "aws_linked_hash_table_remove t' (fst p0) = (AWS_OP_SUCCESS,
          (case kv_find ?E (fst p0) (us @ p0 # vs) of None \<Rightarrow> []
           | Some p \<Rightarrow> (if dk then [DestroyKey k0] else []) @ (if dv then [DestroyValue (snd p)] else [])), t2)"
        "lht_rep eq dk dv t2 (kv_drop ?E (fst p0) (us @ p0 # vs))" "?E (fst p0) k0"
        by (rule rep_remove [OF r])
      have "length (us @ p0 # vs) \<le> max_items + 1" using kv_put_length [of ?E k v ps] m(5) unfolding s(1) by linarith
      then have "cache_rep vt max_items eq dk dv (c\<lparr>ca_table := t2\<rparr>) (policy_put vt max_items ?E k v ps)"
        using d(2) m True s(3) sp(1) by (simp add: cache_rep_def policy_put_def)
      moreover have "aws_cache_put c k v = (AWS_OP_SUCCESS, put_calls vt max_items ?E dk dv k0 k v ps, c\<lparr>ca_table := t2\<rparr>)"
        using p(1) a True m(1) d(1) sp(2) s(2) by (simp add: put_cases_vt put_calls_def Let_def)
      ultimately show thesis using that(1) d(3) s(2) by blast
    next
      case False
      then have "cache_rep vt max_items eq dk dv (c\<lparr>ca_table := t'\<rparr>) (policy_put vt max_items ?E k v ps)"
        using p(2) m by (simp add: cache_rep_def policy_put_def)
      moreover have "aws_cache_put c k v = (AWS_OP_SUCCESS, put_calls vt max_items ?E dk dv k k v ps, c\<lparr>ca_table := t'\<rparr>)"
        using p(1) a False by (simp add: put_cases_vt put_calls_def Let_def)
      ultimately show thesis using that(1) False by blast
    qed
  next
    fix t'
    assume "aws_linked_hash_table_put (ca_table c) k v = (aws_raise_error AWS_ERROR_OVERFLOW_DETECTED, [], t')" "lht_rep eq dk dv t' ps"
    then show thesis using that(2) [of "c\<lparr>ca_table := t'\<rparr>"] m by (simp add: put_cases_vt cache_rep_def)
  qed
qed

lemma cache_find_law:
  assumes c: "cache_rep vt max_items eq dk dv c ps"
  obtains c' where "aws_cache_find c k = Inr (found_value (s_safe_eq_check eq) k ps, c')"
    "cache_rep vt max_items eq dk dv c' (policy_find vt (s_safe_eq_check eq) k ps)"
proof -
  have m: "ca_vtable c = vt" "unat (ca_max_items c) = max_items" "0 < max_items" "lht_rep eq dk dv (ca_table c) ps" "length ps \<le> max_items"
    using c by (auto simp: cache_rep_def)
  have len: "length (kv_touch (s_safe_eq_check eq) k ps) \<le> length ps"
  proof (cases "kv_find (s_safe_eq_check eq) k ps")
    case (Some p)
    then have "p \<in> set ps" "s_safe_eq_check eq k (fst p)" by (auto simp: kv_find_def find_Some_iff)
    then have "length (filter (\<lambda>p. \<not> s_safe_eq_check eq k (fst p)) ps) < length ps"
      using length_filter_less [of p ps "\<lambda>p. \<not> s_safe_eq_check eq k (fst p)"] by simp
    then show ?thesis using Some by (simp add: kv_touch_def kv_drop_def)
  qed (simp add: kv_touch_def kv_drop_def)
  obtain t' where t: "aws_linked_hash_table_find_and_move_to_back (ca_table c) k =
      Inr (case kv_find (s_safe_eq_check eq) k ps of None \<Rightarrow> None | Some p \<Rightarrow> snd p, t')"
    "lht_rep eq dk dv t' (kv_touch (s_safe_eq_check eq) k ps)"
    by (rule rep_touch [OF m(4)])
  show thesis
  proof (cases "vt = S_lru_cache_vtable")
    case True
    then show thesis using t m len
      by (intro that [of "c\<lparr>ca_table := t'\<rparr>"])
        (auto simp: aws_cache_find_def s_lru_cache_find_def found_value_def policy_find_def cache_rep_def)
  next
    case False
    then have "aws_cache_find c k = Inr (found_value (s_safe_eq_check eq) k ps, c)"
      using rep_find [OF m(4), of k] m(1)
      by (cases vt) (simp_all add: aws_cache_find_def aws_cache_base_default_find_def found_value_def)
    then show thesis using that [of c] c False by (simp add: policy_find_def)
  qed
qed

lemma cache_remove_law:
  assumes c: "cache_rep vt max_items eq dk dv c ps"
  obtains calls c' where "aws_cache_remove c k = (AWS_OP_SUCCESS, calls, c')"
    "cache_rep vt max_items eq dk dv c' (kv_drop (s_safe_eq_check eq) k ps)"
proof -
  have m: "ca_vtable c = vt" "unat (ca_max_items c) = max_items" "0 < max_items" "lht_rep eq dk dv (ca_table c) ps" "length ps \<le> max_items"
    using c by (auto simp: cache_rep_def)
  have d: "aws_cache_remove c k = aws_cache_base_default_remove c k" by (cases "ca_vtable c") (simp_all add: aws_cache_remove_def)
  have "length (kv_drop (s_safe_eq_check eq) k ps) \<le> max_items"
    using m(5) length_filter_le [of _ ps] unfolding kv_drop_def by (rule order_trans [rotated])
  moreover obtain t' k0 where "aws_linked_hash_table_remove (ca_table c) k = (AWS_OP_SUCCESS,
      (case kv_find (s_safe_eq_check eq) k ps of None \<Rightarrow> []
       | Some p \<Rightarrow> (if dk then [DestroyKey k0] else []) @ (if dv then [DestroyValue (snd p)] else [])), t')"
    "lht_rep eq dk dv t' (kv_drop (s_safe_eq_check eq) k ps)"
    by (rule rep_remove [OF m(4)])
  ultimately show thesis using m d
    by (intro that [of _ "c\<lparr>ca_table := t'\<rparr>"]) (simp_all add: aws_cache_base_default_remove_def cache_rep_def)
qed

lemma cache_clear_law:
  assumes c: "cache_rep vt max_items eq dk dv c ps"
  obtains calls c' where "aws_cache_clear c = Inr (calls, c')" "cache_rep vt max_items eq dk dv c' []"
    "mset calls = (if dk then image_mset DestroyKey (tbl_keys (ca_table c)) else {#}) + (if dv then mset (map (DestroyValue \<circ> snd) ps) else {#})"
proof -
  have m: "ca_vtable c = vt" "unat (ca_max_items c) = max_items" "0 < max_items" "lht_rep eq dk dv (ca_table c) ps"
    using c by (auto simp: cache_rep_def)
  have d: "aws_cache_clear c = aws_cache_base_default_clear c" by (cases "ca_vtable c") (simp_all add: aws_cache_clear_def)
  obtain us t' where u: "aws_linked_hash_table_clear (ca_table c) = Inr (us, t')" "lht_rep eq dk dv t' []"
    "mset us = (if dk then image_mset DestroyKey (tbl_keys (ca_table c)) else {#}) + (if dv then mset (map (DestroyValue \<circ> snd) ps) else {#})"
    by (rule rep_clear [OF m(4)])
  then show thesis using m d by (intro that [of us "c\<lparr>ca_table := t'\<rparr>"]) (simp_all add: aws_cache_base_default_clear_def cache_rep_def)
qed

lemma cache_count_law:
  assumes "cache_rep vt max_items eq dk dv c ps"
  shows "\<exists>n. aws_cache_get_element_count c = Inr n \<and> unat n = length ps"
  using rep_count assms
  by (cases "ca_vtable c") (auto simp: cache_rep_def aws_cache_get_element_count_def aws_cache_base_default_get_element_count_def)

section \<open>Sequences of operations\<close>

locale simulation =
  fixes rep :: "'s \<Rightarrow> 'a \<Rightarrow> bool"
    and step :: "'s \<Rightarrow> 'op \<Rightarrow> 'r \<times> 's"
    and ok :: "'a \<Rightarrow> 'op \<Rightarrow> 'r \<Rightarrow> 'a \<Rightarrow> bool"
  assumes step_ok: "rep s a \<Longrightarrow> step s x = (r, s') \<Longrightarrow> \<exists>b. ok a x r b \<and> rep s' b"
begin

lemma run_ok: "rep s a \<Longrightarrow> run_ops step s xs = (rs, s') \<Longrightarrow> \<exists>b. allowed_run ok a xs rs b \<and> rep s' b"
proof (induction xs arbitrary: s a rs)
  case (Cons x xs)
  obtain r s1 where 1: "step s x = (r, s1)" by fastforce
  obtain rs1 s2 where 2: "run_ops step s1 xs = (rs1, s2)" by fastforce
  obtain b where b: "ok a x r b" "rep s1 b" using step_ok [OF Cons.prems(1) 1] by blast
  have "rs = r # rs1" "s2 = s'" using Cons.prems(2) 1 2 by auto
  then show ?case using Cons.IH [OF b(2), of rs1] 2 b(1) by auto
qed simp

end

lemma rep_move_front:
  assumes "lht_rep eq dk dv t (p # ps)"
  obtains a n t' where "aws_linked_list_front (lt_heap t) (lt_list t) = Inr (Some a)"
    "aws_linked_hash_table_move_node_to_end_of_list t a = Inr t'" "lt_nodes t' a = Some n" "ln_value n = snd p"
    "lht_rep eq dk dv t' (ps @ [p])"
proof (rule lht_repE [OF assms])
  fix st xs
  assume r: "lht_inv t st xs" "ht_equals_fn st = eq" "ht_destroy_key_fn st = dk" "lt_user_on_value_destroy t = dv"
    "p # ps = map (node_kv t) xs"
  obtain a ys where a: "xs = a # ys" "p = node_kv t a" "ps = map (node_kv t) ys" using r(5) by (cases xs) auto
  note i = lht_invD [OF r(1)]
  have n: "nodes_ok t ([] @ a # ys)" using i(4) a(1) by simp
  obtain nd where nd: "lt_nodes t a = Some nd" using nodes_okD(5) [OF n, of a] by auto
  obtain h where h: "aws_linked_hash_table_move_node_to_end_of_list t a = Inr (t\<lparr>lt_heap := h\<rparr>)"
    "nodes_ok (t\<lparr>lt_heap := h\<rparr>) ([] @ ys @ [a])"
    by (rule move_node_ok [OF n])
  have nk: "node_kv (t\<lparr>lt_heap := h\<rparr>) = node_kv t" by (rule node_kv_cong) simp
  have "lht_inv (t\<lparr>lt_heap := h\<rparr>) st (ys @ [a])"
    using r(1) h(2) a(1) by (simp add: lht_inv_def elements_ok_def nk)
  then have "lht_rep eq dk dv (t\<lparr>lt_heap := h\<rparr>) (ps @ [p])"
    by (rule lht_repI [where st' = st]) (use r a in \<open>simp_all add: same_fns_def nk\<close>)
  moreover have "aws_linked_list_front (lt_heap t) (lt_list t) = Inr (Some a)"
    by (rule ll_front_ok) (use nodes_okD(1) [OF n] in simp)
  ultimately show thesis using that [of a "t\<lparr>lt_heap := h\<rparr>" nd] h(1) nd a(2) by (simp add: node_kv_def)
qed

lemma rep_empty:
  assumes "lht_rep eq dk dv t ps"
  shows "aws_linked_list_empty (lt_heap t) (lt_list t) = Inr (ps = [])"
proof (rule rep_nodes [OF assms])
  fix xs
  assume "is_list (lt_heap t) (lt_list t) xs" "ps = map (node_kv t) xs"
  then show ?thesis using ll_empty_ok by auto
qed

lemma use_lru_law:
  assumes c: "cache_rep vt max_items eq dk dv c ps"
  shows "\<exists>qs. cache_allows vt max_items E ps Cache_use_lru (fst (cache_step c Cache_use_lru)) qs \<and>
    cache_rep vt max_items eq dk dv (snd (cache_step c Cache_use_lru)) qs"
proof (cases "vt = S_lru_cache_vtable")
  case True
  have m: "ca_vtable c = S_lru_cache_vtable" "lht_rep eq dk dv (ca_table c) ps" using c True by (auto simp: cache_rep_def)
  note e = rep_empty [OF m(2)]
  show ?thesis
  proof (cases ps)
    case Nil
    then have "aws_lru_cache_use_lru_element c = Inr (None, c)" using m e
      by (simp add: aws_lru_cache_use_lru_element_def s_lru_cache_use_lru_element_def aws_linked_hash_table_get_iteration_list_def)
    then show ?thesis using Nil True c by simp
  next
    case (Cons p rs)
    have r: "lht_rep eq dk dv (ca_table c) (p # rs)" using m(2) Cons by simp
    obtain a t' n where a: "aws_linked_list_front (lt_heap (ca_table c)) (lt_list (ca_table c)) = Inr (Some a)"
      "aws_linked_hash_table_move_node_to_end_of_list (ca_table c) a = Inr t'" "lt_nodes t' a = Some n" "ln_value n = snd p"
      "lht_rep eq dk dv t' (rs @ [p])"
      by (rule rep_move_front [OF r])
    then have "aws_lru_cache_use_lru_element c = Inr (snd p, c\<lparr>ca_table := t'\<rparr>)" using m e Cons
      by (simp add: aws_lru_cache_use_lru_element_def s_lru_cache_use_lru_element_def aws_linked_hash_table_get_iteration_list_def)
    then show ?thesis using Cons True c a(5) by (simp add: cache_rep_def)
  qed
next
  case False
  then show ?thesis using c by (simp add: cache_rep_def aws_lru_cache_use_lru_element_def)
qed

lemma get_mru_law:
  assumes c: "cache_rep vt max_items eq dk dv c ps"
  shows "cache_allows vt max_items E ps Cache_get_mru (fst (cache_step c Cache_get_mru)) ps"
proof (cases "vt = S_lru_cache_vtable")
  case True
  have m: "ca_vtable c = S_lru_cache_vtable" "lht_rep eq dk dv (ca_table c) ps" using c True by (auto simp: cache_rep_def)
  note e = rep_empty [OF m(2)]
  show ?thesis
  proof (cases ps rule: rev_cases)
    case Nil
    then show ?thesis using m e True
      by (simp add: aws_lru_cache_get_mru_element_def s_lru_cache_get_mru_element_def aws_linked_hash_table_get_iteration_list_def)
  next
    case (snoc rs p)
    have r: "lht_rep eq dk dv (ca_table c) (rs @ [p])" using m(2) snoc by simp
    obtain a n where "aws_linked_list_back (lt_heap (ca_table c)) (lt_list (ca_table c)) = Inr (Some a)"
      "lt_nodes (ca_table c) a = Some n" "p = (ln_key n, ln_value n)"
      by (rule rep_back [OF r])
    then show ?thesis using m e True snoc
      by (simp add: aws_lru_cache_get_mru_element_def s_lru_cache_get_mru_element_def aws_linked_hash_table_get_iteration_list_def)
  qed
next
  case False
  then show ?thesis using c by (simp add: cache_rep_def aws_lru_cache_get_mru_element_def)
qed

lemma cache_step_ok:
  assumes c: "cache_rep vt max_items eq dk dv c ps" and s: "cache_step c x = (r, c')"
  shows "\<exists>qs. cache_allows vt max_items (s_safe_eq_check eq) ps x r qs \<and> cache_rep vt max_items eq dk dv c' qs"
proof (cases x)
  case (Cache_put k v)
  show ?thesis by (rule cache_put_law [OF c, of k v]) (use s Cache_put in auto)
next
  case (Cache_find k)
  show ?thesis by (rule cache_find_law [OF c, of k]) (use s Cache_find in auto)
next
  case (Cache_remove k)
  show ?thesis by (rule cache_remove_law [OF c, of k]) (use s Cache_remove in auto)
next
  case Cache_clear
  show ?thesis by (rule cache_clear_law [OF c]) (use s Cache_clear in auto)
next
  case Cache_use_lru
  with s have u: "cache_step c Cache_use_lru = (r, c')" by (simp only:)
  show ?thesis using use_lru_law [OF c, of "s_safe_eq_check eq"] unfolding u Cache_use_lru fst_conv snd_conv .
next
  case Cache_get_mru
  then show ?thesis using get_mru_law [OF c, of "s_safe_eq_check eq"] s c by auto
qed

interpretation lru: simulation "cache_rep S_lru_cache_vtable max_items eq dk dv" cache_step
    "cache_allows S_lru_cache_vtable max_items (s_safe_eq_check eq)" for max_items eq dk dv
  by unfold_locales (rule cache_step_ok)

interpretation fifo: simulation "cache_rep S_fifo_cache_vtable max_items eq dk dv" cache_step
    "cache_allows S_fifo_cache_vtable max_items (s_safe_eq_check eq)" for max_items eq dk dv
  by unfold_locales (rule cache_step_ok)

interpretation lifo: simulation "cache_rep S_lifo_cache_vtable max_items eq dk dv" cache_step
    "cache_allows S_lifo_cache_vtable max_items (s_safe_eq_check eq)" for max_items eq dk dv
  by unfold_locales (rule cache_step_ok)

lemma cache_run_ok:
  assumes "cache_rep vt max_items eq dk dv c ps" "run_ops cache_step c xs = (rs, c')"
  shows "\<exists>qs. allowed_run (cache_allows vt max_items (s_safe_eq_check eq)) ps xs rs qs \<and> cache_rep vt max_items eq dk dv c' qs"
  using assms lru.run_ok [of max_items eq dk dv c ps] fifo.run_ok [of max_items eq dk dv c ps] lifo.run_ok [of max_items eq dk dv c ps]
  by (cases vt) auto

lemma cache_new_ok:
  fixes hash_fn :: "'k \<Rightarrow> u64"
  assumes "hashing_ok hash_fn eq" "0 < unat n" "unat n \<le> 2 ^ 59" "ends_ok h l a"
  obtains c :: "('k, 'v) aws_cache" where "cache_new vt h l a alloc hash_fn eq dk dv n = Inr c" "cache_rep vt (unat n) eq dk dv c []"
proof -
  obtain t :: "('k, 'v) linked_hash_table" where t: "aws_linked_hash_table_init h l a alloc hash_fn eq dk dv n = Inr t" "lht_rep eq dk dv t []"
    by (rule rep_init [OF assms(1,3), of h l a alloc dk dv]) (use assms(4) in \<open>auto simp: ends_ok_def\<close>)
  then show thesis using assms(2)
    by (intro that [of "\<lparr>ca_vtable = vt, ca_table = t, ca_max_items = n\<rparr>"]; cases vt)
      (simp_all add: aws_cache_new_lru_def aws_cache_new_fifo_def aws_cache_new_lifo_def cache_rep_def)
qed

text \<open>
  (C2) A new cache of any of the three policies, under every sequence of puts, finds, removals, clears and, for the
  LRU cache, uses of its least recently used and looks at its most recently used element: every result and the
  order of the elements are those of the policy on a list of pairs.  A put appends the pair and, when that makes
  more than \<open>max_items\<close>, evicts the first pair of the LRU and FIFO cache and the pair before the last of the LIFO
  cache; a find of the LRU cache moves the pair to the end.  The only error is the overflow of the hash table's
  growth, which changes nothing.  The cache never holds more than \<open>max_items\<close> elements and reports their number.
\<close>

theorem caches_follow_policy:
  fixes hash_fn :: "'k \<Rightarrow> u64"
  assumes "hashing_ok hash_fn eq" "0 < unat max_items" "unat max_items \<le> 2 ^ 59" "ends_ok h l a"
    and "cache_new vt h l a alloc hash_fn eq dk dv max_items = Inr (c :: ('k, 'v) aws_cache)"
    and "run_ops cache_step c ops = (results, c')"
  shows "\<exists>ps n. allowed_run (cache_allows vt (unat max_items) (s_safe_eq_check eq)) [] ops results ps \<and>
    length ps \<le> unat max_items \<and> aws_cache_get_element_count c' = Inr n \<and> unat n = length ps"
proof -
  have "cache_rep vt (unat max_items) eq dk dv c []"
    using cache_new_ok [OF assms(1-4), of vt alloc dk dv] assms(5) by (metis sum.inject(2))
  then obtain ps where ps: "allowed_run (cache_allows vt (unat max_items) (s_safe_eq_check eq)) [] ops results ps"
    "cache_rep vt (unat max_items) eq dk dv c' ps"
    using cache_run_ok assms(6) by blast
  then show ?thesis using cache_count_law [OF ps(2)] by (auto simp: cache_rep_def)
qed

lemma demo_results_eq:
  "demo_results S_fifo_cache_vtable = [Inr None, Inr None, Inr (Some 10), Inr None, Inr None, Inr (Some 20), Inr (Some 30)]"
  by code_simp

theorem caches_follow_policy_witness:
  "\<exists>n c'. run_ops cache_step (projr (demo_cache S_fifo_cache_vtable)) demo_ops =
       ([Inr None, Inr None, Inr (Some 10), Inr None, Inr None, Inr (Some 20), Inr (Some 30)], c') \<and>
     aws_cache_get_element_count c' = Inr n \<and> unat n \<le> 2"
proof -
  have h: "hashing_ok (\<lambda>k :: u64. k) (=)" by (simp add: hashing_ok_def)
  have e: "ends_ok demo_ends \<lparr>ll_head = 0, ll_tail = 1\<rparr> 2" by (auto simp: ends_ok_def demo_ends_def live_def split: if_splits)
  obtain c where c: "demo_cache S_fifo_cache_vtable = Inr c" unfolding demo_cache_def
    by (rule cache_new_ok [OF h _ _ e, of 2 S_fifo_cache_vtable 0 False False]) auto
  obtain rs c' where r: "run_ops cache_step c demo_ops = (rs, c')" by fastforce
  have "rs = [Inr None, Inr None, Inr (Some 10), Inr None, Inr None, Inr (Some 20), Inr (Some 30)]"
    using demo_results_eq c r by (simp add: demo_results_def)
  then show ?thesis
    using caches_follow_policy [OF h _ _ e c [unfolded demo_cache_def] r] r c by auto
qed

end
