(* ===== verification/Task_Scheduler.thy ===== *)
theory Task_Scheduler
  imports Priority_Queue Linked_List
begin

text \<open>
  The task scheduler of \<open>source/task_scheduler.c\<close>: the composition of a priority queue of timed tasks and of two
  intrusive lists, one of the tasks to run as soon as possible and one of the timed tasks that the queue had no room for.

  A task is named by its address, which also names its embedded list node and its embedded priority queue node, so
  that \<open>AWS_CONTAINER_OF\<close> is the identity.  The record \<open>task_scheduler\<close> is the scheduler together with the memory it
  works on: \<open>ts_tasks\<close> holds the other members of the tasks, \<open>ts_heap\<close> the list nodes, and \<open>pq_nodes\<close> of the queue
  the queue nodes.  The comparison function of the queue reads the time stamps that the tasks have when it is called.

  The functions of the tasks belong to the user: \<open>code\<close> says what a call of the function at an address does to the
  scheduler and its memory.  \<open>ts_calls\<close> records the calls made so far with their status.  Debug log messages are left
  out.  The loops take fuel; running out of it is \<open>Inl Diverged\<close>.
\<close>

section \<open>State\<close>

datatype aws_task_status = AWS_TASK_STATUS_RUN_READY | AWS_TASK_STATUS_CANCELED

record aws_task =
  tk_fn :: "nat option"
  tk_arg :: "nat option"
  tk_timestamp :: u64
  tk_type_tag :: "string option"
  tk_scheduled :: bool

record task_scheduler =
  ts_alloc :: "nat option"
  ts_timed_queue :: "nat priority_queue"
  ts_timed_list :: "nat linked_list"
  ts_asap_list :: "nat linked_list"
  ts_heap :: "nat ll_heap"
  ts_tasks :: "nat \<Rightarrow> aws_task option"
  ts_calls :: "(nat \<times> aws_task_status) list"

type_synonym task_code = "nat \<Rightarrow> nat \<Rightarrow> nat option \<Rightarrow> aws_task_status \<Rightarrow> task_scheduler \<Rightarrow> task_scheduler res"

definition DEFAULT_QUEUE_SIZE :: size_t where
  "DEFAULT_QUEUE_SIZE = 7"

section \<open>Tasks\<close>

definition aws_task_init ::
  "task_scheduler \<Rightarrow> nat \<Rightarrow> nat option \<Rightarrow> nat option \<Rightarrow> string option \<Rightarrow> task_scheduler" where
  "aws_task_init s task fn arg type_tag =
     s\<lparr>ts_tasks := (ts_tasks s)(task \<mapsto>
         \<lparr>tk_fn = fn, tk_arg = arg, tk_timestamp = 0, tk_type_tag = type_tag, tk_scheduled = False\<rparr>),
       ts_heap := (ts_heap s)(task \<mapsto> \<lparr>n_next = None, n_prev = None\<rparr>),
       ts_timed_queue := (ts_timed_queue s)\<lparr>pq_nodes := (pq_nodes (ts_timed_queue s))(task := 0)\<rparr>\<rparr>"

definition aws_task_status_to_c_str :: "aws_task_status \<Rightarrow> string" where
  "aws_task_status_to_c_str status =
     (case status of
        AWS_TASK_STATUS_RUN_READY \<Rightarrow> ''<Running>''
      | AWS_TASK_STATUS_CANCELED \<Rightarrow> ''<Canceled>'')"

definition load_task :: "task_scheduler \<Rightarrow> nat option \<Rightarrow> aws_task res" where
  "load_task s p =
     (case p of
        None \<Rightarrow> Inl Undefined
      | Some a \<Rightarrow> (case ts_tasks s a of None \<Rightarrow> Inl Undefined | Some t \<Rightarrow> Inr t))"

definition aws_task_run :: "task_code \<Rightarrow> task_scheduler \<Rightarrow> nat \<Rightarrow> aws_task_status \<Rightarrow> task_scheduler res" where
  "aws_task_run code s task status =
     bind_res (load_task s (Some task)) (\<lambda>t.
       case tk_fn t of
         None \<Rightarrow> Inl Undefined
       | Some f \<Rightarrow>
           code f task (tk_arg t) status
             (s\<lparr>ts_tasks := (ts_tasks s)(task \<mapsto> t\<lparr>tk_scheduled := False\<rparr>),
                ts_calls := ts_calls s @ [(task, status)]\<rparr>))"

definition timestamp_of :: "(nat \<Rightarrow> aws_task option) \<Rightarrow> nat \<Rightarrow> u64" where
  "timestamp_of tasks a = (case tasks a of None \<Rightarrow> 0 | Some t \<Rightarrow> tk_timestamp t)"

definition s_compare_timestamps :: "(nat \<Rightarrow> aws_task option) \<Rightarrow> nat \<Rightarrow> nat \<Rightarrow> int" where
  "s_compare_timestamps tasks a b = (if timestamp_of tasks a > timestamp_of tasks b then 1 else 0)"

text \<open>The queue with its comparison function reading the current time stamps.\<close>

definition timed_queue :: "task_scheduler \<Rightarrow> nat priority_queue" where
  "timed_queue s = (ts_timed_queue s)\<lparr>pq_pred := s_compare_timestamps (ts_tasks s)\<rparr>"

section \<open>The scheduler\<close>

definition zero_list :: "nat ll_heap \<Rightarrow> nat linked_list \<Rightarrow> nat ll_heap" where
  "zero_list h l = h(ll_head l \<mapsto> \<lparr>n_next = None, n_prev = None\<rparr>, ll_tail l \<mapsto> \<lparr>n_next = None, n_prev = None\<rparr>)"

definition aws_task_scheduler_init :: "task_scheduler \<Rightarrow> nat \<Rightarrow> unit res \<times> task_scheduler" where
  "aws_task_scheduler_init s alloc =
     (let s = s\<lparr>ts_alloc := None, ts_heap := zero_list (zero_list (ts_heap s) (ts_timed_list s)) (ts_asap_list s)\<rparr>;
          nodes = pq_nodes (ts_timed_queue s)
      in case aws_priority_queue_init_dynamic nodes (Some alloc) DEFAULT_QUEUE_SIZE 8 (s_compare_timestamps (ts_tasks s)) of
           (Inl e, q) \<Rightarrow> (Inl e, s\<lparr>ts_timed_queue := q\<rparr>)
         | (Inr _, q) \<Rightarrow>
             let s = s\<lparr>ts_timed_queue := q, ts_alloc := Some alloc\<rparr>
             in case bind_res (aws_linked_list_init (ts_heap s) (ts_timed_list s))
                       (\<lambda>h. aws_linked_list_init h (ts_asap_list s)) of
                  Inl e \<Rightarrow> (Inl e, s)
                | Inr h \<Rightarrow> (AWS_OP_SUCCESS, s\<lparr>ts_heap := h\<rparr>))"

definition aws_task_scheduler_is_valid :: "task_scheduler \<Rightarrow> bool res" where
  "aws_task_scheduler_is_valid s =
     (if ts_alloc s = None \<or> \<not> aws_priority_queue_is_valid (timed_queue s) then Inr False
      else bind_res (aws_linked_list_is_valid (ts_heap s) (Some (ts_asap_list s))) (\<lambda>ok.
             if \<not> ok then Inr False else aws_linked_list_is_valid (ts_heap s) (Some (ts_timed_list s))))"

text \<open>The task that \<open>aws_priority_queue_top\<close> points to, \<open>None\<close> when the call does not succeed.\<close>

definition timed_queue_top :: "task_scheduler \<Rightarrow> nat option res" where
  "timed_queue_top s =
     (case aws_priority_queue_top (timed_queue s) of
        Inl (Raised e) \<Rightarrow> Inr None
      | Inl e \<Rightarrow> Inl e
      | Inr i \<Rightarrow>
          (case mem_load (al_data (pq_container (timed_queue s))) i of
             Inl e \<Rightarrow> Inl e
           | Inr (Item task) \<Rightarrow> Inr (Some task)
           | Inr _ \<Rightarrow> Inl Undefined))"

definition aws_task_scheduler_has_tasks :: "task_scheduler \<Rightarrow> (bool \<times> u64) res" where
  "aws_task_scheduler_has_tasks s =
     bind_res (aws_linked_list_empty (ts_heap s) (ts_asap_list s)) (\<lambda>asap_empty.
       if \<not> asap_empty then Inr (True, 0)
       else
         bind_res (aws_linked_list_empty (ts_heap s) (ts_timed_list s)) (\<lambda>timed_empty.
         bind_res (if \<not> timed_empty then
                     bind_res (aws_linked_list_front (ts_heap s) (ts_timed_list s)) (\<lambda>node.
                     bind_res (load_task s node) (\<lambda>task. Inr (True, tk_timestamp task)))
                   else Inr (False, UINT64_MAX)) (\<lambda>(has_tasks, timestamp).
         bind_res (timed_queue_top s) (\<lambda>top.
           case top of
             None \<Rightarrow> Inr (has_tasks, timestamp)
           | Some a \<Rightarrow>
               bind_res (load_task s (Some a)) (\<lambda>task.
                 Inr (True, if tk_timestamp task < timestamp then tk_timestamp task else timestamp))))))"

text \<open>The assignments to members of the task that both scheduling functions make before they enqueue it.\<close>

definition reset_task :: "task_scheduler \<Rightarrow> nat \<Rightarrow> u64 \<Rightarrow> task_scheduler res" where
  "reset_task s task timestamp =
     bind_res (load_task s (Some task)) (\<lambda>t.
     bind_res (aws_linked_list_node_reset (ts_heap s) (Some task)) (\<lambda>h.
       Inr (s\<lparr>ts_tasks := (ts_tasks s)(task \<mapsto> t\<lparr>tk_timestamp := timestamp\<rparr>), ts_heap := h,
              ts_timed_queue := (ts_timed_queue s)\<lparr>pq_nodes := (pq_nodes (ts_timed_queue s))(task := SIZE_MAX)\<rparr>\<rparr>)))"

definition set_scheduled :: "task_scheduler \<Rightarrow> nat \<Rightarrow> task_scheduler res" where
  "set_scheduled s task =
     bind_res (load_task s (Some task)) (\<lambda>t.
       Inr (s\<lparr>ts_tasks := (ts_tasks s)(task \<mapsto> t\<lparr>tk_scheduled := True\<rparr>)\<rparr>))"

definition aws_task_scheduler_schedule_now :: "task_scheduler \<Rightarrow> nat \<Rightarrow> task_scheduler res" where
  "aws_task_scheduler_schedule_now s task =
     bind_res (reset_task s task 0) (\<lambda>s.
     bind_res (aws_linked_list_push_back (ts_heap s) (ts_asap_list s) (Some task)) (\<lambda>h.
       set_scheduled (s\<lparr>ts_heap := h\<rparr>) task))"

fun timed_list_position :: "nat \<Rightarrow> task_scheduler \<Rightarrow> nat option \<Rightarrow> u64 \<Rightarrow> nat option res" where
  "timed_list_position 0 s node_i time_to_run = Inl Diverged"
| "timed_list_position (Suc fuel) s node_i time_to_run =
     (if node_i = aws_linked_list_end (ts_timed_list s) then Inr node_i
      else bind_res (load_task s node_i) (\<lambda>task_i.
             if tk_timestamp task_i > time_to_run then Inr node_i
             else bind_res (aws_linked_list_next (ts_heap s) node_i) (\<lambda>node_i.
                    timed_list_position fuel s node_i time_to_run)))"

definition aws_task_scheduler_schedule_future :: "nat \<Rightarrow> task_scheduler \<Rightarrow> nat \<Rightarrow> u64 \<Rightarrow> task_scheduler res" where
  "aws_task_scheduler_schedule_future fuel s task time_to_run =
     bind_res (reset_task s task time_to_run) (\<lambda>s.
     bind_res (case aws_priority_queue_push_ref (timed_queue s) task (Some task) of
                 (Inr _, q) \<Rightarrow> Inr (s\<lparr>ts_timed_queue := q\<rparr>)
               | (Inl (Raised e), q) \<Rightarrow>
                   let s = s\<lparr>ts_timed_queue := q\<rparr> in
                   bind_res (aws_linked_list_begin (ts_heap s) (ts_timed_list s)) (\<lambda>node_i.
                   bind_res (timed_list_position fuel s node_i time_to_run) (\<lambda>node_i.
                   bind_res (aws_linked_list_insert_before (ts_heap s) node_i (Some task)) (\<lambda>h.
                     Inr (s\<lparr>ts_heap := h\<rparr>))))
               | (Inl e, q) \<Rightarrow> Inl e) (\<lambda>s.
       set_scheduled s task))"

section \<open>Running and cancelling\<close>

text \<open>Take the first task of the queue and append it to the running list.\<close>

definition take_from_timed_queue :: "task_scheduler \<Rightarrow> nat linked_list \<Rightarrow> task_scheduler res" where
  "take_from_timed_queue s running_list =
     (case aws_priority_queue_pop (timed_queue s) of
        (Inr (Item task), q) \<Rightarrow>
          bind_res (aws_linked_list_push_back (ts_heap s) running_list (Some task)) (\<lambda>h.
            Inr (s\<lparr>ts_timed_queue := q, ts_heap := h\<rparr>))
      | _ \<Rightarrow> Inl Undefined)"

fun move_timed_loop :: "nat \<Rightarrow> task_scheduler \<Rightarrow> nat linked_list \<Rightarrow> u64 \<Rightarrow> task_scheduler res" where
  "move_timed_loop 0 s running_list current_time = Inl Diverged"
| "move_timed_loop (Suc fuel) s running_list current_time =
     bind_res (aws_linked_list_empty (ts_heap s) (ts_timed_list s)) (\<lambda>timed_empty.
       if timed_empty then Inr s
       else
         bind_res (aws_linked_list_begin (ts_heap s) (ts_timed_list s)) (\<lambda>timed_list_node.
         bind_res (load_task s timed_list_node) (\<lambda>timed_list_task.
           if tk_timestamp timed_list_task > current_time then Inr s
           else
             bind_res (timed_queue_top s) (\<lambda>top.
             bind_res (case top of
                         None \<Rightarrow> Inr False
                       | Some a \<Rightarrow>
                           bind_res (load_task s (Some a)) (\<lambda>timed_queue_task.
                             Inr (tk_timestamp timed_queue_task \<le> current_time \<and>
                                  tk_timestamp timed_queue_task < tk_timestamp timed_list_task))) (\<lambda>queue_is_sooner.
             bind_res (if queue_is_sooner then take_from_timed_queue s running_list
                       else
                         bind_res (aws_linked_list_pop_front (ts_heap s) (ts_timed_list s)) (\<lambda>(_, h).
                         bind_res (aws_linked_list_push_back h running_list timed_list_node) (\<lambda>h.
                           Inr (s\<lparr>ts_heap := h\<rparr>)))) (\<lambda>s.
               move_timed_loop fuel s running_list current_time))))))"

fun move_queue_loop :: "nat \<Rightarrow> task_scheduler \<Rightarrow> nat linked_list \<Rightarrow> u64 \<Rightarrow> task_scheduler res" where
  "move_queue_loop 0 s running_list current_time = Inl Diverged"
| "move_queue_loop (Suc fuel) s running_list current_time =
     bind_res (timed_queue_top s) (\<lambda>top.
       case top of
         None \<Rightarrow> Inr s
       | Some a \<Rightarrow>
           bind_res (load_task s (Some a)) (\<lambda>task.
             if tk_timestamp task > current_time then Inr s
             else bind_res (take_from_timed_queue s running_list) (\<lambda>s.
                    move_queue_loop fuel s running_list current_time)))"

fun run_tasks_loop ::
  "nat \<Rightarrow> task_code \<Rightarrow> task_scheduler \<Rightarrow> nat linked_list \<Rightarrow> aws_task_status \<Rightarrow> task_scheduler res" where
  "run_tasks_loop 0 code s running_list status = Inl Diverged"
| "run_tasks_loop (Suc fuel) code s running_list status =
     bind_res (aws_linked_list_empty (ts_heap s) running_list) (\<lambda>is_empty.
       if is_empty then Inr s
       else
         bind_res (aws_linked_list_pop_front (ts_heap s) running_list) (\<lambda>(task_node, h).
           case task_node of
             None \<Rightarrow> Inl Undefined
           | Some task \<Rightarrow>
               bind_res (aws_task_run code (s\<lparr>ts_heap := h\<rparr>) task status) (\<lambda>s.
                 run_tasks_loop fuel code s running_list status)))"

text \<open>
  The local variable \<open>running_list\<close> is a list whose end members are at addresses of the stack: they are allocated
  on entry and released on return.
\<close>

definition s_run_all ::
  "nat \<Rightarrow> task_code \<Rightarrow> nat linked_list \<Rightarrow> task_scheduler \<Rightarrow> u64 \<Rightarrow> aws_task_status \<Rightarrow> task_scheduler res" where
  "s_run_all fuel code running_list s current_time status =
     bind_res (aws_linked_list_init (zero_list (ts_heap s) running_list) running_list) (\<lambda>h.
     bind_res (aws_linked_list_swap_contents h running_list (ts_asap_list s)) (\<lambda>h.
     bind_res (move_timed_loop fuel (s\<lparr>ts_heap := h\<rparr>) running_list current_time) (\<lambda>s.
     bind_res (move_queue_loop fuel s running_list current_time) (\<lambda>s.
     bind_res (run_tasks_loop fuel code s running_list status) (\<lambda>s.
       Inr (s\<lparr>ts_heap := (ts_heap s)(ll_head running_list := None, ll_tail running_list := None)\<rparr>))))))"

definition aws_task_scheduler_run_all ::
  "nat \<Rightarrow> task_code \<Rightarrow> nat linked_list \<Rightarrow> task_scheduler \<Rightarrow> u64 \<Rightarrow> task_scheduler res" where
  "aws_task_scheduler_run_all fuel code running_list s current_time =
     s_run_all fuel code running_list s current_time AWS_TASK_STATUS_RUN_READY"

definition aws_task_scheduler_cancel_task :: "task_code \<Rightarrow> task_scheduler \<Rightarrow> nat \<Rightarrow> task_scheduler res" where
  "aws_task_scheduler_cancel_task code s task =
     bind_res (load_task s (Some task)) (\<lambda>t.
     bind_res (load_next (ts_heap s) (Some task)) (\<lambda>next_node.
     bind_res (if next_node \<noteq> None then
                 bind_res (aws_linked_list_remove (ts_heap s) (Some task)) (\<lambda>h. Inr (s\<lparr>ts_heap := h\<rparr>))
               else if tk_scheduled t then
                 (case aws_priority_queue_remove (timed_queue s) task of
                    (Inr _, q) \<Rightarrow> Inr (s\<lparr>ts_timed_queue := q\<rparr>)
                  | (Inl (Raised e), q) \<Rightarrow> Inr (s\<lparr>ts_timed_queue := q\<rparr>)
                  | (Inl e, q) \<Rightarrow> Inl e)
               else Inr s) (\<lambda>s.
       aws_task_run code s task AWS_TASK_STATUS_CANCELED)))"

fun clean_up_loop :: "nat \<Rightarrow> nat \<Rightarrow> task_code \<Rightarrow> nat linked_list \<Rightarrow> task_scheduler \<Rightarrow> task_scheduler res" where
  "clean_up_loop 0 fuel code running_list s = Inl Diverged"
| "clean_up_loop (Suc rounds) fuel code running_list s =
     bind_res (aws_task_scheduler_has_tasks s) (\<lambda>(has_tasks, _).
       if has_tasks then
         bind_res (s_run_all fuel code running_list s UINT64_MAX AWS_TASK_STATUS_CANCELED) (\<lambda>s.
           clean_up_loop rounds fuel code running_list s)
       else Inr s)"

definition aws_task_scheduler_clean_up ::
  "nat \<Rightarrow> nat \<Rightarrow> task_code \<Rightarrow> nat linked_list \<Rightarrow> task_scheduler \<Rightarrow> task_scheduler res" where
  "aws_task_scheduler_clean_up rounds fuel code running_list s =
     bind_res (aws_task_scheduler_is_valid s) (\<lambda>valid.
     bind_res (if valid then clean_up_loop rounds fuel code running_list s else Inr s) (\<lambda>s.
       Inr (s\<lparr>ts_alloc := None,
              ts_timed_queue := (aws_priority_queue_clean_up (ts_timed_queue s))
                \<lparr>pq_container := al_zero, pq_backpointers := al_zero\<rparr>,
              ts_heap := zero_list (zero_list (ts_heap s) (ts_timed_list s)) (ts_asap_list s)\<rparr>)))"

section \<open>Abstraction and invariant\<close>

definition queue_kind :: "'a priority_queue \<Rightarrow> nat option \<times> size_t" where
  "queue_kind q = (al_alloc (pq_container q), al_item_size (pq_container q))"

abbreviation task_time :: "task_scheduler \<Rightarrow> nat \<Rightarrow> u64" where
  "task_time s \<equiv> timestamp_of (ts_tasks s)"

text \<open>The queue is in order and holds the tasks \<open>Q\<close>, each with its own node.\<close>

definition queue_holds :: "task_scheduler \<Rightarrow> nat set \<Rightarrow> bool" where
  "queue_holds s Q \<longleftrightarrow> finite Q \<and> pq_ok (timed_queue s) \<and> fst (queue_kind (ts_timed_queue s)) \<noteq> None \<and>
     snd (queue_kind (ts_timed_queue s)) = 8 \<and>
     mset (pq_entries (timed_queue s)) = image_mset (\<lambda>t. (t, Some t)) (mset_set Q)"

definition runnable :: "task_scheduler \<Rightarrow> nat \<Rightarrow> bool" where
  "runnable s t \<longleftrightarrow> live (ts_heap s) t \<and> (\<exists>k. ts_tasks s t = Some k \<and> tk_fn k \<noteq> None)"

definition sched_area :: "task_scheduler \<Rightarrow> nat list \<Rightarrow> nat list \<Rightarrow> nat set \<Rightarrow> nat set" where
  "sched_area s A L Q = set (all_nodes (ts_asap_list s) A) \<union> set (all_nodes (ts_timed_list s) L) \<union> Q"

text \<open>
  The scheduler holds the tasks \<open>A\<close> to run as soon as possible, in this order, and the timed tasks \<open>L\<close> in the
  list, sorted, and \<open>Q\<close> in the queue.
\<close>

definition sched_rep :: "task_scheduler \<Rightarrow> nat list \<Rightarrow> nat list \<Rightarrow> nat set \<Rightarrow> bool" where
  "sched_rep s A L Q \<longleftrightarrow> ts_alloc s \<noteq> None \<and>
     is_list (ts_heap s) (ts_asap_list s) A \<and> is_list (ts_heap s) (ts_timed_list s) L \<and> queue_holds s Q \<and>
     set (all_nodes (ts_asap_list s) A) \<inter> set (all_nodes (ts_timed_list s) L) = {} \<and>
     Q \<inter> (set (all_nodes (ts_asap_list s) A) \<union> set (all_nodes (ts_timed_list s) L)) = {} \<and>
     (\<forall>t \<in> Q. nx (ts_heap s) t = None) \<and>
     (\<forall>t \<in> set A \<union> set L \<union> Q. runnable s t \<and> (\<exists>k. ts_tasks s t = Some k \<and> tk_scheduled k)) \<and>
     sorted_wrt (\<lambda>a b. task_time s a \<le> task_time s b) L"

text \<open>What the operations on the queue and the lists leave alone.\<close>

definition kept :: "task_scheduler \<Rightarrow> task_scheduler \<Rightarrow> bool" where
  "kept s s' \<longleftrightarrow> ts_tasks s' = ts_tasks s \<and> ts_calls s' = ts_calls s \<and> ts_alloc s' = ts_alloc s \<and>
     ts_asap_list s' = ts_asap_list s \<and> ts_timed_list s' = ts_timed_list s \<and> (\<forall>a. live (ts_heap s') a = live (ts_heap s) a)"

text \<open>The scheduler in the middle of \<open>s_run_all\<close>, with the tasks \<open>R\<close> in the running list.\<close>

definition moving :: "nat linked_list \<Rightarrow> task_scheduler \<Rightarrow> nat list \<Rightarrow> nat list \<Rightarrow> nat list \<Rightarrow> nat set \<Rightarrow> bool" where
  "moving run s R A L Q \<longleftrightarrow> sched_rep s A L Q \<and> is_list (ts_heap s) run R \<and>
     set (all_nodes run R) \<inter> sched_area s A L Q = {} \<and> (\<forall>t \<in> set R. runnable s t)"

text \<open>
  The tasks \<open>D\<close> are taken from \<open>S\<close> in the order of their times, none after \<open>now\<close>, and leave \<open>S'\<close> with none before them.
\<close>

definition taken_in_order :: "(nat \<Rightarrow> u64) \<Rightarrow> u64 \<Rightarrow> nat set \<Rightarrow> nat list \<Rightarrow> nat set \<Rightarrow> bool" where
  "taken_in_order tm now S D S' \<longleftrightarrow> sorted_wrt (\<lambda>a b. tm a \<le> tm b) D \<and> set D \<union> S' = S \<and> (\<forall>d \<in> set D. tm d \<le> now) \<and>
     (\<forall>d \<in> set D. \<forall>t \<in> S'. tm d \<le> tm t)"

text \<open>
  What the function of a task may do: schedule tasks that are not pending, if \<open>new\<close> allows that, keeping those that
  are.
\<close>

definition grown ::
  "bool \<Rightarrow> task_scheduler \<Rightarrow> nat list \<Rightarrow> nat list \<Rightarrow> nat set \<Rightarrow>
     task_scheduler \<Rightarrow> nat list \<Rightarrow> nat list \<Rightarrow> nat set \<Rightarrow> bool" where
  "grown new s A L Q s' A' L' Q' \<longleftrightarrow> (\<exists>B. A' = A @ B) \<and> set L \<subseteq> set L' \<and> Q \<subseteq> Q' \<and>
     (\<not> new \<longrightarrow> A' = A \<and> L' = L \<and> Q' = Q) \<and> ts_asap_list s' = ts_asap_list s \<and> ts_timed_list s' = ts_timed_list s \<and>
     (\<forall>a. live (ts_heap s') a = live (ts_heap s) a) \<and> (\<forall>a \<in> set L \<union> Q. task_time s' a = task_time s a)"

text \<open>
  The functions of the tasks, called with the status \<open>st\<close>, return, only schedule other tasks, and leave alone the
  addresses \<open>P\<close>, which are neither the scheduler's nor the called task.
\<close>

definition may_schedule :: "bool \<Rightarrow> task_code \<Rightarrow> aws_task_status \<Rightarrow> bool" where
  "may_schedule new code st \<longleftrightarrow> (\<forall>f t arg s A L Q P.
     sched_rep s A L Q \<and> P \<inter> sched_area s A L Q = {} \<and> t \<notin> sched_area s A L Q \<union> P \<and> runnable s t \<longrightarrow>
     (\<exists>s' A' L' Q'. code f t arg st s = Inr s' \<and> sched_rep s' A' L' Q' \<and> grown new s A L Q s' A' L' Q' \<and>
        ts_calls s' = ts_calls s \<and> P \<inter> sched_area s' A' L' Q' = {} \<and>
        (\<forall>a \<in> P. ts_heap s' a = ts_heap s a \<and> ts_tasks s' a = ts_tasks s a)))"

text \<open>The memory changes only at the list nodes \<open>N\<close> and at the members of the task \<open>t\<close>.\<close>

definition only_changed :: "nat set \<Rightarrow> nat \<Rightarrow> task_scheduler \<Rightarrow> task_scheduler \<Rightarrow> bool" where
  "only_changed N t s s' \<longleftrightarrow> ts_calls s' = ts_calls s \<and> ts_alloc s' = ts_alloc s \<and> ts_asap_list s' = ts_asap_list s \<and>
     ts_timed_list s' = ts_timed_list s \<and> (\<forall>a. a \<notin> N \<longrightarrow> ts_heap s' a = ts_heap s a) \<and>
     (\<forall>a. live (ts_heap s') a = live (ts_heap s) a) \<and> (\<forall>a. a \<noteq> t \<longrightarrow> ts_tasks s' a = ts_tasks s a)"

text \<open>Task functions that schedule their task again unless they are cancelled.\<close>

definition repeat_code :: task_code where
  "repeat_code f task arg status s =
     (case status of
        AWS_TASK_STATUS_RUN_READY \<Rightarrow> aws_task_scheduler_schedule_now s task
      | AWS_TASK_STATUS_CANCELED \<Rightarrow> Inr s)"

text \<open>A scheduler with the list ends at the addresses 0 to 3 and three tasks at the addresses 10 to 12.\<close>

definition demo_memory :: task_scheduler where
  "demo_memory =
     (let s = \<lparr>ts_alloc = None, ts_timed_queue = \<lparr>pq_pred = (\<lambda>_ _. 0), pq_container = al_zero, pq_backpointers = al_zero,
                 pq_nodes = (\<lambda>_. 0)\<rparr>,
               ts_timed_list = \<lparr>ll_head = 0, ll_tail = 1\<rparr>, ts_asap_list = \<lparr>ll_head = 2, ll_tail = 3\<rparr>,
               ts_heap = (\<lambda>_. None), ts_tasks = (\<lambda>_. None), ts_calls = []\<rparr>
      in aws_task_init (aws_task_init (aws_task_init s 10 (Some 0) None None) 11 (Some 0) None None) 12 (Some 0) None None)"

definition demo_sched :: task_scheduler where
  "demo_sched = snd (aws_task_scheduler_init demo_memory 0)"

definition demo_schedule :: "task_scheduler res" where
  "demo_schedule =
     bind_res (aws_task_scheduler_schedule_future 5 demo_sched 10 5) (\<lambda>s.
     bind_res (aws_task_scheduler_schedule_future 5 s 11 3) (\<lambda>s.
       aws_task_scheduler_schedule_now s 12))"

section \<open>Abstraction and invariant\<close>



section \<open>Lemmas\<close>

section \<open>Lemmas about the queue of timed tasks\<close>

text \<open>The allocator and the item size of the queue's container never change.\<close>

lemma swap_kind:
  "aws_array_list_swap l a b = Inr l' \<Longrightarrow> al_alloc l' = al_alloc l \<and> al_item_size l' = al_item_size l"
  by (auto simp: aws_array_list_swap_def split: if_splits sum.splits prod.splits)

lemma s_swap_kind: "s_swap q a b = Inr q' \<Longrightarrow> queue_kind q' = queue_kind q"
  by (auto simp: s_swap_def queue_kind_def Let_def dest: swap_kind split: if_splits sum.splits prod.splits)

lemma sift_down_kind: "sift_down_loop n q len root m = Inr (m', q') \<Longrightarrow> queue_kind q' = queue_kind q"
  by (induction n q len root m rule: sift_down_loop.induct) (auto dest: s_swap_kind split: if_splits sum.splits)

lemma sift_up_kind: "sift_up_loop n q i p m = Inr (m', q') \<Longrightarrow> queue_kind q' = queue_kind q"
  by (induction n q i p m rule: sift_up_loop.induct) (auto dest: s_swap_kind split: if_splits sum.splits)

lemma sift_kind:
  "s_sift_down q i = Inr (m, q') \<Longrightarrow> queue_kind q' = queue_kind q"
  "s_sift_up q i = Inr (m, q') \<Longrightarrow> queue_kind q' = queue_kind q"
  by (auto simp: s_sift_down_def s_sift_up_def simp del: sift_down_loop.simps sift_up_loop.simps
      dest: sift_down_kind sift_up_kind split: sum.splits)

lemma sift_either_kind: "s_sift_either q i = Inr q' \<Longrightarrow> queue_kind q' = queue_kind q"
  by (auto simp: s_sift_either_def dest!: sift_kind split: if_splits sum.splits)

lemma pop_back_kind:
  "al_alloc (snd (aws_array_list_pop_back l)) = al_alloc l \<and> al_item_size (snd (aws_array_list_pop_back l)) = al_item_size l"
  by (auto simp: aws_array_list_pop_back_def Let_def split: if_splits sum.splits)

lemma drop_backpointer_kind: "drop_backpointer q i = Inr q' \<Longrightarrow> queue_kind q' = queue_kind q"
  by (auto simp: drop_backpointer_def queue_kind_def split: if_splits sum.splits)

lemma remove_node_kind: "queue_kind (snd (s_remove_node q i)) = queue_kind q"
proof -
  have p: "queue_kind (q\<lparr>pq_container := snd (aws_array_list_pop_back (pq_container q))\<rparr>) = queue_kind q" for q :: "'a priority_queue"
    using pop_back_kind by (auto simp: queue_kind_def)
  show ?thesis
    by (auto simp: s_remove_node_def Let_def p dest!: s_swap_kind drop_backpointer_kind sift_either_kind
        split: if_splits sum.splits)
qed

lemma pop_kind: "queue_kind (snd (aws_priority_queue_pop q)) = queue_kind q"
  by (auto simp: aws_priority_queue_pop_def remove_node_kind split: sum.splits)

lemma remove_kind: "queue_kind (snd (aws_priority_queue_remove q n)) = queue_kind q"
  by (auto simp: aws_priority_queue_remove_def remove_node_kind split: sum.splits)

lemma push_back_kind:
  assumes "al_wf l" "aws_array_list_push_back l x = (r, l')"
  shows "al_alloc l' = al_alloc l \<and> al_item_size l' = al_item_size l"
  using assms push_back_eq [OF assms(1), of x] by (auto simp: al_put_def al_room_def split: if_splits)

lemma push_ref_kind: "al_wf (pq_container q) \<Longrightarrow> queue_kind (snd (aws_priority_queue_push_ref q x p)) = queue_kind q"
  by (auto simp: aws_priority_queue_push_ref_def Let_def backpointer_update_failed_def queue_kind_def [symmetric] dest!: sift_kind
      split: if_splits sum.splits prod.splits)
     (auto simp: queue_kind_def pop_back_kind dest: push_back_kind)

text \<open>A comparison function that agrees on the queued items leaves the queue in order.\<close>

lemma pq_ok_pred:
  assumes ok: "pq_ok q" and ord: "total_preorder (\<lambda>x y. \<not> f x y > 0)"
    and eq: "\<And>x y. x \<in> fst ` set (pq_entries q) \<Longrightarrow> y \<in> fst ` set (pq_entries q) \<Longrightarrow> f x y = pq_pred q x y"
  shows "pq_ok (q\<lparr>pq_pred := f\<rparr>)"
proof -
  let ?q = "q\<lparr>pq_pred := f\<rparr>"
  have e: "pq_entries ?q = pq_entries q" "pq_inv ?q = pq_inv q" by (simp_all add: pq_entries_def pq_bps_def pq_inv_def)
  have "heap (pq_le ?q) (pq_entries q)"
  proof (unfold heap_def, intro allI impI)
    fix i assume i: "i < length (pq_entries q)"
    have "(i - 1) div 2 < length (pq_entries q)" using i by linarith
    then have "f (fst (pq_entries q ! ((i - 1) div 2))) (fst (pq_entries q ! i)) =
        pq_pred q (fst (pq_entries q ! ((i - 1) div 2))) (fst (pq_entries q ! i))"
      using i by (intro eq imageI nth_mem)
    with pq_okD(3) [OF ok] i show "heap_at (pq_le ?q) (pq_entries q) i" by (simp add: heap_def heap_at_def pq_le_def)
  qed
  then show ?thesis using pq_okD [OF ok] ord e by (simp add: pq_ok_def pq_ordered_def)
qed

lemma compare_preorder: "total_preorder (\<lambda>x y. \<not> s_compare_timestamps tasks x y > 0)"
  by (auto simp: total_preorder_def s_compare_timestamps_def)

lemma timed_queue_simps [simp]:
  "pq_container (timed_queue s) = pq_container (ts_timed_queue s)"
  "pq_pred (timed_queue s) = s_compare_timestamps (ts_tasks s)"
  "queue_kind (timed_queue s) = queue_kind (ts_timed_queue s)"
  "pq_nodes (timed_queue s) = pq_nodes (ts_timed_queue s)"
  "pq_backpointers (timed_queue s) = pq_backpointers (ts_timed_queue s)"
  by (simp_all add: timed_queue_def queue_kind_def)

lemma entries_pred [simp]: "pq_entries (q\<lparr>pq_pred := f\<rparr>) = pq_entries q" "queue_kind (q\<lparr>pq_pred := f\<rparr>) = queue_kind q"
  by (simp_all add: pq_entries_def pq_bps_def queue_kind_def)

lemma set_entries:
  assumes "queue_holds s Q"
  shows "set (pq_entries (timed_queue s)) = (\<lambda>t. (t, Some t)) ` Q"
proof -
  have "set_mset (mset (pq_entries (timed_queue s))) = set_mset (image_mset (\<lambda>t. (t, Some t)) (mset_set Q))"
    using assms by (simp only: queue_holds_def)
  then show ?thesis using assms by (simp add: queue_holds_def)
qed

lemma queue_holdsI:
  assumes "pq_ok q" "pq_pred q = s_compare_timestamps (ts_tasks s)" "queue_kind q = queue_kind (ts_timed_queue s0)"
    "queue_holds s0 Q0" "mset (pq_entries q) = image_mset (\<lambda>t. (t, Some t)) (mset_set Q)" "finite Q"
    "ts_timed_queue s = q"
  shows "queue_holds s Q"
proof -
  have eq: "timed_queue s = q" using assms(2,7) by (simp add: timed_queue_def)
  show ?thesis unfolding queue_holds_def eq assms(3,7) using assms(1,4-6) by (simp add: queue_holds_def)
qed

text \<open>The queue only sees the time stamps of the tasks it holds and the nodes of those tasks.\<close>

lemma queue_holds_frame:
  assumes h: "queue_holds s Q" and t: "\<forall>a \<in> Q. task_time s' a = task_time s a"
    and q: "pq_container (ts_timed_queue s') = pq_container (ts_timed_queue s)"
      "pq_backpointers (ts_timed_queue s') = pq_backpointers (ts_timed_queue s)"
      "\<forall>a \<in> Q. pq_nodes (ts_timed_queue s') a = pq_nodes (ts_timed_queue s) a"
  shows "queue_holds s' Q"
proof -
  let ?q = "timed_queue s"
  have ok: "pq_ok ?q" using h by (simp add: queue_holds_def)
  have e: "pq_entries (timed_queue s') = pq_entries ?q" "pq_bps (timed_queue s') = pq_bps ?q"
    using q by (simp_all add: pq_entries_def pq_bps_def timed_queue_def)
  have "pq_nodes (timed_queue s') n = pq_nodes ?q n" if "Some n \<in> set (pq_bps ?q)" for n
      proof -
    have "Some n \<in> snd ` (\<lambda>t. (t, Some t)) ` Q"
      using that entries_bps [OF pq_okD(1) [OF ok]] by (simp only: set_entries [OF h])
    then show ?thesis using q(3) by auto
  qed
  then have n: "nodes_inv (pq_bps ?q) (pq_nodes (timed_queue s'))"
    using pq_invD(5) [OF pq_okD(1) [OF ok]] unfolding nodes_inv_def by (metis nth_mem)
  let ?q1 = "?q\<lparr>pq_nodes := pq_nodes (timed_queue s')\<rparr>"
  have e1: "pq_entries ?q1 = pq_entries ?q" "pq_bps ?q1 = pq_bps ?q" by (simp_all add: pq_entries_def pq_bps_def)
  have "pq_ok ?q1" using ok n e1 by (simp add: pq_ok_def pq_inv_def pq_ordered_def pq_le_def [abs_def])
  then have "pq_ok (?q1\<lparr>pq_pred := s_compare_timestamps (ts_tasks s')\<rparr>)"
    by (rule pq_ok_pred [OF _ compare_preorder])
      (use set_entries [OF h] t e1 in \<open>auto simp: s_compare_timestamps_def\<close>)
  also have "?q1\<lparr>pq_pred := s_compare_timestamps (ts_tasks s')\<rparr> = timed_queue s'"
    using q by (simp add: timed_queue_def)
  finally show ?thesis using h q unfolding queue_holds_def e by (simp add: queue_kind_def)
qed

lemma mset_set_remove: "finite Q \<Longrightarrow> x \<in> Q \<Longrightarrow>
    image_mset (\<lambda>t. (t, Some t)) (mset_set Q) - {#(x, Some x)#} = image_mset (\<lambda>t. (t, Some t)) (mset_set (Q - {x}))"
  by (simp add: mset_set.remove)

lemma queue_top_ok:
  assumes h: "queue_holds s Q"
  shows "Q = {} \<Longrightarrow> timed_queue_top s = Inr None"
    and "Q \<noteq> {} \<Longrightarrow> timed_queue_top s = Inr (Some (fst (pq_entries (timed_queue s) ! 0))) \<and> fst (pq_entries (timed_queue s) ! 0) \<in> Q"
proof -
  let ?q = "timed_queue s"
  have ok: "pq_inv ?q" using h pq_okD(1) [of ?q] by (simp add: queue_holds_def)
  note e = set_entries [OF h]
  have len: "aws_array_list_length (pq_container ?q) = Inr (al_length (pq_container ?q))" using pq_invD(1) [OF ok] by simp
  show "timed_queue_top s = Inr None" if "Q = {}"
  proof -
    have "al_length (pq_container ?q) = 0" using entries_nil [OF ok] e that by simp
    then show ?thesis using len by (simp add: timed_queue_top_def aws_priority_queue_top_def)
  qed
  assume "Q \<noteq> {}"
  then have ne: "pq_entries ?q \<noteq> []" using e by auto
  then have z: "al_length (pq_container ?q) \<noteq> 0" using entries_nil [OF ok] by simp
  then have "aws_array_list_get_at_ptr (pq_container ?q) 0 = Inr 0"
    using container_ptr [OF ok, of 0] by (simp add: word_gt_0)
  moreover have "mem_load (al_data (pq_container ?q)) 0 = Inr (Item (fst (pq_entries ?q ! 0)))"
    by (rule container_load [OF ok]) (use z in \<open>simp add: unat_gt_0\<close>)
  moreover have "fst (pq_entries ?q ! 0) \<in> Q" using nth_mem [of 0 "pq_entries ?q"] ne e by auto
  ultimately show "timed_queue_top s = Inr (Some (fst (pq_entries ?q ! 0))) \<and> fst (pq_entries ?q ! 0) \<in> Q"
    using len z by (simp add: timed_queue_top_def aws_priority_queue_top_def)
qed

lemma queue_top_least:
  assumes h: "queue_holds s Q" and "y \<in> Q"
  shows "task_time s (fst (pq_entries (timed_queue s) ! 0)) \<le> task_time s y"
proof -
  have k: "pq_ok (timed_queue s)" using h by (simp add: queue_holds_def)
  obtain i where "i < length (pq_entries (timed_queue s))" "pq_entries (timed_queue s) ! i = (y, Some y)"
    using set_entries [OF h] assms(2) by (metis image_eqI in_set_conv_nth)
  then show ?thesis using heap_root_least [OF pq_le_preorder [OF pq_okD(2) [OF k]] pq_okD(3) [OF k]]
    by (fastforce simp: pq_le_def s_compare_timestamps_def not_less split: if_splits)
qed

lemma queue_pop_ok:
  assumes h: "queue_holds s Q" and ne: "Q \<noteq> {}"
  obtains x q where "aws_priority_queue_pop (timed_queue s) = (Inr (Item x), q)" "x \<in> Q"
    "timed_queue_top s = Inr (Some x)" "\<forall>y \<in> Q. task_time s x \<le> task_time s y"
    "\<forall>s'. ts_timed_queue s' = q \<longrightarrow> ts_tasks s' = ts_tasks s \<longrightarrow> queue_holds s' (Q - {x})"
proof -
  let ?q = "timed_queue s"
  have ok: "pq_ok ?q" and fin: "finite Q" using h by (simp_all add: queue_holds_def)
  note k = pq_okD [OF ok]
  have z: "al_length (pq_container ?q) \<noteq> 0" using entries_nil [OF k(1)] set_entries [OF h] ne by auto
  have "pq_entries ?q ! 0 \<in> set (pq_entries ?q)" by (rule nth_mem) (use set_entries [OF h] ne in auto)
  then obtain x where x: "pq_entries ?q ! 0 = (x, Some x)" "x \<in> Q" unfolding set_entries [OF h] by auto
  have "0 < al_length (pq_container ?q)" using z by (simp add: word_gt_0)
  then obtain q where q: "s_remove_node ?q 0 = (Inr (Item x), q)" "pq_inv q" "heap (pq_le q) (pq_entries q)"
    "pq_pred q = pq_pred ?q" "mset (pq_entries q) = mset (pq_entries ?q) - {#(x, Some x)#}"
    by (rule s_remove_node_ok [OF k]) (simp add: x(1))
  have pop: "aws_priority_queue_pop ?q = (Inr (Item x), q)"
    using z q(1) pq_invD(1) [OF k(1)] by (simp add: aws_priority_queue_pop_def)
  have kd: "queue_kind q = queue_kind (ts_timed_queue s)" using pop_kind [of ?q] by (simp add: pop)
  have m: "mset (pq_entries q) = image_mset (\<lambda>t. (t, Some t)) (mset_set (Q - {x}))"
    using q(5) h mset_set_remove [OF fin x(2)] by (simp add: queue_holds_def)
  have okq: "pq_ok q" by (rule pq_okI [OF q(2,3) k(2) q(4)])
  show thesis
  proof (rule that [OF pop x(2)])
    show "\<forall>s'. ts_timed_queue s' = q \<longrightarrow> ts_tasks s' = ts_tasks s \<longrightarrow> queue_holds s' (Q - {x})"
      using queue_holdsI [OF okq _ kd h m] q(4) fin by auto
  qed (use queue_top_ok(2) [OF h ne] queue_top_least [OF h] x(1) in auto)
qed

lemma queue_push_ok:
  assumes h: "queue_holds s Q" and x: "x \<notin> Q" and r: "pq_room (timed_queue s) 1"
  obtains q where "aws_priority_queue_push_ref (timed_queue s) x (Some x) = (AWS_OP_SUCCESS, q)"
    "\<forall>s'. ts_timed_queue s' = q \<longrightarrow> ts_tasks s' = ts_tasks s \<longrightarrow> queue_holds s' (insert x Q)"
proof -
  let ?q = "timed_queue s"
  have ok: "pq_ok ?q" and fin: "finite Q" and al: "al_alloc (pq_container ?q) \<noteq> None"
    using h by (simp_all add: queue_holds_def queue_kind_def)
  have f: "pq_fresh ?q (Some x)" using set_entries [OF h] x by (auto simp: pq_fresh_def)
  obtain q where q: "aws_priority_queue_push_ref ?q x (Some x) = (AWS_OP_SUCCESS, q)" "pq_ok q" "pq_pred q = pq_pred ?q"
    "mset (pq_entries q) = add_mset (x, Some x) (mset (pq_entries ?q))"
    by (rule push_law [OF ok r f]) (use al in auto)
  have kd: "queue_kind q = queue_kind (ts_timed_queue s)"
    using push_ref_kind [OF pq_invD(1) [OF pq_okD(1) [OF ok]], of x "Some x"] by (simp add: q(1))
  have m: "mset (pq_entries q) = image_mset (\<lambda>t. (t, Some t)) (mset_set (insert x Q))"
    using q(4) h x fin by (simp add: queue_holds_def)
  show thesis by (rule that [OF q(1)]) (use queue_holdsI [OF q(2) _ kd h m] q(3) fin in auto)
qed

lemma queue_push_full:
  assumes h: "queue_holds s Q" and r: "\<not> pq_room (timed_queue s) 1"
  shows "aws_priority_queue_push_ref (timed_queue s) x p = (aws_raise_error AWS_ERROR_OVERFLOW_DETECTED, timed_queue s)"
proof -
  let ?c = "pq_container (timed_queue s)"
  have k: "al_item_size ?c = 8" "al_alloc ?c \<noteq> None" and wf: "al_wf ?c"
    using h pq_invD(1) [OF pq_okD(1) [of "timed_queue s"]] by (auto simp: queue_holds_def queue_kind_def)
  have "2 ^ 64 \<le> (unat (al_length ?c) + 1) * unat (al_item_size ?c)"
    using r k by (auto simp: pq_room_def has_room_def)
  then show ?thesis unfolding aws_priority_queue_push_ref_def push_back_eq [OF wf] by (subst if_P) simp_all
qed

lemma queue_remove_ok:
  assumes h: "queue_holds s Q" and x: "x \<in> Q"
  obtains q where "aws_priority_queue_remove (timed_queue s) x = (Inr (Item x), q)"
    "\<forall>s'. ts_timed_queue s' = q \<longrightarrow> ts_tasks s' = ts_tasks s \<longrightarrow> queue_holds s' (Q - {x})"
proof -
  let ?q = "timed_queue s"
  have ok: "pq_ok ?q" and fin: "finite Q" using h by (simp_all add: queue_holds_def)
  have "(x, Some x) \<in> set (pq_entries ?q)" using set_entries [OF h] x by auto
  from remove_ref_law [OF ok this] obtain q where q: "aws_priority_queue_remove ?q x = (Inr (Item x), q)" "pq_ok q"
    "pq_pred q = pq_pred ?q" "mset (pq_entries q) = mset (pq_entries ?q) - {#(x, Some x)#}" .
  have kd: "queue_kind q = queue_kind (ts_timed_queue s)" using remove_kind [of ?q x] by (simp add: q(1))
  have m: "mset (pq_entries q) = image_mset (\<lambda>t. (t, Some t)) (mset_set (Q - {x}))"
    using q(4) h mset_set_remove [OF fin x] by (simp add: queue_holds_def)
  show thesis by (rule that [OF q(1)]) (use queue_holdsI [OF q(2) _ kd h m] q(3) fin in auto)
qed

section \<open>Lemmas about the scheduler's state\<close>

lemma sched_repD:
  assumes "sched_rep s A L Q"
  shows "ts_alloc s \<noteq> None" "is_list (ts_heap s) (ts_asap_list s) A" "is_list (ts_heap s) (ts_timed_list s) L"
    "queue_holds s Q" "set (all_nodes (ts_asap_list s) A) \<inter> set (all_nodes (ts_timed_list s) L) = {}"
    "Q \<inter> (set (all_nodes (ts_asap_list s) A) \<union> set (all_nodes (ts_timed_list s) L)) = {}"
    "\<forall>t \<in> Q. nx (ts_heap s) t = None" "\<forall>t \<in> set A \<union> set L \<union> Q. runnable s t"
    "\<forall>t \<in> set A \<union> set L \<union> Q. \<exists>k. ts_tasks s t = Some k \<and> tk_scheduled k"
    "sorted_wrt (\<lambda>a b. task_time s a \<le> task_time s b) L"
  using assms unfolding sched_rep_def by blast+

lemma load_task_time: "runnable s t \<Longrightarrow> \<exists>k. load_task s (Some t) = Inr k \<and> tk_timestamp k = task_time s t \<and> tk_fn k \<noteq> None"
  by (auto simp: runnable_def load_task_def timestamp_of_def)

lemma runnable_kept: "kept s s' \<Longrightarrow> runnable s' t = runnable s t"
  by (simp add: kept_def runnable_def)

lemma kept_trans: "kept s s1 \<Longrightarrow> kept s1 s2 \<Longrightarrow> kept s s2"
  by (simp add: kept_def)

lemma kept_refl [simp]: "kept s s"
  by (simp add: kept_def)

lemma area_kept: "kept s s' \<Longrightarrow> sched_area s' A L Q = sched_area s A L Q"
  by (simp add: sched_area_def kept_def)

lemma area_simps: "sched_area s A L Q = {ll_head (ts_asap_list s), ll_tail (ts_asap_list s), ll_head (ts_timed_list s),
    ll_tail (ts_timed_list s)} \<union> set A \<union> set L \<union> Q"
  by (auto simp: sched_area_def)

lemma is_list_agree:
  assumes "is_list h l xs" "\<forall>a \<in> set (all_nodes l xs). h' a = h a"
  shows "is_list h' l xs"
proof -
  have eq: "nx h' a = nx h a" "pv h' a = pv h a" "live h' a = live h a" if "a \<in> set (all_nodes l xs)" for a
    unfolding nx_def pv_def live_def bspec [OF assms(2) that] by simp_all
  have "chain (nx h') (pv h') (all_nodes l xs)"
    by (rule chain_cong [OF is_listD(3) [OF assms(1)]]) (metis eq in_set_butlastD list.set_sel(2) list.sel(2))+
  then show ?thesis using assms(1) eq by (simp add: is_list_def)
qed

text \<open>The scheduler does not see changes outside its area.\<close>

lemma sched_rep_frame:
  assumes r: "sched_rep s A L Q" and l: "ts_alloc s' = ts_alloc s" "ts_asap_list s' = ts_asap_list s" "ts_timed_list s' = ts_timed_list s"
    and h: "\<forall>a \<in> sched_area s A L Q. ts_heap s' a = ts_heap s a \<and> ts_tasks s' a = ts_tasks s a"
    and q: "pq_container (ts_timed_queue s') = pq_container (ts_timed_queue s)"
      "pq_backpointers (ts_timed_queue s') = pq_backpointers (ts_timed_queue s)"
      "\<forall>a \<in> Q. pq_nodes (ts_timed_queue s') a = pq_nodes (ts_timed_queue s) a"
  shows "sched_rep s' A L Q"
proof -
  note d = sched_repD [OF r]
  have t: "ts_heap s' a = ts_heap s a" "ts_tasks s' a = ts_tasks s a" if "a \<in> set A \<union> set L \<union> Q" for a
    using h that by (auto simp: area_simps)
  have "is_list (ts_heap s') (ts_asap_list s') A" "is_list (ts_heap s') (ts_timed_list s') L"
    using is_list_agree [OF d(2)] is_list_agree [OF d(3)] h l by (auto simp: sched_area_def)
  moreover have "queue_holds s' Q" by (rule queue_holds_frame [OF d(4) _ q]) (use t in \<open>auto simp: timestamp_of_def\<close>)
  moreover have "sorted_wrt (\<lambda>a b. task_time s' a \<le> task_time s' b) L"
    by (rule sorted_wrt_mono_rel [OF _ d(10)]) (use t in \<open>auto simp: timestamp_of_def\<close>)
  moreover have "\<forall>t \<in> set A \<union> set L \<union> Q. runnable s' t \<and> (\<exists>k. ts_tasks s' t = Some k \<and> tk_scheduled k)"
    using d(8,9) t by (auto simp: runnable_def live_def)
  moreover have "\<forall>t \<in> Q. nx (ts_heap s') t = None" using d(7) t by (auto simp: nx_def)
  ultimately show ?thesis using d(1,5,6) l by (simp add: sched_rep_def)
qed

section \<open>Moving tasks to the running list\<close>

lemma movingD:
  assumes "moving run s R A L Q"
  shows "sched_rep s A L Q" "is_list (ts_heap s) run R" "set (all_nodes run R) \<inter> sched_area s A L Q = {}"
    "\<forall>t \<in> set R. runnable s t"
  using assms by (simp_all add: moving_def)

lemma agree_off_nx: "agree_off N h h' \<Longrightarrow> a \<notin> N \<Longrightarrow> nx h' a = nx h a"
  by (simp add: agree_off_def nx_def)

lemma agree_off_same: "agree_off N h h' \<Longrightarrow> a \<notin> N \<Longrightarrow> h' a = h a"
  by (simp add: agree_off_def)

text \<open>A state in which the queue, the lists of the scheduler and the running list have changed but no task has.\<close>

lemma movingI:
  assumes m: "moving run s R0 A L0 Q0" and k: "kept s s'"
    and l: "is_list (ts_heap s') run R" "is_list (ts_heap s') (ts_asap_list s) A" "is_list (ts_heap s') (ts_timed_list s) L"
    and q: "queue_holds s' Q" "\<forall>t \<in> Q. nx (ts_heap s') t = None"
    and sub: "set L \<subseteq> set L0" "Q \<subseteq> Q0" "set R \<subseteq> set R0 \<union> set L0 \<union> Q0" "set R \<inter> (set L \<union> Q) = {}"
      "sorted_wrt (\<lambda>a b. task_time s a \<le> task_time s b) L"
  shows "moving run s' R A L Q"
proof -
  note d = movingD [OF m]
  note e = sched_repD [OF d(1)]
  have k': "ts_tasks s' = ts_tasks s" "ts_alloc s' = ts_alloc s" "ts_asap_list s' = ts_asap_list s" "ts_timed_list s' = ts_timed_list s"
    using k by (auto simp: kept_def)
  have "sched_rep s' A L Q"
    unfolding sched_rep_def k' using e l(2,3) q sub(1,2,5) runnable_kept [OF k] by auto
  moreover have "set (all_nodes run R) \<inter> sched_area s' A L Q = {}"
  proof -
    have a: "sched_area s A L Q \<subseteq> sched_area s A L0 Q0" using sub(1,2) by (auto simp: area_simps)
    have "t \<notin> sched_area s A L Q" if "t \<in> set R" for t
    proof (cases "t \<in> set R0")
      case True
      then show ?thesis using d(3) a by auto
    next
      case False
      then have "t \<in> set L0 \<union> Q0" using sub(3) that by auto
      then have "t \<notin> set (all_nodes (ts_asap_list s) A)" "t \<noteq> ll_head (ts_timed_list s)" "t \<noteq> ll_tail (ts_timed_list s)"
        using e(5,6) is_listD(1) [OF e(3)] by (auto simp: all_nodes_def)
      then show ?thesis using sub(4) that by (auto simp: area_simps)
    qed
    moreover have "ll_head run \<notin> sched_area s A L0 Q0" "ll_tail run \<notin> sched_area s A L0 Q0" using d(3) by auto
    ultimately show ?thesis unfolding area_kept [OF k] using a by auto
  qed
  moreover have "\<forall>t \<in> set R. runnable s' t" using d(4) e(8) sub(3) runnable_kept [OF k] by auto
  ultimately show ?thesis using l(1) by (simp add: moving_def)
qed

lemma take_queue_step:
  assumes m: "moving run s R A L Q" and ne: "Q \<noteq> {}"
  obtains x s' where "x \<in> Q" "timed_queue_top s = Inr (Some x)" "\<forall>y \<in> Q. task_time s x \<le> task_time s y"
    "take_from_timed_queue s run = Inr s'" "kept s s'" "moving run s' (R @ [x]) A L (Q - {x})"
proof -
  note d = movingD [OF m]
  note e = sched_repD [OF d(1)]
  obtain x q where q: "aws_priority_queue_pop (timed_queue s) = (Inr (Item x), q)" "x \<in> Q"
    "timed_queue_top s = Inr (Some x)" "\<forall>y \<in> Q. task_time s x \<le> task_time s y"
    "\<forall>s'. ts_timed_queue s' = q \<longrightarrow> ts_tasks s' = ts_tasks s \<longrightarrow> queue_holds s' (Q - {x})"
    by (rule queue_pop_ok [OF e(4) ne])
  have x: "x \<notin> set (all_nodes run R)" "live (ts_heap s) x"
    using d(3) q(2) e(8) by (auto simp: area_simps runnable_def)
  obtain h where h: "aws_linked_list_push_back (ts_heap s) run (Some x) = Inr h" "is_list h run (R @ [x])"
    "agree_off (set (all_nodes run (R @ [x]))) (ts_heap s) h"
    by (rule ll_push_back_ok [OF d(2) x])
  let ?s = "s\<lparr>ts_timed_queue := q, ts_heap := h\<rparr>"
  have fr: "set (all_nodes run (R @ [x])) \<inter> set (all_nodes (ts_asap_list s) A) = {}"
    "set (all_nodes run (R @ [x])) \<inter> set (all_nodes (ts_timed_list s) L) = {}"
    "set (all_nodes run (R @ [x])) \<inter> (Q - {x}) = {}"
    using d(3) e(6) q(2) by (auto simp: area_simps)
  have k: "kept s ?s" using h(3) by (simp add: kept_def agree_off_def)
  have "moving run ?s (R @ [x]) A L (Q - {x})"
  proof (rule movingI [OF m k])
    have "nx h t = None" if "t \<in> Q - {x}" for t
    proof -
      have "t \<notin> set (all_nodes run (R @ [x]))" using fr(3) that by auto
      from agree_off_nx [OF h(3) this] show ?thesis using e(7) that by simp
    qed
    then show "\<forall>t \<in> Q - {x}. nx (ts_heap ?s) t = None" by simp
    show "set (R @ [x]) \<inter> (set L \<union> (Q - {x})) = {}" using fr(2,3) by auto
    show "queue_holds ?s (Q - {x})" using q(5) by simp
    show "is_list (ts_heap ?s) (ts_asap_list s) A" using is_list_frame [OF e(2) h(3) fr(1)] by simp
    show "is_list (ts_heap ?s) (ts_timed_list s) L" using is_list_frame [OF e(3) h(3) fr(2)] by simp
    show "set (R @ [x]) \<subseteq> set R \<union> set L \<union> Q" using q(2) by auto
  qed (use h(2) e(10) in \<open>simp_all add: Diff_subset\<close>)
  moreover have "take_from_timed_queue s run = Inr ?s" using q(1) h(1) by (simp add: take_from_timed_queue_def)
  ultimately show thesis using that [OF q(2,3,4) _ k] by blast
qed

lemma take_list_step:
  assumes m: "moving run s R A (x # L) Q"
  obtains h0 h where "aws_linked_list_begin (ts_heap s) (ts_timed_list s) = Inr (Some x)"
    "aws_linked_list_pop_front (ts_heap s) (ts_timed_list s) = Inr (Some x, h0)"
    "aws_linked_list_push_back h0 run (Some x) = Inr h" "kept s (s\<lparr>ts_heap := h\<rparr>)" "moving run (s\<lparr>ts_heap := h\<rparr>) (R @ [x]) A L Q"
proof -
  note d = movingD [OF m]
  note e = sched_repD [OF d(1)]
  have b: "aws_linked_list_begin (ts_heap s) (ts_timed_list s) = Inr (Some x)"
    using ll_front_ok [OF e(3)] unfolding aws_linked_list_begin_def aws_linked_list_front_def .
  obtain h0 where h0: "aws_linked_list_pop_front (ts_heap s) (ts_timed_list s) = Inr (Some x, h0)"
    "is_list h0 (ts_timed_list s) L" "agree_off (set (all_nodes (ts_timed_list s) (x # L))) (ts_heap s) h0"
    by (rule ll_pop_front_ok [OF e(3)])
  have dist: "distinct (all_nodes (ts_timed_list s) (x # L))" by (rule is_listD(1) [OF e(3)])
  have r0: "is_list h0 run R" by (rule is_list_frame [OF d(2) h0(3)]) (use d(3) in \<open>auto simp: area_simps\<close>)
  have x: "x \<notin> set (all_nodes run R)" "live h0 x"
    using d(3) e(8) h0(3) by (auto simp: area_simps runnable_def agree_off_def)
  obtain h where h: "aws_linked_list_push_back h0 run (Some x) = Inr h" "is_list h run (R @ [x])"
    "agree_off (set (all_nodes run (R @ [x]))) h0 h"
    by (rule ll_push_back_ok [OF r0 x])
  let ?s = "s\<lparr>ts_heap := h\<rparr>"
  note ag = agree_off_trans [OF h0(3) h(3)]
  have nd: "set (all_nodes run (R @ [x])) = insert x (set (all_nodes run R))"
    "set (all_nodes (ts_timed_list s) (x # L)) = insert x (set (all_nodes (ts_timed_list s) L))" by auto
  have xt: "x \<notin> set (all_nodes (ts_timed_list s) L)" using dist by (auto simp: all_nodes_def)
  have dj: "set (all_nodes run R) \<inter> set (all_nodes (ts_asap_list s) A) = {}"
    "set (all_nodes run R) \<inter> set (all_nodes (ts_timed_list s) (x # L)) = {}" "set (all_nodes run R) \<inter> Q = {}"
    using d(3) unfolding sched_area_def by blast+
  have fr: "(set (all_nodes (ts_timed_list s) (x # L)) \<union> set (all_nodes run (R @ [x]))) \<inter> set (all_nodes (ts_asap_list s) A) = {}"
    "set (all_nodes run (R @ [x])) \<inter> set (all_nodes (ts_timed_list s) L) = {}"
    "(set (all_nodes (ts_timed_list s) (x # L)) \<union> set (all_nodes run (R @ [x]))) \<inter> Q = {}"
    using dj e(5,6) xt unfolding nd by blast+
  have k: "kept s ?s" using ag by (simp add: kept_def agree_off_def)
  have qh: "queue_holds ?s Q" by (rule queue_holds_frame [OF e(4)]) simp_all
  have "moving run ?s (R @ [x]) A L Q"
  proof (rule movingI [OF m k])
    have "nx h t = None" if "t \<in> Q" for t
    proof -
      have "t \<notin> set (all_nodes (ts_timed_list s) (x # L)) \<union> set (all_nodes run (R @ [x]))" using fr(3) that by auto
      from agree_off_nx [OF ag this] show ?thesis using e(7) that by simp
    qed
    then show "\<forall>t \<in> Q. nx (ts_heap ?s) t = None" by simp
    show "set (R @ [x]) \<inter> (set L \<union> Q) = {}" using fr(2,3) by auto
    show "is_list (ts_heap ?s) (ts_asap_list s) A" using is_list_frame [OF e(2) ag fr(1)] by simp
    show "is_list (ts_heap ?s) (ts_timed_list s) L" using is_list_frame [OF h0(2) h(3) fr(2)] by simp
    show "set (R @ [x]) \<subseteq> set R \<union> set (x # L) \<union> Q" by auto
  qed (use qh h(2) e(10) in \<open>simp_all add: subset_insertI\<close>)
  with b h0(1) h(1) k show thesis by (rule that)
qed

lemma move_queue_loop_ok:
  assumes "moving run s R A L Q" "card Q < fuel"
  shows "\<exists>s' D. move_queue_loop fuel s run now = Inr s' \<and> kept s s' \<and> distinct D \<and> set D = {t \<in> Q. task_time s t \<le> now} \<and>
    sorted_wrt (\<lambda>a b. task_time s a \<le> task_time s b) D \<and> moving run s' (R @ D) A L (Q - set D)"
  using assms
proof (induction fuel arbitrary: s R Q)
  case (Suc fuel)
  note e = sched_repD [OF movingD(1) [OF Suc.prems(1)]]
  show ?case
  proof (cases "Q = {}")
    case True
    then show ?thesis using queue_top_ok(1) [OF e(4)] Suc.prems(1) by (intro exI [of _ s] exI [of _ "[]"]) simp
  next
    case False
    from take_queue_step [OF Suc.prems(1) False] obtain x s1 where x: "x \<in> Q" "timed_queue_top s = Inr (Some x)"
      "\<forall>y \<in> Q. task_time s x \<le> task_time s y" "take_from_timed_queue s run = Inr s1" "kept s s1"
      "moving run s1 (R @ [x]) A L (Q - {x})" .
    obtain k where k: "load_task s (Some x) = Inr k" "tk_timestamp k = task_time s x"
      using load_task_time e(8) x(1) by blast
    show ?thesis
    proof (cases "task_time s x > now")
      case True
      then have "{t \<in> Q. task_time s t \<le> now} = {}" using x(3) by (auto simp: not_le intro: less_le_trans)
      then show ?thesis using True x(2) k Suc.prems(1) by (intro exI [of _ s] exI [of _ "[]"]) simp
    next
      case False
      have fin: "finite Q" using e(4) by (simp add: queue_holds_def)
      have "card (Q - {x}) < fuel" using Suc.prems(2) card_Diff1_less [OF fin x(1)] by linarith
      from Suc.IH [OF x(6) this] obtain s2 D where D: "move_queue_loop fuel s1 run now = Inr s2" "kept s1 s2" "distinct D"
        "set D = {t \<in> Q - {x}. task_time s1 t \<le> now}" "sorted_wrt (\<lambda>a b. task_time s1 a \<le> task_time s1 b) D"
        "moving run s2 ((R @ [x]) @ D) A L (Q - {x} - set D)" by blast
      have t1: "ts_tasks s1 = ts_tasks s" using x(5) by (simp add: kept_def)
      have s: "set (x # D) = {t \<in> Q. task_time s t \<le> now}" unfolding list.set D(4) t1 using False x(1) by (auto simp: not_less)
      have "Q - {x} - set D = Q - set (x # D)" by auto
      then have "moving run s2 (R @ x # D) A L (Q - set (x # D))" using D(6) by simp
      moreover have "sorted_wrt (\<lambda>a b. task_time s a \<le> task_time s b) (x # D)" using D(4,5) t1 x(3) by auto
      moreover have "distinct (x # D)" using D(3,4) by auto
      moreover have "move_queue_loop (Suc fuel) s run now = Inr s2" using x(2,4) k False D(1) by simp
      ultimately show ?thesis using s kept_trans [OF x(5) D(2)] by blast
    qed
  qed
qed simp

lemma taken_step:
  assumes "taken_in_order tm now S D S'" "\<forall>t \<in> S. tm x \<le> tm t" "tm x \<le> now"
  shows "taken_in_order tm now (insert x S) (x # D) S'"
  using assms by (auto simp: taken_in_order_def)

lemma taken_append:
  assumes "taken_in_order tm now S D S'" "taken_in_order tm now S' E S''"
  shows "taken_in_order tm now S (D @ E) S''"
proof -
  note d = assms(1)[unfolded taken_in_order_def] and e = assms(2)[unfolded taken_in_order_def]
  have "set E \<subseteq> S'" "S'' \<subseteq> S'" using e by auto
  with d e have "sorted_wrt (\<lambda>a b. tm a \<le> tm b) (D @ E)" by (auto simp: sorted_wrt_append)
  with d e show ?thesis by (auto simp: taken_in_order_def)
qed

lemma move_timed_step:
  assumes m: "moving run s R A (x # L) Q" and now: "task_time s x \<le> now"
  obtains y s1 L2 Q2 where "\<forall>fuel. move_timed_loop (Suc fuel) s run now = move_timed_loop fuel s1 run now" "kept s s1"
    "moving run s1 (R @ [y]) A L2 Q2" "set (x # L) \<union> Q = insert y (set L2 \<union> Q2)"
    "\<forall>t \<in> set L2 \<union> Q2. task_time s y \<le> task_time s t" "task_time s y \<le> now"
    "length L2 + card Q2 < length (x # L) + card Q" "card Q2 \<le> card Q"
proof -
  note e = sched_repD [OF movingD(1) [OF m]]
  have fin: "finite Q" using e(4) by (simp add: queue_holds_def)
  obtain h0 h where st: "aws_linked_list_begin (ts_heap s) (ts_timed_list s) = Inr (Some x)"
    "aws_linked_list_pop_front (ts_heap s) (ts_timed_list s) = Inr (Some x, h0)"
    "aws_linked_list_push_back h0 run (Some x) = Inr h" "kept s (s\<lparr>ts_heap := h\<rparr>)" "moving run (s\<lparr>ts_heap := h\<rparr>) (R @ [x]) A L Q"
    by (rule take_list_step [OF m])
  obtain k where k: "load_task s (Some x) = Inr k" "tk_timestamp k = task_time s x" using load_task_time [of s x] e(8) by auto
  have em: "aws_linked_list_empty (ts_heap s) (ts_timed_list s) = Inr False" using ll_empty_ok [OF e(3)] by simp
  have so: "\<forall>t \<in> set L. task_time s x \<le> task_time s t" using e(10) by simp
  note fin_rule = that
  have from_list: thesis if "\<forall>t \<in> Q. task_time s x \<le> task_time s t"
    and "\<forall>fuel. move_timed_loop (Suc fuel) s run now = move_timed_loop fuel (s\<lparr>ts_heap := h\<rparr>) run now"
    by (rule fin_rule [OF that(2) st(4,5)]) (use that(1) so now in auto)
  show thesis
  proof (cases "Q = {}")
    case True
    then show ?thesis using em st(1-3) k now queue_top_ok(1) [OF e(4) True] by (intro from_list) (simp_all add: not_less [symmetric])
  next
    case ne: False
    obtain y s1 where y: "y \<in> Q" "timed_queue_top s = Inr (Some y)" "\<forall>t \<in> Q. task_time s y \<le> task_time s t"
      "take_from_timed_queue s run = Inr s1" "kept s s1" "moving run s1 (R @ [y]) A (x # L) (Q - {y})"
      by (rule take_queue_step [OF m ne])
    obtain j where j: "load_task s (Some y) = Inr j" "tk_timestamp j = task_time s y"
      using load_task_time [of s y] e(8) y(1) by auto
    have c: "card (Q - {y}) < card Q" by (rule card_Diff1_less [OF fin y(1)])
    show ?thesis
    proof (cases "task_time s y \<le> now \<and> task_time s y < task_time s x")
      case True
      then have b: "\<forall>fuel. move_timed_loop (Suc fuel) s run now = move_timed_loop fuel s1 run now"
        using em st(1) k now y(2,4) j by (simp add: leD)
      have "\<forall>t \<in> set (x # L). task_time s y \<le> task_time s t" using so True by fastforce
      then show ?thesis by (intro that [OF b y(5,6)]) (use y(1,3) True c in auto)
    next
      case False
      then have le: "task_time s x \<le> task_time s y" using now by auto
      then have "\<forall>t \<in> Q. task_time s x \<le> task_time s t" using y(3) by (auto intro: order_trans)
      then show ?thesis using em st(1-3) k now y(2) j False le by (intro from_list) (simp_all add: not_less [symmetric])
    qed
  qed
qed

lemma move_timed_loop_ok:
  assumes "moving run s R A L Q" "length L + card Q < fuel"
  shows "\<exists>s' D L' Q'. move_timed_loop fuel s run now = Inr s' \<and> kept s s' \<and> moving run s' (R @ D) A L' Q' \<and>
    taken_in_order (task_time s) now (set L \<union> Q) D (set L' \<union> Q') \<and> (\<forall>t \<in> set L'. now < task_time s t) \<and> card Q' \<le> card Q"
  using assms
proof (induction fuel arbitrary: s R L Q)
  case (Suc fuel)
  note m = Suc.prems(1)
  note e = sched_repD [OF movingD(1) [OF m]]
  have stop: ?case if "move_timed_loop (Suc fuel) s run now = Inr s" "\<forall>t \<in> set L. now < task_time s t"
    using that m by (intro exI [of _ s] exI [of _ "[]"] exI [of _ L] exI [of _ Q]) (simp add: taken_in_order_def)
  show ?case
  proof (cases L)
    case Nil
    then show ?thesis using ll_empty_ok [OF e(3)] by (intro stop) simp_all
  next
    case (Cons x L1)
    show ?thesis
    proof (cases "task_time s x > now")
      case True
      obtain k where "load_task s (Some x) = Inr k" "tk_timestamp k = task_time s x"
        using load_task_time [of s x] e(8) Cons by auto
      moreover have "\<forall>t \<in> set L. now < task_time s t" using e(10) Cons True by (auto intro: less_le_trans)
      ultimately show ?thesis using True ll_empty_ok [OF e(3)] ll_front_ok [OF e(3) [unfolded Cons]] Cons
        by (intro stop) (simp_all add: aws_linked_list_begin_def aws_linked_list_front_def)
    next
      case False
      then have now: "task_time s x \<le> now" by simp
      obtain y s1 L2 Q2 where y: "\<forall>fuel. move_timed_loop (Suc fuel) s run now = move_timed_loop fuel s1 run now" "kept s s1"
        "moving run s1 (R @ [y]) A L2 Q2" "set L \<union> Q = insert y (set L2 \<union> Q2)"
        "\<forall>t \<in> set L2 \<union> Q2. task_time s y \<le> task_time s t" "task_time s y \<le> now"
        "length L2 + card Q2 < length L + card Q" "card Q2 \<le> card Q"
        by (rule move_timed_step [OF m [unfolded Cons] now, folded Cons])
      have "length L2 + card Q2 < fuel" using y(7) Suc.prems(2) by simp
      from Suc.IH [OF y(3) this] obtain s' D L' Q' where D: "move_timed_loop fuel s1 run now = Inr s'" "kept s1 s'"
        "moving run s' ((R @ [y]) @ D) A L' Q'" "taken_in_order (task_time s1) now (set L2 \<union> Q2) D (set L' \<union> Q')"
        "\<forall>t \<in> set L'. now < task_time s1 t" "card Q' \<le> card Q2" by blast
      have t: "ts_tasks s1 = ts_tasks s" using y(2) by (simp add: kept_def)
      have "taken_in_order (task_time s) now (set L \<union> Q) (y # D) (set L' \<union> Q')"
        unfolding y(4) by (rule taken_step [OF D(4) [unfolded t] y(5,6)])
      with y(1,8) D kept_trans [OF y(2) D(2)] show ?thesis
        by (intro exI [of _ s'] exI [of _ "y # D"] exI [of _ L'] exI [of _ Q']) (simp add: t)
    qed
  qed
qed simp

text \<open>Both loops together take exactly the tasks that are due.\<close>

lemma move_due_ok:
  assumes m: "moving run s R A L Q" and f: "length L + card Q < fuel"
  shows "\<exists>s1 s2 D L' Q'. move_timed_loop fuel s run now = Inr s1 \<and> move_queue_loop fuel s1 run now = Inr s2 \<and> kept s s2 \<and>
    moving run s2 (R @ D) A L' Q' \<and> sorted_wrt (\<lambda>a b. task_time s a \<le> task_time s b) D \<and> distinct D \<and>
    set D = {t \<in> set L \<union> Q. task_time s t \<le> now} \<and> set L' \<union> Q' = {t \<in> set L \<union> Q. now < task_time s t}"
proof -
  from move_timed_loop_ok [OF m f, of now] obtain s1 D L' Q' where a: "move_timed_loop fuel s run now = Inr s1" "kept s s1"
    "moving run s1 (R @ D) A L' Q'" "taken_in_order (task_time s) now (set L \<union> Q) D (set L' \<union> Q')"
    "\<forall>t \<in> set L'. now < task_time s t" "card Q' \<le> card Q" by blast
  have t: "ts_tasks s1 = ts_tasks s" using a(2) by (simp add: kept_def)
  have "card Q' < fuel" using f a(6) by linarith
  from move_queue_loop_ok [OF a(3) this, of now] obtain s2 E where b: "move_queue_loop fuel s1 run now = Inr s2" "kept s1 s2"
    "set E = {t \<in> Q'. task_time s t \<le> now}" "sorted_wrt (\<lambda>a b. task_time s a \<le> task_time s b) E"
    "moving run s2 (R @ (D @ E)) A L' (Q' - set E)" unfolding t by auto
  have rest: "\<forall>u \<in> set L' \<union> (Q' - set E). now < task_time s u" using a(5) b(3) by auto
  have eU: "set E \<union> (set L' \<union> (Q' - set E)) = set L' \<union> Q'" using b(3) by auto
  have "\<forall>d \<in> set E. \<forall>u \<in> set L' \<union> (Q' - set E). task_time s d \<le> task_time s u"
    using rest b(3) by (metis (no_types, lifting) less_imp_le mem_Collect_eq order_trans)
  with b(3,4) eU have "taken_in_order (task_time s) now (set L' \<union> Q') E (set L' \<union> (Q' - set E))"
    unfolding taken_in_order_def by auto
  from taken_append [OF a(4) this]
  have o: "taken_in_order (task_time s) now (set L \<union> Q) (D @ E) (set L' \<union> (Q' - set E))" .
  have "distinct (D @ E)" using is_listD(1) [OF movingD(2) [OF b(5)]] by (simp add: all_nodes_def)
  moreover have "set (D @ E) = {t \<in> set L \<union> Q. task_time s t \<le> now}"
    "set L' \<union> (Q' - set E) = {t \<in> set L \<union> Q. now < task_time s t}"
    using o rest unfolding taken_in_order_def by (auto simp: not_less [symmetric])
  ultimately show ?thesis using a(1) b(1,5) kept_trans [OF a(2) b(2)] o unfolding taken_in_order_def by blast
qed

section \<open>Running tasks\<close>

lemma grown_refl: "grown new s A L Q s A L Q"
  by (simp add: grown_def)

lemma grown_trans:
  assumes "grown new s A L Q s1 A1 L1 Q1" "grown new s1 A1 L1 Q1 s2 A2 L2 Q2"
  shows "grown new s A L Q s2 A2 L2 Q2"
proof -
  note a = assms(1) [unfolded grown_def] and b = assms(2) [unfolded grown_def]
  have "task_time s2 t = task_time s t" if "t \<in> set L \<union> Q" for t
    using a b that by (metis UnE UnI1 UnI2 subsetD)
  with a b show ?thesis by (auto simp: grown_def)
qed

lemma may_scheduleD:
  assumes "may_schedule new code st" "sched_rep s A L Q" "P \<inter> sched_area s A L Q = {}" "t \<notin> sched_area s A L Q \<union> P" "runnable s t"
  obtains s' A' L' Q' where "code f t arg st s = Inr s'" "sched_rep s' A' L' Q'" "grown new s A L Q s' A' L' Q'"
    "ts_calls s' = ts_calls s" "P \<inter> sched_area s' A' L' Q' = {}" "\<forall>a \<in> P. ts_heap s' a = ts_heap s a \<and> ts_tasks s' a = ts_tasks s a"
  using assms unfolding may_schedule_def by meson

text \<open>Running a task that is in none of the scheduler's lists.\<close>

lemma task_run_ok:
  assumes c: "may_schedule new code st" and r: "sched_rep s A L Q" and P: "P \<inter> sched_area s A L Q = {}"
    and t: "t \<notin> sched_area s A L Q \<union> P" "runnable s t"
  obtains s' A' L' Q' where "aws_task_run code s t st = Inr s'" "sched_rep s' A' L' Q'" "grown new s A L Q s' A' L' Q'"
    "ts_calls s' = ts_calls s @ [(t, st)]" "P \<inter> sched_area s' A' L' Q' = {}"
    "\<forall>a \<in> P. ts_heap s' a = ts_heap s a \<and> ts_tasks s' a = ts_tasks s a"
proof -
  obtain k f where k: "ts_tasks s t = Some k" "tk_fn k = Some f" using t(2) by (auto simp: runnable_def)
  let ?s = "s\<lparr>ts_tasks := (ts_tasks s)(t \<mapsto> k\<lparr>tk_scheduled := False\<rparr>), ts_calls := ts_calls s @ [(t, st)]\<rparr>"
  have ar: "sched_area ?s A L Q = sched_area s A L Q" by (simp add: sched_area_def)
  have r1: "sched_rep ?s A L Q" by (rule sched_rep_frame [OF r]) (use t(1) in auto)
  have t1: "runnable ?s t" using t(2) k by (simp add: runnable_def)
  obtain s' A' L' Q' where s': "code f t (tk_arg k) st ?s = Inr s'" "sched_rep s' A' L' Q'" "grown new ?s A L Q s' A' L' Q'"
    "ts_calls s' = ts_calls ?s" "P \<inter> sched_area s' A' L' Q' = {}" "\<forall>a \<in> P. ts_heap s' a = ts_heap ?s a \<and> ts_tasks s' a = ts_tasks ?s a"
    by (rule may_scheduleD [OF c r1, of P t]) (use P t(1) t1 ar in auto)
  have "task_time ?s a = task_time s a" for a using k by (simp add: timestamp_of_def)
  then have "grown new s A L Q s' A' L' Q'" using s'(3) unfolding grown_def by simp
  moreover have "aws_task_run code s t st = Inr s'" using k s'(1) by (simp add: aws_task_run_def load_task_def)
  moreover have "\<forall>a \<in> P. ts_heap s' a = ts_heap s a \<and> ts_tasks s' a = ts_tasks s a" using s'(6) t(1) by auto
  ultimately show thesis using s'(2,4,5) by (intro that) simp_all
qed

lemma run_tasks_loop_ok:
  assumes "moving run s R A L Q" "may_schedule new code st" "length R < fuel"
  shows "\<exists>s' A' L' Q'. run_tasks_loop fuel code s run st = Inr s' \<and> ts_calls s' = ts_calls s @ map (\<lambda>t. (t, st)) R \<and>
    moving run s' [] A' L' Q' \<and> grown new s A L Q s' A' L' Q'"
  using assms
proof (induction fuel arbitrary: s R A L Q)
  case (Suc fuel)
  note d = movingD [OF Suc.prems(1)]
  show ?case
  proof (cases R)
    case Nil
    then show ?thesis using ll_empty_ok [OF d(2)] Suc.prems(1) grown_refl
      by (intro exI [of _ s] exI [of _ A] exI [of _ L] exI [of _ Q]) simp
  next
    case (Cons t R1)
    obtain h where h: "aws_linked_list_pop_front (ts_heap s) run = Inr (Some t, h)" "is_list h run R1"
      "agree_off (set (all_nodes run (t # R1))) (ts_heap s) h"
      by (rule ll_pop_front_ok [OF d(2) [unfolded Cons]])
    let ?s = "s\<lparr>ts_heap := h\<rparr>" and ?P = "set (all_nodes run R1)"
    have ar: "sched_area ?s A L Q = sched_area s A L Q" by (simp add: sched_area_def)
    have dj: "set (all_nodes run (t # R1)) \<inter> sched_area s A L Q = {}" using d(3) Cons by simp
    have r1: "sched_rep ?s A L Q"
    proof (rule sched_rep_frame [OF d(1)])
      have "h a = ts_heap s a" if "a \<in> sched_area s A L Q" for a
        by (rule agree_off_same [OF h(3)]) (use dj that in blast)
      then show "\<forall>a \<in> sched_area s A L Q. ts_heap ?s a = ts_heap s a \<and> ts_tasks ?s a = ts_tasks s a" by simp
    qed simp_all
    have rn: "runnable ?s a" if "a \<in> set R" for a using d(4) h(3) that by (simp add: runnable_def agree_off_def)
    have t: "t \<notin> sched_area s A L Q \<union> ?P" using dj is_listD(1) [OF d(2)] Cons by (auto simp: all_nodes_def)
    obtain s1 A1 L1 Q1 where s1: "aws_task_run code ?s t st = Inr s1" "sched_rep s1 A1 L1 Q1" "grown new ?s A L Q s1 A1 L1 Q1"
      "ts_calls s1 = ts_calls ?s @ [(t, st)]" "?P \<inter> sched_area s1 A1 L1 Q1 = {}"
      "\<forall>a \<in> ?P. ts_heap s1 a = ts_heap ?s a \<and> ts_tasks s1 a = ts_tasks ?s a"
      by (rule task_run_ok [OF Suc.prems(2) r1, of ?P t]) (use dj t ar rn Cons in auto)
    have m1: "moving run s1 R1 A1 L1 Q1"
      using s1(2,5,6) is_list_agree [OF h(2)] rn Cons unfolding moving_def by (auto simp: runnable_def live_def)
    from Suc.IH [OF m1 Suc.prems(2)] Suc.prems(3) Cons obtain s' A' L' Q' where s':
      "run_tasks_loop fuel code s1 run st = Inr s'" "ts_calls s' = ts_calls s1 @ map (\<lambda>t. (t, st)) R1"
      "moving run s' [] A' L' Q'" "grown new s1 A1 L1 Q1 s' A' L' Q'" by auto
    have "grown new s A L Q s1 A1 L1 Q1" using s1(3) h(3) by (simp add: grown_def agree_off_def)
    from grown_trans [OF this s'(4)] s' s1(1,4) h(1) Cons ll_empty_ok [OF d(2)] show ?thesis
      by (intro exI [of _ s'] exI [of _ A'] exI [of _ L'] exI [of _ Q']) simp
  qed
qed simp

section \<open>The whole of run\_all\<close>

text \<open>The running list on the stack before the first move: the tasks that were to run as soon as possible.\<close>

lemma start_running:
  assumes r: "sched_rep s A L Q" and fr: "ll_head run \<noteq> ll_tail run" "\<not> live (ts_heap s) (ll_head run)" "\<not> live (ts_heap s) (ll_tail run)"
  obtains h0 h where "aws_linked_list_init (zero_list (ts_heap s) run) run = Inr h0"
    "aws_linked_list_swap_contents h0 run (ts_asap_list s) = Inr h" "moving run (s\<lparr>ts_heap := h\<rparr>) A [] L Q"
    "\<forall>a. live h a \<longleftrightarrow> a \<in> {ll_head run, ll_tail run} \<or> live (ts_heap s) a"
proof -
  note e = sched_repD [OF r]
  let ?N = "{ll_head run, ll_tail run}"
  let ?z = "zero_list (ts_heap s) run"
  have lv: "live (ts_heap s) a" if "a \<in> sched_area s A L Q" for a
    using that is_listD(2) [OF e(2)] is_listD(2) [OF e(3)] e(8) by (auto simp: area_simps runnable_def)
  then have dj: "?N \<inter> sched_area s A L Q = {}" using fr by auto
  obtain h0 where h0: "aws_linked_list_init ?z run = Inr h0" "is_list h0 run []" "agree_off ?N ?z h0"
    by (rule ll_init_ok [of ?z run]) (use fr(1) in \<open>auto simp: zero_list_def live_def\<close>)
  have same: "h0 a = ts_heap s a" if "a \<notin> ?N" for a using h0(3) that by (simp add: agree_off_def zero_list_def)
  have l0: "is_list h0 (ts_asap_list s) A" "is_list h0 (ts_timed_list s) L"
    using is_list_agree [OF e(2), of h0] is_list_agree [OF e(3), of h0] same dj unfolding sched_area_def by blast+
  obtain h where h: "aws_linked_list_swap_contents h0 run (ts_asap_list s) = Inr h" "is_list h run A" "is_list h (ts_asap_list s) []"
    "agree_off (set (all_nodes run []) \<union> set (all_nodes (ts_asap_list s) A)) h0 h"
    by (rule ll_swap_contents_ok [OF h0(2) l0(1)]) (use dj in \<open>auto simp: area_simps\<close>)
  let ?s = "s\<lparr>ts_heap := h\<rparr>"
  have same2: "h a = ts_heap s a" if "a \<notin> ?N" "a \<notin> set (all_nodes (ts_asap_list s) A)" for a
    using h(4) same that by (simp add: agree_off_def)
  have live: "live h a \<longleftrightarrow> a \<in> ?N \<or> live (ts_heap s) a" for a
    using h(4) h0(3) by (auto simp: agree_off_def zero_list_def live_def)
  have lt: "is_list h (ts_timed_list s) L"
    by (rule is_list_frame [OF l0(2) h(4)]) (use dj e(5) in \<open>auto simp: area_simps\<close>)
  have qh: "queue_holds ?s Q" by (rule queue_holds_frame [OF e(4)]) simp_all
  have rn: "runnable ?s t" if "t \<in> set A \<union> set L \<union> Q" for t using e(8) that live by (auto simp: runnable_def)
  have "nx h t = None" if "t \<in> Q" for t
  proof -
    have "t \<notin> ?N" "t \<notin> set (all_nodes (ts_asap_list s) A)" using that dj e(6) unfolding sched_area_def by blast+
    from same2 [OF this] show ?thesis using e(7) that by (simp add: nx_def)
  qed
  then have rep: "sched_rep ?s [] L Q"
    unfolding sched_rep_def using e(1,5,6,9,10) h(3) lt qh rn by auto
  have "set (all_nodes run A) \<inter> sched_area ?s [] L Q = {}"
    using dj e(5,6) is_listD(1) [OF e(2)] by (auto simp: area_simps all_nodes_def)
  then have "moving run ?s A [] L Q" using rep h(2) rn by (simp add: moving_def)
  with h0(1) h(1) live show thesis by (intro that) auto
qed

lemma sched_rep_free_stack:
  assumes m: "moving run s [] A L Q"
  shows "sched_rep (s\<lparr>ts_heap := (ts_heap s)(ll_head run := None, ll_tail run := None)\<rparr>) A L Q"
proof (rule sched_rep_frame [OF movingD(1) [OF m]])
  have "a \<noteq> ll_head run" "a \<noteq> ll_tail run" if "a \<in> sched_area s A L Q" for a using movingD(3) [OF m] that by auto
  then show "\<forall>a \<in> sched_area s A L Q. ts_heap (s\<lparr>ts_heap := (ts_heap s)(ll_head run := None, ll_tail run := None)\<rparr>) a =
      ts_heap s a \<and> ts_tasks (s\<lparr>ts_heap := (ts_heap s)(ll_head run := None, ll_tail run := None)\<rparr>) a = ts_tasks s a" by simp
qed simp_all

lemma s_run_all_ok:
  assumes r: "sched_rep s A L Q" and fr: "ll_head run \<noteq> ll_tail run" "\<not> live (ts_heap s) (ll_head run)" "\<not> live (ts_heap s) (ll_tail run)"
    and c: "may_schedule new code st" and f: "length A + length L + card Q < fuel"
  obtains s' D A' L' Q' where "s_run_all fuel code run s now st = Inr s'" "sched_rep s' A' L' Q'"
    "ts_calls s' = ts_calls s @ map (\<lambda>t. (t, st)) (A @ D)" "distinct D" "sorted_wrt (\<lambda>a b. task_time s a \<le> task_time s b) D"
    "set D = {t \<in> set L \<union> Q. task_time s t \<le> now}" "{t \<in> set L \<union> Q. now < task_time s t} \<subseteq> set L' \<union> Q'"
    "\<not> new \<longrightarrow> A' = [] \<and> set L' \<union> Q' = {t \<in> set L \<union> Q. now < task_time s t}"
    "\<forall>t \<in> set L \<union> Q. now < task_time s t \<longrightarrow> task_time s' t = task_time s t" "\<forall>a. live (ts_heap s') a = live (ts_heap s) a"
proof -
  obtain h0 h where h: "aws_linked_list_init (zero_list (ts_heap s) run) run = Inr h0"
    "aws_linked_list_swap_contents h0 run (ts_asap_list s) = Inr h" and m: "moving run (s\<lparr>ts_heap := h\<rparr>) A [] L Q"
    and lv: "\<forall>a. live h a \<longleftrightarrow> a \<in> {ll_head run, ll_tail run} \<or> live (ts_heap s) a"
    by (rule start_running [OF r fr])
  let ?s = "s\<lparr>ts_heap := h\<rparr>"
  from move_due_ok [OF m, of fuel now] f obtain s1 s2 D L1 Q1 where a: "move_timed_loop fuel ?s run now = Inr s1"
    "move_queue_loop fuel s1 run now = Inr s2" "kept ?s s2" "moving run s2 (A @ D) [] L1 Q1"
    "sorted_wrt (\<lambda>a b. task_time s a \<le> task_time s b) D" "distinct D" "set D = {t \<in> set L \<union> Q. task_time s t \<le> now}"
    "set L1 \<union> Q1 = {t \<in> set L \<union> Q. now < task_time s t}" by auto
  have "finite Q" using sched_repD(4) [OF r] by (simp add: queue_holds_def)
  then have "card (set D) \<le> card (set L \<union> Q)" unfolding a(7) by (intro card_mono) auto
  also have "\<dots> \<le> length L + card Q" using card_Un_le [of "set L" Q] card_length [of L] by linarith
  finally have "length (A @ D) < fuel" using f distinct_card [OF a(6)] by simp
  from run_tasks_loop_ok [OF a(4) c this] obtain s3 A' L' Q' where b: "run_tasks_loop fuel code s2 run st = Inr s3"
    "ts_calls s3 = ts_calls s2 @ map (\<lambda>t. (t, st)) (A @ D)" "moving run s3 [] A' L' Q'" "grown new s2 [] L1 Q1 s3 A' L' Q'" by blast
  let ?s' = "s3\<lparr>ts_heap := (ts_heap s3)(ll_head run := None, ll_tail run := None)\<rparr>"
  note g = b(4) [unfolded grown_def]
  have k: "ts_tasks s2 = ts_tasks s" "ts_calls s2 = ts_calls s" "\<forall>a. live (ts_heap s2) a = live h a" using a(3) by (auto simp: kept_def)
  show thesis
  proof (rule that)
    show "s_run_all fuel code run s now st = Inr ?s'" using h a(1,2) b(1) by (simp add: s_run_all_def)
    show "sched_rep ?s' A' L' Q'" by (rule sched_rep_free_stack [OF b(3)])
    show "ts_calls ?s' = ts_calls s @ map (\<lambda>t. (t, st)) (A @ D)" using b(2) k(2) by simp
    show "{t \<in> set L \<union> Q. now < task_time s t} \<subseteq> set L' \<union> Q'" using g a(8) by auto
    show "\<not> new \<longrightarrow> A' = [] \<and> set L' \<union> Q' = {t \<in> set L \<union> Q. now < task_time s t}" using g a(8) by auto
    show "\<forall>t \<in> set L \<union> Q. now < task_time s t \<longrightarrow> task_time ?s' t = task_time s t" using g a(8) k(1) by auto
    show "\<forall>a. live (ts_heap ?s') a = live (ts_heap s) a" using g k(3) lv fr(2,3) by (auto simp: live_def)
  qed (use a in auto)
qed

section \<open>Queries, scheduling and cancelling\<close>

lemma has_tasks_ok:
  assumes r: "sched_rep s A L Q"
  shows "aws_task_scheduler_has_tasks s = Inr (A \<noteq> [] \<or> L \<noteq> [] \<or> Q \<noteq> {},
    if A \<noteq> [] then 0 else Min (insert UINT64_MAX (task_time s ` (set L \<union> Q))))"
proof -
  note e = sched_repD [OF r]
  have fin: "finite Q" using e(4) by (simp add: queue_holds_def)
  have mx: "(x :: u64) \<le> UINT64_MAX" for x by (simp add: UINT64_MAX_def)
  show ?thesis
  proof (cases "A = []")
    case False
    then show ?thesis using ll_empty_ok [OF e(2)] by (simp add: aws_task_scheduler_has_tasks_def)
  next
    case A: True
    define v where "v = (if L = [] then UINT64_MAX else task_time s (hd L))"
    have v: "v = Min (insert UINT64_MAX (task_time s ` set L))"
    proof (cases L)
      case (Cons x xs)
      then show ?thesis using e(10) mx by (intro Min_eqI [symmetric]) (auto simp: v_def)
    qed (simp add: v_def)
    have first: "(if L \<noteq> [] then bind_res (aws_linked_list_front (ts_heap s) (ts_timed_list s)) (\<lambda>node.
        bind_res (load_task s node) (\<lambda>task. Inr (True, tk_timestamp task))) else Inr (False, UINT64_MAX)) = Inr (L \<noteq> [], v)"
    proof (cases L)
      case (Cons x xs)
      then obtain k where "load_task s (Some x) = Inr k" "tk_timestamp k = task_time s x" using load_task_time [of s x] e(8) by auto
      with Cons ll_front_ok [OF e(3) [unfolded Cons]] show ?thesis by (simp add: v_def)
    qed (simp add: v_def)
    have st: "aws_task_scheduler_has_tasks s = bind_res (timed_queue_top s) (\<lambda>top. case top of
        None \<Rightarrow> Inr (L \<noteq> [], v) | Some a \<Rightarrow> bind_res (load_task s (Some a)) (\<lambda>task.
          Inr (True, if tk_timestamp task < v then tk_timestamp task else v)))"
      using ll_empty_ok [OF e(2)] ll_empty_ok [OF e(3)] first A by (simp add: aws_task_scheduler_has_tasks_def)
    show ?thesis
    proof (cases "Q = {}")
      case True
      then show ?thesis using st queue_top_ok(1) [OF e(4)] A v by simp
    next
      case False
      let ?x = "fst (pq_entries (timed_queue s) ! 0)"
      have x: "timed_queue_top s = Inr (Some ?x)" "?x \<in> Q" using queue_top_ok(2) [OF e(4) False] by auto
      obtain k where k: "load_task s (Some ?x) = Inr k" "tk_timestamp k = task_time s ?x" using load_task_time e(8) x(2) by blast
      have m1: "Min (task_time s ` Q) = task_time s ?x"
        by (rule Min_eqI) (use fin x(2) queue_top_least [OF e(4)] in auto)
      have m2: "Min (insert UINT64_MAX (task_time s ` (set L \<union> Q))) = min v (Min (task_time s ` Q))"
        unfolding v by (subst Min_Un [symmetric]) (use fin False in \<open>auto simp: image_Un\<close>)
      have "aws_task_scheduler_has_tasks s = Inr (True, if task_time s ?x < v then task_time s ?x else v)"
        using st x(1) k by simp
      then show ?thesis unfolding m2 m1 using A False by (simp add: min_def not_less [symmetric])
    qed
  qed
qed

text \<open>What scheduling the task \<open>t\<close> changes.\<close>

lemma scheduledI:
  assumes "sched_rep s A L Q" "only_changed (insert t (sched_area s A L Q)) t s s'"
    "(\<exists>B. A' = A @ B) \<and> set L \<subseteq> set L' \<and> Q \<subseteq> Q'" "t \<notin> sched_area s A L Q"
  shows "grown True s A L Q s' A' L' Q'"
proof -
  have "task_time s' a = task_time s a" if "a \<in> set L \<union> Q" for a
    using assms(2,4) that by (auto simp: only_changed_def timestamp_of_def area_simps)
  then show ?thesis using assms(2,3) by (auto simp: grown_def only_changed_def)
qed

lemma reset_task_ok:
  assumes r: "sched_rep s A L Q" and t: "t \<notin> sched_area s A L Q" "runnable s t"
  obtains s1 where "reset_task s t tm = Inr s1" "sched_rep s1 A L Q" "runnable s1 t" "task_time s1 t = tm" "nx (ts_heap s1) t = None"
    "only_changed {t} t s s1"
proof -
  obtain k where k: "ts_tasks s t = Some k" "tk_fn k \<noteq> None" "live (ts_heap s) t" using t(2) by (auto simp: runnable_def)
  let ?h = "(ts_heap s)(t \<mapsto> \<lparr>n_next = None, n_prev = None\<rparr>)"
  let ?s = "s\<lparr>ts_tasks := (ts_tasks s)(t \<mapsto> k\<lparr>tk_timestamp := tm\<rparr>), ts_heap := ?h,
    ts_timed_queue := (ts_timed_queue s)\<lparr>pq_nodes := (pq_nodes (ts_timed_queue s))(t := SIZE_MAX)\<rparr>\<rparr>"
  have e: "reset_task s t tm = Inr ?s"
    using k by (simp add: reset_task_def load_task_def aws_linked_list_node_reset_def store_node_def load_node_eq)
  have q: "t \<notin> Q" using t(1) by (simp add: area_simps)
  show thesis
  proof (rule that [OF e])
    show "sched_rep ?s A L Q" by (rule sched_rep_frame [OF r]) (use t(1) q in auto)
    show "runnable ?s t" using k by (simp add: runnable_def live_def)
    show "only_changed {t} t s ?s" using k(3) by (auto simp: only_changed_def live_def)
  qed (simp_all add: timestamp_of_def nx_def)
qed

lemma set_scheduled_ok:
  assumes "runnable s t"
  obtains s' k where "set_scheduled s t = Inr s'" "ts_tasks s t = Some k" "s' = s\<lparr>ts_tasks := (ts_tasks s)(t \<mapsto> k\<lparr>tk_scheduled := True\<rparr>)\<rparr>"
    "\<forall>a. task_time s' a = task_time s a" "\<forall>a. runnable s' a = runnable s a"
proof -
  obtain k where k: "ts_tasks s t = Some k" using assms by (auto simp: runnable_def)
  then show thesis
    by (intro that [of _ k]) (auto simp: set_scheduled_def load_task_def timestamp_of_def runnable_def split: if_splits)
qed

lemma only_changed_trans:
  "only_changed N t s s1 \<Longrightarrow> only_changed N' t s1 s2 \<Longrightarrow> N \<subseteq> N' \<Longrightarrow> only_changed N' t s s2"
  unfolding only_changed_def by (metis subsetD)

text \<open>
  The common end of the scheduling functions: the task \<open>t\<close> is in one of the lists or in the queue and is marked as
  scheduled.
\<close>

lemma added_task_ok:
  assumes r: "sched_rep s A L Q" and t: "runnable s t"
    and l: "is_list h (ts_asap_list s) A'" "is_list h (ts_timed_list s) L'" "\<forall>a. live h a = live (ts_heap s) a"
    and q: "queue_holds (s\<lparr>ts_heap := h, ts_timed_queue := q\<rparr>) Q'" "\<forall>a \<in> Q'. nx h a = None"
    and dj: "set (all_nodes (ts_asap_list s) A') \<inter> set (all_nodes (ts_timed_list s) L') = {}"
      "Q' \<inter> (set (all_nodes (ts_asap_list s) A') \<union> set (all_nodes (ts_timed_list s) L')) = {}"
    and so: "sorted_wrt (\<lambda>a b. task_time s a \<le> task_time s b) L'" and sub: "set A' \<union> set L' \<union> Q' \<subseteq> insert t (set A \<union> set L \<union> Q)"
    and ch: "\<forall>a. a \<notin> N \<longrightarrow> h a = ts_heap s a"
  obtains s' where "set_scheduled (s\<lparr>ts_heap := h, ts_timed_queue := q\<rparr>) t = Inr s'" "sched_rep s' A' L' Q'"
    "only_changed N t s s'" "task_time s' t = task_time s t"
proof -
  let ?s = "s\<lparr>ts_heap := h, ts_timed_queue := q\<rparr>"
  note e = sched_repD [OF r]
  have rn: "runnable ?s a = runnable s a" for a using l(3) by (simp add: runnable_def)
  obtain s' k where s': "set_scheduled ?s t = Inr s'" "ts_tasks ?s t = Some k"
    "s' = ?s\<lparr>ts_tasks := (ts_tasks ?s)(t \<mapsto> k\<lparr>tk_scheduled := True\<rparr>)\<rparr>"
    "\<forall>a. task_time s' a = task_time ?s a" "\<forall>a. runnable s' a = runnable ?s a"
    by (rule set_scheduled_ok [of ?s t]) (use rn t in auto)
  have "queue_holds s' Q'" by (rule queue_holds_frame [OF q(1)]) (use s'(4) in \<open>simp_all add: s'(3)\<close>)
  moreover have "sorted_wrt (\<lambda>a b. task_time s' a \<le> task_time s' b) L'" using so s'(4) by simp
  moreover have "\<forall>a \<in> set A' \<union> set L' \<union> Q'. runnable s' a \<and> (\<exists>k. ts_tasks s' a = Some k \<and> tk_scheduled k)"
  proof
    fix a assume "a \<in> set A' \<union> set L' \<union> Q'"
    then have "a = t \<or> a \<in> set A \<union> set L \<union> Q" using sub by blast
    then show "runnable s' a \<and> (\<exists>k. ts_tasks s' a = Some k \<and> tk_scheduled k)"
      using e(8,9) t s'(5) rn by (cases "a = t") (auto simp: s'(3))
  qed
  ultimately have "sched_rep s' A' L' Q'" unfolding sched_rep_def using e(1) l q(2) dj by (simp add: s'(3))
  moreover have "only_changed N t s s'" using l(3) ch by (auto simp: only_changed_def s'(3))
  ultimately show thesis using that s'(1,4) by simp
qed

lemma schedule_now_ok:
  assumes r: "sched_rep s A L Q" and t: "t \<notin> sched_area s A L Q" "runnable s t"
  obtains s' where "aws_task_scheduler_schedule_now s t = Inr s'" "sched_rep s' (A @ [t]) L Q"
    "only_changed (insert t (sched_area s A L Q)) t s s'" "task_time s' t = 0"
proof -
  obtain s1 where s1: "reset_task s t 0 = Inr s1" "sched_rep s1 A L Q" "runnable s1 t" "task_time s1 t = 0" "nx (ts_heap s1) t = None"
    "only_changed {t} t s s1"
    by (rule reset_task_ok [OF r t])
  note e = sched_repD [OF s1(2)]
  have ar: "sched_area s1 A L Q = sched_area s A L Q" using s1(6) by (simp add: only_changed_def sched_area_def)
  have t1: "t \<notin> set (all_nodes (ts_asap_list s1) A)" "t \<notin> set (all_nodes (ts_timed_list s1) L)" "t \<notin> Q"
    using t(1) unfolding ar [symmetric] by (simp_all add: area_simps)
  let ?N = "set (all_nodes (ts_asap_list s1) (A @ [t]))"
  obtain h where h: "aws_linked_list_push_back (ts_heap s1) (ts_asap_list s1) (Some t) = Inr h" "is_list h (ts_asap_list s1) (A @ [t])"
    "agree_off ?N (ts_heap s1) h"
    by (rule ll_push_back_ok [OF e(2) t1(1)]) (use s1(3) in \<open>simp add: runnable_def\<close>)
  have nd: "?N = insert t (set (all_nodes (ts_asap_list s1) A))" by auto
  have fr: "?N \<inter> set (all_nodes (ts_timed_list s1) L) = {}" "Q \<inter> (?N \<union> set (all_nodes (ts_timed_list s1) L)) = {}"
    using t1 e(5,6) unfolding nd by blast+
  have nxQ: "\<forall>a \<in> Q. nx h a = None" using agree_off_nx [OF h(3)] e(7) fr(2) by (metis IntI UnI1 empty_iff)
  have ch: "\<forall>a. a \<notin> insert t (sched_area s A L Q) \<longrightarrow> h a = ts_heap s1 a"
    using agree_off_same [OF h(3)] nd unfolding ar [symmetric] by (metis Un_iff insert_iff sched_area_def)
  have qh: "queue_holds (s1\<lparr>ts_heap := h, ts_timed_queue := ts_timed_queue s1\<rparr>) Q" by (rule queue_holds_frame [OF e(4)]) simp_all
  obtain s' where s': "set_scheduled (s1\<lparr>ts_heap := h, ts_timed_queue := ts_timed_queue s1\<rparr>) t = Inr s'" "sched_rep s' (A @ [t]) L Q"
    "only_changed (insert t (sched_area s A L Q)) t s1 s'" "task_time s' t = task_time s1 t"
    by (rule added_task_ok [OF s1(2,3) h(2) is_list_frame [OF e(3) h(3) fr(1)] _ qh nxQ fr e(10) _ ch])
      (use h(3) in \<open>auto simp: agree_off_def\<close>)
  from only_changed_trans [OF s1(6) s'(3)] s'(2,4) s1(4) show thesis
    using s1(1) h(1) s'(1) by (intro that) (simp_all add: aws_task_scheduler_schedule_now_def)
qed

text \<open>Neighbours in a list, and insertion into a sorted one.\<close>

lemma list_next:
  assumes "is_list h l (us @ x # vs)"
  shows "load_next h (Some x) = Inr (Some (hd (vs @ [ll_tail l])))"
  using is_listD [OF assms] by (cases vs) (auto simp: all_nodes_def chain_append [of _ _ "_ # _", simplified])

lemma list_first:
  assumes "is_list h l xs"
  shows "load_next h (head_of l) = Inr (Some (hd (xs @ [ll_tail l])))"
  using is_listD [OF assms] by (cases xs) (auto simp: all_nodes_def)

lemma sorted_insert:
  assumes "sorted_wrt (\<lambda>a b. (f a :: u64) \<le> f b) (ps @ ws)" "\<forall>p \<in> set ps. f p \<le> f t" "ws \<noteq> [] \<longrightarrow> f t < f (hd ws)"
  shows "sorted_wrt (\<lambda>a b. f a \<le> f b) (ps @ t # ws)"
  using assms by (cases ws) (auto simp: sorted_wrt_append intro: less_imp_le less_le_trans)

lemma sorted_wrt_remove: "sorted_wrt P xs \<Longrightarrow> sorted_wrt P (remove1 x xs)"
  by (induction xs) (auto dest: set_remove1_subset [THEN subsetD])

lemma timed_list_position_ok:
  assumes l: "is_list (ts_heap s) (ts_timed_list s) (us @ vs)" and rn: "\<forall>t \<in> set vs. runnable s t" and f: "length vs < fuel"
  shows "\<exists>ps ws. timed_list_position fuel s (Some (hd (vs @ [ll_tail (ts_timed_list s)]))) tm =
      Inr (Some (hd (ws @ [ll_tail (ts_timed_list s)]))) \<and> vs = ps @ ws \<and>
    (\<forall>p \<in> set ps. task_time s p \<le> tm) \<and> (ws \<noteq> [] \<longrightarrow> tm < task_time s (hd ws))"
  using assms
proof (induction vs arbitrary: us fuel)
  case Nil
  then show ?case by (cases fuel) (auto simp: aws_linked_list_end_def)
next
  case (Cons x vs)
  then obtain n where n: "fuel = Suc n" "length vs < n" by (cases fuel) auto
  obtain k where k: "load_task s (Some x) = Inr k" "tk_timestamp k = task_time s x" using load_task_time [of s x] Cons.prems(2) by auto
  have ne: "x \<noteq> ll_tail (ts_timed_list s)" using is_listD(1) [OF Cons.prems(1)] by (auto simp: all_nodes_def)
  show ?case
  proof (cases "tm < task_time s x")
    case True
    then show ?thesis using n k ne by (intro exI [of _ "[]"] exI [of _ "x # vs"]) (simp add: aws_linked_list_end_def)
  next
    case False
    have "is_list (ts_heap s) (ts_timed_list s) ((us @ [x]) @ vs)" using Cons.prems(1) by simp
    from Cons.IH [OF this _ n(2)] Cons.prems(2)
    have "\<exists>ps ws. timed_list_position n s (Some (hd (vs @ [ll_tail (ts_timed_list s)]))) tm =
        Inr (Some (hd (ws @ [ll_tail (ts_timed_list s)]))) \<and> vs = ps @ ws \<and>
      (\<forall>p \<in> set ps. task_time s p \<le> tm) \<and> (ws \<noteq> [] \<longrightarrow> tm < task_time s (hd ws))" by simp
    then obtain ps ws where p:
      "timed_list_position n s (Some (hd (vs @ [ll_tail (ts_timed_list s)]))) tm = Inr (Some (hd (ws @ [ll_tail (ts_timed_list s)])))"
      "vs = ps @ ws" "\<forall>p \<in> set ps. task_time s p \<le> tm" "ws \<noteq> [] \<longrightarrow> tm < task_time s (hd ws)" by blast
    have nx: "aws_linked_list_next (ts_heap s) (Some x) = Inr (Some (hd (vs @ [ll_tail (ts_timed_list s)])))"
      using list_next [OF Cons.prems(1)] by (simp add: aws_linked_list_next_def)
    show ?thesis using n(1) k ne False p nx
      by - (rule exI [of _ "x # ps"], rule exI [of _ ws], simp add: aws_linked_list_end_def not_less leD)
  qed
qed

text \<open>The two ways in which a timed task is added after its members are set: to the queue, or sorted into the list.\<close>

lemma add_to_queue_ok:
  assumes r: "sched_rep s A L Q" and t: "t \<notin> sched_area s A L Q" "runnable s t" "nx (ts_heap s) t = None"
    and room: "pq_room (timed_queue s) 1"
  obtains q s' where "aws_priority_queue_push_ref (timed_queue s) t (Some t) = (AWS_OP_SUCCESS, q)"
    "set_scheduled (s\<lparr>ts_timed_queue := q\<rparr>) t = Inr s'" "sched_rep s' A L (insert t Q)"
    "only_changed (insert t (sched_area s A L Q)) t s s'" "task_time s' t = task_time s t"
proof -
  note e = sched_repD [OF r]
  have t1: "t \<notin> set (all_nodes (ts_asap_list s) A)" "t \<notin> set (all_nodes (ts_timed_list s) L)" "t \<notin> Q"
    using t(1) by (simp_all add: area_simps)
  obtain q where q: "aws_priority_queue_push_ref (timed_queue s) t (Some t) = (AWS_OP_SUCCESS, q)"
    "\<forall>s'. ts_timed_queue s' = q \<longrightarrow> ts_tasks s' = ts_tasks s \<longrightarrow> queue_holds s' (insert t Q)"
    by (rule queue_push_ok [OF e(4) t1(3) room])
  obtain s' where s': "set_scheduled (s\<lparr>ts_heap := ts_heap s, ts_timed_queue := q\<rparr>) t = Inr s'" "sched_rep s' A L (insert t Q)"
    "only_changed (insert t (sched_area s A L Q)) t s s'" "task_time s' t = task_time s t"
    by (rule added_task_ok [OF r t(2) e(2,3), of q "insert t Q" "insert t (sched_area s A L Q)"])
      (use q(2) e t1 t(3) in \<open>auto simp: Int_insert_left\<close>)
  then show thesis by (intro that [OF q(1), of s']) simp_all
qed

lemma add_to_list_ok:
  assumes r: "sched_rep s A L Q" and t: "t \<notin> sched_area s A L Q" "runnable s t" and f: "length L < fuel"
  obtains b h s' ps ws where "aws_linked_list_begin (ts_heap s) (ts_timed_list s) = Inr b"
    "timed_list_position fuel s b (task_time s t) = Inr (Some (hd (ws @ [ll_tail (ts_timed_list s)])))"
    "aws_linked_list_insert_before (ts_heap s) (Some (hd (ws @ [ll_tail (ts_timed_list s)]))) (Some t) = Inr h"
    "set_scheduled (s\<lparr>ts_heap := h\<rparr>) t = Inr s'" "L = ps @ ws" "sched_rep s' A (ps @ t # ws) Q"
    "only_changed (insert t (sched_area s A L Q)) t s s'" "task_time s' t = task_time s t"
proof -
  note e = sched_repD [OF r]
  have t1: "t \<notin> set (all_nodes (ts_asap_list s) A)" "t \<notin> set (all_nodes (ts_timed_list s) L)" "t \<notin> Q"
    using t(1) by (simp_all add: area_simps)
  let ?C = "insert t (sched_area s A L Q)"
  from timed_list_position_ok [of s "[]" L fuel "task_time s t"] e(3,8) f
  obtain ps ws where w: "timed_list_position fuel s (Some (hd (L @ [ll_tail (ts_timed_list s)]))) (task_time s t) =
      Inr (Some (hd (ws @ [ll_tail (ts_timed_list s)])))" "L = ps @ ws" "\<forall>p \<in> set ps. task_time s p \<le> task_time s t"
    "ws \<noteq> [] \<longrightarrow> task_time s t < task_time s (hd ws)" by (metis UnI1 UnI2 append_Nil)
  let ?N = "set (all_nodes (ts_timed_list s) (ps @ t # ws))"
  have nd: "?N = insert t (set (all_nodes (ts_timed_list s) L))" by (auto simp: w(2))
  obtain h where h: "aws_linked_list_insert_before (ts_heap s) (Some (hd (ws @ [ll_tail (ts_timed_list s)]))) (Some t) = Inr h"
    "is_list h (ts_timed_list s) (ps @ t # ws)" "agree_off ?N (ts_heap s) h"
    by (rule ll_insert_before_ok [OF e(3) [unfolded w(2)] t1(2) [unfolded w(2)]]) (use t(2) in \<open>simp_all add: runnable_def\<close>)
  have fr: "?N \<inter> set (all_nodes (ts_asap_list s) A) = {}" "set (all_nodes (ts_asap_list s) A) \<inter> ?N = {}"
    "Q \<inter> (set (all_nodes (ts_asap_list s) A) \<union> ?N) = {}" using t1 e(5,6) unfolding nd by blast+
  have nxQ: "\<forall>a \<in> Q. nx h a = None" using agree_off_nx [OF h(3)] e(7) fr(3) by (metis IntI UnI2 empty_iff)
  have ch: "\<forall>a. a \<notin> ?C \<longrightarrow> h a = ts_heap s a"
    using agree_off_same [OF h(3)] nd by (metis Un_iff insert_iff sched_area_def)
  have qh: "queue_holds (s\<lparr>ts_heap := h, ts_timed_queue := ts_timed_queue s\<rparr>) Q" by (rule queue_holds_frame [OF e(4)]) simp_all
  note so = sorted_insert [OF e(10) [unfolded w(2)] w(3,4)]
  obtain s' where s': "set_scheduled (s\<lparr>ts_heap := h, ts_timed_queue := ts_timed_queue s\<rparr>) t = Inr s'" "sched_rep s' A (ps @ t # ws) Q"
    "only_changed ?C t s s'" "task_time s' t = task_time s t"
    by (rule added_task_ok [OF r t(2) is_list_frame [OF e(2) h(3) fr(1)] h(2) _ qh nxQ fr(2,3) so _ ch])
      (use h(3) w(2) in \<open>auto simp: agree_off_def\<close>)
  have bg: "aws_linked_list_begin (ts_heap s) (ts_timed_list s) = Inr (Some (hd (L @ [ll_tail (ts_timed_list s)])))"
    using list_first [OF e(3)] by (simp add: aws_linked_list_begin_def)
  show thesis by (rule that [OF bg w(1) h(1) _ w(2) s'(2-4)]) (use s'(1) in simp)
qed

lemma schedule_future_ok:
  assumes r: "sched_rep s A L Q" and t: "t \<notin> sched_area s A L Q" "runnable s t" and f: "length L < fuel"
  obtains s' L' Q' where "aws_task_scheduler_schedule_future fuel s t tm = Inr s'" "sched_rep s' A L' Q'"
    "set L' \<union> Q' = insert t (set L \<union> Q)" "only_changed (insert t (sched_area s A L Q)) t s s'" "task_time s' t = tm"
    "set L \<subseteq> set L'" "Q \<subseteq> Q'"
proof -
  obtain s1 where s1: "reset_task s t tm = Inr s1" "sched_rep s1 A L Q" "runnable s1 t" "task_time s1 t = tm" "nx (ts_heap s1) t = None"
    "only_changed {t} t s s1"
    by (rule reset_task_ok [OF r t])
  have ar: "sched_area s1 A L Q = sched_area s A L Q" using s1(6) by (simp add: only_changed_def sched_area_def)
  have t1: "t \<notin> sched_area s1 A L Q" using t(1) ar by simp
  show thesis
  proof (cases "pq_room (timed_queue s1) 1")
    case True
    obtain q s' where q: "aws_priority_queue_push_ref (timed_queue s1) t (Some t) = (AWS_OP_SUCCESS, q)"
      "set_scheduled (s1\<lparr>ts_timed_queue := q\<rparr>) t = Inr s'" "sched_rep s' A L (insert t Q)"
      "only_changed (insert t (sched_area s A L Q)) t s1 s'" "task_time s' t = task_time s1 t"
      by (rule add_to_queue_ok [OF s1(2) t1 s1(3,5) True, unfolded ar])
    have "aws_task_scheduler_schedule_future fuel s t tm = Inr s'"
      using s1(1) q(1,2) by (simp add: aws_task_scheduler_schedule_future_def)
    then show thesis by (rule that [OF _ q(3)]) (use only_changed_trans [OF s1(6) q(4)] q(5) s1(4) in auto)
  next
    case False
    note p = queue_push_full [OF sched_repD(4) [OF s1(2)] False, of t "Some t"]
    let ?s = "s1\<lparr>ts_timed_queue := timed_queue s1\<rparr>"
    have oc: "only_changed {t} t s ?s" "sched_area ?s A L Q = sched_area s A L Q" "task_time ?s t = tm"
      using s1(4,6) by (simp_all add: only_changed_def sched_area_def)
    have rep: "sched_rep ?s A L Q" by (rule sched_rep_frame [OF s1(2)]) simp_all
    have rn: "runnable ?s t" using s1(3) by (simp add: runnable_def)
    obtain b h s' ps ws where w: "aws_linked_list_begin (ts_heap ?s) (ts_timed_list ?s) = Inr b"
      "timed_list_position fuel ?s b (task_time ?s t) = Inr (Some (hd (ws @ [ll_tail (ts_timed_list ?s)])))"
      "aws_linked_list_insert_before (ts_heap ?s) (Some (hd (ws @ [ll_tail (ts_timed_list ?s)]))) (Some t) = Inr h"
      "set_scheduled (?s\<lparr>ts_heap := h\<rparr>) t = Inr s'" "L = ps @ ws" "sched_rep s' A (ps @ t # ws) Q"
      "only_changed (insert t (sched_area ?s A L Q)) t ?s s'" "task_time s' t = task_time ?s t"
      by (rule add_to_list_ok [OF rep t(1) [folded oc(2)] rn f])
    have "aws_task_scheduler_schedule_future fuel s t tm = Inr s'"
      using s1(1,4) p w(1-4) by (simp add: aws_task_scheduler_schedule_future_def Let_def)
    then show thesis
      by (rule that [OF _ w(6)]) (use only_changed_trans [OF oc(1) w(7) [unfolded oc(2)]] w(5,8) oc(3) in auto)
  qed
qed

lemma remove_from_list:
  assumes l: "is_list h l xs" and x: "x \<in> set xs"
  obtains n h' where "load_next h (Some x) = Inr (Some n)" "aws_linked_list_remove h (Some x) = Inr h'" "is_list h' l (remove1 x xs)"
    "agree_off (set (all_nodes l xs)) h h'"
proof -
  obtain us vs where sp: "xs = us @ x # vs" using x by (auto simp: in_set_conv_decomp)
  have d: "x \<notin> set us" using is_listD(1) [OF l] sp by (simp add: all_nodes_def)
  have rm: "remove1 x xs = us @ vs" using d by (simp add: sp remove1_append)
  obtain h' where h': "aws_linked_list_remove h (Some x) = Inr h'" "is_list h' l (us @ vs)" "agree_off (set (all_nodes l (us @ x # vs))) h h'"
    by (rule remove_is_list [OF l [unfolded sp]])
  show thesis using that [OF list_next [OF l [unfolded sp]] h'(1)] h'(2,3) rm sp by simp
qed

text \<open>Cancelling first takes the task out of the list or queue it is in.\<close>

lemma dequeued_rep:
  assumes r: "sched_rep s A L Q" and t: "t \<in> set A \<union> set L \<union> Q" and kp: "kept s s1"
    and l: "is_list (ts_heap s1) (ts_asap_list s) (remove1 t A)" "is_list (ts_heap s1) (ts_timed_list s) (remove1 t L)"
    and q: "queue_holds s1 (Q - {t})" "\<forall>a \<in> Q - {t}. nx (ts_heap s1) a = None"
  shows "sched_rep s1 (remove1 t A) (remove1 t L) (Q - {t})" "t \<notin> sched_area s1 (remove1 t A) (remove1 t L) (Q - {t})" "runnable s1 t"
proof -
  note e = sched_repD [OF r]
  have d: "distinct A" "distinct L" "ll_head (ts_asap_list s) \<notin> set A" "ll_tail (ts_asap_list s) \<notin> set A"
    "ll_head (ts_timed_list s) \<notin> set L" "ll_tail (ts_timed_list s) \<notin> set L"
    using is_listD(1) [OF e(2)] is_listD(1) [OF e(3)] by (simp_all add: all_nodes_def)
  show "t \<notin> sched_area s1 (remove1 t A) (remove1 t L) (Q - {t})"
    unfolding area_kept [OF kp] using t d e(5,6) by (auto simp: area_simps)
  have tot: "set (remove1 t A) \<subseteq> set A" "set (remove1 t L) \<subseteq> set L" by (rule set_remove1_subset)+
  have kk: "ts_tasks s1 = ts_tasks s" "ts_alloc s1 = ts_alloc s" "ts_asap_list s1 = ts_asap_list s" "ts_timed_list s1 = ts_timed_list s"
    using kp by (auto simp: kept_def)
  have sub: "set (remove1 t A) \<union> set (remove1 t L) \<union> (Q - {t}) \<subseteq> set A \<union> set L \<union> Q"
    "set (all_nodes l (remove1 t A)) \<subseteq> set (all_nodes l A)" "set (all_nodes l (remove1 t L)) \<subseteq> set (all_nodes l L)" for l
    using tot by auto
  have dj: "set (all_nodes (ts_asap_list s) (remove1 t A)) \<inter> set (all_nodes (ts_timed_list s) (remove1 t L)) = {}"
    "(Q - {t}) \<inter> (set (all_nodes (ts_asap_list s) (remove1 t A)) \<union> set (all_nodes (ts_timed_list s) (remove1 t L))) = {}"
    using e(5,6) sub by blast+
  have "\<forall>a \<in> set (remove1 t A) \<union> set (remove1 t L) \<union> (Q - {t}). runnable s1 a \<and> (\<exists>k. ts_tasks s a = Some k \<and> tk_scheduled k)"
    using e(8,9) sub(1) runnable_kept [OF kp] by blast
  then show "sched_rep s1 (remove1 t A) (remove1 t L) (Q - {t})"
    unfolding sched_rep_def kk using e(1) l q dj sorted_wrt_remove [OF e(10)] by blast
  show "runnable s1 t" using e(8) t runnable_kept [OF kp] by blast
qed

lemma dequeue_ok:
  assumes r: "sched_rep s A L Q" and t: "t \<in> set A \<union> set L \<union> Q"
  obtains s1 where "aws_task_scheduler_cancel_task code s t = aws_task_run code s1 t AWS_TASK_STATUS_CANCELED"
    "sched_rep s1 (remove1 t A) (remove1 t L) (Q - {t})" "t \<notin> sched_area s1 (remove1 t A) (remove1 t L) (Q - {t})" "runnable s1 t" "kept s s1"
proof -
  note e = sched_repD [OF r]
  obtain k where "ts_tasks s t = Some k" "tk_scheduled k" using e(9) t by blast
  then have k: "load_task s (Some t) = Inr k" "tk_scheduled k" by (simp_all add: load_task_def)
  have rn: "runnable s t" using e(8) t by blast
  note fin_rule = that
  have from_list: thesis if h: "load_next (ts_heap s) (Some t) = Inr (Some nd)" "aws_linked_list_remove (ts_heap s) (Some t) = Inr h"
      "is_list h (ts_asap_list s) (remove1 t A)" "is_list h (ts_timed_list s) (remove1 t L)" "agree_off N (ts_heap s) h"
      "N \<inter> Q = {}" "t \<notin> Q" for nd h N
  proof -
    let ?s = "s\<lparr>ts_heap := h\<rparr>"
    have kp: "kept s ?s" using h(5) by (simp add: kept_def agree_off_def)
    have "queue_holds ?s Q" by (rule queue_holds_frame [OF e(4)]) simp_all
    then have q: "queue_holds ?s (Q - {t})" using h(7) by simp
    have n: "\<forall>a \<in> Q - {t}. nx (ts_heap ?s) a = None"
    proof
      fix a assume a: "a \<in> Q - {t}"
      then have "a \<notin> N" using h(6) by blast
      from agree_off_nx [OF h(5) this] show "nx (ts_heap ?s) a = None" using e(7) a by simp
    qed
    have c: "aws_task_scheduler_cancel_task code s t = aws_task_run code ?s t AWS_TASK_STATUS_CANCELED"
      using k(1) h(1,2) by (simp add: aws_task_scheduler_cancel_task_def)
    show thesis by (rule fin_rule [OF c dequeued_rep [OF r t kp _ _ q n] kp]) (use h(3,4) in simp_all)
  qed
  consider "t \<in> set A" | "t \<in> set L" | "t \<in> Q" using t by blast
  then show thesis
  proof cases
    case 1
    then have n: "t \<notin> set L" "t \<notin> Q" using e(5,6) by auto
    obtain nd h where h: "load_next (ts_heap s) (Some t) = Inr (Some nd)" "aws_linked_list_remove (ts_heap s) (Some t) = Inr h"
      "is_list h (ts_asap_list s) (remove1 t A)" "agree_off (set (all_nodes (ts_asap_list s) A)) (ts_heap s) h"
      by (rule remove_from_list [OF e(2) 1])
    have "is_list h (ts_timed_list s) (remove1 t L)" using is_list_frame [OF e(3) h(4) e(5)] n by (simp add: remove1_idem)
    then show thesis by (rule from_list [OF h(1-3) _ h(4)]) (use e(6) n in blast)+
  next
    case 2
    then have n: "t \<notin> set A" "t \<notin> Q" using e(5,6) by auto
    obtain nd h where h: "load_next (ts_heap s) (Some t) = Inr (Some nd)" "aws_linked_list_remove (ts_heap s) (Some t) = Inr h"
      "is_list h (ts_timed_list s) (remove1 t L)" "agree_off (set (all_nodes (ts_timed_list s) L)) (ts_heap s) h"
      by (rule remove_from_list [OF e(3) 2])
    have "is_list h (ts_asap_list s) (remove1 t A)"
      using is_list_frame [OF e(2) h(4)] e(5) n by (simp add: remove1_idem Int_commute)
    then show thesis by (rule from_list [OF h(1,2) _ h(3,4)]) (use e(6) n in blast)+
  next
    case 3
    then have n: "t \<notin> set A" "t \<notin> set L" using e(6) by auto
    obtain q where q: "aws_priority_queue_remove (timed_queue s) t = (Inr (Item t), q)"
      "\<forall>s'. ts_timed_queue s' = q \<longrightarrow> ts_tasks s' = ts_tasks s \<longrightarrow> queue_holds s' (Q - {t})"
      by (rule queue_remove_ok [OF e(4) 3])
    let ?s = "s\<lparr>ts_timed_queue := q\<rparr>"
    have nn: "load_next (ts_heap s) (Some t) = Inr None" using e(7) rn 3 by (simp add: runnable_def)
    have c: "aws_task_scheduler_cancel_task code s t = aws_task_run code ?s t AWS_TASK_STATUS_CANCELED"
      using k nn q(1) by (simp add: aws_task_scheduler_cancel_task_def)
    have kp: "kept s ?s" by (simp add: kept_def)
    show thesis
      by (rule that [OF c dequeued_rep [OF r t kp] kp]) (use q(2) e(2,3,7) n in \<open>simp_all add: remove1_idem\<close>)
  qed
qed

lemma clean_up_ok:
  assumes r: "sched_rep s A L Q" and fr: "ll_head run \<noteq> ll_tail run" "\<not> live (ts_heap s) (ll_head run)" "\<not> live (ts_heap s) (ll_tail run)"
    and c: "may_schedule False code AWS_TASK_STATUS_CANCELED" and f: "length A + length L + card Q < fuel"
  obtains s' D where "aws_task_scheduler_clean_up (Suc (Suc n)) fuel code run s = Inr s'" "distinct D" "set D = set L \<union> Q"
    "sorted_wrt (\<lambda>a b. task_time s a \<le> task_time s b) D"
    "ts_calls s' = ts_calls s @ map (\<lambda>t. (t, AWS_TASK_STATUS_CANCELED)) (A @ D)" "ts_alloc s' = None"
proof -
  note e = sched_repD [OF r]
  have v: "aws_task_scheduler_is_valid s = Inr True"
    using e(1,4) pq_inv_valid [OF pq_okD(1) [of "timed_queue s"]] ll_is_valid_ok [OF e(2)] ll_is_valid_ok [OF e(3)]
    by (simp add: aws_task_scheduler_is_valid_def queue_holds_def)
  have mx: "(x :: u64) \<le> UINT64_MAX" for x by (simp add: UINT64_MAX_def)
  obtain s1 D A' L' Q' where s1: "s_run_all fuel code run s UINT64_MAX AWS_TASK_STATUS_CANCELED = Inr s1" "sched_rep s1 A' L' Q'"
    "ts_calls s1 = ts_calls s @ map (\<lambda>t. (t, AWS_TASK_STATUS_CANCELED)) (A @ D)" "distinct D"
    "sorted_wrt (\<lambda>a b. task_time s a \<le> task_time s b) D" "set D = {t \<in> set L \<union> Q. task_time s t \<le> UINT64_MAX}"
    "A' = []" "set L' \<union> Q' = {t \<in> set L \<union> Q. UINT64_MAX < task_time s t}"
    by (rule s_run_all_ok [OF r fr c f]) blast
  have D: "set D = set L \<union> Q" and em: "L' = []" "Q' = {}" using s1(6,8) mx by (auto simp: not_le [symmetric])
  have stop: "clean_up_loop (Suc m) fuel code run s2 = Inr s2" if "sched_rep s2 [] [] {}" for m s2
    using has_tasks_ok [OF that] by simp
  have "\<exists>s2. clean_up_loop (Suc (Suc n)) fuel code run s = Inr s2 \<and> ts_calls s2 = ts_calls s @ map (\<lambda>t. (t, AWS_TASK_STATUS_CANCELED)) (A @ D)"
  proof (cases "A = [] \<and> L = [] \<and> Q = {}")
    case True
    then show ?thesis using stop [of s "Suc n"] r D by simp
  next
    case False
    then have "clean_up_loop (Suc (Suc n)) fuel code run s = clean_up_loop (Suc n) fuel code run s1"
      using has_tasks_ok [OF r] s1(1) by simp
    then show ?thesis using stop [of s1 n] s1(2,3,7) em by simp
  qed
  then show thesis using v by (auto simp: aws_task_scheduler_clean_up_def intro!: that [OF _ s1(4) D s1(5)])
qed

lemma scheduler_init_ok:
  assumes d: "distinct [ll_head (ts_timed_list s), ll_tail (ts_timed_list s), ll_head (ts_asap_list s), ll_tail (ts_asap_list s)]"
  obtains s' where "aws_task_scheduler_init s alloc = (AWS_OP_SUCCESS, s')" "sched_rep s' [] [] {}"
    "only_changed {ll_head (ts_timed_list s), ll_tail (ts_timed_list s), ll_head (ts_asap_list s), ll_tail (ts_asap_list s)} t
       (s\<lparr>ts_alloc := Some alloc, ts_heap := zero_list (zero_list (ts_heap s) (ts_timed_list s)) (ts_asap_list s)\<rparr>) s'"
    "ts_tasks s' = ts_tasks s"
proof -
  let ?z = "zero_list (zero_list (ts_heap s) (ts_timed_list s)) (ts_asap_list s)"
  have lv: "live ?z a" if "a \<in> {ll_head (ts_timed_list s), ll_tail (ts_timed_list s), ll_head (ts_asap_list s), ll_tail (ts_asap_list s)}" for a
    using that by (auto simp: zero_list_def live_def)
  obtain h1 where h1: "aws_linked_list_init ?z (ts_timed_list s) = Inr h1" "is_list h1 (ts_timed_list s) []"
    "agree_off {ll_head (ts_timed_list s), ll_tail (ts_timed_list s)} ?z h1"
    by (rule ll_init_ok [of ?z "ts_timed_list s"]) (use lv d in auto)
  have lv1: "live h1 a = live ?z a" for a using h1(3) by (simp add: agree_off_def)
  obtain h where h: "aws_linked_list_init h1 (ts_asap_list s) = Inr h" "is_list h (ts_asap_list s) []"
    "agree_off {ll_head (ts_asap_list s), ll_tail (ts_asap_list s)} h1 h"
    by (rule ll_init_ok [of h1 "ts_asap_list s"]) (use lv lv1 d in auto)
  have lt: "is_list h (ts_timed_list s) []" by (rule is_list_frame [OF h1(2) h(3)]) (use d in auto)
  obtain q where q: "aws_priority_queue_init_dynamic (pq_nodes (ts_timed_queue s)) (Some alloc) DEFAULT_QUEUE_SIZE 8
      (s_compare_timestamps (ts_tasks s)) = (AWS_OP_SUCCESS, q)" "pq_ok q" "pq_entries q = []"
    "pq_pred q = s_compare_timestamps (ts_tasks s)" "queue_kind q = (Some alloc, 8)"
    by (rule pq_init_ok [of "Some alloc" 8 DEFAULT_QUEUE_SIZE "s_compare_timestamps (ts_tasks s)" "pq_nodes (ts_timed_queue s)"])
      (simp_all add: DEFAULT_QUEUE_SIZE_def queue_kind_def compare_preorder)
  let ?s = "s\<lparr>ts_alloc := Some alloc, ts_timed_queue := q, ts_heap := h\<rparr>"
  have i: "aws_task_scheduler_init s alloc = (AWS_OP_SUCCESS, ?s)"
    using q(1) h1(1) h(1) by (simp add: aws_task_scheduler_init_def Let_def)
  have tq: "timed_queue ?s = q" using q(4) by (simp add: timed_queue_def)
  have "queue_holds ?s {}" unfolding queue_holds_def tq using q(2,3,5) by simp
  then have "sched_rep ?s [] [] {}" unfolding sched_rep_def using h(2) lt d by simp
  moreover have "only_changed {ll_head (ts_timed_list s), ll_tail (ts_timed_list s), ll_head (ts_asap_list s), ll_tail (ts_asap_list s)} t
       (s\<lparr>ts_alloc := Some alloc, ts_heap := ?z\<rparr>) ?s"
    using h1(3) h(3) by (auto simp: only_changed_def agree_off_def)
  ultimately show thesis using that [OF i] by simp
qed

lemma repeat_code_ok:
  "may_schedule True repeat_code AWS_TASK_STATUS_RUN_READY" "may_schedule False repeat_code AWS_TASK_STATUS_CANCELED"
proof -
  show "may_schedule False repeat_code AWS_TASK_STATUS_CANCELED"
    using grown_refl by (force simp: may_schedule_def repeat_code_def)
  show "may_schedule True repeat_code AWS_TASK_STATUS_RUN_READY"
    unfolding may_schedule_def
  proof (intro allI impI, elim conjE)
    fix f t arg s A L Q P assume r: "sched_rep s A L Q" and P: "P \<inter> sched_area s A L Q = {}" and t: "t \<notin> sched_area s A L Q \<union> P" "runnable s t"
    obtain s' where s': "aws_task_scheduler_schedule_now s t = Inr s'" "sched_rep s' (A @ [t]) L Q"
      "only_changed (insert t (sched_area s A L Q)) t s s'"
      by (rule schedule_now_ok [OF r _ t(2)]) (use t in auto)
    have g: "grown True s A L Q s' (A @ [t]) L Q" by (rule scheduledI [OF r s'(3)]) (use t(1) in auto)
    have "sched_area s' (A @ [t]) L Q = insert t (sched_area s A L Q)" using s'(3) by (auto simp: only_changed_def area_simps)
    then have "P \<inter> sched_area s' (A @ [t]) L Q = {}" using P t(1) by auto
    moreover have "\<forall>a \<in> P. ts_heap s' a = ts_heap s a \<and> ts_tasks s' a = ts_tasks s a"
    proof
      fix a assume "a \<in> P"
      then have "a \<notin> insert t (sched_area s A L Q)" using P t(1) by auto
      then show "ts_heap s' a = ts_heap s a \<and> ts_tasks s' a = ts_tasks s a" using s'(3) by (simp add: only_changed_def)
    qed
    moreover have "ts_calls s' = ts_calls s" using s'(3) by (simp add: only_changed_def)
    ultimately show "\<exists>s' A' L' Q'. repeat_code f t arg AWS_TASK_STATUS_RUN_READY s = Inr s' \<and> sched_rep s' A' L' Q' \<and>
        grown True s A L Q s' A' L' Q' \<and> ts_calls s' = ts_calls s \<and> P \<inter> sched_area s' A' L' Q' = {} \<and>
        (\<forall>a \<in> P. ts_heap s' a = ts_heap s a \<and> ts_tasks s' a = ts_tasks s a)"
      using s'(1,2) g unfolding repeat_code_def by auto
  qed
qed

lemma demo_sched_ok:
  "sched_rep demo_sched [] [] {}" "\<forall>t \<in> {10, 11, 12}. runnable demo_sched t" "ts_calls demo_sched = []"
  "ts_timed_list demo_sched = \<lparr>ll_head = 0, ll_tail = 1\<rparr>" "ts_asap_list demo_sched = \<lparr>ll_head = 2, ll_tail = 3\<rparr>"
  "\<not> live (ts_heap demo_sched) 4" "\<not> live (ts_heap demo_sched) 5"
proof -
  let ?z = "demo_memory\<lparr>ts_alloc := Some 0, ts_heap := zero_list (zero_list (ts_heap demo_memory) (ts_timed_list demo_memory)) (ts_asap_list demo_memory)\<rparr>"
  obtain s where s: "aws_task_scheduler_init demo_memory 0 = (AWS_OP_SUCCESS, s)" "sched_rep s [] [] {}"
    "only_changed {ll_head (ts_timed_list demo_memory), ll_tail (ts_timed_list demo_memory), ll_head (ts_asap_list demo_memory),
      ll_tail (ts_asap_list demo_memory)} 0 ?z s" "ts_tasks s = ts_tasks demo_memory"
    by (rule scheduler_init_ok [of demo_memory 0 0]) (simp_all add: demo_memory_def aws_task_init_def)
  have e: "demo_sched = s" by (simp add: demo_sched_def s(1))
  show "sched_rep demo_sched [] [] {}" by (simp add: e s(2))
  have lv: "live (ts_heap s) a = live (ts_heap ?z) a" for a using s(3) by (simp add: only_changed_def)
  show "\<forall>t \<in> {10, 11, 12}. runnable demo_sched t"
    unfolding e runnable_def lv s(4) by (simp add: demo_memory_def aws_task_init_def zero_list_def live_def)
  show "ts_calls demo_sched = []" "ts_timed_list demo_sched = \<lparr>ll_head = 0, ll_tail = 1\<rparr>" "ts_asap_list demo_sched = \<lparr>ll_head = 2, ll_tail = 3\<rparr>"
    using s(3) unfolding e by (simp_all add: only_changed_def demo_memory_def aws_task_init_def)
  show "\<not> live (ts_heap demo_sched) 4" "\<not> live (ts_heap demo_sched) 5"
    unfolding e lv by (simp_all add: demo_memory_def aws_task_init_def zero_list_def live_def)
qed

lemma only_changedD:
  assumes "only_changed N t s s'"
  shows "ts_calls s' = ts_calls s" "ts_asap_list s' = ts_asap_list s" "ts_timed_list s' = ts_timed_list s"
    "live (ts_heap s') a = live (ts_heap s) a" "a \<noteq> t \<Longrightarrow> runnable s' a = runnable s a" "a \<noteq> t \<Longrightarrow> task_time s' a = task_time s a"
  using assms by (auto simp: only_changed_def runnable_def timestamp_of_def)

text \<open>The demonstration scheduler with the task 10 scheduled for time 5, the task 11 for time 3 and the task 12 for now.\<close>

lemma demo_schedule_ok:
  obtains s L Q where "demo_schedule = Inr s" "sched_rep s [12] L Q" "set L \<union> Q = {10, 11}" "task_time s 10 = 5" "task_time s 11 = 3"
    "ts_calls s = []" "\<not> live (ts_heap s) 4" "\<not> live (ts_heap s) 5" "length L + card Q < 5"
proof -
  note d = demo_sched_ok
  obtain s1 L1 Q1 where s1: "aws_task_scheduler_schedule_future 5 demo_sched 10 5 = Inr s1" "sched_rep s1 [] L1 Q1"
    "set L1 \<union> Q1 = {10}" and c1: "only_changed (insert 10 (sched_area demo_sched [] [] {})) 10 demo_sched s1" and t1: "task_time s1 10 = 5"
    by (rule schedule_future_ok [OF d(1), of 10 5 5]) (use d in \<open>auto simp: area_simps\<close>)
  note o1 = only_changedD [OF c1]
  have a1: "sched_area s1 [] L1 Q1 = {0, 1, 2, 3, 10}" using s1(3) d o1 unfolding area_simps by auto
  have l1: "length L1 < 5"
  proof -
    have "set L1 \<subseteq> {10}" using s1(3) by blast
    then show ?thesis
      using is_listD(1) [OF sched_repD(3) [OF s1(2)]] card_mono [of "{10}" "set L1"] by (simp add: all_nodes_def distinct_card)
  qed
  obtain s2 L2 Q2 where s2: "aws_task_scheduler_schedule_future 5 s1 11 3 = Inr s2" "sched_rep s2 [] L2 Q2"
    "set L2 \<union> Q2 = insert 11 (set L1 \<union> Q1)" and c2: "only_changed (insert 11 (sched_area s1 [] L1 Q1)) 11 s1 s2" and t2: "task_time s2 11 = 3"
    by (rule schedule_future_ok [OF s1(2), of 11 5 3]) (use d o1 l1 in \<open>auto simp: a1\<close>)
  note o2 = only_changedD [OF c2]
  have a2: "sched_area s2 [] L2 Q2 = {0, 1, 2, 3, 10, 11}" using s2(3) s1(3) d o1 o2 unfolding area_simps by auto
  obtain s where s: "aws_task_scheduler_schedule_now s2 12 = Inr s" "sched_rep s [12] L2 Q2"
    and c3: "only_changed (insert 12 (sched_area s2 [] L2 Q2)) 12 s2 s"
    by (rule schedule_now_ok [OF s2(2), of 12]) (use d o1 o2 in \<open>auto simp: a2\<close>)
  note o3 = only_changedD [OF c3]
  have S: "set L2 \<union> Q2 = {10, 11}" using s2(3) s1(3) by auto
  have "distinct L2" using is_listD(1) [OF sched_repD(3) [OF s2(2)]] by (simp add: all_nodes_def)
  then have "length L2 = card (set L2)" by (simp add: distinct_card)
  also have "\<dots> \<le> card {10 :: nat, 11}" by (rule card_mono) (use S in auto)
  finally have "length L2 \<le> 2" by simp
  moreover have "card Q2 \<le> card {10 :: nat, 11}" by (rule card_mono) (use S in auto)
  ultimately have "length L2 + card Q2 < 5" by simp
  then show thesis
    using that [OF _ s(2) S] s1(1) s2(1) s(1) o1 o2 o3 t1 t2 d by (simp add: demo_schedule_def)
qed

section \<open>Properties\<close>



text \<open>
  (C12) The operations on single tasks.  A task that is not pending is appended to the tasks to run as soon as possible
  by \<open>aws_task_scheduler_schedule_now\<close>, and is added to the timed tasks with its time by
  \<open>aws_task_scheduler_schedule_future\<close>, in the queue or, when that has no room, sorted into the list.
  \<open>aws_task_scheduler_cancel_task\<close> removes a pending task from wherever it is and calls it once as cancelled, and
  \<open>aws_task_scheduler_has_tasks\<close> tells whether there are pending tasks and the time of the earliest.  All of them
  keep the invariant of the scheduler.
\<close>

theorem scheduler_operations:
  assumes "sched_rep s A L Q"
  shows "aws_task_scheduler_has_tasks s = Inr (A \<noteq> [] \<or> L \<noteq> [] \<or> Q \<noteq> {},
      if A \<noteq> [] then 0 else Min (insert UINT64_MAX (task_time s ` (set L \<union> Q)))) \<and>
    (t \<notin> sched_area s A L Q \<and> runnable s t \<longrightarrow>
      (\<exists>s'. aws_task_scheduler_schedule_now s t = Inr s' \<and> sched_rep s' (A @ [t]) L Q \<and> task_time s' t = 0 \<and>
        grown True s A L Q s' (A @ [t]) L Q) \<and>
      (length L < fuel \<longrightarrow> (\<exists>s' L' Q'. aws_task_scheduler_schedule_future fuel s t tm = Inr s' \<and> sched_rep s' A L' Q' \<and>
        set L' \<union> Q' = insert t (set L \<union> Q) \<and> task_time s' t = tm \<and> grown True s A L Q s' A L' Q'))) \<and>
    (t \<in> set A \<union> set L \<union> Q \<and> may_schedule new code AWS_TASK_STATUS_CANCELED \<longrightarrow>
      (\<exists>s' A' L' Q'. aws_task_scheduler_cancel_task code s t = Inr s' \<and> sched_rep s' A' L' Q' \<and>
        ts_calls s' = ts_calls s @ [(t, AWS_TASK_STATUS_CANCELED)] \<and>
        grown new s (remove1 t A) (remove1 t L) (Q - {t}) s' A' L' Q'))"
proof (intro conjI impI; (elim conjE)?)
  show "aws_task_scheduler_has_tasks s = Inr (A \<noteq> [] \<or> L \<noteq> [] \<or> Q \<noteq> {},
      if A \<noteq> [] then 0 else Min (insert UINT64_MAX (task_time s ` (set L \<union> Q))))" by (rule has_tasks_ok [OF assms])
next
  assume t: "t \<notin> sched_area s A L Q" "runnable s t"
  show "\<exists>s'. aws_task_scheduler_schedule_now s t = Inr s' \<and> sched_rep s' (A @ [t]) L Q \<and> task_time s' t = 0 \<and>
        grown True s A L Q s' (A @ [t]) L Q"
    by (rule schedule_now_ok [OF assms t]) (use scheduledI [OF assms _ _ t(1)] in auto)
  show "\<exists>s' L' Q'. aws_task_scheduler_schedule_future fuel s t tm = Inr s' \<and> sched_rep s' A L' Q' \<and>
        set L' \<union> Q' = insert t (set L \<union> Q) \<and> task_time s' t = tm \<and> grown True s A L Q s' A L' Q'" if "length L < fuel"
    by (rule schedule_future_ok [OF assms t that, where tm = tm]) (use scheduledI [OF assms _ _ t(1)] in blast)
next
  assume t: "t \<in> set A \<union> set L \<union> Q" and c: "may_schedule new code AWS_TASK_STATUS_CANCELED"
  obtain s1 where s1: "aws_task_scheduler_cancel_task code s t = aws_task_run code s1 t AWS_TASK_STATUS_CANCELED"
    "sched_rep s1 (remove1 t A) (remove1 t L) (Q - {t})" "t \<notin> sched_area s1 (remove1 t A) (remove1 t L) (Q - {t})" "runnable s1 t" "kept s s1"
    by (rule dequeue_ok [OF assms t])
  obtain s' A' L' Q' where s': "aws_task_run code s1 t AWS_TASK_STATUS_CANCELED = Inr s'" "sched_rep s' A' L' Q'"
    "grown new s1 (remove1 t A) (remove1 t L) (Q - {t}) s' A' L' Q'" "ts_calls s' = ts_calls s1 @ [(t, AWS_TASK_STATUS_CANCELED)]"
    by (rule task_run_ok [OF c s1(2), of "{}" t]) (use s1(3,4) in auto)
  have "grown new s (remove1 t A) (remove1 t L) (Q - {t}) s' A' L' Q'" using s'(3) s1(5) by (simp add: grown_def kept_def)
  moreover have "ts_calls s1 = ts_calls s" using s1(5) by (simp add: kept_def)
  ultimately show "\<exists>s' A' L' Q'. aws_task_scheduler_cancel_task code s t = Inr s' \<and> sched_rep s' A' L' Q' \<and>
        ts_calls s' = ts_calls s @ [(t, AWS_TASK_STATUS_CANCELED)] \<and>
        grown new s (remove1 t A) (remove1 t L) (Q - {t}) s' A' L' Q'" using s1(1) s' by auto
qed

theorem scheduler_operations_witness:
  "\<exists>s s'. demo_schedule = Inr s \<and> aws_task_scheduler_cancel_task repeat_code s 10 = Inr s' \<and>
    ts_calls s' = [(10, AWS_TASK_STATUS_CANCELED)]"
proof (rule demo_schedule_ok)
  fix s L Q assume d: "demo_schedule = Inr s" "sched_rep s [12] L Q" "set L \<union> Q = {10, 11}" "ts_calls s = []"
  have "10 \<in> set [12] \<union> set L \<union> Q" using d(3) by auto
  with scheduler_operations [OF d(2), of 10 9 7 False repeat_code] repeat_code_ok(2) d(1,4) show ?thesis by auto
qed

text \<open>
  (C33) Cleaning up.  When the task functions schedule nothing once they are cancelled,
  \<open>aws_task_scheduler_clean_up\<close> ends after at most two rounds of its loop, having called every pending task exactly
  once, as cancelled, and the scheduler is left without an allocator.
\<close>

theorem scheduler_clean_up_cancels_all:
  assumes "sched_rep s A L Q" and "ll_head run \<noteq> ll_tail run" "\<not> live (ts_heap s) (ll_head run)" "\<not> live (ts_heap s) (ll_tail run)"
    and "may_schedule False code AWS_TASK_STATUS_CANCELED" and "length A + length L + card Q < fuel"
  shows "\<exists>s' D. aws_task_scheduler_clean_up (Suc (Suc n)) fuel code run s = Inr s' \<and> distinct D \<and> set D = set L \<union> Q \<and>
    sorted_wrt (\<lambda>a b. task_time s a \<le> task_time s b) D \<and>
    ts_calls s' = ts_calls s @ map (\<lambda>t. (t, AWS_TASK_STATUS_CANCELED)) (A @ D) \<and> ts_alloc s' = None"
  by (rule clean_up_ok [OF assms, where n = n]) blast

theorem scheduler_clean_up_cancels_all_witness:
  "\<exists>s s'. demo_schedule = Inr s \<and> aws_task_scheduler_clean_up 2 9 repeat_code \<lparr>ll_head = 4, ll_tail = 5\<rparr> s = Inr s' \<and>
    length (ts_calls s') = 3 \<and> ts_alloc s' = None"
proof (rule demo_schedule_ok)
  fix s L Q assume d: "demo_schedule = Inr s" "sched_rep s [12] L Q" "set L \<union> Q = {10, 11}" "ts_calls s = []"
    "\<not> live (ts_heap s) 4" "\<not> live (ts_heap s) 5" "length L + card Q < 5"
  have "length [12 :: nat] + length L + card Q < 9" using d(7) by simp
  from scheduler_clean_up_cancels_all [OF d(2) _ _ _ repeat_code_ok(2) this, of "\<lparr>ll_head = 4, ll_tail = 5\<rparr>" 0] d(5,6)
  obtain s' D where s': "aws_task_scheduler_clean_up 2 9 repeat_code \<lparr>ll_head = 4, ll_tail = 5\<rparr> s = Inr s'" "distinct D" "set D = {10, 11}"
    "ts_calls s' = ts_calls s @ map (\<lambda>t. (t, AWS_TASK_STATUS_CANCELED)) ([12] @ D)" "ts_alloc s' = None"
    unfolding d(3) numeral_2_eq_2 by auto
  have "length D = 2" using distinct_card [OF s'(2)] s'(3) by simp
  with s' d(1,4) show ?thesis by auto
qed

end
