(* ===== verification/Date_Time.thy ===== *)
theory Date_Time
  imports Byte_Cursor
begin

text \<open>
  Time stamps and dates: the unit conversion of \<open>include/aws/common/clock.inl\<close> and the parsing and formatting of
  \<open>source/date_time.c\<close>, with the wrappers of \<open>source/posix/time.c\<close>.

  \<open>struct tm\<close> is a record of integers; an \<open>int\<close> computation that leaves the 32-bit range is \<open>Inl Undefined\<close>.
  The functions of the C library that the source calls are modelled as far as it uses them: \<open>timegm\<close> and \<open>gmtime\<close>
  on the proleptic Gregorian calendar, \<open>strftime\<close> on the conversions of the format strings in the C locale, and
  \<open>strtol\<close>.  The local time zone is a parameter: \<open>z_localtime\<close> and \<open>z_mktime\<close> are the conversions of the host and
  \<open>z_name\<close> is its \<open>%Z\<close>.  The functions on \<open>double\<close> are left out.
\<close>

section \<open>Unit conversion\<close>

datatype aws_timestamp_unit = AWS_TIMESTAMP_SECS | AWS_TIMESTAMP_MILLIS | AWS_TIMESTAMP_MICROS | AWS_TIMESTAMP_NANOS

primrec unit_frequency :: "aws_timestamp_unit \<Rightarrow> u64" where
  "unit_frequency AWS_TIMESTAMP_SECS = 1"
| "unit_frequency AWS_TIMESTAMP_MILLIS = 1000"
| "unit_frequency AWS_TIMESTAMP_MICROS = 1000000"
| "unit_frequency AWS_TIMESTAMP_NANOS = 1000000000"

text \<open>The result and the value stored in \<open>*remainder\<close>.\<close>

definition aws_timestamp_convert_u64 :: "u64 \<Rightarrow> u64 \<Rightarrow> u64 \<Rightarrow> (u64 \<times> u64) res" where
  "aws_timestamp_convert_u64 ticks old_frequency new_frequency =
     (if \<not> (old_frequency > 0 \<and> new_frequency > 0) then Inl Aborted
      else
        let remainder = (if new_frequency < old_frequency \<and> old_frequency mod new_frequency = 0
                         then ticks mod (old_frequency div new_frequency) else 0);
            old_seconds_elapsed = ticks div old_frequency;
            old_remainder = ticks - old_seconds_elapsed * old_frequency;
            new_ticks_whole_part = aws_mul_u64_saturating old_seconds_elapsed new_frequency;
            new_ticks_remainder_part = aws_mul_u64_saturating old_remainder new_frequency div old_frequency
        in Inr (aws_add_u64_saturating new_ticks_whole_part new_ticks_remainder_part, remainder))"

definition aws_timestamp_convert :: "u64 \<Rightarrow> aws_timestamp_unit \<Rightarrow> aws_timestamp_unit \<Rightarrow> (u64 \<times> u64) res" where
  "aws_timestamp_convert timestamp convert_from convert_to =
     aws_timestamp_convert_u64 timestamp (unit_frequency convert_from) (unit_frequency convert_to)"

section \<open>Calendar time of the C library\<close>

record tm =
  tm_sec :: int
  tm_min :: int
  tm_hour :: int
  tm_mday :: int
  tm_mon :: int
  tm_year :: int
  tm_wday :: int
  tm_yday :: int
  tm_isdst :: int

definition zero_tm :: tm where
  "zero_tm = \<lparr>tm_sec = 0, tm_min = 0, tm_hour = 0, tm_mday = 0, tm_mon = 0, tm_year = 0, tm_wday = 0, tm_yday = 0, tm_isdst = 0\<rparr>"

text \<open>Days of the proleptic Gregorian calendar before the first of January of a year, counted from the year 0.\<close>

definition days_before_year :: "int \<Rightarrow> int" where
  "days_before_year y = 365 * y + (y + 3) div 4 - (y + 99) div 100 + (y + 399) div 400"

definition leap_year :: "int \<Rightarrow> bool" where
  "leap_year y \<longleftrightarrow> y mod 4 = 0 \<and> (y mod 100 \<noteq> 0 \<or> y mod 400 = 0)"

definition month_lengths :: "bool \<Rightarrow> int list" where
  "month_lengths leap = [31, if leap then 29 else 28, 31, 30, 31, 30, 31, 31, 30, 31, 30, 31]"

definition days_before_month :: "bool \<Rightarrow> nat \<Rightarrow> int" where
  "days_before_month leap m = sum_list (take m (month_lengths leap))"

definition year_of_day :: "int \<Rightarrow> int" where
  "year_of_day d =
     (let y = (400 * d) div 146097
      in if d < days_before_year y then y - 1 else if days_before_year (y + 1) \<le> d then y + 1 else y)"

fun month_of_day :: "int list \<Rightarrow> int \<Rightarrow> nat" where
  "month_of_day [] d = 0"
| "month_of_day (l # ls) d = (if d < l then 0 else Suc (month_of_day ls (d - l)))"

definition timegm :: "tm \<Rightarrow> int" where
  "timegm t =
     (let y = tm_year t + 1900 + tm_mon t div 12;
          days = days_before_year y - days_before_year 1970 +
            days_before_month (leap_year y) (nat (tm_mon t mod 12)) + (tm_mday t - 1)
      in ((days * 24 + tm_hour t) * 60 + tm_min t) * 60 + tm_sec t)"

definition gmtime :: "int \<Rightarrow> tm option" where
  "gmtime time =
     (let days = time div 86400; rest = time mod 86400;
          d = days + days_before_year 1970;
          y = year_of_day d; yd = d - days_before_year y;
          m = month_of_day (month_lengths (leap_year y)) yd
      in if - (2 ^ 31) \<le> y - 1900 \<and> y - 1900 < 2 ^ 31
         then Some \<lparr>tm_sec = rest mod 60, tm_min = rest div 60 mod 60, tm_hour = rest div 3600,
                    tm_mday = yd - days_before_month (leap_year y) m + 1, tm_mon = int m, tm_year = y - 1900,
                    tm_wday = (days + 4) mod 7, tm_yday = yd, tm_isdst = 0\<rparr>
         else None)"

record time_zone =
  z_localtime :: "int \<Rightarrow> tm option"
  z_mktime :: "tm \<Rightarrow> int"
  z_name :: "tm \<Rightarrow> u8 list"

text \<open>The wrappers leave the structure as it is when the conversion fails.\<close>

definition aws_timegm :: "tm \<Rightarrow> int" where
  "aws_timegm t = timegm t"

definition aws_localtime :: "time_zone \<Rightarrow> int \<Rightarrow> tm \<Rightarrow> tm" where
  "aws_localtime z time t = (case z_localtime z time of None \<Rightarrow> t | Some t \<Rightarrow> t)"

definition aws_gmtime :: "int \<Rightarrow> tm \<Rightarrow> tm" where
  "aws_gmtime time t = (case gmtime time of None \<Rightarrow> t | Some t \<Rightarrow> t)"

section \<open>Dates\<close>

datatype aws_date_format =
  AWS_DATE_FORMAT_RFC822 | AWS_DATE_FORMAT_ISO_8601 | AWS_DATE_FORMAT_ISO_8601_BASIC | AWS_DATE_FORMAT_AUTO_DETECT

record aws_date_time =
  dt_timestamp :: int
  dt_milliseconds :: u16
  dt_tz :: "u8 list"
  dt_gmt_time :: tm
  dt_local_time :: tm
  dt_utc_assumed :: bool

definition zero_date_time :: aws_date_time where
  "zero_date_time = \<lparr>dt_timestamp = 0, dt_milliseconds = 0, dt_tz = replicate 6 0, dt_gmt_time = zero_tm,
     dt_local_time = zero_tm, dt_utc_assumed = False\<rparr>"

definition AWS_DATE_TIME_STR_MAX_LEN :: size_t where
  "AWS_DATE_TIME_STR_MAX_LEN = 100"

abbreviation ch_T :: u8 where "ch_T \<equiv> 84"
abbreviation ch_Z :: u8 where "ch_Z \<equiv> 90"
abbreviation ch_plus :: u8 where "ch_plus \<equiv> 43"
abbreviation ch_comma :: u8 where "ch_comma \<equiv> 44"
abbreviation ch_minus :: u8 where "ch_minus \<equiv> 45"
abbreviation ch_dot :: u8 where "ch_dot \<equiv> 46"
abbreviation ch_colon :: u8 where "ch_colon \<equiv> 58"

text \<open>Characters of a literal of the source.\<close>

definition bytes_of :: "string \<Rightarrow> u8 list" where
  "bytes_of s = map of_char s"

definition STR_TRIPLET_TO_INDEX :: "u8 \<Rightarrow> u8 \<Rightarrow> u8 \<Rightarrow> u32" where
  "STR_TRIPLET_TO_INDEX a b c =
     ucast (tolower a) OR push_bit 8 (ucast (tolower b)) OR push_bit 16 (ucast (tolower c))"

definition triplet_of :: "string \<Rightarrow> u32" where
  "triplet_of s = STR_TRIPLET_TO_INDEX (bytes_of s ! 0) (bytes_of s ! 1) (bytes_of s ! 2)"

text \<open>The values that \<open>s_check_init_str_to_int\<close> stores in \<open>s_jan\<close> to \<open>s_dec\<close>.\<close>

definition month_triplets :: "u32 list" where
  "month_triplets = map triplet_of
     [''jan'', ''feb'', ''mar'', ''apr'', ''may'', ''jun'', ''jul'', ''aug'', ''sep'', ''oct'', ''nov'', ''dec'']"

fun month_index :: "u32 list \<Rightarrow> u32 \<Rightarrow> int \<Rightarrow> int" where
  "month_index [] comp_val i = - 1"
| "month_index (t # ts) comp_val i = (if t = comp_val then i else month_index ts comp_val (i + 1))"

definition get_month_number_from_str :: "memory \<Rightarrow> ptr \<Rightarrow> nat \<Rightarrow> nat \<Rightarrow> int res" where
  "get_month_number_from_str m time_string start_index stop_index =
     (if stop_index - start_index < 3 then Inr (- 1)
      else
        bind_res (load_u8 m time_string start_index) (\<lambda>a.
        bind_res (load_u8 m time_string (start_index + 1)) (\<lambda>b.
        bind_res (load_u8 m time_string (start_index + 2)) (\<lambda>c.
          Inr (month_index month_triplets (STR_TRIPLET_TO_INDEX a b c) 0)))))"

definition is_utc_time_zone :: "u8 list \<Rightarrow> bool" where
  "is_utc_time_zone str =
     (let cs = takeWhile (\<lambda>c. c \<noteq> 0) str; len = length cs
      in if len > 0 then
           if cs ! 0 = ch_Z then True
           else if len = 5 \<and> (cs ! 0 = ch_plus \<or> cs ! 0 = ch_minus) then True
           else if len = 2 then tolower (cs ! 0) = 117 \<and> tolower (cs ! 1) = 116
           else if len < 3 then False
           else STR_TRIPLET_TO_INDEX (cs ! 0) (cs ! 1) (cs ! 2) \<in> {triplet_of ''utc'', triplet_of ''gmt''}
         else False)"

definition s_get_time_struct :: "time_zone \<Rightarrow> aws_date_time \<Rightarrow> bool \<Rightarrow> tm" where
  "s_get_time_struct z dt local_time =
     (if local_time then aws_localtime z (dt_timestamp dt) zero_tm else aws_gmtime (dt_timestamp dt) zero_tm)"

definition set_time_structs :: "time_zone \<Rightarrow> aws_date_time \<Rightarrow> aws_date_time" where
  "set_time_structs z dt =
     (let dt = dt\<lparr>dt_gmt_time := s_get_time_struct z dt False\<rparr>
      in dt\<lparr>dt_local_time := s_get_time_struct z dt True\<rparr>)"

definition aws_date_time_init_epoch_millis :: "time_zone \<Rightarrow> aws_date_time \<Rightarrow> u64 \<Rightarrow> aws_date_time res" where
  "aws_date_time_init_epoch_millis z dt ms_since_epoch =
     bind_res (aws_timestamp_convert ms_since_epoch AWS_TIMESTAMP_MILLIS AWS_TIMESTAMP_SECS) (\<lambda>(secs, milliseconds).
       Inr (set_time_structs z (dt\<lparr>dt_timestamp := sint secs, dt_milliseconds := ucast milliseconds\<rparr>)))"

text \<open>The argument \<open>current_time_ns\<close> is what \<open>aws_sys_clock_get_ticks\<close> stores.\<close>

definition aws_date_time_init_now :: "time_zone \<Rightarrow> aws_date_time \<Rightarrow> u64 \<Rightarrow> aws_date_time res" where
  "aws_date_time_init_now z dt current_time_ns =
     bind_res (aws_timestamp_convert current_time_ns AWS_TIMESTAMP_NANOS AWS_TIMESTAMP_MILLIS) (\<lambda>(millis, _).
       aws_date_time_init_epoch_millis z dt millis)"

section \<open>Parsing\<close>

datatype parser_state =
  ON_WEEKDAY | ON_SPACE_DELIM | ON_YEAR | ON_MONTH | ON_MONTH_DAY | ON_HOUR | ON_MINUTE | ON_SECOND | ON_TZ | FINISHED

text \<open>The local variables of a parser: \<open>state\<close>, \<open>state_start_index\<close>, \<open>error\<close> and the structure it fills.\<close>

record date_parser =
  dp_state :: parser_state
  dp_start :: nat
  dp_error :: bool
  dp_time :: tm

definition int32 :: "int \<Rightarrow> int res" where
  "int32 v = (if - (2 ^ 31) \<le> v \<and> v < 2 ^ 31 then Inr v else Inl Undefined)"

text \<open>\<open>v * 10 + (c - '0')\<close>\<close>

definition add_digit :: "int \<Rightarrow> u8 \<Rightarrow> int res" where
  "add_digit v c = bind_res (int32 (v * 10)) (\<lambda>w. int32 (w + (int (unat c) - 48)))"

definition parse_fail :: "date_parser \<Rightarrow> date_parser" where
  "parse_fail p = p\<lparr>dp_error := True\<rparr>"

definition goto :: "parser_state \<Rightarrow> nat \<Rightarrow> date_parser \<Rightarrow> date_parser" where
  "goto state start p = p\<lparr>dp_state := state, dp_start := start\<rparr>"

text \<open>Append a digit to a member of the structure.\<close>

definition on_year :: "u8 \<Rightarrow> date_parser \<Rightarrow> date_parser res" where
  "on_year c p = bind_res (add_digit (tm_year (dp_time p)) c) (\<lambda>v. Inr (p\<lparr>dp_time := (dp_time p)\<lparr>tm_year := v\<rparr>\<rparr>))"

definition on_mon :: "u8 \<Rightarrow> date_parser \<Rightarrow> date_parser res" where
  "on_mon c p = bind_res (add_digit (tm_mon (dp_time p)) c) (\<lambda>v. Inr (p\<lparr>dp_time := (dp_time p)\<lparr>tm_mon := v\<rparr>\<rparr>))"

definition on_mday :: "u8 \<Rightarrow> date_parser \<Rightarrow> date_parser res" where
  "on_mday c p = bind_res (add_digit (tm_mday (dp_time p)) c) (\<lambda>v. Inr (p\<lparr>dp_time := (dp_time p)\<lparr>tm_mday := v\<rparr>\<rparr>))"

definition on_hour :: "u8 \<Rightarrow> date_parser \<Rightarrow> date_parser res" where
  "on_hour c p = bind_res (add_digit (tm_hour (dp_time p)) c) (\<lambda>v. Inr (p\<lparr>dp_time := (dp_time p)\<lparr>tm_hour := v\<rparr>\<rparr>))"

definition on_min :: "u8 \<Rightarrow> date_parser \<Rightarrow> date_parser res" where
  "on_min c p = bind_res (add_digit (tm_min (dp_time p)) c) (\<lambda>v. Inr (p\<lparr>dp_time := (dp_time p)\<lparr>tm_min := v\<rparr>\<rparr>))"

definition on_sec :: "u8 \<Rightarrow> date_parser \<Rightarrow> date_parser res" where
  "on_sec c p = bind_res (add_digit (tm_sec (dp_time p)) c) (\<lambda>v. Inr (p\<lparr>dp_time := (dp_time p)\<lparr>tm_sec := v\<rparr>\<rparr>))"

definition add_year :: "int \<Rightarrow> date_parser \<Rightarrow> date_parser res" where
  "add_year k p = bind_res (int32 (tm_year (dp_time p) + k)) (\<lambda>v. Inr (p\<lparr>dp_time := (dp_time p)\<lparr>tm_year := v\<rparr>\<rparr>))"

definition sub_mon :: "date_parser \<Rightarrow> date_parser res" where
  "sub_mon p = bind_res (int32 (tm_mon (dp_time p) - 1)) (\<lambda>v. Inr (p\<lparr>dp_time := (dp_time p)\<lparr>tm_mon := v\<rparr>\<rparr>))"

definition iso_8601_basic_step :: "u8 \<Rightarrow> nat \<Rightarrow> date_parser \<Rightarrow> date_parser res" where
  "iso_8601_basic_step c index p =
     (let sub_index = index - dp_start p in
      case dp_state p of
        ON_YEAR \<Rightarrow>
          if aws_isdigit c then
            bind_res (on_year c p) (\<lambda>p.
              if sub_index = 3 then add_year (- 1900) (goto ON_MONTH (index + 1) p) else Inr p)
          else Inr (parse_fail p)
      | ON_MONTH \<Rightarrow>
          if aws_isdigit c then
            bind_res (on_mon c p) (\<lambda>p.
              if sub_index = 1 then sub_mon (goto ON_MONTH_DAY (index + 1) p) else Inr p)
          else Inr (parse_fail p)
      | ON_MONTH_DAY \<Rightarrow>
          if c = ch_T \<and> sub_index = 2 then Inr (goto ON_HOUR (index + 1) p)
          else if aws_isdigit c then on_mday c p
          else Inr (parse_fail p)
      | ON_HOUR \<Rightarrow>
          if aws_isdigit c then
            bind_res (on_hour c p) (\<lambda>p. if sub_index = 1 then Inr (goto ON_MINUTE (index + 1) p) else Inr p)
          else Inr (parse_fail p)
      | ON_MINUTE \<Rightarrow>
          if aws_isdigit c then
            bind_res (on_min c p) (\<lambda>p. if sub_index = 1 then Inr (goto ON_SECOND (index + 1) p) else Inr p)
          else Inr (parse_fail p)
      | ON_SECOND \<Rightarrow>
          if aws_isdigit c then
            bind_res (on_sec c p) (\<lambda>p. if sub_index = 1 then Inr (goto ON_TZ (index + 1) p) else Inr p)
          else Inr (parse_fail p)
      | ON_TZ \<Rightarrow>
          if c = ch_Z \<and> (sub_index = 0 \<or> sub_index = 3) then Inr (p\<lparr>dp_state := FINISHED\<rparr>)
          else if \<not> aws_isdigit c \<or> sub_index > 3 then Inr (parse_fail p)
          else Inr p
      | _ \<Rightarrow> Inr (parse_fail p))"

text \<open>A loop over the remaining \<open>n\<close> characters from \<open>index\<close> on.\<close>

fun iso_8601_basic_loop :: "memory \<Rightarrow> ptr \<Rightarrow> nat \<Rightarrow> nat \<Rightarrow> date_parser \<Rightarrow> date_parser res" where
  "iso_8601_basic_loop m str index 0 p = Inr p"
| "iso_8601_basic_loop m str index (Suc n) p =
     (if dp_state p \<noteq> FINISHED \<and> \<not> dp_error p then
        bind_res (load_u8 m str index) (\<lambda>c.
        bind_res (iso_8601_basic_step c index p) (\<lambda>p. iso_8601_basic_loop m str (index + 1) n p))
      else Inr p)"

text \<open>The result of an ISO 8601 parser: whether it succeeded, and the structure.\<close>

definition iso_result :: "date_parser \<Rightarrow> bool \<times> tm" where
  "iso_result p = ((dp_state p = FINISHED \<or> dp_state p = ON_MONTH_DAY) \<and> \<not> dp_error p, dp_time p)"

definition start_parser :: "parser_state \<Rightarrow> date_parser" where
  "start_parser state = \<lparr>dp_state = state, dp_start = 0, dp_error = False, dp_time = zero_tm\<rparr>"

definition s_parse_iso_8601_basic :: "memory \<Rightarrow> byte_cursor \<Rightarrow> (bool \<times> tm) res" where
  "s_parse_iso_8601_basic m date_str_cursor =
     bind_res (iso_8601_basic_loop m (c_ptr date_str_cursor) 0 (unat (c_len date_str_cursor)) (start_parser ON_YEAR))
       (\<lambda>p. Inr (iso_result p))"

text \<open>The result of a step of the other ISO 8601 parser includes \<open>advance\<close>.\<close>

definition time_delim :: "parser_state \<Rightarrow> u8 \<Rightarrow> nat \<Rightarrow> date_parser \<Rightarrow> date_parser \<times> bool" where
  "time_delim state c index p =
     (let p = goto state (index + 1) p
      in if aws_isdigit c then (p\<lparr>dp_start := index\<rparr>, False)
         else if c \<noteq> ch_colon then (parse_fail p, True)
         else (p, True))"

definition iso_8601_step :: "u8 \<Rightarrow> nat \<Rightarrow> date_parser \<Rightarrow> (date_parser \<times> bool) res" where
  "iso_8601_step c index p =
     (let sub_index = index - dp_start p; advance = (\<lambda>r. bind_res r (\<lambda>p. Inr (p, True))) in
      case dp_state p of
        ON_YEAR \<Rightarrow>
          if c = ch_minus \<and> sub_index = 4 then advance (add_year (- 1900) (goto ON_MONTH (index + 1) p))
          else if aws_isdigit c then advance (on_year c p)
          else Inr (parse_fail p, True)
      | ON_MONTH \<Rightarrow>
          if c = ch_minus \<and> sub_index = 2 then advance (sub_mon (goto ON_MONTH_DAY (index + 1) p))
          else if aws_isdigit c then advance (on_mon c p)
          else Inr (parse_fail p, True)
      | ON_MONTH_DAY \<Rightarrow>
          if c = ch_T \<and> sub_index = 2 then Inr (goto ON_HOUR (index + 1) p, True)
          else if aws_isdigit c then advance (on_mday c p)
          else Inr (parse_fail p, True)
      | ON_HOUR \<Rightarrow>
          if sub_index = 2 then Inr (time_delim ON_MINUTE c index p)
          else if aws_isdigit c then advance (on_hour c p)
          else Inr (parse_fail p, True)
      | ON_MINUTE \<Rightarrow>
          if sub_index = 2 then Inr (time_delim ON_SECOND c index p)
          else if aws_isdigit c then advance (on_min c p)
          else Inr (parse_fail p, True)
      | ON_SECOND \<Rightarrow>
          if c = ch_Z \<and> sub_index = 2 then Inr (goto FINISHED (index + 1) p, True)
          else if c = ch_dot \<and> sub_index = 2 then Inr (goto ON_TZ (index + 1) p, True)
          else if aws_isdigit c then advance (on_sec c p)
          else Inr (parse_fail p, True)
      | ON_TZ \<Rightarrow>
          if c = ch_Z then Inr (goto FINISHED (index + 1) p, True)
          else if \<not> aws_isdigit c then Inr (parse_fail p, True)
          else Inr (p, True)
      | _ \<Rightarrow> Inr (parse_fail p, True))"

fun iso_8601_loop :: "nat \<Rightarrow> memory \<Rightarrow> ptr \<Rightarrow> nat \<Rightarrow> nat \<Rightarrow> date_parser \<Rightarrow> date_parser res" where
  "iso_8601_loop 0 m str index len p = Inl Diverged"
| "iso_8601_loop (Suc fuel) m str index len p =
     (if dp_state p \<noteq> FINISHED \<and> \<not> dp_error p \<and> index < len then
        bind_res (load_u8 m str index) (\<lambda>c.
        bind_res (iso_8601_step c index p) (\<lambda>(p, advance).
          iso_8601_loop fuel m str (if advance then index + 1 else index) len p))
      else Inr p)"

text \<open>A character is looked at again at most twice, after the hour and after the minute.\<close>

definition s_parse_iso_8601 :: "memory \<Rightarrow> byte_cursor \<Rightarrow> (bool \<times> tm) res" where
  "s_parse_iso_8601 m date_str_cursor =
     (let len = unat (c_len date_str_cursor)
      in bind_res (iso_8601_loop (len + 3) m (c_ptr date_str_cursor) 0 len (start_parser ON_YEAR)) (\<lambda>p. Inr (iso_result p)))"

text \<open>A step of the RFC 822 parser; the second component is the member \<open>tz\<close> of the date that it fills.\<close>

definition rfc_822_step :: "memory \<Rightarrow> ptr \<Rightarrow> u8 \<Rightarrow> nat \<Rightarrow> date_parser \<Rightarrow> u8 list \<Rightarrow> (date_parser \<times> u8 list) res" where
  "rfc_822_step m str c index p tz =
     (let sub_index = index - dp_start p; keep = (\<lambda>r. bind_res r (\<lambda>p. Inr (p, tz))) in
      case dp_state p of
        ON_WEEKDAY \<Rightarrow>
          if c = ch_comma then Inr (goto ON_SPACE_DELIM (index + 1) p, tz)
          else if aws_isdigit c then Inr (p\<lparr>dp_state := ON_MONTH_DAY\<rparr>, tz)
          else if \<not> aws_isalpha c then Inr (parse_fail p, tz)
          else Inr (p, tz)
      | ON_SPACE_DELIM \<Rightarrow>
          if aws_isspace c then Inr (goto ON_MONTH_DAY (index + 1) p, tz)
          else Inr (parse_fail p, tz)
      | ON_MONTH_DAY \<Rightarrow>
          if aws_isdigit c then keep (on_mday c p)
          else if aws_isspace c then Inr (goto ON_MONTH (index + 1) p, tz)
          else Inr (parse_fail p, tz)
      | ON_MONTH \<Rightarrow>
          if aws_isspace c then
            bind_res (get_month_number_from_str m str (dp_start p) (index + 1)) (\<lambda>monthNumber.
              if monthNumber > - 1 then
                Inr ((goto ON_YEAR (index + 1) p)\<lparr>dp_time := (dp_time p)\<lparr>tm_mon := monthNumber\<rparr>\<rparr>, tz)
              else Inr (parse_fail p, tz))
          else if \<not> aws_isalpha c then Inr (parse_fail p, tz)
          else Inr (p, tz)
      | ON_YEAR \<Rightarrow>
          if aws_isspace c \<and> sub_index = 4 then keep (add_year (- 1900) (goto ON_HOUR (index + 1) p))
          else if aws_isspace c \<and> sub_index = 2 then keep (add_year 100 (goto ON_HOUR (index + 1) p))
          else if aws_isdigit c then keep (on_year c p)
          else Inr (parse_fail p, tz)
      | ON_HOUR \<Rightarrow>
          if c = ch_colon \<and> sub_index = 2 then Inr (goto ON_MINUTE (index + 1) p, tz)
          else if aws_isdigit c then keep (on_hour c p)
          else Inr (parse_fail p, tz)
      | ON_MINUTE \<Rightarrow>
          if c = ch_colon \<and> sub_index = 2 then Inr (goto ON_SECOND (index + 1) p, tz)
          else if aws_isdigit c then keep (on_min c p)
          else Inr (parse_fail p, tz)
      | ON_SECOND \<Rightarrow>
          if aws_isspace c \<and> sub_index = 2 then Inr (goto ON_TZ (index + 1) p, tz)
          else if aws_isdigit c then keep (on_sec c p)
          else Inr (parse_fail p, tz)
      | ON_TZ \<Rightarrow>
          if (aws_isalnum c \<or> c = ch_minus \<or> c = ch_plus) \<and> sub_index < 5 then Inr (p, tz[sub_index := c])
          else Inr (parse_fail p, tz)
      | _ \<Rightarrow> Inr (parse_fail p, tz))"

fun rfc_822_loop :: "memory \<Rightarrow> ptr \<Rightarrow> nat \<Rightarrow> nat \<Rightarrow> date_parser \<Rightarrow> u8 list \<Rightarrow> (date_parser \<times> u8 list) res" where
  "rfc_822_loop m str index 0 p tz = Inr (p, tz)"
| "rfc_822_loop m str index (Suc n) p tz =
     (if \<not> dp_error p then
        bind_res (load_u8 m str index) (\<lambda>c.
        bind_res (rfc_822_step m str c index p tz) (\<lambda>(p, tz). rfc_822_loop m str (index + 1) n p tz))
      else Inr (p, tz))"

definition s_parse_rfc_822 :: "memory \<Rightarrow> byte_cursor \<Rightarrow> aws_date_time \<Rightarrow> (bool \<times> tm \<times> aws_date_time) res" where
  "s_parse_rfc_822 m date_str_cursor dt =
     bind_res (rfc_822_loop m (c_ptr date_str_cursor) 0 (unat (c_len date_str_cursor)) (start_parser ON_WEEKDAY) (dt_tz dt))
       (\<lambda>(p, tz).
         let utc = tz ! 0 \<noteq> 0 \<and> is_utc_time_zone tz;
             error = dp_error p \<or> tz ! 0 \<noteq> 0 \<and> \<not> is_utc_time_zone tz
         in Inr (\<not> (error \<or> dp_state p \<noteq> ON_TZ), dp_time p,
                 dt\<lparr>dt_tz := tz, dt_utc_assumed := dt_utc_assumed dt \<or> utc\<rparr>))"

text \<open>\<open>strtol\<close> with base 10 on a string without its terminator; it stops at the first character that is no digit.\<close>

fun strtol_digits :: "int \<Rightarrow> u8 list \<Rightarrow> int" where
  "strtol_digits v [] = v"
| "strtol_digits v (c # cs) = (if aws_isdigit c then strtol_digits (v * 10 + (int (unat c) - 48)) cs else v)"

definition strtol :: "u8 list \<Rightarrow> int" where
  "strtol str =
     (case dropWhile aws_isspace str of
        [] \<Rightarrow> 0
      | c # cs \<Rightarrow> if c = ch_minus then - strtol_digits 0 cs else if c = ch_plus then strtol_digits 0 cs
                  else strtol_digits 0 (c # cs))"

definition tz_seconds_offset :: "u8 list \<Rightarrow> int" where
  "tz_seconds_offset tz =
     (if tz ! 0 = ch_plus \<or> tz ! 0 = ch_minus then
        let hour = strtol [tz ! 1, tz ! 2]; min = strtol [tz ! 3, tz ! 4];
            seconds_offset = hour * 3600 + min * 60
        in if tz ! 0 = ch_minus then - seconds_offset else seconds_offset
      else 0)"

definition aws_date_time_init_from_str_cursor ::
  "time_zone \<Rightarrow> memory \<Rightarrow> byte_cursor \<Rightarrow> aws_date_format \<Rightarrow> aws_date_time res" where
  "aws_date_time_init_from_str_cursor z m date_str_cursor fmt =
     (if \<not> c_len date_str_cursor \<le> AWS_DATE_TIME_STR_MAX_LEN then aws_raise_error AWS_ERROR_OVERFLOW_DETECTED
      else
        let dt = zero_date_time in
        bind_res
          (if fmt = AWS_DATE_FORMAT_ISO_8601 \<or> fmt = AWS_DATE_FORMAT_AUTO_DETECT
           then bind_res (s_parse_iso_8601 m date_str_cursor) (\<lambda>(ok, t).
                  Inr (ok, t, if ok then dt\<lparr>dt_utc_assumed := True\<rparr> else dt))
           else Inr (False, zero_tm, dt)) (\<lambda>(successfully_parsed, parsed_time, dt).
        bind_res
          (if fmt = AWS_DATE_FORMAT_ISO_8601_BASIC \<or> fmt = AWS_DATE_FORMAT_AUTO_DETECT \<and> \<not> successfully_parsed
           then bind_res (s_parse_iso_8601_basic m date_str_cursor) (\<lambda>(ok, t).
                  Inr (ok, t, if ok then dt\<lparr>dt_utc_assumed := True\<rparr> else dt))
           else Inr (successfully_parsed, parsed_time, dt)) (\<lambda>(successfully_parsed, parsed_time, dt).
        bind_res
          (if fmt = AWS_DATE_FORMAT_RFC822 \<or> fmt = AWS_DATE_FORMAT_AUTO_DETECT \<and> \<not> successfully_parsed
           then bind_res (s_parse_rfc_822 m date_str_cursor dt) (\<lambda>(ok, t, dt).
                  Inr (ok, t, dt, if ok \<and> dt_utc_assumed dt then tz_seconds_offset (dt_tz dt) else 0))
           else Inr (successfully_parsed, parsed_time, dt, 0)) (\<lambda>(successfully_parsed, parsed_time, dt, seconds_offset).
          if \<not> successfully_parsed then aws_raise_error AWS_ERROR_INVALID_DATE_STR
          else
            let timestamp = (if dt_utc_assumed dt \<or> seconds_offset \<noteq> 0 then aws_timegm parsed_time else z_mktime z parsed_time)
            in Inr (set_time_structs z (dt\<lparr>dt_timestamp := timestamp - seconds_offset, dt_milliseconds := 0\<rparr>))))))"

definition aws_date_time_init_from_str :: "time_zone \<Rightarrow> memory \<Rightarrow> byte_buf \<Rightarrow> aws_date_format \<Rightarrow> aws_date_time res" where
  "aws_date_time_init_from_str z m date_str fmt =
     (if \<not> b_len date_str \<le> AWS_DATE_TIME_STR_MAX_LEN then aws_raise_error AWS_ERROR_OVERFLOW_DETECTED
      else aws_date_time_init_from_str_cursor z m (aws_byte_cursor_from_buf date_str) fmt)"

section \<open>Formatting\<close>

definition dec2 :: "int \<Rightarrow> u8 list" where
  "dec2 v = [word_of_int (48 + v div 10 mod 10), word_of_int (48 + v mod 10)]"

text \<open>Decimal digits of a number without leading zeros.\<close>

fun dec_digits :: "nat \<Rightarrow> u8 list" where
  "dec_digits n = (if n < 10 then [word_of_nat (48 + n)] else dec_digits (n div 10) @ [word_of_nat (48 + n mod 10)])"

definition dec_int :: "int \<Rightarrow> u8 list" where
  "dec_int v = (if v < 0 then ch_minus # dec_digits (nat (- v)) else dec_digits (nat v))"

definition weekday_names :: "u8 list list" where
  "weekday_names = map bytes_of [''Sun'', ''Mon'', ''Tue'', ''Wed'', ''Thu'', ''Fri'', ''Sat'']"

definition month_names :: "u8 list list" where
  "month_names = map bytes_of
     [''Jan'', ''Feb'', ''Mar'', ''Apr'', ''May'', ''Jun'', ''Jul'', ''Aug'', ''Sep'', ''Oct'', ''Nov'', ''Dec'']"

definition name_at :: "u8 list list \<Rightarrow> int \<Rightarrow> u8 list" where
  "name_at ns i = (if 0 \<le> i \<and> i < int (length ns) then ns ! nat i else [63])"

text \<open>The conversions of \<open>strftime\<close> that the format strings use.\<close>

definition strftime_conv :: "time_zone \<Rightarrow> tm \<Rightarrow> char \<Rightarrow> u8 list" where
  "strftime_conv z t c =
     (if c = CHR ''a'' then name_at weekday_names (tm_wday t)
      else if c = CHR ''b'' then name_at month_names (tm_mon t)
      else if c = CHR ''d'' then dec2 (tm_mday t)
      else if c = CHR ''m'' then dec2 (tm_mon t + 1)
      else if c = CHR ''Y'' then dec_int (tm_year t + 1900)
      else if c = CHR ''H'' then dec2 (tm_hour t)
      else if c = CHR ''M'' then dec2 (tm_min t)
      else if c = CHR ''S'' then dec2 (tm_sec t)
      else if c = CHR ''Z'' then z_name z t
      else [])"

fun strftime_chars :: "time_zone \<Rightarrow> tm \<Rightarrow> string \<Rightarrow> u8 list" where
  "strftime_chars z t [] = []"
| "strftime_chars z t [c] = [of_char c]"
| "strftime_chars z t (c # d # cs) =
     (if c = CHR ''%'' then strftime_conv z t d @ strftime_chars z t cs
      else of_char c # strftime_chars z t (d # cs))"

text \<open>\<open>strftime\<close> stores the characters and a terminator and returns their number, or 0 when they do not fit.\<close>

definition strftime :: "time_zone \<Rightarrow> memory \<Rightarrow> ptr \<Rightarrow> size_t \<Rightarrow> string \<Rightarrow> tm \<Rightarrow> (size_t \<times> memory) res" where
  "strftime z m p maxsize format t =
     (let cs = strftime_chars z t format
      in if length cs < unat maxsize
         then bind_res (store_bytes m p (map Some (cs @ [0]))) (\<lambda>m. Inr (word_of_nat (length cs), m))
         else bind_res (if maxsize = 0 then Inr m else store_bytes m p (replicate (unat maxsize) None)) (\<lambda>m. Inr (0, m)))"

definition RFC822_DATE_FORMAT_STR_MINUS_Z :: string where
  "RFC822_DATE_FORMAT_STR_MINUS_Z = ''%a, %d %b %Y %H:%M:%S GMT''"

definition RFC822_DATE_FORMAT_STR_WITH_Z :: string where
  "RFC822_DATE_FORMAT_STR_WITH_Z = ''%a, %d %b %Y %H:%M:%S %Z''"

definition RFC822_SHORT_DATE_FORMAT_STR :: string where
  "RFC822_SHORT_DATE_FORMAT_STR = ''%a, %d %b %Y''"

definition ISO_8601_LONG_DATE_FORMAT_STR :: string where
  "ISO_8601_LONG_DATE_FORMAT_STR = ''%Y-%m-%dT%H:%M:%SZ''"

definition ISO_8601_SHORT_DATE_FORMAT_STR :: string where
  "ISO_8601_SHORT_DATE_FORMAT_STR = ''%Y-%m-%d''"

definition ISO_8601_LONG_BASIC_DATE_FORMAT_STR :: string where
  "ISO_8601_LONG_BASIC_DATE_FORMAT_STR = ''%Y%m%dT%H%M%SZ''"

definition ISO_8601_SHORT_BASIC_DATE_FORMAT_STR :: string where
  "ISO_8601_SHORT_BASIC_DATE_FORMAT_STR = ''%Y%m%d''"

definition s_date_to_str :: "time_zone \<Rightarrow> memory \<Rightarrow> tm \<Rightarrow> string \<Rightarrow> byte_buf \<Rightarrow> unit res \<times> byte_buf \<times> memory" where
  "s_date_to_str z m t format_str output_buf =
     (case strftime z m (ptr_add (b_buffer output_buf) (unat (b_len output_buf)))
             (b_capacity output_buf - b_len output_buf) format_str t of
        Inl e \<Rightarrow> (Inl e, output_buf, m)
      | Inr (bytes_written, m) \<Rightarrow>
          if bytes_written = 0 then (aws_raise_error AWS_ERROR_SHORT_BUFFER, output_buf, m)
          else (AWS_OP_SUCCESS, output_buf\<lparr>b_len := b_len output_buf + bytes_written\<rparr>, m))"

definition aws_date_time_to_local_time_str ::
  "time_zone \<Rightarrow> memory \<Rightarrow> aws_date_time \<Rightarrow> aws_date_format \<Rightarrow> byte_buf \<Rightarrow> unit res \<times> byte_buf \<times> memory" where
  "aws_date_time_to_local_time_str z m dt fmt output_buf =
     (case fmt of
        AWS_DATE_FORMAT_RFC822 \<Rightarrow> s_date_to_str z m (dt_local_time dt) RFC822_DATE_FORMAT_STR_WITH_Z output_buf
      | AWS_DATE_FORMAT_ISO_8601 \<Rightarrow> s_date_to_str z m (dt_local_time dt) ISO_8601_LONG_DATE_FORMAT_STR output_buf
      | AWS_DATE_FORMAT_ISO_8601_BASIC \<Rightarrow> s_date_to_str z m (dt_local_time dt) ISO_8601_LONG_BASIC_DATE_FORMAT_STR output_buf
      | _ \<Rightarrow> (aws_raise_error AWS_ERROR_INVALID_ARGUMENT, output_buf, m))"

definition aws_date_time_to_utc_time_str ::
  "time_zone \<Rightarrow> memory \<Rightarrow> aws_date_time \<Rightarrow> aws_date_format \<Rightarrow> byte_buf \<Rightarrow> unit res \<times> byte_buf \<times> memory" where
  "aws_date_time_to_utc_time_str z m dt fmt output_buf =
     (case fmt of
        AWS_DATE_FORMAT_RFC822 \<Rightarrow> s_date_to_str z m (dt_gmt_time dt) RFC822_DATE_FORMAT_STR_MINUS_Z output_buf
      | AWS_DATE_FORMAT_ISO_8601 \<Rightarrow> s_date_to_str z m (dt_gmt_time dt) ISO_8601_LONG_DATE_FORMAT_STR output_buf
      | AWS_DATE_FORMAT_ISO_8601_BASIC \<Rightarrow> s_date_to_str z m (dt_gmt_time dt) ISO_8601_LONG_BASIC_DATE_FORMAT_STR output_buf
      | _ \<Rightarrow> (aws_raise_error AWS_ERROR_INVALID_ARGUMENT, output_buf, m))"

definition aws_date_time_to_local_time_short_str ::
  "time_zone \<Rightarrow> memory \<Rightarrow> aws_date_time \<Rightarrow> aws_date_format \<Rightarrow> byte_buf \<Rightarrow> unit res \<times> byte_buf \<times> memory" where
  "aws_date_time_to_local_time_short_str z m dt fmt output_buf =
     (case fmt of
        AWS_DATE_FORMAT_RFC822 \<Rightarrow> s_date_to_str z m (dt_local_time dt) RFC822_SHORT_DATE_FORMAT_STR output_buf
      | AWS_DATE_FORMAT_ISO_8601 \<Rightarrow> s_date_to_str z m (dt_local_time dt) ISO_8601_SHORT_DATE_FORMAT_STR output_buf
      | AWS_DATE_FORMAT_ISO_8601_BASIC \<Rightarrow> s_date_to_str z m (dt_local_time dt) ISO_8601_SHORT_BASIC_DATE_FORMAT_STR output_buf
      | _ \<Rightarrow> (aws_raise_error AWS_ERROR_INVALID_ARGUMENT, output_buf, m))"

definition aws_date_time_to_utc_time_short_str ::
  "time_zone \<Rightarrow> memory \<Rightarrow> aws_date_time \<Rightarrow> aws_date_format \<Rightarrow> byte_buf \<Rightarrow> unit res \<times> byte_buf \<times> memory" where
  "aws_date_time_to_utc_time_short_str z m dt fmt output_buf =
     (case fmt of
        AWS_DATE_FORMAT_RFC822 \<Rightarrow> s_date_to_str z m (dt_gmt_time dt) RFC822_SHORT_DATE_FORMAT_STR output_buf
      | AWS_DATE_FORMAT_ISO_8601 \<Rightarrow> s_date_to_str z m (dt_gmt_time dt) ISO_8601_SHORT_DATE_FORMAT_STR output_buf
      | AWS_DATE_FORMAT_ISO_8601_BASIC \<Rightarrow> s_date_to_str z m (dt_gmt_time dt) ISO_8601_SHORT_BASIC_DATE_FORMAT_STR output_buf
      | _ \<Rightarrow> (aws_raise_error AWS_ERROR_INVALID_ARGUMENT, output_buf, m))"

section \<open>Accessors\<close>

definition aws_date_time_as_nanos :: "aws_date_time \<Rightarrow> u64 res" where
  "aws_date_time_as_nanos dt =
     bind_res (aws_timestamp_convert (word_of_int (dt_timestamp dt)) AWS_TIMESTAMP_SECS AWS_TIMESTAMP_NANOS) (\<lambda>(secs, _).
     bind_res (aws_timestamp_convert (ucast (dt_milliseconds dt)) AWS_TIMESTAMP_MILLIS AWS_TIMESTAMP_NANOS) (\<lambda>(millis, _).
       Inr (secs + millis)))"

definition aws_date_time_as_millis :: "aws_date_time \<Rightarrow> u64 res" where
  "aws_date_time_as_millis dt =
     bind_res (aws_timestamp_convert (word_of_int (dt_timestamp dt)) AWS_TIMESTAMP_SECS AWS_TIMESTAMP_MILLIS) (\<lambda>(millis, _).
       Inr (millis + ucast (dt_milliseconds dt)))"

definition time_of :: "aws_date_time \<Rightarrow> bool \<Rightarrow> tm" where
  "time_of dt local_time = (if local_time then dt_local_time dt else dt_gmt_time dt)"

definition aws_date_time_year :: "aws_date_time \<Rightarrow> bool \<Rightarrow> u16 res" where
  "aws_date_time_year dt local_time = bind_res (int32 (tm_year (time_of dt local_time) + 1900)) (\<lambda>y. Inr (word_of_int y))"

definition aws_date_time_month :: "aws_date_time \<Rightarrow> bool \<Rightarrow> int" where
  "aws_date_time_month dt local_time = tm_mon (time_of dt local_time)"

definition aws_date_time_month_day :: "aws_date_time \<Rightarrow> bool \<Rightarrow> u8" where
  "aws_date_time_month_day dt local_time = word_of_int (tm_mday (time_of dt local_time))"

definition aws_date_time_day_of_week :: "aws_date_time \<Rightarrow> bool \<Rightarrow> int" where
  "aws_date_time_day_of_week dt local_time = tm_wday (time_of dt local_time)"

definition aws_date_time_hour :: "aws_date_time \<Rightarrow> bool \<Rightarrow> u8" where
  "aws_date_time_hour dt local_time = word_of_int (tm_hour (time_of dt local_time))"

definition aws_date_time_minute :: "aws_date_time \<Rightarrow> bool \<Rightarrow> u8" where
  "aws_date_time_minute dt local_time = word_of_int (tm_min (time_of dt local_time))"

definition aws_date_time_second :: "aws_date_time \<Rightarrow> bool \<Rightarrow> u8" where
  "aws_date_time_second dt local_time = word_of_int (tm_sec (time_of dt local_time))"

definition aws_date_time_dst :: "aws_date_time \<Rightarrow> bool \<Rightarrow> bool" where
  "aws_date_time_dst dt local_time \<longleftrightarrow> tm_isdst (time_of dt local_time) \<noteq> 0"

definition aws_date_time_diff :: "aws_date_time \<Rightarrow> aws_date_time \<Rightarrow> int res" where
  "aws_date_time_diff a b =
     (let d = dt_timestamp a - dt_timestamp b in if - (2 ^ 63) \<le> d \<and> d < 2 ^ 63 then Inr d else Inl Undefined)"

section \<open>Abstraction\<close>

definition dig :: "u8 \<Rightarrow> int" where
  "dig c = int (unat c) - 48"

definition num2 :: "u8 \<Rightarrow> u8 \<Rightarrow> int" where
  "num2 a b = dig a * 10 + dig b"

definition num4 :: "u8 \<Rightarrow> u8 \<Rightarrow> u8 \<Rightarrow> u8 \<Rightarrow> int" where
  "num4 a b c d = ((dig a * 10 + dig b) * 10 + dig c) * 10 + dig d"

text \<open>The members of a broken-down time are in their ranges.\<close>

definition normal_tm :: "tm \<Rightarrow> bool" where
  "normal_tm t \<longleftrightarrow> 0 \<le> tm_sec t \<and> tm_sec t < 60 \<and> 0 \<le> tm_min t \<and> tm_min t < 60 \<and> 0 \<le> tm_hour t \<and> tm_hour t < 24 \<and>
     1 \<le> tm_mday t \<and> tm_mday t \<le> 31 \<and> 0 \<le> tm_mon t \<and> tm_mon t < 12 \<and> 0 \<le> tm_wday t \<and> tm_wday t < 7"

text \<open>The parsers on a list of characters.\<close>

fun iso_chars :: "nat \<Rightarrow> u8 list \<Rightarrow> nat \<Rightarrow> date_parser \<Rightarrow> date_parser res" where
  "iso_chars 0 cs index p = Inl Diverged"
| "iso_chars (Suc fuel) cs index p =
     (if dp_state p \<noteq> FINISHED \<and> \<not> dp_error p \<and> cs \<noteq> [] then
        bind_res (iso_8601_step (hd cs) index p) (\<lambda>(p, advance).
          iso_chars fuel (if advance then tl cs else cs) (if advance then index + 1 else index) p)
      else Inr p)"

fun basic_chars :: "u8 list \<Rightarrow> nat \<Rightarrow> date_parser \<Rightarrow> date_parser res" where
  "basic_chars [] index p = Inr p"
| "basic_chars (c # cs) index p =
     (if dp_state p \<noteq> FINISHED \<and> \<not> dp_error p then
        bind_res (iso_8601_basic_step c index p) (\<lambda>p. basic_chars cs (index + 1) p)
      else Inr p)"

fun rfc_chars :: "memory \<Rightarrow> ptr \<Rightarrow> u8 list \<Rightarrow> nat \<Rightarrow> date_parser \<Rightarrow> u8 list \<Rightarrow> (date_parser \<times> u8 list) res" where
  "rfc_chars m str [] index p tz = Inr (p, tz)"
| "rfc_chars m str (c # cs) index p tz =
     (if \<not> dp_error p then
        bind_res (rfc_822_step m str c index p tz) (\<lambda>(p, tz). rfc_chars m str cs (index + 1) p tz)
      else Inr (p, tz))"

text \<open>The text is one of the format \<open>fmt\<close> and of none that automatic detection tries before it.\<close>

definition parses_as :: "aws_date_format \<Rightarrow> memory \<Rightarrow> byte_cursor \<Rightarrow> tm \<Rightarrow> bool" where
  "parses_as fmt m c t \<longleftrightarrow>
     (case fmt of
        AWS_DATE_FORMAT_ISO_8601 \<Rightarrow> s_parse_iso_8601 m c = Inr (True, t)
      | AWS_DATE_FORMAT_ISO_8601_BASIC \<Rightarrow> s_parse_iso_8601_basic m c = Inr (True, t) \<and> (\<exists>u. s_parse_iso_8601 m c = Inr (False, u))
      | AWS_DATE_FORMAT_RFC822 \<Rightarrow>
          (\<forall>dt. dt_tz dt = replicate 6 0 \<longrightarrow> s_parse_rfc_822 m c dt =
             Inr (True, t, dt\<lparr>dt_tz := [71, 77, 84, 0, 0, 0], dt_utc_assumed := True\<rparr>)) \<and>
          (\<exists>u. s_parse_iso_8601 m c = Inr (False, u)) \<and> (\<exists>u. s_parse_iso_8601_basic m c = Inr (False, u))
      | AWS_DATE_FORMAT_AUTO_DETECT \<Rightarrow> False)"

text \<open>How often the ISO 8601 parser may still look at a character a second time.\<close>

fun reps :: "parser_state \<Rightarrow> nat" where
  "reps ON_MINUTE = 1"
| "reps ON_SECOND = 0"
| "reps ON_TZ = 0"
| "reps FINISHED = 0"
| "reps _ = 2"

text \<open>A computation returns, or a member of the structure overflows.\<close>

definition returns :: "'a res \<Rightarrow> bool" where
  "returns r \<longleftrightarrow> (case r of Inr _ \<Rightarrow> True | Inl e \<Rightarrow> e = Undefined)"

text \<open>A host in the time zone UTC, a date and an empty buffer of thirty bytes.\<close>

definition utc_zone :: time_zone where
  "utc_zone = \<lparr>z_localtime = gmtime, z_mktime = timegm, z_name = (\<lambda>_. [71, 77, 84])\<rparr>"

definition date_memory :: memory where
  "date_memory = \<lparr>m_blocks = (\<lambda>b. None)(0 \<mapsto> replicate 30 None), m_next = 1\<rparr>"

definition date_buf :: byte_buf where
  "date_buf = \<lparr>b_len = 0, b_buffer = Ptr 0 0, b_capacity = 30, b_allocator = None\<rparr>"

section \<open>Abstraction and invariant\<close>



section \<open>Lemmas\<close>

section \<open>Lemmas about the calendar\<close>

lemma days_before_year_bounds:
  "146097 * y - 396 \<le> 400 * days_before_year y" "400 * days_before_year y \<le> 146097 * y + 699"
proof -
  have "y \<le> 4 * ((y + 3) div 4)" "4 * ((y + 3) div 4) \<le> y + 3" "y \<le> 100 * ((y + 99) div 100)" "100 * ((y + 99) div 100) \<le> y + 99"
    "y \<le> 400 * ((y + 399) div 400)" "400 * ((y + 399) div 400) \<le> y + 399" by linarith+
  note b = this
  have "400 * days_before_year y = 146000 * y + 100 * (4 * ((y + 3) div 4)) - 4 * (100 * ((y + 99) div 100)) + 400 * ((y + 399) div 400)"
    by (simp add: days_before_year_def algebra_simps)
  with b show "146097 * y - 396 \<le> 400 * days_before_year y" "400 * days_before_year y \<le> 146097 * y + 699" by linarith+
qed

lemma year_of_day_ok: "days_before_year (year_of_day d) \<le> d" "d < days_before_year (year_of_day d + 1)"
proof -
  define y where "y = (400 * d) div 146097"
  have y: "146097 * y \<le> 400 * d" "400 * d < 146097 * y + 146097" unfolding y_def by linarith+
  have lo: "days_before_year (y - 1) \<le> d" using days_before_year_bounds(2) [of "y - 1"] y(1) by (simp add: algebra_simps)
  have hi: "d < days_before_year (y + 1 + 1)" using days_before_year_bounds(1) [of "y + 1 + 1"] y(2) by (simp add: algebra_simps)
  have yd: "year_of_day d = (if d < days_before_year y then y - 1 else if days_before_year (y + 1) \<le> d then y + 1 else y)"
    by (simp add: year_of_day_def y_def Let_def)
  show "days_before_year (year_of_day d) \<le> d" unfolding yd using lo by simp
  show "d < days_before_year (year_of_day d + 1)" unfolding yd using hi by (simp only: diff_add_cancel split: if_split) simp
qed

lemma days_before_year_period: "days_before_year (400 * q + r) = 146097 * q + days_before_year r"
proof -
  have "400 * q + r + 3 = (r + 3) + 4 * (100 * q)" "400 * q + r + 99 = (r + 99) + 100 * (4 * q)"
    "400 * q + r + 399 = (r + 399) + 400 * q" by simp_all
  then have d: "(400 * q + r + 3) div 4 = 100 * q + (r + 3) div 4" "(400 * q + r + 99) div 100 = 4 * q + (r + 99) div 100"
    "(400 * q + r + 399) div 400 = q + (r + 399) div 400" by (simp_all only: div_mult_self2)
  have "365 * (400 * q + r) + (100 * q + a) - (4 * q + b) + (q + c) = 146097 * q + (365 * r + a - b + c)" for a b c :: int
    by simp
  then show ?thesis unfolding days_before_year_def d .
qed

lemma leap_year_period: "leap_year (400 * q + r) = leap_year r"
proof -
  have "400 * q + r = r + 4 * (100 * q)" "400 * q + r = r + 100 * (4 * q)" "400 * q + r = r + 400 * q" by simp_all
  then have "(400 * q + r) mod 4 = r mod 4" "(400 * q + r) mod 100 = r mod 100" "(400 * q + r) mod 400 = r mod 400"
    by (metis mod_mult_self2)+
  then show ?thesis by (simp add: leap_year_def)
qed

lemma sum_month_lengths: "sum_list (month_lengths leap) = (if leap then 366 else 365)"
  by (simp add: month_lengths_def)

lemma years_of_a_period: "\<forall>r \<in> set [0 .. 399]. days_before_year (r + 1) - days_before_year r = (if leap_year r then 366 else 365)"
  by code_simp

lemma days_before_next_year: "days_before_year (y + 1) = days_before_year y + sum_list (month_lengths (leap_year y))"
proof -
  define q r where "q = y div 400" and "r = y mod 400"
  have y: "y = 400 * q + r" "0 \<le> r" "r \<le> 399" by (simp_all add: q_def r_def)
  then have "r \<in> set [0 .. 399]" by simp
  from bspec [OF years_of_a_period this] show ?thesis
    unfolding y(1) leap_year_period sum_month_lengths add.assoc days_before_year_period by linarith
qed

lemma month_of_day_ok:
  assumes "0 \<le> d" "d < sum_list ls"
  shows "month_of_day ls d < length ls \<and> sum_list (take (month_of_day ls d) ls) \<le> d \<and>
    d < sum_list (take (month_of_day ls d) ls) + ls ! month_of_day ls d"
  using assms
proof (induction ls arbitrary: d)
  case (Cons l ls)
  show ?case
  proof (cases "d < l")
    case False
    then have "0 \<le> d - l" "d - l < sum_list ls" using Cons.prems by auto
    from Cons.IH [OF this] False show ?thesis by auto
  qed (use Cons.prems in simp)
qed simp

lemma month_length_bound: "m < 12 \<Longrightarrow> month_lengths leap ! m \<le> 31"
  by (auto simp: month_lengths_def less_Suc_eq numeral_eq_Suc)

text \<open>The broken-down time of a time stamp denotes that time stamp and has its members in their ranges.\<close>

lemma gmtime_ok:
  assumes "gmtime ts = Some t"
  shows "timegm t = ts" "normal_tm t"
proof -
  define days rest d y yd m where defs: "days = ts div 86400" "rest = ts mod 86400" "d = days + days_before_year 1970"
    "y = year_of_day d" "yd = d - days_before_year y" "m = month_of_day (month_lengths (leap_year y)) yd"
  have t: "t = \<lparr>tm_sec = rest mod 60, tm_min = rest div 60 mod 60, tm_hour = rest div 3600,
      tm_mday = yd - days_before_month (leap_year y) m + 1, tm_mon = int m, tm_year = y - 1900,
      tm_wday = (days + 4) mod 7, tm_yday = yd, tm_isdst = 0\<rparr>"
    using assms unfolding gmtime_def Let_def defs [symmetric] by (auto split: if_splits)
  have yd: "0 \<le> yd" "yd < sum_list (month_lengths (leap_year y))"
    using year_of_day_ok [of d] days_before_next_year [of y] unfolding defs(4) [symmetric] defs(5) by linarith+
  have m: "m < 12" "days_before_month (leap_year y) m \<le> yd" "yd < days_before_month (leap_year y) m + month_lengths (leap_year y) ! m"
    using month_of_day_ok [OF yd] unfolding defs(6) [symmetric] days_before_month_def by (simp_all add: month_lengths_def)
  have rest: "0 \<le> rest" "rest < 86400" "ts = days * 86400 + rest" by (simp_all add: defs)
  have "rest div 3600 < 24" "0 \<le> rest div 3600" using rest(1,2) by auto
  then show "normal_tm t" using m month_length_bound [OF m(1), of "leap_year y"] unfolding t normal_tm_def by simp
  have "rest div 3600 = rest div 60 div 60" by (simp add: zdiv_zmult2_eq [symmetric])
  then have r: "(rest div 3600 * 60 + rest div 60 mod 60) * 60 + rest mod 60 = rest"
    by (simp only: div_mult_mod_eq)
  have "days_before_year y - days_before_year 1970 + days_before_month (leap_year y) m + (yd - days_before_month (leap_year y) m + 1 - 1) = days"
    by (simp add: defs(3,5))
  then have "timegm t = ((days * 24 + rest div 3600) * 60 + rest div 60 mod 60) * 60 + rest mod 60"
    using m(1) unfolding timegm_def t Let_def by (simp add: div_pos_pos_trivial)
  also have "\<dots> = days * 86400 + ((rest div 3600 * 60 + rest div 60 mod 60) * 60 + rest mod 60)"
    by (simp only: distrib_right mult.assoc add.assoc)
  finally show "timegm t = ts" unfolding r using rest(3) by simp
qed

section \<open>Lemmas about parsing\<close>

lemma digit_bounds:
  assumes "aws_isdigit c" shows "0 \<le> dig c" "dig c \<le> 9"
proof -
  have "48 \<le> unat c" "unat c \<le> 57" using assms by (simp_all add: aws_isdigit_def word_le_nat_alt)
  then show "0 \<le> dig c" "dig c \<le> 9" unfolding dig_def by linarith+
qed

lemma digit_not:
  assumes "aws_isdigit c"
  shows "c \<noteq> ch_T" "c \<noteq> ch_Z" "c \<noteq> ch_minus" "c \<noteq> ch_plus" "c \<noteq> ch_dot" "c \<noteq> ch_colon" "c \<noteq> ch_comma" "\<not> aws_isspace c"
  using assms by (auto simp: aws_isdigit_def aws_isspace_def)

lemma alpha_not: "aws_isalpha c \<Longrightarrow> c \<noteq> ch_comma" "aws_isalpha c \<Longrightarrow> \<not> aws_isdigit c" "aws_isalpha c \<Longrightarrow> \<not> aws_isspace c"
  by (auto simp: aws_isalpha_def aws_isdigit_def aws_isspace_def word_le_nat_alt)

lemma rfc_constants: "aws_isspace 32" "aws_isalnum 71" "aws_isalnum 77" "aws_isalnum 84" "is_utc_time_zone [71, 77, 84, 0, 0, 0]"
  by (simp_all add: aws_isspace_def aws_isalnum_def) code_simp

lemma add_digit_ok: "aws_isdigit c \<Longrightarrow> 0 \<le> v \<Longrightarrow> v < 100000000 \<Longrightarrow> add_digit v c = Inr (v * 10 + dig c)"
  using digit_bounds [of c] by (simp add: add_digit_def int32_def dig_def)

lemma not_digits [simp]: "\<not> aws_isdigit 84" "\<not> aws_isdigit 90" "\<not> aws_isdigit 45" "\<not> aws_isdigit 58" "\<not> aws_isdigit 44" "\<not> aws_isdigit 32"
  by (simp_all add: aws_isdigit_def)

lemmas parser_simps = parse_fail_def goto_def on_year_def on_mon_def on_mday_def on_hour_def on_min_def on_sec_def
  add_year_def sub_mon_def add_digit_ok digit_not start_parser_def zero_tm_def int32_def iso_result_def time_delim_def

text \<open>The loops over memory as recursions over the characters.\<close>

lemma iso_8601_loop_chars:
  assumes "holds m str cs" "index \<le> length cs"
  shows "iso_8601_loop fuel m str index (length cs) p = iso_chars fuel (drop index cs) index p"
  using assms(2)
proof (induction fuel arbitrary: index p)
  case (Suc fuel)
  show ?case
  proof (cases "index < length cs")
    case True
    then have "drop index cs = cs ! index # drop (index + 1) cs" by (simp add: Cons_nth_drop_Suc)
    with True Suc.IH assms(1) show ?thesis by (auto simp: bind_res_def split: sum.splits prod.splits)
  qed (use Suc.prems in simp)
qed simp

lemma iso_8601_basic_loop_chars:
  "holds m str cs \<Longrightarrow> index + n = length cs \<Longrightarrow> iso_8601_basic_loop m str index n p = basic_chars (drop index cs) index p"
proof (induction n arbitrary: index p)
  case (Suc n)
  then have d: "index < length cs" "drop index cs = cs ! index # drop (index + 1) cs" by (auto simp: Cons_nth_drop_Suc)
  have "iso_8601_basic_loop m str (index + 1) n = basic_chars (drop (index + 1) cs) (index + 1)"
    using Suc.IH [OF Suc.prems(1), of "index + 1"] Suc.prems(2) by (intro ext) simp
  with d Suc.prems(1) show ?case by simp
qed simp

lemma rfc_822_loop_chars:
  "holds m str cs \<Longrightarrow> index + n = length cs \<Longrightarrow> rfc_822_loop m str index n p tz = rfc_chars m str (drop index cs) index p tz"
proof (induction n arbitrary: index p tz)
  case (Suc n)
  then have d: "index < length cs" "drop index cs = cs ! index # drop (index + 1) cs" by (auto simp: Cons_nth_drop_Suc)
  have "rfc_822_loop m str (index + 1) n = rfc_chars m str (drop (index + 1) cs) (index + 1)"
    using Suc.IH [OF Suc.prems(1), of "index + 1"] Suc.prems(2) by (intro ext) simp
  with d Suc.prems(1) show ?case by simp
qed simp

lemma iso_chars_step:
  "fuel \<noteq> 0 \<Longrightarrow> dp_state p \<noteq> FINISHED \<Longrightarrow> \<not> dp_error p \<Longrightarrow> iso_8601_step c index p = Inr (p', True) \<Longrightarrow>
    iso_chars fuel (c # cs) index p = iso_chars (fuel - 1) cs (index + 1) p'"
  by (cases fuel) auto

lemma iso_chars_done: "fuel \<noteq> 0 \<Longrightarrow> dp_state p = FINISHED \<or> dp_error p \<or> cs = [] \<Longrightarrow> iso_chars fuel cs index p = Inr p"
  by (cases fuel) auto

lemma chars_steps:
  "dp_state p \<noteq> FINISHED \<Longrightarrow> \<not> dp_error p \<Longrightarrow> iso_8601_basic_step c index p = Inr p' \<Longrightarrow>
    basic_chars (c # cs) index p = basic_chars cs (index + 1) p'"
  "\<not> dp_error p \<Longrightarrow> rfc_822_step m str c index p tz = Inr (p', tz') \<Longrightarrow>
    rfc_chars m str (c # cs) index p tz = rfc_chars m str cs (index + 1) p' tz'"
  by simp_all

lemma digits_bounded: "list_all aws_isdigit ds \<Longrightarrow> list_all (\<lambda>c. 0 \<le> dig c \<and> dig c \<le> 9) ds"
  using digit_bounds by (auto simp: list_all_iff)

lemma parse_chars:
  assumes "cur_holds m c cs"
  shows "s_parse_iso_8601 m c = bind_res (iso_chars (length cs + 3) cs 0 (start_parser ON_YEAR)) (\<lambda>p. Inr (iso_result p))"
    "s_parse_iso_8601_basic m c = bind_res (basic_chars cs 0 (start_parser ON_YEAR)) (\<lambda>p. Inr (iso_result p))"
    "rfc_822_loop m (c_ptr c) 0 (unat (c_len c)) p tz = rfc_chars m (c_ptr c) cs 0 p tz"
proof -
  have l: "unat (c_len c) = length cs" "holds m (c_ptr c) cs" using assms by (simp_all add: cur_holds_def)
  show "s_parse_iso_8601 m c = bind_res (iso_chars (length cs + 3) cs 0 (start_parser ON_YEAR)) (\<lambda>p. Inr (iso_result p))"
    using iso_8601_loop_chars [OF l(2), of 0] by (simp add: s_parse_iso_8601_def l(1))
  show "s_parse_iso_8601_basic m c = bind_res (basic_chars cs 0 (start_parser ON_YEAR)) (\<lambda>p. Inr (iso_result p))"
    using iso_8601_basic_loop_chars [OF l(2), of 0] by (simp add: s_parse_iso_8601_basic_def l(1))
  show "rfc_822_loop m (c_ptr c) 0 (unat (c_len c)) p tz = rfc_chars m (c_ptr c) cs 0 p tz"
    using rfc_822_loop_chars [OF l(2), of 0] by (simp add: l(1))
qed

text \<open>The twenty characters of the ISO 8601 format with their delimiters.\<close>

lemma parse_iso_8601_ok:
  assumes c: "cur_holds m c [y1, y2, y3, y4, ch_minus, m1, m2, ch_minus, d1, d2, ch_T, h1, h2, ch_colon, n1, n2, ch_colon, s1, s2, ch_Z]"
    and d: "list_all aws_isdigit [y1, y2, y3, y4, m1, m2, d1, d2, h1, h2, n1, n2, s1, s2]"
  shows "s_parse_iso_8601 m c = Inr (True, zero_tm\<lparr>tm_sec := num2 s1 s2, tm_min := num2 n1 n2, tm_hour := num2 h1 h2, tm_mday := num2 d1 d2,
    tm_mon := num2 m1 m2 - 1, tm_year := num4 y1 y2 y3 y4 - 1900\<rparr>)"
  unfolding parse_chars(1) [OF c] using d digits_bounded [OF d]
  by (simp add: iso_8601_step_def parser_simps num2_def num4_def iso_chars_step iso_chars_done del: iso_chars.simps(2))

text \<open>The sixteen characters of the basic format; the other ISO 8601 parser fails on them.\<close>

lemma parse_iso_8601_basic_ok:
  assumes c: "cur_holds m c [y1, y2, y3, y4, m1, m2, d1, d2, ch_T, h1, h2, n1, n2, s1, s2, ch_Z]"
    and d: "list_all aws_isdigit [y1, y2, y3, y4, m1, m2, d1, d2, h1, h2, n1, n2, s1, s2]"
  shows "s_parse_iso_8601_basic m c = Inr (True, zero_tm\<lparr>tm_sec := num2 s1 s2, tm_min := num2 n1 n2, tm_hour := num2 h1 h2, tm_mday := num2 d1 d2,
    tm_mon := num2 m1 m2 - 1, tm_year := num4 y1 y2 y3 y4 - 1900\<rparr>)"
    and "\<exists>t. s_parse_iso_8601 m c = Inr (False, t)"
proof -
  note b = digits_bounded [OF d]
  show "s_parse_iso_8601_basic m c = Inr (True, zero_tm\<lparr>tm_sec := num2 s1 s2, tm_min := num2 n1 n2, tm_hour := num2 h1 h2, tm_mday := num2 d1 d2,
    tm_mon := num2 m1 m2 - 1, tm_year := num4 y1 y2 y3 y4 - 1900\<rparr>)"
    unfolding parse_chars(2) [OF c] using d b
    by (simp add: iso_8601_basic_step_def parser_simps num2_def num4_def chars_steps(1) del: basic_chars.simps(2))
  show "\<exists>t. s_parse_iso_8601 m c = Inr (False, t)"
    unfolding parse_chars(1) [OF c] using d b
    by (simp add: iso_8601_step_def parser_simps iso_chars_step iso_chars_done del: iso_chars.simps(2))
qed

text \<open>The twenty-nine characters of the RFC 822 format; neither of the ISO 8601 parsers gets past the first.\<close>

lemma parse_rfc_822_ok:
  assumes c: "cur_holds m c [w1, w2, w3, ch_comma, 32, d1, d2, 32, a1, a2, a3, 32, y1, y2, y3, y4, 32, h1, h2, ch_colon, n1, n2, ch_colon, s1, s2,
      32, 71, 77, 84]"
    and d: "list_all aws_isdigit [d1, d2, y1, y2, y3, y4, h1, h2, n1, n2, s1, s2]" and a: "list_all aws_isalpha [w1, w2, w3, a1, a2, a3]"
    and mo: "month_index month_triplets (STR_TRIPLET_TO_INDEX a1 a2 a3) 0 = mo" "mo > - 1" and tz: "dt_tz dt = replicate 6 0"
  shows "s_parse_rfc_822 m c dt = Inr (True, zero_tm\<lparr>tm_sec := num2 s1 s2, tm_min := num2 n1 n2, tm_hour := num2 h1 h2, tm_mday := num2 d1 d2,
      tm_mon := mo, tm_year := num4 y1 y2 y3 y4 - 1900\<rparr>, dt\<lparr>dt_tz := [71, 77, 84, 0, 0, 0], dt_utc_assumed := True\<rparr>)"
    and "\<exists>t. s_parse_iso_8601 m c = Inr (False, t)" "\<exists>t. s_parse_iso_8601_basic m c = Inr (False, t)"
proof -
  let ?cs = "[w1, w2, w3, ch_comma, 32, d1, d2, 32, a1, a2, a3, 32, y1, y2, y3, y4, 32, h1, h2, ch_colon, n1, n2, ch_colon, s1, s2, 32, 71, 77, 84]"
  note b = digits_bounded [OF d]
  have h: "holds m (c_ptr c) ?cs" using c by (simp add: cur_holds_def)
  have mn: "get_month_number_from_str m (c_ptr c) 8 12 = Inr mo"
    using mo(1) by (simp add: get_month_number_from_str_def load_u8_holds [OF h])
  note al = alpha_not and sp = rfc_constants(1-4) and utc = rfc_constants(5)
  have "\<exists>st. rfc_chars m (c_ptr c) ?cs 0 (start_parser ON_WEEKDAY) (replicate 6 0) =
      Inr (\<lparr>dp_state = ON_TZ, dp_start = st, dp_error = False, dp_time = zero_tm\<lparr>tm_sec := num2 s1 s2, tm_min := num2 n1 n2, tm_hour := num2 h1 h2,
        tm_mday := num2 d1 d2, tm_mon := mo, tm_year := num4 y1 y2 y3 y4 - 1900\<rparr>\<rparr>, [71, 77, 84, 0, 0, 0])"
    using d b a sp mo(2) mn
    by (simp add: rfc_822_step_def parser_simps num2_def num4_def chars_steps(2) al numeral_eq_Suc del: rfc_chars.simps(2))
  then show "s_parse_rfc_822 m c dt = Inr (True, zero_tm\<lparr>tm_sec := num2 s1 s2, tm_min := num2 n1 n2, tm_hour := num2 h1 h2, tm_mday := num2 d1 d2,
      tm_mon := mo, tm_year := num4 y1 y2 y3 y4 - 1900\<rparr>, dt\<lparr>dt_tz := [71, 77, 84, 0, 0, 0], dt_utc_assumed := True\<rparr>)"
    unfolding s_parse_rfc_822_def parse_chars(3) [OF c] tz using utc by (auto simp: Let_def)
  show "\<exists>t. s_parse_iso_8601 m c = Inr (False, t)" "\<exists>t. s_parse_iso_8601_basic m c = Inr (False, t)"
    unfolding parse_chars(1,2) [OF c] using al [of w1] a
    by (simp_all add: iso_8601_step_def iso_8601_basic_step_def parser_simps iso_chars_step iso_chars_done)
qed

section \<open>Lemmas about formatting\<close>

lemma digit_char: "k < 10 \<Longrightarrow> aws_isdigit (word_of_nat (48 + k)) \<and> dig (word_of_nat (48 + k)) = int k"
proof -
  assume k: "k < 10"
  have "unat (word_of_nat (48 + k) :: u8) = (48 + k) mod 2 ^ 8" by (simp only: unat_of_nat) simp
  also have "\<dots> = 48 + k" using k by simp
  finally show ?thesis using k unfolding aws_isdigit_def dig_def word_le_nat_alt by simp
qed

lemma digit_char_int: "0 \<le> v \<Longrightarrow> v < 10 \<Longrightarrow> aws_isdigit (word_of_int (48 + v)) \<and> dig (word_of_int (48 + v)) = v"
proof -
  assume v: "0 \<le> v" "v < 10"
  then obtain k where k: "v = int k" "k < 10" by (metis of_nat_less_numeral_iff nonneg_int_cases)
  have "(word_of_int (48 + v) :: u8) = word_of_nat (48 + k)" by (simp add: k(1))
  with digit_char [OF k(2)] k(1) show ?thesis by simp
qed

lemma dec2_ok:
  assumes "0 \<le> v" "v < 100"
  obtains a b where "dec2 v = [a, b]" "aws_isdigit a" "aws_isdigit b" "num2 a b = v"
proof
  have d: "aws_isdigit (word_of_int (48 + v div 10 mod 10))" "aws_isdigit (word_of_int (48 + v mod 10))"
    "dig (word_of_int (48 + v div 10 mod 10)) = v div 10 mod 10" "dig (word_of_int (48 + v mod 10)) = v mod 10"
    using digit_char_int [of "v div 10 mod 10"] digit_char_int [of "v mod 10"] by simp_all
  show "dec2 v = [word_of_int (48 + v div 10 mod 10), word_of_int (48 + v mod 10)]" by (simp only: dec2_def)
  show "aws_isdigit (word_of_int (48 + v div 10 mod 10))" "aws_isdigit (word_of_int (48 + v mod 10))" by (rule d)+
  have "v div 10 mod 10 = v div 10" using assms by (simp add: div_pos_pos_trivial)
  then show "num2 (word_of_int (48 + v div 10 mod 10)) (word_of_int (48 + v mod 10)) = v"
    unfolding num2_def d by simp
qed

lemma dec_int_ok:
  assumes "1000 \<le> v" "v < 10000"
  obtains a b c d where "dec_int v = [a, b, c, d]" "aws_isdigit a" "aws_isdigit b" "aws_isdigit c" "aws_isdigit d" "num4 a b c d = v"
proof -
  define n where "n = nat v"
  have n: "1000 \<le> n" "n < 10000" "v = int n" using assms by (auto simp: n_def nat_le_iff nat_less_iff)
  let ?c = "\<lambda>k :: nat. word_of_nat (48 + k) :: u8"
  have step: "dec_digits k = (if k < 10 then [?c k] else dec_digits (k div 10) @ [?c (k mod 10)])" for k
    by (rule dec_digits.simps)
  have b: "\<not> n < 10" "\<not> n div 10 < 10" "\<not> n div 10 div 10 < 10" "n div 10 div 10 div 10 < 10" using n by auto
  have "dec_digits n = [?c (n div 10 div 10 div 10), ?c (n div 10 div 10 mod 10), ?c (n div 10 mod 10), ?c (n mod 10)]"
    unfolding step [of n] step [of "n div 10"] step [of "n div 10 div 10"] step [of "n div 10 div 10 div 10"]
    by (simp only: b if_True if_False append.simps)
  then have e: "dec_int v = [?c (n div 10 div 10 div 10), ?c (n div 10 div 10 mod 10), ?c (n div 10 mod 10), ?c (n mod 10)]"
    using n(3) by (simp only: dec_int_def) (simp del: dec_digits.simps)
  note q = digit_char [OF b(4)] digit_char [of "n div 10 div 10 mod 10"] digit_char [of "n div 10 mod 10"] digit_char [of "n mod 10"]
  have "((n div 10 div 10 div 10 * 10 + n div 10 div 10 mod 10) * 10 + n div 10 mod 10) * 10 + n mod 10 = n"
    by (simp only: div_mult_mod_eq)
  then have "((int (n div 10 div 10 div 10) * 10 + int (n div 10 div 10 mod 10)) * 10 + int (n div 10 mod 10)) * 10 + int (n mod 10) = v"
    unfolding n(3) by (simp only: of_nat_add [symmetric] of_nat_mult [symmetric] of_nat_numeral [where 'a = int, symmetric])
  with q show thesis by (intro that [OF e]) (simp_all only: num4_def mod_less_divisor zero_less_numeral simp_thms)
qed

lemma month_triplets_eq:
  "month_triplets = [0x6e616a, 0x626566, 0x72616d, 0x727061, 0x79616d, 0x6e756a, 0x6c756a, 0x677561, 0x706573, 0x74636f, 0x766f6e, 0x636564]"
  by (simp add: month_triplets_def triplet_of_def bytes_of_def STR_TRIPLET_TO_INDEX_def tolower_eq)

lemma weekday_letters: "list_all (\<lambda>n. length n = 3 \<and> list_all aws_isalpha n) weekday_names"
  by (simp add: weekday_names_def bytes_of_def aws_isalpha_def)

lemma month_letters: "list_all2 (\<lambda>n i. length n = 3 \<and> list_all aws_isalpha n \<and>
    month_index month_triplets (STR_TRIPLET_TO_INDEX (n ! 0) (n ! 1) (n ! 2)) 0 = i) month_names [0, 1, 2, 3, 4, 5, 6, 7, 8, 9, 10, 11]"
  by (simp add: month_names_def bytes_of_def aws_isalpha_def month_triplets_eq STR_TRIPLET_TO_INDEX_def tolower_eq)

lemma length_three: "length xs = 3 \<Longrightarrow> xs = [xs ! 0, xs ! 1, xs ! 2]"
  by (auto simp: numeral_eq_Suc length_Suc_conv)

lemma weekday_ok:
  assumes "0 \<le> i" "i < 7"
  obtains a b c where "name_at weekday_names i = [a, b, c]" "list_all aws_isalpha [a, b, c]"
proof -
  have n: "nat i < length weekday_names" "int (length weekday_names) = 7" using assms by (simp_all add: weekday_names_def nat_less_iff)
  let ?n = "weekday_names ! nat i"
  have b: "length ?n = 3" "list_all aws_isalpha ?n" using weekday_letters n(1) by (auto simp: list_all_length)
  have "name_at weekday_names i = ?n" using assms n by (simp add: name_at_def)
  with length_three [OF b(1)] b(2) show thesis by (metis that)
qed

lemma month_list: "k < 12 \<Longrightarrow> [0, 1, 2, 3, 4, 5, 6, 7, 8, 9, 10, 11 :: int] ! k = int k"
  by (auto simp: numeral_eq_Suc less_Suc_eq)

lemma month_ok:
  assumes "0 \<le> i" "i < 12"
  obtains a b c where "name_at month_names i = [a, b, c]" "list_all aws_isalpha [a, b, c]"
    "month_index month_triplets (STR_TRIPLET_TO_INDEX a b c) 0 = i"
proof -
  have n: "nat i < length month_names" "int (length month_names) = 12" using assms by (simp_all add: month_names_def nat_less_iff)
  let ?n = "month_names ! nat i"
  have k: "nat i < 12" using assms by simp
  have b: "length ?n = 3" "list_all aws_isalpha ?n" "month_index month_triplets (STR_TRIPLET_TO_INDEX (?n ! 0) (?n ! 1) (?n ! 2)) 0 = i"
    using list_all2_nthD [OF month_letters n(1)] month_list [OF k] assms(1) by auto
  have "name_at month_names i = ?n" using assms n by (simp add: name_at_def)
  with length_three [OF b(1)] b(2,3) show thesis by (metis that)
qed

lemma date_to_str_ok:
  assumes b: "buf_holds m buf []" and cs: "strftime_chars z t format = cs" "cs \<noteq> []" "length cs < unat (b_capacity buf)"
  obtains m' where "s_date_to_str z m t format buf = (AWS_OP_SUCCESS, buf\<lparr>b_len := word_of_nat (length cs)\<rparr>, m')"
    "buf_holds m' (buf\<lparr>b_len := word_of_nat (length cs)\<rparr>) cs" "changed_only m (b_buffer buf) (length cs + 1) m'"
proof -
  have l0: "b_len buf = 0" and rm: "room m (b_buffer buf) (unat (b_capacity buf))" and v: "aws_byte_buf_is_valid buf"
    using b by (auto simp: buf_holds_def unat_eq_zero_iff)
  have "room m (b_buffer buf) (length (map Some (cs @ [0])))" using room_sub [OF rm, of 0] cs(3) by simp
  then obtain m' where m': "store_bytes m (b_buffer buf) (map Some (cs @ [0])) = Inr m'"
    "bytes_at m' (b_buffer buf) (length (map Some (cs @ [0]))) = Some (map Some (cs @ [0]))"
    "changed_only m (b_buffer buf) (length (map Some (cs @ [0]))) m'"
    by (rule store_bytes_ok) simp
  have h: "holds m' (b_buffer buf) cs" using m'(2) holds_append [of m' "b_buffer buf" cs "[0]"] by (simp add: holds_def)
  have "length cs < 2 ^ 64" using cs(3) unat_size_lt [of "b_capacity buf"] by (simp add: less_trans)
  then have u: "unat (word_of_nat (length cs) :: size_t) = length cs" by (simp add: unat_of_nat)
  have nz: "(word_of_nat (length cs) :: size_t) \<noteq> 0" using u cs(2) by (metis length_0_conv unat_0)
  show thesis
  proof (rule that [of m'])
    show "s_date_to_str z m t format buf = (AWS_OP_SUCCESS, buf\<lparr>b_len := word_of_nat (length cs)\<rparr>, m')"
      using cs m'(1) nz by (simp add: s_date_to_str_def strftime_def l0)
    show "buf_holds m' (buf\<lparr>b_len := word_of_nat (length cs)\<rparr>) cs"
      using v rm h u cs(3) changed_only_room [OF m'(3)] by (auto simp: buf_holds_def aws_byte_buf_is_valid_def word_le_nat_alt)
    show "changed_only m (b_buffer buf) (length cs + 1) m'" using m'(3) by simp
  qed
qed

lemma strftime_normal:
  assumes t: "normal_tm t" and y: "1000 \<le> tm_year t + 1900" "tm_year t + 1900 < 10000"
  obtains y1 y2 y3 y4 m1 m2 d1 d2 h1 h2 n1 n2 s1 s2 w1 w2 w3 a1 a2 a3 where
    "strftime_chars z t ISO_8601_LONG_DATE_FORMAT_STR =
      [y1, y2, y3, y4, ch_minus, m1, m2, ch_minus, d1, d2, ch_T, h1, h2, ch_colon, n1, n2, ch_colon, s1, s2, ch_Z]"
    "strftime_chars z t ISO_8601_LONG_BASIC_DATE_FORMAT_STR = [y1, y2, y3, y4, m1, m2, d1, d2, ch_T, h1, h2, n1, n2, s1, s2, ch_Z]"
    "strftime_chars z t RFC822_DATE_FORMAT_STR_MINUS_Z =
      [w1, w2, w3, ch_comma, 32, d1, d2, 32, a1, a2, a3, 32, y1, y2, y3, y4, 32, h1, h2, ch_colon, n1, n2, ch_colon, s1, s2, 32, 71, 77, 84]"
    "list_all aws_isdigit [y1, y2, y3, y4, m1, m2, d1, d2, h1, h2, n1, n2, s1, s2]" "list_all aws_isalpha [w1, w2, w3, a1, a2, a3]"
    "num4 y1 y2 y3 y4 = tm_year t + 1900" "num2 m1 m2 = tm_mon t + 1" "num2 d1 d2 = tm_mday t" "num2 h1 h2 = tm_hour t"
    "num2 n1 n2 = tm_min t" "num2 s1 s2 = tm_sec t" "month_index month_triplets (STR_TRIPLET_TO_INDEX a1 a2 a3) 0 = tm_mon t"
proof -
  note n = t [unfolded normal_tm_def]
  obtain y1 y2 y3 y4 where yy: "dec_int (tm_year t + 1900) = [y1, y2, y3, y4]" "aws_isdigit y1" "aws_isdigit y2" "aws_isdigit y3" "aws_isdigit y4"
    "num4 y1 y2 y3 y4 = tm_year t + 1900" by (rule dec_int_ok [OF y])
  obtain m1 m2 where mm: "dec2 (tm_mon t + 1) = [m1, m2]" "aws_isdigit m1" "aws_isdigit m2" "num2 m1 m2 = tm_mon t + 1"
    by (rule dec2_ok [of "tm_mon t + 1"]) (use n in auto)
  obtain d1 d2 where dd: "dec2 (tm_mday t) = [d1, d2]" "aws_isdigit d1" "aws_isdigit d2" "num2 d1 d2 = tm_mday t"
    by (rule dec2_ok [of "tm_mday t"]) (use n in auto)
  obtain h1 h2 where hh: "dec2 (tm_hour t) = [h1, h2]" "aws_isdigit h1" "aws_isdigit h2" "num2 h1 h2 = tm_hour t"
    by (rule dec2_ok [of "tm_hour t"]) (use n in auto)
  obtain n1 n2 where nn: "dec2 (tm_min t) = [n1, n2]" "aws_isdigit n1" "aws_isdigit n2" "num2 n1 n2 = tm_min t"
    by (rule dec2_ok [of "tm_min t"]) (use n in auto)
  obtain s1 s2 where ss: "dec2 (tm_sec t) = [s1, s2]" "aws_isdigit s1" "aws_isdigit s2" "num2 s1 s2 = tm_sec t"
    by (rule dec2_ok [of "tm_sec t"]) (use n in auto)
  obtain w1 w2 w3 where ww: "name_at weekday_names (tm_wday t) = [w1, w2, w3]" "list_all aws_isalpha [w1, w2, w3]"
    by (rule weekday_ok [of "tm_wday t"]) (use n in auto)
  obtain a1 a2 a3 where aa: "name_at month_names (tm_mon t) = [a1, a2, a3]" "list_all aws_isalpha [a1, a2, a3]"
    "month_index month_triplets (STR_TRIPLET_TO_INDEX a1 a2 a3) 0 = tm_mon t" by (rule month_ok [of "tm_mon t"]) (use n in auto)
  note fields = strftime_conv_def yy(1) mm(1) dd(1) hh(1) nn(1) ss(1) ww(1) aa(1)
  show thesis
    by (rule that [of y1 y2 y3 y4 m1 m2 d1 d2 h1 h2 n1 n2 s1 s2 w1 w2 w3 a1 a2 a3])
      (use yy mm dd hh nn ss ww aa in \<open>simp_all add: fields ISO_8601_LONG_DATE_FORMAT_STR_def ISO_8601_LONG_BASIC_DATE_FORMAT_STR_def
         RFC822_DATE_FORMAT_STR_MINUS_Z_def\<close>)
qed

text \<open>The structure that the parsers fill in, from the members they read.\<close>

lemma timegm_fields:
  "timegm (zero_tm\<lparr>tm_sec := tm_sec t, tm_min := tm_min t, tm_hour := tm_hour t, tm_mday := tm_mday t, tm_mon := tm_mon t, tm_year := tm_year t\<rparr>) =
    timegm t"
  by (simp add: timegm_def zero_tm_def)

lemma init_from_str_ok:
  assumes c: "cur_holds m c cs" "length cs \<le> 100" and p: "timegm pt = ts" "parses_as fmt m c pt"
    and f: "f = fmt \<or> f = AWS_DATE_FORMAT_AUTO_DETECT"
  obtains dt where "aws_date_time_init_from_str_cursor z m c f = Inr dt" "dt_timestamp dt = ts" "dt_utc_assumed dt"
    "dt_gmt_time dt = aws_gmtime ts zero_tm" "dt_local_time dt = aws_localtime z ts zero_tm" "dt_milliseconds dt = 0"
proof -
  have len: "c_len c \<le> AWS_DATE_TIME_STR_MAX_LEN"
    using c by (simp add: cur_holds_def AWS_DATE_TIME_STR_MAX_LEN_def word_le_nat_alt)
  note defs = aws_date_time_init_from_str_cursor_def Let_def aws_timegm_def set_time_structs_def s_get_time_struct_def p(1) tz_seconds_offset_def
  have z: "dt_tz zero_date_time = replicate 6 0" by (simp add: zero_date_time_def)
  show thesis
    using p(2) f len z unfolding parses_as_def by (cases fmt) (auto simp: defs intro!: that)
qed

lemma date_round_trip:
  assumes g: "gmtime ts = Some t" and y: "1000 \<le> tm_year t + 1900" "tm_year t + 1900 < 10000" and dt: "dt_gmt_time dt = t"
    and b: "buf_holds m buf []" "30 \<le> unat (b_capacity buf)"
    and f: "fmt \<noteq> AWS_DATE_FORMAT_AUTO_DETECT" "f = fmt \<or> f = AWS_DATE_FORMAT_AUTO_DETECT"
  obtains buf' m' dt' where "aws_date_time_to_utc_time_str z m dt fmt buf = (AWS_OP_SUCCESS, buf', m')"
    "aws_date_time_init_from_str z m' buf' f = Inr dt'" "dt_timestamp dt' = ts" "dt_gmt_time dt' = t" "dt_utc_assumed dt'"
    "dt_local_time dt' = aws_localtime z ts zero_tm"
proof -
  note gm = gmtime_ok [OF g]
  obtain y1 y2 y3 y4 m1 m2 d1 d2 h1 h2 n1 n2 s1 s2 w1 w2 w3 a1 a2 a3 where c:
    "strftime_chars z t ISO_8601_LONG_DATE_FORMAT_STR =
      [y1, y2, y3, y4, ch_minus, m1, m2, ch_minus, d1, d2, ch_T, h1, h2, ch_colon, n1, n2, ch_colon, s1, s2, ch_Z]"
    "strftime_chars z t ISO_8601_LONG_BASIC_DATE_FORMAT_STR = [y1, y2, y3, y4, m1, m2, d1, d2, ch_T, h1, h2, n1, n2, s1, s2, ch_Z]"
    "strftime_chars z t RFC822_DATE_FORMAT_STR_MINUS_Z =
      [w1, w2, w3, ch_comma, 32, d1, d2, 32, a1, a2, a3, 32, y1, y2, y3, y4, 32, h1, h2, ch_colon, n1, n2, ch_colon, s1, s2, 32, 71, 77, 84]"
    and d: "list_all aws_isdigit [y1, y2, y3, y4, m1, m2, d1, d2, h1, h2, n1, n2, s1, s2]" and al: "list_all aws_isalpha [w1, w2, w3, a1, a2, a3]"
    and num: "num4 y1 y2 y3 y4 = tm_year t + 1900" "num2 m1 m2 = tm_mon t + 1" "num2 d1 d2 = tm_mday t" "num2 h1 h2 = tm_hour t"
      "num2 n1 n2 = tm_min t" "num2 s1 s2 = tm_sec t" and mo: "month_index month_triplets (STR_TRIPLET_TO_INDEX a1 a2 a3) 0 = tm_mon t"
    by (rule strftime_normal [OF gm(2) y])
  define pt where "pt = zero_tm\<lparr>tm_sec := tm_sec t, tm_min := tm_min t, tm_hour := tm_hour t, tm_mday := tm_mday t, tm_mon := tm_mon t,
    tm_year := tm_year t\<rparr>"
  have pt: "timegm pt = ts" using timegm_fields [of t] gm(1) by (simp add: pt_def)
  have dr: "list_all aws_isdigit [d1, d2, y1, y2, y3, y4, h1, h2, n1, n2, s1, s2]" using d by simp
  have mo1: "tm_mon t > - 1" using gm(2) by (simp add: normal_tm_def)
  have rf: "(\<exists>u. s_parse_iso_8601 m c = Inr (False, u)) \<and> (\<exists>u. s_parse_iso_8601_basic m c = Inr (False, u))"
    if "cur_holds m c [w1, w2, w3, ch_comma, 32, d1, d2, 32, a1, a2, a3, 32, y1, y2, y3, y4, 32, h1, h2, ch_colon, n1, n2, ch_colon, s1, s2, 32, 71, 77, 84]"
    for m c using parse_rfc_822_ok(2,3) [OF that dr al mo mo1, of "zero_date_time"] by (simp add: zero_date_time_def)
  obtain format cs where fc: "aws_date_time_to_utc_time_str z m dt fmt buf = s_date_to_str z m t format buf" "strftime_chars z t format = cs"
    "cs \<noteq> []" "length cs < 30" "\<And>m c. cur_holds m c cs \<Longrightarrow> parses_as fmt m c pt"
  proof (cases fmt)
    case AWS_DATE_FORMAT_ISO_8601
    with c(1) show thesis
      by (intro that [OF _ c(1)]) (simp_all add: aws_date_time_to_utc_time_str_def dt parses_as_def parse_iso_8601_ok [OF _ d] num pt_def)
  next
    case AWS_DATE_FORMAT_ISO_8601_BASIC
    with c(2) show thesis
      by (intro that [OF _ c(2)])
        (simp_all add: aws_date_time_to_utc_time_str_def dt parses_as_def parse_iso_8601_basic_ok [OF _ d] num pt_def)
  next
    case AWS_DATE_FORMAT_RFC822
    with c(3) show thesis
      by (intro that [OF _ c(3)])
        (simp_all add: aws_date_time_to_utc_time_str_def dt parses_as_def parse_rfc_822_ok(1) [OF _ dr al mo mo1] rf num pt_def)
  qed (use f(1) in simp)
  have "length cs < unat (b_capacity buf)" using fc(4) b(2) by simp
  from date_to_str_ok [OF b(1) fc(2,3) this] obtain m' where m': "s_date_to_str z m t format buf = (AWS_OP_SUCCESS, buf\<lparr>b_len := word_of_nat (length cs)\<rparr>, m')"
    "buf_holds m' (buf\<lparr>b_len := word_of_nat (length cs)\<rparr>) cs" by blast
  let ?b = "buf\<lparr>b_len := word_of_nat (length cs)\<rparr>"
  note h = buf_holds_cursor [OF m'(2)]
  have "length cs \<le> 100" using fc(4) by simp
  from init_from_str_ok [OF h this pt fc(5) [OF h] f(2)] obtain dt' where dt': "aws_date_time_init_from_str_cursor z m' (aws_byte_cursor_from_buf ?b) f = Inr dt'"
    "dt_timestamp dt' = ts" "dt_utc_assumed dt'" "dt_gmt_time dt' = aws_gmtime ts zero_tm" "dt_local_time dt' = aws_localtime z ts zero_tm" by blast
  have "unat (b_len ?b) = length cs" using m'(2) by (simp add: buf_holds_def)
  then have "b_len ?b \<le> AWS_DATE_TIME_STR_MAX_LEN" using fc(4) by (simp add: AWS_DATE_TIME_STR_MAX_LEN_def word_le_nat_alt)
  then show thesis using dt' g
    by (intro that [OF trans [OF fc(1) m'(1)], of dt']) (simp_all add: aws_date_time_init_from_str_def aws_gmtime_def)
qed

section \<open>Lemmas about unit conversion\<close>

lemma unat_max_word: "unat (- 1 :: u64) = 2 ^ 64 - 1"
  by (simp add: unsigned_minus_1_eq_mask mask_eq_exp_minus_1)

lemma mul_saturating_nat: "unat (aws_mul_u64_saturating a b) = min (2 ^ 64 - 1) (unat a * unat b)"
proof (cases "2 ^ 64 \<le> unat a * unat b")
  case True
  then show ?thesis using mul_overflow_iff [of a b] by (simp add: aws_mul_u64_saturating_def UINT64_MAX_def unat_max_word)
next
  case False
  then show ?thesis using mul_overflow_iff [of a b]
    by (auto simp: aws_mul_u64_saturating_def UINT64_MAX_def unat_word_ariths)
qed

lemma add_saturating_nat: "unat (aws_add_u64_saturating a b) = min (2 ^ 64 - 1) (unat a + unat b)"
proof (cases "2 ^ 64 \<le> unat a + unat b")
  case True
  then show ?thesis using add_overflow_iff [of b a] by (simp add: aws_add_u64_saturating_def UINT64_MAX_def unat_max_word)
next
  case False
  then show ?thesis using add_overflow_iff [of b a]
    by (auto simp: aws_add_u64_saturating_def UINT64_MAX_def unat_word_ariths)
qed

lemma convert_exact:
  assumes "unat old > 0" "unat new > 0" "(unat old - 1) * unat new < 2 ^ 64"
  shows "\<exists>r. aws_timestamp_convert_u64 ticks old new = Inr (r, if new < old \<and> old mod new = 0 then ticks mod (old div new) else 0) \<and>
    unat r = min (2 ^ 64 - 1) (unat ticks * unat new div unat old)"
proof -
  let ?q = "unat ticks div unat old" and ?r = "unat ticks mod unat old"
  have q: "unat (ticks div old) = ?q" by (simp add: unat_div_distrib)
  have rem: "ticks - ticks div old * old = ticks mod old" by (simp add: minus_div_mult_eq_mod)
  have r: "unat (ticks mod old) = ?r" by (simp add: unat_mod_distrib)
  have "?r \<le> unat old - 1" using mod_less_divisor [OF assms(1), of "unat ticks"] by linarith
  then have "?r * unat new \<le> (unat old - 1) * unat new" by (rule mult_le_mono1)
  then have rn: "?r * unat new < 2 ^ 64" using assms(3) by linarith
  have "unat ticks * unat new = ?q * unat old * unat new + ?r * unat new" by (simp flip: distrib_right)
  then have "unat ticks * unat new = ?r * unat new + (?q * unat new) * unat old" by (simp only: ac_simps)
  then have "unat ticks * unat new div unat old = ?r * unat new div unat old + ?q * unat new"
    using assms(1) by (simp only: div_mult_self1)
  moreover have "0 < old" "0 < new" using assms(1,2) by (simp_all add: word_less_nat_alt)
  moreover have "unat (aws_mul_u64_saturating (ticks mod old) new div old) = ?r * unat new div unat old"
    using rn by (simp add: unat_div_distrib mul_saturating_nat r)
  ultimately show ?thesis
    by (simp add: aws_timestamp_convert_u64_def Let_def rem q add_saturating_nat mul_saturating_nat)
qed

section \<open>Lemmas about arbitrary texts\<close>

lemma returns_simps [simp]:
  "returns (Inr x)" "returns (Inl Undefined)" "\<not> returns (Inl Diverged)" "\<not> returns (Inl Aborted)" "\<not> returns (Inl (Raised e))"
  by (simp_all add: returns_def)

lemma returns_bind: "returns r \<Longrightarrow> (\<And>x. r = Inr x \<Longrightarrow> returns (f x)) \<Longrightarrow> returns (bind_res r f)"
  by (auto simp: returns_def bind_res_def split: sum.splits)

lemma returns_digits:
  "returns (on_year c p)" "returns (on_mon c p)" "returns (on_mday c p)" "returns (on_hour c p)" "returns (on_min c p)" "returns (on_sec c p)"
  "returns (add_year k p)" "returns (sub_mon p)"
  by (simp_all add: on_year_def on_mon_def on_mday_def on_hour_def on_min_def on_sec_def add_year_def sub_mon_def add_digit_def int32_def bind_res_def)

lemma digits_keep:
  "on_year c p = Inr p' \<Longrightarrow> dp_state p' = dp_state p \<and> dp_start p' = dp_start p"
  "on_mon c p = Inr p' \<Longrightarrow> dp_state p' = dp_state p \<and> dp_start p' = dp_start p"
  "on_mday c p = Inr p' \<Longrightarrow> dp_state p' = dp_state p \<and> dp_start p' = dp_start p"
  "on_hour c p = Inr p' \<Longrightarrow> dp_state p' = dp_state p \<and> dp_start p' = dp_start p"
  "on_min c p = Inr p' \<Longrightarrow> dp_state p' = dp_state p \<and> dp_start p' = dp_start p"
  "on_sec c p = Inr p' \<Longrightarrow> dp_state p' = dp_state p \<and> dp_start p' = dp_start p"
  "add_year k p = Inr p' \<Longrightarrow> dp_state p' = dp_state p \<and> dp_start p' = dp_start p"
  "sub_mon p = Inr p' \<Longrightarrow> dp_state p' = dp_state p \<and> dp_start p' = dp_start p"
  by (auto simp: on_year_def on_mon_def on_mday_def on_hour_def on_min_def on_sec_def add_year_def sub_mon_def bind_res_def split: sum.splits)

lemma returns_iff:
  "returns (bind_res r f) \<longleftrightarrow> returns r \<and> (\<forall>x. r = Inr x \<longrightarrow> returns (f x))"
  "returns (if b then r else r') \<longleftrightarrow> (if b then returns r else returns r')"
  by (auto simp: returns_def bind_res_def split: sum.splits)

lemma iso_8601_step_returns: "returns (iso_8601_step c index p)"
  unfolding iso_8601_step_def Let_def by (cases "dp_state p") (simp_all add: returns_iff returns_digits)

lemma iso_8601_basic_step_returns: "returns (iso_8601_basic_step c index p)"
  unfolding iso_8601_basic_step_def Let_def by (cases "dp_state p") (simp_all add: returns_iff returns_digits)

lemma iso_8601_step_reps:
  assumes "iso_8601_step c index p = Inr (p', advance)"
  shows "reps (dp_state p') + (if advance then 0 else 1) \<le> reps (dp_state p)"
  using assms unfolding iso_8601_step_def Let_def
  by (cases "dp_state p") (auto simp: bind_res_def goto_def parse_fail_def time_delim_def Let_def split: if_splits sum.splits dest!: digits_keep)

lemma iso_chars_returns: "length cs + reps (dp_state p) < fuel \<Longrightarrow> returns (iso_chars fuel cs index p)"
proof (induction fuel arbitrary: cs index p)
  case (Suc fuel)
  show ?case
  proof (cases "dp_state p \<noteq> FINISHED \<and> \<not> dp_error p \<and> cs \<noteq> []")
    case True
    have "returns (iso_chars fuel (if a then tl cs else cs) (if a then index + 1 else index) p')"
      if "iso_8601_step (hd cs) index p = Inr (p', a)" for p' a
      using iso_8601_step_reps [OF that] Suc.prems True by (intro Suc.IH) (auto split: if_splits simp: neq_Nil_conv)
    with True show ?thesis by (auto intro!: returns_bind simp: iso_8601_step_returns)
  qed auto
qed simp

lemma basic_chars_returns: "returns (basic_chars cs index p)"
  by (induction cs arbitrary: index p) (auto intro!: returns_bind simp: iso_8601_basic_step_returns)

lemma month_number_returns: "holds m str cs \<Longrightarrow> stop \<le> length cs \<Longrightarrow> returns (get_month_number_from_str m str start stop)"
  by (auto simp: get_month_number_from_str_def load_u8_holds)

lemma rfc_822_step_returns: "holds m str cs \<Longrightarrow> index < length cs \<Longrightarrow> returns (rfc_822_step m str c index p tz)"
  unfolding rfc_822_step_def Let_def
  by (cases "dp_state p") (simp_all add: returns_iff returns_digits month_number_returns)

lemma rfc_chars_returns:
  "holds m str ds \<Longrightarrow> index + length cs = length ds \<Longrightarrow> returns (rfc_chars m str cs index p tz)"
  by (induction cs arbitrary: index p tz) (auto intro!: returns_bind rfc_822_step_returns)

lemma parsers_return:
  assumes "cur_holds m c cs"
  shows "returns (s_parse_iso_8601 m c)" "returns (s_parse_iso_8601_basic m c)" "returns (s_parse_rfc_822 m c dt)"
proof -
  have h: "holds m (c_ptr c) cs" using assms by (simp add: cur_holds_def)
  show "returns (s_parse_iso_8601 m c)" "returns (s_parse_iso_8601_basic m c)"
    by (auto simp: parse_chars [OF assms] start_parser_def intro!: returns_bind iso_chars_returns basic_chars_returns)
  show "returns (s_parse_rfc_822 m c dt)"
    unfolding s_parse_rfc_822_def parse_chars(3) [OF assms] using rfc_chars_returns [OF h, of 0 cs]
    by (auto intro!: returns_bind simp: Let_def)
qed

lemma convert_units:
  "\<exists>r. aws_timestamp_convert ticks u v =
      Inr (r, if unit_frequency v < unit_frequency u then ticks mod (unit_frequency u div unit_frequency v) else 0) \<and>
    unat r = min (2 ^ 64 - 1) (unat ticks * unat (unit_frequency v) div unat (unit_frequency u))"
  using convert_exact [of "unit_frequency u" "unit_frequency v" ticks]
  by (cases u; cases v) (simp_all add: aws_timestamp_convert_def)

lemma year_overflow:
  assumes "list_all aws_isdigit cs" "dp_state p = ON_YEAR" "\<not> dp_error p" "0 \<le> tm_year (dp_time p)" "tm_year (dp_time p) < 2 ^ 31"
    "2 ^ 31 \<le> tm_year (dp_time p) * 10 ^ length cs" "length cs < fuel"
  shows "iso_chars fuel cs index p = Inl Undefined"
  using assms
proof (induction cs arbitrary: fuel index p)
  case (Cons c cs)
  then obtain f where f: "fuel = Suc f" by (cases fuel) auto
  let ?v = "tm_year (dp_time p)"
  have d: "0 \<le> dig c" "dig c \<le> 9" "c \<noteq> ch_minus" using digit_bounds [of c] digit_not(3) [of c] Cons.prems(1) by auto
  show ?case
  proof (cases "?v * 10 + dig c < 2 ^ 31")
    case True
    let ?p = "p\<lparr>dp_time := (dp_time p)\<lparr>tm_year := ?v * 10 + dig c\<rparr>\<rparr>"
    have "?v * 10 ^ length (c # cs) \<le> (?v * 10 + dig c) * 10 ^ length cs" using d by (simp add: distrib_right)
    then have "2 ^ 31 \<le> (?v * 10 + dig c) * 10 ^ length cs" using Cons.prems(6) by linarith
    then have "iso_chars f cs (index + 1) ?p = Inl Undefined" using Cons.prems True d f by (intro Cons.IH) auto
    moreover have "iso_8601_step c index p = Inr (?p, True)"
      using Cons.prems True d by (simp add: iso_8601_step_def on_year_def add_digit_def int32_def dig_def)
    ultimately show ?thesis using Cons.prems f by simp
  next
    case False
    then have "iso_8601_step c index p = Inl Undefined"
      using Cons.prems d by (simp add: iso_8601_step_def on_year_def add_digit_def int32_def dig_def)
    then show ?thesis using Cons.prems f by simp
  qed
qed simp

section \<open>Properties\<close>

text \<open>(C5) A date that is formatted in UTC as RFC 822, ISO 8601 or ISO 8601 basic text into a buffer of at least 30 bytes, and that
  text parsed with the same format or with automatic detection, gives the same second since the epoch and the same broken-down
  UTC time, for the years from 1000 to 9999, in every time zone of the host.\<close>

theorem date_format_parse_round_trip:
  assumes "gmtime ts = Some t" "1000 \<le> tm_year t + 1900" "tm_year t + 1900 < 10000" "dt_gmt_time dt = t"
    and "buf_holds m buf []" "30 \<le> unat (b_capacity buf)"
    and "fmt \<noteq> AWS_DATE_FORMAT_AUTO_DETECT" "f = fmt \<or> f = AWS_DATE_FORMAT_AUTO_DETECT"
  shows "\<exists>buf' m' dt'. aws_date_time_to_utc_time_str z m dt fmt buf = (AWS_OP_SUCCESS, buf', m') \<and>
    aws_date_time_init_from_str z m' buf' f = Inr dt' \<and> dt_timestamp dt' = ts \<and> dt_gmt_time dt' = t \<and>
    dt_local_time dt' = aws_localtime z ts zero_tm \<and> dt_utc_assumed dt'"
  using date_round_trip [OF assms, of z] by blast

theorem date_format_parse_round_trip_witness:
  "\<exists>buf' m' dt'. aws_date_time_to_utc_time_str utc_zone date_memory
      (zero_date_time\<lparr>dt_timestamp := 1000000000, dt_gmt_time := the (gmtime 1000000000)\<rparr>) AWS_DATE_FORMAT_RFC822 date_buf = (AWS_OP_SUCCESS, buf', m') \<and>
    aws_date_time_init_from_str utc_zone m' buf' AWS_DATE_FORMAT_AUTO_DETECT = Inr dt' \<and> dt_timestamp dt' = 1000000000 \<and>
    dt_gmt_time dt' = the (gmtime 1000000000) \<and> dt_local_time dt' = aws_localtime utc_zone 1000000000 zero_tm \<and> dt_utc_assumed dt'"
proof -
  have g: "gmtime 1000000000 = Some \<lparr>tm_sec = 40, tm_min = 46, tm_hour = 1, tm_mday = 9, tm_mon = 8, tm_year = 101, tm_wday = 0, tm_yday = 251, tm_isdst = 0\<rparr>"
    by code_simp
  show ?thesis
    by (rule date_format_parse_round_trip) (use g in \<open>simp_all add: date_buf_def date_memory_def buf_holds_def aws_byte_buf_is_valid_def room_def\<close>)
qed



text \<open>(C35) A text without the optional day of the week loses the first digit of the day of the month: \<open>12 Oct 2002 01:02:03 GMT\<close>
  and every text of that form is parsed as the second digit of the day.\<close>

theorem rfc_822_day_without_weekday:
  assumes c: "cur_holds m c [d1, d2, 32, a1, a2, a3, 32, y1, y2, y3, y4, 32, h1, h2, ch_colon, n1, n2, ch_colon, s1, s2, 32, 71, 77, 84]"
    and d: "list_all aws_isdigit [d1, d2, y1, y2, y3, y4, h1, h2, n1, n2, s1, s2]" and a: "list_all aws_isalpha [a1, a2, a3]"
    and mo: "month_index month_triplets (STR_TRIPLET_TO_INDEX a1 a2 a3) 0 = mo" "mo > - 1" and tz: "dt_tz dt = replicate 6 0"
  shows "s_parse_rfc_822 m c dt = Inr (True, zero_tm\<lparr>tm_sec := num2 s1 s2, tm_min := num2 n1 n2, tm_hour := num2 h1 h2, tm_mday := dig d2,
      tm_mon := mo, tm_year := num4 y1 y2 y3 y4 - 1900\<rparr>, dt\<lparr>dt_tz := [71, 77, 84, 0, 0, 0], dt_utc_assumed := True\<rparr>)"
proof -
  let ?cs = "[d1, d2, 32, a1, a2, a3, 32, y1, y2, y3, y4, 32, h1, h2, ch_colon, n1, n2, ch_colon, s1, s2, 32, 71, 77, 84]"
  have h: "holds m (c_ptr c) ?cs" using c by (simp add: cur_holds_def)
  have mn: "get_month_number_from_str m (c_ptr c) 3 7 = Inr mo"
    using mo(1) by (simp add: get_month_number_from_str_def load_u8_holds [OF h])
  have "\<exists>st. rfc_chars m (c_ptr c) ?cs 0 (start_parser ON_WEEKDAY) (replicate 6 0) =
      Inr (\<lparr>dp_state = ON_TZ, dp_start = st, dp_error = False, dp_time = zero_tm\<lparr>tm_sec := num2 s1 s2, tm_min := num2 n1 n2, tm_hour := num2 h1 h2,
        tm_mday := dig d2, tm_mon := mo, tm_year := num4 y1 y2 y3 y4 - 1900\<rparr>\<rparr>, [71, 77, 84, 0, 0, 0])"
    using d digits_bounded [OF d] a rfc_constants mo(2) mn
    by (simp add: rfc_822_step_def parser_simps num2_def num4_def chars_steps(2) alpha_not numeral_eq_Suc del: rfc_chars.simps(2))
  then show ?thesis unfolding s_parse_rfc_822_def parse_chars(3) [OF c] tz using rfc_constants(5) by (auto simp: Let_def)
qed

theorem rfc_822_day_without_weekday_witness:
  "s_parse_rfc_822 (date_memory\<lparr>m_blocks := (\<lambda>b. None)(0 \<mapsto> map Some (bytes_of ''12 Oct 2002 01:02:03 GMT''))\<rparr>) \<lparr>c_len = 24, c_ptr = Ptr 0 0\<rparr>
      zero_date_time = Inr (True, zero_tm\<lparr>tm_sec := 3, tm_min := 2, tm_hour := 1, tm_mday := 2, tm_mon := 9, tm_year := 102\<rparr>,
        zero_date_time\<lparr>dt_tz := [71, 77, 84, 0, 0, 0], dt_utc_assumed := True\<rparr>)"
proof -
  have mo: "month_index month_triplets (STR_TRIPLET_TO_INDEX 79 99 116) 0 = 9"
    by (simp add: month_triplets_eq STR_TRIPLET_TO_INDEX_def tolower_eq)
  show ?thesis
    using rfc_822_day_without_weekday [of "date_memory\<lparr>m_blocks := (\<lambda>b. None)(0 \<mapsto> map Some (bytes_of ''12 Oct 2002 01:02:03 GMT''))\<rparr>"
        "\<lparr>c_len = 24, c_ptr = Ptr 0 0\<rparr>" 49 50 79 99 116 50 48 48 50 48 49 48 50 48 51 9 zero_date_time] mo
    by (simp add: cur_holds_def date_memory_def holds_def bytes_of_def aws_isdigit_def aws_isalpha_def zero_date_time_def num2_def num4_def dig_def)
qed

text \<open>(C36) The ISO 8601 parser does not bound the digits of a year: on a text of more than ten digits whose first is not zero
  the \<open>int\<close> member of the year overflows, which is undefined.\<close>

theorem iso_8601_year_overflow:
  assumes "cur_holds m c cs" "list_all aws_isdigit cs" "10 < length cs" "cs ! 0 \<noteq> 48" "length cs \<le> 100"
    and "fmt = AWS_DATE_FORMAT_ISO_8601 \<or> fmt = AWS_DATE_FORMAT_AUTO_DETECT"
  shows "aws_date_time_init_from_str_cursor z m c fmt = Inl Undefined"
proof -
  obtain d ds where cs: "cs = d # ds" using assms(3) by (cases cs) auto
  have dg: "aws_isdigit d" using assms(2) cs by simp
  have "unat d \<noteq> unat (48 :: u8)" using assms(4) cs by (simp only: word_unat_eq_iff [symmetric]) simp
  then have "unat d \<noteq> 48" by simp
  then have "0 < dig d" using digit_bounds(1) [OF dg] unfolding dig_def by arith
  have len: "c_len c \<le> AWS_DATE_TIME_STR_MAX_LEN"
    using assms(1,5) by (simp add: cur_holds_def AWS_DATE_TIME_STR_MAX_LEN_def word_le_nat_alt)
  let ?p = "(start_parser ON_YEAR)\<lparr>dp_time := zero_tm\<lparr>tm_year := dig d\<rparr>\<rparr>"
  have "(10 :: int) ^ 10 \<le> 10 ^ length ds" using assms(3) cs by (intro power_increasing) auto
  then have "(10 :: int) ^ 10 \<le> dig d * 10 ^ length ds" using \<open>0 < dig d\<close> mult_mono [of 1 "dig d" "10 ^ 10" "10 ^ length ds"] by simp
  then have "iso_chars (length cs + 2) ds 1 ?p = Inl Undefined"
    using assms(2) cs digit_bounds [OF dg] by (intro year_overflow) (auto simp: start_parser_def)
  moreover have "iso_8601_step d 0 (start_parser ON_YEAR) = Inr (?p, True)"
    using dg digit_bounds [OF dg] by (simp add: iso_8601_step_def parser_simps)
  then have "iso_chars (length cs + 3) cs 0 (start_parser ON_YEAR) = iso_chars (length cs + 2) ds 1 ?p"
    using iso_chars_step [of "length cs + 3" "start_parser ON_YEAR" d 0 ?p ds] cs by (simp add: start_parser_def eval_nat_numeral del: iso_chars.simps(2))
  ultimately have "iso_chars (length cs + 3) cs 0 (start_parser ON_YEAR) = Inl Undefined" by simp
  then have "s_parse_iso_8601 m c = Inl Undefined" by (simp add: parse_chars(1) [OF assms(1)])
  then show ?thesis using assms(6) len by (auto simp: aws_date_time_init_from_str_cursor_def)
qed

theorem iso_8601_year_overflow_witness:
  "aws_date_time_init_from_str_cursor utc_zone (date_memory\<lparr>m_blocks := (\<lambda>b. None)(0 \<mapsto> map Some (replicate 11 57))\<rparr>)
      \<lparr>c_len = 11, c_ptr = Ptr 0 0\<rparr> AWS_DATE_FORMAT_AUTO_DETECT = Inl Undefined"
  by (rule iso_8601_year_overflow [where cs = "replicate 11 57"])
    (simp_all add: cur_holds_def date_memory_def holds_def aws_isdigit_def list_all_iff)

text \<open>(C37) Conversion between the units of time is exact: the result is the floor of the exact quotient, or the largest value when
  the quotient is larger, and the remainder holds the ticks that a coarser unit drops.\<close>

theorem timestamp_convert_exact:
  "\<exists>r rem. aws_timestamp_convert ticks u v = Inr (r, rem) \<and>
    unat r = min (2 ^ 64 - 1) (unat ticks * unat (unit_frequency v) div unat (unit_frequency u)) \<and>
    unat rem = (if unit_frequency v < unit_frequency u then unat ticks mod (unat (unit_frequency u) div unat (unit_frequency v)) else 0)"
  using convert_units [of ticks u v] by (auto simp: unat_mod_distrib unat_div_distrib)

text \<open>A date made from milliseconds since the epoch gives back the same milliseconds, and the nanoseconds when they are
  representable.\<close>

theorem epoch_millis_round_trip:
  "\<exists>dt'. aws_date_time_init_epoch_millis z dt ms = Inr dt' \<and> aws_date_time_as_millis dt' = Inr ms \<and>
    (unat ms * 1000000 < 2 ^ 64 \<longrightarrow> aws_date_time_as_nanos dt' = Inr (ms * 1000000)) \<and>
    dt_timestamp dt' = int (unat ms div 1000) \<and> unat (dt_milliseconds dt') = unat ms mod 1000"
proof -
  obtain secs where s: "aws_timestamp_convert ms AWS_TIMESTAMP_MILLIS AWS_TIMESTAMP_SECS = Inr (secs, ms mod 1000)" "unat secs = unat ms div 1000"
    using convert_units [of ms AWS_TIMESTAMP_MILLIS AWS_TIMESTAMP_SECS] unat_size_lt [of ms] by auto
  obtain a where a: "aws_timestamp_convert secs AWS_TIMESTAMP_SECS AWS_TIMESTAMP_MILLIS = Inr (a, 0)" "unat a = unat ms div 1000 * 1000"
    using convert_units [of secs AWS_TIMESTAMP_SECS AWS_TIMESTAMP_MILLIS] unat_size_lt [of ms] s(2) by auto
  obtain b where b: "aws_timestamp_convert secs AWS_TIMESTAMP_SECS AWS_TIMESTAMP_NANOS = Inr (b, 0)"
      "unat b = min (2 ^ 64 - 1) (unat ms div 1000 * 1000000000)"
    using convert_units [of secs AWS_TIMESTAMP_SECS AWS_TIMESTAMP_NANOS] s(2) by auto
  obtain c where c: "aws_timestamp_convert (ms mod 1000) AWS_TIMESTAMP_MILLIS AWS_TIMESTAMP_NANOS = Inr (c, 0)" "unat c = unat ms mod 1000 * 1000000"
    using convert_units [of "ms mod 1000" AWS_TIMESTAMP_MILLIS AWS_TIMESTAMP_NANOS] by (auto simp: unat_mod_distrib)
  let ?dt = "set_time_structs z (dt\<lparr>dt_timestamp := sint secs, dt_milliseconds := ucast (ms mod 1000)\<rparr>)"
  have t: "dt_timestamp ?dt = sint secs" "dt_milliseconds ?dt = ucast (ms mod 1000)" by (simp_all add: set_time_structs_def Let_def)
  have "unat (ms mod 1000) < 1000" by (simp add: unat_mod_distrib)
  then have u: "ucast (ucast (ms mod 1000) :: u16) = ms mod 1000" "unat (ucast (ms mod 1000) :: u16) = unat ms mod 1000"
    by (simp_all add: word_unat_eq_iff unsigned_ucast_eq take_bit_eq_mod unat_mod_distrib)
  have "unat ms div 1000 < 2 ^ 63" by (intro less_mult_imp_div_less less_le_trans [OF unat_size_lt]) simp
  then have "signed_take_bit 63 (int (unat ms div 1000)) = int (unat ms div 1000)"
    by (intro signed_take_bit_int_eq_self) auto
  then have "sint secs = int (unat ms div 1000)" by (simp add: sint_uint uint_nat s(2))
  moreover have "a + ms mod 1000 = ms"
  proof -
    have "a + ms mod 1000 = word_of_nat (unat a + unat (ms mod 1000))" by simp
    also have "unat a + unat (ms mod 1000) = unat ms" by (simp add: a(2) unat_mod_distrib)
    finally show ?thesis by simp
  qed
  moreover have "b + c = ms * 1000000" if "unat ms * 1000000 < 2 ^ 64"
  proof -
    have "unat ms = unat ms div 1000 * 1000 + unat ms mod 1000" by simp
    then have "unat ms * 1000000 = unat ms div 1000 * 1000000000 + unat ms mod 1000 * 1000000" by linarith
    then have "unat b + unat c = unat ms * 1000000" using that by (simp add: b(2) c(2))
    then have "word_of_nat (unat b + unat c) = (word_of_nat (unat ms * 1000000) :: u64)" by (rule arg_cong)
    then show ?thesis by simp
  qed
  moreover have "word_of_nat (unat ms div 1000) = secs" by (simp flip: s(2))
  ultimately show ?thesis
    using t u by (intro exI [of _ ?dt]) (simp add: aws_date_time_init_epoch_millis_def aws_date_time_as_millis_def aws_date_time_as_nanos_def s a b c)
qed

theorem epoch_millis_round_trip_witness:
  "\<exists>dt'. aws_date_time_init_epoch_millis utc_zone zero_date_time 1500 = Inr dt' \<and> aws_date_time_as_millis dt' = Inr 1500 \<and>
    aws_date_time_as_nanos dt' = Inr 1500000000 \<and> dt_timestamp dt' = 1 \<and> unat (dt_milliseconds dt') = 500"
  using epoch_millis_round_trip [of utc_zone zero_date_time 1500] by simp

end
