(* ===== verification/Lookup3.thy ===== *)
theory Lookup3
  imports Aws_Prelude
begin

text \<open>
  The hash functions of \<open>include/aws/common/private/lookup3.inl\<close> and the two users of \<open>source/hash_table.c\<close> that hash a
  value of fixed size.

  A key is given by its address, whose lowest bits choose how it is read, and by the bytes at that address and behind it:
  the word-wise variants read up to three bytes behind the key and mask them off, so the bytes behind the key are part of
  the model and the theorems state that they do not matter. The three variants of the loops differ in how they add twelve
  bytes to the state \<open>(a, b, c)\<close> and in the last block, and are the arguments of \<open>hash_key\<close>.

  The macros \<open>HASH_LITTLE_ENDIAN\<close>, \<open>HASH_BIG_ENDIAN\<close> and \<open>VALGRIND\<close> are arguments. The specification \<open>jenkins\<close> works on the
  list of the bytes of the key.
\<close>

type_synonym key = "nat \<Rightarrow> u8"
type_synonym hash_state = "u32 \<times> u32 \<times> u32"

section \<open>Mixing\<close>

definition rot :: "u32 \<Rightarrow> nat \<Rightarrow> u32" where
  "rot x k = push_bit k x OR drop_bit (32 - k) x"

definition mix :: "hash_state \<Rightarrow> hash_state" where
  "mix s =
     (let (a, b, c) = s;
          a = a - c; a = a XOR rot c 4; c = c + b;
          b = b - a; b = b XOR rot a 6; a = a + c;
          c = c - b; c = c XOR rot b 8; b = b + a;
          a = a - c; a = a XOR rot c 16; c = c + b;
          b = b - a; b = b XOR rot a 19; a = a + c;
          c = c - b; c = c XOR rot b 4; b = b + a
      in (a, b, c))"

definition final :: "hash_state \<Rightarrow> hash_state" where
  "final s =
     (let (a, b, c) = s;
          c = c XOR b; c = c - rot b 14;
          a = a XOR c; a = a - rot c 11;
          b = b XOR a; b = b - rot a 25;
          c = c XOR b; c = c - rot b 16;
          a = a XOR c; a = a - rot c 4;
          b = b XOR a; b = b - rot a 14;
          c = c XOR b; c = c - rot b 24
      in (a, b, c))"

section \<open>Keys of 32-bit words\<close>

fun hashword_loop :: "(nat \<Rightarrow> u32) \<Rightarrow> nat \<Rightarrow> nat \<Rightarrow> hash_state \<Rightarrow> nat \<times> nat \<times> hash_state" where
  "hashword_loop k i len (a, b, c) =
     (if len > 3 then hashword_loop k (i + 3) (len - 3) (mix (a + k i, b + k (i + 1), c + k (i + 2)))
      else (i, len, a, b, c))"

text \<open>The cases of the \<open>switch\<close> fall through: the code of a case runs for every length from its label on.\<close>

definition hashword_last :: "(nat \<Rightarrow> u32) \<Rightarrow> nat \<Rightarrow> nat \<Rightarrow> hash_state \<Rightarrow> hash_state" where
  "hashword_last k i len s =
     (let (a, b, c) = s;
          c = (if len \<ge> 3 then c + k (i + 2) else c);
          b = (if len \<ge> 2 then b + k (i + 1) else b);
          a = (if len \<ge> 1 then a + k i else a)
      in if len \<ge> 1 then final (a, b, c) else (a, b, c))"

definition hashword :: "(nat \<Rightarrow> u32) \<Rightarrow> size_t \<Rightarrow> u32 \<Rightarrow> u32" where
  "hashword k len initval =
     (let s = 0xdeadbeef + push_bit 2 (ucast len) + initval;
          (i, n, s) = hashword_loop k 0 (unat len) (s, s, s);
          (a, b, c) = hashword_last k i n s
      in c)"

definition hashword2 :: "(nat \<Rightarrow> u32) \<Rightarrow> size_t \<Rightarrow> u32 \<Rightarrow> u32 \<Rightarrow> u32 \<times> u32" where
  "hashword2 k len pc pb =
     (let s = 0xdeadbeef + ucast (push_bit 2 len) + pc;
          (i, n, s) = hashword_loop k 0 (unat len) (s, s, s + pb);
          (a, b, c) = hashword_last k i n s
      in (c, b))"

section \<open>Keys of bytes\<close>

text \<open>Loads of a host with little-endian and big-endian words.\<close>

definition load16 :: "key \<Rightarrow> nat \<Rightarrow> u16" where
  "load16 k i = ucast (k i) OR push_bit 8 (ucast (k (i + 1)))"

definition load32 :: "key \<Rightarrow> nat \<Rightarrow> u32" where
  "load32 k i = ucast (k i) OR push_bit 8 (ucast (k (i + 1))) OR push_bit 16 (ucast (k (i + 2))) OR push_bit 24 (ucast (k (i + 3)))"

definition load32_big :: "key \<Rightarrow> nat \<Rightarrow> u32" where
  "load32_big k i = push_bit 24 (ucast (k i)) OR push_bit 16 (ucast (k (i + 1))) OR push_bit 8 (ucast (k (i + 2))) OR ucast (k (i + 3))"

text \<open>\<open>((uint32_t)k[i]) << n\<close>\<close>

definition sh :: "key \<Rightarrow> nat \<Rightarrow> nat \<Rightarrow> u32" where
  "sh k i n = push_bit n (ucast (k i))"

text \<open>The loop over all but the last block.\<close>

fun key_loop :: "(key \<Rightarrow> nat \<Rightarrow> hash_state \<Rightarrow> hash_state) \<Rightarrow> key \<Rightarrow> nat \<Rightarrow> nat \<Rightarrow> hash_state \<Rightarrow> nat \<times> nat \<times> hash_state" where
  "key_loop add k i len s =
     (if len > 12 then key_loop add k (i + 12) (len - 12) (mix (add k i s)) else (i, len, s))"

text \<open>The rest of a function: a key whose length is used up needs no final mixing.\<close>

definition hash_key ::
  "(key \<Rightarrow> nat \<Rightarrow> hash_state \<Rightarrow> hash_state) \<Rightarrow> (key \<Rightarrow> nat \<Rightarrow> nat \<Rightarrow> hash_state \<Rightarrow> hash_state) \<Rightarrow> key \<Rightarrow> nat \<Rightarrow> hash_state \<Rightarrow> hash_state" where
  "hash_key add tail k len s =
     (let (i, len, s) = key_loop add k 0 len s
      in if len = 0 then s else final (tail k i len s))"

definition add_words :: "key \<Rightarrow> nat \<Rightarrow> hash_state \<Rightarrow> hash_state" where
  "add_words k i s = (let (a, b, c) = s in (a + load32 k i, b + load32 k (i + 4), c + load32 k (i + 8)))"

definition tail_words :: "key \<Rightarrow> nat \<Rightarrow> nat \<Rightarrow> hash_state \<Rightarrow> hash_state" where
  "tail_words k i len s =
     (let (a, b, c) = s; k0 = load32 k i; k1 = load32 k (i + 4); k2 = load32 k (i + 8) in
      if len = 12 then (a + k0, b + k1, c + k2)
      else if len = 11 then (a + k0, b + k1, c + (k2 AND 0xffffff))
      else if len = 10 then (a + k0, b + k1, c + (k2 AND 0xffff))
      else if len = 9 then (a + k0, b + k1, c + (k2 AND 0xff))
      else if len = 8 then (a + k0, b + k1, c)
      else if len = 7 then (a + k0, b + (k1 AND 0xffffff), c)
      else if len = 6 then (a + k0, b + (k1 AND 0xffff), c)
      else if len = 5 then (a + k0, b + (k1 AND 0xff), c)
      else if len = 4 then (a + k0, b, c)
      else if len = 3 then (a + (k0 AND 0xffffff), b, c)
      else if len = 2 then (a + (k0 AND 0xffff), b, c)
      else if len = 1 then (a + (k0 AND 0xff), b, c)
      else (a, b, c))"

definition tail_words_valgrind :: "key \<Rightarrow> nat \<Rightarrow> nat \<Rightarrow> hash_state \<Rightarrow> hash_state" where
  "tail_words_valgrind k i len s =
     (let (a, b, c) = s; k0 = load32 k i; k1 = load32 k (i + 4); k2 = load32 k (i + 8) in
      if len = 12 then (a + k0, b + k1, c + k2)
      else if len \<ge> 8 then
        let c = (if len \<ge> 11 then c + sh k (i + 10) 16 else c);
            c = (if len \<ge> 10 then c + sh k (i + 9) 8 else c);
            c = (if len \<ge> 9 then c + ucast (k (i + 8)) else c)
        in (a + k0, b + k1, c)
      else if len \<ge> 4 then
        let b = (if len \<ge> 7 then b + sh k (i + 6) 16 else b);
            b = (if len \<ge> 6 then b + sh k (i + 5) 8 else b);
            b = (if len \<ge> 5 then b + ucast (k (i + 4)) else b)
        in (a + k0, b, c)
      else
        let a = (if len \<ge> 3 then a + sh k (i + 2) 16 else a);
            a = (if len \<ge> 2 then a + sh k (i + 1) 8 else a);
            a = (if len \<ge> 1 then a + ucast (k i) else a)
        in (a, b, c))"

definition add_halves :: "key \<Rightarrow> nat \<Rightarrow> hash_state \<Rightarrow> hash_state" where
  "add_halves k i s =
     (let (a, b, c) = s
      in (a + (ucast (load16 k i) + push_bit 16 (ucast (load16 k (i + 2)))),
          b + (ucast (load16 k (i + 4)) + push_bit 16 (ucast (load16 k (i + 6)))),
          c + (ucast (load16 k (i + 8)) + push_bit 16 (ucast (load16 k (i + 10))))))"

definition tail_halves :: "key \<Rightarrow> nat \<Rightarrow> nat \<Rightarrow> hash_state \<Rightarrow> hash_state" where
  "tail_halves k i len s =
     (let (a, b, c) = s;
          k0 = ucast (load16 k i) + push_bit 16 (ucast (load16 k (i + 2)));
          k1 = ucast (load16 k (i + 4)) + push_bit 16 (ucast (load16 k (i + 6)));
          k2 = ucast (load16 k (i + 8)) + push_bit 16 (ucast (load16 k (i + 10)))
      in
      if len = 12 then (a + k0, b + k1, c + k2)
      else if len = 11 then (a + k0, b + k1, c + sh k (i + 10) 16 + ucast (load16 k (i + 8)))
      else if len = 10 then (a + k0, b + k1, c + ucast (load16 k (i + 8)))
      else if len = 9 then (a + k0, b + k1, c + ucast (k (i + 8)))
      else if len = 8 then (a + k0, b + k1, c)
      else if len = 7 then (a + k0, b + sh k (i + 6) 16 + ucast (load16 k (i + 4)), c)
      else if len = 6 then (a + k0, b + ucast (load16 k (i + 4)), c)
      else if len = 5 then (a + k0, b + ucast (k (i + 4)), c)
      else if len = 4 then (a + k0, b, c)
      else if len = 3 then (a + sh k (i + 2) 16 + ucast (load16 k i), b, c)
      else if len = 2 then (a + ucast (load16 k i), b, c)
      else if len = 1 then (a + ucast (k i), b, c)
      else (a, b, c))"

definition add_bytes :: "key \<Rightarrow> nat \<Rightarrow> hash_state \<Rightarrow> hash_state" where
  "add_bytes k i s =
     (let (a, b, c) = s
      in (a + ucast (k i) + sh k (i + 1) 8 + sh k (i + 2) 16 + sh k (i + 3) 24,
          b + ucast (k (i + 4)) + sh k (i + 5) 8 + sh k (i + 6) 16 + sh k (i + 7) 24,
          c + ucast (k (i + 8)) + sh k (i + 9) 8 + sh k (i + 10) 16 + sh k (i + 11) 24))"

definition tail_bytes :: "key \<Rightarrow> nat \<Rightarrow> nat \<Rightarrow> hash_state \<Rightarrow> hash_state" where
  "tail_bytes k i len s =
     (let (a, b, c) = s;
          c = (if len \<ge> 12 then c + sh k (i + 11) 24 else c);
          c = (if len \<ge> 11 then c + sh k (i + 10) 16 else c);
          c = (if len \<ge> 10 then c + sh k (i + 9) 8 else c);
          c = (if len \<ge> 9 then c + ucast (k (i + 8)) else c);
          b = (if len \<ge> 8 then b + sh k (i + 7) 24 else b);
          b = (if len \<ge> 7 then b + sh k (i + 6) 16 else b);
          b = (if len \<ge> 6 then b + sh k (i + 5) 8 else b);
          b = (if len \<ge> 5 then b + ucast (k (i + 4)) else b);
          a = (if len \<ge> 4 then a + sh k (i + 3) 24 else a);
          a = (if len \<ge> 3 then a + sh k (i + 2) 16 else a);
          a = (if len \<ge> 2 then a + sh k (i + 1) 8 else a);
          a = (if len \<ge> 1 then a + ucast (k i) else a)
      in (a, b, c))"

text \<open>The choice of the variant by the byte order of the host and the alignment of the key.\<close>

definition hash_little :: "bool \<Rightarrow> bool \<Rightarrow> size_t \<Rightarrow> key \<Rightarrow> nat \<Rightarrow> hash_state \<Rightarrow> hash_state" where
  "hash_little valgrind little_endian addr k len s =
     (if little_endian \<and> addr AND 3 = 0 then
        hash_key add_words (if valgrind then tail_words_valgrind else tail_words) k len s
      else if little_endian \<and> addr AND 1 = 0 then hash_key add_halves tail_halves k len s
      else hash_key add_bytes tail_bytes k len s)"

definition hashlittle :: "bool \<Rightarrow> bool \<Rightarrow> size_t \<Rightarrow> key \<Rightarrow> size_t \<Rightarrow> u32 \<Rightarrow> u32" where
  "hashlittle valgrind little_endian addr k len initval =
     (let s = 0xdeadbeef + ucast len + initval;
          (a, b, c) = hash_little valgrind little_endian addr k (unat len) (s, s, s)
      in c)"

definition hashlittle2 :: "bool \<Rightarrow> bool \<Rightarrow> size_t \<Rightarrow> key \<Rightarrow> size_t \<Rightarrow> u32 \<Rightarrow> u32 \<Rightarrow> u32 \<times> u32" where
  "hashlittle2 valgrind little_endian addr k len pc pb =
     (let s = 0xdeadbeef + ucast len + pc;
          (a, b, c) = hash_little valgrind little_endian addr k (unat len) (s, s, s + pb)
      in (c, b))"

section \<open>Keys of bytes, most significant first\<close>

definition add_words_big :: "key \<Rightarrow> nat \<Rightarrow> hash_state \<Rightarrow> hash_state" where
  "add_words_big k i s = (let (a, b, c) = s in (a + load32_big k i, b + load32_big k (i + 4), c + load32_big k (i + 8)))"

definition tail_words_big :: "key \<Rightarrow> nat \<Rightarrow> nat \<Rightarrow> hash_state \<Rightarrow> hash_state" where
  "tail_words_big k i len s =
     (let (a, b, c) = s; k0 = load32_big k i; k1 = load32_big k (i + 4); k2 = load32_big k (i + 8) in
      if len = 12 then (a + k0, b + k1, c + k2)
      else if len = 11 then (a + k0, b + k1, c + (k2 AND 0xffffff00))
      else if len = 10 then (a + k0, b + k1, c + (k2 AND 0xffff0000))
      else if len = 9 then (a + k0, b + k1, c + (k2 AND 0xff000000))
      else if len = 8 then (a + k0, b + k1, c)
      else if len = 7 then (a + k0, b + (k1 AND 0xffffff00), c)
      else if len = 6 then (a + k0, b + (k1 AND 0xffff0000), c)
      else if len = 5 then (a + k0, b + (k1 AND 0xff000000), c)
      else if len = 4 then (a + k0, b, c)
      else if len = 3 then (a + (k0 AND 0xffffff00), b, c)
      else if len = 2 then (a + (k0 AND 0xffff0000), b, c)
      else if len = 1 then (a + (k0 AND 0xff000000), b, c)
      else (a, b, c))"

definition tail_words_big_valgrind :: "key \<Rightarrow> nat \<Rightarrow> nat \<Rightarrow> hash_state \<Rightarrow> hash_state" where
  "tail_words_big_valgrind k i len s =
     (let (a, b, c) = s; k0 = load32_big k i; k1 = load32_big k (i + 4); k2 = load32_big k (i + 8) in
      if len = 12 then (a + k0, b + k1, c + k2)
      else if len \<ge> 8 then
        let c = (if len \<ge> 11 then c + sh k (i + 10) 8 else c);
            c = (if len \<ge> 10 then c + sh k (i + 9) 16 else c);
            c = (if len \<ge> 9 then c + sh k (i + 8) 24 else c)
        in (a + k0, b + k1, c)
      else if len \<ge> 4 then
        let b = (if len \<ge> 7 then b + sh k (i + 6) 8 else b);
            b = (if len \<ge> 6 then b + sh k (i + 5) 16 else b);
            b = (if len \<ge> 5 then b + sh k (i + 4) 24 else b)
        in (a + k0, b, c)
      else
        let a = (if len \<ge> 3 then a + sh k (i + 2) 8 else a);
            a = (if len \<ge> 2 then a + sh k (i + 1) 16 else a);
            a = (if len \<ge> 1 then a + sh k i 24 else a)
        in (a, b, c))"

definition add_bytes_big :: "key \<Rightarrow> nat \<Rightarrow> hash_state \<Rightarrow> hash_state" where
  "add_bytes_big k i s =
     (let (a, b, c) = s
      in (a + sh k i 24 + sh k (i + 1) 16 + sh k (i + 2) 8 + ucast (k (i + 3)),
          b + sh k (i + 4) 24 + sh k (i + 5) 16 + sh k (i + 6) 8 + ucast (k (i + 7)),
          c + sh k (i + 8) 24 + sh k (i + 9) 16 + sh k (i + 10) 8 + ucast (k (i + 11))))"

definition tail_bytes_big :: "key \<Rightarrow> nat \<Rightarrow> nat \<Rightarrow> hash_state \<Rightarrow> hash_state" where
  "tail_bytes_big k i len s =
     (let (a, b, c) = s;
          c = (if len \<ge> 12 then c + ucast (k (i + 11)) else c);
          c = (if len \<ge> 11 then c + sh k (i + 10) 8 else c);
          c = (if len \<ge> 10 then c + sh k (i + 9) 16 else c);
          c = (if len \<ge> 9 then c + sh k (i + 8) 24 else c);
          b = (if len \<ge> 8 then b + ucast (k (i + 7)) else b);
          b = (if len \<ge> 7 then b + sh k (i + 6) 8 else b);
          b = (if len \<ge> 6 then b + sh k (i + 5) 16 else b);
          b = (if len \<ge> 5 then b + sh k (i + 4) 24 else b);
          a = (if len \<ge> 4 then a + ucast (k (i + 3)) else a);
          a = (if len \<ge> 3 then a + sh k (i + 2) 8 else a);
          a = (if len \<ge> 2 then a + sh k (i + 1) 16 else a);
          a = (if len \<ge> 1 then a + sh k i 24 else a)
      in (a, b, c))"

definition hashbig :: "bool \<Rightarrow> bool \<Rightarrow> size_t \<Rightarrow> key \<Rightarrow> size_t \<Rightarrow> u32 \<Rightarrow> u32" where
  "hashbig valgrind big_endian addr k len initval =
     (let s = 0xdeadbeef + ucast len + initval;
          (a, b, c) =
            (if big_endian \<and> addr AND 3 = 0 then
               hash_key add_words_big (if valgrind then tail_words_big_valgrind else tail_words_big) k (unat len) (s, s, s)
             else hash_key add_bytes_big tail_bytes_big k (unat len) (s, s, s))
      in c)"

section \<open>Users\<close>

text \<open>The bytes of a 64-bit object on a host of either byte order, and arbitrary bytes behind it.\<close>

definition object64 :: "bool \<Rightarrow> u64 \<Rightarrow> key \<Rightarrow> key" where
  "object64 little_endian x behind i =
     (if i < 8 then ucast (drop_bit (8 * (if little_endian then i else 7 - i)) x) else behind i)"

definition join32 :: "u32 \<times> u32 \<Rightarrow> u64" where
  "join32 s = (let (c, b) = s in push_bit 32 (ucast b) OR ucast c)"

text \<open>\<open>item\<close> and \<open>item1\<close> are arguments that are hashed where they are stored, at \<open>addr\<close>.\<close>

definition aws_hash_ptr :: "bool \<Rightarrow> bool \<Rightarrow> size_t \<Rightarrow> key \<Rightarrow> u64 \<Rightarrow> u64" where
  "aws_hash_ptr valgrind little_endian addr behind item =
     join32 (hashlittle2 valgrind little_endian addr (object64 little_endian item behind) 8 0x28aed2a6 0x2b7e1516)"

definition aws_hash_combine :: "bool \<Rightarrow> bool \<Rightarrow> size_t \<Rightarrow> key \<Rightarrow> u64 \<Rightarrow> u64 \<Rightarrow> u64" where
  "aws_hash_combine valgrind little_endian addr behind item1 item2 =
     join32 (hashlittle2 valgrind little_endian addr (object64 little_endian item1 behind) 8
       (ucast (drop_bit 32 item2)) (ucast (item2 AND 0xffffffff)))"

definition aws_ptr_eq :: "u64 \<Rightarrow> u64 \<Rightarrow> bool" where
  "aws_ptr_eq a b \<longleftrightarrow> a = b"

section \<open>Specification\<close>

text \<open>Up to four bytes as a number, least significant first, or most significant first with zeros behind.\<close>

fun le32 :: "u8 list \<Rightarrow> u32" where
  "le32 [] = 0"
| "le32 (x # xs) = ucast x + 256 * le32 xs"

definition be32 :: "u8 list \<Rightarrow> u32" where
  "be32 xs = le32 (rev (take 4 (xs @ replicate 4 0)))"

definition add_block :: "(u8 list \<Rightarrow> u32) \<Rightarrow> u8 list \<Rightarrow> hash_state \<Rightarrow> hash_state" where
  "add_block pack xs s =
     (let (a, b, c) = s in (a + pack (take 4 xs), b + pack (take 4 (drop 4 xs)), c + pack (take 4 (drop 8 xs))))"

function jenkins :: "(u8 list \<Rightarrow> u32) \<Rightarrow> u8 list \<Rightarrow> hash_state \<Rightarrow> hash_state" where
  "jenkins pack xs s =
     (if length xs > 12 then jenkins pack (drop 12 xs) (mix (add_block pack xs s))
      else if xs = [] then s
      else final (add_block pack xs s))"
  by pat_completeness auto
termination by (relation "measure (\<lambda>(pack, xs, s). length xs)") auto

definition key_bytes :: "key \<Rightarrow> nat \<Rightarrow> nat \<Rightarrow> u8 list" where
  "key_bytes k i n = map k [i..<i + n]"

text \<open>The inverse functions of the mixing steps.\<close>

definition unmix :: "hash_state \<Rightarrow> hash_state" where
  "unmix s =
     (let (a, b, c) = s;
          b = b - a; c = c XOR rot b 4; c = c + b;
          a = a - c; b = b XOR rot a 19; b = b + a;
          c = c - b; a = a XOR rot c 16; a = a + c;
          b = b - a; c = c XOR rot b 8; c = c + b;
          a = a - c; b = b XOR rot a 6; b = b + a;
          c = c - b; a = a XOR rot c 4; a = a + c
      in (a, b, c))"

definition unfinal :: "hash_state \<Rightarrow> hash_state" where
  "unfinal s =
     (let (a, b, c) = s;
          c = c + rot b 24; c = c XOR b;
          b = b + rot a 14; b = b XOR a;
          a = a + rot c 4; a = a XOR c;
          c = c + rot b 16; c = c XOR b;
          b = b + rot a 25; b = b XOR a;
          a = a + rot c 11; a = a XOR c;
          c = c + rot b 14; c = c XOR b
      in (a, b, c))"

section \<open>Abstraction and invariant\<close>



section \<open>Lemmas\<close>

declare jenkins.simps [simp del] key_loop.simps [simp del] hashword_loop.simps [simp del]

section \<open>Lemmas about packed bytes\<close>

lemma byte_or: "ucast (x :: u8) OR push_bit 8 y = ucast x + 256 * (y :: u32)"
proof -
  have "\<not> bit (ucast x :: u32) n \<or> \<not> bit (push_bit 8 y) n" for n
    using bit_imp_le_length [of x n] by (auto simp: bit_simps)
  then have "ucast x + push_bit 8 y = ucast x OR push_bit 8 y" by (intro disjunctive_add_eq_or) (simp add: bit_eq_iff bit_simps)
  then show ?thesis by (simp add: push_bit_eq_mult mult.commute)
qed

lemma load32_eq: "load32 k i = le32 [k i, k (i + 1), k (i + 2), k (i + 3)]"
proof -
  have "load32 k i = ucast (k i) OR push_bit 8 (ucast (k (i + 1)) OR push_bit 8 (ucast (k (i + 2)) OR push_bit 8 (ucast (k (i + 3)))))"
    by (simp add: load32_def push_bit_or)
  then show ?thesis by (simp add: byte_or)
qed

lemma load32_big_eq: "load32_big k i = le32 [k (i + 3), k (i + 2), k (i + 1), k i]"
proof -
  have "load32_big k i = ucast (k (i + 3)) OR push_bit 8 (ucast (k (i + 2)) OR push_bit 8 (ucast (k (i + 1)) OR push_bit 8 (ucast (k i))))"
    by (simp add: load32_big_def push_bit_or ac_simps)
  then show ?thesis by (simp add: byte_or)
qed

lemma sh_eq: "sh k i 8 = 256 * ucast (k i)" "sh k i 16 = 256 * (256 * ucast (k i))" "sh k i 24 = 256 * (256 * (256 * ucast (k i)))"
  by (simp_all add: sh_def push_bit_eq_mult)

lemma load16_eq: "ucast (load16 k i) = le32 [k i, k (i + 1)]"
proof -
  have "ucast (load16 k i) = (ucast (k i) OR push_bit 8 (ucast (k (i + 1))) :: u32)"
    by (rule bit_word_eqI) (auto simp: load16_def bit_simps dest: bit_imp_le_length)
  then show ?thesis by (simp add: byte_or)
qed

lemma bit_le32: "bit (le32 [a, b, c, d]) n \<longleftrightarrow> (if n < 8 then bit a n else if n < 16 then bit b (n - 8) else if n < 24 then bit c (n - 16) else bit d (n - 24))"
proof -
  have "le32 [a, b, c, d] = ucast a OR push_bit 8 (ucast b OR push_bit 8 (ucast c OR push_bit 8 (ucast d)))"
    by (simp add: byte_or)
  then show ?thesis
    using bit_imp_le_length [of d "n - 24"] bit_imp_le_length [of c "n - 16"] bit_imp_le_length [of b "n - 8"] bit_imp_le_length [of a n]
    by (auto simp: bit_simps)
qed

lemma le32_pad: "le32 [a] = le32 [a, 0, 0, 0]" "le32 [a, b] = le32 [a, b, 0, 0]" "le32 [a, b, c] = le32 [a, b, c, 0]"
  by simp_all

lemma masks: "(0xff :: u32) = mask 8" "(0xffff :: u32) = mask 16" "(0xffffff :: u32) = mask 24"
  "(0xffffff00 :: u32) = push_bit 8 (mask 24)" "(0xffff0000 :: u32) = push_bit 16 (mask 16)" "(0xff000000 :: u32) = push_bit 24 (mask 8)"
  by (simp_all add: mask_eq_exp_minus_1 push_bit_eq_mult)

lemma le32_mask:
  "le32 [a, b, c, d] AND 0xffffff = le32 [a, b, c]" "le32 [a, b, c, d] AND 0xffff = le32 [a, b]" "le32 [a, b, c, d] AND 0xff = le32 [a]"
  "le32 [a, b, c, d] AND 0xffffff00 = le32 [0, b, c, d]" "le32 [a, b, c, d] AND 0xffff0000 = le32 [0, 0, c, d]"
  "le32 [a, b, c, d] AND 0xff000000 = le32 [0, 0, 0, d]"
  unfolding masks le32_pad
  by (rule bit_word_eqI; auto simp: bit_le32 bit_simps simp del: le32.simps)+

section \<open>Readers of keys\<close>

lemma key_bytes_Suc: "key_bytes k i 0 = []" "key_bytes k i (Suc n) = k i # key_bytes k (Suc i) n"
  by (simp_all add: key_bytes_def upt_conv_Cons del: upt_Suc)

lemma key_bytes_drop: "drop m (key_bytes k i n) = key_bytes k (i + m) (n - m)"
  by (cases "m \<le> n") (simp_all add: key_bytes_def drop_map)

lemma length_key_bytes [simp]: "length (key_bytes k i n) = n"
  by (simp add: key_bytes_def)

lemma take_key_bytes: "take m (key_bytes k i n) = key_bytes k i (min m n)"
  by (simp add: key_bytes_def take_map min_def)

text \<open>
  A way to read a key: \<open>add\<close> adds twelve bytes to the state, \<open>tail\<close> the at most twelve bytes that are left, both as three
  numbers of up to four bytes each. Every such way computes the same hash.
\<close>

locale key_reader =
  fixes pack :: "u8 list \<Rightarrow> u32" and add :: "key \<Rightarrow> nat \<Rightarrow> hash_state \<Rightarrow> hash_state"
    and tail :: "key \<Rightarrow> nat \<Rightarrow> nat \<Rightarrow> hash_state \<Rightarrow> hash_state"
  assumes add_law: "add k i s = add_block pack (key_bytes k i 12) s"
    and tail_law: "0 < n \<Longrightarrow> n \<le> 12 \<Longrightarrow> tail k i n s = add_block pack (key_bytes k i n) s"
begin

lemma add_prefix: "12 \<le> n \<Longrightarrow> add_block pack (key_bytes k i n) s = add k i s"
  by (simp add: add_law add_block_def key_bytes_drop take_key_bytes)

lemma loop_jenkins:
  "(case key_loop add k i n s of (i, n, s) \<Rightarrow> if n = 0 then s else final (tail k i n s)) = jenkins pack (key_bytes k i n) s"
proof (induction n arbitrary: i s rule: less_induct)
  case (less n)
  show ?case
  proof (cases "12 < n")
    case True
    then have "jenkins pack (key_bytes k i n) s = jenkins pack (key_bytes k (i + 12) (n - 12)) (mix (add k i s))"
      by (subst jenkins.simps) (simp add: key_bytes_drop add_prefix)
    with True less [of "n - 12" "i + 12" "mix (add k i s)"] show ?thesis by (simp add: key_loop.simps [of _ _ i n])
  next
    case False
    then have "jenkins pack (key_bytes k i n) s = (if n = 0 then s else final (add_block pack (key_bytes k i n) s))"
      by (subst jenkins.simps) (auto simp: key_bytes_def)
    with False show ?thesis by (simp add: key_loop.simps [of _ _ i n] tail_law)
  qed
qed

lemma hash_key_jenkins: "hash_key add tail k n s = jenkins pack (key_bytes k 0 n) s"
  using loop_jenkins [of k 0 n s] by (simp add: hash_key_def)

end

lemma to_twelve: "0 < n \<Longrightarrow> n \<le> 12 \<Longrightarrow> n \<in> {1, 2, 3, 4, 5, 6, 7, 8, 9, 10, 11, 12 :: nat}"
  unfolding insert_iff empty_iff by arith

lemma key_bytes_enum:
  "key_bytes k i 1 = [k i]" "key_bytes k i 2 = [k i, k (i + 1)]" "key_bytes k i 3 = [k i, k (i + 1), k (i + 2)]"
  "key_bytes k i 4 = [k i, k (i + 1), k (i + 2), k (i + 3)]" "key_bytes k i 5 = [k i, k (i + 1), k (i + 2), k (i + 3), k (i + 4)]"
  "key_bytes k i 6 = [k i, k (i + 1), k (i + 2), k (i + 3), k (i + 4), k (i + 5)]"
  "key_bytes k i 7 = [k i, k (i + 1), k (i + 2), k (i + 3), k (i + 4), k (i + 5), k (i + 6)]"
  "key_bytes k i 8 = [k i, k (i + 1), k (i + 2), k (i + 3), k (i + 4), k (i + 5), k (i + 6), k (i + 7)]"
  "key_bytes k i 9 = [k i, k (i + 1), k (i + 2), k (i + 3), k (i + 4), k (i + 5), k (i + 6), k (i + 7), k (i + 8)]"
  "key_bytes k i 10 = [k i, k (i + 1), k (i + 2), k (i + 3), k (i + 4), k (i + 5), k (i + 6), k (i + 7), k (i + 8), k (i + 9)]"
  "key_bytes k i 11 = [k i, k (i + 1), k (i + 2), k (i + 3), k (i + 4), k (i + 5), k (i + 6), k (i + 7), k (i + 8), k (i + 9), k (i + 10)]"
  "key_bytes k i 12 = [k i, k (i + 1), k (i + 2), k (i + 3), k (i + 4), k (i + 5), k (i + 6), k (i + 7), k (i + 8), k (i + 9), k (i + 10), k (i + 11)]"
  by (simp_all add: key_bytes_Suc numeral_eq_Suc)

lemma be32_simps:
  "be32 [] = 0" "be32 [a] = le32 [0, 0, 0, a]" "be32 [a, b] = le32 [0, 0, b, a]" "be32 [a, b, c] = le32 [0, c, b, a]" "be32 [a, b, c, d] = le32 [d, c, b, a]"
  by (simp_all add: be32_def eval_nat_numeral)

lemma le32_sums:
  "le32 [a] = ucast a" "le32 [a, b] = ucast a + 256 * ucast b" "le32 [a, b, c] = ucast a + 256 * ucast b + 65536 * ucast c"
  "le32 [a, b, c, d] = ucast a + 256 * ucast b + 65536 * ucast c + 16777216 * ucast d"
  by simp_all

lemma sh_sums: "sh k i 8 = 256 * ucast (k i)" "sh k i 16 = 65536 * ucast (k i)" "sh k i 24 = 16777216 * ucast (k i)"
  by (simp_all add: sh_def push_bit_eq_mult)

lemma index_simps: "Suc (Suc (Suc i)) = i + 3" "key_bytes k i (Suc 0) = [k i]"
  by (simp_all add: key_bytes_Suc)

lemmas word_reader = index_simps(2) load32_eq load32_big_eq le32_mask le32.simps(1) be32_simps add_block_def key_bytes_enum

lemmas byte_reader = index_simps load32_eq load32_big_eq load16_eq sh_sums le32_sums push_bit_eq_mult be32_simps add_block_def key_bytes_enum Let_def

interpretation words: key_reader le32 add_words tail_words
proof
  show "add_words k i s = add_block le32 (key_bytes k i 12) s" for k i s
    by (cases s) (simp add: add_words_def word_reader add.commute add.left_commute add.assoc del: le32.simps(2))
  show "tail_words k i n s = add_block le32 (key_bytes k i n) s" if "0 < n" "n \<le> 12" for n k i s
    using to_twelve [OF that] by (cases s) (auto simp: tail_words_def word_reader add.commute add.left_commute add.assoc simp del: le32.simps(2))
qed

interpretation words_big: key_reader be32 add_words_big tail_words_big
proof
  show "add_words_big k i s = add_block be32 (key_bytes k i 12) s" for k i s
    by (cases s) (simp add: add_words_big_def word_reader add.commute add.left_commute add.assoc del: le32.simps(2))
  show "tail_words_big k i n s = add_block be32 (key_bytes k i n) s" if "0 < n" "n \<le> 12" for n k i s
    using to_twelve [OF that] by (cases s) (auto simp: tail_words_big_def word_reader add.commute add.left_commute add.assoc simp del: le32.simps(2))
qed

interpretation halves: key_reader le32 add_halves tail_halves
proof
  show "add_halves k i s = add_block le32 (key_bytes k i 12) s" for k i s
    by (cases s) (simp add: add_halves_def byte_reader algebra_simps)
  show "tail_halves k i n s = add_block le32 (key_bytes k i n) s" if "0 < n" "n \<le> 12" for n k i s
    using to_twelve [OF that] by (cases s) (auto simp: tail_halves_def byte_reader algebra_simps)
qed

interpretation bytes: key_reader le32 add_bytes tail_bytes
proof
  show "add_bytes k i s = add_block le32 (key_bytes k i 12) s" for k i s
    by (cases s) (simp add: add_bytes_def byte_reader algebra_simps)
  show "tail_bytes k i n s = add_block le32 (key_bytes k i n) s" if "0 < n" "n \<le> 12" for n k i s
    using to_twelve [OF that] by (cases s) (auto simp: tail_bytes_def byte_reader algebra_simps)
qed

interpretation bytes_big: key_reader be32 add_bytes_big tail_bytes_big
proof
  show "add_bytes_big k i s = add_block be32 (key_bytes k i 12) s" for k i s
    by (cases s) (simp add: add_bytes_big_def byte_reader algebra_simps)
  show "tail_bytes_big k i n s = add_block be32 (key_bytes k i n) s" if "0 < n" "n \<le> 12" for n k i s
    using to_twelve [OF that] by (cases s) (auto simp: tail_bytes_big_def byte_reader algebra_simps)
qed

interpretation words_valgrind: key_reader le32 add_words tail_words_valgrind
proof
  show "add_words k i s = add_block le32 (key_bytes k i 12) s" for k i s by (rule words.add_law)
  show "tail_words_valgrind k i n s = add_block le32 (key_bytes k i n) s" if "0 < n" "n \<le> 12" for n k i s
    using to_twelve [OF that] by (cases s) (auto simp: tail_words_valgrind_def byte_reader algebra_simps)
qed

interpretation words_big_valgrind: key_reader be32 add_words_big tail_words_big_valgrind
proof
  show "add_words_big k i s = add_block be32 (key_bytes k i 12) s" for k i s by (rule words_big.add_law)
  show "tail_words_big_valgrind k i n s = add_block be32 (key_bytes k i n) s" if "0 < n" "n \<le> 12" for n k i s
    using to_twelve [OF that] by (cases s) (auto simp: tail_words_big_valgrind_def byte_reader algebra_simps)
qed

section \<open>Lemmas about the hash functions\<close>

lemma hash_little_jenkins: "hash_little valgrind little_endian addr k n s = jenkins le32 (key_bytes k 0 n) s"
  by (simp add: hash_little_def words.hash_key_jenkins words_valgrind.hash_key_jenkins halves.hash_key_jenkins bytes.hash_key_jenkins)

lemma xor_twice: "(x XOR r) XOR r = (x :: u32)"
  by (simp add: xor.assoc)

lemmas undo_simps = Let_def prod.case add_diff_cancel_right' diff_add_cancel xor_twice

lemma unmix_mix: "unmix (mix s) = s"
  by (cases s) (simp only: mix_def unmix_def undo_simps)

lemma bij_mix: "bij mix"
proof -
  have "inj mix" by (rule inj_on_inverseI) (rule unmix_mix)
  then show ?thesis by (simp add: bij_def finite_UNIV_inj_surj)
qed

lemma unfinal_final: "unfinal (final s) = s"
  by (cases s) (simp only: final_def unfinal_def undo_simps)

lemma bij_final: "bij final"
proof -
  have "inj final" by (rule inj_on_inverseI) (rule unfinal_final)
  then show ?thesis by (simp add: bij_def finite_UNIV_inj_surj)
qed

text \<open>Keys of words hash as their bytes.\<close>

lemma hashword_loop_jenkins:
  assumes "\<And>i. k i = pack (key_bytes kb (4 * i) 4)" "pack [] = 0"
  shows "(case hashword_loop k i n s of (i, n, s) \<Rightarrow> hashword_last k i n s) = jenkins pack (key_bytes kb (4 * i) (4 * n)) s"
proof (induction n arbitrary: i s rule: less_induct)
  case (less n)
  obtain a b c where s: "s = (a, b, c)" by (cases s)
  have k: "k i = pack (key_bytes kb (4 * i) 4)" "k (i + 1) = pack (key_bytes kb (4 * i + 4) 4)" "k (i + 2) = pack (key_bytes kb (4 * i + 8) 4)"
    using assms(1) [of i] assms(1) [of "i + 1"] assms(1) [of "i + 2"] by (simp_all add: algebra_simps)
  have e: "key_bytes kb j 0 = []" for j by (simp add: key_bytes_def)
  consider "n = 0" | "n = 1" | "n = 2" | "3 \<le> n" by linarith
  then have blk: "add_block pack (key_bytes kb (4 * i) (4 * n)) s =
      (if n \<ge> 1 then a + k i else a, if n \<ge> 2 then b + k (i + 1) else b, if n \<ge> 3 then c + k (i + 2) else c)"
    unfolding k by cases (simp_all add: s add_block_def key_bytes_drop take_key_bytes e assms(2))
  show ?case
  proof (cases "3 < n")
    case True
    have "jenkins pack (key_bytes kb (4 * i) (4 * n)) s = jenkins pack (key_bytes kb (4 * (i + 3)) (4 * (n - 3))) (mix (a + k i, b + k (i + 1), c + k (i + 2)))"
      using True blk by (subst jenkins.simps) (simp add: key_bytes_drop diff_mult_distrib2 add.commute)
    with True less [of "n - 3" "i + 3" "mix (a + k i, b + k (i + 1), c + k (i + 2))"] show ?thesis
      by (simp add: s hashword_loop.simps [of k i n])
  next
    case False
    have "key_bytes kb (4 * i) (4 * n) = [] \<longleftrightarrow> n = 0" by (simp flip: length_0_conv)
    then have "jenkins pack (key_bytes kb (4 * i) (4 * n)) s = (if n = 0 then s else final (add_block pack (key_bytes kb (4 * i) (4 * n)) s))"
      using False by (subst jenkins.simps) simp
    with False blk show ?thesis by (auto simp: s hashword_last_def hashword_loop.simps [of k i n] Let_def)
  qed
qed

lemma ucast_shift: "ucast (push_bit 2 (len :: size_t)) = push_bit 2 (ucast len :: u32)" "ucast (4 * len) = push_bit 2 (ucast len :: u32)"
proof -
  show e: "ucast (push_bit 2 len) = push_bit 2 (ucast len :: u32)" by (rule bit_word_eqI) (auto simp: bit_simps)
  have "push_bit 2 len = 4 * len" by (simp add: push_bit_eq_mult)
  with e show "ucast (4 * len) = push_bit 2 (ucast len :: u32)" by simp
qed

lemma hashword_jenkins:
  assumes "\<And>i. k i = pack (key_bytes kb (4 * i) 4)" "pack [] = 0"
  shows "hashword k len initval =
    (let s = 0xdeadbeef + push_bit 2 (ucast len) + initval; (a, b, c) = jenkins pack (key_bytes kb 0 (4 * unat len)) (s, s, s) in c)"
proof -
  let ?s = "0xdeadbeef + push_bit 2 (ucast len) + initval"
  obtain i n s where l: "hashword_loop k 0 (unat len) (?s, ?s, ?s) = (i, n, s)" by (metis surj_pair)
  then have "hashword_last k i n s = jenkins pack (key_bytes kb 0 (4 * unat len)) (?s, ?s, ?s)"
    using hashword_loop_jenkins [OF assms, of 0 "unat len" "(?s, ?s, ?s)"] by simp
  then show ?thesis by (simp add: hashword_def l Let_def)
qed

section \<open>Properties\<close>

text \<open>(C38) The hash of a key of bytes is a function of these bytes: whatever the alignment of the key, the byte order of the host
  and the bytes behind the key that the word-wise variants read, \<open>hashlittle2\<close> and \<open>hashlittle\<close> return what the specification
  gives on the list of the bytes.\<close>

theorem hashlittle_depends_on_bytes:
  "hashlittle2 valgrind little_endian addr k len pc pb =
     (let s = 0xdeadbeef + ucast len + pc; (a, b, c) = jenkins le32 (map k [0..<unat len]) (s, s, s + pb) in (c, b)) \<and>
   hashlittle valgrind little_endian addr k len pc =
     (let s = 0xdeadbeef + ucast len + pc; (a, b, c) = jenkins le32 (map k [0..<unat len]) (s, s, s) in c)"
  by (simp add: hashlittle2_def hashlittle_def hash_little_jenkins key_bytes_def)

text \<open>(C39) The documented relations between the hash functions hold: \<open>hashword\<close> on an array of words is \<open>hashlittle\<close> on its bytes
  on a little-endian host and \<open>hashbig\<close> on a big-endian one, and \<open>hashword2\<close> with a second seed of zero gives the hash of
  \<open>hashword\<close>; neither mixing step loses information.\<close>

theorem hash_functions_agree:
  assumes "unat len * 4 < 2 ^ 64"
  shows "hashword (\<lambda>i. load32 kb (4 * i)) len initval = hashlittle valgrind True addr kb (4 * len) initval \<and>
    hashword (\<lambda>i. load32_big kb (4 * i)) len initval = hashbig valgrind True addr kb (4 * len) initval \<and>
    fst (hashword2 k len initval 0) = hashword k len initval \<and> bij mix \<and> bij final"
proof -
  have l: "unat (4 * len) = 4 * unat len" using assms by (simp add: unat_word_ariths)
  have "hashword (\<lambda>i. load32 kb (4 * i)) len initval = hashlittle valgrind True addr kb (4 * len) initval"
    by (subst hashword_jenkins [where pack = le32 and kb = kb])
      (simp_all add: load32_eq key_bytes_enum hashlittle_def hash_little_jenkins l ucast_shift)
  moreover have "hashword (\<lambda>i. load32_big kb (4 * i)) len initval = hashbig valgrind True addr kb (4 * len) initval"
    by (subst hashword_jenkins [where pack = be32 and kb = kb])
      (simp_all add: load32_big_eq be32_simps key_bytes_enum hashbig_def words_big.hash_key_jenkins words_big_valgrind.hash_key_jenkins
        bytes_big.hash_key_jenkins l ucast_shift Let_def)
  moreover have "fst (hashword2 k len initval 0) = hashword k len initval"
    by (simp add: hashword2_def hashword_def ucast_shift Let_def split: prod.split)
  ultimately show ?thesis using bij_mix bij_final by simp
qed

theorem hash_functions_agree_witness:
  "hashword (\<lambda>i. load32 (\<lambda>j. word_of_nat (j + 7)) (4 * i)) 5 0 = hashlittle False True 1 (\<lambda>j. word_of_nat (j + 7)) 20 0 \<and>
   hashword (\<lambda>i. load32_big (\<lambda>j. word_of_nat (j + 7)) (4 * i)) 5 0 = hashbig False True 1 (\<lambda>j. word_of_nat (j + 7)) 20 0 \<and>
   fst (hashword2 word_of_nat 5 0 0) = hashword word_of_nat 5 0 \<and> bij mix \<and> bij final"
  using hash_functions_agree [of 5 "\<lambda>j. word_of_nat (j + 7)" 0 False 1 word_of_nat] by simp

text \<open>Hashing a pointer and combining two hashes do not depend on where the arguments are stored.\<close>

theorem fixed_size_hashes:
  "aws_hash_ptr valgrind little_endian addr behind item = aws_hash_ptr valgrind' little_endian addr' behind' item \<and>
   aws_hash_combine valgrind little_endian addr behind item1 item2 = aws_hash_combine valgrind' little_endian addr' behind' item1 item2"
proof -
  have "map (object64 little_endian x behind) [0..<8] = map (object64 little_endian x behind') [0..<8]" for x
    by (simp add: object64_def)
  then have "key_bytes (object64 little_endian x behind) 0 8 = key_bytes (object64 little_endian x behind') 0 8" for x
    by (simp add: key_bytes_def)
  then show ?thesis by (simp add: aws_hash_ptr_def aws_hash_combine_def hashlittle2_def hash_little_jenkins)
qed

end
