(* ===== verification/Aws_String.thy ===== *)
theory Aws_String
  imports Byte_Cursor Lookup3
begin

text \<open>
  Strings of \<open>source/string.c\<close> and \<open>include/aws/common/string.inl\<close>, and the hash functions on bytes in memory of
  \<open>source/hash_table.c\<close>.

  A string is an allocation that starts with the members \<open>allocator\<close> and \<open>len\<close>, which never change after the creation,
  followed by the bytes and a terminator. The two members are kept in the record that stands for the pointer, the bytes
  are in memory at offset 16. A pointer argument that may be \<open>NULL\<close> is an option.

  A hash reads whole words at the address of the key; the record \<open>host\<close> gives the byte order, the addresses of pointers
  and what is read behind an allocation.
\<close>

section \<open>Creation\<close>

record aws_string =
  str_addr :: ptr
  str_allocator :: "aws_allocator option"
  str_len :: size_t

definition aws_string_bytes :: "aws_string \<Rightarrow> ptr" where
  "aws_string_bytes str = ptr_add (str_addr str) 16"

definition aws_string_c_str :: "aws_string \<Rightarrow> ptr" where
  "aws_string_c_str str = ptr_add (str_addr str) 16"

definition aws_string_is_valid :: "memory \<Rightarrow> aws_string option \<Rightarrow> bool res" where
  "aws_string_is_valid m str =
     (case str of
        None \<Rightarrow> Inr False
      | Some str \<Rightarrow> bind_res (load_u8 m (aws_string_bytes str) (unat (str_len str))) (\<lambda>c. Inr (c = 0)))"

definition aws_c_string_is_valid :: "ptr \<Rightarrow> bool" where
  "aws_c_string_is_valid str \<longleftrightarrow> str \<noteq> Null"

definition aws_char_is_space :: "u8 \<Rightarrow> bool" where
  "aws_char_is_space c = aws_isspace c"

text \<open>\<open>sizeof(struct aws_string)\<close> is 24.\<close>

definition aws_string_new_from_array :: "memory \<Rightarrow> aws_allocator option \<Rightarrow> ptr \<Rightarrow> size_t \<Rightarrow> (aws_string \<times> memory) res" where
  "aws_string_new_from_array m allocator bytes len =
     bind_res (aws_add_size_checked (24 + 1) len) (\<lambda>malloc_size.
     bind_res (aws_mem_acquire m allocator malloc_size) (\<lambda>(p, m).
       let str = \<lparr>str_addr = p, str_allocator = allocator, str_len = len\<rparr> in
       bind_res (if len > 0 then memcpy m (aws_string_bytes str) bytes (unat len) else Inr m) (\<lambda>m.
       bind_res (store_u8 m (aws_string_bytes str) (unat len) 0) (\<lambda>m. Inr (str, m)))))"

definition aws_string_new_from_c_str :: "memory \<Rightarrow> aws_allocator option \<Rightarrow> ptr \<Rightarrow> (aws_string \<times> memory) res" where
  "aws_string_new_from_c_str m allocator c_str =
     bind_res (strlen m c_str) (\<lambda>n. aws_string_new_from_array m allocator c_str (word_of_nat n))"

definition aws_string_new_from_string :: "memory \<Rightarrow> aws_allocator option \<Rightarrow> aws_string \<Rightarrow> (aws_string \<times> memory) res" where
  "aws_string_new_from_string m allocator str = aws_string_new_from_array m allocator (aws_string_bytes str) (str_len str)"

definition aws_string_new_from_cursor :: "memory \<Rightarrow> aws_allocator option \<Rightarrow> byte_cursor \<Rightarrow> (aws_string \<times> memory) res" where
  "aws_string_new_from_cursor m allocator cursor = aws_string_new_from_array m allocator (c_ptr cursor) (c_len cursor)"

definition aws_string_new_from_buf :: "memory \<Rightarrow> aws_allocator option \<Rightarrow> byte_buf \<Rightarrow> (aws_string \<times> memory) res" where
  "aws_string_new_from_buf m allocator buf = aws_string_new_from_array m allocator (b_buffer buf) (b_len buf)"

definition aws_string_destroy :: "memory \<Rightarrow> aws_string option \<Rightarrow> memory res" where
  "aws_string_destroy m str =
     (case str of
        None \<Rightarrow> Inr m
      | Some str \<Rightarrow> if str_allocator str \<noteq> None then aws_mem_release m (str_allocator str) (str_addr str) else Inr m)"

definition aws_string_destroy_secure :: "memory \<Rightarrow> aws_string option \<Rightarrow> memory res" where
  "aws_string_destroy_secure m str =
     (case str of
        None \<Rightarrow> Inr m
      | Some str \<Rightarrow>
          bind_res (aws_secure_zero m (aws_string_bytes str) (str_len str)) (\<lambda>m.
            if str_allocator str \<noteq> None then aws_mem_release m (str_allocator str) (str_addr str) else Inr m))"

definition aws_string_clone_or_reuse :: "memory \<Rightarrow> aws_allocator option \<Rightarrow> aws_string \<Rightarrow> (aws_string \<times> memory) res" where
  "aws_string_clone_or_reuse m allocator str =
     (if str_allocator str = None then Inr (str, m) else aws_string_new_from_string m allocator str)"

section \<open>Comparison\<close>

text \<open>The record of a string stands for its address, so equal pointers are equal records.\<close>

definition aws_string_compare :: "memory \<Rightarrow> aws_string option \<Rightarrow> aws_string option \<Rightarrow> int res" where
  "aws_string_compare m a b =
     (if a = b then Inr 0
      else case (a, b) of
        (None, _) \<Rightarrow> Inr (- 1)
      | (_, None) \<Rightarrow> Inr 1
      | (Some a, Some b) \<Rightarrow>
          let len_a = str_len a; len_b = str_len b; min_len = (if len_a < len_b then len_a else len_b) in
          bind_res (memcmp m (aws_string_bytes a) (aws_string_bytes b) (unat min_len)) (\<lambda>ret.
            if ret \<noteq> 0 then Inr ret
            else if len_a = len_b then Inr 0
            else if len_a > len_b then Inr 1
            else Inr (- 1)))"

text \<open>The arguments point to slots that hold pointers to strings: the address of the slot and the pointer in it.\<close>

definition aws_array_list_comparator_string ::
  "memory \<Rightarrow> (nat \<times> aws_string option) option \<Rightarrow> (nat \<times> aws_string option) option \<Rightarrow> int res" where
  "aws_array_list_comparator_string m a b =
     (if a = b then Inr 0
      else case (a, b) of
        (None, _) \<Rightarrow> Inr (- 1)
      | (_, None) \<Rightarrow> Inr 1
      | (Some (_, str_a), Some (_, str_b)) \<Rightarrow> aws_string_compare m str_a str_b)"

definition aws_string_eq :: "memory \<Rightarrow> aws_string option \<Rightarrow> aws_string option \<Rightarrow> bool res" where
  "aws_string_eq m a b =
     (if a = b then Inr True
      else case (a, b) of
        (Some a, Some b) \<Rightarrow> aws_array_eq m (aws_string_bytes a) (str_len a) (aws_string_bytes b) (str_len b)
      | _ \<Rightarrow> Inr False)"

definition aws_string_eq_ignore_case :: "memory \<Rightarrow> aws_string option \<Rightarrow> aws_string option \<Rightarrow> bool res" where
  "aws_string_eq_ignore_case m a b =
     (if a = b then Inr True
      else case (a, b) of
        (Some a, Some b) \<Rightarrow> aws_array_eq_ignore_case m (aws_string_bytes a) (str_len a) (aws_string_bytes b) (str_len b)
      | _ \<Rightarrow> Inr False)"

definition aws_string_eq_byte_cursor :: "memory \<Rightarrow> aws_string option \<Rightarrow> byte_cursor option \<Rightarrow> bool res" where
  "aws_string_eq_byte_cursor m str cur =
     (case (str, cur) of
        (None, None) \<Rightarrow> Inr True
      | (Some str, Some cur) \<Rightarrow> aws_array_eq m (aws_string_bytes str) (str_len str) (c_ptr cur) (c_len cur)
      | _ \<Rightarrow> Inr False)"

definition aws_string_eq_byte_cursor_ignore_case :: "memory \<Rightarrow> aws_string option \<Rightarrow> byte_cursor option \<Rightarrow> bool res" where
  "aws_string_eq_byte_cursor_ignore_case m str cur =
     (case (str, cur) of
        (None, None) \<Rightarrow> Inr True
      | (Some str, Some cur) \<Rightarrow> aws_array_eq_ignore_case m (aws_string_bytes str) (str_len str) (c_ptr cur) (c_len cur)
      | _ \<Rightarrow> Inr False)"

definition aws_string_eq_byte_buf :: "memory \<Rightarrow> aws_string option \<Rightarrow> byte_buf option \<Rightarrow> bool res" where
  "aws_string_eq_byte_buf m str buf =
     (case (str, buf) of
        (None, None) \<Rightarrow> Inr True
      | (Some str, Some buf) \<Rightarrow> aws_array_eq m (aws_string_bytes str) (str_len str) (b_buffer buf) (b_len buf)
      | _ \<Rightarrow> Inr False)"

definition aws_string_eq_byte_buf_ignore_case :: "memory \<Rightarrow> aws_string option \<Rightarrow> byte_buf option \<Rightarrow> bool res" where
  "aws_string_eq_byte_buf_ignore_case m str buf =
     (case (str, buf) of
        (None, None) \<Rightarrow> Inr True
      | (Some str, Some buf) \<Rightarrow> aws_array_eq_ignore_case m (aws_string_bytes str) (str_len str) (b_buffer buf) (b_len buf)
      | _ \<Rightarrow> Inr False)"

definition aws_string_eq_c_str :: "memory \<Rightarrow> aws_string option \<Rightarrow> ptr \<Rightarrow> bool res" where
  "aws_string_eq_c_str m str c_str =
     (case str of
        None \<Rightarrow> Inr (c_str = Null)
      | Some str \<Rightarrow> if c_str = Null then Inr False else aws_array_eq_c_str m (aws_string_bytes str) (str_len str) c_str)"

definition aws_string_eq_c_str_ignore_case :: "memory \<Rightarrow> aws_string option \<Rightarrow> ptr \<Rightarrow> bool res" where
  "aws_string_eq_c_str_ignore_case m str c_str =
     (case str of
        None \<Rightarrow> Inr (c_str = Null)
      | Some str \<Rightarrow> if c_str = Null then Inr False
                    else aws_array_eq_c_str_ignore_case m (aws_string_bytes str) (str_len str) c_str)"

section \<open>Other operations\<close>

definition aws_byte_buf_write_from_whole_string ::
  "memory \<Rightarrow> byte_buf option \<Rightarrow> aws_string option \<Rightarrow> bool res \<times> byte_buf option \<times> memory" where
  "aws_byte_buf_write_from_whole_string m buf src =
     (case (buf, src) of
        (Some buf, Some src) \<Rightarrow>
          (case aws_byte_buf_write m buf (aws_string_bytes src) (str_len src) of (r, buf, m) \<Rightarrow> (r, Some buf, m))
      | _ \<Rightarrow> (Inr False, buf, m))"

definition aws_byte_cursor_from_string :: "aws_string \<Rightarrow> byte_cursor" where
  "aws_byte_cursor_from_string src = aws_byte_cursor_from_array (aws_string_bytes src) (str_len src)"

text \<open>The flag says whether the argument \<open>str_len\<close> is not \<open>NULL\<close>.\<close>

definition aws_secure_strlen :: "memory \<Rightarrow> ptr \<Rightarrow> size_t \<Rightarrow> bool \<Rightarrow> size_t res" where
  "aws_secure_strlen m str max_read_len has_str_len =
     (if \<not> (str \<noteq> Null \<and> has_str_len) then aws_raise_error AWS_ERROR_INVALID_ARGUMENT
      else bind_res (memchr m str 0 (unat max_read_len)) (\<lambda>null_char_ptr.
        if null_char_ptr \<noteq> Null then ptr_sub null_char_ptr str
        else aws_raise_error AWS_ERROR_C_STRING_BUFFER_NOT_NULL_TERMINATED))"

section \<open>Hash functions\<close>

record host =
  h_valgrind :: bool
  h_little_endian :: bool
  h_address :: "ptr \<Rightarrow> size_t"
  h_behind :: "ptr \<Rightarrow> key"

definition key_at :: "host \<Rightarrow> memory \<Rightarrow> ptr \<Rightarrow> key" where
  "key_at h m p i = (case load_u8 m p i of Inr v \<Rightarrow> v | Inl _ \<Rightarrow> h_behind h p i)"

definition readable :: "memory \<Rightarrow> ptr \<Rightarrow> nat \<Rightarrow> bool" where
  "readable m p n \<longleftrightarrow> list_all (\<lambda>i. load_u8 m p i \<noteq> Inl Undefined) [0..<n]"

text \<open>The three functions on strings start from the same digits of pi.\<close>

definition hash_memory :: "host \<Rightarrow> memory \<Rightarrow> ptr \<Rightarrow> size_t \<Rightarrow> u64 res" where
  "hash_memory h m p len =
     (if readable m p (unat len)
      then Inr (join32 (hashlittle2 (h_valgrind h) (h_little_endian h) (h_address h p) (key_at h m p) len 0x885A308D 0x3243F6A8))
      else Inl Undefined)"

definition aws_hash_c_string :: "host \<Rightarrow> memory \<Rightarrow> ptr \<Rightarrow> u64 res" where
  "aws_hash_c_string h m str = bind_res (strlen m str) (\<lambda>n. hash_memory h m str (word_of_nat n))"

definition aws_hash_string :: "host \<Rightarrow> memory \<Rightarrow> aws_string \<Rightarrow> u64 res" where
  "aws_hash_string h m str = hash_memory h m (aws_string_bytes str) (str_len str)"

definition aws_hash_byte_cursor_ptr :: "host \<Rightarrow> memory \<Rightarrow> byte_cursor \<Rightarrow> u64 res" where
  "aws_hash_byte_cursor_ptr h m cur = hash_memory h m (c_ptr cur) (c_len cur)"

text \<open>\<open>strcmp\<close> on what is left of the two allocations.\<close>

fun strcmp_list :: "byte list \<Rightarrow> byte list \<Rightarrow> int res" where
  "strcmp_list (Some x # xs) (Some y # ys) =
     (if x < y then Inr (- 1) else if x > y then Inr 1 else if x = 0 then Inr 0 else strcmp_list xs ys)"
| "strcmp_list _ _ = Inl Undefined"

fun rest_of :: "memory \<Rightarrow> ptr \<Rightarrow> byte list" where
  "rest_of m Null = []"
| "rest_of m (Ptr b off) = (case m_blocks m b of None \<Rightarrow> [] | Some bs \<Rightarrow> drop off bs)"

definition strcmp :: "memory \<Rightarrow> ptr \<Rightarrow> ptr \<Rightarrow> int res" where
  "strcmp m a b = strcmp_list (rest_of m a) (rest_of m b)"

definition aws_hash_callback_c_str_eq :: "memory \<Rightarrow> ptr \<Rightarrow> ptr \<Rightarrow> bool res" where
  "aws_hash_callback_c_str_eq m a b = bind_res (strcmp m a b) (\<lambda>c. Inr (c = 0))"

definition aws_hash_callback_string_eq :: "memory \<Rightarrow> aws_string \<Rightarrow> aws_string \<Rightarrow> bool res" where
  "aws_hash_callback_string_eq m a b = aws_string_eq m (Some a) (Some b)"

definition aws_hash_callback_string_destroy :: "memory \<Rightarrow> aws_string \<Rightarrow> memory res" where
  "aws_hash_callback_string_destroy m a = aws_string_destroy m (Some a)"

section \<open>Abstraction\<close>

text \<open>The string holds \<open>xs\<close> and a terminator.\<close>

definition str_holds :: "memory \<Rightarrow> aws_string \<Rightarrow> u8 list \<Rightarrow> bool" where
  "str_holds m str xs \<longleftrightarrow> unat (str_len str) = length xs \<and> holds m (aws_string_bytes str) (xs @ [0])"

text \<open>A C string: bytes that are not zero and a terminator.\<close>

definition c_str_holds :: "memory \<Rightarrow> ptr \<Rightarrow> u8 list \<Rightarrow> bool" where
  "c_str_holds m p xs \<longleftrightarrow> holds m p (xs @ [0]) \<and> 0 \<notin> set xs \<and> length xs < 2 ^ 64"

text \<open>The hash of a list of bytes.\<close>

definition hash_list :: "u8 list \<Rightarrow> u64" where
  "hash_list xs =
     (let s = 0xdeadbeef + word_of_nat (length xs) + 0x885A308D;
          (a, b, c) = jenkins le32 xs (s, s, s + 0x3243F6A8)
      in join32 (c, b))"

text \<open>The functions that a table keyed by strings is made with, in a memory that holds the keys.\<close>

definition string_hash :: "host \<Rightarrow> memory \<Rightarrow> aws_string \<Rightarrow> u64" where
  "string_hash h m s = (case aws_hash_string h m s of Inr v \<Rightarrow> v | Inl _ \<Rightarrow> 0)"

definition string_same :: "memory \<Rightarrow> aws_string \<Rightarrow> aws_string \<Rightarrow> bool" where
  "string_same m a b \<longleftrightarrow> aws_hash_callback_string_eq m a b = Inr True"

text \<open>A memory with the text \<open>abc\<close> and a terminator, and a cursor to the text.\<close>

definition abc_memory :: memory where
  "abc_memory = \<lparr>m_blocks = (\<lambda>b. None)(0 \<mapsto> map Some [97, 98, 99, 0]), m_next = 1\<rparr>"

definition abc_cursor :: byte_cursor where
  "abc_cursor = \<lparr>c_len = 3, c_ptr = Ptr 0 0\<rparr>"

text \<open>A memory with two strings that hold \<open>hi\<close>, at different addresses.\<close>

definition hi_memory :: memory where
  "hi_memory = \<lparr>m_blocks = (\<lambda>b. None)(0 \<mapsto> replicate 16 None @ map Some [104, 105, 0], 1 \<mapsto> replicate 16 None @ map Some [104, 105, 0]), m_next = 2\<rparr>"

definition hi_string :: "nat \<Rightarrow> aws_string" where
  "hi_string b = \<lparr>str_addr = Ptr b 0, str_allocator = None, str_len = 2\<rparr>"

definition some_host :: host where
  "some_host = \<lparr>h_valgrind = False, h_little_endian = True, h_address = (\<lambda>p. case p of Null \<Rightarrow> 0 | Ptr b off \<Rightarrow> word_of_nat (b + off)), h_behind = (\<lambda>p i. 255)\<rparr>"

section \<open>Abstraction and invariant\<close>



section \<open>Lemmas\<close>

section \<open>Lemmas about strings\<close>

lemma str_holdsD: "str_holds m str xs \<Longrightarrow> holds m (aws_string_bytes str) xs" "str_holds m str xs \<Longrightarrow> unat (str_len str) = length xs"
  by (auto simp: str_holds_def holds_append)

lemma new_from_array_ok:
  assumes ok: "mem_ok m" and h: "holds m bytes xs" "unat len = length xs" and n: "length xs + 25 < 2 ^ 64"
  obtains str m' where "aws_string_new_from_array m (Some a) bytes len = Inr (str, m')" "str_holds m' str xs" "mem_ok m'" "mem_le m m'"
    "str_addr str = Ptr (m_next m) 0" "str_allocator str = Some a" "room m' (str_addr str) (length xs + 25)" "str_len str = len"
proof -
  let ?sz = "25 + len"
  have sz: "unat ?sz = 25 + length xs" using n h(2) by (simp add: unat_word_ariths)
  then have "?sz \<noteq> 0" by auto
  then obtain p m1 where a: "aws_mem_acquire m (Some a) ?sz = Inr (p, m1)" "p = Ptr (m_next m) 0" "room m1 p (unat ?sz)" "mem_ok m1" "mem_le m m1"
    by (rule acquire_ok [OF ok])
  have c: "aws_add_size_checked 25 len = Inr ?sz" using n h(2) by (simp add: aws_add_size_checked_eq)
  have r: "room m1 (ptr_add p 16) (length xs)" "room m1 (ptr_add p (16 + length xs)) 1"
    using room_sub [OF a(3), of 16 "length xs"] room_sub [OF a(3), of "16 + length xs" 1] by (simp_all add: sz)
  have nb: "xs = [] \<or> block_of bytes \<noteq> block_of p" using h(1) fresh_block [OF ok, of bytes "length xs"] a(2) by (auto simp: holds_def)
  then have ap: "apart (ptr_add p 16) (length xs) bytes (length xs)" using apart_blocks [of "ptr_add p 16" bytes] a(2) apart_empty by auto
  obtain m2 where m2: "memcpy m1 (ptr_add p 16) bytes (length xs) = Inr m2" "holds m2 (ptr_add p 16) xs" "changed_only m1 (ptr_add p 16) (length xs) m2"
    by (rule memcpy_ok [OF mem_le_holds [OF a(5) h(1)] r(1) ap refl])
  have "room m2 (ptr_add (ptr_add p 16) (length xs)) 1" using r(2) changed_only_room [OF m2(3)] by simp
  then obtain m3 where m3: "store_u8 m2 (ptr_add p 16) (length xs) 0 = Inr m3" "holds m3 (ptr_add (ptr_add p 16) (length xs)) [0]"
    "changed_only m2 (ptr_add (ptr_add p 16) (length xs)) 1 m3" by (rule store_u8_ok)
  let ?s = "\<lparr>str_addr = p, str_allocator = Some a, str_len = len\<rparr>"
  have "holds m3 (ptr_add p 16) xs" using m2(2) changed_only_holds [OF m3(3), of "ptr_add p 16" xs] a(2) by simp
  then have "str_holds m3 ?s xs" using m3(2) h(2) by (simp add: str_holds_def aws_string_bytes_def holds_append)
  moreover have "mem_ok m3" using changed_only_mem_ok [OF m3(3)] changed_only_mem_ok [OF m2(3)] a(4) by simp
  moreover have "mem_le m m3" unfolding mem_le_def
  proof (intro allI impI)
    fix q k bs assume q: "bytes_at m q k = Some bs"
    then have "block_of q \<noteq> block_of p" using fresh_block [OF ok, of q k] a(2) by simp
    then have "apart q k (ptr_add p 16) (length xs)" "apart q k (ptr_add (ptr_add p 16) (length xs)) 1"
      using apart_blocks [of q "ptr_add p 16"] apart_blocks [of q "ptr_add (ptr_add p 16) (length xs)"] a(2) by auto
    then show "bytes_at m3 q k = Some bs" using m2(3) m3(3) a(5) q unfolding changed_only_def mem_le_def by metis
  qed
  moreover have "room m3 p (length xs + 25)"
    using a(3) changed_only_room [OF m3(3)] changed_only_room [OF m2(3)] unfolding sz by (simp add: add.commute)
  moreover have "aws_string_new_from_array m (Some a) bytes len = Inr (?s, m3)"
    using m2(1) m3(1) h(2) memcpy_if [of len m1 "ptr_add p 16" bytes]
    by (cases "0 < len") (simp_all add: aws_string_new_from_array_def c a(1) aws_string_bytes_def)
  ultimately show thesis using a(2) by (intro that [of ?s m3]) simp_all
qed

lemma new_from_array_overflow:
  "2 ^ 64 \<le> unat len + 25 \<Longrightarrow> aws_string_new_from_array m allocator bytes len = aws_raise_error AWS_ERROR_OVERFLOW_DETECTED"
  by (simp add: aws_string_new_from_array_def aws_add_size_checked_eq)

lemma destroy_string_ok:
  assumes "mem_ok m" "str_addr str = Ptr b 0" "room m (Ptr b 0) n" "0 < n"
  obtains m' where "aws_string_destroy m (Some str) = Inr m'" "mem_ok m'" "changed_block m (Ptr b 0) m'"
proof (cases "str_allocator str")
  case None
  then show thesis using that [of m] assms(1) by (simp add: aws_string_destroy_def changed_block_def)
next
  case (Some a)
  obtain m' where "s_default_free m (Ptr b 0) = Inr m'" "changed_block m (Ptr b 0) m'" "mem_ok m'"
    by (rule free_ok [OF assms(3,4,1)])
  then show thesis using that [of m'] Some assms(2) by (simp add: aws_string_destroy_def aws_mem_release_def)
qed

lemma string_compare_ok:
  assumes "str_holds m a xs" "str_holds m b ys"
  shows "aws_string_compare m (Some a) (Some b) = Inr (lex_sign xs ys)"
proof (cases "a = b")
  case True
  then have "xs = ys" using assms by (auto simp: str_holds_def holds_def)
  then show ?thesis using True by (simp add: aws_string_compare_def lex_sign_zero)
next
  case False
  let ?n = "min (length xs) (length ys)"
  have n: "unat (if str_len a < str_len b then str_len a else str_len b) = ?n"
    using str_holdsD(2) [OF assms(1)] str_holdsD(2) [OF assms(2)] by (auto simp: word_less_nat_alt)
  have "holds m (aws_string_bytes a) (take ?n xs)" "holds m (aws_string_bytes b) (take ?n ys)"
    using str_holdsD(1) [OF assms(1)] str_holdsD(1) [OF assms(2)] holds_append [of m _ "take ?n xs" "drop ?n xs"]
      holds_append [of m _ "take ?n ys" "drop ?n ys"] by auto
  then have "memcmp m (aws_string_bytes a) (aws_string_bytes b) ?n = Inr (lex_sign (take ?n xs) (take ?n ys))"
    by (rule memcmp_ok) auto
  then show ?thesis using False n lex_sign_take [of xs ys] str_holdsD(2) [OF assms(1)] str_holdsD(2) [OF assms(2)]
    by (auto simp: aws_string_compare_def Let_def word_unat_eq_iff word_less_nat_alt)
qed

lemma string_eq_ok:
  assumes "str_holds m a xs" "str_holds m b ys"
  shows "aws_string_eq m (Some a) (Some b) = Inr (xs = ys)"
proof (cases "a = b")
  case True
  then show ?thesis using assms by (auto simp: aws_string_eq_def str_holds_def holds_def)
next
  case False
  then show ?thesis using array_eq_ok [OF str_holdsD(1) [OF assms(1)] str_holdsD(1) [OF assms(2)]] str_holdsD(2) [OF assms(1)] str_holdsD(2) [OF assms(2)]
    by (simp add: aws_string_eq_def)
qed

section \<open>Lemmas about hashes\<close>

lemma readable_holds: "holds m p xs \<Longrightarrow> readable m p (length xs)"
  by (simp add: readable_def list_all_iff)

lemma hash_memory_ok:
  assumes "holds m p xs" "unat len = length xs"
  shows "hash_memory h m p len = Inr (hash_list xs)"
proof -
  have k: "map (key_at h m p) [0..<length xs] = xs"
    using assms(1) by (intro nth_equalityI) (simp_all add: key_at_def)
  have l: "ucast len = (word_of_nat (length xs) :: u32)" by (simp flip: assms(2))
  have "hashlittle2 v e ad (key_at h m p) len pc pb =
      (let s = 0xdeadbeef + ucast len + pc; (a, b, c) = jenkins le32 xs (s, s, s + pb) in (c, b))" for v e ad pc pb
    by (simp add: hashlittle2_def hash_little_jenkins key_bytes_def assms(2) k)
  then show ?thesis
    using readable_holds [OF assms(1)] assms(2) by (simp add: hash_memory_def hash_list_def l Let_def split: prod.split)
qed

lemma memcmp_zero: "memcmp m p q n = Inr 0 \<Longrightarrow> \<exists>xs. length xs = n \<and> holds m p xs \<and> holds m q xs"
proof (induction n arbitrary: p q)
  case (Suc n)
  then obtain x where x: "load_u8 m p 0 = Inr x" "load_u8 m q 0 = Inr x" "memcmp m (ptr_add p 1) (ptr_add q 1) n = Inr 0"
    by (cases "load_u8 m p 0"; cases "load_u8 m q 0") (auto split: if_splits)
  then obtain xs where xs: "length xs = n" "holds m (ptr_add p 1) xs" "holds m (ptr_add q 1) xs" using Suc.IH by blast
  have "holds m r [x]" if "load_u8 m r 0 = Inr x" for r
    using that by (auto simp: load_u8_def holds_def split: option.splits list.splits)
  then show ?case using x xs by (intro exI [of _ "x # xs"]) (simp add: holds_Cons [of m _ x xs])
qed simp

lemma holds_unique: "holds m p xs \<Longrightarrow> holds m p ys \<Longrightarrow> length xs = length ys \<Longrightarrow> xs = ys"
proof -
  assume h: "holds m p xs" "holds m p ys" "length xs = length ys"
  then have "xs = [] \<or> map Some xs = map Some ys" unfolding holds_def by (metis length_0_conv option.inject)
  then show "xs = ys" using h(3) by (auto dest: map_injective)
qed

lemma string_same_iff:
  "string_same m a b \<longleftrightarrow> a = b \<or> (\<exists>xs. unat (str_len a) = length xs \<and> unat (str_len b) = length xs \<and>
     holds m (aws_string_bytes a) xs \<and> holds m (aws_string_bytes b) xs)" (is "?L \<longleftrightarrow> ?R")
proof
  assume ?L
  then consider "a = b" | "str_len a = str_len b" "str_len a = 0" |
    "str_len a = str_len b" "memcmp m (aws_string_bytes a) (aws_string_bytes b) (unat (str_len a)) = Inr 0"
    by (auto simp: string_same_def aws_hash_callback_string_eq_def aws_string_eq_def aws_array_eq_def bind_res_def split: if_splits sum.splits)
  then show ?R
  proof cases
    case 3
    then show ?thesis using memcmp_zero [OF 3(2)] by auto
  qed auto
next
  assume ?R
  then show ?L using array_eq_ok [of m "aws_string_bytes a" _ "aws_string_bytes b" _ "str_len a" "str_len b"]
    by (auto simp: string_same_def aws_hash_callback_string_eq_def aws_string_eq_def)
qed

lemma string_hashing_same: "string_same m a b \<Longrightarrow> string_hash h m a = string_hash h m b"
  by (auto simp: string_same_iff string_hash_def aws_hash_string_def hash_memory_ok)

lemma string_same_equiv:
  "string_same m a a" "string_same m a b \<Longrightarrow> string_same m b a" "string_same m a b \<Longrightarrow> string_same m b c \<Longrightarrow> string_same m a c"
proof -
  show "string_same m a a" by (simp add: string_same_iff)
  show "string_same m a b \<Longrightarrow> string_same m b a" by (auto simp: string_same_iff)
  assume s: "string_same m a b" "string_same m b c"
  show "string_same m a c"
  proof (cases "a = b \<or> b = c")
    case True
    then show ?thesis using s by auto
  next
    case False
    then obtain xs where x: "unat (str_len a) = length xs" "unat (str_len b) = length xs" "holds m (aws_string_bytes a) xs" "holds m (aws_string_bytes b) xs"
      using s(1) unfolding string_same_iff by blast
    obtain ys where y: "unat (str_len b) = length ys" "unat (str_len c) = length ys" "holds m (aws_string_bytes b) ys" "holds m (aws_string_bytes c) ys"
      using s(2) False unfolding string_same_iff by blast
    have "xs = ys" by (rule holds_unique [OF x(4) y(3)]) (use x y in simp)
    then show ?thesis using x y unfolding string_same_iff by blast
  qed
qed

text \<open>C strings.\<close>

lemma strlen_list_ok: "0 \<notin> set xs \<Longrightarrow> strlen_list (map Some (xs @ [0]) @ bs) n = Inr (n + length xs)"
  by (induction xs arbitrary: n) auto

lemma rest_of_holds: "holds m p xs \<Longrightarrow> xs \<noteq> [] \<Longrightarrow> \<exists>bs. rest_of m p = map Some xs @ bs"
proof (cases p)
  case (Ptr b off)
  assume "holds m p xs" "xs \<noteq> []"
  then obtain bs where bs: "m_blocks m b = Some bs" "off + length xs \<le> length bs" "take (length xs) (drop off bs) = map Some xs"
    by (auto simp: holds_def Ptr split: option.splits if_splits)
  then have "drop off bs = map Some xs @ drop (length xs) (drop off bs)" by (metis append_take_drop_id)
  then show ?thesis using bs by (auto simp: Ptr)
qed simp

lemma strlen_ok:
  assumes "c_str_holds m p xs" shows "strlen m p = Inr (length xs)"
proof -
  have h: "holds m p (xs @ [0])" "0 \<notin> set xs" using assms by (simp_all add: c_str_holds_def)
  obtain bs where bs: "rest_of m p = map Some (xs @ [0]) @ bs" using rest_of_holds [OF h(1)] by auto
  obtain b off where p: "p = Ptr b off" using h(1) by (cases p) auto
  then obtain ys where "m_blocks m b = Some ys" "off \<le> length ys" using h(1) by (auto simp: holds_def split: option.splits if_splits)
  then show ?thesis using bs strlen_list_ok [OF h(2), of bs 0] by (simp add: p)
qed

lemma strcmp_list_ok:
  "0 \<notin> set xs \<Longrightarrow> 0 \<notin> set ys \<Longrightarrow> \<exists>c. strcmp_list (map Some (xs @ [0]) @ bs) (map Some (ys @ [0]) @ cs) = Inr c \<and> (c = 0 \<longleftrightarrow> xs = ys)"
proof (induction xs arbitrary: ys)
  case Nil
  then show ?case by (cases ys) (auto simp: word_neq_0_conv)
next
  case (Cons x xs)
  then show ?case by (cases ys) (auto simp: word_neq_0_conv)
qed

lemma c_str_eq_ok:
  assumes "c_str_holds m p xs" "c_str_holds m q ys"
  shows "aws_hash_callback_c_str_eq m p q = Inr (xs = ys)"
proof -
  obtain bs cs where "rest_of m p = map Some (xs @ [0]) @ bs" "rest_of m q = map Some (ys @ [0]) @ cs"
    using rest_of_holds [of m p "xs @ [0]"] rest_of_holds [of m q "ys @ [0]"] assms by (auto simp: c_str_holds_def)
  then obtain c where "strcmp m p q = Inr c" "c = 0 \<longleftrightarrow> xs = ys"
    using strcmp_list_ok [of xs ys bs cs] assms by (auto simp: c_str_holds_def strcmp_def)
  then show ?thesis by (simp add: aws_hash_callback_c_str_eq_def)
qed

lemma hi_ok: "str_holds hi_memory (hi_string 0) [104, 105]" "str_holds hi_memory (hi_string 1) [104, 105]"
  by (simp_all add: str_holds_def hi_memory_def hi_string_def aws_string_bytes_def holds_def)

section \<open>Properties\<close>



text \<open>Comparing strings is the lexical order of their bytes, a total order whose equality is that of \<open>aws_string_eq\<close>; the
  comparator for array lists gives the same result.\<close>

theorem string_compare_total_order:
  assumes "str_holds m a xs" "str_holds m b ys" "str_holds m c zs"
  shows "aws_string_compare m (Some a) (Some b) = Inr (lex_sign xs ys) \<and> aws_string_compare m (Some b) (Some c) = Inr (lex_sign ys zs) \<and>
    aws_string_compare m (Some a) (Some c) = Inr (lex_sign xs zs) \<and>
    (lex_sign xs ys \<le> 0 \<and> lex_sign ys zs \<le> 0 \<longrightarrow> lex_sign xs zs \<le> 0) \<and> aws_string_compare m (Some b) (Some a) = Inr (- lex_sign xs ys) \<and>
    aws_string_eq m (Some a) (Some b) = Inr (lex_sign xs ys = 0) \<and> (lex_sign xs ys = 0 \<longleftrightarrow> xs = ys) \<and>
    aws_array_list_comparator_string m (Some (i, Some a)) (Some (j, Some b)) = Inr (lex_sign xs ys) \<and>
    aws_string_compare m None (Some b) = Inr (- 1) \<and> aws_string_compare m (Some a) None = Inr 1"
proof -
  have "lex_sign xs ys = 0" if "a = b" using that assms by (auto simp: str_holds_def lex_sign_zero dest: holds_unique)
  then show ?thesis
    using string_compare_ok [OF assms(1,2)] string_compare_ok [OF assms(2,1)] string_compare_ok [OF assms(1,3)] string_compare_ok [OF assms(2,3)]
      string_eq_ok [OF assms(1,2)] lex_sign_zero [of xs ys] lex_sign_swap [of ys xs] lex_sign_trans [of xs ys zs]
    by (auto simp: aws_array_list_comparator_string_def aws_string_compare_def [of m None] aws_string_compare_def [of m _ None])
qed

theorem string_compare_total_order_witness:
  "aws_string_compare hi_memory (Some (hi_string 0)) (Some (hi_string 1)) = Inr 0 \<and>
   aws_string_eq hi_memory (Some (hi_string 0)) (Some (hi_string 1)) = Inr True"
  using string_compare_total_order [OF hi_ok hi_ok(1), of 0 1] by simp

text \<open>The hash of a string, of a cursor and of a C string with the same bytes is the same, whatever the host, the addresses of
  the bytes and what lies behind them, and the comparison functions for hash tables are equality of the bytes.\<close>

theorem string_hash_consistent:
  assumes "str_holds m a xs" "cur_holds m c xs" "c_str_holds m p xs" "str_holds m b ys" "c_str_holds m q ys"
  shows "aws_hash_string h m a = Inr (hash_list xs) \<and> aws_hash_byte_cursor_ptr h' m c = Inr (hash_list xs) \<and>
    aws_hash_c_string h'' m p = Inr (hash_list xs) \<and>
    aws_hash_callback_string_eq m a b = Inr (xs = ys) \<and> aws_hash_callback_c_str_eq m p q = Inr (xs = ys)"
proof -
  have "unat (word_of_nat (length xs) :: size_t) = length xs" using assms(3) by (simp add: c_str_holds_def unsigned_of_nat take_bit_nat_eq_self)
  then have "hash_memory h'' m p (word_of_nat (length xs)) = Inr (hash_list xs)"
    using assms(3) by (intro hash_memory_ok) (simp_all add: c_str_holds_def holds_append)
  then show ?thesis
    using hash_memory_ok [OF str_holdsD [OF assms(1)]] assms(2) hash_memory_ok [of m "c_ptr c" xs "c_len c"] strlen_ok [OF assms(3)]
      string_eq_ok [OF assms(1,4)] c_str_eq_ok [OF assms(3,5)]
    by (simp add: aws_hash_string_def aws_hash_byte_cursor_ptr_def aws_hash_c_string_def cur_holds_def aws_hash_callback_string_eq_def)
qed

theorem string_hash_consistent_witness:
  "aws_hash_string some_host hi_memory (hi_string 0) = Inr (hash_list [104, 105]) \<and>
   aws_hash_c_string some_host hi_memory (Ptr 1 16) = Inr (hash_list [104, 105])"
proof -
  have "cur_holds hi_memory \<lparr>c_len = 2, c_ptr = Ptr 0 16\<rparr> [104, 105]" "c_str_holds hi_memory (Ptr 1 16) [104, 105]"
    by (simp_all add: hi_memory_def cur_holds_def holds_def c_str_holds_def)
  from string_hash_consistent [OF hi_ok(1) this hi_ok(2) this(2)] show ?thesis by blast
qed

text \<open>The bounded length of a C string is the distance to the first terminator when it is within the bound, and otherwise an
  error; no byte behind the bound is read.\<close>

theorem secure_strlen_correct:
  assumes "holds m p xs" "unat max_read_len = length xs" "p \<noteq> Null"
  shows "aws_secure_strlen m p max_read_len True =
    (if 0 \<in> set xs then Inr (word_of_nat (length (takeWhile (\<lambda>x. x \<noteq> 0) xs)))
     else aws_raise_error AWS_ERROR_C_STRING_BUFFER_NOT_NULL_TERMINATED)"
  using memchr_ok [OF assms(1), of "length xs" 0] assms(2,3) by (cases p) (simp_all add: aws_secure_strlen_def)

theorem secure_strlen_correct_witness:
  "aws_secure_strlen abc_memory (Ptr 0 0) 4 True = Inr 3"
proof -
  have "holds abc_memory (Ptr 0 0) [97, 98, 99, 0]" by (simp add: abc_memory_def holds_def)
  from secure_strlen_correct [OF this, of 4] show ?thesis by simp
qed

end
