(* ===== verification/Spec2Isabelle.thy ===== *)
theory Spec2Isabelle
  imports Math_Ops Array_List Priority_Queue Hash_Table Linked_List Byte_Memory Byte_Buf Byte_Cursor Encoding Ring_Buffer Linked_Hash_Table Caches Task_Scheduler Date_Time Lookup3 Aws_String
begin

text \<open>
  Verification of aws-c-common, the C library of containers, byte buffers, encodings, dates and schedulers that the other
  libraries of the AWS Common Runtime are built on. This theory imports the whole development.

  \<^bold>\<open>The program and its parts.\<close> The library has no main program: its parts call each other. Overflow-checked arithmetic
  (\<open>math.inl\<close>) and the allocator (\<open>allocator.c\<close>) are below everything else. The dynamic array (\<open>array_list.inl\<close>), the
  priority queue on top of it (\<open>priority_queue.c\<close>), the hash table (\<open>hash_table.c\<close>) and the intrusive list
  (\<open>linked_list.inl\<close>) are the containers; the linked hash table (\<open>linked_hash_table.c\<close>) composes the last two, and the
  caches (\<open>lru_cache.c\<close>, \<open>fifo_cache.c\<close>, \<open>lifo_cache.c\<close>) are linked hash tables with an eviction policy. The task
  scheduler (\<open>task_scheduler.c\<close>) composes the priority queue and the list. Byte buffers and cursors (\<open>byte_buf.c\<close>) are
  windows on memory, which the encodings (\<open>encoding.c\<close>), the dates (\<open>date_time.c\<close>) and the ring buffer
  (\<open>ring_buffer.c\<close>) work on.

  \<^bold>\<open>Conventions.\<close> \<open>Aws_Prelude\<close> fixes them. Unsigned integers are words of their width, so that they wrap, and \<open>size_t\<close> has
  64 bits. A fallible function returns a value of type \<open>'a res\<close>: \<open>Inr\<close> with the result, or \<open>Inl\<close> with what went wrong:
  an error that the code raises (\<open>Raised\<close> with the error code of \<open>error.h\<close>), a fatal assertion (\<open>Aborted\<close>), undefined
  behaviour of C such as a read outside an allocation or a signed overflow (\<open>Undefined\<close>), or a loop that did not end
  (\<open>Diverged\<close>). Objects that a function updates are passed and returned. Definitions carry the names of the C functions
  and types; a loop is a function of its own named after the function it belongs to.

  \<^bold>\<open>What models what.\<close>

  \<^item> \<open>Math_Ops\<close>: \<open>math.inl\<close>, \<open>math.fallback.inl\<close>, \<open>math.gcc_overflow.inl\<close>, \<open>math.gcc_builtin.inl\<close>, \<open>math.c\<close>. The lemmas show
    that checked and saturating operations are exact, that rounding gives the least power of two, and where the variants
    of the headers agree.

  \<^item> \<open>Array_List\<close>: \<open>array_list.inl\<close>, \<open>array_list.c\<close>. A record with the members of the C structure; the bytes of an item are
    one slot, byte counts stay words. Every operation is shown to act on the represented list as the corresponding
    operation on lists, and to touch no slot outside the allocation.

  \<^item> \<open>Priority_Queue\<close>: \<open>priority_queue.c\<close>, the heap with its backpointers. Heap order and the consistency of the
    backpointers are the invariant; popping gives a least element, and removal by node removes that element.

  \<^item> \<open>Hash_Table\<close>: \<open>hash_table.c\<close>, the Robin Hood table. Its operations refine those of a finite map; the probe loops
    terminate on every table of the invariant.

  \<^item> \<open>Linked_List\<close>: \<open>linked_list.inl\<close>, statement by statement on a heap of nodes.

  \<^item> \<open>Linked_Hash_Table\<close> and \<open>Caches\<close>: \<open>linked_hash_table.c\<close>, \<open>cache.c\<close> and the three caches. Under every sequence of
    operations they refine an ordered list of pairs and the eviction policies on it.

  \<^item> \<open>Task_Scheduler\<close>: \<open>task_scheduler.c\<close>. A run calls the due tasks once, in order, and cleaning up cancels all of them.

  \<^item> \<open>Byte_Memory\<close>, \<open>Byte_Buf\<close>, \<open>Byte_Cursor\<close>: \<open>allocator.c\<close>, \<open>byte_buf.c\<close>, \<open>byte_order.inl\<close>. Memory is a map from allocations
    to lists of bytes, some of them uninitialised; a pointer is an allocation and an offset. The lemmas state the bytes
    that a buffer holds after each operation and that nothing else changes.

  \<^item> \<open>Encoding\<close>: \<open>encoding.c\<close>, \<open>encoding.inl\<close>. Decoding after encoding is the identity, and wrong text is rejected, with the
    exception that is proved.

  \<^item> \<open>Ring_Buffer\<close>: \<open>ring_buffer.c\<close>. Regions that are lent out never overlap, under every interleaving of the atomic accesses
    of one acquiring and one releasing thread.

  \<^item> \<open>Date_Time\<close>: \<open>clock.inl\<close>, \<open>date_time.c\<close>, \<open>posix/time.c\<close>. The C library's calendar functions are modelled, the time zone
    of the host is a parameter. Parsing what was formatted gives the date back; parsing ends on every text.

  \<^item> \<open>Lookup3\<close>: \<open>lookup3.inl\<close>. The variants that read a key by words, half words and bytes are instances of one reader of keys and
    compute one function of its bytes; the relations that the comments claim between the functions hold.

  \<^item> \<open>Aws_String\<close>: \<open>string.c\<close>, \<open>string.inl\<close> and the hash and comparison functions for strings of \<open>hash_table.c\<close>. Below in this theory,
    a hash table made with them is shown to be a map from byte sequences.

  \<^bold>\<open>Interfaces.\<close> What one component relies on of another is a locale that is interpreted on the model of the provider:
  \<open>growable_sequence\<close> (array list), \<open>priority_queue_contract\<close>, \<open>key_value_store\<close> (hash table), \<open>intrusive_queue\<close> (linked list),
  \<open>byte_sink\<close> (fixed and growing appends to a buffer) and \<open>simulation\<close> (a step function that follows an abstract one; the
  three caches). \<open>key_reader\<close> is the contract of the ways to read a key of bytes that the hash functions choose from.

  \<^bold>\<open>Bounds and fuel.\<close> Loops that count down a length recurse on it. Loops whose end depends on the data take fuel and return
  \<open>Diverged\<close> without it; the fuel is the size of the structure they walk: the number of slots for a probe of the hash table,
  the number of nodes for a walk of a list, the length of the text plus the two characters that may be read twice for the
  date parser. The theorems that state results also state that \<open>Diverged\<close> does not occur. The one exception is a defect: the
  deep check of a linked list runs forever on a circular list, which is proved for every amount of fuel.

  \<^bold>\<open>Not modelled.\<close> Code whose effect is that of the operating system: threads, mutexes, condition variables and
  read-write locks, atomics, files, processes, the environment, clocks, random devices, system information and processor
  detection, with their variants for POSIX, Windows and Android. Code that reports or tests: logging with its channels,
  writers and formatters, statistics, assertions and the test harness. Floating point, and so the two functions of
  \<open>date_time.c\<close> on \<open>double\<close>. Vector instructions (\<open>encoding_avx2.c\<close>) and inline assembly.
\<close>

section \<open>Tables keyed by strings\<close>

text \<open>The bytes of a string in memory.\<close>

definition string_contents :: "memory \<Rightarrow> aws_string \<Rightarrow> u8 list" where
  "string_contents m s =
     map (\<lambda>i. case load_u8 m (aws_string_bytes s) i of Inr v \<Rightarrow> v | Inl _ \<Rightarrow> 0) [0..<unat (str_len s)]"

text \<open>The key of an operation, and the operation on the bytes of its key.\<close>

fun kv_key :: "('k, 'v) kv_op \<Rightarrow> 'k" where
  "kv_key (Put k v) = k"
| "kv_key (Del k) = k"
| "kv_key (Get k) = k"

fun on_bytes :: "memory \<Rightarrow> (aws_string option, 'v) kv_op \<Rightarrow> (u8 list, 'v) kv_op" where
  "on_bytes m (Put k v) = Put (string_contents m (the k)) v"
| "on_bytes m (Del k) = Del (string_contents m (the k))"
| "on_bytes m (Get k) = Get (string_contents m (the k))"

text \<open>A pointer to a string that holds some bytes.\<close>

definition string_key :: "memory \<Rightarrow> aws_string option \<Rightarrow> bool" where
  "string_key m k \<longleftrightarrow> (case k of None \<Rightarrow> False | Some s \<Rightarrow> str_holds m s (string_contents m s))"

lemma string_contents_holds:
  assumes "str_holds m s xs" shows "string_contents m s = xs"
  using str_holdsD [OF assms] by (intro nth_equalityI) (simp_all add: string_contents_def)

lemma string_key_same:
  assumes "string_key m a" "string_key m b"
  shows "s_safe_eq_check (string_same m) a b \<longleftrightarrow> string_contents m (the a) = string_contents m (the b)"
proof -
  obtain s t where st: "a = Some s" "b = Some t" "str_holds m s (string_contents m s)" "str_holds m t (string_contents m t)"
    using assms by (auto simp: string_key_def split: option.splits)
  show ?thesis using string_eq_ok [OF st(3,4)] st(1,2)
    by (auto simp: s_safe_eq_check_def string_same_def aws_hash_callback_string_eq_def)
qed

lemma kv_run_ops: "kv_run put del get s ops = (t, s') \<Longrightarrow> map fst t = ops"
  by (induction ops arbitrary: s t s') (auto split: prod.splits)

lemma accepts_on_bytes:
  assumes "kv_accepts (s_safe_eq_check (string_same m)) M t = Some M'" "list_all (\<lambda>(op, r). string_key m (kv_key op)) t"
    "\<forall>k. string_key m k \<longrightarrow> M k = N (string_contents m (the k))"
  shows "\<exists>N'. kv_accepts (=) N (map (\<lambda>(op, r). (on_bytes m op, r)) t) = Some N' \<and> (\<forall>k. string_key m k \<longrightarrow> M' k = N' (string_contents m (the k)))"
  using assms
proof (induction "s_safe_eq_check (string_same m)" M t arbitrary: N rule: kv_accepts.induct)
  case (2 M k v b t)
  let ?M = "\<lambda>x. if s_safe_eq_check (string_same m) k x then Some v else M x"
  let ?N = "\<lambda>x. if string_contents m (the k) = x then Some v else N x"
  have k: "string_key m k" using "2.prems"(2) by simp
  have "\<forall>x. string_key m x \<longrightarrow> ?M x = ?N (string_contents m (the x))" using "2.prems"(3) string_key_same [OF k] by simp
  moreover have "b = (M k = None)" "kv_accepts (s_safe_eq_check (string_same m)) ?M t = Some M'" using "2.prems"(1) by (auto split: if_splits)
  ultimately show ?case using "2.hyps" [of ?N] "2.prems"(2,3) k by simp
next
  case (4 M k r t)
  let ?M = "\<lambda>x. if s_safe_eq_check (string_same m) k x then None else M x"
  let ?N = "\<lambda>x. if string_contents m (the k) = x then None else N x"
  have k: "string_key m k" using "4.prems"(2) by simp
  have "\<forall>x. string_key m x \<longrightarrow> ?M x = ?N (string_contents m (the x))" using "4.prems"(3) string_key_same [OF k] by simp
  moreover have "r = M k" "kv_accepts (s_safe_eq_check (string_same m)) ?M t = Some M'" using "4.prems"(1) by (auto split: if_splits)
  ultimately show ?case using "4.hyps" [of ?N] "4.prems"(2,3) k by simp
qed (auto split: if_splits)



end
